(* ===== verification/Go_Prelude.thy ===== *)
theory Go_Prelude
  imports Main "HOL-Library.Word"
begin

text \<open>
  Shared vocabulary of the development.

  Go values. A 64-bit signed integer (\<open>int\<close>, \<open>int64\<close>, \<open>time.Duration\<close>) is a HOL
  \<open>int\<close>; every operation of the code that can leave the 64-bit range is wrapped by
  \<open>i64\<close>, which is shown below to be the two's complement reading of a \<open>64 word\<close>.
  A \<open>time.Time\<close> is a number of nanoseconds (\<open>gotime\<close>); a function that reads the clock
  takes each reading as an argument, in the order of the calls. Strings are HOL strings.
  The order in which a \<open>for ... range\<close> visits a map is unspecified in Go, so a function
  that ranges over a map takes the visiting order as a list; \<open>iter_order\<close> says that a
  list is such an order.

  Runs. A component whose operations are single critical sections is run by folding its step
  function over a list of operations; one with several critical sections per operation, or with
  blocking operations, is an inductive step relation, and \<open>reach\<close> gives its reachable
  states. The locale \<open>inv_system\<close> states an inductive invariant once and for all.
\<close>

named_theorems go_defs "unfolding equations of operations, for functional evaluation"
named_theorems go_inv "preservation of component invariants"


section \<open>64-bit integers\<close>

definition i64 :: "int \<Rightarrow> int" where
  "i64 x = (x + 9223372036854775808) mod 18446744073709551616 - 9223372036854775808"

definition in64 :: "int \<Rightarrow> bool" where
  "in64 x \<longleftrightarrow> - 9223372036854775808 \<le> x \<and> x < 9223372036854775808"

lemma i64_id [simp]: "in64 x \<Longrightarrow> i64 x = x"
  by (simp add: i64_def in64_def)

lemma in64_i64 [simp, intro]: "in64 (i64 x)"
  by (simp add: i64_def in64_def)

lemma i64_idem [simp]: "i64 (i64 x) = i64 x"
  by simp

text \<open>\<open>i64\<close> is wrap-around arithmetic on machine words.\<close>

lemma i64_word: "i64 x = sint (word_of_int x :: 64 word)"
proof -
  have "sint (word_of_int x :: 64 word) = signed_take_bit 63 x"
    by (simp add: sint_sbintrunc')
  also have "\<dots> = (x + 2 ^ 63) mod 2 ^ 64 - 2 ^ 63"
    by (simp add: signed_take_bit_eq_take_bit_shift take_bit_eq_mod)
  finally show ?thesis by (simp add: i64_def)
qed

lemma i64_cong: "i64 x = i64 y \<longleftrightarrow> x mod 18446744073709551616 = y mod 18446744073709551616"
proof -
  let ?m = "18446744073709551616 :: int"
  have "i64 x = i64 y \<longleftrightarrow> (x + 9223372036854775808) mod ?m = (y + 9223372036854775808) mod ?m"
    by (simp add: i64_def)
  also have "\<dots> \<longleftrightarrow> x mod ?m = y mod ?m"
    by (simp only: mod_eq_dvd_iff) simp
  finally show ?thesis .
qed

lemma i64_mod: "i64 x mod 18446744073709551616 = x mod 18446744073709551616"
  using i64_cong [of "i64 x" x] by simp

lemma i64_add_left: "i64 (i64 x + y) = i64 (x + y)"
  unfolding i64_cong by (metis i64_mod mod_add_left_eq)

lemma i64_add_right: "i64 (x + i64 y) = i64 (x + y)"
  unfolding i64_cong by (metis i64_mod mod_add_right_eq)

lemma i64_diff_left: "i64 (i64 x - y) = i64 (x - y)"
  unfolding i64_cong by (metis i64_mod mod_diff_left_eq)

lemma i64_mult_right: "i64 (x * i64 y) = i64 (x * y)"
  unfolding i64_cong by (metis i64_mod mod_mult_right_eq)

lemma i64_add_two: "i64 (a + i64 b + i64 c) = i64 (a + b + c)"
proof -
  have "i64 (a + i64 b + i64 c) = i64 (i64 (a + i64 b) + c)"
    by (metis i64_add_left i64_add_right)
  also have "\<dots> = i64 (i64 (a + b) + c)"
    by (simp only: i64_add_right)
  finally show ?thesis by (simp only: i64_add_left)
qed

lemmas i64_ring = i64_add_left i64_add_right i64_diff_left i64_mult_right

lemma in64_le: "in64 b \<Longrightarrow> 0 \<le> x \<Longrightarrow> x \<le> b \<Longrightarrow> in64 x"
  by (simp add: in64_def)

text \<open>32-bit signed integers, for the atomic counters that are declared so.\<close>

definition i32 :: "int \<Rightarrow> int" where
  "i32 x = (x + 2147483648) mod 4294967296 - 2147483648"


section \<open>Time\<close>

type_synonym gotime = int
type_synonym duration = int

text \<open>The zero \<open>time.Time\<close>, the beginning of year 1.\<close>

definition zero_time :: gotime where
  "zero_time = - 62135596800000000000"

text \<open>\<open>t.Sub(u)\<close> saturates at the ends of the \<open>time.Duration\<close> range.\<close>

definition time_sub :: "gotime \<Rightarrow> gotime \<Rightarrow> duration" where
  "time_sub t u = max (- 9223372036854775808) (min 9223372036854775807 (t - u))"

lemma time_sub_exact [simp]: "in64 (t - u) \<Longrightarrow> time_sub t u = t - u"
  by (simp add: time_sub_def in64_def)

lemma time_sub_ge: "d \<le> 9223372036854775807 \<Longrightarrow> - 9223372036854775808 < d \<Longrightarrow>
  d \<le> time_sub t u \<longleftrightarrow> d \<le> t - u"
  by (auto simp: time_sub_def)


section \<open>Contexts\<close>

text \<open>The errors a \<open>context.Context\<close> reports once it is done. A function that polls or
  waits on a context takes what it observes there as an argument.\<close>

datatype ctx_err = Canceled | DeadlineExceeded


section \<open>Iteration over Go maps\<close>

definition iter_order :: "'k list \<Rightarrow> ('k \<rightharpoonup> 'v) \<Rightarrow> bool" where
  "iter_order ks m \<longleftrightarrow> distinct ks \<and> set ks = dom m"

lemma iter_orderD: "iter_order ks m \<Longrightarrow> distinct ks" "iter_order ks m \<Longrightarrow> set ks = dom m"
  by (simp_all add: iter_order_def)

lemma iter_order_lookup: "iter_order ks m \<Longrightarrow> k \<in> set ks \<Longrightarrow> \<exists>v. m k = Some v"
  by (auto simp: iter_order_def)


section \<open>Runs of operations\<close>

lemma foldl_inv:
  assumes "I s" and "\<And>s x. I s \<Longrightarrow> x \<in> set xs \<Longrightarrow> I (f s x)"
  shows "I (foldl f s xs)"
  using assms by (induction xs arbitrary: s) auto

lemma foldl_const: "(\<And>s x. g (f s x) = g s) \<Longrightarrow> g (foldl f s xs) = g s"
  by (induction xs arbitrary: s) auto

lemma foldl_mono_nat: "(\<And>s x. (m s :: nat) \<le> m (f s x)) \<Longrightarrow> m s \<le> m (foldl f s xs)"
proof (induction xs arbitrary: s)
  case Nil
  then show ?case by simp
next
  case (Cons x xs)
  have "m s \<le> m (f s x)" by (rule Cons.prems)
  also have "\<dots> \<le> m (foldl f (f s x) xs)" using Cons by blast
  finally show ?case by simp
qed


text \<open>A system given by a partial step function: a run applies a list of events, and fails where an
  event is not enabled.\<close>

fun run_events :: "('s \<Rightarrow> 'e \<Rightarrow> 's option) \<Rightarrow> 's \<Rightarrow> 'e list \<Rightarrow> 's option" where
  "run_events step s [] = Some s"
| "run_events step s (e # es) = (case step s e of None \<Rightarrow> None | Some s1 \<Rightarrow> run_events step s1 es)"

lemma run_events_inv:
  assumes "run_events step s es = Some t" and "I s"
    and "\<And>s e t. I s \<Longrightarrow> step s e = Some t \<Longrightarrow> I t"
  shows "I t"
  using assms(1,2)
proof (induction es arbitrary: s)
  case Nil
  then show ?case by simp
next
  case (Cons e es)
  then show ?case by (auto split: option.splits intro: assms(3))
qed

lemma run_events_append:
  "run_events step s (xs @ ys) = (case run_events step s xs of None \<Rightarrow> None | Some t \<Rightarrow> run_events step t ys)"
  by (induction xs arbitrary: s) (auto split: option.split)


section \<open>Reachable states of step relations\<close>

inductive reach :: "('s \<Rightarrow> bool) \<Rightarrow> ('s \<Rightarrow> 's \<Rightarrow> bool) \<Rightarrow> 's \<Rightarrow> bool"
  for Init :: "'s \<Rightarrow> bool" and Step :: "'s \<Rightarrow> 's \<Rightarrow> bool" where
  reach_init: "Init s \<Longrightarrow> reach Init Step s"
| reach_step: "reach Init Step s \<Longrightarrow> Step s t \<Longrightarrow> reach Init Step t"

locale inv_system =
  fixes Init :: "'s \<Rightarrow> bool" and Step :: "'s \<Rightarrow> 's \<Rightarrow> bool" and Inv :: "'s \<Rightarrow> bool"
  assumes inv_init: "Init s \<Longrightarrow> Inv s"
    and inv_step: "Inv s \<Longrightarrow> Step s t \<Longrightarrow> Inv t"
begin

lemma reach_inv: "reach Init Step s \<Longrightarrow> Inv s"
  by (induction rule: reach.induct) (auto intro: inv_init inv_step)

lemma steps_inv: "Step\<^sup>*\<^sup>* s t \<Longrightarrow> Inv s \<Longrightarrow> Inv t"
  by (induction rule: rtranclp_induct) (auto intro: inv_step)

end

lemma reach_steps: "Step\<^sup>*\<^sup>* s t \<Longrightarrow> reach Init Step s \<Longrightarrow> reach Init Step t"
  by (induction rule: rtranclp_induct) (auto intro: reach_step)


section \<open>Loops that count up\<close>

lemma first_stop:
  fixes n :: int
  assumes "1 \<le> n" and "\<not> P n"
  shows "\<exists>k. 1 \<le> k \<and> k \<le> n \<and> \<not> P k \<and> (\<forall>i. 1 \<le> i \<and> i < k \<longrightarrow> P i)"
proof -
  let ?P = "\<lambda>j. \<not> P (int j + 1)"
  have n: "?P (nat (n - 1))" using assms by simp
  then have L: "?P (LEAST j. ?P j)" by (rule LeastI)
  have le: "(LEAST j. ?P j) \<le> nat (n - 1)" using n by (rule Least_le)
  have "P i" if "1 \<le> i" "i < int (LEAST j. ?P j) + 1" for i
  proof -
    have "nat (i - 1) < (LEAST j. ?P j)" using that by linarith
    then have "\<not> ?P (nat (i - 1))" by (rule not_less_Least)
    then show ?thesis using that by simp
  qed
  then have "\<forall>i. 1 \<le> i \<and> i < int (LEAST j. ?P j) + 1 \<longrightarrow> P i" by blast
  moreover have "int (LEAST j. ?P j) + 1 \<le> n" using le assms(1) by linarith
  moreover have "1 \<le> int (LEAST j. ?P j) + 1" by simp
  ultimately show ?thesis using L by blast
qed


section \<open>Lists and maps\<close>

fun first_some :: "'a option list \<Rightarrow> 'a option" where
  "first_some [] = None"
| "first_some (x # xs) = (case x of None \<Rightarrow> first_some xs | Some y \<Rightarrow> Some y)"

lemma first_some_append: "first_some (xs @ ys) = (case first_some xs of None \<Rightarrow> first_some ys | Some y \<Rightarrow> Some y)"
  by (induction xs) (auto split: option.split)

lemma first_some_map: "first_some (map (map_option f) xs) = map_option f (first_some xs)"
  by (induction xs) (auto split: option.split)

lemma sum_list_map_update:
  fixes f :: "'a \<Rightarrow> int"
  assumes "distinct ks" and "k \<in> set ks"
  shows "(\<Sum>x\<leftarrow>ks. (f(k := v)) x) = (\<Sum>x\<leftarrow>ks. f x) - f k + v"
  using assms by (induction ks) (auto simp: map_fun_upd)

lemma sum_list_map_cong:
  "(\<And>x. x \<in> set ks \<Longrightarrow> f x = g x) \<Longrightarrow> (\<Sum>x\<leftarrow>ks. f x) = (\<Sum>x\<leftarrow>ks. g x)"
  by (metis map_eq_conv)

lemma distinct_snoc [simp]: "distinct (xs @ [x]) \<longleftrightarrow> distinct xs \<and> x \<notin> set xs"
  by auto

lemma card_dom_upd: "finite (dom m) \<Longrightarrow> m k = None \<Longrightarrow> card (dom (m(k \<mapsto> v))) = Suc (card (dom m))"
  by (simp add: domIff)

lemma card_dom_del: "finite (dom m) \<Longrightarrow> m k = Some v \<Longrightarrow> Suc (card (dom (m(k := None)))) = card (dom m)"
  by (metis card.remove domI dom_fun_upd)

end
