(* ===== verification/Go_Strings.thy ===== *)
theory Go_Strings
  imports Go_Prelude
begin

text \<open>
  The parts of Go's \<open>fmt\<close>, \<open>strconv\<close>, \<open>strings\<close>, \<open>encoding/base64\<close> and
  \<open>encoding/hex\<close> that the modelled code uses, on byte strings: decimal printing and
  parsing of 64-bit integers, \<open>strings.Split\<close> on a one-byte separator, URL-safe base64 with
  and without padding, lower-case hexadecimal. Each encoder comes with its round trip.
\<close>


section \<open>Decimal integers\<close>

definition digit_char :: "nat \<Rightarrow> char" where
  "digit_char d = char_of (d + 48)"

definition digit_val :: "char \<Rightarrow> nat option" where
  "digit_val c = (if 48 \<le> (of_char c :: nat) \<and> of_char c \<le> (57 :: nat) then Some (of_char c - 48) else None)"

fun utoa :: "nat \<Rightarrow> string" where
  "utoa n = (if n < 10 then [digit_char n] else utoa (n div 10) @ [digit_char (n mod 10)])"

declare utoa.simps [simp del]

text \<open>\<open>fmt\<close>'s \<open>%d\<close>.\<close>

definition itoa :: "int \<Rightarrow> string" where
  "itoa i = (if i < 0 then CHR ''-'' # utoa (nat (- i)) else utoa (nat i))"

datatype num_error = NumSyntax | NumRange

text \<open>\<open>strconv.ParseUint(s, 10, 64)\<close> on the digits, and \<open>strconv.ParseInt(s, 10, 64)\<close>.\<close>

fun parse_digits :: "nat \<Rightarrow> string \<Rightarrow> num_error + nat" where
  "parse_digits n [] = Inr n"
| "parse_digits n (c # cs) =
     (case digit_val c of
        None \<Rightarrow> Inl NumSyntax
      | Some d \<Rightarrow>
          if 1844674407370955162 \<le> n \<or> 18446744073709551616 \<le> 10 * n + d then Inl NumRange
          else parse_digits (10 * n + d) cs)"

definition parse_uint :: "string \<Rightarrow> num_error + nat" where
  "parse_uint s = (if s = [] then Inl NumSyntax else parse_digits 0 s)"

definition parse_int :: "string \<Rightarrow> num_error + int" where
  "parse_int s =
     (let neg = (s \<noteq> [] \<and> hd s = CHR ''-'');
          rest = (if s \<noteq> [] \<and> (hd s = CHR ''-'' \<or> hd s = CHR ''+'') then tl s else s)
      in case parse_uint rest of
           Inl e \<Rightarrow> Inl e
         | Inr un \<Rightarrow>
             if \<not> neg \<and> 9223372036854775808 \<le> un then Inl NumRange
             else if neg \<and> 9223372036854775808 < un then Inl NumRange
             else Inr (if neg then - int un else int un))"

lemma digit_val_char [simp]: "d < 10 \<Longrightarrow> digit_val (digit_char d) = Some d"
  by (simp add: digit_val_def digit_char_def of_char_of)

lemma digit_val_Some: "digit_val c = Some d \<Longrightarrow> d < 10"
  by (auto simp: digit_val_def split: if_splits)

lemma utoa_digits: "c \<in> set (utoa n) \<Longrightarrow> digit_val c \<noteq> None"
proof (induction n rule: utoa.induct)
  case (1 n)
  then show ?case by (subst (asm) (2) utoa.simps) (auto split: if_splits)
qed

lemma utoa_nonempty [simp]: "utoa n \<noteq> []"
  by (subst utoa.simps) simp

lemma parse_digits_append:
  "parse_digits n (xs @ ys) = (case parse_digits n xs of Inl e \<Rightarrow> Inl e | Inr m \<Rightarrow> parse_digits m ys)"
  by (induction xs arbitrary: n) (auto split: option.splits)

lemma parse_digits_utoa: "n < 18446744073709551616 \<Longrightarrow> parse_digits 0 (utoa n) = Inr n"
proof (induction n rule: utoa.induct)
  case (1 n)
  show ?case
  proof (cases "n < 10")
    case True
    then show ?thesis by (subst utoa.simps) simp
  next
    case False
    with "1" have IH: "parse_digits 0 (utoa (n div 10)) = Inr (n div 10)" by simp
    have "n div 10 < 1844674407370955162" using "1.prems" by simp
    with "1.prems" False show ?thesis
      by (subst utoa.simps) (simp add: parse_digits_append IH mult_div_mod_eq)
  qed
qed

lemma itoa_digit_or_minus: "c \<in> set (itoa i) \<Longrightarrow> digit_val c \<noteq> None \<or> c = CHR ''-''"
  using utoa_digits by (auto simp: itoa_def split: if_splits)

lemma itoa_no_char [simp]: "digit_val c = None \<Longrightarrow> c \<noteq> CHR ''-'' \<Longrightarrow> c \<notin> set (itoa i)"
  using itoa_digit_or_minus by blast

lemma hd_utoa: "digit_val c = None \<Longrightarrow> hd (utoa n) \<noteq> c"
  using utoa_digits [of "hd (utoa n)" n] by auto

lemma parse_int_itoa: "in64 i \<Longrightarrow> parse_int (itoa i) = Inr i"
proof -
  assume r: "in64 i"
  have neq: "hd (utoa n) \<noteq> CHR ''-''" "hd (utoa n) \<noteq> CHR ''+''" for n
    by (rule hd_utoa, simp add: digit_val_def)+
  have "nat \<bar>i\<bar> < 18446744073709551616" using r by (auto simp: in64_def)
  then have "parse_uint (utoa (nat \<bar>i\<bar>)) = Inr (nat \<bar>i\<bar>)"
    by (simp add: parse_uint_def parse_digits_utoa)
  with r neq show ?thesis
    by (cases "i < 0") (auto simp: parse_int_def itoa_def in64_def Let_def)
qed

lemma utoa_inj: "utoa m = utoa n \<Longrightarrow> m < 18446744073709551616 \<Longrightarrow> n < 18446744073709551616 \<Longrightarrow> m = n"
  by (metis parse_digits_utoa sum.inject(2))

text \<open>Different numbers print differently.\<close>

definition digits_value :: "string \<Rightarrow> nat" where
  "digits_value = foldl (\<lambda>n c. 10 * n + the (digit_val c)) 0"

lemma digits_value_utoa [simp]: "digits_value (utoa n) = n"
proof (induction n rule: utoa.induct)
  case (1 n)
  show ?case
  proof (cases "n < 10")
    case True
    then show ?thesis by (subst utoa.simps) (simp add: digits_value_def)
  next
    case False
    with "1" show ?thesis by (subst utoa.simps) (simp add: digits_value_def)
  qed
qed

lemma utoa_eq_iff [simp]: "utoa m = utoa n \<longleftrightarrow> m = n"
  by (metis digits_value_utoa)

lemma utoa_not_minus: "utoa n \<noteq> CHR ''-'' # s"
  using utoa_digits [of "CHR ''-''" n] by (auto simp: digit_val_def)

lemma itoa_eq_iff [simp]: "itoa i = itoa j \<longleftrightarrow> i = j"
  using utoa_not_minus [of "nat i" "utoa (nat (- j))"] utoa_not_minus [of "nat j" "utoa (nat (- i))"]
  by (auto simp: itoa_def)

text \<open>A parsed integer is a 64-bit integer.\<close>

lemma parse_int_in64:
  assumes "parse_int s = Inr i"
  shows "in64 i"
proof -
  define neg where "neg = (s \<noteq> [] \<and> hd s = CHR ''-'')"
  define rest where "rest = (if s \<noteq> [] \<and> (hd s = CHR ''-'' \<or> hd s = CHR ''+'') then tl s else s)"
  show ?thesis
    using assms unfolding parse_int_def Let_def neg_def [symmetric] rest_def [symmetric]
    by (cases "parse_uint rest") (auto simp: in64_def split: if_split_asm)
qed


section \<open>Splitting\<close>

fun split_on :: "char \<Rightarrow> string \<Rightarrow> string list" where
  "split_on sep [] = [[]]"
| "split_on sep (c # cs) =
     (if c = sep then [] # split_on sep cs
      else (case split_on sep cs of [] \<Rightarrow> [[c]] | p # ps \<Rightarrow> (c # p) # ps))"

lemma split_on_nonempty [simp]: "split_on sep s \<noteq> []"
  by (cases s) (auto split: list.splits)

lemma split_on_none [simp]: "sep \<notin> set s \<Longrightarrow> split_on sep s = [s]"
  by (induction s) auto

lemma split_on_append [simp]: "sep \<notin> set a \<Longrightarrow> split_on sep (a @ sep # b) = a # split_on sep b"
  by (induction a) auto

lemma length_split_on: "length (split_on sep s) = Suc (count_list s sep)"
  by (induction s) (auto split: list.splits)

fun join_with :: "char \<Rightarrow> string list \<Rightarrow> string" where
  "join_with sep [] = []"
| "join_with sep [p] = p"
| "join_with sep (p # q # ps) = p @ sep # join_with sep (q # ps)"

lemma join_split: "join_with sep (split_on sep s) = s"
proof (induction s)
  case Nil
  then show ?case by simp
next
  case (Cons c cs)
  obtain p ps where p: "split_on sep cs = p # ps" by (cases "split_on sep cs") auto
  with Cons show ?case by (cases ps) auto
qed


text \<open>\<open>strings.Join(ss, ", ")\<close>, and how HTTP lists values.\<close>

fun join_comma :: "string list \<Rightarrow> string" where
  "join_comma [] = []"
| "join_comma [t] = t"
| "join_comma (t # u # ts) = t @ '', '' @ join_comma (u # ts)"


section \<open>Base64 with the URL-safe alphabet\<close>

definition b64_char :: "nat \<Rightarrow> char" where
  "b64_char n =
     (if n < 26 then char_of (n + 65)
      else if n < 52 then char_of (n + 71)
      else if n < 62 then char_of (n - 4)
      else if n = 62 then CHR ''-'' else CHR ''_'')"

definition b64_val :: "char \<Rightarrow> nat option" where
  "b64_val c =
     (let v = of_char c :: nat in
      if 65 \<le> v \<and> v \<le> 90 then Some (v - 65)
      else if 97 \<le> v \<and> v \<le> 122 then Some (v - 71)
      else if 48 \<le> v \<and> v \<le> 57 then Some (v + 4)
      else if v = 45 then Some 62
      else if v = 95 then Some 63
      else None)"

lemma b64_val_char [simp]: "n < 64 \<Longrightarrow> b64_val (b64_char n) = Some n"
  by (auto simp: b64_val_def b64_char_def of_char_of Let_def)

lemma b64_val_eq [simp]: "b64_val (CHR ''='') = None"
  by (simp add: b64_val_def)

lemma b64_char_neq [simp]: "n < 64 \<Longrightarrow> b64_char n \<noteq> CHR ''=''" "n < 64 \<Longrightarrow> b64_char n \<noteq> CHR 0x0A"
  "n < 64 \<Longrightarrow> b64_char n \<noteq> CHR 0x0D" "n < 64 \<Longrightarrow> b64_char n \<noteq> CHR ''.''"
  by (auto dest!: arg_cong [where f = b64_val] simp: b64_val_def [of "CHR 0x0A"]
      b64_val_def [of "CHR 0x0D"] b64_val_def [of "CHR ''.''"])

definition byte1 :: "nat \<Rightarrow> nat \<Rightarrow> char" where
  "byte1 a b = char_of (a * 4 + b div 16)"

definition byte2 :: "nat \<Rightarrow> nat \<Rightarrow> char" where
  "byte2 b c = char_of (b mod 16 * 16 + c div 4)"

definition byte3 :: "nat \<Rightarrow> nat \<Rightarrow> char" where
  "byte3 c d = char_of (c mod 4 * 64 + d)"

text \<open>\<open>pad\<close> distinguishes \<open>URLEncoding\<close> from \<open>RawURLEncoding\<close>.\<close>

fun b64_encode :: "bool \<Rightarrow> string \<Rightarrow> string" where
  "b64_encode pad [] = []"
| "b64_encode pad [x] =
     (let a = of_char x in
      [b64_char (a div 4), b64_char (a mod 4 * 16)] @ (if pad then ''=='' else []))"
| "b64_encode pad [x, y] =
     (let a = of_char x; b = of_char y in
      [b64_char (a div 4), b64_char (a mod 4 * 16 + b div 16), b64_char (b mod 16 * 4)]
      @ (if pad then ''='' else []))"
| "b64_encode pad (x # y # z # rest) =
     (let a = of_char x; b = of_char y; c = of_char z in
      [b64_char (a div 4), b64_char (a mod 4 * 16 + b div 16),
       b64_char (b mod 16 * 4 + c div 64), b64_char (c mod 64)] @ b64_encode pad rest)"

text \<open>
  The decoder reads quanta of four characters; line breaks are skipped wherever they stand, a
  padded quantum must be the last one, and unused trailing bits are ignored (the package's
  non-strict mode).
\<close>

fun b64_quanta :: "bool \<Rightarrow> string \<Rightarrow> string option" where
  "b64_quanta pad [] = Some []"
| "b64_quanta pad [x] = None"
| "b64_quanta pad [x, y] =
     (if pad then None
      else case (b64_val x, b64_val y) of (Some a, Some b) \<Rightarrow> Some [byte1 a b] | _ \<Rightarrow> None)"
| "b64_quanta pad [x, y, z] =
     (if pad then None
      else case (b64_val x, b64_val y, b64_val z) of
             (Some a, Some b, Some c) \<Rightarrow> Some [byte1 a b, byte2 b c] | _ \<Rightarrow> None)"
| "b64_quanta pad (x # y # z # w # rest) =
     (case (b64_val x, b64_val y) of
        (Some a, Some b) \<Rightarrow>
          if pad \<and> z = CHR ''='' then (if w = CHR ''='' \<and> rest = [] then Some [byte1 a b] else None)
          else (case b64_val z of
                  None \<Rightarrow> None
                | Some c \<Rightarrow>
                    if pad \<and> w = CHR ''='' then (if rest = [] then Some [byte1 a b, byte2 b c] else None)
                    else (case (b64_val w, b64_quanta pad rest) of
                            (Some d, Some bs) \<Rightarrow> Some (byte1 a b # byte2 b c # byte3 c d # bs)
                          | _ \<Rightarrow> None))
      | _ \<Rightarrow> None)"

definition b64_decode :: "bool \<Rightarrow> string \<Rightarrow> string option" where
  "b64_decode pad s = b64_quanta pad (filter (\<lambda>c. c \<noteq> CHR 0x0A \<and> c \<noteq> CHR 0x0D) s)"

text \<open>Reassembling the bytes from their six-bit groups.\<close>

lemma of_char_div:
  "(of_char x :: nat) div 4 < 64" "(of_char x :: nat) div 16 < 16" "(of_char x :: nat) div 64 < 4"
  by (simp_all add: less_mult_imp_div_less)

lemma mod_bounds: "(m :: nat) mod 4 \<le> 3" "(m :: nat) mod 16 \<le> 15"
  by presburger+

lemma byte1_groups [simp]:
  "b < 256 \<Longrightarrow> byte1 (of_char x div 4) (of_char x mod 4 * 16 + b div 16) = x"
proof -
  assume b: "b < 256"
  then have "b div 16 < 16" by (simp add: less_mult_imp_div_less)
  then have "(of_char x mod 4 * 16 + b div 16) div 16 = (of_char x mod 4 :: nat)" by simp
  then show ?thesis by (simp add: byte1_def)
qed

lemma byte1_groups0 [simp]: "byte1 (of_char x div 4) (of_char x mod 4 * 16) = x"
  using byte1_groups [of 0 x] by simp

lemma byte2_groups [simp]:
  "c < 256 \<Longrightarrow> byte2 (a * 16 + of_char x div 16) (of_char x mod 16 * 4 + c div 64) = x"
proof -
  assume c: "c < 256"
  have "(a * 16 + of_char x div 16) mod 16 = (of_char x div 16 :: nat)"
    using of_char_div(2) [of x] by simp
  moreover have "c div 64 < 4" using c by (simp add: less_mult_imp_div_less)
  then have "(of_char x mod 16 * 4 + c div 64) div 4 = (of_char x mod 16 :: nat)" by simp
  ultimately show ?thesis by (simp add: byte2_def)
qed

lemma byte2_groups0 [simp]: "byte2 (a * 16 + of_char x div 16) (of_char x mod 16 * 4) = x"
  using byte2_groups [of 0 a x] by simp

lemma byte3_groups [simp]: "byte3 (b * 4 + of_char x div 64) (of_char x mod 64) = x"
proof -
  have "(b * 4 + of_char x div 64) mod 4 = (of_char x div 64 :: nat)"
    using of_char_div(3) [of x] by simp
  then show ?thesis by (simp add: byte3_def)
qed

lemma group_bounds [simp]:
  "(of_char x :: nat) div 4 < 64" "(of_char x mod 4 * 16 + of_char y div 16 :: nat) < 64"
  "(of_char y mod 16 * 4 + of_char z div 64 :: nat) < 64"
  "(of_char x mod 4 * 16 :: nat) < 64" "(of_char y mod 16 * 4 :: nat) < 64"
  using of_char_div(1) [of x] of_char_div(2) [of y] of_char_div(3) [of z]
    mod_bounds(1) [of "of_char x"] mod_bounds(2) [of "of_char y"]
  by linarith+

lemma b64_quanta_encode: "b64_quanta pad (b64_encode pad s) = Some s"
  by (induction pad s rule: b64_encode.induct) (auto simp: Let_def)

lemma b64_encode_chars:
  "c \<in> set (b64_encode pad s) \<Longrightarrow> (\<exists>n<64. c = b64_char n) \<or> pad \<and> c = CHR ''=''"
proof (induction pad s rule: b64_encode.induct)
  case (4 pad x y z rest)
  have "\<exists>n<64. b64_char (of_char z mod 64) = b64_char n"
    by (rule exI [where x = "of_char z mod 64"]) simp
  with 4 show ?case by (auto simp: Let_def intro: group_bounds)
qed (auto simp: Let_def intro: group_bounds split: if_splits)

lemma b64_decode_encode: "b64_decode pad (b64_encode pad s) = Some s"
proof -
  have "filter (\<lambda>c. c \<noteq> CHR 0x0A \<and> c \<noteq> CHR 0x0D) (b64_encode pad s) = b64_encode pad s"
    by (rule filter_True) (auto dest!: b64_encode_chars)
  then show ?thesis by (simp add: b64_decode_def b64_quanta_encode)
qed

lemma b64_encode_Nil [simp]: "b64_encode pad s = [] \<longleftrightarrow> s = []"
  by (cases "(pad, s)" rule: b64_encode.cases) (auto simp: Let_def)


section \<open>Hexadecimal\<close>

definition hex_char :: "nat \<Rightarrow> char" where
  "hex_char n = (if n < 10 then char_of (n + 48) else char_of (n + 87))"

definition hex_val :: "char \<Rightarrow> nat option" where
  "hex_val c =
     (let v = of_char c :: nat in
      if 48 \<le> v \<and> v \<le> 57 then Some (v - 48)
      else if 97 \<le> v \<and> v \<le> 102 then Some (v - 87)
      else if 65 \<le> v \<and> v \<le> 70 then Some (v - 55)
      else None)"

fun hex_encode :: "string \<Rightarrow> string" where
  "hex_encode [] = []"
| "hex_encode (x # xs) = hex_char (of_char x div 16) # hex_char (of_char x mod 16) # hex_encode xs"

fun hex_decode :: "string \<Rightarrow> string option" where
  "hex_decode [] = Some []"
| "hex_decode [_] = None"
| "hex_decode (a # b # rest) =
     (case (hex_val a, hex_val b, hex_decode rest) of
        (Some u, Some v, Some bs) \<Rightarrow> Some (char_of (u * 16 + v) # bs)
      | _ \<Rightarrow> None)"

lemma hex_val_char [simp]: "n < 16 \<Longrightarrow> hex_val (hex_char n) = Some n"
  by (auto simp: hex_val_def hex_char_def of_char_of Let_def)

lemma hex_decode_encode [simp]: "hex_decode (hex_encode s) = Some s"
proof (induction s)
  case Nil
  then show ?case by simp
next
  case (Cons x xs)
  note of_char_div(2) [of x, simp]
  with Cons show ?case by simp
qed

lemma hex_encode_no_char: "hex_val c = None \<Longrightarrow> c \<notin> set (hex_encode s)"
proof (induction s)
  case Nil
  then show ?case by simp
next
  case (Cons x xs)
  note of_char_div(2) [of x, simp]
  then have "hex_val (hex_char (of_char x div 16)) \<noteq> None" "hex_val (hex_char (of_char x mod 16)) \<noteq> None"
    by simp_all
  with Cons show ?case by auto
qed


section \<open>Searching\<close>

text \<open>\<open>fold_case\<close> is \<open>strings.ToLower\<close> as far as the search for ASCII words can see it: besides the
  ASCII capitals, the Kelvin sign and the dotted capital I are the characters with an ASCII lower case.\<close>

definition lower_char :: "char \<Rightarrow> char" where
  "lower_char c = (if 65 \<le> (of_char c :: nat) \<and> (of_char c :: nat) \<le> 90 then char_of ((of_char c :: nat) + 32) else c)"

fun fold_case :: "string \<Rightarrow> string" where
  "fold_case (a # b # c # cs) =
     (if a = char_of (226 :: nat) \<and> b = char_of (132 :: nat) \<and> c = char_of (170 :: nat)
      then CHR ''k'' # fold_case cs
      else if a = char_of (196 :: nat) \<and> b = char_of (176 :: nat) then CHR ''i'' # fold_case (c # cs)
      else lower_char a # fold_case (b # c # cs))"
| "fold_case [a, b] =
     (if a = char_of (196 :: nat) \<and> b = char_of (176 :: nat) then [CHR ''i''] else [lower_char a, lower_char b])"
| "fold_case [a] = [lower_char a]"
| "fold_case [] = []"

fun has_prefix :: "string \<Rightarrow> string \<Rightarrow> bool" where
  "has_prefix s [] = True"
| "has_prefix [] (p # ps) = False"
| "has_prefix (c # cs) (p # ps) = (c = p \<and> has_prefix cs ps)"

fun contains_str :: "string \<Rightarrow> string \<Rightarrow> bool" where
  "contains_str [] p = (p = [])"
| "contains_str (c # cs) p = (has_prefix (c # cs) p \<or> contains_str cs p)"

text \<open>\<open>strings.Index\<close>, which is -1 if there is no occurrence.\<close>

fun index_from :: "int \<Rightarrow> string \<Rightarrow> string \<Rightarrow> int" where
  "index_from i [] p = (if p = [] then i else - 1)"
| "index_from i (c # cs) p = (if has_prefix (c # cs) p then i else index_from (i + 1) cs p)"

definition str_index :: "string \<Rightarrow> string \<Rightarrow> int" where
  "str_index s p = index_from 0 s p"

lemma has_prefix_iff: "has_prefix s p \<longleftrightarrow> (\<exists>r. s = p @ r)"
  by (induction s p rule: has_prefix.induct) auto

lemma has_prefix_append [simp]: "has_prefix (p @ r) p"
  by (auto simp: has_prefix_iff)

lemma index_from_char:
  "index_from i s [c] = (if c \<in> set s then i + int (length (takeWhile (\<lambda>x. x \<noteq> c) s)) else - 1)"
  by (induction s arbitrary: i) auto

lemma index_char_found: "c \<notin> set a \<Longrightarrow> str_index (a @ c # b) [c] = int (length a)"
  by (simp add: str_index_def index_from_char takeWhile_append2 takeWhile_eq_all_conv takeWhile_tail) (induction a, auto)

lemma index_char_missing: "c \<notin> set s \<Longrightarrow> str_index s [c] = - 1"
  by (simp add: str_index_def index_from_char)


section \<open>Trimming\<close>

text \<open>\<open>strings.TrimSpace\<close> on bytes: the white space characters of Unicode with their UTF-8 encodings, removed from
  both ends.\<close>

definition space_runes :: "string list" where
  "space_runes =
    [[CHR 0x20], [CHR 0x09], [CHR 0x0A],
     [CHR 0x0B], [CHR 0x0C], [CHR 0x0D],
     [CHR 0xC2, CHR 0x85], [CHR 0xC2, CHR 0xA0], [CHR 0xE1, CHR 0x9A, CHR 0x80],
     [CHR 0xE2, CHR 0x80, CHR 0x80], [CHR 0xE2, CHR 0x80, CHR 0x81], [CHR 0xE2, CHR 0x80, CHR 0x82],
     [CHR 0xE2, CHR 0x80, CHR 0x83], [CHR 0xE2, CHR 0x80, CHR 0x84], [CHR 0xE2, CHR 0x80, CHR 0x85],
     [CHR 0xE2, CHR 0x80, CHR 0x86], [CHR 0xE2, CHR 0x80, CHR 0x87], [CHR 0xE2, CHR 0x80, CHR 0x88],
     [CHR 0xE2, CHR 0x80, CHR 0x89], [CHR 0xE2, CHR 0x80, CHR 0x8A], [CHR 0xE2, CHR 0x80, CHR 0xA8],
     [CHR 0xE2, CHR 0x80, CHR 0xA9], [CHR 0xE2, CHR 0x80, CHR 0xAF], [CHR 0xE2, CHR 0x81, CHR 0x9F],
     [CHR 0xE3, CHR 0x80, CHR 0x80]]"

function trim_prefixes :: "string list \<Rightarrow> string \<Rightarrow> string" where
  "trim_prefixes ps s =
     (case List.find (\<lambda>p. p \<noteq> [] \<and> has_prefix s p) ps of
        None \<Rightarrow> s
      | Some p \<Rightarrow> trim_prefixes ps (drop (length p) s))"
  by pat_completeness auto
termination
  by (relation "measure (\<lambda>(ps, s). length s)") (auto simp: find_Some_iff has_prefix_iff)

declare trim_prefixes.simps [simp del]

definition trim_space :: "string \<Rightarrow> string" where
  "trim_space s = rev (trim_prefixes (map rev space_runes) (rev (trim_prefixes space_runes s)))"

lemma trim_prefixes_Nil [simp]: "trim_prefixes ps [] = []"
proof -
  have "List.find (\<lambda>p. p \<noteq> [] \<and> has_prefix [] p) ps = None"
    by (auto simp: find_None_iff has_prefix_iff)
  then show ?thesis by (simp add: trim_prefixes.simps)
qed

lemma trim_prefixes_id: "(\<And>p r. p \<in> set ps \<Longrightarrow> p \<noteq> [] \<Longrightarrow> s \<noteq> p @ r) \<Longrightarrow> trim_prefixes ps s = s"
proof -
  assume "\<And>p r. p \<in> set ps \<Longrightarrow> p \<noteq> [] \<Longrightarrow> s \<noteq> p @ r"
  then have "List.find (\<lambda>p. p \<noteq> [] \<and> has_prefix s p) ps = None"
    by (auto simp: find_None_iff has_prefix_iff)
  then show ?thesis by (simp add: trim_prefixes.simps)
qed

lemma trim_prefixes_suffix: "\<exists>a. s = a @ trim_prefixes ps s"
proof (induction ps s rule: trim_prefixes.induct)
  case (1 ps s)
  show ?case
  proof (cases "List.find (\<lambda>p. p \<noteq> [] \<and> has_prefix s p) ps")
    case None
    then show ?thesis by (simp add: trim_prefixes.simps)
  next
    case (Some p)
    then obtain r where r: "s = p @ r" by (auto simp: find_Some_iff has_prefix_iff)
    from "1.IH" [OF Some] obtain a where "r = a @ trim_prefixes ps r" by (auto simp: r)
    moreover have "trim_prefixes ps s = trim_prefixes ps r"
      using Some by (subst trim_prefixes.simps) (simp add: r)
    ultimately have "s = (p @ a) @ trim_prefixes ps s" by (simp add: r)
    then show ?thesis by blast
  qed
qed

lemma trim_prefixes_idem: "trim_prefixes ps (trim_prefixes ps s) = trim_prefixes ps s"
proof (induction ps s rule: trim_prefixes.induct)
  case (1 ps s)
  show ?case
  proof (cases "List.find (\<lambda>p. p \<noteq> [] \<and> has_prefix s p) ps")
    case None
    then have "trim_prefixes ps s = s" by (simp add: trim_prefixes.simps)
    then show ?thesis by simp
  next
    case (Some p)
    then have "trim_prefixes ps s = trim_prefixes ps (drop (length p) s)"
      by (subst trim_prefixes.simps) simp
    with "1.IH" [OF Some] show ?thesis by simp
  qed
qed

text \<open>The first byte and the last byte of a white space character.\<close>

definition space_start :: "char \<Rightarrow> bool" where
  "space_start c \<longleftrightarrow> c \<in> set (map hd space_runes)"

definition space_end :: "char \<Rightarrow> bool" where
  "space_end c \<longleftrightarrow> c \<in> set (map last space_runes)"

lemma space_runes_nonempty: "p \<in> set space_runes \<Longrightarrow> p \<noteq> []"
  by (auto simp: space_runes_def)

lemma trim_space_Nil [simp]: "trim_space [] = []"
  by (simp add: trim_space_def)

lemma trim_left_id: "\<not> space_start (hd s) \<Longrightarrow> trim_prefixes space_runes s = s"
  by (rule trim_prefixes_id) (auto simp: space_start_def)

lemma trim_right_id: "\<not> space_end (last s) \<Longrightarrow> trim_prefixes (map rev space_runes) (rev s) = rev s"
proof (rule trim_prefixes_id)
  fix p r
  assume e: "\<not> space_end (last s)" and p: "p \<in> set (map rev space_runes)" "p \<noteq> []"
  show "rev s \<noteq> p @ r"
  proof
    assume "rev s = p @ r"
    then have "s = rev r @ rev p" by (metis rev_append rev_rev_ident)
    with p e show False by (auto simp: space_end_def)
  qed
qed

lemma trim_space_id: "\<not> space_start (hd s) \<Longrightarrow> \<not> space_end (last s) \<Longrightarrow> trim_space s = s"
  by (simp add: trim_space_def trim_left_id trim_right_id)

lemma trim_blank: "trim_prefixes space_runes (CHR '' '' # s) = trim_prefixes space_runes s"
proof -
  have "List.find (\<lambda>p. p \<noteq> [] \<and> has_prefix (CHR '' '' # s) p) space_runes = Some ('' '')"
    by (simp add: space_runes_def)
  then show ?thesis by (subst trim_prefixes.simps) simp
qed

lemma trim_space_blank [simp]: "trim_space (CHR '' '' # s) = trim_space s"
  by (simp add: trim_space_def trim_blank)

lemma trim_blank_end: "trim_prefixes (map rev space_runes) (CHR '' '' # s) = trim_prefixes (map rev space_runes) s"
proof -
  have "List.find (\<lambda>p. p \<noteq> [] \<and> has_prefix (CHR '' '' # s) p) (map rev space_runes) = Some ('' '')"
    by (simp add: space_runes_def)
  then show ?thesis by (subst trim_prefixes.simps) simp
qed

lemma trim_fixed: "trim_prefixes ps s = s \<longleftrightarrow> (\<forall>p \<in> set ps. p \<noteq> [] \<longrightarrow> \<not> has_prefix s p)"
proof
  assume fixed: "trim_prefixes ps s = s"
  show "\<forall>p \<in> set ps. p \<noteq> [] \<longrightarrow> \<not> has_prefix s p"
  proof (cases "List.find (\<lambda>p. p \<noteq> [] \<and> has_prefix s p) ps")
    case None
    then show ?thesis by (auto simp: find_None_iff)
  next
    case (Some p)
    then obtain r where r: "s = p @ r" "p \<noteq> []" by (auto simp: find_Some_iff has_prefix_iff)
    have "trim_prefixes ps s = trim_prefixes ps r"
      using Some r by (subst trim_prefixes.simps) simp
    moreover obtain a where "r = a @ trim_prefixes ps r" using trim_prefixes_suffix by blast
    ultimately have "length s \<le> length r" using fixed by (metis length_append le_add2)
    then show ?thesis using r by simp
  qed
qed (rule trim_prefixes_id, auto simp: has_prefix_iff)

lemma trim_space_idem [simp]: "trim_space (trim_space s) = trim_space s"
proof -
  define a where "a = trim_prefixes space_runes s"
  define b where "b = trim_prefixes (map rev space_runes) (rev a)"
  have ts: "trim_space s = rev b" by (simp add: trim_space_def a_def b_def)
  obtain c where c: "rev a = c @ b" unfolding b_def using trim_prefixes_suffix by blast
  then have ab: "a = rev b @ rev c" by (metis rev_append rev_rev_ident)
  have "trim_prefixes space_runes a = a" by (simp add: a_def trim_prefixes_idem)
  then have "trim_prefixes space_runes (rev b) = rev b"
    unfolding trim_fixed using ab by (auto simp: has_prefix_iff)
  moreover have "trim_prefixes (map rev space_runes) b = b" by (simp add: b_def trim_prefixes_idem)
  ultimately show ?thesis by (simp add: ts) (simp add: trim_space_def)
qed

end
