(* ===== verification/Access_Control.thy ===== *)
theory Access_Control
  imports Go_Strings
begin

text \<open>
  Who may do what: \<open>patterns/12_auth/auth_core.go\<close>, \<open>rbac_abac.go\<close>, \<open>ownership_check.go\<close> and
  \<open>token_rotation.go\<close>. The case mappings of the \<open>strings\<close> package on arbitrary Unicode text are the
  parameters \<open>lower\<close> (\<open>ToLower\<close>) and \<open>equal_fold\<close> (\<open>EqualFold\<close>); random tokens are arguments.
\<close>

section \<open>Authenticated users\<close>

record auth_user =
  user_id :: string
  user_email :: string
  user_roles :: "string list"
  user_permissions :: "(string \<rightharpoonup> bool) option"

datatype auth_error = ErrUnauthenticated | ErrUnauthorized | ErrIDORViolation

text \<open>A context is the chain of the values put into it; under the package's private key only \<open>WithUser\<close>
  stores anything, a pointer that may be nil.\<close>

type_synonym user_context = "auth_user option list"

definition with_user :: "user_context \<Rightarrow> auth_user option \<Rightarrow> user_context" where
  "with_user ctx u = u # ctx"

definition get_user :: "user_context \<Rightarrow> auth_user option" where
  "get_user ctx = (case ctx of [] \<Rightarrow> None | u # _ \<Rightarrow> u)"

text \<open>Reading a missing key of a map yields false, and so does reading a nil map.\<close>

definition granted_perm :: "(string \<rightharpoonup> bool) \<Rightarrow> string \<Rightarrow> bool" where
  "granted_perm ps p \<longleftrightarrow> (case ps p of None \<Rightarrow> False | Some b \<Rightarrow> b)"

definition authorize :: "auth_user option \<Rightarrow> string \<Rightarrow> auth_error option" where
  "authorize user requiredPermission =
     (case user of
        None \<Rightarrow> Some ErrUnauthenticated
      | Some u \<Rightarrow>
          (case user_permissions u of
             None \<Rightarrow> Some ErrUnauthorized
           | Some ps \<Rightarrow> if \<not> granted_perm ps requiredPermission then Some ErrUnauthorized else None))"


section \<open>Ownership\<close>

fun bypass_match :: "(string \<Rightarrow> string \<Rightarrow> bool) \<Rightarrow> string \<Rightarrow> string list \<Rightarrow> bool" where
  "bypass_match equal_fold userRole [] = False"
| "bypass_match equal_fold userRole (r # rs) = (if equal_fold userRole r then True else bypass_match equal_fold userRole rs)"

fun bypass_loop :: "(string \<Rightarrow> string \<Rightarrow> bool) \<Rightarrow> string list \<Rightarrow> string list \<Rightarrow> bool" where
  "bypass_loop equal_fold [] bypassRoles = False"
| "bypass_loop equal_fold (r # rs) bypassRoles =
     (if bypass_match equal_fold r bypassRoles then True else bypass_loop equal_fold rs bypassRoles)"

definition verify_ownership ::
  "(string \<Rightarrow> string \<Rightarrow> bool) \<Rightarrow> auth_user option \<Rightarrow> string \<Rightarrow> string list \<Rightarrow> auth_error option" where
  "verify_ownership equal_fold user resourceOwnerID bypassRoles =
     (case user of
        None \<Rightarrow> Some ErrUnauthenticated
      | Some u \<Rightarrow>
          if user_id u = resourceOwnerID then None
          else if bypass_loop equal_fold (user_roles u) bypassRoles then None
          else Some ErrIDORViolation)"

lemma bypass_loop_iff:
  "bypass_loop equal_fold rs bs \<longleftrightarrow> (\<exists>r \<in> set rs. \<exists>b \<in> set bs. equal_fold r b)"
proof (induction rs)
  case Nil
  then show ?case by simp
next
  case (Cons r rs)
  have "bypass_match equal_fold r bs \<longleftrightarrow> (\<exists>b \<in> set bs. equal_fold r b)" by (induction bs) auto
  with Cons show ?case by auto
qed


section \<open>Roles and attributes\<close>

type_synonym rbac_registry = "string \<rightharpoonup> (string \<rightharpoonup> bool)"

definition new_rbac_registry :: rbac_registry where
  "new_rbac_registry =
     [''admin'' \<mapsto> [''document:read'' \<mapsto> True, ''document:write'' \<mapsto> True, ''document:delete'' \<mapsto> True],
      ''editor'' \<mapsto> [''document:read'' \<mapsto> True, ''document:write'' \<mapsto> True],
      ''viewer'' \<mapsto> [''document:read'' \<mapsto> True]]"

fun has_permission :: "(string \<Rightarrow> string) \<Rightarrow> rbac_registry \<Rightarrow> string list \<Rightarrow> string \<Rightarrow> bool" where
  "has_permission lower r [] permission = False"
| "has_permission lower r (roleStr # roles) permission =
     (case r (lower roleStr) of
        Some perms \<Rightarrow> if granted_perm perms permission then True else has_permission lower r roles permission
      | None \<Rightarrow> has_permission lower r roles permission)"

record abac_context =
  subject_id :: string
  resource_owner_id :: string
  department :: string
  is_confidential :: bool

datatype abac_error = MustBeOwner | ClearanceInsufficient

definition abac_evaluate :: "abac_context \<Rightarrow> abac_error option" where
  "abac_evaluate c =
     (if \<not> is_confidential c then None
      else if subject_id c \<noteq> resource_owner_id c then Some MustBeOwner
      else if department c \<noteq> ''FINANCE'' \<and> department c \<noteq> ''EXECUTIVE'' then Some ClearanceInsufficient
      else None)"

lemma has_permission_iff:
  "has_permission lower r roles p \<longleftrightarrow> (\<exists>role \<in> set roles. \<exists>perms. r (lower role) = Some perms \<and> granted_perm perms p)"
  by (induction roles) (auto split: option.splits)

text \<open>Access is denied unless it was granted: the authorizer accepts exactly the users whose permission map has
  the permission set, the ownership check exactly the owner and the holders of a bypass role, the role
  registry exactly the permissions of the three built-in roles.\<close>

lemma authorize_iff:
  "authorize user p = None \<longleftrightarrow> (\<exists>u ps. user = Some u \<and> user_permissions u = Some ps \<and> ps p = Some True)"
  by (auto simp: authorize_def granted_perm_def split: option.splits)

lemma verify_ownership_iff:
  "verify_ownership equal_fold user owner bypass = None \<longleftrightarrow>
    (\<exists>u. user = Some u \<and> (user_id u = owner \<or> (\<exists>r \<in> set (user_roles u). \<exists>b \<in> set bypass. equal_fold r b)))"
  by (auto simp: verify_ownership_def bypass_loop_iff split: option.splits)

lemma registry_iff:
  "(\<exists>perms. new_rbac_registry r = Some perms \<and> granted_perm perms p) \<longleftrightarrow>
    r = ''admin'' \<and> p \<in> {''document:read'', ''document:write'', ''document:delete''}
    \<or> r = ''editor'' \<and> p \<in> {''document:read'', ''document:write''} \<or> r = ''viewer'' \<and> p = ''document:read''"
  unfolding new_rbac_registry_def granted_perm_def by (simp split: if_splits option.splits)

lemma rbac_grants:
  "has_permission lower new_rbac_registry rs p \<longleftrightarrow>
    (\<exists>role \<in> set rs. lower role = ''admin'' \<and> p \<in> {''document:read'', ''document:write'', ''document:delete''}
      \<or> lower role = ''editor'' \<and> p \<in> {''document:read'', ''document:write''}
      \<or> lower role = ''viewer'' \<and> p = ''document:read'')"
  unfolding has_permission_iff registry_iff ..

text \<open>The comment on \<open>Evaluate\<close> asks for the owner and the same department; the code asks for the owner and
  one of two departments, of whatever resource.\<close>

lemma abac_fixed_departments:
  "abac_evaluate \<lparr>subject_id = u, resource_owner_id = u, department = ''LEGAL'', is_confidential = True\<rparr> = Some ClearanceInsufficient"
  "abac_evaluate \<lparr>subject_id = u, resource_owner_id = u, department = ''FINANCE'', is_confidential = True\<rparr> = None"
  by (simp_all add: abac_evaluate_def)


section \<open>Refresh token rotation\<close>

record token_family =
  family_id :: string
  family_user :: string
  current_token :: string
  used_tokens :: "string \<rightharpoonup> gotime"
  revoked :: bool
  family_created :: gotime

type_synonym rotation_manager = "string \<rightharpoonup> token_family"

datatype rotation_error = ErrTokenReusedTheftDetected | ErrTokenInvalidOrRevoked

definition new_rotation_manager :: rotation_manager where
  "new_rotation_manager = Map.empty"

text \<open>The 32 random bytes of a token are the argument.\<close>

definition generate_secure_token :: "string \<Rightarrow> string" where
  "generate_secure_token random_bytes = hex_encode random_bytes"

lemma secure_token: "length (generate_secure_token b) = 2 * length b" "generate_secure_token b = generate_secure_token c \<longleftrightarrow> b = c"
proof -
  show "length (generate_secure_token b) = 2 * length b" by (induction b) (simp_all add: generate_secure_token_def)
  show "generate_secure_token b = generate_secure_token c \<longleftrightarrow> b = c"
    unfolding generate_secure_token_def by (metis hex_decode_encode option.inject)
qed

text \<open>\<open>r1\<close> and \<open>r2\<close> are two results of \<open>generateSecureToken\<close>, 64 characters each.\<close>

definition create_family ::
  "rotation_manager \<Rightarrow> gotime \<Rightarrow> string \<Rightarrow> string \<Rightarrow> string \<Rightarrow> (string \<times> string) \<times> rotation_manager" where
  "create_family m now userID r1 r2 =
     (let fID = take 16 r1
      in ((fID, r2), m(fID \<mapsto> \<lparr>family_id = fID, family_user = userID, current_token = r2, used_tokens = Map.empty,
                             revoked = False, family_created = now\<rparr>)))"

definition rotate_token ::
  "rotation_manager \<Rightarrow> gotime \<Rightarrow> string \<Rightarrow> string \<Rightarrow> string \<Rightarrow> (rotation_error + string) \<times> rotation_manager" where
  "rotate_token m now fresh familyID presentedToken =
     (case m familyID of
        None \<Rightarrow> (Inl ErrTokenInvalidOrRevoked, m)
      | Some fam \<Rightarrow>
          if revoked fam then (Inl ErrTokenInvalidOrRevoked, m)
          else if used_tokens fam presentedToken \<noteq> None then
            (Inl ErrTokenReusedTheftDetected, m(familyID \<mapsto> fam\<lparr>revoked := True\<rparr>))
          else if current_token fam \<noteq> presentedToken then (Inl ErrTokenInvalidOrRevoked, m)
          else (Inr fresh, m(familyID \<mapsto> fam\<lparr>used_tokens := (used_tokens fam)(presentedToken \<mapsto> now), current_token := fresh\<rparr>)))"

datatype rotation_op = Create gotime string string string | Rotate gotime string string string

fun rotation_exec :: "rotation_manager \<Rightarrow> rotation_op \<Rightarrow> rotation_manager" where
  "rotation_exec m (Create now u r1 r2) = snd (create_family m now u r1 r2)"
| "rotation_exec m (Rotate now fresh fid tok) = snd (rotate_token m now fresh fid tok)"

fun recreates :: "string \<Rightarrow> rotation_op \<Rightarrow> bool" where
  "recreates fid (Create now u r1 r2) \<longleftrightarrow> take 16 r1 = fid"
| "recreates fid (Rotate now fresh f tok) \<longleftrightarrow> False"

definition spent :: "rotation_manager \<Rightarrow> string \<Rightarrow> string \<Rightarrow> bool" where
  "spent m fid tok \<longleftrightarrow> (\<exists>fam. m fid = Some fam \<and> (revoked fam \<or> used_tokens fam tok \<noteq> None))"

definition dead_family :: "rotation_manager \<Rightarrow> string \<Rightarrow> bool" where
  "dead_family m fid \<longleftrightarrow> (\<exists>fam. m fid = Some fam \<and> revoked fam)"

lemma family_kept:
  assumes "\<not> recreates fid p"
  shows "spent m fid tok \<Longrightarrow> spent (rotation_exec m p) fid tok"
    "dead_family m fid \<Longrightarrow> dead_family (rotation_exec m p) fid"
  using assms
  by (cases p; auto simp: spent_def dead_family_def create_family_def rotate_token_def Let_def split: option.splits if_splits)+

lemma spent_refused:
  assumes "spent m fid tok"
  shows "\<exists>e. fst (rotate_token m now fresh fid tok) = Inl e" "dead_family (snd (rotate_token m now fresh fid tok)) fid"
  using assms by (auto simp: spent_def dead_family_def rotate_token_def)

lemma dead_refused: "dead_family m fid \<Longrightarrow> fst (rotate_token m now fresh fid tok) = Inl ErrTokenInvalidOrRevoked"
  by (auto simp: dead_family_def rotate_token_def)

text \<open>C37: a refresh token works once, and using it twice kills its session. After a token was exchanged, and
  whatever happens in between (short of a new family under the same id), presenting it again is refused, and
  from then on every token of the family, the thief's and the owner's, is refused.\<close>

theorem replay_revokes_family:
  assumes "rotate_token m t fresh fid tok = (Inr new, m1)"
    and "\<forall>p \<in> set ops \<union> set ops'. \<not> recreates fid p"
    and "rotate_token (foldl rotation_exec m1 ops) t' fresh' fid tok = (res, m2)"
  shows "(\<exists>e. res = Inl e)
    \<and> fst (rotate_token (foldl rotation_exec m2 ops') now f fid any) = Inl ErrTokenInvalidOrRevoked"
proof -
  have "spent m1 fid tok" using assms(1) by (auto simp: spent_def rotate_token_def split: option.splits if_splits)
  then have "spent (foldl rotation_exec m1 ops) fid tok"
    by (rule foldl_inv [where I = "\<lambda>m. spent m fid tok"]) (use assms(2) family_kept(1) in auto)
  then have r: "\<exists>e. res = Inl e" "dead_family m2 fid"
    using spent_refused [of "foldl rotation_exec m1 ops" fid tok t' fresh'] assms(3) by simp_all
  from r(2) have "dead_family (foldl rotation_exec m2 ops') fid"
    by (rule foldl_inv [where I = "\<lambda>m. dead_family m fid"]) (use assms(2) family_kept(2) in auto)
  with r(1) dead_refused show ?thesis by blast
qed

theorem replay_revokes_family_witness:
  "\<exists>m m1 m2 res. rotate_token m 1 ''t2'' ''f'' ''t1'' = (Inr ''t2'', m1)
     \<and> rotate_token m1 2 ''t3'' ''f'' ''t1'' = (res, m2) \<and> fst (rotate_token m2 3 ''t4'' ''f'' ''t2'') = Inl ErrTokenInvalidOrRevoked"
proof -
  let ?m = "snd (create_family new_rotation_manager 0 ''u'' ''f'' ''t1'')"
  obtain m1 where a: "rotate_token ?m 1 ''t2'' ''f'' ''t1'' = (Inr ''t2'', m1)"
    by (simp add: create_family_def rotate_token_def Let_def)
  obtain res m2 where b: "rotate_token (foldl rotation_exec m1 []) 2 ''t3'' ''f'' ''t1'' = (res, m2)" by (rule prod.exhaust)
  have "fst (rotate_token (foldl rotation_exec m2 []) 3 ''t4'' ''f'' ''t2'') = Inl ErrTokenInvalidOrRevoked"
    using replay_revokes_family [OF a _ b, of "[]" 3 "''t4''" "''t2''"] by simp
  with a b show ?thesis by (metis foldl_Nil)
qed

end
