(* ===== verification/Error_Taxonomy.thy ===== *)
theory Error_Taxonomy
  imports Go_Strings
begin

text \<open>
  \<open>patterns/06_errors\<close>: the domain errors of \<open>typed_errors.go\<close>, the sentinels and the wrapping of
  \<open>sentinel_wrapping.go\<close>, the translation to HTTP of \<open>error_mapping.go\<close> and the problem details of
  \<open>structured_response.go\<close>.

  An \<open>error\<close> value is a tree: a sentinel of this package, a \<open>*DomainError\<close> (never a nil pointer), a
  message wrapped with \<open>%w\<close>, several errors joined by \<open>errors.Join\<close>, or any other error, known by its
  text alone. \<open>errors.Is\<close> and \<open>errors.As\<close> walk that tree depth first; sentinels are compared by
  identity. Errors with an \<open>Is\<close> or \<open>As\<close> method of their own do not occur in the code.
\<close>


section \<open>Errors\<close>

type_synonym error_kind = string

definition KindNotFound :: error_kind where "KindNotFound = ''NOT_FOUND''"
definition KindConflict :: error_kind where "KindConflict = ''CONFLICT''"
definition KindValidation :: error_kind where "KindValidation = ''VALIDATION''"
definition KindUnauthorized :: error_kind where "KindUnauthorized = ''UNAUTHORIZED''"
definition KindForbidden :: error_kind where "KindForbidden = ''FORBIDDEN''"
definition KindInternal :: error_kind where "KindInternal = ''INTERNAL''"

lemmas kind_defs = KindNotFound_def KindConflict_def KindValidation_def KindUnauthorized_def
  KindForbidden_def KindInternal_def

datatype sentinel_error =
  ErrNotFound | ErrConflict | ErrUnauthorized | ErrForbidden | ErrValidation | ErrInternalServer

datatype go_error =
    Sentinel sentinel_error
  | Domain domain_error
  | Wrapped string go_error
  | Joined "go_error list"
  | Foreign string
and domain_error =
    DomainError (de_kind: error_kind) (de_op: string) (de_message: string) (de_field: string)
      (de_err: "go_error option")

fun sentinel_text :: "sentinel_error \<Rightarrow> string" where
  "sentinel_text ErrNotFound = ''resource not found''"
| "sentinel_text ErrConflict = ''resource conflict''"
| "sentinel_text ErrUnauthorized = ''unauthorized access''"
| "sentinel_text ErrForbidden = ''forbidden operation''"
| "sentinel_text ErrValidation = ''validation failed''"
| "sentinel_text ErrInternalServer = ''internal server error''"

text \<open>\<open>Error()\<close>.\<close>

fun error_text :: "go_error \<Rightarrow> string" and domain_text :: "domain_error \<Rightarrow> string" where
  "error_text (Sentinel s) = sentinel_text s"
| "error_text (Domain d) = domain_text d"
| "error_text (Wrapped op e) = op @ '': '' @ error_text e"
| "error_text (Joined es) = join_with (CHR 0x0A) (map error_text es)"
| "error_text (Foreign t) = t"
| "domain_text (DomainError kind op message field cause) =
     (if field \<noteq> [] then ''['' @ kind @ ''] '' @ op @ '': field '' @ [CHR 0x27] @ field @ [CHR 0x27] @ '' - '' @ message
      else case cause of
             Some e \<Rightarrow> ''['' @ kind @ ''] '' @ op @ '': '' @ message @ '' (caused by: '' @ error_text e @ '')''
           | None \<Rightarrow> ''['' @ kind @ ''] '' @ op @ '': '' @ message)"

text \<open>The constructors.\<close>

definition new_not_found_error :: "string \<Rightarrow> string \<Rightarrow> go_error option \<Rightarrow> domain_error" where
  "new_not_found_error op resource err = DomainError KindNotFound op (resource @ '' not found'') [] err"

definition new_validation_error :: "string \<Rightarrow> string \<Rightarrow> string \<Rightarrow> domain_error" where
  "new_validation_error op field message = DomainError KindValidation op message field None"

definition new_conflict_error :: "string \<Rightarrow> string \<Rightarrow> go_error option \<Rightarrow> domain_error" where
  "new_conflict_error op message err = DomainError KindConflict op message [] err"

definition new_internal_error :: "string \<Rightarrow> go_error option \<Rightarrow> domain_error" where
  "new_internal_error op err = DomainError KindInternal op ''an internal server error occurred'' [] err"

definition wrap_operation :: "string \<Rightarrow> go_error option \<Rightarrow> go_error option" where
  "wrap_operation op err = (case err of None \<Rightarrow> None | Some e \<Rightarrow> Some (Wrapped op e))"

definition find_user_by_id :: "string \<Rightarrow> go_error option" where
  "find_user_by_id i =
     (if i = [] then wrap_operation ''FindUserByID'' (Some (Sentinel ErrValidation))
      else if i = ''missing'' then wrap_operation ''FindUserByID'' (Some (Sentinel ErrNotFound))
      else if i = ''conflict'' then wrap_operation ''FindUserByID'' (Some (Sentinel ErrConflict))
      else None)"


section \<open>Walking the tree\<close>

text \<open>\<open>errors.Is\<close> for a sentinel, and \<open>errors.As\<close> for a \<open>*DomainError\<close>.\<close>

fun error_is :: "go_error \<Rightarrow> sentinel_error \<Rightarrow> bool" where
  "error_is (Sentinel s) t = (s = t)"
| "error_is (Domain (DomainError kind op message field cause)) t =
     (case cause of None \<Rightarrow> False | Some e \<Rightarrow> error_is e t)"
| "error_is (Wrapped op e) t = error_is e t"
| "error_is (Joined es) t = (\<exists>e \<in> set es. error_is e t)"
| "error_is (Foreign x) t = False"

fun extract_domain_error :: "go_error \<Rightarrow> domain_error option" where
  "extract_domain_error (Sentinel s) = None"
| "extract_domain_error (Domain d) = Some d"
| "extract_domain_error (Wrapped op e) = extract_domain_error e"
| "extract_domain_error (Joined es) =
     (case List.find (\<lambda>r. r \<noteq> None) (map extract_domain_error es) of None \<Rightarrow> None | Some r \<Rightarrow> r)"
| "extract_domain_error (Foreign x) = None"

text \<open>The nodes of the tree in the order in which both functions visit them.\<close>

fun error_nodes :: "go_error \<Rightarrow> go_error list" where
  "error_nodes (Sentinel s) = [Sentinel s]"
| "error_nodes (Domain (DomainError kind op message field cause)) =
     Domain (DomainError kind op message field cause) # (case cause of None \<Rightarrow> [] | Some e \<Rightarrow> error_nodes e)"
| "error_nodes (Wrapped op e) = Wrapped op e # error_nodes e"
| "error_nodes (Joined es) = Joined es # concat (map error_nodes es)"
| "error_nodes (Foreign x) = [Foreign x]"

lemma error_is_node: "error_is e t \<longleftrightarrow> Sentinel t \<in> set (error_nodes e)"
  by (induction e t rule: error_is.induct) (auto split: option.splits)

definition as_domain :: "go_error \<Rightarrow> domain_error option" where
  "as_domain e = (case e of Domain d \<Rightarrow> Some d | _ \<Rightarrow> None)"

lemma find_first_some: "(case List.find (\<lambda>r. r \<noteq> None) rs of None \<Rightarrow> None | Some r \<Rightarrow> r) = first_some rs"
  by (induction rs) (auto split: option.split)

lemma extract_joined: "extract_domain_error (Joined es) = first_some (map extract_domain_error es)"
  by (simp only: extract_domain_error.simps find_first_some)

declare extract_domain_error.simps(4) [simp del]

lemma first_some_concat:
  "(\<And>x. x \<in> set xs \<Longrightarrow> first_some (g x) = f x) \<Longrightarrow> first_some (map f xs) = first_some (concat (map g xs))"
  by (induction xs) (auto simp: first_some_append split: option.split)

lemma extract_first_node: "extract_domain_error e = first_some (map as_domain (error_nodes e))"
proof (induction e rule: extract_domain_error.induct)
  case (2 d)
  then show ?case by (cases d) (simp add: as_domain_def)
next
  case (4 es)
  have "first_some (map extract_domain_error es) = first_some (concat (map (\<lambda>e. map as_domain (error_nodes e)) es))"
    by (rule first_some_concat) (simp add: "4.IH")
  moreover have "as_domain (Joined es) = None" by (simp add: as_domain_def)
  ultimately show ?case by (simp add: extract_joined map_concat comp_def)
qed (simp_all add: as_domain_def)


section \<open>Translation to HTTP\<close>

record public_http_error =
  http_status_code :: int
  public_code :: string
  public_message :: string
  public_field :: string

definition public_error :: "int \<Rightarrow> string \<Rightarrow> string \<Rightarrow> int \<times> public_http_error" where
  "public_error status c message =
     (status, \<lparr>http_status_code = status, public_code = c, public_message = message, public_field = []\<rparr>)"

text \<open>The switch on the kind; a kind it does not name falls through to the sentinels.\<close>

definition map_domain :: "domain_error \<Rightarrow> (int \<times> public_http_error) option" where
  "map_domain d =
     (if de_kind d = KindNotFound then Some (public_error 404 ''RESOURCE_NOT_FOUND'' (de_message d))
      else if de_kind d = KindConflict then Some (public_error 409 ''RESOURCE_CONFLICT'' (de_message d))
      else if de_kind d = KindValidation then
        Some (422, \<lparr>http_status_code = 422, public_code = ''VALIDATION_ERROR'', public_message = de_message d,
                     public_field = de_field d\<rparr>)
      else if de_kind d = KindUnauthorized then Some (public_error 401 ''UNAUTHORIZED'' ''Authentication required'')
      else if de_kind d = KindForbidden then
        Some (public_error 403 ''FORBIDDEN'' ''You do not have permission to perform this action'')
      else if de_kind d = KindInternal then
        Some (public_error 500 ''INTERNAL_ERROR'' ''An unexpected error occurred. Please try again later.'')
      else None)"

definition map_sentinel :: "go_error \<Rightarrow> int \<times> public_http_error" where
  "map_sentinel e =
     (if error_is e ErrNotFound then public_error 404 ''NOT_FOUND'' ''Resource not found''
      else if error_is e ErrConflict then public_error 409 ''CONFLICT'' ''Resource conflict''
      else public_error 500 ''INTERNAL_SERVER_ERROR'' ''An internal error occurred. Please contact support.'')"

definition map_to_http :: "go_error option \<Rightarrow> int \<times> public_http_error" where
  "map_to_http err =
     (case err of
        None \<Rightarrow> public_error 200 ''OK'' ''Success''
      | Some e \<Rightarrow>
          (case extract_domain_error e of
             None \<Rightarrow> map_sentinel e
           | Some d \<Rightarrow> (case map_domain d of Some r \<Rightarrow> r | None \<Rightarrow> map_sentinel e)))"

lemma map_to_http_simps:
  "map_to_http None = public_error 200 ''OK'' ''Success''"
  "extract_domain_error e = None \<Longrightarrow> map_to_http (Some e) = map_sentinel e"
  "extract_domain_error e = Some d \<Longrightarrow> map_domain d = Some r \<Longrightarrow> map_to_http (Some e) = r"
  "extract_domain_error e = Some d \<Longrightarrow> map_domain d = None \<Longrightarrow> map_to_http (Some e) = map_sentinel e"
  by (simp_all add: map_to_http_def)

text \<open>The status line and the payload agree.\<close>

lemma map_to_http_status: "http_status_code (snd (map_to_http err)) = fst (map_to_http err)"
  by (simp add: map_to_http_def map_domain_def map_sentinel_def public_error_def split: option.split)


section \<open>Internal details do not reach the client\<close>

text \<open>\<open>redact\<close> replaces every operation name and every text of an error that is not of this package, and
  forgets what a public domain error says unless it is of one of the three kinds whose message is meant for the client.\<close>

definition public_kind :: "error_kind \<Rightarrow> bool" where
  "public_kind k \<longleftrightarrow> k = KindNotFound \<or> k = KindConflict \<or> k = KindValidation"

fun redact :: "go_error \<Rightarrow> go_error" and redact_domain :: "domain_error \<Rightarrow> domain_error" where
  "redact (Sentinel s) = Sentinel s"
| "redact (Domain d) = Domain (redact_domain d)"
| "redact (Wrapped op e) = Wrapped [] (redact e)"
| "redact (Joined es) = Joined (map redact es)"
| "redact (Foreign x) = Foreign []"
| "redact_domain (DomainError kind op message field cause) =
     DomainError kind [] (if public_kind kind then message else [])
       (if kind = KindValidation then field else []) (map_option redact cause)"

lemma error_is_redact: "error_is (redact e) t = error_is e t"
proof (induction e t rule: error_is.induct)
  case (2 kind op message field cause t)
  then show ?case by (cases cause) auto
qed auto

lemma extract_redact: "extract_domain_error (redact e) = map_option redact_domain (extract_domain_error e)"
proof (induction e rule: extract_domain_error.induct)
  case (4 es)
  have "map (\<lambda>e. extract_domain_error (redact e)) es = map (map_option redact_domain) (map extract_domain_error es)"
    using "4.IH" by simp
  then show ?case by (simp add: extract_joined first_some_map [symmetric] comp_def cong: map_cong)
qed simp_all

lemma map_domain_redact: "map_domain (redact_domain d) = map_domain d"
  by (cases d) (auto simp: map_domain_def public_kind_def kind_defs)

lemma map_sentinel_redact: "map_sentinel (redact e) = map_sentinel e"
  by (simp add: map_sentinel_def error_is_redact)

text \<open>The response of \<open>MapToHTTP\<close> does not depend on anything internal: two errors that differ only in
  operation names, in the texts of wrapped foreign errors, or in the messages and fields of domain errors that are
  not addressed to the client, get the same status and the same payload.\<close>

theorem internal_details_hidden:
  "map_option redact err1 = map_option redact err2 \<Longrightarrow> map_to_http err1 = map_to_http err2"
proof -
  have eq: "map_to_http (map_option redact err) = map_to_http err" for err
  proof (cases err)
    case (Some e)
    then show ?thesis
      by (auto simp: map_to_http_def extract_redact map_sentinel_redact map_domain_redact split: option.split)
  qed simp
  assume "map_option redact err1 = map_option redact err2"
  with eq [of err1] eq [of err2] show ?thesis by simp
qed

lemma internal_details_hidden_witness:
  "map_to_http (Some (Wrapped ''SELECT * FROM users'' (Foreign ''pq: password authentication failed'')))
     = map_to_http (Some (Wrapped ''load'' (Foreign ''disk on fire'')))"
  by (rule internal_details_hidden) simp

text \<open>What the client reads: a constant, or the message of the first domain error of the tree.\<close>

lemma public_message_cases:
  assumes "map_to_http (Some e) = (st, p)"
  shows "public_message p \<in> {''Authentication required'', ''You do not have permission to perform this action'',
       ''An unexpected error occurred. Please try again later.'', ''Resource not found'', ''Resource conflict'',
       ''An internal error occurred. Please contact support.''} \<or>
     (\<exists>d. extract_domain_error e = Some d \<and> public_kind (de_kind d) \<and> public_message p = de_message d)"
proof (cases "extract_domain_error e")
  case None
  with assms show ?thesis
    by (auto simp: map_to_http_simps map_sentinel_def public_error_def split: if_splits)
next
  case (Some d)
  show ?thesis
  proof (cases "map_domain d")
    case None
    with assms Some show ?thesis
      by (auto simp: map_to_http_simps map_sentinel_def public_error_def split: if_splits)
  next
    case (Some r)
    with assms \<open>extract_domain_error e = Some d\<close> have "map_domain d = Some (st, p)"
      by (simp add: map_to_http_simps)
    then show ?thesis
      using \<open>extract_domain_error e = Some d\<close>
      by (auto simp: map_domain_def public_error_def public_kind_def split: if_splits)
  qed
qed

text \<open>Only two of the six sentinels are recognised: the other four are answered as internal errors, the
  validation error of \<open>FindUserByID\<close> among them.\<close>

lemma unmapped_sentinels:
  assumes "extract_domain_error e = None"
  shows "fst (map_to_http (Some e)) =
    (if error_is e ErrNotFound then 404 else if error_is e ErrConflict then 409 else 500)"
  using assms by (simp add: map_to_http_simps map_sentinel_def public_error_def)

lemma find_user_statuses:
  "fst (map_to_http (find_user_by_id i)) =
     (if i = [] then 500 else if i = ''missing'' then 404 else if i = ''conflict'' then 409 else 200)"
  by (simp add: find_user_by_id_def wrap_operation_def map_to_http_def map_sentinel_def public_error_def)

text \<open>Wrapping an error never changes its response.\<close>

lemma wrap_operation_transparent: "map_to_http (wrap_operation op err) = map_to_http err"
  by (simp add: wrap_operation_def map_to_http_def map_sentinel_def split: option.split)


section \<open>Problem details\<close>

record field_violation =
  violated_field :: string
  violation_reason :: string

record problem_details =
  problem_type :: string
  problem_title :: string
  problem_status :: int
  problem_detail :: string
  problem_instance :: string
  problem_correlation_id :: string
  problem_timestamp :: gotime
  invalid_params :: "field_violation list"

text \<open>What the response writer has received: its headers, the status written and the value encoded as its body.\<close>

record 'b written_response =
  written_headers :: "string \<rightharpoonup> string"
  written_status :: "int option"
  written_body :: "'b list"

text \<open>Only the first \<open>WriteHeader\<close> counts.\<close>

definition write_header :: "int \<Rightarrow> 'b written_response \<Rightarrow> 'b written_response" where
  "write_header st w = (if written_status w = None then w\<lparr>written_status := Some st\<rparr> else w)"

definition write_problem_details ::
  "gotime \<Rightarrow> problem_details written_response \<Rightarrow> problem_details \<Rightarrow> problem_details written_response" where
  "write_problem_details now w problem =
     (let problem1 = (if problem_timestamp problem = zero_time then problem\<lparr>problem_timestamp := now\<rparr> else problem);
          problem2 = (if problem_type problem1 = [] then problem1\<lparr>problem_type := ''about:blank''\<rparr> else problem1);
          w1 = w\<lparr>written_headers := (written_headers w)(''Content-Type'' \<mapsto> ''application/problem+json'')\<rparr>;
          w2 = write_header (problem_status problem2) w1
      in w2\<lparr>written_body := written_body w2 @ [problem2]\<rparr>)"

text \<open>A written problem always has a type and, unless the clock reads the zero time, a timestamp; what the caller
  filled in is kept.\<close>

lemma write_problem_complete:
  assumes "written_status w = None" and "written_body w = []" and "now \<noteq> zero_time"
  shows "\<exists>p. written_body (write_problem_details now w problem) = [p] \<and>
    written_status (write_problem_details now w problem) = Some (problem_status problem) \<and>
    problem_type p \<noteq> [] \<and> problem_timestamp p \<noteq> zero_time \<and>
    (problem_type problem \<noteq> [] \<longrightarrow> problem_type p = problem_type problem) \<and>
    (problem_timestamp problem \<noteq> zero_time \<longrightarrow> problem_timestamp p = problem_timestamp problem) \<and>
    problem_title p = problem_title problem \<and> invalid_params p = invalid_params problem"
  using assms by (auto simp: write_problem_details_def write_header_def Let_def)

end
