(* ===== verification/Api_Requests.thy ===== *)
theory Api_Requests
  imports Error_Taxonomy
begin

text \<open>
  \<open>patterns/10_apidesign\<close>: entity tags (\<open>etag_concurrency.go\<close>), list queries
  (\<open>pagination_filtering.go\<close>), partial updates (\<open>partial_update.go\<close>), the choice of the API version
  (\<open>api_versioning.go\<close>) and the response envelope (\<open>response_envelope.go\<close>).

  A request is known by the header and query values that are read from it. \<open>sha\<close> is \<open>crypto/sha256\<close>;
  \<open>lower\<close>, \<open>upper\<close> and \<open>same\<close> are the Unicode case functions \<open>strings.ToLower\<close>, \<open>strings.ToUpper\<close> and
  \<open>strings.EqualFold\<close>.
\<close>


section \<open>Entity tags\<close>

definition generate_etag :: "(string \<Rightarrow> string) \<Rightarrow> string \<Rightarrow> string" where
  "generate_etag sha payload = [CHR 0x22] @ hex_encode (take 16 (sha payload)) @ [CHR 0x22]"

definition tag_listed :: "string \<Rightarrow> string \<Rightarrow> bool" where
  "tag_listed clientETag currentETag \<longleftrightarrow>
     (\<exists>tag \<in> set (split_on (CHR '','') clientETag). trim_space tag = currentETag)"

definition check_if_none_match :: "string \<Rightarrow> string \<Rightarrow> bool" where
  "check_if_none_match header currentETag =
     (let clientETag = trim_space header in
      if clientETag = [] then False
      else if clientETag = ''*'' then True
      else tag_listed clientETag currentETag)"

definition check_if_match :: "string \<Rightarrow> string \<Rightarrow> bool" where
  "check_if_match header currentETag =
     (let clientETag = trim_space header in
      if clientETag = [] then True
      else if clientETag = ''*'' then True
      else tag_listed clientETag currentETag)"

text \<open>A client lists several tags in one header with \<open>join_comma\<close>.\<close>

definition quoted_tag :: "string \<Rightarrow> bool" where
  "quoted_tag t \<longleftrightarrow> t \<noteq> [] \<and> hd t = CHR 0x22 \<and> last t = CHR 0x22 \<and> CHR '','' \<notin> set t"

lemma quote_no_space: "\<not> space_start (CHR 0x22)" "\<not> space_end (CHR 0x22)"
  by (simp_all add: space_start_def space_end_def space_runes_def)

lemma trim_quoted: "quoted_tag t \<Longrightarrow> trim_space t = t"
  by (rule trim_space_id) (simp_all add: quoted_tag_def quote_no_space)

lemma generated_quoted: "quoted_tag (generate_etag sha p)"
  by (simp add: quoted_tag_def generate_etag_def hex_encode_no_char hex_val_def)

lemma header_ends:
  "ts \<noteq> [] \<Longrightarrow> \<forall>t \<in> set ts. quoted_tag t \<Longrightarrow>
   join_comma ts \<noteq> [] \<and> hd (join_comma ts) = CHR 0x22 \<and> last (join_comma ts) = CHR 0x22"
  by (induction ts rule: join_comma.induct) (auto simp: quoted_tag_def)

lemma split_blank: "split_on (CHR '','') (CHR '' '' # s) = (case split_on (CHR '','') s of [] \<Rightarrow> [[CHR '' '']] | p # ps \<Rightarrow> (CHR '' '' # p) # ps)"
  by simp

lemma split_header:
  assumes "quoted_tag t" and "split_on (CHR '','') rest = p # ps"
  shows "map trim_space (split_on (CHR '','') (t @ '', '' @ rest)) = t # map trim_space (p # ps)"
proof -
  have "CHR '','' \<notin> set t" using assms(1) by (simp add: quoted_tag_def)
  then have "split_on (CHR '','') (t @ '', '' @ rest) = t # (CHR '' '' # p) # ps"
    using assms(2) by simp
  then show ?thesis by (simp only: list.map trim_quoted [OF assms(1)] trim_space_blank)
qed

lemma header_tags:
  "ts \<noteq> [] \<Longrightarrow> \<forall>t \<in> set ts. quoted_tag t \<Longrightarrow> map trim_space (split_on (CHR '','') (join_comma ts)) = ts"
proof (induction ts rule: join_comma.induct)
  case (2 t)
  then have t: "quoted_tag t" by simp
  then have "split_on (CHR '','') t = [t]" by (intro split_on_none) (simp add: quoted_tag_def)
  then show ?case using trim_quoted [OF t] by simp
next
  case (3 t u ts)
  define rest where "rest = join_comma (u # ts)"
  obtain p ps where p: "split_on (CHR '','') rest = p # ps"
    by (cases "split_on (CHR '','') rest") auto
  have t: "quoted_tag t" and q: "\<forall>t \<in> set (u # ts). quoted_tag t" using "3.prems"(2) by simp_all
  have "map trim_space (split_on (CHR '','') rest) = u # ts"
    unfolding rest_def by (rule "3.IH") (use q in simp_all)
  then have "map trim_space (split_on (CHR '','') (t @ '', '' @ rest)) = t # u # ts"
    using split_header [OF t p] by (simp only: p)
  then show ?case by (simp only: join_comma.simps(3) rest_def)
qed simp

lemma tag_listed_header:
  "ts \<noteq> [] \<Longrightarrow> \<forall>t \<in> set ts. quoted_tag t \<Longrightarrow> tag_listed (join_comma ts) current \<longleftrightarrow> current \<in> set ts"
proof -
  assume ts: "ts \<noteq> []" "\<forall>t \<in> set ts. quoted_tag t"
  have "tag_listed h current \<longleftrightarrow> current \<in> set (map trim_space (split_on (CHR '','') h))" for h
    by (auto simp: tag_listed_def)
  then show ?thesis by (simp only: header_tags [OF ts])
qed

lemma trim_header: "ts \<noteq> [] \<Longrightarrow> \<forall>t \<in> set ts. quoted_tag t \<Longrightarrow> trim_space (join_comma ts) = join_comma ts"
  using header_ends [of ts] by (intro trim_space_id) (simp_all add: quote_no_space)

lemma hex_encode_inj: "hex_encode a = hex_encode b \<longleftrightarrow> a = b"
  by (metis hex_decode_encode option.inject)

text \<open>Conditional requests do what the tags say: for a header that lists the tags of any representations the client has
  seen, \<open>If-Match\<close> lets an update through, and \<open>If-None-Match\<close> reports the resource unchanged, exactly if one of
  those representations agrees with the current one in the hash the tag is made of.\<close>

theorem etag_conditions_exact:
  assumes "payloads \<noteq> []"
  shows "(check_if_match (join_comma (map (generate_etag sha) payloads)) (generate_etag sha current)
      \<longleftrightarrow> (\<exists>p \<in> set payloads. take 16 (sha p) = take 16 (sha current))) \<and>
    (check_if_none_match (join_comma (map (generate_etag sha) payloads)) (generate_etag sha current)
      \<longleftrightarrow> (\<exists>p \<in> set payloads. take 16 (sha p) = take 16 (sha current)))"
proof -
  let ?ts = "map (generate_etag sha) payloads" and ?h = "join_comma (map (generate_etag sha) payloads)"
  have ne: "?ts \<noteq> []" and q: "\<forall>t \<in> set ?ts. quoted_tag t"
    using assms by (auto simp: generated_quoted)
  have h: "trim_space ?h = ?h" "?h \<noteq> []" "?h \<noteq> ''*''"
    using trim_header [OF ne q] header_ends [OF ne q] by auto
  have "tag_listed ?h (generate_etag sha current) \<longleftrightarrow> generate_etag sha current \<in> set ?ts"
    by (rule tag_listed_header [OF ne q])
  also have "\<dots> \<longleftrightarrow> (\<exists>p \<in> set payloads. take 16 (sha p) = take 16 (sha current))"
    by (simp add: generate_etag_def hex_encode_inj image_iff eq_commute)
  finally show ?thesis
    using h by (simp add: check_if_match_def check_if_none_match_def Let_def)
qed

lemma etag_conditions_exact_witness:
  "check_if_match (join_comma (map (generate_etag (\<lambda>p. p)) [''a'', ''b''])) (generate_etag (\<lambda>p. p) ''b'')"
  using etag_conditions_exact [of "[''a'', ''b'']" "\<lambda>p. p" "''b''"] by simp

text \<open>A missing \<open>If-Match\<close> header lets every update through, and a weak tag never matches.\<close>

lemma no_precondition: "check_if_match [] current \<and> \<not> check_if_none_match [] current"
  by (simp add: check_if_match_def check_if_none_match_def)


section \<open>List queries\<close>

record list_query =
  lq_page :: int
  lq_limit :: int
  lq_sort_by :: string
  lq_descending :: bool
  lq_filters :: "string \<rightharpoonup> string"

definition values_get :: "(string \<rightharpoonup> string list) \<Rightarrow> string \<Rightarrow> string" where
  "values_get vs k = (case vs k of Some (v # _) \<Rightarrow> v | _ \<Rightarrow> [])"

definition parse_page :: "(string \<rightharpoonup> string list) \<Rightarrow> int" where
  "parse_page vs =
     (let pStr = values_get vs ''page'' in
      if pStr \<noteq> [] then (case parse_int pStr of Inr p \<Rightarrow> if 0 < p then p else 1 | Inl _ \<Rightarrow> 1) else 1)"

definition parse_limit :: "(string \<rightharpoonup> string list) \<Rightarrow> int" where
  "parse_limit vs =
     (let lStr = values_get vs ''limit'' in
      if lStr \<noteq> []
      then (case parse_int lStr of Inr l \<Rightarrow> if l < 1 then 1 else if 100 < l then 100 else l | Inl _ \<Rightarrow> 20)
      else 20)"

text \<open>The sort field, or \<open>None\<close> for the error.\<close>

definition parse_sort :: "(string \<Rightarrow> string \<Rightarrow> bool) \<Rightarrow> (string \<rightharpoonup> string list) \<Rightarrow> string list \<Rightarrow> string option" where
  "parse_sort same vs allowedSortFields =
     (let s = values_get vs ''sort'' in
      if s \<noteq> [] then
        (case List.find (same s) allowedSortFields of
           Some field \<Rightarrow> Some field
         | None \<Rightarrow> if 0 < length allowedSortFields then None else Some ''created_at'')
      else Some ''created_at'')"

fun parse_filters :: "(string \<rightharpoonup> string list) \<Rightarrow> string list \<Rightarrow> (string \<rightharpoonup> string) \<Rightarrow> (string \<rightharpoonup> string)" where
  "parse_filters vs [] filters = filters"
| "parse_filters vs (k # ks) filters =
     parse_filters vs ks (if values_get vs k \<noteq> [] then filters(k \<mapsto> values_get vs k) else filters)"

definition parse_list_query ::
  "(string \<Rightarrow> string \<Rightarrow> bool) \<Rightarrow> (string \<Rightarrow> string) \<Rightarrow> (string \<rightharpoonup> string list) \<Rightarrow> string list \<Rightarrow> string list \<Rightarrow> list_query option" where
  "parse_list_query same upper vs allowedSortFields allowedFilters =
     (case parse_sort same vs allowedSortFields of
        None \<Rightarrow> None
      | Some sortBy \<Rightarrow>
          Some \<lparr>lq_page = parse_page vs, lq_limit = parse_limit vs, lq_sort_by = sortBy,
                lq_descending = (upper (values_get vs ''order'') \<noteq> ''ASC''),
                lq_filters = parse_filters vs allowedFilters Map.empty\<rparr>)"

definition query_offset :: "list_query \<Rightarrow> int" where
  "query_offset q = i64 (i64 (lq_page q - 1) * lq_limit q)"

lemma parse_page_bounds: "1 \<le> parse_page vs \<and> parse_page vs < 9223372036854775808"
  by (auto simp: parse_page_def Let_def in64_def dest!: parse_int_in64 split: sum.split)

lemma parse_limit_bounds: "1 \<le> parse_limit vs \<and> parse_limit vs \<le> 100"
  by (auto simp: parse_limit_def Let_def split: sum.split)

lemma parse_filters_lookup:
  "parse_filters vs ks m k = (if k \<in> set ks \<and> values_get vs k \<noteq> [] then Some (values_get vs k) else m k)"
  by (induction ks arbitrary: m) auto

lemma parse_sort_allowed:
  "parse_sort same vs sortable = Some f \<Longrightarrow> f \<in> set sortable \<or> f = ''created_at''"
  by (auto simp: parse_sort_def Let_def find_Some_iff split: if_splits option.splits)

text \<open>A parsed list query is safe to turn into SQL: the page is positive, the limit is between 1 and 100, the sort
  field is one of the allowed fields or the default, only allowed filters occur, each with the value of the request, and
  for every page up to 92233720368547758 the offset is the product, without wrap-around.\<close>

theorem list_query_safe:
  assumes "parse_list_query same upper vs sortable allowed = Some q"
  shows "1 \<le> lq_page q \<and> 1 \<le> lq_limit q \<and> lq_limit q \<le> 100 \<and>
    (lq_sort_by q \<in> set sortable \<or> lq_sort_by q = ''created_at'') \<and>
    (\<forall>k v. lq_filters q k = Some v \<longrightarrow> k \<in> set allowed \<and> v \<noteq> [] \<and> values_get vs k = v) \<and>
    (lq_page q \<le> 92233720368547758 \<longrightarrow> query_offset q = (lq_page q - 1) * lq_limit q)"
proof -
  from assms obtain s where s: "parse_sort same vs sortable = Some s"
    and q: "q = \<lparr>lq_page = parse_page vs, lq_limit = parse_limit vs, lq_sort_by = s,
                lq_descending = (upper (values_get vs ''order'') \<noteq> ''ASC''),
                lq_filters = parse_filters vs allowed Map.empty\<rparr>"
    by (auto simp: parse_list_query_def split: option.splits)
  have offset: "query_offset q = (lq_page q - 1) * lq_limit q" if "lq_page q \<le> 92233720368547758"
  proof -
    have p: "0 \<le> lq_page q - 1" "lq_page q - 1 \<le> 92233720368547757"
      using parse_page_bounds [of vs] that by (simp_all add: q)
    have l: "0 \<le> lq_limit q" "lq_limit q \<le> 100" using parse_limit_bounds [of vs] by (simp_all add: q)
    have "(lq_page q - 1) * lq_limit q \<le> 92233720368547757 * 100" using p l by (intro mult_mono) auto
    moreover have "0 \<le> (lq_page q - 1) * lq_limit q" using p l by simp
    ultimately show ?thesis using p by (simp add: query_offset_def in64_def)
  qed
  have "\<forall>k v. lq_filters q k = Some v \<longrightarrow> k \<in> set allowed \<and> v \<noteq> [] \<and> values_get vs k = v"
    by (auto simp: q parse_filters_lookup split: if_splits)
  moreover have "1 \<le> lq_page q \<and> 1 \<le> lq_limit q \<and> lq_limit q \<le> 100 \<and>
    (lq_sort_by q \<in> set sortable \<or> lq_sort_by q = ''created_at'')"
    using parse_page_bounds [of vs] parse_limit_bounds [of vs] parse_sort_allowed [OF s] by (simp add: q)
  ultimately show ?thesis using offset by blast
qed

lemma list_query_safe_witness:
  "\<exists>q. parse_list_query (=) (\<lambda>s. s) (Map.empty(''sort'' \<mapsto> [''name''])) [''name''] [] = Some q \<and> lq_sort_by q \<in> {''name'', ''created_at''}"
proof -
  obtain q where q: "parse_list_query (=) (\<lambda>s. s) (Map.empty(''sort'' \<mapsto> [''name''])) [''name''] [] = Some q"
    by (simp add: parse_list_query_def parse_sort_def values_get_def)
  from list_query_safe [OF q] q show ?thesis by auto
qed

text \<open>Beyond that the offset can be negative.\<close>

lemma offset_wraps: "query_offset q = - 9223372036854775716" if "lq_page q = 92233720368547760" "lq_limit q = 100"
  using that by (simp add: query_offset_def i64_def)

text \<open>Without allowed sort fields any sort parameter is accepted and ignored.\<close>

lemma no_sort_fields: "parse_sort same vs [] = Some ''created_at''"
  by (simp add: parse_sort_def Let_def)


section \<open>Partial updates\<close>

record user_profile =
  profile_id :: string
  display_name :: string
  profile_bio :: string
  profile_age :: int

record profile_patch =
  patch_display_name :: "string option"
  patch_bio :: "string option"
  patch_age :: "int option"

datatype patch_error = EmptyDisplayName | NegativeAge

definition validate_patch :: "profile_patch \<Rightarrow> patch_error option" where
  "validate_patch p =
     (case patch_display_name p of
        Some n \<Rightarrow>
          if trim_space n = [] then Some EmptyDisplayName
          else (case patch_age p of Some a \<Rightarrow> if a < 0 then Some NegativeAge else None | None \<Rightarrow> None)
      | None \<Rightarrow> (case patch_age p of Some a \<Rightarrow> if a < 0 then Some NegativeAge else None | None \<Rightarrow> None))"

text \<open>The profile is a pointer, which may be nil.\<close>

definition apply_updates :: "profile_patch \<Rightarrow> user_profile option \<Rightarrow> user_profile option" where
  "apply_updates p profile =
     (case profile of
        None \<Rightarrow> None
      | Some u \<Rightarrow>
          (let u1 = (case patch_display_name p of Some n \<Rightarrow> u\<lparr>display_name := n\<rparr> | None \<Rightarrow> u);
               u2 = (case patch_bio p of Some b \<Rightarrow> u1\<lparr>profile_bio := b\<rparr> | None \<Rightarrow> u1);
               u3 = (case patch_age p of Some a \<Rightarrow> u2\<lparr>profile_age := a\<rparr> | None \<Rightarrow> u2)
           in Some u3))"

definition valid_profile :: "user_profile \<Rightarrow> bool" where
  "valid_profile u \<longleftrightarrow> trim_space (display_name u) \<noteq> [] \<and> 0 \<le> profile_age u"

lemma apply_updates_fields:
  "apply_updates p (Some u) = Some
     \<lparr>profile_id = profile_id u, display_name = (case patch_display_name p of Some n \<Rightarrow> n | None \<Rightarrow> display_name u),
      profile_bio = (case patch_bio p of Some b \<Rightarrow> b | None \<Rightarrow> profile_bio u),
      profile_age = (case patch_age p of Some a \<Rightarrow> a | None \<Rightarrow> profile_age u)\<rparr>"
  by (simp add: apply_updates_def Let_def split: option.split)

text \<open>What a later patch says wins, and what it leaves out stays.\<close>

definition combine_patches :: "profile_patch \<Rightarrow> profile_patch \<Rightarrow> profile_patch" where
  "combine_patches p q =
     \<lparr>patch_display_name = (case patch_display_name q of Some n \<Rightarrow> Some n | None \<Rightarrow> patch_display_name p),
      patch_bio = (case patch_bio q of Some b \<Rightarrow> Some b | None \<Rightarrow> patch_bio p),
      patch_age = (case patch_age q of Some a \<Rightarrow> Some a | None \<Rightarrow> patch_age p)\<rparr>"

lemma apply_updates_combine: "apply_updates q (apply_updates p profile) = apply_updates (combine_patches p q) profile"
proof (cases profile)
  case None
  then show ?thesis by (simp add: apply_updates_def)
next
  case (Some u)
  then show ?thesis by (auto simp: apply_updates_fields combine_patches_def split: option.split)
qed

lemma apply_updates_idem: "apply_updates p (apply_updates p profile) = apply_updates p profile"
proof -
  have "combine_patches p p = p" by (auto simp: combine_patches_def split: option.split)
  then show ?thesis by (simp add: apply_updates_combine)
qed

lemma valid_patch_keeps_valid:
  assumes "validate_patch p = None" and "valid_profile u"
  shows "\<exists>v. apply_updates p (Some u) = Some v \<and> valid_profile v \<and> profile_id v = profile_id u"
  using assms by (auto simp: apply_updates_fields valid_profile_def validate_patch_def split: option.splits if_splits)

text \<open>The empty patch is accepted and changes nothing.\<close>

lemma empty_patch: "apply_updates \<lparr>patch_display_name = None, patch_bio = None, patch_age = None\<rparr> profile = profile"
  by (cases profile) (simp_all add: apply_updates_def)


section \<open>API versions\<close>

fun take_digits :: "string \<Rightarrow> string" where
  "take_digits [] = []"
| "take_digits (c # cs) = (if digit_val c \<noteq> None then c # take_digits cs else [])"

text \<open>\<open>v[1-9][0-9]*\<close> at the front of a string: the match and the rest.\<close>

definition match_version :: "string \<Rightarrow> (string \<times> string) option" where
  "match_version s =
     (case s of
        v # d # ds \<Rightarrow>
          (if v = CHR ''v'' \<and> digit_val d \<noteq> None \<and> d \<noteq> CHR ''0''
           then Some (v # d # take_digits ds, drop (length (take_digits ds)) ds) else None)
      | _ \<Rightarrow> None)"

text \<open>\<open>pathVersionRegex\<close>, anchored at the start.\<close>

definition path_version :: "string \<Rightarrow> string option" where
  "path_version path =
     (if has_prefix path ''/api/'' then
        (case match_version (drop 5 path) of
           Some (v, rest) \<Rightarrow> if has_prefix rest ''/'' then Some v else None
         | None \<Rightarrow> None)
      else None)"

definition vendor_char :: "char \<Rightarrow> bool" where
  "vendor_char c \<longleftrightarrow> b64_val c \<noteq> None"

fun take_vendor :: "string \<Rightarrow> string" where
  "take_vendor [] = []"
| "take_vendor (c # cs) = (if vendor_char c then c # take_vendor cs else [])"

text \<open>\<open>acceptHeaderRegex\<close> at one position, and the leftmost match. The vendor's characters, those of the URL-safe
  base64 alphabet, do not contain the dot that follows, so the greedy match is the only one.\<close>

definition accept_version_at :: "string \<Rightarrow> string option" where
  "accept_version_at s =
     (if has_prefix s ''application/vnd.'' then
        (let s1 = drop 16 s; vendor = take_vendor s1; s2 = drop (length vendor) s1 in
         if vendor \<noteq> [] \<and> has_prefix s2 ''.'' then
           (case match_version (tl s2) of
              Some (v, rest) \<Rightarrow> if has_prefix rest ''+json'' then Some v else None
            | None \<Rightarrow> None)
         else None)
      else None)"

fun accept_version :: "string \<Rightarrow> string option" where
  "accept_version [] = None"
| "accept_version (c # cs) =
     (case accept_version_at (c # cs) of Some v \<Rightarrow> Some v | None \<Rightarrow> accept_version cs)"

definition header_version :: "(string \<Rightarrow> string) \<Rightarrow> string \<Rightarrow> string" where
  "header_version lower h =
     (let h1 = lower (trim_space h) in if \<not> has_prefix h1 ''v'' then ''v'' @ h1 else h1)"

definition extract_api_version :: "(string \<Rightarrow> string) \<Rightarrow> string \<Rightarrow> string \<Rightarrow> string \<Rightarrow> string" where
  "extract_api_version lower path x_api_version accept =
     (case path_version path of
        Some v \<Rightarrow> lower v
      | None \<Rightarrow>
          if x_api_version \<noteq> [] then header_version lower x_api_version
          else if accept \<noteq> [] then (case accept_version accept of Some v \<Rightarrow> lower v | None \<Rightarrow> ''v1'')
          else ''v1'')"

definition is_version :: "string \<Rightarrow> bool" where
  "is_version v \<longleftrightarrow> (\<exists>d ds. v = CHR ''v'' # d # ds \<and> d \<noteq> CHR ''0'' \<and> (\<forall>c \<in> set (d # ds). digit_val c \<noteq> None))"

lemma take_digits_digits: "c \<in> set (take_digits s) \<Longrightarrow> digit_val c \<noteq> None"
  by (induction s) (auto split: if_splits)

lemma match_version_is: "match_version s = Some (v, rest) \<Longrightarrow> is_version v \<and> s = v @ rest"
proof -
  have "take_digits ds @ drop (length (take_digits ds)) ds = ds" for ds
    by (induction ds) auto
  then show "match_version s = Some (v, rest) \<Longrightarrow> is_version v \<and> s = v @ rest"
    using take_digits_digits by (fastforce simp: match_version_def is_version_def split: list.splits if_splits)
qed

lemma path_version_is: "path_version path = Some v \<Longrightarrow> is_version v"
  using match_version_is by (auto simp: path_version_def split: if_splits option.splits)

lemma accept_version_is: "accept_version s = Some v \<Longrightarrow> is_version v"
proof (induction s)
  case (Cons c cs)
  have "accept_version_at (c # cs) = Some v \<Longrightarrow> is_version v"
    using match_version_is by (auto simp: accept_version_at_def Let_def split: if_splits option.splits)
  with Cons show ?case by (auto split: option.splits)
qed simp

text \<open>A version in the path decides, whatever the headers say; it is a \<open>v\<close> and a number without leading zero.\<close>

lemma path_decides:
  assumes "path_version path = Some v" and "\<And>v. is_version v \<Longrightarrow> lower v = v"
  shows "extract_api_version lower path h a = v \<and> is_version v"
  using assms path_version_is [OF assms(1)] by (simp add: extract_api_version_def)

lemma path_version_found:
  assumes "is_version v"
  shows "path_version (''/api/'' @ v @ ''/'' @ rest) = Some v"
proof -
  from assms obtain d ds where v: "v = CHR ''v'' # d # ds" "d \<noteq> CHR ''0''" "\<forall>c \<in> set (d # ds). digit_val c \<noteq> None"
    by (auto simp: is_version_def)
  have "take_digits (ds @ CHR ''/'' # rest) = ds" if "\<forall>c \<in> set ds. digit_val c \<noteq> None" for ds
    using that by (induction ds) (auto simp: digit_val_def)
  then show ?thesis using v by (simp add: path_version_def match_version_def)
qed

lemma blank_version_header: "lower [] = [] \<Longrightarrow> header_version lower '' '' = ''v''"
  by (simp add: header_version_def)


section \<open>Response envelope\<close>

record api_meta =
  meta_page :: int
  meta_limit :: int
  meta_total_items :: int

record 'd api_response =
  response_data :: 'd
  response_meta :: "api_meta option"

definition write_success_response ::
  "'d api_response written_response \<Rightarrow> int \<Rightarrow> 'd \<Rightarrow> api_meta option \<Rightarrow> 'd api_response written_response" where
  "write_success_response w statusCode d meta =
     (let w1 = w\<lparr>written_headers := (written_headers w)(''Content-Type'' \<mapsto> ''application/json'')\<rparr>;
          w2 = write_header statusCode w1
      in w2\<lparr>written_body := written_body w2 @ [\<lparr>response_data = d, response_meta = meta\<rparr>]\<rparr>)"

definition normalize_email :: "(string \<Rightarrow> string) \<Rightarrow> string \<Rightarrow> string" where
  "normalize_email lower email = lower (trim_space email)"

record user_account =
  account_id :: string
  account_email :: string
  password_hash :: string
  account_ssn :: string
  account_created_at :: gotime

record user_account_dto =
  dto_id :: string
  dto_email :: string
  dto_created_at :: gotime

definition filter_user_output :: "user_account option \<Rightarrow> user_account_dto" where
  "filter_user_output u =
     (case u of
        None \<Rightarrow> \<lparr>dto_id = [], dto_email = [], dto_created_at = zero_time\<rparr>
      | Some a \<Rightarrow> \<lparr>dto_id = account_id a, dto_email = account_email a, dto_created_at = account_created_at a\<rparr>)"

text \<open>Neither the password hash nor the social security number can be read off the output.\<close>

lemma output_hides_secrets:
  "filter_user_output (Some (a\<lparr>password_hash := h, account_ssn := n\<rparr>)) = filter_user_output (Some a)"
  by (simp add: filter_user_output_def)

end
