(* ===== verification/Backpressure_Queue.thy ===== *)
theory Backpressure_Queue
  imports Go_Prelude
begin

text \<open>
  \<open>patterns/09_concurrency/backpressure_queue.go\<close>: the bounded queue with its three overflow
  strategies. A goroutine that calls \<open>Wait\<close> on a condition variable is parked in the order of
  its arrival; \<open>Signal\<close> wakes the one that has waited longest, and a woken goroutine re-enters the
  loop of its operation once it has the mutex again. Between two waits every operation is one step.
  Each step reports the items it took in and the items it removed, in order.
\<close>

datatype overflow_strategy = StrategyReject | StrategyDropOldest | StrategyBlock

record 'a bounded_queue =
  q_items :: "'a list"
  q_capacity :: nat
  strategy :: overflow_strategy
  dropped_count :: int
  closed :: bool

definition new_bounded_queue :: "int \<Rightarrow> overflow_strategy \<Rightarrow> 'a bounded_queue" where
  "new_bounded_queue cap st =
     \<lparr>q_items = [], q_capacity = nat (if cap \<le> 0 then 100 else cap), strategy = st, dropped_count = 0,
      closed = False\<rparr>"

datatype push_end = PushClosed | PushFull | PushCtx ctx_err | PushMustWait | Pushed

text \<open>The loop of \<open>Push\<close>, from its head to its end or to a wait. \<open>ctx\<close> is what the poll of the
  context returns in this pass.\<close>

function push_loop :: "ctx_err option \<Rightarrow> 'a \<Rightarrow> 'a bounded_queue \<Rightarrow> push_end \<times> 'a list \<times> 'a bounded_queue" where
  "push_loop ctx x q =
     (if length (q_items q) \<ge> q_capacity q then
        (case strategy q of
           StrategyReject \<Rightarrow> (PushFull, [], q)
         | StrategyDropOldest \<Rightarrow>
             (case q_items q of
                [] \<Rightarrow> (PushFull, [], q)
              | y # ys \<Rightarrow>
                  (let (r, removed, q1) =
                     push_loop ctx x (q\<lparr>q_items := ys, dropped_count := i64 (dropped_count q + 1)\<rparr>)
                   in (r, y # removed, q1)))
         | StrategyBlock \<Rightarrow>
             (case ctx of Some e \<Rightarrow> (PushCtx e, [], q) | None \<Rightarrow> (PushMustWait, [], q)))
      else (Pushed, [], q\<lparr>q_items := q_items q @ [x]\<rparr>))"
  by pat_completeness auto
termination
  by (relation "measure (\<lambda>(ctx, x, q). length (q_items q))") auto

declare push_loop.simps [simp del]

text \<open>The capacity is positive, so the empty queue of the inner case is never full.\<close>

datatype 'a q_pc = QOut | QPushWait 'a | QPushWoken 'a | QPopWait | QPopWoken

record 'a queue_sys =
  queue :: "'a bounded_queue"
  not_full :: "nat list"
  not_empty :: "nat list"
  q_pc :: "nat \<Rightarrow> 'a q_pc"

definition queue_start :: "int \<Rightarrow> overflow_strategy \<Rightarrow> 'a queue_sys" where
  "queue_start cap st =
     \<lparr>queue = new_bounded_queue cap st, not_full = [], not_empty = [], q_pc = (\<lambda>t. QOut)\<rparr>"

definition signal_not_empty :: "'a queue_sys \<Rightarrow> 'a queue_sys" where
  "signal_not_empty s =
     (case not_empty s of
        [] \<Rightarrow> s
      | t # ts \<Rightarrow> s\<lparr>not_empty := ts, q_pc := (q_pc s)(t := QPopWoken)\<rparr>)"

definition signal_not_full :: "'a queue_sys \<Rightarrow> 'a queue_sys" where
  "signal_not_full s =
     (case not_full s of
        [] \<Rightarrow> s
      | t # ts \<Rightarrow>
          s\<lparr>not_full := ts, q_pc := (q_pc s)(t := (case q_pc s t of QPushWait x \<Rightarrow> QPushWoken x | c \<Rightarrow> c))\<rparr>)"

text \<open>The items taken in and the items removed by a step, and the item it returned.\<close>

record 'a q_log =
  log_in :: "'a list"
  log_out :: "'a list"
  log_result :: "'a option"

definition push_pass :: "'a queue_sys \<Rightarrow> nat \<Rightarrow> ctx_err option \<Rightarrow> 'a \<Rightarrow> 'a q_log \<times> 'a queue_sys" where
  "push_pass s t ctx x =
     (let (r, removed, q) = push_loop ctx x (queue s);
          s1 = s\<lparr>queue := q\<rparr>
      in case r of
           Pushed \<Rightarrow> (\<lparr>log_in = [x], log_out = removed, log_result = None\<rparr>,
                      signal_not_empty (s1\<lparr>q_pc := (q_pc s1)(t := QOut)\<rparr>))
         | PushMustWait \<Rightarrow> (\<lparr>log_in = [], log_out = removed, log_result = None\<rparr>,
                      s1\<lparr>q_pc := (q_pc s1)(t := QPushWait x), not_full := not_full s1 @ [t]\<rparr>)
         | _ \<Rightarrow> (\<lparr>log_in = [], log_out = removed, log_result = None\<rparr>, s1\<lparr>q_pc := (q_pc s1)(t := QOut)\<rparr>))"

definition pop_pass :: "'a queue_sys \<Rightarrow> nat \<Rightarrow> 'a q_log \<times> 'a queue_sys" where
  "pop_pass s t =
     (case q_items (queue s) of
        [] \<Rightarrow>
          if closed (queue s)
          then (\<lparr>log_in = [], log_out = [], log_result = None\<rparr>, s\<lparr>q_pc := (q_pc s)(t := QOut)\<rparr>)
          else (\<lparr>log_in = [], log_out = [], log_result = None\<rparr>,
                s\<lparr>q_pc := (q_pc s)(t := QPopWait), not_empty := not_empty s @ [t]\<rparr>)
      | y # ys \<Rightarrow>
          (\<lparr>log_in = [], log_out = [y], log_result = Some y\<rparr>,
           signal_not_full (s\<lparr>queue := (queue s)\<lparr>q_items := ys\<rparr>, q_pc := (q_pc s)(t := QOut)\<rparr>)))"

datatype 'a q_event = Push nat "ctx_err option" 'a | Pop nat | Resume nat "ctx_err option"

definition no_log :: "'a q_log" where
  "no_log = \<lparr>log_in = [], log_out = [], log_result = None\<rparr>"

fun q_step :: "'a queue_sys \<Rightarrow> 'a q_event \<Rightarrow> ('a q_log \<times> 'a queue_sys) option" where
  "q_step s (Push t ctx x) =
     (if q_pc s t \<noteq> QOut then None
      else if closed (queue s) then Some (no_log, s)
      else Some (push_pass s t ctx x))"
| "q_step s (Pop t) = (if q_pc s t \<noteq> QOut then None else Some (pop_pass s t))"
| "q_step s (Resume t ctx) =
     (case q_pc s t of
        QPushWoken x \<Rightarrow> Some (push_pass s t ctx x)
      | QPopWoken \<Rightarrow> Some (pop_pass s t)
      | _ \<Rightarrow> None)"

fun q_run :: "'a queue_sys \<Rightarrow> 'a q_event list \<Rightarrow> ('a q_log list \<times> 'a queue_sys) option" where
  "q_run s [] = Some ([], s)"
| "q_run s (e # es) =
     (case q_step s e of
        None \<Rightarrow> None
      | Some (l, s1) \<Rightarrow> (case q_run s1 es of None \<Rightarrow> None | Some (ls, s2) \<Rightarrow> Some (l # ls, s2)))"

definition taken_in :: "'a q_log list \<Rightarrow> 'a list" where
  "taken_in ls = concat (map log_in ls)"

definition removed :: "'a q_log list \<Rightarrow> 'a list" where
  "removed ls = concat (map log_out ls)"

lemma queue_signal [simp]: "queue (signal_not_empty s) = queue s" "queue (signal_not_full s) = queue s"
  by (simp_all add: signal_not_empty_def signal_not_full_def split: list.split)

lemma push_loop_conserves:
  assumes "push_loop ctx x q = (r, out, q')"
  shows "q_items q @ (if r = Pushed then [x] else []) = out @ q_items q'
    \<and> q_capacity q' = q_capacity q \<and> strategy q' = strategy q
    \<and> (length (q_items q) \<le> q_capacity q \<longrightarrow> length (q_items q') \<le> q_capacity q)
    \<and> (strategy q \<noteq> StrategyDropOldest \<longrightarrow> out = [])"
  using assms
proof (induction ctx x q arbitrary: r out q' rule: push_loop.induct)
  case (1 ctx x q)
  show ?case
  proof (cases "length (q_items q) \<ge> q_capacity q \<and> strategy q = StrategyDropOldest \<and> q_items q \<noteq> []")
    case True
    then obtain y ys where y: "q_items q = y # ys" by (cases "q_items q") auto
    let ?q = "q\<lparr>q_items := ys, dropped_count := i64 (dropped_count q + 1)\<rparr>"
    obtain out1 where o: "push_loop ctx x ?q = (r, out1, q')" "out = y # out1"
      using "1.prems" True y by (subst (asm) push_loop.simps) (auto split: prod.splits)
    from "1.IH" [OF _ _ y o(1)] True y o(2) show ?thesis by auto
  next
    case False
    then show ?thesis using "1.prems"
      by (subst (asm) push_loop.simps)
        (auto split: if_splits overflow_strategy.splits list.splits option.splits)
  qed
qed

lemma push_pass_conserves:
  assumes "push_pass s t ctx x = (l, s')"
  shows "q_items (queue s) @ log_in l = log_out l @ q_items (queue s')
    \<and> q_capacity (queue s') = q_capacity (queue s) \<and> strategy (queue s') = strategy (queue s)
    \<and> (length (q_items (queue s)) \<le> q_capacity (queue s) \<longrightarrow> length (q_items (queue s')) \<le> q_capacity (queue s))
    \<and> (strategy (queue s) \<noteq> StrategyDropOldest \<longrightarrow> log_out l = map the (filter (\<lambda>x. x \<noteq> None) [log_result l]))"
proof -
  obtain r out q where p: "push_loop ctx x (queue s) = (r, out, q)" by (cases "push_loop ctx x (queue s)") auto
  have "queue s' = q \<and> log_in l = (if r = Pushed then [x] else []) \<and> log_out l = out \<and> log_result l = None"
    using assms p by (cases r) (auto simp: push_pass_def Let_def)
  with push_loop_conserves [OF p] show ?thesis by auto
qed

lemma pop_pass_conserves:
  assumes "pop_pass s t = (l, s')"
  shows "q_items (queue s) @ log_in l = log_out l @ q_items (queue s')
    \<and> q_capacity (queue s') = q_capacity (queue s) \<and> strategy (queue s') = strategy (queue s)
    \<and> (length (q_items (queue s)) \<le> q_capacity (queue s) \<longrightarrow> length (q_items (queue s')) \<le> q_capacity (queue s))
    \<and> log_out l = map the (filter (\<lambda>x. x \<noteq> None) [log_result l])"
  using assms by (auto simp: pop_pass_def split: list.splits if_splits)

lemma q_step_conserves:
  assumes "q_step s e = Some (l, s')"
  shows "q_items (queue s) @ log_in l = log_out l @ q_items (queue s')
    \<and> q_capacity (queue s') = q_capacity (queue s) \<and> strategy (queue s') = strategy (queue s)
    \<and> (length (q_items (queue s)) \<le> q_capacity (queue s) \<longrightarrow> length (q_items (queue s')) \<le> q_capacity (queue s))
    \<and> (strategy (queue s) \<noteq> StrategyDropOldest \<longrightarrow> log_out l = map the (filter (\<lambda>x. x \<noteq> None) [log_result l]))"
proof (cases e)
  case (Push t ctx x)
  then show ?thesis using assms push_pass_conserves [of s t ctx x l s']
    by (auto simp: no_log_def split: if_splits)
next
  case (Pop t)
  then show ?thesis using assms pop_pass_conserves [of s t l s'] by (auto split: if_splits)
next
  case (Resume t ctx)
  then show ?thesis using assms push_pass_conserves [of s t ctx _ l s'] pop_pass_conserves [of s t l s']
    by (auto split: q_pc.splits)
qed

text \<open>The items that the Pops returned.\<close>

definition returned :: "'a q_log list \<Rightarrow> 'a list" where
  "returned ls = map the (filter (\<lambda>x. x \<noteq> None) (map log_result ls))"

lemma q_run_conserves:
  "q_run s es = Some (ls, s') \<Longrightarrow> length (q_items (queue s)) \<le> q_capacity (queue s) \<Longrightarrow>
    q_items (queue s) @ taken_in ls = removed ls @ q_items (queue s')
    \<and> length (q_items (queue s')) \<le> q_capacity (queue s)
    \<and> (strategy (queue s) \<noteq> StrategyDropOldest \<longrightarrow> removed ls = returned ls)"
proof (induction es arbitrary: s ls)
  case Nil
  then show ?case by (simp add: taken_in_def removed_def returned_def)
next
  case (Cons e es)
  then obtain l s1 ls1 where st: "q_step s e = Some (l, s1)" "q_run s1 es = Some (ls1, s')" "ls = l # ls1"
    by (auto split: option.splits prod.splits)
  note S = q_step_conserves [OF st(1)]
  have IH: "q_items (queue s1) @ taken_in ls1 = removed ls1 @ q_items (queue s')"
      "length (q_items (queue s')) \<le> q_capacity (queue s)"
      "strategy (queue s) \<noteq> StrategyDropOldest \<longrightarrow> removed ls1 = returned ls1"
    using Cons.IH [OF st(2)] S Cons.prems(2) by auto
  have "q_items (queue s) @ taken_in ls = (q_items (queue s) @ log_in l) @ taken_in ls1"
    by (simp add: taken_in_def st(3))
  also have "\<dots> = log_out l @ (q_items (queue s1) @ taken_in ls1)" using S by simp
  also have "\<dots> = removed ls @ q_items (queue s')" using IH(1) by (simp add: removed_def st(3))
  finally have "q_items (queue s) @ taken_in ls = removed ls @ q_items (queue s')" .
  moreover have "removed ls = returned ls" if "strategy (queue s) \<noteq> StrategyDropOldest"
    using that IH(3) S by (simp add: removed_def returned_def st(3))
  ultimately show ?case using IH(2) by blast
qed

text \<open>the queue is FIFO and bounded. In every interleaving of any number of producers and consumers,
  waiting and woken ones included, it never exceeds its capacity and the items leave in exactly the
  order in which they were taken in; unless the strategy drops, every item that leaves is returned by a
  Pop, once.\<close>

theorem queue_fifo_bounded:
  assumes "q_run (queue_start cap st) es = Some (ls, s)"
  shows "taken_in ls = removed ls @ q_items (queue s)
    \<and> length (q_items (queue s)) \<le> nat (if cap \<le> 0 then 100 else cap)
    \<and> (st \<noteq> StrategyDropOldest \<longrightarrow> removed ls = returned ls)"
  using q_run_conserves [OF assms] by (simp add: queue_start_def new_bounded_queue_def)

definition demo_queue_events :: "nat q_event list" where
  "demo_queue_events = [Pop 9, Push 1 None 5, Resume 9 None, Push 1 None 6, Push 2 None 7, Push 3 None 8, Pop 9,
     Resume 3 None]"

definition demo_queue_end :: "nat q_log list \<times> nat queue_sys" where
  "demo_queue_end = the (q_run (queue_start 2 StrategyBlock) demo_queue_events)"

lemma demo_queue_run: "q_run (queue_start 2 StrategyBlock) demo_queue_events = Some (fst demo_queue_end, snd demo_queue_end)"
  and demo_queue_items: "q_items (queue (snd demo_queue_end)) = [7, 8]" "returned (fst demo_queue_end) = [5, 6]"
  by (simp_all add: demo_queue_end_def demo_queue_events_def queue_start_def new_bounded_queue_def push_pass_def
      pop_pass_def push_loop.simps signal_not_empty_def signal_not_full_def returned_def Let_def)

theorem queue_fifo_bounded_witness:
  "taken_in (fst demo_queue_end) = [5, 6, 7, 8] \<and> returned (fst demo_queue_end) = [5, 6]"
  using queue_fifo_bounded [OF demo_queue_run] demo_queue_items by simp


section \<open>Dropping the oldest\<close>

fun push_seq :: "'a bounded_queue \<Rightarrow> 'a list \<Rightarrow> 'a bounded_queue" where
  "push_seq q [] = q"
| "push_seq q (x # xs) = push_seq (snd (snd (push_loop None x q))) xs"

lemma push_drop_oldest:
  assumes "strategy q = StrategyDropOldest" and "0 < q_capacity q" and "length (q_items q) \<le> q_capacity q"
  shows "snd (snd (push_loop None x q)) =
    (if length (q_items q) = q_capacity q
     then q\<lparr>q_items := tl (q_items q) @ [x], dropped_count := i64 (dropped_count q + 1)\<rparr>
     else q\<lparr>q_items := q_items q @ [x]\<rparr>)"
proof (cases "length (q_items q) = q_capacity q")
  case True
  then obtain y ys where y: "q_items q = y # ys" using assms(2) by (cases "q_items q") auto
  have "push_loop None x (q\<lparr>q_items := ys, dropped_count := i64 (dropped_count q + 1)\<rparr>)
      = (Pushed, [], q\<lparr>q_items := ys @ [x], dropped_count := i64 (dropped_count q + 1)\<rparr>)"
    using True y by (subst push_loop.simps) simp
  then show ?thesis using True y assms(1) by (subst push_loop.simps) simp
next
  case False
  then show ?thesis using assms(3) by (subst push_loop.simps) simp
qed

lemma push_seq_drop_oldest:
  "strategy q = StrategyDropOldest \<Longrightarrow> 0 < q_capacity q \<Longrightarrow> length (q_items q) \<le> q_capacity q \<Longrightarrow>
    in64 (dropped_count q) \<Longrightarrow>
    q_items (push_seq q xs) = drop (length (q_items q) + length xs - q_capacity q) (q_items q @ xs)
    \<and> dropped_count (push_seq q xs) = i64 (dropped_count q + int (length (q_items q) + length xs - q_capacity q))"
proof (induction xs arbitrary: q)
  case Nil
  then show ?case by simp
next
  case (Cons x xs)
  define q1 where "q1 = snd (snd (push_loop None x q))"
  have step: "q1 = (if length (q_items q) = q_capacity q
     then q\<lparr>q_items := tl (q_items q) @ [x], dropped_count := i64 (dropped_count q + 1)\<rparr>
     else q\<lparr>q_items := q_items q @ [x]\<rparr>)"
    unfolding q1_def by (rule push_drop_oldest [OF Cons.prems(1-3)])
  have run: "push_seq q (x # xs) = push_seq q1 xs" by (simp add: q1_def)
  have ok: "strategy q1 = StrategyDropOldest" "0 < q_capacity q1" "length (q_items q1) \<le> q_capacity q1"
      "in64 (dropped_count q1)"
    using Cons.prems by (auto simp: step)
  note IH = Cons.IH [OF ok]
  show ?case
  proof (cases "length (q_items q) = q_capacity q")
    case True
    then obtain y ys where y: "q_items q = y # ys" using Cons.prems(2) by (cases "q_items q") auto
    have d: "drop (length xs - length ys) [x] @ drop (length xs - Suc (length ys)) xs
        = drop (length xs - length ys) (x # xs)"
      by (cases "length xs - length ys") (simp_all add: diff_Suc)
    have n: "length (q_items q) + length (x # xs) - q_capacity q = Suc (length xs)"
        "length (ys @ [x]) + length xs - q_capacity q = length xs"
      using True y by simp_all
    have "i64 (i64 (dropped_count q + 1) + int (length xs)) = i64 (dropped_count q + (1 + int (length xs)))"
      unfolding i64_add_left by (simp add: algebra_simps)
    then show ?thesis unfolding run n using IH True y d by (simp add: step n)
  next
    case False
    then show ?thesis unfolding run using IH by (simp add: step)
  qed
qed

text \<open>under the drop-oldest strategy a new queue into which xs has been pushed holds exactly the last
  capacity elements of xs, in order, and DroppedCount is the number of the others.\<close>

theorem drop_oldest_keeps_newest:
  "q_items (push_seq (new_bounded_queue cap StrategyDropOldest) xs)
     = drop (length xs - nat (if cap \<le> 0 then 100 else cap)) xs
   \<and> dropped_count (push_seq (new_bounded_queue cap StrategyDropOldest) xs)
     = i64 (int (length xs - nat (if cap \<le> 0 then 100 else cap)))"
proof -
  let ?q = "new_bounded_queue cap StrategyDropOldest :: 'a bounded_queue"
  have "strategy ?q = StrategyDropOldest" "0 < q_capacity ?q" "length (q_items ?q) \<le> q_capacity ?q"
      "in64 (dropped_count ?q)"
    by (simp_all add: new_bounded_queue_def in64_def)
  from push_seq_drop_oldest [OF this, of xs] show ?thesis by (simp add: new_bounded_queue_def)
qed


section \<open>Cancellation of a parked producer\<close>

text \<open>A producer that waits for room looks at its context only when it is woken: no step of its own is
  enabled before that, whether its context is done or not.\<close>

lemma parked_producer_not_cancellable:
  "q_pc s t = QPushWait x \<Longrightarrow> q_step s (Resume t ctx) = None \<and> q_step s (Push t ctx y) = None \<and> q_step s (Pop t) = None"
  by simp

end
