(* ===== verification/Batch_Loader.thy ===== *)
theory Batch_Loader
  imports Go_Prelude "HOL-Library.Multiset"
begin

text \<open>
  \<open>patterns/13_database/batch_loader.go\<close>: requests are collected and answered by one batch query. The
  critical sections of \<open>Load\<close> and of the timer callback, and the run of a flush, are interleaved steps. A
  stopped timer may already have fired, in which case its callback still runs; \<open>outstanding\<close> counts the
  callbacks that will. A caller that stops waiting does not take its request back.
\<close>

type_synonym 'k load_request = "nat \<times> 'k"

datatype ('v, 'e) load_reply = Loaded 'v | BatchError 'e | KeyNotFound

record ('k, 'v, 'e) batch_loader =
  max_batch :: int
  pending_loads :: "'k load_request list"
  timer_set :: bool
  outstanding :: nat
  flushing :: "'k load_request list list"
  batch_replies :: "('k load_request \<times> ('v, 'e) load_reply) list"
  batch_queries :: "'k list list"

definition new_batch_loader :: "int \<Rightarrow> ('k, 'v, 'e) batch_loader" where
  "new_batch_loader maxBatchSize =
     \<lparr>max_batch = (if maxBatchSize \<le> 0 then 100 else maxBatchSize), pending_loads = [], timer_set = False,
      outstanding = 0, flushing = [], batch_replies = [], batch_queries = []\<rparr>"

text \<open>\<open>stopped\<close> is whether \<open>timer.Stop\<close> came before the timer fired.\<close>

definition load_enqueue :: "('k, 'v, 'e) batch_loader \<Rightarrow> bool \<Rightarrow> 'k load_request \<Rightarrow> ('k, 'v, 'e) batch_loader" where
  "load_enqueue b stopped req =
     (let p = pending_loads b @ [req]
      in if max_batch b \<le> int (length p) then
           b\<lparr>pending_loads := [], timer_set := False,
             outstanding := (if timer_set b \<and> stopped then outstanding b - 1 else outstanding b),
             flushing := flushing b @ [p]\<rparr>
         else if \<not> timer_set b then b\<lparr>pending_loads := p, timer_set := True, outstanding := Suc (outstanding b)\<rparr>
         else b\<lparr>pending_loads := p\<rparr>)"

definition timer_fires :: "('k, 'v, 'e) batch_loader \<Rightarrow> ('k, 'v, 'e) batch_loader" where
  "timer_fires b =
     b\<lparr>pending_loads := [], timer_set := False, outstanding := outstanding b - 1,
       flushing := (if pending_loads b \<noteq> [] then flushing b @ [pending_loads b] else flushing b)\<rparr>"

text \<open>The first loop of \<open>flush\<close> and the answers.\<close>

fun unique_keys :: "'k list \<Rightarrow> 'k load_request list \<Rightarrow> 'k list" where
  "unique_keys seen [] = seen"
| "unique_keys seen ((c, k) # rs) = (if k \<in> set seen then unique_keys seen rs else unique_keys (seen @ [k]) rs)"

definition reply_for :: "'e + ('k \<rightharpoonup> 'v) \<Rightarrow> 'k load_request \<Rightarrow> 'k load_request \<times> ('v, 'e) load_reply" where
  "reply_for results req =
     (case results of
        Inl err \<Rightarrow> (req, BatchError err)
      | Inr m \<Rightarrow> (case m (snd req) of Some v \<Rightarrow> (req, Loaded v) | None \<Rightarrow> (req, KeyNotFound)))"

definition flush_batch ::
  "('k, 'v, 'e) batch_loader \<Rightarrow> nat \<Rightarrow> ('k list \<Rightarrow> 'e + ('k \<rightharpoonup> 'v)) \<Rightarrow> ('k, 'v, 'e) batch_loader" where
  "flush_batch b i batchFn =
     (let requests = flushing b ! i;
          keys = unique_keys [] requests
      in b\<lparr>flushing := take i (flushing b) @ drop (Suc i) (flushing b),
           batch_replies := batch_replies b @ map (reply_for (batchFn keys)) requests,
           batch_queries := batch_queries b @ [keys]\<rparr>)"

datatype ('k, 'v, 'e) batch_event = LoadKey bool "'k load_request" | TimerFires | FlushBatch nat "'k list \<Rightarrow> 'e + ('k \<rightharpoonup> 'v)"

fun batch_step :: "('k, 'v, 'e) batch_loader \<Rightarrow> ('k, 'v, 'e) batch_event \<Rightarrow> ('k, 'v, 'e) batch_loader option" where
  "batch_step b (LoadKey stopped req) = Some (load_enqueue b stopped req)"
| "batch_step b TimerFires = (if 0 < outstanding b then Some (timer_fires b) else None)"
| "batch_step b (FlushBatch i batchFn) = (if i < length (flushing b) then Some (flush_batch b i batchFn) else None)"

fun requests_of :: "('k, 'v, 'e) batch_event list \<Rightarrow> 'k load_request list" where
  "requests_of [] = []"
| "requests_of (LoadKey stopped req # es) = req # requests_of es"
| "requests_of (_ # es) = requests_of es"


section \<open>Every request is answered once\<close>

lemma unique_keys_set: "set (unique_keys seen rs) = set seen \<union> snd ` set rs"
  by (induction seen rs rule: unique_keys.induct) auto

lemma unique_keys_distinct: "distinct seen \<Longrightarrow> distinct (unique_keys seen rs)"
  by (induction seen rs rule: unique_keys.induct) auto

lemma unique_keys_length: "length (unique_keys seen rs) \<le> length seen + length rs"
  by (induction seen rs rule: unique_keys.induct) auto

lemma map_fst_reply: "map fst (map (reply_for r) rs) = rs"
  by (induction rs) (auto simp: reply_for_def split: sum.splits option.splits)

definition held_requests :: "('k, 'v, 'e) batch_loader \<Rightarrow> 'k load_request multiset" where
  "held_requests b = mset (pending_loads b) + mset (concat (flushing b)) + mset (map fst (batch_replies b))"

definition batch_inv :: "('k, 'v, 'e) batch_loader \<Rightarrow> bool" where
  "batch_inv b \<longleftrightarrow> 0 < max_batch b \<and> int (length (pending_loads b)) < max_batch b
   \<and> (timer_set b \<longrightarrow> 0 < outstanding b) \<and> (pending_loads b \<noteq> [] \<longrightarrow> timer_set b)
   \<and> (\<forall>p \<in> set (flushing b). p \<noteq> [] \<and> int (length p) \<le> max_batch b)
   \<and> (\<forall>ks \<in> set (batch_queries b). ks \<noteq> [] \<and> distinct ks \<and> int (length ks) \<le> max_batch b)"

lemma batch_inv_step:
  assumes "batch_inv b" and "batch_step b e = Some c"
  shows "batch_inv c"
proof (cases e)
  case (LoadKey stopped req)
  have "c = load_enqueue b stopped req" using assms(2) LoadKey by simp
  then show ?thesis using assms(1) by (auto simp: batch_inv_def load_enqueue_def Let_def)
next
  case TimerFires
  then have "c = timer_fires b" using assms(2) by (auto split: if_splits)
  then show ?thesis using assms(1) by (auto simp: batch_inv_def timer_fires_def)
next
  case (FlushBatch i batchFn)
  then have c: "c = flush_batch b i batchFn" "i < length (flushing b)" using assms(2) by (auto split: if_splits)
  let ?rs = "flushing b ! i"
  have rs: "?rs \<noteq> []" "int (length ?rs) \<le> max_batch b" using assms(1) c(2) by (auto simp: batch_inv_def)
  then have "unique_keys [] ?rs \<noteq> []" using unique_keys_set [of "[]" ?rs] by auto
  moreover have "int (length (unique_keys [] ?rs)) \<le> max_batch b" using unique_keys_length [of "[]" ?rs] rs(2) by simp
  moreover have "set (take i (flushing b) @ drop (Suc i) (flushing b)) \<subseteq> set (flushing b)"
    using set_take_subset set_drop_subset by fastforce
  ultimately show ?thesis using assms(1) c(1) unique_keys_distinct [of "[]" ?rs]
    unfolding batch_inv_def flush_batch_def Let_def by auto
qed

lemma held_step:
  assumes "batch_step b e = Some c"
  shows "held_requests c = held_requests b + mset (requests_of [e])"
proof (cases e)
  case (LoadKey stopped req)
  have "c = load_enqueue b stopped req" using assms LoadKey by simp
  then show ?thesis by (auto simp: LoadKey held_requests_def load_enqueue_def Let_def)
next
  case TimerFires
  then have "c = timer_fires b" using assms by (auto split: if_splits)
  then show ?thesis by (auto simp: TimerFires held_requests_def timer_fires_def)
next
  case (FlushBatch i batchFn)
  then have c: "c = flush_batch b i batchFn" "i < length (flushing b)" using assms by (auto split: if_splits)
  have "flushing b = take i (flushing b) @ flushing b ! i # drop (Suc i) (flushing b)"
    using c(2) by (simp add: id_take_nth_drop [symmetric])
  then have "mset (concat (flushing b))
      = mset (concat (take i (flushing b))) + mset (flushing b ! i) + mset (concat (drop (Suc i) (flushing b)))"
    by (metis concat.simps(2) concat_append mset_append add.assoc)
  then show ?thesis
    by (simp add: FlushBatch c(1) held_requests_def flush_batch_def Let_def map_fst_reply del: map_map)
qed

lemma requests_of_Cons: "requests_of (e # es) = requests_of [e] @ requests_of es"
  by (cases e) auto

lemma batch_run:
  "batch_inv b \<Longrightarrow> run_events batch_step b es = Some c \<Longrightarrow>
    batch_inv c \<and> held_requests c = held_requests b + mset (requests_of es)"
proof (induction es arbitrary: b)
  case Nil
  then show ?case by simp
next
  case (Cons e es)
  then obtain b1 where s: "batch_step b e = Some b1" "run_events batch_step b1 es = Some c"
    by (auto split: option.splits)
  show ?case using Cons.IH [OF batch_inv_step [OF Cons.prems(1) s(1)] s(2)] held_step [OF s(1)]
    by (simp add: requests_of_Cons [of e es] add.assoc)
qed

text \<open>C36: every request is answered exactly once. In every interleaving of loads, timers and flushes, the requests
  made are those waiting, those being flushed and those answered, each counted once; whenever a request
  waits a timer is running that will flush it; and every batch query asks for at least one and at most
  \<open>maxBatchSize\<close> keys, without duplicates.\<close>

theorem batch_answers_once:
  assumes "run_events batch_step (new_batch_loader n) es = Some b"
  shows "mset (requests_of es) = mset (pending_loads b) + mset (concat (flushing b)) + mset (map fst (batch_replies b))
    \<and> (pending_loads b \<noteq> [] \<longrightarrow> batch_step b TimerFires \<noteq> None)
    \<and> (\<forall>ks \<in> set (batch_queries b). ks \<noteq> [] \<and> distinct ks \<and> int (length ks) \<le> (if n \<le> 0 then 100 else n))"
proof -
  have max: "max_batch b = max_batch (new_batch_loader n :: ('a, 'b, 'c) batch_loader)"
    by (rule run_events_inv [OF assms, where I = "\<lambda>b. max_batch b = max_batch (new_batch_loader n :: ('a, 'b, 'c) batch_loader)"])
      (simp, case_tac e, auto simp: load_enqueue_def timer_fires_def flush_batch_def Let_def split: if_splits)
  have "batch_inv (new_batch_loader n :: ('a, 'b, 'c) batch_loader)" by (simp add: batch_inv_def new_batch_loader_def)
  from batch_run [OF this assms] max show ?thesis
    by (auto simp: batch_inv_def held_requests_def new_batch_loader_def)
qed

theorem batch_answers_once_witness:
  "\<exists>b. run_events batch_step (new_batch_loader 2) [LoadKey True (1, ''a''), LoadKey True (2, ''a''),
       FlushBatch 0 (\<lambda>ks. Inr (\<lambda>k. Some (k :: string))), LoadKey True (3, ''b'')] = Some (b :: (string, string, string) batch_loader)
     \<and> batch_queries b = [[''a'']] \<and> batch_step b TimerFires \<noteq> None"
proof -
  let ?es = "[LoadKey True (1, ''a''), LoadKey True (2, ''a''), FlushBatch 0 (\<lambda>ks. Inr (\<lambda>k. Some k)), LoadKey True (3, ''b'')]
    :: (string, string, string) batch_event list"
  obtain b where b: "run_events batch_step (new_batch_loader 2) ?es = Some b" "batch_queries b = [[''a'']]"
    "pending_loads b \<noteq> []"
    by (simp add: new_batch_loader_def load_enqueue_def flush_batch_def Let_def)
  with batch_answers_once [OF b(1)] show ?thesis by blast
qed

text \<open>The answers are those of the batch query: same value for every request of a key.\<close>

lemma replies_agree:
  "batch_replies (flush_batch b i batchFn) = batch_replies b
    @ map (reply_for (batchFn (unique_keys [] (flushing b ! i)))) (flushing b ! i)"
  by (simp add: flush_batch_def Let_def)

end
