(* ===== verification/Bounded_LRU.thy ===== *)
theory Bounded_LRU
  imports Go_Prelude
begin

text \<open>
  \<open>patterns/14_caching/bounded_lru.go\<close>: the bounded least-recently-used cache. As in the code, the
  map holds list elements, so an element has an identity: \<open>elems\<close> is the contents of the elements,
  \<open>evict_list\<close> the doubly linked list from front to back, as the list of its elements. The
  specification is an association list, most recently used first. \<open>blank\<close> fills the elements that
  are not allocated yet; it is never read.
\<close>

record ('k, 'v) lru_cache =
  capacity :: nat
  lru_items :: "'k \<rightharpoonup> nat"
  evict_list :: "nat list"
  elems :: "nat \<Rightarrow> 'k \<times> 'v"
  next_elem :: nat

definition new_lru_cache :: "int \<Rightarrow> 'k \<times> 'v \<Rightarrow> ('k, 'v) lru_cache" where
  "new_lru_cache cap blank =
     \<lparr>capacity = nat (if cap \<le> 0 then 100 else cap), lru_items = Map.empty, evict_list = [],
      elems = (\<lambda>e. blank), next_elem = 0\<rparr>"

definition move_to_front :: "nat \<Rightarrow> nat list \<Rightarrow> nat list" where
  "move_to_front e xs = e # filter (\<lambda>x. x \<noteq> e) xs"

definition lru_get :: "('k, 'v) lru_cache \<Rightarrow> 'k \<Rightarrow> 'v option \<times> ('k, 'v) lru_cache" where
  "lru_get c key =
     (case lru_items c key of
        Some e \<Rightarrow> (Some (snd (elems c e)), c\<lparr>evict_list := move_to_front e (evict_list c)\<rparr>)
      | None \<Rightarrow> (None, c))"

definition evict_oldest :: "('k, 'v) lru_cache \<Rightarrow> ('k, 'v) lru_cache" where
  "evict_oldest c =
     (if length (evict_list c) \<ge> capacity c \<and> evict_list c \<noteq> [] then
        (let oldest = last (evict_list c)
         in c\<lparr>evict_list := butlast (evict_list c),
              lru_items := (lru_items c)(fst (elems c oldest) := None)\<rparr>)
      else c)"

definition lru_put :: "('k, 'v) lru_cache \<Rightarrow> 'k \<Rightarrow> 'v \<Rightarrow> ('k, 'v) lru_cache" where
  "lru_put c key val =
     (case lru_items c key of
        Some e \<Rightarrow>
          c\<lparr>evict_list := move_to_front e (evict_list c),
            elems := (elems c)(e := (fst (elems c e), val))\<rparr>
      | None \<Rightarrow>
          (let c1 = evict_oldest c;
               e = next_elem c1
           in c1\<lparr>evict_list := e # evict_list c1, elems := (elems c1)(e := (key, val)),
                 lru_items := (lru_items c1)(key \<mapsto> e), next_elem := e + 1\<rparr>))"

definition lru_len :: "('k, 'v) lru_cache \<Rightarrow> nat" where
  "lru_len c = card (dom (lru_items c))"

datatype ('k, 'v) lru_op = LGet 'k | LPut 'k 'v

primrec lru_exec :: "('k, 'v) lru_cache \<Rightarrow> ('k, 'v) lru_op \<Rightarrow> ('k, 'v) lru_cache" where
  "lru_exec c (LGet k) = snd (lru_get c k)"
| "lru_exec c (LPut k v) = lru_put c k v"


section \<open>Specification\<close>

definition rec_touch :: "'k \<Rightarrow> 'v \<Rightarrow> ('k \<times> 'v) list \<Rightarrow> ('k \<times> 'v) list" where
  "rec_touch k v xs = (k, v) # filter (\<lambda>p. fst p \<noteq> k) xs"

definition rec_get :: "('k \<times> 'v) list \<Rightarrow> 'k \<Rightarrow> ('k \<times> 'v) list" where
  "rec_get xs k = (case map_of xs k of Some v \<Rightarrow> rec_touch k v xs | None \<Rightarrow> xs)"

definition rec_put :: "nat \<Rightarrow> ('k \<times> 'v) list \<Rightarrow> 'k \<Rightarrow> 'v \<Rightarrow> ('k \<times> 'v) list" where
  "rec_put cap xs k v =
     (if k \<in> fst ` set xs then rec_touch k v xs
      else (k, v) # (if length xs \<ge> cap then butlast xs else xs))"

primrec rec_exec :: "nat \<Rightarrow> ('k \<times> 'v) list \<Rightarrow> ('k, 'v) lru_op \<Rightarrow> ('k \<times> 'v) list" where
  "rec_exec cap xs (LGet k) = rec_get xs k"
| "rec_exec cap xs (LPut k v) = rec_put cap xs k v"

definition recency :: "('k, 'v) lru_cache \<Rightarrow> ('k \<times> 'v) list" where
  "recency c = map (elems c) (evict_list c)"


section \<open>Representation invariant\<close>

text \<open>The map and the list agree: an element is in the list exactly if the map has it under its key.\<close>

definition lru_inv :: "('k, 'v) lru_cache \<Rightarrow> bool" where
  "lru_inv c \<longleftrightarrow> distinct (evict_list c) \<and> 0 < capacity c \<and> length (evict_list c) \<le> capacity c
     \<and> (\<forall>e\<in>set (evict_list c). e < next_elem c)
     \<and> (\<forall>k e. lru_items c k = Some e \<longleftrightarrow> e \<in> set (evict_list c) \<and> fst (elems c e) = k)"

lemma lru_invD:
  assumes "lru_inv c"
  shows "distinct (evict_list c)" "0 < capacity c" "length (evict_list c) \<le> capacity c"
    "\<And>e. e \<in> set (evict_list c) \<Longrightarrow> e < next_elem c"
    "\<And>k e. lru_items c k = Some e \<longleftrightarrow> e \<in> set (evict_list c) \<and> fst (elems c e) = k"
  using assms by (simp_all add: lru_inv_def)

lemma lru_inv_new: "lru_inv (new_lru_cache cap blank)"
  by (simp add: lru_inv_def new_lru_cache_def)

lemma set_move_to_front: "e \<in> set xs \<Longrightarrow> set (move_to_front e xs) = set xs"
  by (auto simp: move_to_front_def)

lemma distinct_move_to_front: "distinct xs \<Longrightarrow> distinct (move_to_front e xs)"
  by (simp add: move_to_front_def)

lemma length_move_to_front: "distinct xs \<Longrightarrow> e \<in> set xs \<Longrightarrow> length (move_to_front e xs) = length xs"
  by (metis distinct_card distinct_move_to_front set_move_to_front)

lemma keys_inj: "lru_inv c \<Longrightarrow> inj_on (\<lambda>e. fst (elems c e)) (set (evict_list c))"
  unfolding inj_on_def by (metis lru_invD(5) option.inject)

lemma lru_inv_move: "lru_inv c \<Longrightarrow> e \<in> set (evict_list c) \<Longrightarrow>
    lru_inv (c\<lparr>evict_list := move_to_front e (evict_list c)\<rparr>)"
  by (simp add: lru_inv_def set_move_to_front distinct_move_to_front length_move_to_front)

lemma lru_inv_get: "lru_inv c \<Longrightarrow> lru_inv (snd (lru_get c k))"
  using lru_inv_move [of c] lru_invD(5) [of c k] by (auto simp: lru_get_def split: option.split)

lemma lru_inv_evict:
  assumes "lru_inv c"
  shows "lru_inv (evict_oldest c)" "length (evict_list (evict_oldest c)) < capacity c"
    "capacity (evict_oldest c) = capacity c" "next_elem (evict_oldest c) = next_elem c"
    "elems (evict_oldest c) = elems c"
    "evict_list (evict_oldest c) = (if length (evict_list c) \<ge> capacity c then butlast (evict_list c) else evict_list c)"
proof -
  note I = lru_invD [OF assms]
  show len: "length (evict_list (evict_oldest c)) < capacity c"
    using I(2,3) by (auto simp: evict_oldest_def Let_def)
  show "lru_inv (evict_oldest c)"
  proof (cases "length (evict_list c) \<ge> capacity c")
    case True
    then have ne: "evict_list c \<noteq> []" using I(2) by auto
    then obtain xs x where x: "evict_list c = xs @ [x]" by (metis rev_exhaust)
    have "inj_on (\<lambda>e. fst (elems c e)) (set (xs @ [x]))" using keys_inj [OF assms] x by simp
    then have k: "\<forall>e\<in>set xs. fst (elems c e) \<noteq> fst (elems c x)"
      using I(1) x by (auto simp: inj_on_def)
    show ?thesis using True ne x k I
      by (auto simp: lru_inv_def evict_oldest_def Let_def)
  next
    case False
    then show ?thesis using assms by (simp add: evict_oldest_def)
  qed
qed (use lru_invD(2) [OF assms] in \<open>auto simp: evict_oldest_def Let_def\<close>)

lemma lru_inv_put:
  assumes "lru_inv c"
  shows "lru_inv (lru_put c k v)"
proof (cases "lru_items c k")
  case None
  let ?c = "evict_oldest c"
  note E = lru_inv_evict [OF assms]
  note I = lru_invD [OF E(1)]
  have "lru_items ?c k = None" using None by (simp add: evict_oldest_def Let_def)
  then have nk: "\<forall>e\<in>set (evict_list ?c). fst (elems ?c e) \<noteq> k" using I(5) by force
  have fresh: "next_elem ?c \<notin> set (evict_list ?c)" using I(4) by blast
  show ?thesis
    using None I E(2,3) nk fresh
    by (auto simp: lru_inv_def lru_put_def Let_def less_Suc_eq)
next
  case (Some e)
  then have e: "e \<in> set (evict_list c)" using lru_invD(5) [OF assms] by blast
  have "lru_put c k v = c\<lparr>evict_list := move_to_front e (evict_list c),
      elems := (elems c)(e := (fst (elems c e), v))\<rparr>"
    using Some by (simp add: lru_put_def)
  with lru_inv_move [OF assms e] show ?thesis by (simp add: lru_inv_def)
qed

lemma lru_inv_exec: "lru_inv c \<Longrightarrow> lru_inv (lru_exec c x)"
  by (cases x) (simp_all add: lru_inv_get lru_inv_put)

lemma lru_inv_run: "lru_inv c \<Longrightarrow> lru_inv (foldl lru_exec c xs)"
  by (rule foldl_inv) (simp_all add: lru_inv_exec)


section \<open>Refinement\<close>

lemma recency_keys:
  assumes "lru_inv c"
  shows "k \<in> fst ` set (recency c) \<longleftrightarrow> lru_items c k \<noteq> None"
proof
  assume "k \<in> fst ` set (recency c)"
  then obtain e where "e \<in> set (evict_list c)" "fst (elems c e) = k" by (auto simp: recency_def)
  then have "lru_items c k = Some e" using lru_invD(5) [OF assms] by blast
  then show "lru_items c k \<noteq> None" by simp
next
  assume "lru_items c k \<noteq> None"
  then obtain e where "e \<in> set (evict_list c)" "fst (elems c e) = k"
    using lru_invD(5) [OF assms] by blast
  then show "k \<in> fst ` set (recency c)" by (auto simp: recency_def)
qed

lemma map_of_recency:
  assumes "lru_inv c"
  shows "map_of (recency c) k = map_option (\<lambda>e. snd (elems c e)) (lru_items c k)"
proof -
  have d: "distinct (map fst (recency c))"
    using lru_invD(1) [OF assms] keys_inj [OF assms] by (simp add: recency_def distinct_map comp_def)
  show ?thesis
  proof (cases "lru_items c k")
    case None
    then have "k \<notin> fst ` set (recency c)" using recency_keys [OF assms, of k] by simp
    then show ?thesis using None by (simp add: map_of_eq_None_iff)
  next
    case (Some e)
    then have "e \<in> set (evict_list c)" "fst (elems c e) = k" using lru_invD(5) [OF assms] by blast+
    then have "(k, snd (elems c e)) \<in> set (recency c)" by (force simp: recency_def)
    with d Some show ?thesis by simp
  qed
qed

lemma recency_move:
  assumes "lru_inv c" and "lru_items c k = Some e"
  shows "map (elems c) (filter (\<lambda>x. x \<noteq> e) (evict_list c)) = filter (\<lambda>p. fst p \<noteq> k) (recency c)"
proof -
  have "e' \<in> set (evict_list c) \<Longrightarrow> fst (elems c e') \<noteq> k \<longleftrightarrow> e' \<noteq> e" for e'
    using lru_invD(5) [OF assms(1)] assms(2) by (metis option.inject)
  then have "filter (\<lambda>x. x \<noteq> e) (evict_list c) = filter (\<lambda>x. fst (elems c x) \<noteq> k) (evict_list c)"
    by (intro filter_cong) auto
  then show ?thesis by (simp add: recency_def filter_map comp_def)
qed

lemma recency_get:
  assumes "lru_inv c"
  shows "recency (snd (lru_get c k)) = rec_get (recency c) k"
proof (cases "lru_items c k")
  case None
  then show ?thesis by (simp add: lru_get_def rec_get_def map_of_recency [OF assms])
next
  case (Some e)
  then have "fst (elems c e) = k" using lru_invD(5) [OF assms] by blast
  then have "elems c e = (k, snd (elems c e))" by (metis prod.collapse)
  with Some recency_move [OF assms Some] show ?thesis
    by (simp add: lru_get_def rec_get_def map_of_recency [OF assms] rec_touch_def)
      (simp add: recency_def move_to_front_def)
qed

lemma recency_put:
  assumes "lru_inv c"
  shows "recency (lru_put c k v) = rec_put (capacity c) (recency c) k v"
proof (cases "lru_items c k")
  case None
  then have "k \<notin> fst ` set (recency c)" using recency_keys [OF assms, of k] by simp
  moreover have "next_elem c \<notin> set (evict_list c)" using lru_invD(4) [OF assms] by blast
  moreover then have "next_elem c \<notin> set (butlast (evict_list c))" by (meson in_set_butlastD)
  ultimately show ?thesis
    using None by (simp add: lru_put_def Let_def rec_put_def recency_def lru_inv_evict [OF assms] map_butlast)
next
  case (Some e)
  then have e: "fst (elems c e) = k" "e \<in> set (evict_list c)" using lru_invD(5) [OF assms] by blast+
  then have "k \<in> fst ` set (recency c)" by (force simp: recency_def)
  moreover have "map ((elems c)(e := (k, v))) (filter (\<lambda>x. x \<noteq> e) (evict_list c))
      = map (elems c) (filter (\<lambda>x. x \<noteq> e) (evict_list c))" by simp
  ultimately show ?thesis using Some e recency_move [OF assms Some]
    by (simp add: lru_put_def rec_put_def rec_touch_def) (simp add: recency_def move_to_front_def)
qed

lemma capacity_exec [simp]: "capacity (lru_exec c x) = capacity c"
  by (cases x) (simp_all add: lru_get_def lru_put_def evict_oldest_def Let_def split: option.split)

lemma capacity_run [simp]: "capacity (foldl lru_exec c xs) = capacity c"
  by (induction xs arbitrary: c) simp_all

lemma recency_run:
  "lru_inv c \<Longrightarrow> recency (foldl lru_exec c xs) = foldl (rec_exec (capacity c)) (recency c) xs"
proof (induction xs arbitrary: c)
  case Nil
  then show ?case by simp
next
  case (Cons x xs)
  have "recency (lru_exec c x) = rec_exec (capacity c) (recency c) x"
    using Cons.prems by (cases x) (simp_all add: recency_get recency_put)
  with Cons.IH [OF lru_inv_exec [OF Cons.prems]] show ?case by simp
qed

text \<open>C13: the map and the linked list implement a recency list. After any operations on a new cache, the
  list from front to back is the specification's recency list, Get returns what that list binds, and Len
  is its length, never more than the capacity.\<close>

theorem lru_refines_recency_list:
  "let c = foldl lru_exec (new_lru_cache cap blank) xs;
       spec = foldl (rec_exec (nat (if cap \<le> 0 then 100 else cap))) [] xs
   in recency c = spec \<and> fst (lru_get c k) = map_of spec k
      \<and> lru_len c = length spec \<and> lru_len c \<le> nat (if cap \<le> 0 then 100 else cap)"
proof -
  let ?c = "foldl lru_exec (new_lru_cache cap blank) xs"
  define n where "n = nat (if cap \<le> 0 then 100 else cap)"
  have I: "lru_inv ?c" by (rule lru_inv_run [OF lru_inv_new])
  have cap: "capacity (new_lru_cache cap blank) = n"
    by (simp add: new_lru_cache_def n_def)
  have r: "recency ?c = foldl (rec_exec n) [] xs"
    using recency_run [OF lru_inv_new, of cap blank xs] unfolding cap
    by (simp add: recency_def new_lru_cache_def)
  have "fst (lru_get ?c k) = map_of (recency ?c) k"
    by (simp add: map_of_recency [OF I] lru_get_def split: option.split)
  moreover have "dom (lru_items ?c) = (\<lambda>e. fst (elems ?c e)) ` set (evict_list ?c)"
    using lru_invD(5) [OF I] by (force simp: dom_def)
  then have "lru_len ?c = length (evict_list ?c)"
    using keys_inj [OF I] lru_invD(1) [OF I] by (simp add: lru_len_def card_image distinct_card)
  ultimately show ?thesis
    using lru_invD(3) [OF I] unfolding capacity_run cap n_def [symmetric] Let_def r [symmetric]
    by (simp add: recency_def)
qed


section \<open>What stays in the cache\<close>

primrec touched :: "('k, 'v) lru_op \<Rightarrow> 'k" where
  "touched (LGet k) = k"
| "touched (LPut k v) = k"

text \<open>The keys in front of \<open>k\<close> in the recency list.\<close>

definition before :: "('k \<times> 'v) list \<Rightarrow> 'k \<Rightarrow> 'k list" where
  "before xs k = takeWhile (\<lambda>q. q \<noteq> k) (map fst xs)"

lemma before_Cons: "before ((j, v) # xs) k = (if j = k then [] else j # before xs k)"
  by (simp add: before_def)

lemma before_filter: "j \<noteq> k \<Longrightarrow> before (filter (\<lambda>p. fst p \<noteq> j) xs) k = filter (\<lambda>q. q \<noteq> j) (before xs k)"
  by (induction xs) (auto simp: before_def)

lemma map_of_filter_other: "j \<noteq> k \<Longrightarrow> map_of (filter (\<lambda>p. fst p \<noteq> j) xs) k = map_of xs k"
  by (induction xs) auto

lemma before_butlast:
  assumes "map_of xs k = Some v" and "length (before xs k) + 1 < length xs"
  shows "before (butlast xs) k = before xs k \<and> map_of (butlast xs) k = Some v"
  using assms
proof (induction xs)
  case Nil
  then show ?case by simp
next
  case (Cons p xs)
  then show ?case by (cases p; cases "fst p = k") (auto simp: before_def split: if_splits)
qed

lemma rec_exec_keeps:
  assumes "map_of xs k = Some v" and "touched x \<noteq> k"
    and "distinct (before xs k)" and "insert (touched x) (set (before xs k)) \<subseteq> U"
    and "finite U" and "card U < cap"
  shows "map_of (rec_exec cap xs x) k = Some v \<and> distinct (before (rec_exec cap xs x) k)
    \<and> set (before (rec_exec cap xs x) k) \<subseteq> U"
proof -
  have touch: "map_of (rec_touch (touched x) w xs) k = Some v \<and> distinct (before (rec_touch (touched x) w xs) k)
      \<and> set (before (rec_touch (touched x) w xs) k) \<subseteq> U" for w
    using assms(1-4) by (auto simp: rec_touch_def before_Cons before_filter map_of_filter_other)
  show ?thesis
  proof (cases "touched x \<in> fst ` set xs")
    case True
    then obtain w where "map_of xs (touched x) = Some w"
      by (metis map_of_eq_None_iff not_Some_eq)
    with True touch show ?thesis by (cases x) (simp_all add: rec_get_def rec_put_def)
  next
    case new: False
    show ?thesis
    proof (cases x)
      case (LGet j)
      with new have "map_of xs j = None" by (simp add: map_of_eq_None_iff)
      with LGet assms show ?thesis by (simp add: rec_get_def)
    next
      case (LPut j w)
      have "j \<notin> set (before xs k)"
        using new LPut by (auto simp: before_def dest: set_takeWhileD)
      then have "card (insert j (set (before xs k))) = length (before xs k) + 1"
        using assms(3) by (simp add: distinct_card)
      moreover have "card (insert j (set (before xs k))) \<le> card U"
        using assms(4,5) LPut by (intro card_mono) simp_all
      ultimately have "length (before xs k) + 1 < cap" using assms(6) by simp
      then have "length xs \<ge> cap \<Longrightarrow> before (butlast xs) k = before xs k \<and> map_of (butlast xs) k = Some v"
        using before_butlast [OF assms(1)] by simp
      then show ?thesis using LPut new assms \<open>j \<notin> set (before xs k)\<close>
        by (auto simp: rec_put_def before_Cons)
    qed
  qed
qed

lemma rec_run_keeps:
  "map_of xs k = Some v \<Longrightarrow> distinct (before xs k) \<Longrightarrow> set (before xs k) \<subseteq> U \<Longrightarrow>
    k \<notin> touched ` set ops \<Longrightarrow> touched ` set ops \<subseteq> U \<Longrightarrow> finite U \<Longrightarrow> card U < cap \<Longrightarrow>
    map_of (foldl (rec_exec cap) xs ops) k = Some v"
proof (induction ops arbitrary: xs)
  case Nil
  then show ?case by simp
next
  case (Cons x ops)
  have "map_of (rec_exec cap xs x) k = Some v \<and> distinct (before (rec_exec cap xs x) k)
    \<and> set (before (rec_exec cap xs x) k) \<subseteq> U"
    by (rule rec_exec_keeps) (use Cons.prems in auto)
  then show ?case using Cons by simp
qed

text \<open>the cache keeps the working set. After Put(k, v), however many operations follow, Get(k) still
  returns v as long as they touch fewer distinct other keys than the capacity.\<close>

theorem lru_keeps_working_set:
  assumes "k \<notin> touched ` set ops"
    and "card (touched ` set ops) < nat (if cap \<le> 0 then 100 else cap)"
  shows "fst (lru_get (foldl lru_exec (new_lru_cache cap blank) (prior @ LPut k v # ops)) k) = Some v"
proof -
  define n where "n = nat (if cap \<le> 0 then 100 else cap)"
  let ?p = "foldl lru_exec (new_lru_cache cap blank) prior"
  let ?c0 = "lru_put ?p k v"
  have c: "foldl lru_exec (new_lru_cache cap blank) (prior @ LPut k v # ops) = foldl lru_exec ?c0 ops"
    by simp
  have P: "lru_inv ?p" by (rule lru_inv_run [OF lru_inv_new])
  have I0: "lru_inv ?c0" by (rule lru_inv_put [OF P])
  have I: "lru_inv (foldl lru_exec ?c0 ops)" by (rule lru_inv_run [OF I0])
  have "capacity ?c0 = capacity (lru_exec ?p (LPut k v))" by simp
  then have cap: "capacity ?c0 = n" unfolding capacity_exec capacity_run by (simp add: new_lru_cache_def n_def)
  have r: "recency (foldl lru_exec ?c0 ops) = foldl (rec_exec n) (recency ?c0) ops"
    using recency_run [OF I0] unfolding cap .
  have "\<exists>ys. rec_put m xs k v = (k, v) # ys" for m xs by (simp add: rec_put_def rec_touch_def)
  then obtain ys where ys: "recency ?c0 = (k, v) # ys" unfolding recency_put [OF P] by blast
  have "map_of (foldl (rec_exec n) (recency ?c0) ops) k = Some v"
    by (rule rec_run_keeps [where U = "touched ` set ops"])
      (use assms in \<open>simp_all add: ys before_Cons n_def\<close>)
  then show ?thesis
    unfolding c using map_of_recency [OF I, of k] by (simp add: r lru_get_def split: option.splits)
qed

theorem lru_keeps_working_set_witness:
  "fst (lru_get (foldl lru_exec (new_lru_cache 2 (0, 0)) ([LPut 7 70] @ LPut (1::nat) (10::nat)
     # [LPut 2 20, LGet 2, LPut 2 21])) 1) = Some 10"
  by (rule lru_keeps_working_set) simp_all

end
