(* ===== verification/Slot_Contract.thy ===== *)
theory Slot_Contract
  imports Go_Prelude
begin

text \<open>
  The contract of a bounded pool of slots: a slot can be acquired, without waiting, exactly while one
  is free, and releasing gives it back. Inside the locale, a heap of such pools is shared by goroutines
  of which each holds at most one slot of one pool (\<open>holding\<close>); \<open>balanced\<close> says that in
  every pool the free slots and the holders add up to the capacity. From it follow the bound on the
  holders and the isolation of the pools: whether a slot can be had depends on that pool's holders only.
\<close>

definition holders :: "(nat \<rightharpoonup> nat) \<Rightarrow> nat \<Rightarrow> nat set" where
  "holders holding r = {t. holding t = Some r}"

lemma holders_upd: "holders (holding(t \<mapsto> r)) q = (if q = r then insert t (holders holding q)
    else holders holding q - {t})"
  by (auto simp: holders_def)

lemma holders_del: "holders (holding(t := None)) q = holders holding q - {t}"
  by (auto simp: holders_def)

lemma holders_mem [simp]: "t \<in> holders holding r \<longleftrightarrow> holding t = Some r"
  by (simp add: holders_def)

lemma holders_none: "holding t = None \<Longrightarrow> holders holding r - {t} = holders holding r"
  by auto

locale slots =
  fixes acquire :: "'s \<Rightarrow> 's option" and release :: "'s \<Rightarrow> 's"
    and free :: "'s \<Rightarrow> nat" and cap :: "'s \<Rightarrow> nat"
  assumes acquire_free: "0 < free s \<Longrightarrow> \<exists>s'. acquire s = Some s' \<and> free s' + 1 = free s \<and> cap s' = cap s"
    and acquire_full: "free s = 0 \<Longrightarrow> acquire s = None"
    and release_free: "free s < cap s \<Longrightarrow> free (release s) = free s + 1 \<and> cap (release s) = cap s"
begin

definition balanced :: "(nat \<Rightarrow> 's) \<Rightarrow> (nat \<rightharpoonup> nat) \<Rightarrow> bool" where
  "balanced heap holding \<longleftrightarrow> (\<forall>r. finite (holders holding r)
     \<and> free (heap r) + card (holders holding r) = cap (heap r))"

lemma balancedD: "balanced heap holding \<Longrightarrow> finite (holders holding r)"
  "balanced heap holding \<Longrightarrow> free (heap r) + card (holders holding r) = cap (heap r)"
  by (simp_all add: balanced_def)

lemma holders_bounded: "balanced heap holding \<Longrightarrow> card (holders holding r) \<le> cap (heap r)"
  using balancedD(2) [of heap holding r] by simp

lemma acquire_iff:
  "balanced heap holding \<Longrightarrow> acquire (heap r) \<noteq> None \<longleftrightarrow> card (holders holding r) < cap (heap r)"
  using balancedD(2) [of heap holding r] acquire_free [of "heap r"] acquire_full [of "heap r"]
  by (cases "free (heap r) = 0") auto

lemma acquire_some: "acquire s = Some s' \<Longrightarrow> free s' + 1 = free s \<and> cap s' = cap s"
  using acquire_free [of s] acquire_full [of s] by (cases "free s = 0") auto

lemma balanced_acquire:
  assumes "balanced heap holding" and "holding t = None" and "acquire (heap r) = Some s'"
  shows "balanced (heap(r := s')) (holding(t \<mapsto> r))"
  unfolding balanced_def
proof
  fix q
  show "finite (holders (holding(t \<mapsto> r)) q)
      \<and> free ((heap(r := s')) q) + card (holders (holding(t \<mapsto> r)) q) = cap ((heap(r := s')) q)"
    using assms(2) acquire_some [OF assms(3)] balancedD [OF assms(1), of q]
    by (cases "q = r") (simp_all add: holders_upd holders_none)
qed

lemma balanced_release:
  assumes "balanced heap holding" and "holding t = Some r"
  shows "balanced (heap(r := release (heap r))) (holding(t := None))"
  unfolding balanced_def
proof
  fix q
  note B = balancedD [OF assms(1), of q]
  show "finite (holders (holding(t := None)) q)
      \<and> free ((heap(r := release (heap r))) q) + card (holders (holding(t := None)) q)
        = cap ((heap(r := release (heap r))) q)"
  proof (cases "q = r")
    case True
    then have c: "0 < card (holders holding q)" using B(1) assms(2) by (auto simp: card_gt_0_iff)
    then have "free (heap q) < cap (heap q)" using B(2) by simp
    with release_free [of "heap q"] B c assms(2) True show ?thesis
      by (simp add: holders_del card_Diff_singleton)
  next
    case False
    then have "holders holding q - {t} = holders holding q" using assms(2) by auto
    with False B show ?thesis by (simp add: holders_del)
  qed
qed

lemma balanced_fresh:
  assumes "balanced heap holding" and "holders holding r = {}" and "free s = cap s"
  shows "balanced (heap(r := s)) holding"
  using assms by (simp add: balanced_def)

lemma release_not_blocked:
  "balanced heap holding \<Longrightarrow> holding t = Some r \<Longrightarrow> free (heap r) < cap (heap r)"
  using balancedD [of heap holding r] by (metis add.right_neutral card_gt_0_iff empty_iff holders_mem
      less_add_same_cancel1)

lemma balanced_start: "(\<And>r. free (heap r) = cap (heap r)) \<Longrightarrow> balanced heap Map.empty"
  by (simp add: balanced_def holders_def)

end

end
