(* ===== verification/Bulkheads.thy ===== *)
theory Bulkheads
  imports Slot_Contract
begin

text \<open>
  The bulkheads: \<open>patterns/08_httpclient/bulkhead.go\<close> (\<open>BulkheadRegistry\<close>),
  \<open>patterns/20_reliability/bulkhead_shield.go\<close> (\<open>BulkheadShield\<close>) and
  \<open>patterns/20_reliability/overload_protection.go\<close>. A channel of tokens is its capacity and the
  number of tokens in it; it is an object, because a call returns its token to the channel it took it
  from even when the name has been registered again meanwhile. A call is a goroutine that looks the
  partition up, polls the channel, runs the function and returns the token; the steps of all goroutines
  are interleaved event by event.
\<close>

record token_chan =
  chan_cap :: nat
  chan_tokens :: nat

definition full_token_chan :: "nat \<Rightarrow> token_chan" where
  "full_token_chan n = \<lparr>chan_cap = n, chan_tokens = n\<rparr>"

definition recv_token :: "token_chan \<Rightarrow> token_chan option" where
  "recv_token c = (if chan_tokens c = 0 then None else Some (c\<lparr>chan_tokens := chan_tokens c - 1\<rparr>))"

definition send_token :: "token_chan \<Rightarrow> token_chan option" where
  "send_token c = (if chan_tokens c < chan_cap c then Some (c\<lparr>chan_tokens := chan_tokens c + 1\<rparr>) else None)"

interpretation tok: slots recv_token "\<lambda>c. the (send_token c)" chan_tokens chan_cap
  by unfold_locales (auto simp: recv_token_def send_token_def)

lemma send_token_the:
  "chan_tokens c < chan_cap c \<Longrightarrow> send_token c = Some (the (send_token c))"
  by (simp add: send_token_def)


section \<open>The bulkhead registry\<close>

record bulkhead_registry =
  partitions :: "string \<rightharpoonup> nat"
  sem_heap :: "nat \<Rightarrow> token_chan"
  next_sem :: nat

definition new_bulkhead_registry :: bulkhead_registry where
  "new_bulkhead_registry =
     \<lparr>partitions = Map.empty, sem_heap = (\<lambda>r. full_token_chan 0), next_sem = 0\<rparr>"

definition register_partition :: "bulkhead_registry \<Rightarrow> string \<Rightarrow> int \<Rightarrow> bulkhead_registry" where
  "register_partition b name maxConcurrency =
     (let n = nat (if maxConcurrency \<le> 0 then 5 else maxConcurrency); r = next_sem b
      in \<lparr>partitions = (partitions b)(name \<mapsto> r), sem_heap = (sem_heap b)(r := full_token_chan n),
          next_sem = r + 1\<rparr>)"

text \<open>Where a goroutine is in \<open>Execute\<close>: outside, with the semaphore it looked up, after a first
  poll that found no token, or running the function.\<close>

datatype bulk_pc = BOut | BFound nat | BSaturated nat | BRunning nat

text \<open>The second \<open>select\<close> takes the case of the context, the token, or the default.\<close>

datatype select_case = SelectDone ctx_err | SelectToken | SelectDefault

datatype bulk_event =
    BRegister string int
  | BLookup nat string
  | BPoll nat
  | BPollAgain nat select_case
  | BReturn nat

record bulk_sys =
  registry :: bulkhead_registry
  bulk_pc :: "nat \<Rightarrow> bulk_pc"

definition bgoto :: "bulk_sys \<Rightarrow> nat \<Rightarrow> bulk_pc \<Rightarrow> bulk_sys" where
  "bgoto s t c = s\<lparr>bulk_pc := (bulk_pc s)(t := c)\<rparr>"

definition put_sem :: "bulk_sys \<Rightarrow> nat \<Rightarrow> token_chan \<Rightarrow> bulk_sys" where
  "put_sem s r c = s\<lparr>registry := (registry s)\<lparr>sem_heap := (sem_heap (registry s))(r := c)\<rparr>\<rparr>"

fun bulk_step :: "bulk_sys \<Rightarrow> bulk_event \<Rightarrow> bulk_sys option" where
  "bulk_step s (BRegister name n) = Some (s\<lparr>registry := register_partition (registry s) name n\<rparr>)"
| "bulk_step s (BLookup t name) =
     (if bulk_pc s t \<noteq> BOut then None
      else case partitions (registry s) name of
             None \<Rightarrow> Some s
           | Some r \<Rightarrow> Some (bgoto s t (BFound r)))"
| "bulk_step s (BPoll t) =
     (case bulk_pc s t of
        BFound r \<Rightarrow>
          (case recv_token (sem_heap (registry s) r) of
             Some c \<Rightarrow> Some (bgoto (put_sem s r c) t (BRunning r))
           | None \<Rightarrow> Some (bgoto s t (BSaturated r)))
      | _ \<Rightarrow> None)"
| "bulk_step s (BPollAgain t k) =
     (case bulk_pc s t of
        BSaturated r \<Rightarrow>
          (case k of
             SelectDone e \<Rightarrow> Some (bgoto s t BOut)
           | SelectToken \<Rightarrow>
               map_option (\<lambda>c. bgoto (put_sem s r c) t (BRunning r)) (recv_token (sem_heap (registry s) r))
           | SelectDefault \<Rightarrow>
               (if recv_token (sem_heap (registry s) r) = None then Some (bgoto s t BOut) else None))
      | _ \<Rightarrow> None)"
| "bulk_step s (BReturn t) =
     (case bulk_pc s t of
        BRunning r \<Rightarrow>
          map_option (\<lambda>c. bgoto (put_sem s r c) t BOut) (send_token (sem_heap (registry s) r))
      | _ \<Rightarrow> None)"

definition bulk_start :: bulk_sys where
  "bulk_start = \<lparr>registry = new_bulkhead_registry, bulk_pc = (\<lambda>t. BOut)\<rparr>"

definition running_in :: "bulk_sys \<Rightarrow> nat \<rightharpoonup> nat" where
  "running_in s t = (case bulk_pc s t of BRunning r \<Rightarrow> Some r | _ \<Rightarrow> None)"

definition bulk_inv :: "bulk_sys \<Rightarrow> bool" where
  "bulk_inv s \<longleftrightarrow> tok.balanced (sem_heap (registry s)) (running_in s)
     \<and> (\<forall>t r. running_in s t = Some r \<longrightarrow> r < next_sem (registry s))
     \<and> (\<forall>t r. bulk_pc s t = BFound r \<or> bulk_pc s t = BSaturated r \<longrightarrow> r < next_sem (registry s))
     \<and> (\<forall>name r. partitions (registry s) name = Some r \<longrightarrow> r < next_sem (registry s))"

lemma running_in_bgoto: "running_in (bgoto s t c) = (running_in s)(t := case c of BRunning r \<Rightarrow> Some r | _ \<Rightarrow> None)"
  by (rule ext) (simp add: running_in_def bgoto_def)

lemma put_sem_simps [simp]: "running_in (put_sem s r c) = running_in s" "bulk_pc (put_sem s r c) = bulk_pc s"
  "sem_heap (registry (put_sem s r c)) = (sem_heap (registry s))(r := c)"
  "next_sem (registry (put_sem s r c)) = next_sem (registry s)"
  "partitions (registry (put_sem s r c)) = partitions (registry s)"
  by (simp_all add: put_sem_def running_in_def fun_eq_iff)

lemma bgoto_simps [simp]: "registry (bgoto s t c) = registry s" "bulk_pc (bgoto s t c) = (bulk_pc s)(t := c)"
  by (simp_all add: bgoto_def)

lemma running_in_None: "bulk_pc s t = BOut \<Longrightarrow> running_in s t = None"
  "bulk_pc s t = BFound r \<Longrightarrow> running_in s t = None" "bulk_pc s t = BSaturated r \<Longrightarrow> running_in s t = None"
  "bulk_pc s t = BRunning r \<Longrightarrow> running_in s t = Some r"
  by (simp_all add: running_in_def)

lemma bulk_inv_start: "bulk_inv bulk_start"
proof -
  have "running_in bulk_start = Map.empty" by (rule ext) (simp add: running_in_def bulk_start_def)
  moreover have "tok.balanced (sem_heap (registry bulk_start)) Map.empty"
    by (rule tok.balanced_start) (simp add: bulk_start_def new_bulkhead_registry_def full_token_chan_def)
  ultimately show ?thesis by (simp add: bulk_inv_def) (simp add: bulk_start_def new_bulkhead_registry_def)
qed

lemma bulk_inv_enter:
  assumes "bulk_inv s" and "running_in s t = None" and "r < next_sem (registry s)"
    and "recv_token (sem_heap (registry s) r) = Some c"
  shows "bulk_inv (bgoto (put_sem s r c) t (BRunning r))"
  using assms tok.balanced_acquire [of "sem_heap (registry s)" "running_in s" t r c]
  by (auto simp: bulk_inv_def running_in_bgoto)

lemma bulk_inv_move:
  assumes "bulk_inv s" and "running_in s t = None"
    and "c = BOut \<or> (c = BFound r \<or> c = BSaturated r) \<and> r < next_sem (registry s)"
  shows "bulk_inv (bgoto s t c)"
  using assms by (auto simp: bulk_inv_def running_in_bgoto fun_upd_idem)

lemma bulk_inv_leave:
  assumes "bulk_inv s" and "running_in s t = Some r" and "send_token (sem_heap (registry s) r) = Some c"
  shows "bulk_inv (bgoto (put_sem s r c) t BOut)"
  using assms tok.balanced_release [of "sem_heap (registry s)" "running_in s" t r]
  by (auto simp: bulk_inv_def running_in_bgoto)

lemma bulk_inv_register:
  assumes "bulk_inv s"
  shows "bulk_inv (s\<lparr>registry := register_partition (registry s) name n\<rparr>)"
proof -
  have run: "running_in (s\<lparr>registry := b\<rparr>) = running_in s" for b
    by (simp add: running_in_def fun_eq_iff)
  have "holders (running_in s) (next_sem (registry s)) = {}"
    using assms by (auto simp: bulk_inv_def holders_def)
  then have "tok.balanced ((sem_heap (registry s))(next_sem (registry s) := full_token_chan m)) (running_in s)" for m
    using assms by (intro tok.balanced_fresh) (simp_all add: bulk_inv_def full_token_chan_def)
  then show ?thesis using assms
    by (auto simp: bulk_inv_def run register_partition_def Let_def less_Suc_eq)
qed

lemma bulk_inv_step: "bulk_inv s \<Longrightarrow> bulk_step s e = Some s' \<Longrightarrow> bulk_inv s'"
proof (induction s e rule: bulk_step.induct)
  case (1 s name n)
  then show ?case using bulk_inv_register by auto
next
  case (2 s t name)
  then have out: "bulk_pc s t = BOut" by (auto split: if_splits)
  show ?case
  proof (cases "partitions (registry s) name")
    case None
    with 2 out show ?thesis by simp
  next
    case (Some r)
    with 2 have "r < next_sem (registry s)" by (auto simp: bulk_inv_def)
    with bulk_inv_move [of s t "BFound r" r] 2 out Some show ?thesis by (simp add: running_in_None)
  qed
next
  case (3 s t)
  then obtain r where r: "bulk_pc s t = BFound r" by (auto split: bulk_pc.splits)
  then have "r < next_sem (registry s)" using 3 by (auto simp: bulk_inv_def)
  with 3 r show ?case
    by (auto simp: running_in_None intro: bulk_inv_enter bulk_inv_move split: option.splits)
next
  case (4 s t k)
  then obtain r where r: "bulk_pc s t = BSaturated r" by (auto split: bulk_pc.splits)
  then have "r < next_sem (registry s)" using 4 by (auto simp: bulk_inv_def)
  with 4 r show ?case
    by (auto simp: running_in_None intro: bulk_inv_enter bulk_inv_move split: select_case.splits if_splits)
next
  case (5 s t)
  then obtain r where r: "bulk_pc s t = BRunning r" by (auto split: bulk_pc.splits)
  with 5 show ?case by (auto simp: running_in_None intro: bulk_inv_leave)
qed

lemma bulk_inv_run: "run_events bulk_step bulk_start es = Some s \<Longrightarrow> bulk_inv s"
  by (rule run_events_inv [where I = bulk_inv]) (auto intro: bulk_inv_start bulk_inv_step)

definition load :: "bulk_sys \<Rightarrow> nat \<Rightarrow> nat" where
  "load s r = card (holders (running_in s) r)"

text \<open>the partitions are isolated. In every interleaving of calls and registrations, no semaphore ever
  runs more calls than its capacity, a call that polls is admitted exactly when its own semaphore runs
  fewer than its capacity, however saturated the other partitions are, and a call that ends is never
  blocked on returning its token.\<close>

theorem bulkhead_isolation:
  assumes "run_events bulk_step bulk_start es = Some s"
  shows "load s r \<le> chan_cap (sem_heap (registry s) r)
    \<and> (bulk_pc s t = BFound r \<longrightarrow>
        (\<exists>s'. bulk_step s (BPoll t) = Some s' \<and>
          bulk_pc s' t = (if load s r < chan_cap (sem_heap (registry s) r) then BRunning r else BSaturated r)))
    \<and> (bulk_pc s t = BRunning r \<longrightarrow> (\<exists>s'. bulk_step s (BReturn t) = Some s' \<and> bulk_pc s' t = BOut))"
proof -
  have I: "bulk_inv s" using assms by (rule bulk_inv_run)
  then have B: "tok.balanced (sem_heap (registry s)) (running_in s)" by (simp add: bulk_inv_def)
  have "load s r \<le> chan_cap (sem_heap (registry s) r)"
    using tok.holders_bounded [OF B] by (simp add: load_def)
  moreover have "\<exists>s'. bulk_step s (BPoll t) = Some s' \<and>
      bulk_pc s' t = (if load s r < chan_cap (sem_heap (registry s) r) then BRunning r else BSaturated r)"
    if "bulk_pc s t = BFound r"
    using that tok.acquire_iff [OF B, of r]
    by (cases "recv_token (sem_heap (registry s) r)") (simp_all add: load_def)
  moreover have "\<exists>s'. bulk_step s (BReturn t) = Some s' \<and> bulk_pc s' t = BOut"
    if "bulk_pc s t = BRunning r"
    using that tok.release_not_blocked [OF B, of t r] send_token_the by (force simp: running_in_None)
  ultimately show ?thesis by blast
qed

definition demo_bulk_events :: "bulk_event list" where
  "demo_bulk_events = [BRegister ''a'' 1, BRegister ''b'' 1, BLookup 1 ''a'', BPoll 1, BLookup 2 ''a'', BPoll 2,
     BLookup 3 ''b'']"

definition demo_bulk_state :: bulk_sys where
  "demo_bulk_state = the (run_events bulk_step bulk_start demo_bulk_events)"

lemma demo_bulk_run: "run_events bulk_step bulk_start demo_bulk_events = Some demo_bulk_state"
  by (simp add: demo_bulk_state_def demo_bulk_events_def bulk_start_def new_bulkhead_registry_def
      register_partition_def recv_token_def full_token_chan_def)

lemma demo_bulk_pc: "bulk_pc demo_bulk_state 2 = BSaturated 0" "bulk_pc demo_bulk_state 3 = BFound 1"
  by (simp_all add: demo_bulk_state_def demo_bulk_events_def bulk_start_def new_bulkhead_registry_def
      register_partition_def recv_token_def full_token_chan_def)

theorem bulkhead_isolation_witness:
  "bulk_pc demo_bulk_state 2 = BSaturated 0 \<and> (\<exists>s'. bulk_step demo_bulk_state (BPoll 3) = Some s')"
  using bulkhead_isolation [OF demo_bulk_run, of 1 3] demo_bulk_pc by auto


section \<open>The dependency shield\<close>

text \<open>\<open>RegisterDependency\<close> does not correct its capacity: \<open>make(chan struct{}, n)\<close> panics for a
  negative one (\<open>None\<close>), and 0 makes a pool that refuses every call. A call that gets a token runs
  with a deadline: the earlier of its own context's and the pool's timeout from now.\<close>

record worker_pool =
  wp_tokens :: token_chan
  wp_timeout :: duration

record shield =
  sh_pools :: "string \<rightharpoonup> nat"
  sh_heap :: "nat \<Rightarrow> worker_pool"
  sh_next :: nat

definition new_bulkhead_shield :: shield where
  "new_bulkhead_shield = \<lparr>sh_pools = Map.empty,
     sh_heap = (\<lambda>r. \<lparr>wp_tokens = full_token_chan 0, wp_timeout = 0\<rparr>), sh_next = 0\<rparr>"

definition register_dependency :: "shield \<Rightarrow> string \<Rightarrow> int \<Rightarrow> duration \<Rightarrow> shield option" where
  "register_dependency s name maxConcurrency defaultTimeout =
     (if maxConcurrency < 0 then None
      else let r = sh_next s
           in Some \<lparr>sh_pools = (sh_pools s)(name \<mapsto> r),
                sh_heap = (sh_heap s)(r := \<lparr>wp_tokens = full_token_chan (nat maxConcurrency),
                  wp_timeout = defaultTimeout\<rparr>),
                sh_next = r + 1\<rparr>)"

datatype shield_error = UnregisteredDependency string | DependencySaturated string

definition call_deadline :: "gotime option \<Rightarrow> gotime \<Rightarrow> duration \<Rightarrow> gotime" where
  "call_deadline parent now timeout = (case parent of None \<Rightarrow> now + timeout | Some d \<Rightarrow> min d (now + timeout))"

text \<open>The entry of \<open>Call\<close> (the reference of the pool whose token it holds, and the deadline of the
  function), and its deferred exit.\<close>

definition shield_enter ::
  "shield \<Rightarrow> gotime option \<Rightarrow> gotime \<Rightarrow> string \<Rightarrow> (shield_error + nat \<times> gotime) \<times> shield" where
  "shield_enter s parent now name =
     (case sh_pools s name of
        None \<Rightarrow> (Inl (UnregisteredDependency name), s)
      | Some r \<Rightarrow>
          (case recv_token (wp_tokens (sh_heap s r)) of
             None \<Rightarrow> (Inl (DependencySaturated name), s)
           | Some c \<Rightarrow>
               (Inr (r, call_deadline parent now (wp_timeout (sh_heap s r))),
                s\<lparr>sh_heap := (sh_heap s)(r := (sh_heap s r)\<lparr>wp_tokens := c\<rparr>)\<rparr>)))"

definition shield_leave :: "shield \<Rightarrow> nat \<Rightarrow> shield option" where
  "shield_leave s r =
     map_option (\<lambda>c. s\<lparr>sh_heap := (sh_heap s)(r := (sh_heap s r)\<lparr>wp_tokens := c\<rparr>)\<rparr>)
       (send_token (wp_tokens (sh_heap s r)))"

lemma shield_enter_frame:
  "sh_pools s other = Some q \<Longrightarrow> sh_pools s name \<noteq> Some q \<Longrightarrow>
    fst (shield_enter (snd (shield_enter s parent now name)) parent' now' other)
      = fst (shield_enter s parent' now' other)"
  by (auto simp: shield_enter_def split: option.split)

lemma shield_enter_leave:
  assumes "shield_enter s parent now name = (Inr (r, d), s1)"
    and "chan_tokens (wp_tokens (sh_heap s r)) \<le> chan_cap (wp_tokens (sh_heap s r))"
  shows "shield_leave s1 r = Some s"
  using assms by (auto simp: shield_enter_def shield_leave_def recv_token_def send_token_def
      fun_upd_idem split: option.splits if_splits)

lemma shield_deadline_bounded:
  "shield_enter s parent now name = (Inr (r, d), s1) \<Longrightarrow>
    d \<le> now + wp_timeout (sh_heap s r) \<and> (case parent of None \<Rightarrow> True | Some p \<Rightarrow> d \<le> p)"
  by (auto simp: shield_enter_def call_deadline_def split: option.splits)


section \<open>Overload protection\<close>

text \<open>A request adds one to the counter, is refused with 503 when the result exceeds the maximum, and
  takes its one back when it ends, refused or not.\<close>

datatype request_state = NotHere | Serving | Refused

record overload =
  max_active_requests :: int
  active_requests :: int
  requests :: "nat \<Rightarrow> request_state"

definition overload_middleware :: "int \<Rightarrow> overload" where
  "overload_middleware maxActiveRequests =
     \<lparr>max_active_requests = (if maxActiveRequests \<le> 0 then 1000 else maxActiveRequests),
      active_requests = 0, requests = (\<lambda>t. NotHere)\<rparr>"

datatype overload_event = Arrive nat | Depart nat

fun overload_step :: "overload \<Rightarrow> overload_event \<Rightarrow> overload option" where
  "overload_step m (Arrive t) =
     (if requests m t \<noteq> NotHere then None
      else let current = i64 (active_requests m + 1)
           in Some (m\<lparr>active_requests := current,
                requests := (requests m)(t := if current > max_active_requests m then Refused else Serving)\<rparr>))"
| "overload_step m (Depart t) =
     (if requests m t = NotHere then None
      else Some (m\<lparr>active_requests := i64 (active_requests m - 1), requests := (requests m)(t := NotHere)\<rparr>))"

definition in_flight :: "overload \<Rightarrow> nat set" where
  "in_flight m = {t. requests m t \<noteq> NotHere}"

definition being_served :: "overload \<Rightarrow> nat set" where
  "being_served m = {t. requests m t = Serving}"

definition overload_inv :: "overload \<Rightarrow> bool" where
  "overload_inv m \<longleftrightarrow> finite (in_flight m) \<and> active_requests m = int (card (in_flight m))
     \<and> int (card (being_served m)) \<le> max_active_requests m \<and> 0 < max_active_requests m"

lemma overload_arrive:
  assumes "overload_inv m" and "int (card (in_flight m)) + 1 < 9223372036854775808"
    and "overload_step m (Arrive t) = Some m'"
  shows "overload_inv m' \<and> card (in_flight m') = card (in_flight m) + 1"
proof -
  have new: "requests m t = NotHere" using assms(3) by (auto split: if_splits)
  have cur: "i64 (active_requests m + 1) = int (card (in_flight m)) + 1"
    using assms(1,2) by (auto simp: overload_inv_def in64_def)
  have m': "m' = m\<lparr>active_requests := int (card (in_flight m)) + 1,
      requests := (requests m)(t := if int (card (in_flight m)) + 1 > max_active_requests m
        then Refused else Serving)\<rparr>"
    using assms(3) new by (simp add: cur Let_def)
  have fl: "in_flight m' = insert t (in_flight m)" by (auto simp: in_flight_def m')
  have tn: "t \<notin> in_flight m" using new by (simp add: in_flight_def)
  have card_fl: "card (in_flight m') = card (in_flight m) + 1"
    using assms(1) tn by (simp add: fl overload_inv_def)
  have sub: "being_served m' \<subseteq> in_flight m'" by (auto simp: being_served_def in_flight_def)
  have "int (card (being_served m')) \<le> max_active_requests m"
  proof (cases "int (card (in_flight m)) + 1 > max_active_requests m")
    case True
    have "being_served m' = being_served m" using True new by (auto simp: being_served_def m' split: if_splits)
    then show ?thesis using assms(1) by (simp add: overload_inv_def)
  next
    case False
    have "card (being_served m') \<le> card (in_flight m')"
      using sub assms(1) by (intro card_mono) (simp_all add: fl overload_inv_def)
    then show ?thesis using False card_fl by simp
  qed
  moreover have "finite (in_flight m')" using assms(1) by (simp add: fl overload_inv_def)
  ultimately show ?thesis using assms(1) card_fl by (simp add: overload_inv_def) (simp add: m')
qed

lemma overload_depart:
  assumes "overload_inv m" and "int (card (in_flight m)) < 9223372036854775808"
    and "overload_step m (Depart t) = Some m'"
  shows "overload_inv m' \<and> card (in_flight m') \<le> card (in_flight m)"
proof -
  have here: "t \<in> in_flight m" using assms(3) by (auto simp: in_flight_def split: if_splits)
  have fin: "finite (in_flight m)" using assms(1) by (simp add: overload_inv_def)
  have m': "m' = m\<lparr>active_requests := i64 (active_requests m - 1), requests := (requests m)(t := NotHere)\<rparr>"
    using assms(3) by (auto split: if_splits)
  have fl: "in_flight m' = in_flight m - {t}" by (auto simp: in_flight_def m')
  have pos: "0 < card (in_flight m)" using here fin by (auto simp: card_gt_0_iff)
  have "i64 (active_requests m - 1) = int (card (in_flight m)) - 1"
    using assms(1,2) pos by (auto simp: overload_inv_def in64_def)
  moreover have "card (in_flight m') = card (in_flight m) - 1" using here fin by (simp add: fl)
  moreover have "being_served m' \<subseteq> being_served m" by (auto simp: being_served_def m')
  moreover have "finite (being_served m)"
    by (rule finite_subset [OF _ fin]) (auto simp: being_served_def in_flight_def)
  moreover have "finite (in_flight m')" using fin by (simp add: fl)
  moreover have "active_requests m' = i64 (active_requests m - 1)" by (simp add: m')
  ultimately have "card (being_served m') \<le> card (being_served m)"
      "active_requests m' = int (card (in_flight m'))" "finite (in_flight m')"
    using pos by (simp_all add: card_mono)
  then show ?thesis using assms(1) \<open>card (in_flight m') = card (in_flight m) - 1\<close>
    by (auto simp: overload_inv_def m')
qed

lemma overload_run_inv:
  "overload_inv m \<Longrightarrow> int (card (in_flight m)) + int (length es) < 9223372036854775808 \<Longrightarrow>
    run_events overload_step m es = Some m' \<Longrightarrow> overload_inv m'"
proof (induction es arbitrary: m)
  case Nil
  then show ?case by simp
next
  case (Cons e es)
  then obtain m1 where m1: "overload_step m e = Some m1" "run_events overload_step m1 es = Some m'"
    by (auto split: option.splits)
  have "overload_inv m1 \<and> card (in_flight m1) \<le> card (in_flight m) + 1"
  proof (cases e)
    case (Arrive t)
    then show ?thesis using overload_arrive [OF Cons.prems(1), of t m1] Cons.prems(2) m1 by simp
  next
    case (Depart t)
    then show ?thesis using overload_depart [OF Cons.prems(1), of t m1] Cons.prems(2) m1 by simp
  qed
  then show ?case using Cons.IH [of m1] Cons.prems(2) m1 by simp
qed

text \<open>the server never serves more than the configured number of requests at once, and the counter
  is exact: in every interleaving of arrivals and departures it is the number of requests present, the
  refused ones that have not returned yet included.\<close>

theorem overload_never_exceeded:
  assumes "run_events overload_step (overload_middleware maxreq) es = Some m"
    and "int (length es) < 9223372036854775808"
  shows "int (card (being_served m)) \<le> (if maxreq \<le> 0 then 1000 else maxreq)
    \<and> active_requests m = int (card (in_flight m))"
proof -
  have "overload_inv (overload_middleware maxreq)"
    by (simp add: overload_inv_def overload_middleware_def in_flight_def being_served_def)
  moreover have "card (in_flight (overload_middleware maxreq)) = 0"
    by (simp add: overload_middleware_def in_flight_def)
  ultimately have "overload_inv m" using overload_run_inv [OF _ _ assms(1)] assms(2) by simp
  moreover have "max_active_requests m = (if maxreq \<le> 0 then 1000 else maxreq)"
    by (rule run_events_inv [OF assms(1), where I = "\<lambda>m. max_active_requests m = (if maxreq \<le> 0 then 1000 else maxreq)"])
      (simp add: overload_middleware_def, rename_tac m1 e m2, case_tac e, auto split: if_splits simp: Let_def)
  ultimately show ?thesis by (simp add: overload_inv_def)
qed

theorem overload_never_exceeded_witness:
  "\<exists>m. run_events overload_step (overload_middleware 1) [Arrive 1, Arrive 2, Depart 2, Depart 1, Arrive 3] = Some m
     \<and> int (card (being_served m)) \<le> 1"
proof -
  obtain m where m: "run_events overload_step (overload_middleware 1)
      [Arrive 1, Arrive 2, Depart 2, Depart 1, Arrive 3] = Some m"
    by (simp add: overload_middleware_def i64_def Let_def)
  then show ?thesis using overload_never_exceeded [OF m] by auto
qed

end
