(* ===== verification/Cache_Contract.thy ===== *)
theory Cache_Contract
  imports Go_Prelude
begin

text \<open>
  The interface \<open>CacheClient\<close> of \<open>patterns/14_caching/cache_aside.go\<close> as a record of
  operations on a cache state, with the contract its clients rely on: a value that is found was set last
  for that key and not deleted since, it is found up to its time to live and not after, and no other
  key is affected. Each operation takes the time it reads. The provider, \<open>MemoryCache\<close>,
  and the interpretation of the contract on it follow.
\<close>

datatype cache_error = ErrCacheMiss | CacheFailure string

record ('s, 'v) cache_client =
  cc_get :: "'s \<Rightarrow> gotime \<Rightarrow> string \<Rightarrow> cache_error + 'v"
  cc_set :: "'s \<Rightarrow> gotime \<Rightarrow> string \<Rightarrow> 'v \<Rightarrow> duration \<Rightarrow> cache_error option \<times> 's"
  cc_delete :: "'s \<Rightarrow> string \<Rightarrow> cache_error option \<times> 's"

definition cached :: "('s, 'v) cache_client \<Rightarrow> 's \<Rightarrow> gotime \<Rightarrow> string \<Rightarrow> 'v option" where
  "cached C s now k = (case cc_get C s now k of Inl e \<Rightarrow> None | Inr v \<Rightarrow> Some v)"

locale cache_contract =
  fixes C :: "('s, 'v) cache_client"
  assumes get_set_same: "cached C (snd (cc_set C s now k v ttl)) now' k = (if now' > now + ttl then None else Some v)"
    and get_set_other: "j \<noteq> k \<Longrightarrow> cached C (snd (cc_set C s now k v ttl)) now' j = cached C s now' j"
    and get_delete_same: "cached C (snd (cc_delete C s k)) now' k = None"
    and get_delete_other: "j \<noteq> k \<Longrightarrow> cached C (snd (cc_delete C s k)) now' j = cached C s now' j"
    and delete_ok: "fst (cc_delete C s k) = None"
begin

definition coherent :: "'s \<Rightarrow> (string \<Rightarrow> 'v \<Rightarrow> bool) \<Rightarrow> bool" where
  "coherent s P \<longleftrightarrow> (\<forall>now k v. cached C s now k = Some v \<longrightarrow> P k v)"

lemma coherent_set: "coherent s P \<Longrightarrow> P k v \<Longrightarrow> coherent (snd (cc_set C s now k v ttl)) P"
  unfolding coherent_def by (metis get_set_same get_set_other option.distinct(1) option.inject)

lemma coherent_delete:
  "\<forall>now j v. j \<noteq> k \<longrightarrow> cached C s now j = Some v \<longrightarrow> P j v \<Longrightarrow> coherent (snd (cc_delete C s k)) P"
  unfolding coherent_def by (metis get_delete_same get_delete_other option.distinct(1))

end


section \<open>The in-memory cache\<close>

record 'v cache_item =
  item_val :: 'v
  expires_at :: gotime

type_synonym 'v memory_cache = "string \<rightharpoonup> 'v cache_item"

definition new_memory_cache :: "'v memory_cache" where
  "new_memory_cache = Map.empty"

definition mem_get :: "'v memory_cache \<Rightarrow> gotime \<Rightarrow> string \<Rightarrow> cache_error + 'v" where
  "mem_get c now k =
     (case c k of
        None \<Rightarrow> Inl ErrCacheMiss
      | Some it \<Rightarrow> if now > expires_at it then Inl ErrCacheMiss else Inr (item_val it))"

definition mem_set ::
  "'v memory_cache \<Rightarrow> gotime \<Rightarrow> string \<Rightarrow> 'v \<Rightarrow> duration \<Rightarrow> cache_error option \<times> 'v memory_cache" where
  "mem_set c now k v ttl = (None, c(k \<mapsto> \<lparr>item_val = v, expires_at = now + ttl\<rparr>))"

definition mem_delete :: "'v memory_cache \<Rightarrow> string \<Rightarrow> cache_error option \<times> 'v memory_cache" where
  "mem_delete c k = (None, c(k := None))"

definition memory_client :: "('v memory_cache, 'v) cache_client" where
  "memory_client = \<lparr>cc_get = mem_get, cc_set = mem_set, cc_delete = mem_delete\<rparr>"

lemma cached_memory:
  "cached memory_client c now k =
     (case c k of None \<Rightarrow> None | Some it \<Rightarrow> if now > expires_at it then None else Some (item_val it))"
  by (simp add: cached_def memory_client_def mem_get_def split: option.split)

lemma memory_client_simps [simp]:
  "cc_get memory_client = mem_get" "cc_set memory_client = mem_set" "cc_delete memory_client = mem_delete"
  by (simp_all add: memory_client_def)

interpretation mem: cache_contract memory_client
  by unfold_locales (simp_all add: cached_memory mem_set_def mem_delete_def)

lemma cached_empty [simp]: "cached memory_client new_memory_cache now k = None"
  by (simp add: cached_memory new_memory_cache_def)

end
