(* ===== verification/Cache_Aside.thy ===== *)
theory Cache_Aside
  imports Cache_Contract
begin

text \<open>
  The clients of the cache interface: \<open>CacheAsideService\<close> (\<open>patterns/14_caching/cache_aside.go\<close>)
  and \<open>NegativeCache\<close> (\<open>patterns/14_caching/negative_caching.go\<close>), for any cache and any
  database. The cache-aside service's \<open>dbGet\<close> and \<open>dbSet\<close> are functions on a database
  state. The facts are proved for every cache that satisfies the contract and used on \<open>MemoryCache\<close>. Here
  one call runs after the other; the theory Cache_Races interleaves them.
\<close>

section \<open>Cache-aside\<close>

record ('d, 'v, 'e) database =
  db_get :: "'d \<Rightarrow> string \<Rightarrow> 'e + 'v"
  db_set :: "'d \<Rightarrow> string \<Rightarrow> 'v \<Rightarrow> 'e option \<times> 'd"

datatype 'e aside_error = DbFetchError 'e | DbUpdateFailed 'e | CacheDeleteFailed cache_error

text \<open>The clock is read by the cache: at the lookup, and at the set after a miss.\<close>

definition aside_get ::
  "('s, 'v) cache_client \<Rightarrow> ('d, 'v, 'e) database \<Rightarrow> duration \<Rightarrow> gotime \<Rightarrow> gotime \<Rightarrow> string \<Rightarrow>
    's \<times> 'd \<Rightarrow> ('e aside_error + 'v) \<times> 's \<times> 'd" where
  "aside_get C db ttl now1 now2 key st =
     (let (s, d) = st in
      case cc_get C s now1 key of
        Inr val \<Rightarrow> (Inr val, s, d)
      | Inl miss \<Rightarrow>
          (case db_get db d key of
             Inl e \<Rightarrow> (Inl (DbFetchError e), s, d)
           | Inr val \<Rightarrow> (Inr val, snd (cc_set C s now2 key val ttl), d)))"

definition aside_set ::
  "('s, 'v) cache_client \<Rightarrow> ('d, 'v, 'e) database \<Rightarrow> string \<Rightarrow> 'v \<Rightarrow>
    's \<times> 'd \<Rightarrow> 'e aside_error option \<times> 's \<times> 'd" where
  "aside_set C db key val st =
     (let (s, d) = st in
      case db_set db d key val of
        (Some e, d1) \<Rightarrow> (Some (DbUpdateFailed e), s, d1)
      | (None, d1) \<Rightarrow>
          (let (err, s1) = cc_delete C s key in (map_option CacheDeleteFailed err, s1, d1)))"

datatype 'v aside_call = AGet gotime gotime string | ASet string 'v

primrec aside_exec ::
  "('s, 'v) cache_client \<Rightarrow> ('d, 'v, 'e) database \<Rightarrow> duration \<Rightarrow> 's \<times> 'd \<Rightarrow> 'v aside_call \<Rightarrow> 's \<times> 'd" where
  "aside_exec C db ttl st (AGet now1 now2 k) = snd (aside_get C db ttl now1 now2 k st)"
| "aside_exec C db ttl st (ASet k v) = snd (aside_set C db k v st)"

text \<open>What the service relies on in its database: a successful write binds the key and nothing else, a
  failed write changes nothing.\<close>

definition db_laws :: "('d, 'v, 'e) database \<Rightarrow> bool" where
  "db_laws db \<longleftrightarrow> (\<forall>d k v d'. db_set db d k v = (None, d') \<longrightarrow>
        (\<forall>j. db_get db d' j = (if j = k then Inr v else db_get db d j)))
     \<and> (\<forall>d k v e d'. db_set db d k v = (Some e, d') \<longrightarrow> (\<forall>j. db_get db d' j = db_get db d j))"

context cache_contract
begin

definition in_step :: "('d, 'v, 'e) database \<Rightarrow> 's \<times> 'd \<Rightarrow> bool" where
  "in_step db st \<longleftrightarrow> coherent (fst st) (\<lambda>k v. db_get db (snd st) k = Inr v)"

lemma aside_get_in_step:
  "in_step db (s, d) \<Longrightarrow> in_step db (snd (aside_get C db ttl now1 now2 k (s, d)))"
  using coherent_set [of s "\<lambda>k v. db_get db d k = Inr v" k _ now2 ttl]
  by (auto simp: in_step_def aside_get_def split: sum.split)

lemma aside_set_in_step:
  assumes "db_laws db" and "in_step db (s, d)"
  shows "in_step db (snd (aside_set C db k v (s, d)))"
proof (cases "db_set db d k v")
  case (Pair err d1)
  show ?thesis
  proof (cases err)
    case None
    then have g: "\<forall>j. db_get db d1 j = (if j = k then Inr v else db_get db d j)"
      using assms(1) Pair by (simp add: db_laws_def)
    have "coherent (snd (cc_delete C s k)) (\<lambda>k v. db_get db d1 k = Inr v)"
      by (rule coherent_delete) (use assms(2) g in \<open>simp add: in_step_def coherent_def\<close>)
    then show ?thesis using None Pair by (cases "cc_delete C s k") (simp add: in_step_def aside_set_def)
  next
    case (Some e)
    then have "\<forall>j. db_get db d1 j = db_get db d j" using assms(1) Pair by (simp add: db_laws_def)
    then show ?thesis using Some Pair assms(2) by (simp add: in_step_def aside_set_def)
  qed
qed

lemma aside_run_in_step:
  "db_laws db \<Longrightarrow> in_step db st \<Longrightarrow> in_step db (foldl (aside_exec C db ttl) st cs)"
proof (induction cs arbitrary: st)
  case Nil
  then show ?case by simp
next
  case (Cons c cs)
  have "in_step db (aside_exec C db ttl st c)"
    using Cons.prems aside_get_in_step aside_set_in_step by (cases c; cases st) auto
  with Cons show ?case by simp
qed

lemma aside_get_result:
  assumes "in_step db (s, d)"
  shows "case fst (aside_get C db ttl now1 now2 k (s, d)) of
       Inr v \<Rightarrow> db_get db d k = Inr v | Inl e \<Rightarrow> \<exists>e'. db_get db d k = Inl e'"
proof (cases "cc_get C s now1 k")
  case (Inl e)
  then show ?thesis by (simp add: aside_get_def split: sum.split)
next
  case (Inr v)
  then have "cached C s now1 k = Some v" by (simp add: cached_def)
  then have "db_get db d k = Inr v" using assms by (simp add: in_step_def coherent_def)
  with Inr show ?thesis by (simp add: aside_get_def)
qed

end

text \<open>the cache is never stale for its own clients. Whatever Gets and Sets have been made through the
  service, one after the other, with database failures in between, a Get returns the value the database
  holds at that moment, or an error when the database has none; cached or not, expired or not.\<close>

theorem cache_aside_coherent:
  assumes "db_laws db"
  shows "let st = foldl (aside_exec memory_client db ttl) (new_memory_cache, d0) cs in
    case fst (aside_get memory_client db ttl now1 now2 k st) of
      Inr v \<Rightarrow> db_get db (snd st) k = Inr v
    | Inl e \<Rightarrow> \<exists>e'. db_get db (snd st) k = Inl e'"
proof -
  have "mem.in_step db (new_memory_cache, d0)"
    by (simp add: mem.in_step_def mem.coherent_def)
  from mem.aside_run_in_step [OF assms this]
  have S: "mem.in_step db (foldl (aside_exec memory_client db ttl) (new_memory_cache, d0) cs)" .
  obtain s d where st: "foldl (aside_exec memory_client db ttl) (new_memory_cache, d0) cs = (s, d)"
    by (cases "foldl (aside_exec memory_client db ttl) (new_memory_cache, d0) cs")
  show ?thesis using mem.aside_get_result [OF S [unfolded st]] unfolding Let_def st snd_conv .
qed

text \<open>A database that is a map, whose writes of the empty key fail.\<close>

definition map_db :: "(string \<rightharpoonup> int, int, string) database" where
  "map_db = \<lparr>db_get = (\<lambda>d k. case d k of None \<Rightarrow> Inl ''no row'' | Some v \<Rightarrow> Inr v),
     db_set = (\<lambda>d k v. if k = [] then (Some ''bad key'', d) else (None, d(k \<mapsto> v)))\<rparr>"

lemma map_db_laws: "db_laws map_db"
  by (auto simp: db_laws_def map_db_def split: if_splits)

theorem cache_aside_coherent_witness:
  "fst (aside_get memory_client map_db 100 3 3 ''k''
     (foldl (aside_exec memory_client map_db 100) (new_memory_cache, [''k'' \<mapsto> 1]) [AGet 1 1 ''k'', ASet ''k'' 2])) = Inr 2"
proof -
  have "snd (foldl (aside_exec memory_client map_db 100) (new_memory_cache, [''k'' \<mapsto> 1]) [AGet 1 1 ''k'', ASet ''k'' 2])
      = [''k'' \<mapsto> 2]"
    by (simp add: aside_get_def aside_set_def new_memory_cache_def mem_get_def mem_set_def mem_delete_def map_db_def)
  then show ?thesis
    using cache_aside_coherent [OF map_db_laws, where ttl = 100 and ?d0.0 = "[''k'' \<mapsto> 1]"
        and cs = "[AGet 1 1 ''k'', ASet ''k'' 2]" and ?now1.0 = 3 and ?now2.0 = 3 and k = "''k''"]
    by (auto simp: Let_def map_db_def split: sum.splits)
qed

text \<open>The concurrent case is different: a Get that misses and reads the database before a Set, and fills
  the cache after the Set has invalidated it, leaves the old value there.\<close>

lemma stale_fill_race:
  assumes "db_get map_db d ''k'' = Inr old"
  shows "let (err, s1, d1) = aside_set memory_client map_db ''k'' new (new_memory_cache, d);
             s2 = snd (cc_set memory_client s1 5 ''k'' old 100)
         in err = None \<and> db_get map_db d1 ''k'' = Inr new \<and> cc_get memory_client s2 6 ''k'' = Inr old"
  by (simp add: aside_set_def map_db_def mem_delete_def mem_set_def mem_get_def)


section \<open>Negative caching\<close>

record 'v cache_entry =
  entry_value :: 'v
  is_not_found :: bool

record negative_cache =
  positive_ttl :: duration
  negative_ttl :: duration

definition new_negative_cache :: "duration \<Rightarrow> duration \<Rightarrow> negative_cache" where
  "new_negative_cache positiveTTL negativeTTL =
     \<lparr>positive_ttl = (if positiveTTL \<le> 0 then 600 * 1000000000 else positiveTTL),
      negative_ttl = (if negativeTTL \<le> 0 then 30 * 1000000000 else negativeTTL)\<rparr>"

datatype 'v fetch_outcome = FetchError string | FetchNotFound | FetchFound 'v

datatype neg_error = ErrNotFoundCached | NegFetchError string

text \<open>\<open>zero\<close> is Go's zero value of the cached type. The last component says whether the source was asked.\<close>

definition get_or_fetch ::
  "('s, 'v cache_entry) cache_client \<Rightarrow> negative_cache \<Rightarrow> 'v \<Rightarrow> gotime \<Rightarrow> gotime \<Rightarrow> string \<Rightarrow> 'v fetch_outcome \<Rightarrow>
    's \<Rightarrow> (neg_error + 'v) \<times> 's \<times> bool" where
  "get_or_fetch C n zero now1 now2 key outcome s =
     (case cc_get C s now1 key of
        Inr entry \<Rightarrow> if is_not_found entry then (Inl ErrNotFoundCached, s, False) else (Inr (entry_value entry), s, False)
      | Inl miss \<Rightarrow>
          (case outcome of
             FetchError e \<Rightarrow> (Inl (NegFetchError e), s, True)
           | FetchNotFound \<Rightarrow>
               (Inl ErrNotFoundCached,
                snd (cc_set C s now2 key \<lparr>entry_value = zero, is_not_found = True\<rparr> (negative_ttl n)), True)
           | FetchFound val \<Rightarrow>
               (Inr val,
                snd (cc_set C s now2 key \<lparr>entry_value = val, is_not_found = False\<rparr> (positive_ttl n)), True)))"

context cache_contract
begin

lemma cached_get: "cached C s now k = Some v \<Longrightarrow> cc_get C s now k = Inr v"
  by (simp add: cached_def split: sum.splits)

end

lemma negative_answer:
  assumes "cached memory_client s now k = Some \<lparr>entry_value = v, is_not_found = b\<rparr>"
  shows "get_or_fetch memory_client n zero now now2 k outcome s = (if b then Inl ErrNotFoundCached else Inr v, s, False)"
  using mem.cached_get [OF assms] by (simp add: get_or_fetch_def)

text \<open>Calls on the cache, with what the source would answer.\<close>

type_synonym 'v neg_call = "gotime \<times> gotime \<times> string \<times> 'v fetch_outcome"

fun neg_run ::
  "('s, 'v cache_entry) cache_client \<Rightarrow> negative_cache \<Rightarrow> 'v \<Rightarrow> 's \<Rightarrow> 'v neg_call list \<Rightarrow> ((neg_error + 'v) \<times> bool) list" where
  "neg_run C n zero s [] = []"
| "neg_run C n zero s ((now1, now2, k, out) # cs) =
     (let (r, s1, asked) = get_or_fetch C n zero now1 now2 k out s in (r, asked) # neg_run C n zero s1 cs)"

lemma neg_run_served:
  assumes "cached memory_client s t key = Some \<lparr>entry_value = v, is_not_found = b\<rparr>"
    and "\<forall>(now1, now2, k, out)\<in>set cs. k = key \<longrightarrow> now1 \<le> t"
    and "i < length cs" and "fst (snd (snd (cs ! i))) = key"
  shows "neg_run memory_client n zero s cs ! i = (if b then Inl ErrNotFoundCached else Inr v, False)"
  using assms
proof (induction cs arbitrary: s i)
  case Nil
  then show ?case by simp
next
  case (Cons c cs)
  obtain now1 now2 k out where c: "c = (now1, now2, k, out)" by (cases c) auto
  obtain r s1 asked where g: "get_or_fetch memory_client n zero now1 now2 k out s = (r, s1, asked)"
    by (cases "get_or_fetch memory_client n zero now1 now2 k out s") auto
  have early: "cached memory_client s now1 key = Some \<lparr>entry_value = v, is_not_found = b\<rparr>" if "now1 \<le> t"
    using Cons.prems(1) that by (auto simp: cached_memory split: option.splits if_splits)
  have keep: "cached memory_client s1 t key = Some \<lparr>entry_value = v, is_not_found = b\<rparr>"
  proof (cases "k = key")
    case True
    then have "now1 \<le> t" using Cons.prems(2) c by simp
    from negative_answer [OF early [OF this]] g True Cons.prems(1) show ?thesis by simp
  next
    case False
    with g Cons.prems(1) show ?thesis
      by (auto simp: get_or_fetch_def mem.get_set_other [simplified] split: sum.splits if_splits fetch_outcome.splits)
  qed
  show ?case
  proof (cases i)
    case 0
    then have k: "k = key" "now1 \<le> t" using Cons.prems(2,4) c by auto
    from negative_answer [OF early [OF k(2)]] g k 0 c show ?thesis by simp
  next
    case (Suc j)
    with Cons.IH [OF keep, of j] Cons.prems(2-4) g c show ?thesis by simp
  qed
qed

text \<open>while an answer is cached the source is left alone. After a fetch at time t that found a value (or
  found that there is none), every call for that key up to t plus the positive (negative) time to live
  gets the same answer without asking the source, whatever other keys are fetched meanwhile.\<close>

theorem negative_cache_shields_source:
  assumes "get_or_fetch memory_client n zero now1 now2 key out s = (res, s1, True)"
    and "out = FetchNotFound \<and> ttl = negative_ttl n \<or> (\<exists>v. out = FetchFound v) \<and> ttl = positive_ttl n"
    and "\<forall>(t1, t2, k, o')\<in>set cs. k = key \<longrightarrow> t1 \<le> now2 + ttl"
    and "i < length cs" and "fst (snd (snd (cs ! i))) = key"
  shows "neg_run memory_client n zero s1 cs ! i = (res, False)"
proof -
  obtain miss where miss: "cc_get memory_client s now1 key = Inl miss"
    using assms(1) by (auto simp: get_or_fetch_def split: sum.splits if_splits)
  show ?thesis
  proof (cases "out = FetchNotFound")
    case True
    then have r: "res = Inl ErrNotFoundCached" and c: "cached memory_client s1 (now2 + ttl) key
        = Some \<lparr>entry_value = zero, is_not_found = True\<rparr>"
      using assms(1,2) miss mem.get_set_same [of s now2 key _ ttl "now2 + ttl"] by (auto simp: get_or_fetch_def)
    from neg_run_served [OF c assms(3-5)] r show ?thesis by simp
  next
    case False
    then obtain v where v: "out = FetchFound v" "ttl = positive_ttl n" using assms(2) by auto
    then have r: "res = Inr v" and c: "cached memory_client s1 (now2 + ttl) key
        = Some \<lparr>entry_value = v, is_not_found = False\<rparr>"
      using assms(1) miss mem.get_set_same [of s now2 key _ ttl "now2 + ttl"] by (auto simp: get_or_fetch_def)
    from neg_run_served [OF c assms(3-5)] r show ?thesis by simp
  qed
qed

theorem negative_cache_shields_source_witness:
  "neg_run memory_client (new_negative_cache 0 100) (0 :: int)
     (fst (snd (get_or_fetch memory_client (new_negative_cache 0 100) (0 :: int) 1 2 ''k'' FetchNotFound new_memory_cache)))
     [(50, 51, ''j'', FetchFound 4), (102, 103, ''k'', FetchFound 5)] ! 1 = (Inl ErrNotFoundCached, False)"
proof -
  have "get_or_fetch memory_client (new_negative_cache 0 100) (0 :: int) 1 2 ''k'' FetchNotFound new_memory_cache
      = (Inl ErrNotFoundCached, fst (snd (get_or_fetch memory_client (new_negative_cache 0 100) (0 :: int) 1 2
          ''k'' FetchNotFound new_memory_cache)), True)"
    by (simp add: get_or_fetch_def mem_get_def new_memory_cache_def)
  then show ?thesis
    by (rule negative_cache_shields_source [where ttl = 100]) (simp_all add: new_negative_cache_def)
qed

end
