(* ===== verification/Cache_Races.thy ===== *)
theory Cache_Races
  imports Cache_Aside
begin

text \<open>
  \<open>Get\<close> and \<open>Set\<close> of the cache-aside service (\<open>patterns/14_caching/cache_aside.go\<close>) with overlapping calls. A \<open>Get\<close> is a lookup,
  after a miss a read of the database, and a fill of the cache; a \<open>Set\<close> is a write of the database and an invalidation. The steps
  of all calls interleave. The log, which no step reads, keeps what happened and who did it; a hit is logged with the time and
  with the value the database had at that moment.
\<close>

datatype 'v aside_pc = AOut | AReading string | AFilling string 'v | AInvalidating string

datatype ('e, 'v) aside_entry =
    DbRead nat string 'v
  | Filled nat string 'v gotime
  | Written nat string
  | Invalidated nat string
  | Hit nat string 'v gotime "'e + 'v"

record ('s, 'd, 'e, 'v) aside_sys =
  as_cache :: 's
  as_db :: 'd
  as_pc :: "nat \<Rightarrow> 'v aside_pc"
  as_log :: "('e, 'v) aside_entry list"

definition new_aside :: "'s \<Rightarrow> 'd \<Rightarrow> ('s, 'd, 'e, 'v) aside_sys" where
  "new_aside c d = \<lparr>as_cache = c, as_db = d, as_pc = (\<lambda>t. AOut), as_log = []\<rparr>"

datatype 'v aside_event =
    GetLookup nat string gotime
  | GetRead nat
  | GetFill nat gotime
  | SetWrite nat string 'v
  | SetInvalidate nat

definition as_goto :: "('s, 'd, 'e, 'v) aside_sys \<Rightarrow> nat \<Rightarrow> 'v aside_pc \<Rightarrow> ('e, 'v) aside_entry list \<Rightarrow> ('s, 'd, 'e, 'v) aside_sys" where
  "as_goto s t c xs = s\<lparr>as_pc := (as_pc s)(t := c), as_log := as_log s @ xs\<rparr>"

fun aside_step ::
  "('s, 'v) cache_client \<Rightarrow> ('d, 'v, 'e) database \<Rightarrow> duration \<Rightarrow> ('s, 'd, 'e, 'v) aside_sys \<Rightarrow> 'v aside_event \<Rightarrow>
    ('s, 'd, 'e, 'v) aside_sys option" where
  "aside_step C db ttl s (GetLookup t key now) =
     (case as_pc s t of
        AOut \<Rightarrow>
          (case cc_get C (as_cache s) now key of
             Inr v \<Rightarrow> Some (as_goto s t AOut [Hit t key v now (db_get db (as_db s) key)])
           | Inl miss \<Rightarrow> Some (as_goto s t (AReading key) []))
      | _ \<Rightarrow> None)"
| "aside_step C db ttl s (GetRead t) =
     (case as_pc s t of
        AReading key \<Rightarrow>
          (case db_get db (as_db s) key of
             Inl e \<Rightarrow> Some (as_goto s t AOut [])
           | Inr v \<Rightarrow> Some (as_goto s t (AFilling key v) [DbRead t key v]))
      | _ \<Rightarrow> None)"
| "aside_step C db ttl s (GetFill t now) =
     (case as_pc s t of
        AFilling key v \<Rightarrow>
          Some (as_goto (s\<lparr>as_cache := snd (cc_set C (as_cache s) now key v ttl)\<rparr>) t AOut [Filled t key v now])
      | _ \<Rightarrow> None)"
| "aside_step C db ttl s (SetWrite t key v) =
     (case as_pc s t of
        AOut \<Rightarrow>
          (case db_set db (as_db s) key v of
             (Some e, d) \<Rightarrow> Some (s\<lparr>as_db := d\<rparr>)
           | (None, d) \<Rightarrow> Some (as_goto (s\<lparr>as_db := d\<rparr>) t (AInvalidating key) [Written t key]))
      | _ \<Rightarrow> None)"
| "aside_step C db ttl s (SetInvalidate t) =
     (case as_pc s t of
        AInvalidating key \<Rightarrow>
          Some (as_goto (s\<lparr>as_cache := snd (cc_delete C (as_cache s) key)\<rparr>) t AOut [Invalidated t key])
      | _ \<Rightarrow> None)"

lemma as_simps [simp]:
  "as_cache (as_goto s t c xs) = as_cache s" "as_db (as_goto s t c xs) = as_db s"
  "as_pc (as_goto s t c xs) = (as_pc s)(t := c)" "as_log (as_goto s t c xs) = as_log s @ xs"
  by (simp_all add: as_goto_def)


section \<open>What a hit can return\<close>

definition writes :: "string \<Rightarrow> ('e, 'v) aside_entry list \<Rightarrow> bool" where
  "writes k xs \<longleftrightarrow> (\<exists>t. Written t k \<in> set xs)"

definition invalidates :: "string \<Rightarrow> ('e, 'v) aside_entry list \<Rightarrow> bool" where
  "invalidates k xs \<longleftrightarrow> (\<exists>t. Invalidated t k \<in> set xs)"

lemma writes_append [simp]: "writes k (xs @ ys) \<longleftrightarrow> writes k xs \<or> writes k ys" "\<not> writes k []"
  "writes k (x # xs) \<longleftrightarrow> (\<exists>t. x = Written t k) \<or> writes k xs"
  by (auto simp: writes_def)

lemma invalidates_append [simp]: "invalidates k (xs @ ys) \<longleftrightarrow> invalidates k xs \<or> invalidates k ys" "\<not> invalidates k []"
  "invalidates k (x # xs) \<longleftrightarrow> (\<exists>t. x = Invalidated t k) \<or> invalidates k xs"
  by (auto simp: invalidates_def)

text \<open>\<open>sourced\<close>: some \<open>Get\<close> read the value from the database and filled the cache with it at most the time to live ago, the
  key has not been invalidated since, and if it was not written since the read either, the value is \<open>cur\<close>, the database's.\<close>

definition sourced :: "duration \<Rightarrow> ('e, 'v) aside_entry list \<Rightarrow> string \<Rightarrow> 'v \<Rightarrow> gotime \<Rightarrow> 'e + 'v \<Rightarrow> bool" where
  "sourced ttl log k v now cur \<longleftrightarrow>
     (\<exists>xs ys zs u ts. log = xs @ DbRead u k v # ys @ Filled u k v ts # zs \<and> now \<le> ts + ttl
        \<and> \<not> invalidates k zs \<and> (cur = Inr v \<or> writes k (ys @ zs)))"

definition read_by :: "('e, 'v) aside_entry list \<Rightarrow> nat \<Rightarrow> string \<Rightarrow> 'v \<Rightarrow> 'e + 'v \<Rightarrow> bool" where
  "read_by log t k v cur \<longleftrightarrow> (\<exists>xs ys. log = xs @ DbRead t k v # ys \<and> (cur = Inr v \<or> writes k ys))"

lemma sourced_more:
  assumes "sourced ttl log k v now cur" and "\<not> invalidates k xs" and "cur' = cur \<or> writes k xs"
  shows "sourced ttl (log @ xs) k v now cur'"
proof -
  obtain as ys zs u ts where s: "log = as @ DbRead u k v # ys @ Filled u k v ts # zs" "now \<le> ts + ttl"
      "\<not> invalidates k zs" "cur = Inr v \<or> writes k (ys @ zs)" using assms(1) by (auto simp: sourced_def)
  have "log @ xs = as @ DbRead u k v # ys @ Filled u k v ts # (zs @ xs)" using s(1) by simp
  then show ?thesis using s(2-4) assms(2,3) unfolding sourced_def by (metis invalidates_append(1) writes_append(1))
qed

lemma read_by_more:
  assumes "read_by log t k v cur" and "cur' = cur \<or> writes k xs"
  shows "read_by (log @ xs) t k v cur'"
proof -
  obtain as ys where s: "log = as @ DbRead t k v # ys" "cur = Inr v \<or> writes k ys" using assms(1) by (auto simp: read_by_def)
  have "log @ xs = as @ DbRead t k v # (ys @ xs)" using s(1) by simp
  then show ?thesis using s(2) assms(2) unfolding read_by_def by (metis writes_append(1))
qed

lemma read_by_filled:
  assumes "read_by log t k v cur" and "now \<le> ts + ttl"
  shows "sourced ttl (log @ [Filled t k v ts]) k v now cur"
proof -
  obtain as ys where s: "log = as @ DbRead t k v # ys" "cur = Inr v \<or> writes k ys" using assms(1) by (auto simp: read_by_def)
  have "log @ [Filled t k v ts] = as @ DbRead t k v # ys @ Filled t k v ts # []" using s(1) by simp
  then show ?thesis using s(2) assms(2) unfolding sourced_def by (metis append_Nil2 invalidates_append(2))
qed

definition aside_inv :: "('s, 'v) cache_client \<Rightarrow> ('d, 'v, 'e) database \<Rightarrow> duration \<Rightarrow> ('s, 'd, 'e, 'v) aside_sys \<Rightarrow> bool" where
  "aside_inv C db ttl s \<longleftrightarrow>
     (\<forall>t k v. as_pc s t = AFilling k v \<longrightarrow> read_by (as_log s) t k v (db_get db (as_db s) k))
   \<and> (\<forall>now k v. cached C (as_cache s) now k = Some v \<longrightarrow> sourced ttl (as_log s) k v now (db_get db (as_db s) k))
   \<and> (\<forall>xs ys t k v now cur. as_log s = xs @ Hit t k v now cur # ys \<longrightarrow> sourced ttl xs k v now cur)"

lemma aside_invD:
  assumes "aside_inv C db ttl s"
  shows "as_pc s t = AFilling k v \<Longrightarrow> read_by (as_log s) t k v (db_get db (as_db s) k)"
    "cached C (as_cache s) now k = Some v \<Longrightarrow> sourced ttl (as_log s) k v now (db_get db (as_db s) k)"
    "as_log s = xs @ Hit t k v now cur # ys \<Longrightarrow> sourced ttl xs k v now cur"
  using assms unfolding aside_inv_def by blast+

lemma hit_snoc:
  assumes "aside_inv C db ttl s" and "as_log s @ [x] = xs @ Hit t k v now cur # ys"
    and "x = Hit t k v now cur \<Longrightarrow> sourced ttl (as_log s) k v now cur"
  shows "sourced ttl xs k v now cur"
proof (cases ys rule: rev_cases)
  case Nil
  then show ?thesis using assms(2,3) by simp
next
  case (snoc zs y)
  then have "as_log s = xs @ Hit t k v now cur # zs" using assms(2) by (metis append.assoc append_Cons butlast_snoc)
  then show ?thesis by (rule aside_invD(3) [OF assms(1)])
qed

context cache_contract
begin

lemma aside_inv_log:
  assumes "aside_inv C db ttl s" and "as_log s' = as_log s @ [x]" and "\<And>t k v now cur. x \<noteq> Hit t k v now cur"
    and "\<And>t k v. as_pc s' t = AFilling k v \<Longrightarrow> read_by (as_log s') t k v (db_get db (as_db s') k)"
    and "\<And>now k v. cached C (as_cache s') now k = Some v \<Longrightarrow> sourced ttl (as_log s') k v now (db_get db (as_db s') k)"
  shows "aside_inv C db ttl s'"
  unfolding aside_inv_def using assms(3-5) hit_snoc [OF assms(1)] unfolding assms(2) by blast

lemma inv_GetLookup:
  assumes "db_laws db" and "aside_inv C db ttl s" and "aside_step C db ttl s (GetLookup t key now) = Some s'"
  shows "aside_inv C db ttl s'"
proof -
  note I = aside_invD [OF assms(2)]
  show ?thesis
  proof (cases "cc_get C (as_cache s) now key")
    case (Inl miss)
    then have "s' = as_goto s t (AReading key) []" using assms(3) by (simp split: aside_pc.splits)
    then show ?thesis using assms(2) by (auto simp: aside_inv_def)
  next
    case (Inr v)
    then have s': "s' = as_goto s t AOut [Hit t key v now (db_get db (as_db s) key)]"
      using assms(3) by (simp split: aside_pc.splits)
    have "cached C (as_cache s) now key = Some v" using Inr by (simp add: cached_def)
    then have v: "sourced ttl (as_log s) key v now (db_get db (as_db s) key)" by (rule I(2))
    show ?thesis
      unfolding aside_inv_def
    proof (intro conjI allI impI)
      fix u k w
      assume "as_pc s' u = AFilling k w"
      then have "as_pc s u = AFilling k w" by (simp add: s' split: if_splits)
      from read_by_more [OF I(1) [OF this]] show "read_by (as_log s') u k w (db_get db (as_db s') k)" by (simp add: s')
    next
      fix n k w
      assume "cached C (as_cache s') n k = Some w"
      then have "cached C (as_cache s) n k = Some w" by (simp add: s')
      from sourced_more [OF I(2) [OF this], of "[Hit t key v now (db_get db (as_db s) key)]"]
      show "sourced ttl (as_log s') k w n (db_get db (as_db s') k)" by (simp add: s')
    next
      fix xs ys u k w n cur
      assume "as_log s' = xs @ Hit u k w n cur # ys"
      then have "as_log s @ [Hit t key v now (db_get db (as_db s) key)] = xs @ Hit u k w n cur # ys" by (simp add: s')
      from hit_snoc [OF assms(2) this] v show "sourced ttl xs k w n cur" by blast
    qed
  qed
qed

lemma inv_GetRead:
  assumes "db_laws db" and "aside_inv C db ttl s" and "aside_step C db ttl s (GetRead t) = Some s'"
  shows "aside_inv C db ttl s'"
proof -
  note I = aside_invD [OF assms(2)]
  obtain key where p: "as_pc s t = AReading key" using assms(3) by (auto split: aside_pc.splits)
  show ?thesis
  proof (cases "db_get db (as_db s) key")
    case (Inl err)
    then have "s' = as_goto s t AOut []" using assms(3) p by simp
    then show ?thesis using assms(2) by (auto simp: aside_inv_def)
  next
    case (Inr v)
    then have s': "s' = as_goto s t (AFilling key v) [DbRead t key v]" using assms(3) p by simp
    have new: "read_by (as_log s @ [DbRead t key v]) t key v (Inr v)" by (auto simp: read_by_def)
    show ?thesis
    proof (rule aside_inv_log [OF assms(2)])
      show "as_log s' = as_log s @ [DbRead t key v]" by (simp add: s')
      show "read_by (as_log s') u k w (db_get db (as_db s') k)" if "as_pc s' u = AFilling k w" for u k w
        using that new Inr read_by_more [OF I(1), of u k w "db_get db (as_db s) k" "[DbRead t key v]"]
        by (auto simp: s' split: if_splits)
      show "sourced ttl (as_log s') k w n (db_get db (as_db s') k)" if "cached C (as_cache s') n k = Some w" for n k w
        using sourced_more [OF I(2), of n k w "[DbRead t key v]" "db_get db (as_db s) k"] that by (simp add: s')
    qed simp
  qed
qed

lemma inv_GetFill:
  assumes "db_laws db" and "aside_inv C db ttl s" and "aside_step C db ttl s (GetFill t now) = Some s'"
  shows "aside_inv C db ttl s'"
proof -
  note I = aside_invD [OF assms(2)]
  obtain key v where p: "as_pc s t = AFilling key v" using assms(3) by (auto split: aside_pc.splits)
  then have s': "s' = as_goto (s\<lparr>as_cache := snd (cc_set C (as_cache s) now key v ttl)\<rparr>) t AOut [Filled t key v now]"
    using assms(3) by simp
  show ?thesis
  proof (rule aside_inv_log [OF assms(2)])
    show "as_log s' = as_log s @ [Filled t key v now]" by (simp add: s')
    show "read_by (as_log s') u k w (db_get db (as_db s') k)" if "as_pc s' u = AFilling k w" for u k w
      using that read_by_more [OF I(1), of u k w "db_get db (as_db s) k" "[Filled t key v now]"]
      by (auto simp: s' split: if_splits)
    show "sourced ttl (as_log s') k w n (db_get db (as_db s') k)" if c: "cached C (as_cache s') n k = Some w" for n k w
    proof (cases "k = key")
      case True
      then have "w = v" "n \<le> now + ttl" using c get_set_same [of "as_cache s" now key v ttl n] by (auto simp: s' split: if_splits)
      then show ?thesis using read_by_filled [OF I(1) [OF p], of n now ttl] True by (simp add: s')
    next
      case False
      then have "cached C (as_cache s) n k = Some w" using c get_set_other [of k key] by (simp add: s')
      from sourced_more [OF I(2) [OF this], of "[Filled t key v now]"] show ?thesis by (simp add: s')
    qed
  qed simp
qed

lemma inv_SetWrite:
  assumes "db_laws db" and "aside_inv C db ttl s" and "aside_step C db ttl s (SetWrite t key v) = Some s'"
  shows "aside_inv C db ttl s'"
proof -
  note I = aside_invD [OF assms(2)]
  obtain er d where w: "db_set db (as_db s) key v = (er, d)" by (cases "db_set db (as_db s) key v")
  show ?thesis
  proof (cases er)
    case (Some err)
    then have "\<forall>j. db_get db d j = db_get db (as_db s) j" using assms(1) w by (simp add: db_laws_def)
    moreover have "s' = s\<lparr>as_db := d\<rparr>" using assms(3) w Some by (simp split: aside_pc.splits)
    ultimately show ?thesis using assms(2) by (simp add: aside_inv_def)
  next
    case None
    then have g: "j \<noteq> key \<Longrightarrow> db_get db d j = db_get db (as_db s) j" for j using assms(1) w by (simp add: db_laws_def)
    have s': "s' = as_goto (s\<lparr>as_db := d\<rparr>) t (AInvalidating key) [Written t key]"
      using assms(3) w None by (simp split: aside_pc.splits)
    have now: "db_get db d k = db_get db (as_db s) k \<or> writes k [Written t key]" for k using g by auto
    show ?thesis
    proof (rule aside_inv_log [OF assms(2)])
      show "as_log s' = as_log s @ [Written t key]" by (simp add: s')
      show "read_by (as_log s') u k w (db_get db (as_db s') k)" if "as_pc s' u = AFilling k w" for u k w
        using that read_by_more [OF I(1) now, of u k w] by (auto simp: s' split: if_splits)
      show "sourced ttl (as_log s') k w n (db_get db (as_db s') k)" if "cached C (as_cache s') n k = Some w" for n k w
        using sourced_more [OF I(2) _ now, of n k w] that by (simp add: s')
    qed simp
  qed
qed

lemma inv_SetInvalidate:
  assumes "db_laws db" and "aside_inv C db ttl s" and "aside_step C db ttl s (SetInvalidate t) = Some s'"
  shows "aside_inv C db ttl s'"
proof -
  note I = aside_invD [OF assms(2)]
  obtain key where p: "as_pc s t = AInvalidating key" using assms(3) by (auto split: aside_pc.splits)
  then have s': "s' = as_goto (s\<lparr>as_cache := snd (cc_delete C (as_cache s) key)\<rparr>) t AOut [Invalidated t key]"
    using assms(3) by simp
  show ?thesis
  proof (rule aside_inv_log [OF assms(2)])
    show "as_log s' = as_log s @ [Invalidated t key]" by (simp add: s')
    show "read_by (as_log s') u k w (db_get db (as_db s') k)" if "as_pc s' u = AFilling k w" for u k w
      using that read_by_more [OF I(1), of u k w "db_get db (as_db s) k" "[Invalidated t key]"]
      by (auto simp: s' split: if_splits)
    show "sourced ttl (as_log s') k w n (db_get db (as_db s') k)" if c: "cached C (as_cache s') n k = Some w" for n k w
    proof -
      have "k \<noteq> key" using c get_delete_same [of "as_cache s" key n] by (auto simp: s')
      then have "cached C (as_cache s) n k = Some w" using c get_delete_other [of k key] by (simp add: s')
      from sourced_more [OF I(2) [OF this], of "[Invalidated t key]"] \<open>k \<noteq> key\<close> show ?thesis by (simp add: s')
    qed
  qed simp
qed

lemma aside_inv_step:
  assumes "db_laws db" and "aside_inv C db ttl s" and "aside_step C db ttl s e = Some s'"
  shows "aside_inv C db ttl s'"
proof (cases e)
  case (GetLookup t key now)
  then show ?thesis using inv_GetLookup [OF assms(1,2)] assms(3) by metis
next
  case (GetRead t)
  then show ?thesis using inv_GetRead [OF assms(1,2)] assms(3) by metis
next
  case (GetFill t now)
  then show ?thesis using inv_GetFill [OF assms(1,2)] assms(3) by metis
next
  case (SetWrite t key v)
  then show ?thesis using inv_SetWrite [OF assms(1,2)] assms(3) by metis
next
  case (SetInvalidate t)
  then show ?thesis using inv_SetInvalidate [OF assms(1,2)] assms(3) by metis
qed

lemma aside_inv_run:
  assumes "db_laws db" and "\<forall>now k. cached C c now k = None" and "run_events (aside_step C db ttl) (new_aside c d) es = Some s"
  shows "aside_inv C db ttl s"
proof (rule run_events_inv [OF assms(3)])
  show "aside_inv C db ttl (new_aside c d)" using assms(2) by (simp add: aside_inv_def new_aside_def)
qed (use aside_inv_step [OF assms(1)] in blast)

end

text \<open>C21: With overlapping calls a hit can be stale, but only in one way and not for long. Whatever the interleaving, a value that a
  \<open>Get\<close> finds in the cache was read from the database by a \<open>Get\<close> that filled the cache with it at most one time to live before,
  no \<open>Set\<close> of the key has invalidated it since the fill, and it is the database's current value unless the key was written after
  that read: by a \<open>Set\<close> whose invalidation has not happened yet, or had happened before the fill.\<close>

theorem bounded_staleness:
  assumes "db_laws db" and "run_events (aside_step memory_client db ttl) (new_aside new_memory_cache d) es = Some s"
    and "as_log s = before @ Hit t k v now cur # after"
  shows "\<exists>xs ys zs u ts. before = xs @ DbRead u k v # ys @ Filled u k v ts # zs \<and> now \<le> ts + ttl
    \<and> (\<forall>w. Invalidated w k \<notin> set zs) \<and> (cur = Inr v \<or> (\<exists>w. Written w k \<in> set (ys @ zs)))"
proof -
  have "aside_inv memory_client db ttl s" by (rule mem.aside_inv_run [OF assms(1) _ assms(2)]) simp
  from aside_invD(3) [OF this assms(3)] show ?thesis unfolding sourced_def invalidates_def writes_def by blast
qed

text \<open>The race: the second \<open>Get\<close> hits the old value although the \<open>Set\<close> has returned.\<close>

definition demo_race :: "int aside_event list" where
  "demo_race = [GetLookup 1 ''k'' 0, GetRead 1, SetWrite 2 ''k'' 2, SetInvalidate 2, GetFill 1 5, GetLookup 3 ''k'' 6]"

theorem bounded_staleness_witness:
  "\<exists>s. run_events (aside_step memory_client map_db 100) (new_aside new_memory_cache [''k'' \<mapsto> 1]) demo_race = Some s
     \<and> as_log s = [DbRead 1 ''k'' 1, Written 2 ''k'', Invalidated 2 ''k'', Filled 1 ''k'' 1 5] @ Hit 3 ''k'' 1 6 (Inr 2) # []
     \<and> (\<exists>xs ys zs u ts. [DbRead 1 ''k'' 1, Written 2 ''k'', Invalidated 2 ''k'', Filled 1 ''k'' 1 5]
            = (xs @ DbRead u ''k'' 1 # ys @ Filled u ''k'' 1 ts # zs :: (string, int) aside_entry list) \<and> 6 \<le> ts + 100)"
proof -
  obtain s where s: "run_events (aside_step memory_client map_db 100) (new_aside new_memory_cache [''k'' \<mapsto> 1]) demo_race = Some s"
    "as_log s = [DbRead 1 ''k'' 1, Written 2 ''k'', Invalidated 2 ''k'', Filled 1 ''k'' 1 5] @ Hit 3 ''k'' 1 6 (Inr 2) # []"
    by (simp add: demo_race_def new_aside_def mem_get_def mem_set_def mem_delete_def new_memory_cache_def map_db_def as_goto_def)
  from bounded_staleness [OF map_db_laws s] s show ?thesis by blast
qed

end
