(* ===== verification/Circuit_Breaker.thy ===== *)
theory Circuit_Breaker
  imports Go_Strings
begin

text \<open>
  \<open>patterns/08_httpclient/circuit_breaker.go\<close>. \<open>Execute\<close> has two critical sections with
  the protected call between them, so it is two operations here: \<open>begin_execute\<close> (the state
  check, which admits or refuses) and \<open>end_execute\<close> (recording the outcome). Each reading of
  the clock is an argument. Calls of many goroutines are sequences of the two kinds of events.
\<close>

datatype circuit_state = StateClosed | StateOpen | StateHalfOpen

record breaker_config =
  failure_threshold :: int
  success_threshold :: int
  cooldown_timeout :: duration

record circuit_breaker =
  config :: breaker_config
  cb_state :: circuit_state
  consecutive_fails :: int
  consecutive_success :: int
  last_state_change :: gotime

definition new_circuit_breaker :: "breaker_config \<Rightarrow> gotime \<Rightarrow> circuit_breaker" where
  "new_circuit_breaker cfg now =
     (let cfg1 = (if failure_threshold cfg \<le> 0 then cfg\<lparr>failure_threshold := 5\<rparr> else cfg);
          cfg2 = (if success_threshold cfg1 \<le> 0 then cfg1\<lparr>success_threshold := 2\<rparr> else cfg1);
          cfg3 = (if cooldown_timeout cfg2 \<le> 0 then cfg2\<lparr>cooldown_timeout := 10 * 1000000000\<rparr> else cfg2)
      in \<lparr>config = cfg3, cb_state = StateClosed, consecutive_fails = 0, consecutive_success = 0,
          last_state_change = now\<rparr>)"

text \<open>\<open>now1\<close> is what \<open>time.Since\<close> reads, \<open>now2\<close> the time stored with the change.\<close>

definition check_state_transition :: "circuit_breaker \<Rightarrow> gotime \<Rightarrow> gotime \<Rightarrow> circuit_breaker" where
  "check_state_transition cb now1 now2 =
     (if cb_state cb = StateOpen
         \<and> time_sub now1 (last_state_change cb) \<ge> cooldown_timeout (config cb)
      then cb\<lparr>cb_state := StateHalfOpen, consecutive_success := 0, consecutive_fails := 0,
              last_state_change := now2\<rparr>
      else cb)"

definition read_state :: "circuit_breaker \<Rightarrow> gotime \<Rightarrow> gotime \<Rightarrow> circuit_state \<times> circuit_breaker" where
  "read_state cb now1 now2 = (let cb1 = check_state_transition cb now1 now2 in (cb_state cb1, cb1))"

fun circuit_state_text :: "circuit_state \<Rightarrow> string" where
  "circuit_state_text StateClosed = ''CLOSED''"
| "circuit_state_text StateOpen = ''OPEN''"
| "circuit_state_text StateHalfOpen = ''HALF_OPEN''"

definition circuit_string :: "circuit_breaker \<Rightarrow> string" where
  "circuit_string cb =
     ''CircuitBreaker[state='' @ circuit_state_text (cb_state cb) @ '' fails='' @ itoa (consecutive_fails cb) @ '']''"

definition record_failure :: "circuit_breaker \<Rightarrow> gotime \<Rightarrow> circuit_breaker" where
  "record_failure cb now =
     (case cb_state cb of
        StateClosed \<Rightarrow>
          (let cb1 = cb\<lparr>consecutive_fails := i64 (consecutive_fails cb + 1)\<rparr>
           in if consecutive_fails cb1 \<ge> failure_threshold (config cb1)
              then cb1\<lparr>cb_state := StateOpen, last_state_change := now\<rparr> else cb1)
      | StateHalfOpen \<Rightarrow>
          cb\<lparr>cb_state := StateOpen, last_state_change := now, consecutive_success := 0\<rparr>
      | StateOpen \<Rightarrow> cb)"

definition record_success :: "circuit_breaker \<Rightarrow> gotime \<Rightarrow> circuit_breaker" where
  "record_success cb now =
     (case cb_state cb of
        StateHalfOpen \<Rightarrow>
          (let cb1 = cb\<lparr>consecutive_success := i64 (consecutive_success cb + 1)\<rparr>
           in if consecutive_success cb1 \<ge> success_threshold (config cb1)
              then cb1\<lparr>cb_state := StateClosed, consecutive_fails := 0, consecutive_success := 0,
                       last_state_change := now\<rparr> else cb1)
      | StateClosed \<Rightarrow> cb\<lparr>consecutive_fails := 0\<rparr>
      | StateOpen \<Rightarrow> cb)"

definition begin_execute :: "circuit_breaker \<Rightarrow> gotime \<Rightarrow> gotime \<Rightarrow> bool \<times> circuit_breaker" where
  "begin_execute cb now1 now2 =
     (let cb1 = check_state_transition cb now1 now2 in (cb_state cb1 \<noteq> StateOpen, cb1))"

definition end_execute :: "circuit_breaker \<Rightarrow> bool \<Rightarrow> gotime \<Rightarrow> circuit_breaker" where
  "end_execute cb failed now = (if failed then record_failure cb now else record_success cb now)"

text \<open>\<open>Execute\<close> of a goroutine that runs alone: \<open>None\<close> is \<open>ErrCircuitOpen\<close> (the
  call was not made), \<open>Some failed\<close> the outcome of the call.\<close>

record exec_times =
  t_since :: gotime
  t_half :: gotime
  t_end :: gotime

definition execute :: "circuit_breaker \<Rightarrow> exec_times \<Rightarrow> bool \<Rightarrow> bool option \<times> circuit_breaker" where
  "execute cb ts failed =
     (let (admitted, cb1) = begin_execute cb (t_since ts) (t_half ts)
      in if \<not> admitted then (None, cb1) else (Some failed, end_execute cb1 failed (t_end ts)))"

fun execute_all :: "circuit_breaker \<Rightarrow> (exec_times \<times> bool) list \<Rightarrow> bool option list \<times> circuit_breaker" where
  "execute_all cb [] = ([], cb)"
| "execute_all cb ((ts, f) # cs) =
     (let (r, cb1) = execute cb ts f; (rs, cb2) = execute_all cb1 cs in (r # rs, cb2))"

datatype breaker_event = Begin gotime gotime | End bool gotime | Inspect gotime gotime

primrec breaker_step :: "circuit_breaker \<Rightarrow> breaker_event \<Rightarrow> circuit_breaker" where
  "breaker_step cb (Begin now1 now2) = snd (begin_execute cb now1 now2)"
| "breaker_step cb (End failed now) = end_execute cb failed now"
| "breaker_step cb (Inspect now1 now2) = snd (read_state cb now1 now2)"

lemma config_step [simp]: "config (breaker_step cb e) = config cb"
  by (cases e) (auto simp: begin_execute_def end_execute_def read_state_def check_state_transition_def
      record_failure_def record_success_def Let_def split: circuit_state.split)


section \<open>The state machine\<close>

definition thresholds_ok :: "breaker_config \<Rightarrow> bool" where
  "thresholds_ok cfg \<longleftrightarrow> 0 < failure_threshold cfg \<and> in64 (failure_threshold cfg)
     \<and> 0 < success_threshold cfg \<and> in64 (success_threshold cfg)"

definition breaker_inv :: "circuit_breaker \<Rightarrow> bool" where
  "breaker_inv cb \<longleftrightarrow> thresholds_ok (config cb)
     \<and> 0 \<le> consecutive_fails cb \<and> 0 \<le> consecutive_success cb
     \<and> (cb_state cb = StateClosed \<longrightarrow> consecutive_fails cb < failure_threshold (config cb))
     \<and> (cb_state cb = StateHalfOpen \<longrightarrow> consecutive_success cb < success_threshold (config cb))"

lemma in64_succ: "in64 n \<Longrightarrow> 0 \<le> x \<Longrightarrow> x < n \<Longrightarrow> i64 (x + 1) = x + 1"
  by (rule i64_id) (simp add: in64_def)

lemma breaker_inv_new:
  "in64 (failure_threshold cfg) \<Longrightarrow> in64 (success_threshold cfg) \<Longrightarrow> breaker_inv (new_circuit_breaker cfg now)"
  by (simp add: breaker_inv_def new_circuit_breaker_def thresholds_ok_def Let_def in64_def)

lemma breaker_inv_check: "breaker_inv cb \<Longrightarrow> breaker_inv (check_state_transition cb now1 now2)"
  by (auto simp: breaker_inv_def check_state_transition_def thresholds_ok_def)

lemma breaker_inv_end: "breaker_inv cb \<Longrightarrow> breaker_inv (end_execute cb failed now)"
  by (auto simp: breaker_inv_def end_execute_def record_failure_def record_success_def thresholds_ok_def
      Let_def in64_succ split: circuit_state.split)

lemma breaker_inv_step [go_inv]: "breaker_inv cb \<Longrightarrow> breaker_inv (breaker_step cb e)"
  by (cases e) (simp_all add: breaker_inv_check breaker_inv_end begin_execute_def read_state_def Let_def)

text \<open>How far the breaker is on its way back: the successes that a breaker which is not closed has
  collected, capped by what it needs.\<close>

definition progress :: "circuit_breaker \<Rightarrow> int" where
  "progress cb = (case cb_state cb of
     StateClosed \<Rightarrow> success_threshold (config cb)
   | StateHalfOpen \<Rightarrow> consecutive_success cb
   | StateOpen \<Rightarrow> 0)"

definition succeeded :: "breaker_event \<Rightarrow> bool" where
  "succeeded e \<longleftrightarrow> (\<exists>now. e = End False now)"

lemma progress_step:
  assumes "breaker_inv cb" and "cb_state cb \<noteq> StateClosed"
  shows "progress (breaker_step cb e) \<le> progress cb + (if succeeded e then 1 else 0)"
  using assms
  by (cases e) (auto simp: progress_def succeeded_def begin_execute_def end_execute_def read_state_def
      check_state_transition_def record_failure_def record_success_def breaker_inv_def thresholds_ok_def
      in64_succ Let_def split: circuit_state.split)

text \<open>The events before the breaker is closed again.\<close>

fun until_closed :: "circuit_breaker \<Rightarrow> breaker_event list \<Rightarrow> breaker_event list" where
  "until_closed cb [] = []"
| "until_closed cb (e # es) = (if cb_state cb = StateClosed then [] else e # until_closed (breaker_step cb e) es)"

lemma recovery_count:
  assumes "breaker_inv cb" and "cb_state (foldl breaker_step cb (until_closed cb es)) = StateClosed"
  shows "success_threshold (config cb) \<le> progress cb + int (length (filter succeeded (until_closed cb es)))"
  using assms
proof (induction es arbitrary: cb)
  case Nil
  then show ?case by (simp add: progress_def)
next
  case (Cons e es)
  show ?case
  proof (cases "cb_state cb = StateClosed")
    case True
    then show ?thesis by (simp add: progress_def)
  next
    case False
    have "success_threshold (config cb)
        \<le> progress (breaker_step cb e) + int (length (filter succeeded (until_closed (breaker_step cb e) es)))"
      using Cons.IH [OF breaker_inv_step [OF Cons.prems(1)]] Cons.prems(2) False by simp
    with progress_step [OF Cons.prems(1) False, of e] False show ?thesis by (auto split: if_splits)
  qed
qed

text \<open>C11: an open breaker closes only after SuccessThreshold successful calls. Whatever the interleaving of
  the calls' beginnings and ends, those started before it opened included, the events up to the first
  return to CLOSED contain at least that many successes.\<close>

theorem recovery_needs_successes:
  assumes "in64 (failure_threshold cfg)" and "in64 (success_threshold cfg)"
    and "cb_state (foldl breaker_step (new_circuit_breaker cfg now) es) = StateOpen"
  shows "let cb = foldl breaker_step (new_circuit_breaker cfg now) es; ds = until_closed cb fs in
    cb_state (foldl breaker_step cb ds) = StateClosed \<longrightarrow>
      success_threshold (config cb) \<le> int (length (filter succeeded ds))"
proof -
  let ?cb = "foldl breaker_step (new_circuit_breaker cfg now) es"
  have "breaker_inv ?cb"
    by (rule foldl_inv) (simp_all add: breaker_inv_new assms breaker_inv_step)
  from recovery_count [OF this, of fs] assms(3) show ?thesis by (simp add: progress_def Let_def)
qed

definition demo_breaker :: breaker_config where
  "demo_breaker = \<lparr>failure_threshold = 1, success_threshold = 2, cooldown_timeout = 100\<rparr>"

definition tripped_breaker :: circuit_breaker where
  "tripped_breaker = foldl breaker_step (new_circuit_breaker demo_breaker 0) [Begin 1 1, End True 2]"

definition recovery_events :: "breaker_event list" where
  "recovery_events = [Begin 200 200, End False 201, Begin 202 202, End False 203, Begin 204 204]"

lemma tripped_breaker_eq:
  "tripped_breaker = \<lparr>config = demo_breaker, cb_state = StateOpen, consecutive_fails = 1,
     consecutive_success = 0, last_state_change = 2\<rparr>"
  by (simp add: tripped_breaker_def demo_breaker_def new_circuit_breaker_def begin_execute_def
      end_execute_def check_state_transition_def record_failure_def i64_def)

lemmas breaker_eval = begin_execute_def end_execute_def check_state_transition_def record_failure_def
  record_success_def i64_def time_sub_def demo_breaker_def

lemma recovery_events_until:
  "until_closed tripped_breaker recovery_events = [Begin 200 200, End False 201, Begin 202 202, End False 203]"
  by (simp add: tripped_breaker_eq recovery_events_def breaker_eval)

lemma recovery_events_close:
  "cb_state (foldl breaker_step tripped_breaker (until_closed tripped_breaker recovery_events)) = StateClosed"
  unfolding recovery_events_until by (simp add: tripped_breaker_eq breaker_eval)

theorem recovery_needs_successes_witness:
  "success_threshold (config tripped_breaker)
     \<le> int (length (filter succeeded (until_closed tripped_breaker recovery_events)))"
proof -
  have "cb_state tripped_breaker = StateOpen" by (simp add: tripped_breaker_eq)
  then show ?thesis
    using recovery_needs_successes [of demo_breaker 0 "[Begin 1 1, End True 2]" recovery_events]
      recovery_events_close
    unfolding tripped_breaker_def Let_def by (simp add: demo_breaker_def in64_def del: foldl_Cons)
qed

text \<open>an open circuit fails fast. Until the cooldown has elapsed every call is refused, the protected
  function is not run, and the breaker does not change.\<close>

theorem open_circuit_rejects:
  assumes "cb_state cb = StateOpen"
    and "\<forall>(ts, f) \<in> set cs. t_since ts - last_state_change cb < cooldown_timeout (config cb)"
    and "in64 (cooldown_timeout (config cb))" and "0 < cooldown_timeout (config cb)"
  shows "execute_all cb cs = (map (\<lambda>c. None) cs, cb)"
  using assms(2)
proof (induction cs)
  case Nil
  then show ?case by simp
next
  case (Cons c cs)
  obtain ts f where c: "c = (ts, f)" by (cases c)
  have "\<not> cooldown_timeout (config cb) \<le> time_sub (t_since ts) (last_state_change cb)"
    using Cons.prems c assms(3,4) time_sub_ge [of "cooldown_timeout (config cb)"] by (auto simp: in64_def)
  then have "execute cb ts f = (None, cb)"
    using assms(1) by (simp add: execute_def begin_execute_def check_state_transition_def)
  with Cons c show ?case by simp
qed

theorem open_circuit_rejects_witness:
  "execute_all (new_circuit_breaker demo_breaker 0\<lparr>cb_state := StateOpen\<rparr>)
     [(\<lparr>t_since = 99, t_half = 99, t_end = 99\<rparr>, False)] =
   ([None], new_circuit_breaker demo_breaker 0\<lparr>cb_state := StateOpen\<rparr>)"
  using open_circuit_rejects [of "new_circuit_breaker demo_breaker 0\<lparr>cb_state := StateOpen\<rparr>"
      "[(\<lparr>t_since = 99, t_half = 99, t_end = 99\<rparr>, False)]"]
  by (simp add: demo_breaker_def new_circuit_breaker_def Let_def in64_def)


section \<open>When the circuit opens\<close>

lemma execute_closed_ok:
  "cb_state cb = StateClosed \<Longrightarrow> execute cb ts False = (Some False, cb\<lparr>consecutive_fails := 0\<rparr>)"
  by (simp add: execute_def begin_execute_def check_state_transition_def end_execute_def record_success_def
      Let_def)

lemma execute_closed_failed:
  assumes "breaker_inv cb" and "cb_state cb = StateClosed"
  shows "execute cb ts True = (Some True,
      let cb1 = cb\<lparr>consecutive_fails := consecutive_fails cb + 1\<rparr>
      in if consecutive_fails cb + 1 \<ge> failure_threshold (config cb)
         then cb1\<lparr>cb_state := StateOpen, last_state_change := t_end ts\<rparr> else cb1)"
proof -
  have "i64 (consecutive_fails cb + 1) = consecutive_fails cb + 1"
    using assms in64_succ [of "failure_threshold (config cb)"] by (simp add: breaker_inv_def thresholds_ok_def)
  then show ?thesis using assms(2)
    by (simp add: execute_def begin_execute_def check_state_transition_def end_execute_def
        record_failure_def Let_def)
qed

text \<open>Whether \<open>n\<close> consecutive failures occur in a list of outcomes, \<open>k\<close> having just occurred.\<close>

fun trips :: "nat \<Rightarrow> nat \<Rightarrow> bool list \<Rightarrow> bool" where
  "trips n k [] \<longleftrightarrow> False"
| "trips n k (failed # rs) \<longleftrightarrow>
     (if failed then Suc k \<ge> n \<or> trips n (Suc k) rs else trips n 0 rs)"

lemma replicate_Suc_split:
  "k < n \<Longrightarrow> (\<exists>pre post. replicate k True @ xs = pre @ replicate n True @ post)
     \<Longrightarrow> xs \<noteq> []"
proof (rule notI)
  assume k: "k < n" and ex: "\<exists>pre post. replicate k True @ xs = pre @ replicate n True @ post" and "xs = []"
  then obtain pre post where "replicate k True = pre @ replicate n True @ post" by auto
  then have "length (replicate k True) = length (pre @ replicate n True @ post)" by metis
  with k show False by simp
qed

lemma trips_iff:
  "k < n \<Longrightarrow> trips n k rs \<longleftrightarrow> (\<exists>pre post. replicate k True @ rs = pre @ replicate n True @ post)"
proof (induction rs arbitrary: k)
  case Nil
  then show ?case using replicate_Suc_split [of k n "[]"] by auto
next
  case (Cons f rs)
  show ?case
  proof (cases f)
    case True
    have eq: "replicate k True @ f # rs = replicate (Suc k) True @ rs"
      using True by (simp add: replicate_append_same [symmetric])
    show ?thesis
    proof (cases "Suc k = n")
      case True
      then have "replicate k True @ f # rs = [] @ replicate n True @ rs" by (simp add: eq)
      then show ?thesis using True \<open>f\<close> by (metis trips.simps(2) order_refl)
    next
      case False
      with Cons have "trips n (Suc k) rs \<longleftrightarrow> (\<exists>pre post. replicate (Suc k) True @ rs = pre @ replicate n True @ post)"
        by simp
      with False Cons.prems \<open>f\<close> show ?thesis unfolding eq by simp
    qed
  next
    case False
    have "(\<exists>pre post. replicate k True @ False # rs = pre @ replicate n True @ post)
        \<longleftrightarrow> (\<exists>pre post. rs = pre @ replicate n True @ post)"
    proof
      assume "\<exists>pre post. replicate k True @ False # rs = pre @ replicate n True @ post"
      then obtain pre post where e: "replicate k True @ False # rs = pre @ replicate n True @ post" by blast
      have "k < length pre"
      proof (rule ccontr)
        assume "\<not> k < length pre"
        then have le: "length pre \<le> k" by simp
        have "(replicate k True @ False # rs) ! k = False" by (simp add: nth_append)
        moreover have "(pre @ replicate n True @ post) ! k = True"
          using le Cons.prems by (simp add: nth_append less_imp_diff_less)
        ultimately show False by (simp add: e)
      qed
      then have "drop (Suc k) (replicate k True @ False # rs) = drop (Suc k) pre @ replicate n True @ post"
        unfolding e by simp
      then show "\<exists>pre post. rs = pre @ replicate n True @ post" by auto
    next
      assume "\<exists>pre post. rs = pre @ replicate n True @ post"
      then obtain pre post where "rs = pre @ replicate n True @ post" by blast
      then have "replicate k True @ False # rs = (replicate k True @ False # pre) @ replicate n True @ post"
        by simp
      then show "\<exists>pre post. replicate k True @ False # rs = pre @ replicate n True @ post" by blast
    qed
    with Cons.IH [of 0] Cons.prems False show ?thesis by simp
  qed
qed

text \<open>The calls made one after the other, up to the first one that the breaker refuses or that opens it.\<close>

lemma closed_while_no_trip:
  "breaker_inv cb \<Longrightarrow> cb_state cb = StateClosed \<Longrightarrow>
    (\<exists>i \<le> length cs. cb_state (snd (execute_all cb (take i cs))) = StateOpen)
      \<longleftrightarrow> trips (nat (failure_threshold (config cb))) (nat (consecutive_fails cb)) (map snd cs)"
proof (induction cs arbitrary: cb)
  case Nil
  then show ?case by simp
next
  case (Cons c cs)
  obtain ts f where c: "c = (ts, f)" by (cases c)
  define cb1 where "cb1 = snd (execute cb ts f)"
  have step: "(\<exists>i \<le> length (c # cs). cb_state (snd (execute_all cb (take i (c # cs)))) = StateOpen)
      \<longleftrightarrow> (\<exists>i \<le> length cs. cb_state (snd (execute_all cb1 (take i cs))) = StateOpen)"
  proof
    assume "\<exists>i \<le> length (c # cs). cb_state (snd (execute_all cb (take i (c # cs)))) = StateOpen"
    then obtain i where i: "i \<le> length (c # cs)" "cb_state (snd (execute_all cb (take i (c # cs)))) = StateOpen"
      by blast
    with Cons.prems(2) obtain j where "i = Suc j" by (cases i) auto
    with i show "\<exists>i \<le> length cs. cb_state (snd (execute_all cb1 (take i cs))) = StateOpen"
      by (auto simp: c cb1_def split: prod.splits)
  next
    assume "\<exists>i \<le> length cs. cb_state (snd (execute_all cb1 (take i cs))) = StateOpen"
    then obtain i where "i \<le> length cs" "cb_state (snd (execute_all cb1 (take i cs))) = StateOpen" by blast
    then have "Suc i \<le> length (c # cs)" "cb_state (snd (execute_all cb (take (Suc i) (c # cs)))) = StateOpen"
      by (auto simp: c cb1_def split: prod.splits)
    then show "\<exists>i \<le> length (c # cs). cb_state (snd (execute_all cb (take i (c # cs)))) = StateOpen" by blast
  qed
  have pos: "0 < failure_threshold (config cb)" "0 \<le> consecutive_fails cb"
      "consecutive_fails cb < failure_threshold (config cb)"
    using Cons.prems by (simp_all add: breaker_inv_def thresholds_ok_def)
  show ?case
  proof (cases f)
    case False
    then have cb1: "cb1 = cb\<lparr>consecutive_fails := 0\<rparr>" using execute_closed_ok Cons.prems by (simp add: cb1_def)
    have "breaker_inv cb1" "cb_state cb1 = StateClosed" using Cons.prems pos by (simp_all add: cb1 breaker_inv_def)
    from Cons.IH [OF this] show ?thesis unfolding step by (simp add: c False cb1)
  next
    case True
    show ?thesis
    proof (cases "consecutive_fails cb + 1 \<ge> failure_threshold (config cb)")
      case opens: True
      then have "cb_state cb1 = StateOpen"
        using execute_closed_failed [OF Cons.prems] True by (simp add: cb1_def Let_def)
      then have "cb_state (snd (execute_all cb1 (take 0 cs))) = StateOpen" by simp
      moreover have "trips (nat (failure_threshold (config cb))) (nat (consecutive_fails cb)) (map snd (c # cs))"
        using opens True pos by (simp add: c) arith
      ultimately show ?thesis unfolding step by blast
    next
      case stays: False
      then have cb1: "cb1 = cb\<lparr>consecutive_fails := consecutive_fails cb + 1\<rparr>"
        using execute_closed_failed [OF Cons.prems] True by (simp add: cb1_def Let_def)
      have "breaker_inv cb1" "cb_state cb1 = StateClosed"
        using Cons.prems pos stays by (simp_all add: cb1 breaker_inv_def)
      moreover have "\<not> nat (failure_threshold (config cb)) \<le> Suc (nat (consecutive_fails cb))"
        using stays pos by arith
      ultimately show ?thesis
        using Cons.IH [of cb1] pos True unfolding step by (simp add: c cb1 nat_add_distrib)
    qed
  qed
qed

text \<open>C12: the circuit opens exactly on FailureThreshold consecutive failures. For calls made one after the
  other from a new breaker, some point of the run is OPEN if and only if the outcomes contain that many
  failures in a row; successes in between reset the count.\<close>

theorem opens_iff_consecutive_failures:
  assumes "0 < failure_threshold cfg" and "in64 (failure_threshold cfg)" and "in64 (success_threshold cfg)"
  shows "(\<exists>i \<le> length cs. cb_state (snd (execute_all (new_circuit_breaker cfg now) (take i cs))) = StateOpen)
    \<longleftrightarrow> (\<exists>pre post. map snd cs = pre @ replicate (nat (failure_threshold cfg)) True @ post)"
proof -
  have n: "consecutive_fails (new_circuit_breaker cfg now) = 0"
      "cb_state (new_circuit_breaker cfg now) = StateClosed"
      "failure_threshold (config (new_circuit_breaker cfg now)) = failure_threshold cfg"
    using assms(1) by (simp_all add: new_circuit_breaker_def Let_def)
  show ?thesis
    using closed_while_no_trip [OF breaker_inv_new [OF assms(2,3)] n(2), of cs]
      trips_iff [of 0 "nat (failure_threshold cfg)" "map snd cs"] assms(1)
    by (simp add: n)
qed

theorem opens_iff_consecutive_failures_witness:
  "\<exists>i \<le> 1. cb_state (snd (execute_all (new_circuit_breaker demo_breaker 0)
     (take i [(\<lparr>t_since = 1, t_half = 1, t_end = 1\<rparr>, True)]))) = StateOpen"
proof -
  have "map snd [(\<lparr>t_since = 1, t_half = 1, t_end = 1\<rparr>, True)]
      = [] @ replicate (nat (failure_threshold demo_breaker)) True @ []"
    by (simp add: demo_breaker_def)
  then show ?thesis
    using opens_iff_consecutive_failures [of demo_breaker "[(\<lparr>t_since = 1, t_half = 1, t_end = 1\<rparr>, True)]" 0]
    by (auto simp: demo_breaker_def in64_def)
qed

end
