(* ===== verification/Config_Snapshots.thy ===== *)
theory Config_Snapshots
  imports Go_Strings
begin

text \<open>
  \<open>patterns/02_config/immutable_config.go\<close> and \<open>patterns/03_di/functional_options.go\<close>. Slices and maps
  are objects of an explicit heap, so that writing through a reference one still holds is expressible; the
  immutable configuration copies on the way in and on the way out, and its clients are given as arbitrary
  sequences of allocations, writes through known references and calls of its methods.
\<close>

section \<open>A heap of slices and maps\<close>

record go_heap =
  slices :: "nat \<Rightarrow> string list"
  maps :: "nat \<Rightarrow> string \<rightharpoonup> bool"
  next_ref :: nat

definition alloc_slice :: "go_heap \<Rightarrow> string list \<Rightarrow> nat \<times> go_heap" where
  "alloc_slice h xs = (next_ref h, h\<lparr>slices := (slices h)(next_ref h := xs), next_ref := Suc (next_ref h)\<rparr>)"

definition alloc_map :: "go_heap \<Rightarrow> (string \<rightharpoonup> bool) \<Rightarrow> nat \<times> go_heap" where
  "alloc_map h m = (next_ref h, h\<lparr>maps := (maps h)(next_ref h := m), next_ref := Suc (next_ref h)\<rparr>)"


section \<open>The immutable configuration\<close>

record app_settings =
  st_environment :: string
  st_port :: int
  st_features :: nat
  st_endpoints :: nat
  st_timeout :: duration

record immutable_config =
  ic_env :: string
  ic_port :: int
  ic_features :: nat
  ic_endpoints :: nat
  ic_timeout :: duration

definition new_immutable_config :: "go_heap \<Rightarrow> app_settings \<Rightarrow> immutable_config \<times> go_heap" where
  "new_immutable_config h s =
     (let (featCopy, h1) = alloc_map h (maps h (st_features s));
          (epCopy, h2) = alloc_slice h1 (slices h1 (st_endpoints s))
      in (\<lparr>ic_env = st_environment s, ic_port = st_port s, ic_features = featCopy, ic_endpoints = epCopy,
           ic_timeout = st_timeout s\<rparr>, h2))"

definition feature_enabled :: "go_heap \<Rightarrow> immutable_config \<Rightarrow> string \<Rightarrow> bool" where
  "feature_enabled h c name = (case maps h (ic_features c) name of None \<Rightarrow> False | Some b \<Rightarrow> b)"

definition get_endpoints :: "go_heap \<Rightarrow> immutable_config \<Rightarrow> nat \<times> go_heap" where
  "get_endpoints h c = alloc_slice h (slices h (ic_endpoints c))"

text \<open>The holder's atomic pointer.\<close>

record config_holder =
  current_config :: immutable_config

definition new_config_holder :: "immutable_config \<Rightarrow> config_holder" where
  "new_config_holder initial = \<lparr>current_config = initial\<rparr>"

definition get_config :: "config_holder \<Rightarrow> immutable_config" where
  "get_config h = current_config h"

definition swap_config :: "config_holder \<Rightarrow> immutable_config \<Rightarrow> config_holder" where
  "swap_config h c = h\<lparr>current_config := c\<rparr>"

text \<open>Clients: they know some references, allocate more, write through those they know, and call the methods of
  the configuration, which may hand them new ones.\<close>

datatype client_op = NewSlice "string list" | NewMap "string \<rightharpoonup> bool" | WriteSlice nat "string list"
  | WriteMap nat "string \<rightharpoonup> bool" | CallEndpoints | BuildConfig app_settings

fun client_step :: "immutable_config \<Rightarrow> go_heap \<times> nat set \<Rightarrow> client_op \<Rightarrow> go_heap \<times> nat set" where
  "client_step c (h, known) (NewSlice xs) = (let (a, h1) = alloc_slice h xs in (h1, insert a known))"
| "client_step c (h, known) (NewMap m) = (let (a, h1) = alloc_map h m in (h1, insert a known))"
| "client_step c (h, known) (WriteSlice a xs) = (if a \<in> known then (h\<lparr>slices := (slices h)(a := xs)\<rparr>, known) else (h, known))"
| "client_step c (h, known) (WriteMap a m) = (if a \<in> known then (h\<lparr>maps := (maps h)(a := m)\<rparr>, known) else (h, known))"
| "client_step c (h, known) CallEndpoints = (let (a, h1) = get_endpoints h c in (h1, insert a known))"
| "client_step c (h, known) (BuildConfig s) = (snd (new_immutable_config h s), known)"

definition private_to :: "immutable_config \<Rightarrow> go_heap \<times> nat set \<Rightarrow> bool" where
  "private_to c hk \<longleftrightarrow> ic_features c \<notin> snd hk \<and> ic_endpoints c \<notin> snd hk
     \<and> ic_features c < next_ref (fst hk) \<and> ic_endpoints c < next_ref (fst hk)"

lemma client_step_private:
  assumes "private_to c hk"
  shows "private_to c (client_step c hk p)
    \<and> maps (fst (client_step c hk p)) (ic_features c) = maps (fst hk) (ic_features c)
    \<and> slices (fst (client_step c hk p)) (ic_endpoints c) = slices (fst hk) (ic_endpoints c)"
  using assms
  by (cases hk; cases p)
    (auto simp: private_to_def alloc_slice_def alloc_map_def get_endpoints_def new_immutable_config_def Let_def)

lemma clients_private:
  "private_to c hk \<Longrightarrow>
    private_to c (foldl (client_step c) hk ops)
    \<and> maps (fst (foldl (client_step c) hk ops)) (ic_features c) = maps (fst hk) (ic_features c)
    \<and> slices (fst (foldl (client_step c) hk ops)) (ic_endpoints c) = slices (fst hk) (ic_endpoints c)"
proof (induction ops arbitrary: hk)
  case Nil
  then show ?case by simp
next
  case (Cons p ops)
  show ?case using Cons.IH [of "client_step c hk p"] client_step_private [OF Cons.prems, of p] by simp
qed

text \<open>an immutable configuration never changes. Built from settings whose slices and maps the caller keeps
  references to, it answers, after any sequence of allocations, writes through any reference a client ever
  had or was given (the original settings and the slices returned by \<open>Endpoints\<close> included), exactly what the
  settings said when it was built.\<close>

theorem config_immutable:
  assumes "new_immutable_config h s = (c, h1)" and "\<forall>a \<in> known. a < next_ref h"
    and "st_features s < next_ref h" and "st_endpoints s < next_ref h"
    and "foldl (client_step c) (h1, known) ops = (h2, known2)"
  shows "feature_enabled h2 c name = (case maps h (st_features s) name of None \<Rightarrow> False | Some b \<Rightarrow> b)
    \<and> slices (snd (get_endpoints h2 c)) (fst (get_endpoints h2 c)) = slices h (st_endpoints s)
    \<and> ic_env c = st_environment s \<and> ic_port c = st_port s \<and> ic_timeout c = st_timeout s"
proof -
  have c: "ic_features c = next_ref h" "ic_endpoints c = Suc (next_ref h)" "next_ref h1 = Suc (Suc (next_ref h))"
    "maps h1 (next_ref h) = maps h (st_features s)" "slices h1 (Suc (next_ref h)) = slices h (st_endpoints s)"
    "ic_env c = st_environment s" "ic_port c = st_port s" "ic_timeout c = st_timeout s"
    using assms(1) by (auto simp: new_immutable_config_def alloc_map_def alloc_slice_def Let_def)
  have "private_to c (h1, known)" using assms(2) c(1-3) by (auto simp: private_to_def)
  from clients_private [OF this, of ops] have
    "maps h2 (ic_features c) = maps h (st_features s)" "slices h2 (ic_endpoints c) = slices h (st_endpoints s)"
    using assms(5) c by simp_all
  then show ?thesis by (simp add: feature_enabled_def get_endpoints_def alloc_slice_def c)
qed

definition demo_heap :: go_heap where
  "demo_heap = \<lparr>slices = (\<lambda>a. [''http://a'']), maps = (\<lambda>a. [''beta'' \<mapsto> True]), next_ref = 2\<rparr>"

definition demo_settings :: app_settings where
  "demo_settings = \<lparr>st_environment = ''prod'', st_port = 80, st_features = 0, st_endpoints = 1, st_timeout = 5\<rparr>"

theorem config_immutable_witness:
  "\<exists>c h1 h2 known. new_immutable_config demo_heap demo_settings = (c, h1)
     \<and> foldl (client_step c) (h1, {0, 1}) [WriteMap 0 Map.empty, CallEndpoints, WriteSlice 4 [''evil'']] = (h2, known)
     \<and> feature_enabled h2 c ''beta'' \<and> slices (snd (get_endpoints h2 c)) (fst (get_endpoints h2 c)) = [''http://a'']"
proof -
  let ?ops = "[WriteMap 0 Map.empty, CallEndpoints, WriteSlice 4 [''evil'']]"
  obtain c h1 where c: "new_immutable_config demo_heap demo_settings = (c, h1)" by (rule prod.exhaust)
  obtain h2 known where h: "foldl (client_step c) (h1, {0, 1}) ?ops = (h2, known)" by (rule prod.exhaust)
  have "\<forall>a \<in> {0, 1}. a < next_ref demo_heap" "st_features demo_settings < next_ref demo_heap"
    "st_endpoints demo_settings < next_ref demo_heap" by (simp_all add: demo_heap_def demo_settings_def)
  from config_immutable [OF c this h, of "''beta''"]
  have "feature_enabled h2 c ''beta''" "slices (snd (get_endpoints h2 c)) (fst (get_endpoints h2 c)) = [''http://a'']"
    by (simp_all add: demo_heap_def demo_settings_def)
  with c h show ?thesis by blast
qed


section \<open>Functional options\<close>

record client =
  cl_base_url :: string
  cl_timeout :: duration
  cl_max_retries :: int
  cl_user_agent :: string
  cl_max_idle :: int

datatype option_error = BaseURLEmpty | TimeoutNotPositive | RetriesNegative | UserAgentEmpty | IdleNotPositive

type_synonym client_option = "client \<Rightarrow> option_error + client"

definition with_timeout :: "duration \<Rightarrow> client_option" where
  "with_timeout d c = (if d \<le> 0 then Inl TimeoutNotPositive else Inr (c\<lparr>cl_timeout := d\<rparr>))"

definition with_max_retries :: "int \<Rightarrow> client_option" where
  "with_max_retries n c = (if n < 0 then Inl RetriesNegative else Inr (c\<lparr>cl_max_retries := n\<rparr>))"

definition with_user_agent :: "string \<Rightarrow> client_option" where
  "with_user_agent ua c = (if ua = [] then Inl UserAgentEmpty else Inr (c\<lparr>cl_user_agent := ua\<rparr>))"

definition with_max_idle_conns :: "int \<Rightarrow> client_option" where
  "with_max_idle_conns n c = (if n \<le> 0 then Inl IdleNotPositive else Inr (c\<lparr>cl_max_idle := n\<rparr>))"

fun apply_options :: "client_option list \<Rightarrow> client \<Rightarrow> option_error + client" where
  "apply_options [] c = Inr c"
| "apply_options (opt # opts) c = (case opt c of Inl e \<Rightarrow> Inl e | Inr c1 \<Rightarrow> apply_options opts c1)"

definition new_client :: "string \<Rightarrow> client_option list \<Rightarrow> option_error + client" where
  "new_client baseURL opts =
     (if baseURL = [] then Inl BaseURLEmpty
      else apply_options opts \<lparr>cl_base_url = baseURL, cl_timeout = 5000000000, cl_max_retries = 3,
                               cl_user_agent = ''MyService-GoClient/1.0'', cl_max_idle = 100\<rparr>)"

definition sane_client :: "client \<Rightarrow> bool" where
  "sane_client c \<longleftrightarrow> cl_base_url c \<noteq> [] \<and> 0 < cl_timeout c \<and> 0 \<le> cl_max_retries c \<and> cl_user_agent c \<noteq> [] \<and> 0 < cl_max_idle c"

definition library_option :: "client_option \<Rightarrow> bool" where
  "library_option f \<longleftrightarrow> (\<exists>d. f = with_timeout d) \<or> (\<exists>n. f = with_max_retries n) \<or> (\<exists>s. f = with_user_agent s)
     \<or> (\<exists>n. f = with_max_idle_conns n)"

lemmas option_defs = with_timeout_def with_max_retries_def with_user_agent_def with_max_idle_conns_def

lemma option_keeps_sane: "library_option f \<Longrightarrow> sane_client c \<Longrightarrow> f c = Inr c1 \<Longrightarrow> sane_client c1"
  by (auto simp: library_option_def sane_client_def option_defs split: if_splits)

lemma options_keep_sane:
  "\<forall>f \<in> set opts. library_option f \<Longrightarrow> sane_client c \<Longrightarrow> apply_options opts c = Inr c1 \<Longrightarrow> sane_client c1"
proof (induction opts arbitrary: c)
  case Nil
  then show ?case by simp
next
  case (Cons f opts)
  then obtain c2 where "f c = Inr c2" by (auto split: sum.splits)
  with Cons option_keeps_sane [of f c c2] show ?case by auto
qed

text \<open>A client that \<open>NewClient\<close> returns is sane, whichever of the library's options were given.\<close>

lemma new_client_sane:
  "\<forall>f \<in> set opts. library_option f \<Longrightarrow> new_client url opts = Inr c \<Longrightarrow> sane_client c"
  unfolding new_client_def by (rule options_keep_sane) (auto simp: sane_client_def split: if_splits)

text \<open>The last setting of a field wins.\<close>

lemma apply_options_snoc:
  "apply_options (opts @ [f]) c = (case apply_options opts c of Inl e \<Rightarrow> Inl e | Inr c1 \<Rightarrow> f c1)"
  by (induction opts arbitrary: c) (auto split: sum.splits)

lemma last_timeout_wins:
  "new_client url (opts @ [with_timeout d]) = Inr c \<Longrightarrow> cl_timeout c = d"
  by (auto simp: new_client_def apply_options_snoc with_timeout_def split: if_splits sum.splits)

end
