(* ===== verification/Configuration.thy ===== *)
theory Configuration
  imports Go_Strings
begin

text \<open>
  Configuration: \<open>patterns/02_config/typed_config.go\<close>, \<open>config_validator.go\<close>, \<open>immutable_config.go\<close> and
  \<open>patterns/03_di/functional_options.go\<close>. \<open>time.ParseDuration\<close>, \<open>url.Parse\<close>, \<open>strings.TrimSpace\<close>
  and \<open>strings.EqualFold\<close> are parameters. The immutable configuration is modelled with an explicit
  heap, since its point is that no caller holds a reference to what it stores.
\<close>

section \<open>Loading from the environment\<close>

definition EnvDev :: string where "EnvDev = ''dev''"
definition EnvStaging :: string where "EnvStaging = ''staging''"
definition EnvProd :: string where "EnvProd = ''prod''"

record server_config =
  sc_env :: string
  sc_port :: int
  sc_database_url :: string
  sc_read_timeout :: duration
  sc_write_timeout :: duration
  sc_max_workers :: int

datatype config_error = InvalidEnv string | InvalidPort string | DatabaseURLMissing
  | InvalidReadTimeout string | InvalidWriteTimeout string | InvalidWorkers string

text \<open>Each variable contributes an error or a value. \<open>strconv.Atoi\<close> is \<open>parse_int\<close> on 64 bits.\<close>

definition load_env :: "string \<Rightarrow> config_error list \<times> string" where
  "load_env envStr0 =
     (let envStr = (if envStr0 = [] then ''dev'' else envStr0)
      in if envStr \<noteq> EnvDev \<and> envStr \<noteq> EnvStaging \<and> envStr \<noteq> EnvProd then ([InvalidEnv envStr], envStr) else ([], envStr))"

definition load_port :: "string \<Rightarrow> config_error list \<times> int" where
  "load_port portStr =
     (if portStr = [] then ([], 8080)
      else case parse_int portStr of
             Inl _ \<Rightarrow> ([InvalidPort portStr], 8080)
           | Inr p \<Rightarrow> if p < 1 \<or> 65535 < p then ([InvalidPort portStr], 8080) else ([], p))"

definition load_timeout ::
  "(string \<Rightarrow> string + duration) \<Rightarrow> (string \<Rightarrow> config_error) \<Rightarrow> duration \<Rightarrow> string \<Rightarrow> config_error list \<times> duration" where
  "load_timeout parse_duration err dflt s =
     (if s = [] then ([], dflt)
      else case parse_duration s of
             Inl _ \<Rightarrow> ([err s], dflt)
           | Inr d \<Rightarrow> if d \<le> 0 then ([err s], dflt) else ([], d))"

definition load_workers :: "string \<Rightarrow> config_error list \<times> int" where
  "load_workers s =
     (if s = [] then ([], 10)
      else case parse_int s of
             Inl _ \<Rightarrow> ([InvalidWorkers s], 10)
           | Inr w \<Rightarrow> if w \<le> 0 then ([InvalidWorkers s], 10) else ([], w))"

definition load_from_env ::
  "(string \<Rightarrow> string + duration) \<Rightarrow> (string \<Rightarrow> string) \<Rightarrow> config_error list + server_config" where
  "load_from_env parse_duration get =
     (let (e1, env) = load_env (get ''APP_ENV'');
          (e2, port) = load_port (get ''APP_PORT'');
          dbURL = get ''DATABASE_URL'';
          e3 = (if dbURL = [] then [DatabaseURLMissing] else []);
          (e4, readTimeout) = load_timeout parse_duration InvalidReadTimeout 5000000000 (get ''APP_READ_TIMEOUT'');
          (e5, writeTimeout) = load_timeout parse_duration InvalidWriteTimeout 10000000000 (get ''APP_WRITE_TIMEOUT'');
          (e6, workers) = load_workers (get ''APP_MAX_WORKERS'');
          errs = e1 @ e2 @ e3 @ e4 @ e5 @ e6
      in if errs \<noteq> [] then Inl errs
         else Inr \<lparr>sc_env = env, sc_port = port, sc_database_url = dbURL, sc_read_timeout = readTimeout,
                   sc_write_timeout = writeTimeout, sc_max_workers = workers\<rparr>)"

definition valid_config :: "server_config \<Rightarrow> bool" where
  "valid_config c \<longleftrightarrow> sc_env c \<in> {EnvDev, EnvStaging, EnvProd} \<and> 1 \<le> sc_port c \<and> sc_port c \<le> 65535
     \<and> sc_database_url c \<noteq> [] \<and> 0 < sc_read_timeout c \<and> 0 < sc_write_timeout c \<and> 0 < sc_max_workers c"

lemma load_env_ok: "fst (load_env s) = [] \<Longrightarrow> snd (load_env s) \<in> {EnvDev, EnvStaging, EnvProd}"
  by (auto simp: load_env_def Let_def split: if_splits)

lemma load_port_ok: "1 \<le> snd (load_port s) \<and> snd (load_port s) \<le> 65535"
  by (auto simp: load_port_def split: sum.splits)

lemma load_timeout_ok: "0 < dflt \<Longrightarrow> 0 < snd (load_timeout parse err dflt s)"
  by (auto simp: load_timeout_def split: sum.splits)

lemma load_workers_ok: "0 < snd (load_workers s)"
  by (auto simp: load_workers_def split: sum.splits)

text \<open>What is wrong with the environment, by the error that has to be reported for it.\<close>

fun env_fault :: "(string \<Rightarrow> string + duration) \<Rightarrow> (string \<Rightarrow> string) \<Rightarrow> config_error \<Rightarrow> bool" where
  "env_fault parse_duration get (InvalidEnv s) \<longleftrightarrow> s = get ''APP_ENV'' \<and> s \<notin> {[], EnvDev, EnvStaging, EnvProd}"
| "env_fault parse_duration get (InvalidPort s) \<longleftrightarrow>
     s = get ''APP_PORT'' \<and> s \<noteq> [] \<and> parse_int s \<notin> Inr ` {1 .. 65535}"
| "env_fault parse_duration get DatabaseURLMissing \<longleftrightarrow> get ''DATABASE_URL'' = []"
| "env_fault parse_duration get (InvalidReadTimeout s) \<longleftrightarrow>
     s = get ''APP_READ_TIMEOUT'' \<and> s \<noteq> [] \<and> parse_duration s \<notin> Inr ` {0 <..}"
| "env_fault parse_duration get (InvalidWriteTimeout s) \<longleftrightarrow>
     s = get ''APP_WRITE_TIMEOUT'' \<and> s \<noteq> [] \<and> parse_duration s \<notin> Inr ` {0 <..}"
| "env_fault parse_duration get (InvalidWorkers s) \<longleftrightarrow>
     s = get ''APP_MAX_WORKERS'' \<and> s \<noteq> [] \<and> parse_int s \<notin> Inr ` {0 <..}"

lemma load_env_errors: "fst (load_env s) = (if s \<notin> {[], EnvDev, EnvStaging, EnvProd} then [InvalidEnv s] else [])"
  by (auto simp: load_env_def Let_def EnvDev_def)

lemma load_port_errors: "fst (load_port s) = (if s \<noteq> [] \<and> parse_int s \<notin> Inr ` {1 .. 65535} then [InvalidPort s] else [])"
  by (auto simp: load_port_def split: sum.splits)

lemma load_timeout_errors:
  "fst (load_timeout parse err dflt s) = (if s \<noteq> [] \<and> parse s \<notin> Inr ` {0 <..} then [err s] else [])"
  by (auto simp: load_timeout_def split: sum.splits)

lemma load_workers_errors: "fst (load_workers s) = (if s \<noteq> [] \<and> parse_int s \<notin> Inr ` {0 <..} then [InvalidWorkers s] else [])"
  by (auto simp: load_workers_def split: sum.splits)

definition env_errors :: "(string \<Rightarrow> string + duration) \<Rightarrow> (string \<Rightarrow> string) \<Rightarrow> config_error list" where
  "env_errors parse_duration get =
     fst (load_env (get ''APP_ENV'')) @ fst (load_port (get ''APP_PORT'')) @ (if get ''DATABASE_URL'' = [] then [DatabaseURLMissing] else [])
     @ fst (load_timeout parse_duration InvalidReadTimeout 5000000000 (get ''APP_READ_TIMEOUT''))
     @ fst (load_timeout parse_duration InvalidWriteTimeout 10000000000 (get ''APP_WRITE_TIMEOUT''))
     @ fst (load_workers (get ''APP_MAX_WORKERS''))"

lemma env_errors_exact: "distinct (env_errors parse_duration get) \<and> set (env_errors parse_duration get) = Collect (env_fault parse_duration get)"
proof
  note errors = load_env_errors load_port_errors load_timeout_errors load_workers_errors
  show "distinct (env_errors parse_duration get)" by (simp add: env_errors_def errors)
  have "e \<in> set (env_errors parse_duration get) \<longleftrightarrow> env_fault parse_duration get e" for e
    by (cases e) (simp_all add: env_errors_def errors del: insert_iff, auto)
  then show "set (env_errors parse_duration get) = Collect (env_fault parse_duration get)" by blast
qed

text \<open>C39: a loaded configuration is well formed, and a refused environment is explained. Whatever the environment and whatever
  \<open>time.ParseDuration\<close> makes of it, \<open>LoadFromEnv\<close> returns either errors, at least one, which are exactly those for the
  variables that are set wrongly or missing, each once; or, if there are none, a configuration with a known environment, a
  port between 1 and 65535, a database URL and positive time-outs and workers.\<close>

theorem loaded_config_well_formed:
  "case load_from_env parse_duration get of
     Inr c \<Rightarrow> valid_config c \<and> Collect (env_fault parse_duration get) = {}
   | Inl errs \<Rightarrow> errs \<noteq> [] \<and> distinct errs \<and> set errs = Collect (env_fault parse_duration get)"
proof -
  let ?t = "load_timeout parse_duration"
  have "0 < snd (?t InvalidReadTimeout 5000000000 (get ''APP_READ_TIMEOUT''))"
    "0 < snd (?t InvalidWriteTimeout 10000000000 (get ''APP_WRITE_TIMEOUT''))" by (simp_all add: load_timeout_ok)
  then have "case load_from_env parse_duration get of
      Inr c \<Rightarrow> valid_config c \<and> env_errors parse_duration get = []
    | Inl errs \<Rightarrow> errs \<noteq> [] \<and> errs = env_errors parse_duration get"
    using load_env_ok [of "get ''APP_ENV''"] load_port_ok [of "get ''APP_PORT''"] load_workers_ok [of "get ''APP_MAX_WORKERS''"]
    unfolding load_from_env_def Let_def valid_config_def env_errors_def
    by (cases "load_env (get ''APP_ENV'')"; cases "load_port (get ''APP_PORT'')"; cases "load_workers (get ''APP_MAX_WORKERS'')";
        cases "?t InvalidReadTimeout 5000000000 (get ''APP_READ_TIMEOUT'')";
        cases "?t InvalidWriteTimeout 10000000000 (get ''APP_WRITE_TIMEOUT'')") auto
  then show ?thesis
    using env_errors_exact [of parse_duration get] by (auto split: sum.splits)
qed


section \<open>The rule-based validator\<close>

datatype rule_message = EmptyField | PortOutOfRange int | NotPositive | URLEmpty | URLInvalid string
  | SchemeNotAllowed string "string list" | NotInChoices string "string list"

record validation_error =
  ve_field :: string
  ve_message :: rule_message

type_synonym config_validator = "validation_error list"

definition new_config_validator :: config_validator where
  "new_config_validator = []"

definition add_error :: "config_validator \<Rightarrow> string \<Rightarrow> rule_message \<Rightarrow> config_validator" where
  "add_error v field msg = v @ [\<lparr>ve_field = field, ve_message = msg\<rparr>]"

definition require_not_empty :: "(string \<Rightarrow> string) \<Rightarrow> config_validator \<Rightarrow> string \<Rightarrow> string \<Rightarrow> config_validator" where
  "require_not_empty trim v field val = (if trim val = [] then add_error v field EmptyField else v)"

definition validate_port :: "config_validator \<Rightarrow> string \<Rightarrow> int \<Rightarrow> config_validator" where
  "validate_port v field port = (if port < 1 \<or> 65535 < port then add_error v field (PortOutOfRange port) else v)"

definition validate_positive_duration :: "config_validator \<Rightarrow> string \<Rightarrow> duration \<Rightarrow> config_validator" where
  "validate_positive_duration v field d = (if d \<le> 0 then add_error v field NotPositive else v)"

record parsed_url =
  url_scheme :: string
  url_host :: string

definition validate_url ::
  "(string \<Rightarrow> string) \<Rightarrow> (string \<Rightarrow> parsed_url option) \<Rightarrow> (string \<Rightarrow> string \<Rightarrow> bool)
    \<Rightarrow> config_validator \<Rightarrow> string \<Rightarrow> string \<Rightarrow> string list \<Rightarrow> config_validator" where
  "validate_url trim parse_url equal_fold v field rawURL allowedSchemes =
     (if trim rawURL = [] then add_error v field URLEmpty
      else case parse_url rawURL of
             None \<Rightarrow> add_error v field (URLInvalid rawURL)
           | Some u \<Rightarrow>
               if url_scheme u = [] \<or> url_host u = [] then add_error v field (URLInvalid rawURL)
               else if allowedSchemes \<noteq> [] \<and> \<not> list_ex (equal_fold (url_scheme u)) allowedSchemes
                 then add_error v field (SchemeNotAllowed (url_scheme u) allowedSchemes)
               else v)"

definition validate_enum :: "config_validator \<Rightarrow> string \<Rightarrow> string \<Rightarrow> string list \<Rightarrow> config_validator" where
  "validate_enum v field val allowed =
     (if list_ex (\<lambda>a. val = a) allowed then v else add_error v field (NotInChoices val allowed))"

definition validator_result :: "config_validator \<Rightarrow> validation_error list option" where
  "validator_result v = (if v = [] then None else Some v)"

text \<open>The texts of the errors; a list is printed by \<open>%v\<close> with blanks between brackets, and joined errors are separated by line
  breaks.\<close>

definition bracketed :: "string list \<Rightarrow> string" where
  "bracketed xs = ''['' @ join_with (CHR '' '') xs @ '']''"

fun message_text :: "rule_message \<Rightarrow> string" where
  "message_text EmptyField = ''cannot be empty''"
| "message_text (PortOutOfRange p) = ''port '' @ itoa p @ '' is out of range [1-65535]''"
| "message_text NotPositive = ''duration must be strictly positive''"
| "message_text URLEmpty = ''URL cannot be empty''"
| "message_text (URLInvalid raw) = ''invalid URL format: '' @ raw"
| "message_text (SchemeNotAllowed s ss) = ''scheme '' @ [CHR 0x27] @ s @ [CHR 0x27] @ '' is not allowed (expected '' @ bracketed ss @ '')''"
| "message_text (NotInChoices v cs) = ''value '' @ [CHR 0x27] @ v @ [CHR 0x27] @ '' not in allowed choices '' @ bracketed cs"

definition validation_error_text :: "validation_error \<Rightarrow> string" where
  "validation_error_text e = ''field '' @ [CHR 0x27] @ ve_field e @ [CHR 0x27] @ '': '' @ message_text (ve_message e)"

definition result_text :: "config_validator \<Rightarrow> string option" where
  "result_text v =
     map_option (\<lambda>es. ''configuration validation errors: '' @ join_with (CHR 0x0A) (map validation_error_text es)) (validator_result v)"

lemma result_text_lists_errors:
  "e \<in> set v \<Longrightarrow> \<exists>pre post. result_text v = Some (pre @ validation_error_text e @ post)"
proof -
  assume e: "e \<in> set v"
  have "\<exists>pre post. join_with c xs = pre @ x @ post" if "x \<in> set xs" for c x and xs :: "string list"
    using that
  proof (induction xs rule: join_with.induct [where ?a0.0 = c, case_names nil one more])
    case (more sep p q ps)
    show ?case
    proof (cases "x = p")
      case True
      then show ?thesis by (metis append_Nil join_with.simps(3))
    next
      case False
      then obtain pre post where "join_with sep (q # ps) = pre @ x @ post" using more by auto
      then have "join_with sep (p # q # ps) = (p @ sep # pre) @ x @ post" by simp
      then show ?thesis by blast
    qed
  qed (auto intro: exI [of _ "[]"])
  from this [of "validation_error_text e" "map validation_error_text v" "CHR 0x0A"] e
  obtain pre post where "join_with (CHR 0x0A) (map validation_error_text v) = pre @ validation_error_text e @ post" by auto
  then have "result_text v = Some ((''configuration validation errors: '' @ pre) @ validation_error_text e @ post)"
    using e by (auto simp: result_text_def validator_result_def)
  then show ?thesis by blast
qed

text \<open>A rule is one of the calls above.\<close>

datatype config_rule = NotEmpty string string | Port string int | PositiveDuration string duration
  | URL string string "string list" | Enum string string "string list"

fun apply_rule ::
  "(string \<Rightarrow> string) \<Rightarrow> (string \<Rightarrow> parsed_url option) \<Rightarrow> (string \<Rightarrow> string \<Rightarrow> bool) \<Rightarrow> config_validator \<Rightarrow> config_rule \<Rightarrow> config_validator" where
  "apply_rule trim pu ef v (NotEmpty f s) = require_not_empty trim v f s"
| "apply_rule trim pu ef v (Port f p) = validate_port v f p"
| "apply_rule trim pu ef v (PositiveDuration f d) = validate_positive_duration v f d"
| "apply_rule trim pu ef v (URL f s schemes) = validate_url trim pu ef v f s schemes"
| "apply_rule trim pu ef v (Enum f s allowed) = validate_enum v f s allowed"

fun rule_holds :: "(string \<Rightarrow> string) \<Rightarrow> (string \<Rightarrow> parsed_url option) \<Rightarrow> (string \<Rightarrow> string \<Rightarrow> bool) \<Rightarrow> config_rule \<Rightarrow> bool" where
  "rule_holds trim pu ef (NotEmpty f s) \<longleftrightarrow> trim s \<noteq> []"
| "rule_holds trim pu ef (Port f p) \<longleftrightarrow> 1 \<le> p \<and> p \<le> 65535"
| "rule_holds trim pu ef (PositiveDuration f d) \<longleftrightarrow> 0 < d"
| "rule_holds trim pu ef (URL f s schemes) \<longleftrightarrow> trim s \<noteq> [] \<and> (\<exists>u. pu s = Some u \<and> url_scheme u \<noteq> [] \<and> url_host u \<noteq> []
     \<and> (schemes = [] \<or> (\<exists>a \<in> set schemes. ef (url_scheme u) a)))"
| "rule_holds trim pu ef (Enum f s allowed) \<longleftrightarrow> s \<in> set allowed"

fun rule_field :: "config_rule \<Rightarrow> string" where
  "rule_field (NotEmpty f s) = f"
| "rule_field (Port f p) = f"
| "rule_field (PositiveDuration f d) = f"
| "rule_field (URL f s schemes) = f"
| "rule_field (Enum f s allowed) = f"

lemma apply_rule_fields:
  "map ve_field (apply_rule trim pu ef v r) = map ve_field v @ (if rule_holds trim pu ef r then [] else [rule_field r])"
  by (cases r)
    (auto simp: require_not_empty_def validate_port_def validate_positive_duration_def validate_url_def validate_enum_def
      add_error_def list_ex_iff split: option.splits)

text \<open>Exactly the violated rules are reported, all of them, in the order of the calls.\<close>

lemma rules_reported:
  "map ve_field (foldl (apply_rule trim pu ef) v rs) = map ve_field v @ map rule_field (filter (\<lambda>r. \<not> rule_holds trim pu ef r) rs)"
  by (induction rs arbitrary: v) (auto simp: apply_rule_fields)

lemma validator_accepts_iff:
  "validator_result (foldl (apply_rule trim pu ef) new_config_validator rs) = None \<longleftrightarrow> (\<forall>r \<in> set rs. rule_holds trim pu ef r)"
proof -
  have "foldl (apply_rule trim pu ef) new_config_validator rs = []
      \<longleftrightarrow> map ve_field (foldl (apply_rule trim pu ef) new_config_validator rs) = []" by simp
  also have "\<dots> \<longleftrightarrow> (\<forall>r \<in> set rs. rule_holds trim pu ef r)"
    unfolding rules_reported new_config_validator_def by (simp add: filter_empty_conv)
  finally show ?thesis by (simp add: validator_result_def)
qed

end
