(* ===== verification/Connection_Pool.thy ===== *)
theory Connection_Pool
  imports Go_Prelude
begin

text \<open>
  \<open>patterns/04_persistence/pool_limiter.go\<close>: the bounded connection pool. A connection is a
  reference into \<open>conns\<close>, allocated in order of creation; \<open>tokens\<close> is the number of
  elements buffered in the token channel, \<open>idle_conns\<close> the contents of the idle channel in
  FIFO order. \<open>Acquire\<close> is not atomic: the two polls, the blocking \<open>select\<close>, the
  compare-and-swap of \<open>Close\<close> and \<open>release\<close> are separate steps of a goroutine, and
  \<open>pool_step\<close> interleaves any number of goroutines, event by event. \<open>Close\<close> may be called on
  a handle any number of times and by any goroutine, the connection held by another one by then included.
\<close>

record connection =
  conn_id :: int
  conn_created_at :: gotime
  released :: bool

record conn_pool =
  max_capacity :: nat
  tokens :: nat
  idle_conns :: "nat list"
  total_waits :: int
  next_conn :: nat
  pool_closed :: bool
  conns :: "nat \<Rightarrow> connection"

definition new_conn_pool :: "int \<Rightarrow> conn_pool" where
  "new_conn_pool maxCapacity =
     (let cap = nat (if maxCapacity \<le> 0 then 10 else maxCapacity)
      in \<lparr>max_capacity = cap, tokens = cap, idle_conns = [], total_waits = 0, next_conn = 0,
          pool_closed = False, conns = (\<lambda>r. \<lparr>conn_id = 0, conn_created_at = 0, released = False\<rparr>)\<rparr>)"

definition set_released :: "conn_pool \<Rightarrow> nat \<Rightarrow> bool \<Rightarrow> conn_pool" where
  "set_released p r b = p\<lparr>conns := (conns p)(r := (conns p r)\<lparr>released := b\<rparr>)\<rparr>"

text \<open>Receiving from the idle channel, receiving a token and making a connection with it; \<open>None\<close>
  when the channel is empty.\<close>

definition take_idle :: "conn_pool \<Rightarrow> (nat \<times> conn_pool) option" where
  "take_idle p = (case idle_conns p of [] \<Rightarrow> None
     | r # rs \<Rightarrow> Some (r, set_released (p\<lparr>idle_conns := rs\<rparr>) r False))"

definition take_token :: "conn_pool \<Rightarrow> gotime \<Rightarrow> (nat \<times> conn_pool) option" where
  "take_token p now =
     (if tokens p = 0 then None
      else Some (next_conn p,
        p\<lparr>tokens := tokens p - 1, next_conn := next_conn p + 1,
          conns := (conns p)(next_conn p :=
            \<lparr>conn_id = i32 (int (next_conn p) + 1), conn_created_at = now, released = False\<rparr>)\<rparr>))"

text \<open>\<open>release\<close>, under the mutex: a non-blocking send to the idle channel, else a send of a token,
  which blocks (\<open>None\<close>) when the token channel is full.\<close>

definition release_conn :: "conn_pool \<Rightarrow> nat \<Rightarrow> conn_pool option" where
  "release_conn p r =
     (if pool_closed p then Some p
      else if length (idle_conns p) < max_capacity p then Some (p\<lparr>idle_conns := idle_conns p @ [r]\<rparr>)
      else if tokens p < max_capacity p then Some (p\<lparr>tokens := tokens p + 1\<rparr>)
      else None)"

definition close_cas :: "conn_pool \<Rightarrow> nat \<Rightarrow> bool \<times> conn_pool" where
  "close_cas p r = (if released (conns p r) then (False, p) else (True, set_released p r True))"

record pool_stats =
  stat_max_capacity :: int
  stat_active :: int
  stat_idle :: int
  stat_waits :: int

definition pool_stats_of :: "conn_pool \<Rightarrow> pool_stats" where
  "pool_stats_of p =
     (let idle = int (length (idle_conns p));
          availableTokens = int (tokens p);
          active = int (max_capacity p) - (idle + availableTokens);
          active' = (if active < 0 then 0 else active)
      in \<lparr>stat_max_capacity = int (max_capacity p), stat_active = active', stat_idle = idle,
          stat_waits = total_waits p\<rparr>)"


section \<open>Goroutines\<close>

text \<open>Where a goroutine is: outside the pool, between the two polls of \<open>Acquire\<close>, in its
  blocking \<open>select\<close>, holding a connection, or between the compare-and-swap of \<open>Close\<close>
  and \<open>release\<close>. \<open>CloseCas\<close> is the holder's \<open>Close\<close>, \<open>StaleClose\<close> a call on the handle of a
  connection the caller does not hold (any more).\<close>

datatype pool_pc = Outside | AtTokenPoll | Waiting | Holding nat | Releasing nat

datatype pool_event =
    AcquireIdlePoll nat
  | AcquireTokenPoll nat gotime
  | WakeCtxDone nat
  | WakeToken nat gotime
  | WakeIdle nat
  | CloseCas nat
  | StaleClose nat nat
  | Release nat

record pool_sys =
  pool :: conn_pool
  pc :: "nat \<Rightarrow> pool_pc"

definition goto :: "pool_sys \<Rightarrow> nat \<Rightarrow> pool_pc \<Rightarrow> conn_pool \<Rightarrow> pool_sys" where
  "goto s t c p = \<lparr>pool = p, pc = (pc s)(t := c)\<rparr>"

fun pool_step :: "pool_sys \<Rightarrow> pool_event \<Rightarrow> pool_sys option" where
  "pool_step s (AcquireIdlePoll t) =
     (if pc s t \<noteq> Outside then None
      else case take_idle (pool s) of
             Some (r, p) \<Rightarrow> Some (goto s t (Holding r) p)
           | None \<Rightarrow> Some (goto s t AtTokenPoll (pool s)))"
| "pool_step s (AcquireTokenPoll t now) =
     (if pc s t \<noteq> AtTokenPoll then None
      else case take_token (pool s) now of
             Some (r, p) \<Rightarrow> Some (goto s t (Holding r) p)
           | None \<Rightarrow> Some (goto s t Waiting
               ((pool s)\<lparr>total_waits := i64 (total_waits (pool s) + 1)\<rparr>)))"
| "pool_step s (WakeCtxDone t) =
     (if pc s t \<noteq> Waiting then None else Some (goto s t Outside (pool s)))"
| "pool_step s (WakeToken t now) =
     (if pc s t \<noteq> Waiting then None
      else map_option (\<lambda>(r, p). goto s t (Holding r) p) (take_token (pool s) now))"
| "pool_step s (WakeIdle t) =
     (if pc s t \<noteq> Waiting then None
      else map_option (\<lambda>(r, p). goto s t (Holding r) p) (take_idle (pool s)))"
| "pool_step s (CloseCas t) =
     (case pc s t of
        Holding r \<Rightarrow>
          (let (won, p) = close_cas (pool s) r
           in Some (goto s t (if won then Releasing r else Outside) p))
      | _ \<Rightarrow> None)"
| "pool_step s (StaleClose t r) =
     (if pc s t \<noteq> Outside \<or> next_conn (pool s) \<le> r then None
      else let (won, p) = close_cas (pool s) r
           in Some (goto s t (if won then Releasing r else Outside) p))"
| "pool_step s (Release t) =
     (case pc s t of
        Releasing r \<Rightarrow> map_option (goto s t Outside) (release_conn (pool s) r)
      | _ \<Rightarrow> None)"

definition pool_start :: "int \<Rightarrow> pool_sys" where
  "pool_start cap = \<lparr>pool = new_conn_pool cap, pc = (\<lambda>t. Outside)\<rparr>"

text \<open>The runs in which a handle is closed again only while no goroutine holds its connection, that is before
  the pool has handed it out again.\<close>

fun prompt_closes :: "pool_sys \<Rightarrow> pool_event list \<Rightarrow> bool" where
  "prompt_closes s [] = True"
| "prompt_closes s (e # es) =
     ((case e of StaleClose t r \<Rightarrow> \<forall>u. pc s u \<noteq> Holding r | _ \<Rightarrow> True)
      \<and> (case pool_step s e of None \<Rightarrow> True | Some s' \<Rightarrow> prompt_closes s' es))"

definition pc_owner :: "pool_pc \<Rightarrow> nat option" where
  "pc_owner c = (case c of Holding r \<Rightarrow> Some r | Releasing r \<Rightarrow> Some r | _ \<Rightarrow> None)"

definition owner :: "pool_sys \<Rightarrow> nat \<rightharpoonup> nat" where
  "owner s t = pc_owner (pc s t)"


section \<open>Invariant\<close>

text \<open>The resources \<open>0..<n\<close> are split between a free list, without repetition, and owners that
  have one each.\<close>

definition partitioned :: "nat list \<Rightarrow> (nat \<rightharpoonup> nat) \<Rightarrow> nat \<Rightarrow> bool" where
  "partitioned free own n \<longleftrightarrow> distinct free \<and> set free \<inter> ran own = {} \<and> set free \<union> ran own = {..<n}
     \<and> inj_on own (dom own)"

lemma partitioned_inj: "partitioned free own n \<Longrightarrow> own t = Some r \<Longrightarrow> own u = Some r \<Longrightarrow> t = u"
  unfolding partitioned_def by (metis domI inj_onD)

lemma inj_upd: "inj_on own (dom own) \<Longrightarrow> r \<notin> ran own \<Longrightarrow> inj_on (own(t \<mapsto> r)) (dom (own(t \<mapsto> r)))"
  by (auto simp: inj_on_def ran_def)

lemma partitioned_take:
  "partitioned (r # rs) own n \<Longrightarrow> own t = None \<Longrightarrow> partitioned rs (own(t \<mapsto> r)) n"
  unfolding partitioned_def by (auto intro: inj_upd simp del: dom_fun_upd)

lemma partitioned_new:
  "partitioned rs own n \<Longrightarrow> own t = None \<Longrightarrow> partitioned rs (own(t \<mapsto> n)) (Suc n)"
  unfolding partitioned_def lessThan_Suc by (auto intro: inj_upd simp del: dom_fun_upd)

lemma partitioned_give:
  assumes "partitioned rs own n" and "own t = Some r"
  shows "partitioned (rs @ [r]) (own(t := None)) n"
proof -
  have P: "distinct rs" "set rs \<inter> ran own = {}" "set rs \<union> ran own = {..<n}" "inj_on own (dom own)"
    using assms(1) by (simp_all add: partitioned_def)
  have r: "r \<in> ran own" using assms(2) by (rule ranI)
  have ran: "ran (own(t := None)) = ran own - {r}"
  proof (intro set_eqI iffI)
    fix x
    assume "x \<in> ran (own(t := None))"
    then obtain u where u: "own u = Some x" "u \<noteq> t" by (auto simp: ran_def split: if_splits)
    then have "x \<noteq> r" using partitioned_inj [OF assms(1) assms(2), of u] by blast
    with u(1) show "x \<in> ran own - {r}" by (simp add: ranI)
  next
    fix x
    assume "x \<in> ran own - {r}"
    then obtain u where u: "own u = Some x" "x \<noteq> r" by (auto simp: ran_def)
    then have "(own(t := None)) u = Some x" using assms(2) by auto
    then show "x \<in> ran (own(t := None))" by (rule ranI)
  qed
  have "inj_on (own(t := None)) (dom (own(t := None)))"
    using P(4) by (simp add: inj_on_def)
  moreover have "distinct (rs @ [r])" using P(1,2) r by auto
  moreover have "set (rs @ [r]) \<inter> (ran own - {r}) = {}" using P(2) by auto
  moreover have "set (rs @ [r]) \<union> (ran own - {r}) = {..<n}" using P(3) r by auto
  ultimately show ?thesis unfolding partitioned_def ran by blast
qed

lemma partitioned_count:
  assumes "partitioned rs own n"
  shows "length rs + card (dom own) = n"
proof -
  have P: "distinct rs" "set rs \<inter> ran own = {}" "set rs \<union> ran own = {..<n}" "inj_on own (dom own)"
    using assms by (simp_all add: partitioned_def)
  have fin: "finite (ran own)" using P(3) by (metis finite_Un finite_lessThan)
  have "card (ran own) = card (Some ` ran own)" by (simp add: card_image)
  also have "Some ` ran own = own ` dom own" by (force simp: ran_def)
  also have "card (own ` dom own) = card (dom own)" using P(4) by (rule card_image)
  finally have "card (ran own) = card (dom own)" .
  moreover have "card (set rs \<union> ran own) = card (set rs) + card (ran own)"
    using P(2) fin by (simp add: card_Un_disjoint)
  ultimately show ?thesis using P(1,3) by (simp add: distinct_card)
qed

text \<open>Tokens and connections add up to the capacity, the connections are split between the idle channel
  and the goroutines, and a held connection is not marked released.\<close>

definition pool_inv :: "pool_sys \<Rightarrow> bool" where
  "pool_inv s \<longleftrightarrow>
     \<not> pool_closed (pool s)
   \<and> tokens (pool s) + next_conn (pool s) = max_capacity (pool s)
   \<and> partitioned (idle_conns (pool s)) (owner s) (next_conn (pool s))
   \<and> (\<forall>t r. pc s t = Holding r \<longrightarrow> \<not> released (conns (pool s) r))"

lemma pool_inv_start: "pool_inv (pool_start cap)"
proof -
  have "owner (pool_start cap) = Map.empty"
    by (rule ext) (simp add: owner_def pc_owner_def pool_start_def)
  then show ?thesis
    by (simp add: pool_inv_def partitioned_def) (simp add: pool_start_def new_conn_pool_def Let_def)
qed

lemma goto_simps [simp]: "pool (goto s t c p) = p" "pc (goto s t c p) = (pc s)(t := c)"
  "owner (goto s t c p) = (owner s)(t := pc_owner c)"
  by (auto simp: goto_def owner_def)

lemma pc_owner_simps [simp]: "pc_owner Outside = None" "pc_owner AtTokenPoll = None"
  "pc_owner Waiting = None" "pc_owner (Holding r) = Some r" "pc_owner (Releasing r) = Some r"
  by (simp_all add: pc_owner_def)

lemma owner_Holding: "pc s t = Holding r \<Longrightarrow> owner s t = Some r"
  by (simp add: owner_def)

text \<open>Moving between points where nothing is owned keeps the invariant.\<close>

lemma pool_inv_move:
  assumes "pool_inv s" and "owner s t = None" and "pc_owner c = None"
    and "p = pool s \<or> p = (pool s)\<lparr>total_waits := w\<rparr>"
  shows "pool_inv (goto s t c p)"
  using assms by (auto simp: pool_inv_def fun_upd_idem split: if_splits)

lemma pool_inv_take_idle:
  assumes "pool_inv s" and "owner s t = None" and "take_idle (pool s) = Some (r, p)"
  shows "pool_inv (goto s t (Holding r) p)"
proof -
  obtain rs where rs: "idle_conns (pool s) = r # rs"
    and p: "p = set_released ((pool s)\<lparr>idle_conns := rs\<rparr>) r False"
    using assms(3) by (auto simp: take_idle_def split: list.splits)
  have "partitioned rs ((owner s)(t \<mapsto> r)) (next_conn (pool s))"
    using assms(1,2) rs by (auto simp: pool_inv_def intro: partitioned_take)
  then show ?thesis using assms(1) by (auto simp: pool_inv_def p set_released_def split: if_splits)
qed

lemma pool_inv_take_token:
  assumes "pool_inv s" and "owner s t = None" and "take_token (pool s) now = Some (r, p)"
  shows "pool_inv (goto s t (Holding r) p)"
proof -
  have "partitioned (idle_conns (pool s)) ((owner s)(t \<mapsto> next_conn (pool s))) (Suc (next_conn (pool s)))"
    using assms(1,2) by (auto simp: pool_inv_def intro: partitioned_new)
  then show ?thesis using assms(1,3)
    by (auto simp: pool_inv_def take_token_def split: if_splits)
qed

lemma pool_inv_close_cas:
  assumes "pool_inv s" and "pc s t = Holding r"
  shows "pool_inv (goto s t (Releasing r) (set_released (pool s) r True))"
proof -
  have own: "(owner s)(t \<mapsto> r) = owner s" using owner_Holding [OF assms(2)] by (simp add: fun_upd_idem)
  have "pc s u \<noteq> Holding r" if "u \<noteq> t" for u
    using assms(1) owner_Holding [OF assms(2)] owner_Holding [of s u r] that
      partitioned_inj [of _ "owner s" _ t r u]
    by (auto simp: pool_inv_def)
  then show ?thesis using assms(1) by (auto simp: pool_inv_def own set_released_def split: if_splits)
qed

text \<open>The idle channel always has room for a connection that comes back: the fallback that returns a
  token, the only place where \<open>release\<close> could block, is dead code.\<close>

lemma release_has_room:
  assumes "pool_inv s" and "owner s t = Some r"
  shows "release_conn (pool s) r = Some ((pool s)\<lparr>idle_conns := idle_conns (pool s) @ [r]\<rparr>)"
proof -
  have "partitioned (idle_conns (pool s) @ [r]) ((owner s)(t := None)) (next_conn (pool s))"
    using assms by (auto simp: pool_inv_def intro: partitioned_give)
  from partitioned_count [OF this] have "length (idle_conns (pool s)) < next_conn (pool s)" by simp
  with assms(1) show ?thesis by (simp add: pool_inv_def release_conn_def)
qed

text \<open>Every other connection is marked released, so a \<open>Close\<close> of it is refused.\<close>

definition unheld_released :: "pool_sys \<Rightarrow> bool" where
  "unheld_released s \<longleftrightarrow> (\<forall>r < next_conn (pool s). released (conns (pool s) r) \<or> (\<exists>t. pc s t = Holding r))"

lemma unheld_released_goto:
  assumes "unheld_released s"
    and "\<And>r. r < next_conn p \<Longrightarrow> released (conns p r) \<or> c = Holding r
      \<or> r < next_conn (pool s) \<and> conns p r = conns (pool s) r \<and> pc s t \<noteq> Holding r"
  shows "unheld_released (goto s t c p)"
  unfolding unheld_released_def
proof (intro allI impI)
  fix r
  assume "r < next_conn (pool (goto s t c p))"
  then consider "released (conns p r)" | "c = Holding r"
    | "r < next_conn (pool s)" "conns p r = conns (pool s) r" "pc s t \<noteq> Holding r"
    using assms(2) [of r] by auto
  then show "released (conns (pool (goto s t c p)) r) \<or> (\<exists>u. pc (goto s t c p) u = Holding r)"
  proof cases
    case 2
    then have "pc (goto s t c p) t = Holding r" by simp
    then show ?thesis by blast
  next
    case 3
    then consider "released (conns p r)" | u where "pc s u = Holding r"
      using assms(1) unfolding unheld_released_def by metis
    then show ?thesis
    proof cases
      case (2 u)
      with 3(3) have "pc (goto s t c p) u = Holding r" by auto
      then show ?thesis by blast
    qed simp
  qed simp
qed

definition prompt :: "pool_sys \<Rightarrow> pool_event \<Rightarrow> bool" where
  "prompt s e = (case e of StaleClose t r \<Rightarrow> \<forall>u. pc s u \<noteq> Holding r | _ \<Rightarrow> True)"

lemma prompt_closes_Cons:
  "prompt_closes s (e # es) \<longleftrightarrow> prompt s e \<and> (\<forall>s'. pool_step s e = Some s' \<longrightarrow> prompt_closes s' es)"
  by (auto simp: prompt_def split: option.split)

text \<open>A prompt second \<open>Close\<close> changes nothing.\<close>

lemma prompt_stale_close:
  assumes "unheld_released s" and "prompt s (StaleClose t r)" and "pool_step s (StaleClose t r) = Some s'"
  shows "s' = s"
proof -
  have "pc s t = Outside" "r < next_conn (pool s)" using assms(3) by (auto split: if_splits)
  moreover have "released (conns (pool s) r)"
    using assms(1,2) calculation(2) unfolding unheld_released_def prompt_def by auto
  ultimately show ?thesis using assms(3) by (auto simp: close_cas_def goto_def fun_upd_idem)
qed

lemma unheld_released_step:
  assumes "unheld_released s" and "prompt s e" and "pool_step s e = Some s'"
  shows "unheld_released s'"
proof (cases e)
  case (StaleClose t r)
  with assms prompt_stale_close [of s t r s'] show ?thesis by simp
qed (use assms in \<open>auto simp: take_idle_def take_token_def close_cas_def release_conn_def set_released_def
    split: if_splits option.splits list.splits pool_pc.splits intro!: unheld_released_goto\<close>)

lemma pool_inv_step:
  assumes "pool_inv s" and "unheld_released s" and "prompt s e" and "pool_step s e = Some s'"
  shows "pool_inv s'"
proof (cases e)
  case (CloseCas t)
  then obtain r where r: "pc s t = Holding r" using assms(4) by (auto split: pool_pc.splits)
  then have "\<not> released (conns (pool s) r)" using assms(1) by (simp add: pool_inv_def)
  with CloseCas assms(4) r pool_inv_close_cas [OF assms(1) r] show ?thesis by (auto simp: close_cas_def)
next
  case (StaleClose t r)
  with assms prompt_stale_close [of s t r s'] show ?thesis by simp
next
  case (Release t)
  then obtain r where r: "pc s t = Releasing r" using assms(4) by (auto split: pool_pc.splits)
  then have o: "owner s t = Some r" by (simp add: owner_def)
  then have "partitioned (idle_conns (pool s) @ [r]) ((owner s)(t := None)) (next_conn (pool s))"
    using assms(1) by (auto simp: pool_inv_def intro: partitioned_give)
  with Release assms(1,4) r release_has_room [OF assms(1) o] show ?thesis
    by (auto simp: pool_inv_def split: if_splits)
qed (use assms in \<open>auto simp: owner_def intro: pool_inv_take_idle pool_inv_take_token pool_inv_move
      split: if_splits option.splits\<close>)

lemma pool_inv_from:
  assumes "run_events pool_step s es = Some s'" and "prompt_closes s es"
    and "pool_inv s \<and> unheld_released s"
  shows "pool_inv s' \<and> unheld_released s'"
  using assms
proof (induction es arbitrary: s)
  case (Cons e es)
  then obtain s1 where s1: "pool_step s e = Some s1" "run_events pool_step s1 es = Some s'"
    by (auto split: option.splits)
  moreover have "prompt s e" "prompt_closes s1 es" using Cons.prems(2) s1(1) by (simp_all only: prompt_closes_Cons)
  ultimately show ?case using Cons.IH [of s1] Cons.prems(3) pool_inv_step [of s e s1] unheld_released_step [of s e s1]
    by blast
qed simp

lemma pool_inv_run:
  assumes "run_events pool_step (pool_start cap) es = Some s" and "prompt_closes (pool_start cap) es"
  shows "pool_inv s"
  using pool_inv_from [OF assms] pool_inv_start [of cap]
  by (simp add: unheld_released_def pool_start_def new_conn_pool_def Let_def)

lemma pool_step_capacity: "max_capacity (pool s) = n \<Longrightarrow> pool_step s e = Some s' \<Longrightarrow> max_capacity (pool s') = n"
  by (cases e) (auto simp: take_idle_def take_token_def close_cas_def release_conn_def set_released_def
      split: if_splits option.splits list.splits pool_pc.splits)

text \<open>C18: the pool hands no connection to two goroutines. In every interleaving of Acquire, Close and cancellations by
  any number of goroutines, in which handles may be closed again and again, by anyone, as long as their
  connection has not been handed out again, a connection has at most one owner and an idle connection has none, it
  waits in the pool once, at most the configured capacity is in use, and giving a connection back never blocks. The condition on the closes
  is needed: \<open>stale_close_shares_connection\<close> is the run in which a handle is closed once more after its
  connection was handed to another goroutine.\<close>

theorem pool_exclusive:
  assumes "run_events pool_step (pool_start cap) es = Some s" and "prompt_closes (pool_start cap) es"
  shows "(owner s t = Some r \<longrightarrow> owner s u = Some r \<longrightarrow> t = u)
    \<and> (r \<in> set (idle_conns (pool s)) \<longrightarrow> owner s t \<noteq> Some r)
    \<and> distinct (idle_conns (pool s))
    \<and> card (dom (owner s)) \<le> nat (if cap \<le> 0 then 10 else cap)
    \<and> (pc s t = Releasing r \<longrightarrow> pool_step s (Release t) \<noteq> None)"
proof -
  have I: "pool_inv s" using assms by (rule pool_inv_run)
  have "max_capacity (pool s) = nat (if cap \<le> 0 then 10 else cap)"
    by (rule run_events_inv [OF assms(1), where I = "\<lambda>s. max_capacity (pool s) = nat (if cap \<le> 0 then 10 else cap)"])
      (simp add: pool_start_def new_conn_pool_def Let_def, erule pool_step_capacity)
  moreover have "card (dom (owner s)) \<le> next_conn (pool s)"
    using partitioned_count [of "idle_conns (pool s)" "owner s" "next_conn (pool s)"] I
    by (simp add: pool_inv_def)
  moreover have "r \<in> set (idle_conns (pool s)) \<longrightarrow> owner s t \<noteq> Some r" "distinct (idle_conns (pool s))"
    using I by (auto simp: pool_inv_def partitioned_def ran_def)
  moreover have "pc s t = Releasing r \<longrightarrow> pool_step s (Release t) \<noteq> None"
    using release_has_room [OF I, of t r] by (simp add: owner_def)
  ultimately show ?thesis using I partitioned_inj [of _ "owner s" _ t r u]
    by (auto simp: pool_inv_def)
qed

text \<open>the statistics are exact. In every state reached with prompt closes, ActiveConns is the number of connections
  goroutines have and not yet given back, and IdleConns the number waiting in the pool.\<close>

theorem pool_stats_exact:
  assumes "run_events pool_step (pool_start cap) es = Some s" and "prompt_closes (pool_start cap) es"
  shows "stat_active (pool_stats_of (pool s)) = int (card (dom (owner s)))
    \<and> stat_idle (pool_stats_of (pool s)) = int (length (idle_conns (pool s)))"
proof -
  have I: "pool_inv s" using assms by (rule pool_inv_run)
  with partitioned_count [of "idle_conns (pool s)" "owner s" "next_conn (pool s)"]
  have "length (idle_conns (pool s)) + card (dom (owner s)) + tokens (pool s) = max_capacity (pool s)"
    by (simp add: pool_inv_def)
  then show ?thesis by (simp add: pool_stats_of_def Let_def)
qed

text \<open>In the example the first goroutine closes its handle three times before the second one gets the
  connection.\<close>

definition demo_pool_events :: "pool_event list" where
  "demo_pool_events = [AcquireIdlePoll 1, AcquireTokenPoll 1 5, AcquireIdlePoll 2, AcquireTokenPoll 2 6,
     CloseCas 1, StaleClose 3 0, Release 1, StaleClose 1 0, WakeIdle 2]"

lemmas demo_pool_simps = demo_pool_events_def pool_start_def new_conn_pool_def take_idle_def take_token_def
  close_cas_def release_conn_def set_released_def goto_def owner_def Let_def

lemma demo_pool_runs:
  "\<exists>s. run_events pool_step (pool_start 1) demo_pool_events = Some s \<and> owner s 2 = Some 0 \<and> owner s 1 = None"
  "prompt_closes (pool_start 1) demo_pool_events"
  by (simp_all add: demo_pool_simps)

theorem pool_exclusive_witness:
  "\<exists>s. run_events pool_step (pool_start 1) demo_pool_events = Some s \<and> owner s 2 = Some 0
     \<and> owner s 1 \<noteq> Some 0 \<and> card (dom (owner s)) \<le> 1"
proof -
  obtain s where s: "run_events pool_step (pool_start 1) demo_pool_events = Some s" "owner s 2 = Some 0"
    using demo_pool_runs(1) by blast
  with pool_exclusive [OF s(1) demo_pool_runs(2), of 1 0 2] show ?thesis by auto
qed

theorem pool_stats_exact_witness:
  "\<exists>s. run_events pool_step (pool_start 1) demo_pool_events = Some s
     \<and> stat_active (pool_stats_of (pool s)) = int (card (dom (owner s)))"
  using demo_pool_runs pool_stats_exact [of 1 demo_pool_events] by blast

text \<open>The flag of \<open>Close\<close> guards a handle only until the connection is handed out again:
  \<open>Acquire\<close> clears the flag of the same object. A goroutine acquires and closes, another one is handed
  the same connection, and the first closes its stale handle again: the compare-and-swap succeeds, and
  a third goroutine is handed the connection the second still holds.\<close>

theorem stale_close_shares_connection:
  "\<exists>s. run_events pool_step (pool_start 1)
       [AcquireIdlePoll 1, AcquireTokenPoll 1 5, CloseCas 1, Release 1, AcquireIdlePoll 2,
        StaleClose 1 0, Release 1, AcquireIdlePoll 3] = Some s
     \<and> pc s 2 = Holding 0 \<and> pc s 3 = Holding 0"
  by (simp add: demo_pool_simps)

end
