(* ===== verification/Consumer_Pool.thy ===== *)
theory Consumer_Pool
  imports Go_Prelude "HOL-Library.Multiset"
begin

text \<open>
  \<open>patterns/15_messaging/consumer_lifecycle.go\<close>: a pool of workers behind a buffered queue. \<open>Enqueue\<close>
  sends while it holds the mutex, so it is two steps, taking the lock and sending (or giving up because the
  context is done); \<open>Shutdown\<close> takes the same mutex, closes the queue and waits for the workers or for
  the time-out; called again, it returns at once. All of it is interleaved, with any number of calls of each.
\<close>

text \<open>How far a call of \<open>Shutdown\<close> is, and what it returned.\<close>

datatype shutdown_call = NotCalled | Waiting | ReturnedNil | ReturnedTimeout

record 'a consumer_pool =
  consumer_size :: nat
  consumer_buffer :: nat
  consumer_queue :: "'a list"
  consumer_workers :: "nat \<Rightarrow> 'a option"
  consumer_lock :: "'a option"
  consumer_closed :: bool
  consumer_cancelled :: bool
  shutdown_calls :: "nat \<Rightarrow> shutdown_call"
  closing_call :: "nat option"
  accepted_tasks :: "'a list"
  started_tasks :: "'a list"
  finished_tasks :: "'a list"

definition new_consumer_pool :: "int \<Rightarrow> int \<Rightarrow> 'a consumer_pool" where
  "new_consumer_pool concurrency queueBuffer =
     \<lparr>consumer_size = nat (if concurrency \<le> 0 then 4 else concurrency),
      consumer_buffer = nat (if queueBuffer \<le> 0 then 50 else queueBuffer),
      consumer_queue = [], consumer_workers = (\<lambda>w. None), consumer_lock = None, consumer_closed = False, consumer_cancelled = False,
      shutdown_calls = (\<lambda>c. NotCalled), closing_call = None, accepted_tasks = [], started_tasks = [], finished_tasks = []\<rparr>"

datatype 'a consumer_pool_event =
    EnqueueLock 'a | EnqueueSend | EnqueueDone
  | TakeTask nat | FinishTask nat
  | ShutdownLock nat | ShutdownWait nat | ShutdownTimeout nat | CancelParent

fun consumer_pool_step :: "'a consumer_pool \<Rightarrow> 'a consumer_pool_event \<Rightarrow> 'a consumer_pool option" where
  "consumer_pool_step s (EnqueueLock t) =
     (if consumer_lock s \<noteq> None then None
      else if consumer_closed s then Some s
      else Some (s\<lparr>consumer_lock := Some t\<rparr>))"
| "consumer_pool_step s EnqueueSend =
     (case consumer_lock s of
        None \<Rightarrow> None
      | Some t \<Rightarrow>
          if length (consumer_queue s) < consumer_buffer s then
            Some (s\<lparr>consumer_queue := consumer_queue s @ [t], consumer_lock := None, accepted_tasks := accepted_tasks s @ [t]\<rparr>)
          else None)"
| "consumer_pool_step s EnqueueDone =
     (if consumer_lock s \<noteq> None \<and> consumer_cancelled s then Some (s\<lparr>consumer_lock := None\<rparr>) else None)"
| "consumer_pool_step s (TakeTask w) =
     (if w < consumer_size s \<and> consumer_workers s w = None then
        (case consumer_queue s of
           [] \<Rightarrow> None
         | t # ts \<Rightarrow> Some (s\<lparr>consumer_queue := ts, consumer_workers := (consumer_workers s)(w := Some t),
                            started_tasks := started_tasks s @ [t]\<rparr>))
      else None)"
| "consumer_pool_step s (FinishTask w) =
     (case consumer_workers s w of
        None \<Rightarrow> None
      | Some t \<Rightarrow> Some (s\<lparr>consumer_workers := (consumer_workers s)(w := None), finished_tasks := finished_tasks s @ [t]\<rparr>))"
| "consumer_pool_step s (ShutdownLock c) =
     (if consumer_lock s \<noteq> None \<or> shutdown_calls s c \<noteq> NotCalled then None
      else if consumer_closed s then Some (s\<lparr>shutdown_calls := (shutdown_calls s)(c := ReturnedNil)\<rparr>)
      else Some (s\<lparr>consumer_closed := True, closing_call := Some c,
                   shutdown_calls := (shutdown_calls s)(c := Waiting)\<rparr>))"
| "consumer_pool_step s (ShutdownWait c) =
     (if shutdown_calls s c = Waiting \<and> consumer_queue s = [] \<and> (\<forall>w < consumer_size s. consumer_workers s w = None)
      then Some (s\<lparr>shutdown_calls := (shutdown_calls s)(c := ReturnedNil), consumer_cancelled := True\<rparr>) else None)"
| "consumer_pool_step s (ShutdownTimeout c) =
     (if shutdown_calls s c = Waiting
      then Some (s\<lparr>shutdown_calls := (shutdown_calls s)(c := ReturnedTimeout), consumer_cancelled := True\<rparr>) else None)"
| "consumer_pool_step s CancelParent = Some (s\<lparr>consumer_cancelled := True\<rparr>)"


section \<open>Draining\<close>

definition in_work :: "'a consumer_pool \<Rightarrow> 'a multiset" where
  "in_work s = (\<Sum>w \<in> {..< consumer_size s}. case consumer_workers s w of None \<Rightarrow> {#} | Some t \<Rightarrow> {#t#})"

definition consumer_tasks :: "'a consumer_pool \<Rightarrow> bool" where
  "consumer_tasks s \<longleftrightarrow>
     accepted_tasks s = started_tasks s @ consumer_queue s
   \<and> mset (started_tasks s) = mset (finished_tasks s) + in_work s
   \<and> length (consumer_queue s) \<le> consumer_buffer s
   \<and> (\<forall>w t. consumer_workers s w = Some t \<longrightarrow> w < consumer_size s)"

text \<open>The calls of \<open>Shutdown\<close>: only the one that closed the queue waits or times out, and when it has returned
  nil there is nothing left to do.\<close>

definition consumer_calls :: "'a consumer_pool \<Rightarrow> bool" where
  "consumer_calls s \<longleftrightarrow>
     (consumer_closed s \<longrightarrow> consumer_lock s = None)
   \<and> (consumer_closed s \<longleftrightarrow> closing_call s \<noteq> None)
   \<and> (\<forall>c. shutdown_calls s c \<noteq> NotCalled \<longrightarrow> consumer_closed s)
   \<and> (\<forall>c. shutdown_calls s c = Waiting \<or> shutdown_calls s c = ReturnedTimeout \<longrightarrow> closing_call s = Some c)
   \<and> (\<forall>c. closing_call s = Some c \<longrightarrow> shutdown_calls s c \<noteq> NotCalled)"

definition consumer_drained :: "'a consumer_pool \<Rightarrow> bool" where
  "consumer_drained s \<longleftrightarrow>
     (\<forall>c. closing_call s = Some c \<longrightarrow> shutdown_calls s c = ReturnedNil \<longrightarrow>
        consumer_queue s = [] \<and> (\<forall>w. consumer_workers s w = None))"

lemma in_work_cong:
  "consumer_size t = consumer_size s \<Longrightarrow> consumer_workers t = consumer_workers s \<Longrightarrow> in_work t = in_work s"
  by (simp add: in_work_def)

lemma in_work_start:
  fixes s t :: "'a consumer_pool"
  assumes "w < consumer_size s" and "consumer_workers s w = None" and "consumer_workers t = (consumer_workers s)(w := Some x)"
    and "consumer_size t = consumer_size s"
  shows "in_work t = in_work s + {#x#}"
proof -
  define S where "S r = (\<Sum>v \<in> {..< consumer_size s} - {w}. case consumer_workers r v of None \<Rightarrow> {#} | Some t \<Rightarrow> {#t#})"
    for r :: "'a consumer_pool"
  have "in_work r = (case consumer_workers r w of None \<Rightarrow> {#} | Some t \<Rightarrow> {#t#}) + S r"
    if "consumer_size r = consumer_size s" for r :: "'a consumer_pool"
    unfolding in_work_def that S_def by (rule sum.remove) (use assms(1) in auto)
  from this [of s] this [OF assms(4)] have "in_work s = S s" "in_work t = {#x#} + S t" using assms(2,3) by simp_all
  moreover have "S t = S s" unfolding S_def by (rule sum.cong) (simp_all add: assms(3))
  ultimately show ?thesis by simp
qed

lemma in_work_end:
  assumes "w < consumer_size s" and "consumer_workers s w = Some x" and "consumer_workers t = (consumer_workers s)(w := None)"
    and "consumer_size t = consumer_size s"
  shows "in_work s = in_work t + {#x#}"
  by (rule in_work_start [of w]) (use assms in auto)

lemma consumer_tasks_step:
  assumes "consumer_tasks s" and "consumer_pool_step s e = Some t"
  shows "consumer_tasks t"
proof (cases e)
  case (TakeTask w)
  then obtain x xs where s: "w < consumer_size s" "consumer_workers s w = None" "consumer_queue s = x # xs"
    "t = s\<lparr>consumer_queue := xs, consumer_workers := (consumer_workers s)(w := Some x), started_tasks := started_tasks s @ [x]\<rparr>"
    using assms(2) by (auto split: if_splits list.splits)
  have "in_work t = in_work s + {#x#}" by (rule in_work_start) (use s in auto)
  with s assms(1) show ?thesis unfolding consumer_tasks_def by auto
next
  case (FinishTask w)
  then obtain x where s: "consumer_workers s w = Some x"
    "t = s\<lparr>consumer_workers := (consumer_workers s)(w := None), finished_tasks := finished_tasks s @ [x]\<rparr>"
    using assms(2) by (auto split: option.splits)
  have w: "w < consumer_size s" using assms(1) s(1) by (auto simp: consumer_tasks_def)
  have "in_work s = in_work t + {#x#}" by (rule in_work_end [OF w s(1)]) (use s in auto)
  with s assms(1) show ?thesis unfolding consumer_tasks_def by auto
qed (use assms in_work_cong [of t s] in \<open>auto simp: consumer_tasks_def split: option.splits if_splits\<close>)

lemma consumer_calls_step:
  assumes "consumer_calls s" and "consumer_pool_step s e = Some t"
  shows "consumer_calls t"
proof (cases e)
  case (ShutdownLock c)
  then have "consumer_lock s = None" "shutdown_calls s c = NotCalled" using assms(2) by (auto split: if_splits)
  with assms ShutdownLock show ?thesis
    unfolding consumer_calls_def by (cases "consumer_closed s") (auto split: if_splits)
next
  case (ShutdownWait c)
  with assms show ?thesis unfolding consumer_calls_def by (auto split: if_splits)
next
  case (ShutdownTimeout c)
  with assms show ?thesis unfolding consumer_calls_def by (auto split: if_splits)
qed (use assms in \<open>auto simp: consumer_calls_def split: option.splits if_splits list.splits\<close>)

lemma workers_idle:
  assumes "consumer_tasks s" and "\<forall>w < consumer_size s. consumer_workers s w = None"
  shows "consumer_workers s w = None"
  using assms unfolding consumer_tasks_def by (metis not_Some_eq)

lemma consumer_drained_step:
  assumes "consumer_tasks s" and "consumer_calls s" and "consumer_drained s" and "consumer_pool_step s e = Some t"
  shows "consumer_drained t"
proof (cases e)
  case (ShutdownLock c)
  then have t: "consumer_queue t = consumer_queue s" "consumer_workers t = consumer_workers s"
    "closing_call s \<noteq> None \<and> closing_call t = closing_call s \<and> closing_call s \<noteq> Some c
      \<and> shutdown_calls t = (shutdown_calls s)(c := ReturnedNil)
      \<or> closing_call t = Some c \<and> shutdown_calls t c = Waiting"
    using assms(2,4) by (auto simp: consumer_calls_def split: if_splits)
  with assms(3) show ?thesis unfolding consumer_drained_def t by (auto split: if_splits)
next
  case (ShutdownWait c)
  then have "t = s\<lparr>shutdown_calls := (shutdown_calls s)(c := ReturnedNil), consumer_cancelled := True\<rparr>" "consumer_queue s = []"
    "\<forall>w < consumer_size s. consumer_workers s w = None" using assms(4) by (auto split: if_splits)
  with workers_idle [OF assms(1)] show ?thesis by (simp add: consumer_drained_def)
next
  case EnqueueSend
  then have "closing_call s = None" using assms(2,4) by (auto simp: consumer_calls_def split: option.splits)
  with EnqueueSend assms(4) show ?thesis by (auto simp: consumer_drained_def split: option.splits if_splits)
next
  case (FinishTask w)
  then show ?thesis using assms(3,4) by (auto simp: consumer_drained_def split: option.splits)
next
  case (TakeTask w)
  then obtain x xs where "consumer_queue s = x # xs" "closing_call t = closing_call s" "shutdown_calls t = shutdown_calls s"
    using assms(4) by (auto split: if_splits list.splits)
  then show ?thesis using assms(3) by (auto simp: consumer_drained_def)
qed (use assms(3,4) in \<open>auto simp: consumer_drained_def split: if_splits\<close>)

definition consumer_pool_inv :: "'a consumer_pool \<Rightarrow> bool" where
  "consumer_pool_inv s \<longleftrightarrow> consumer_tasks s \<and> consumer_calls s \<and> consumer_drained s"

lemma consumer_pool_inv_step: "consumer_pool_inv s \<Longrightarrow> consumer_pool_step s e = Some t \<Longrightarrow> consumer_pool_inv t"
  unfolding consumer_pool_inv_def
  by (blast intro: consumer_tasks_step consumer_calls_step consumer_drained_step)

lemma consumer_pool_inv_new: "consumer_pool_inv (new_consumer_pool n m)"
  by (simp add: consumer_pool_inv_def consumer_tasks_def consumer_calls_def consumer_drained_def
      new_consumer_pool_def in_work_def)

lemma consumer_pool_inv_run: "run_events consumer_pool_step (new_consumer_pool n m) es = Some s \<Longrightarrow> consumer_pool_inv s"
  by (rule run_events_inv [where I = consumer_pool_inv]) (auto intro: consumer_pool_inv_new consumer_pool_inv_step)

text \<open>C23: the shutdown that closed the queue and reports success has drained the pool. In every interleaving of
  producers, workers and any number of calls of \<open>Shutdown\<close>, tasks start in the order in which they were accepted
  and none is lost or run twice; once the call that closed the queue has returned without an error, every
  accepted task has started and finished, and so it stays. Only that call waits or times out: any other call made later
  returns nil at once, whether the pool is drained or not (\<open>second_shutdown_returns_early\<close>).\<close>

theorem shutdown_drains:
  assumes "run_events consumer_pool_step (new_consumer_pool n m) es = Some s"
  shows "accepted_tasks s = started_tasks s @ consumer_queue s
    \<and> mset (finished_tasks s) \<subseteq># mset (accepted_tasks s)
    \<and> (closing_call s = Some c \<longrightarrow> shutdown_calls s c = ReturnedNil \<longrightarrow>
         mset (finished_tasks s) = mset (accepted_tasks s) \<and> consumer_pool_step s (TakeTask w) = None
         \<and> consumer_pool_step s EnqueueSend = None)
    \<and> (closing_call s \<noteq> Some c \<longrightarrow> shutdown_calls s c = NotCalled
         \<or> shutdown_calls s c = ReturnedNil \<and> consumer_closed s)"
proof -
  have I: "accepted_tasks s = started_tasks s @ consumer_queue s" "mset (started_tasks s) = mset (finished_tasks s) + in_work s"
    "closing_call s = Some c \<Longrightarrow> shutdown_calls s c = ReturnedNil \<Longrightarrow> consumer_queue s = [] \<and> (\<forall>w. consumer_workers s w = None)"
    "consumer_closed s \<Longrightarrow> consumer_lock s = None" "closing_call s = Some c \<Longrightarrow> consumer_closed s"
    "shutdown_calls s c \<noteq> NotCalled \<Longrightarrow> consumer_closed s"
    "shutdown_calls s c = Waiting \<or> shutdown_calls s c = ReturnedTimeout \<Longrightarrow> closing_call s = Some c"
    using consumer_pool_inv_run [OF assms]
    unfolding consumer_pool_inv_def consumer_tasks_def consumer_calls_def consumer_drained_def by blast+
  have "in_work s = {#}" if "\<forall>w. consumer_workers s w = None" using that by (simp add: in_work_def)
  moreover have "closing_call s \<noteq> Some c \<longrightarrow> shutdown_calls s c = NotCalled
      \<or> shutdown_calls s c = ReturnedNil \<and> consumer_closed s"
    using I(6,7) by (cases "shutdown_calls s c") auto
  ultimately show ?thesis using I(1-5) by auto
qed

theorem shutdown_drains_witness:
  "\<exists>s. run_events consumer_pool_step (new_consumer_pool 1 1)
       [EnqueueLock ''t'', EnqueueSend, ShutdownLock 7, TakeTask 0, FinishTask 0, ShutdownWait 7] = Some s
     \<and> closing_call s = Some 7 \<and> shutdown_calls s 7 = ReturnedNil \<and> accepted_tasks s = [''t'']
     \<and> mset (finished_tasks s) = mset (accepted_tasks s)"
proof -
  obtain s where s: "run_events consumer_pool_step (new_consumer_pool 1 1)
       [EnqueueLock ''t'', EnqueueSend, ShutdownLock 7, TakeTask 0, FinishTask 0, ShutdownWait 7] = Some s"
    "closing_call s = Some 7" "shutdown_calls s 7 = ReturnedNil" "accepted_tasks s = [''t'']"
    by (simp add: new_consumer_pool_def)
  with shutdown_drains [OF s(1), of 7 0] show ?thesis by blast
qed

text \<open>A second \<open>Shutdown\<close> returns nil although an accepted task has not even started, while the first one still
  waits and after it has timed out.\<close>

theorem second_shutdown_returns_early:
  "\<exists>s. run_events consumer_pool_step (new_consumer_pool 1 1)
       [EnqueueLock ''t'', EnqueueSend, ShutdownLock 1, ShutdownLock 2, ShutdownTimeout 1, ShutdownLock 3] = Some s
     \<and> shutdown_calls s 2 = ReturnedNil \<and> shutdown_calls s 3 = ReturnedNil
     \<and> accepted_tasks s = [''t''] \<and> started_tasks s = [] \<and> finished_tasks s = []"
  by (simp add: new_consumer_pool_def)

text \<open>a producer that waits for room keeps \<open>Shutdown\<close> from starting, so its time-out does not count. With
  one worker busy and the queue full, a producer holds the mutex while it waits; until the worker finishes
  or the context is cancelled, no step of \<open>Shutdown\<close>, its time-out included, is possible.\<close>

theorem blocked_producer_blocks_shutdown:
  "\<exists>s. run_events consumer_pool_step (new_consumer_pool 1 1)
       [EnqueueLock a, EnqueueSend, TakeTask 0, EnqueueLock b, EnqueueSend, EnqueueLock c] = Some s
     \<and> \<not> consumer_cancelled s
     \<and> (\<forall>c. consumer_pool_step s (ShutdownLock c) = None \<and> consumer_pool_step s (ShutdownWait c) = None
            \<and> consumer_pool_step s (ShutdownTimeout c) = None)
     \<and> consumer_pool_step s EnqueueSend = None \<and> consumer_pool_step s EnqueueDone = None \<and> (\<forall>w. consumer_pool_step s (TakeTask w) = None)"
  by (simp add: new_consumer_pool_def)

end
