(* ===== verification/Worker_Groups.thy ===== *)
theory Worker_Groups
  imports Go_Prelude "HOL-Library.Multiset"
begin

text \<open>
  \<open>patterns/09_concurrency/worker_pool.go\<close>: the bounded worker pool, and the bookkeeping over numbered goroutines that
  the other concurrent pipelines share.

  The goroutines run interleaved: an event is one channel operation of one goroutine, and it is enabled when the
  operation can proceed. Where a \<open>select\<close> has several ready cases each is an event of its own. What a task's function
  returns is a function \<open>fn\<close> of the task. Lists that only record what happened
  (\<open>submitted\<close>, \<open>received\<close>, \<open>abandoned\<close>) are not read by any step.
\<close>


section \<open>A list of goroutines\<close>

text \<open>Where a worker stands in its loop: waiting for a task, running one, sending a result, or returned.\<close>

datatype ('a, 'r) worker_phase = WIdle | WRunning 'a | WSending 'r | WExited

fun owed :: "('a \<Rightarrow> 'r) \<Rightarrow> ('a, 'r) worker_phase \<Rightarrow> 'r multiset" where
  "owed fn WIdle = {#}"
| "owed fn (WRunning t) = {#fn t#}"
| "owed fn (WSending r) = {#r#}"
| "owed fn WExited = {#}"

definition total_owed :: "('p \<Rightarrow> 'r multiset) \<Rightarrow> 'p list \<Rightarrow> 'r multiset" where
  "total_owed f ws = sum_list (map f ws)"

lemma total_owed_update:
  "w < length ws \<Longrightarrow> total_owed f (ws[w := p]) + f (ws ! w) = total_owed f ws + f p"
  unfolding total_owed_def
proof (induction ws arbitrary: w)
  case Nil
  then show ?case by simp
next
  case (Cons x xs)
  show ?case
  proof (cases w)
    case 0
    then show ?thesis by (simp add: ac_simps)
  next
    case (Suc v)
    with Cons show ?thesis by (simp add: add.assoc)
  qed
qed

lemma total_owed_zero: "(\<And>p. p \<in> set ws \<Longrightarrow> f p = {#}) \<Longrightarrow> total_owed f ws = {#}"
  unfolding total_owed_def by (induction ws) auto

lemma total_owed_idle: "f p = {#} \<Longrightarrow> total_owed f (replicate k p) = {#}"
  by (auto intro: total_owed_zero)

text \<open>The same bookkeeping for a natural measure of each goroutine.\<close>

lemma sum_list_update_nat:
  fixes f :: "'p \<Rightarrow> nat"
  shows "w < length ws \<Longrightarrow> sum_list (map f (ws[w := p])) + f (ws ! w) = sum_list (map f ws) + f p"
proof (induction ws arbitrary: w)
  case Nil
  then show ?case by simp
next
  case (Cons x xs)
  then show ?case by (cases w) auto
qed

lemma all_list_update: "\<forall>p \<in> set ws. P p \<Longrightarrow> P q \<Longrightarrow> \<forall>p \<in> set (ws[w := q]). P p"
  using set_update_subset_insert [of ws w q] by blast


section \<open>The worker pool\<close>

record ('a, 'r) bounded_pool =
  task_capacity :: nat
  task_queue :: "'a list"
  queue_closed :: bool
  pool_results :: "'r list"
  results_closed :: bool
  pool_workers :: "('a, 'r) worker_phase list"
  parent_cancelled :: bool
  pool_cancelled :: bool
  pool_panicked :: bool
  submitted_tasks :: "'a list"
  received_results :: "'r list"
  abandoned_results :: "'r list"

definition new_worker_pool :: "int \<Rightarrow> int \<Rightarrow> ('a, 'r) bounded_pool" where
  "new_worker_pool workerCount queueCapacity =
     \<lparr>task_capacity = nat (if queueCapacity \<le> 0 then 100 else queueCapacity),
      task_queue = [], queue_closed = False, pool_results = [], results_closed = False,
      pool_workers = replicate (nat (if workerCount \<le> 0 then 4 else workerCount)) WIdle,
      parent_cancelled = False, pool_cancelled = False, pool_panicked = False,
      submitted_tasks = [], received_results = [], abandoned_results = []\<rparr>"

definition pool_ctx_done :: "('a, 'r) bounded_pool \<Rightarrow> bool" where
  "pool_ctx_done s \<longleftrightarrow> parent_cancelled s \<or> pool_cancelled s"

definition set_worker :: "('a, 'r) bounded_pool \<Rightarrow> nat \<Rightarrow> ('a, 'r) worker_phase \<Rightarrow> ('a, 'r) bounded_pool" where
  "set_worker s w p = s\<lparr>pool_workers := (pool_workers s)[w := p]\<rparr>"

datatype 'a workers_event =
    SubmitSend 'a | SubmitRefused 'a
  | WorkerTake nat | WorkerRun nat | WorkerSend nat | WorkerCancelled nat | WorkerDrained nat
  | ShutdownClose | ShutdownFinish
  | ReceiveResult | ParentCancel

text \<open>\<open>Submit\<close>: the send waits for room; on a closed queue it panics. With the context done the other case of the
  \<open>select\<close> can be taken.\<close>

definition submit_send :: "('a, 'r) bounded_pool \<Rightarrow> 'a \<Rightarrow> ('a, 'r) bounded_pool option" where
  "submit_send s t =
     (if queue_closed s then Some (s\<lparr>pool_panicked := True\<rparr>)
      else if length (task_queue s) < task_capacity s then
        Some (s\<lparr>task_queue := task_queue s @ [t], submitted_tasks := submitted_tasks s @ [t]\<rparr>)
      else None)"

text \<open>The loop of a worker: one receive or one send at a time.\<close>

definition worker_step :: "('a \<Rightarrow> 'r) \<Rightarrow> ('a, 'r) bounded_pool \<Rightarrow> 'a workers_event \<Rightarrow> ('a, 'r) bounded_pool option" where
  "worker_step fn s e =
     (case e of
        WorkerTake w \<Rightarrow>
          (if w < length (pool_workers s) \<and> pool_workers s ! w = WIdle then
             (case task_queue s of
                [] \<Rightarrow> None
              | t # ts \<Rightarrow> Some (set_worker (s\<lparr>task_queue := ts\<rparr>) w (WRunning t)))
           else None)
      | WorkerRun w \<Rightarrow>
          (if w < length (pool_workers s) then
             (case pool_workers s ! w of
                WRunning t \<Rightarrow> Some (set_worker s w (WSending (fn t)))
              | _ \<Rightarrow> None)
           else None)
      | WorkerSend w \<Rightarrow>
          (if w < length (pool_workers s) then
             (case pool_workers s ! w of
                WSending r \<Rightarrow>
                  (if length (pool_results s) < task_capacity s
                   then Some (set_worker (s\<lparr>pool_results := pool_results s @ [r]\<rparr>) w WIdle)
                   else None)
              | _ \<Rightarrow> None)
           else None)
      | WorkerCancelled w \<Rightarrow>
          (if w < length (pool_workers s) \<and> pool_ctx_done s then
             (case pool_workers s ! w of
                WIdle \<Rightarrow> Some (set_worker s w WExited)
              | WSending r \<Rightarrow> Some (set_worker (s\<lparr>abandoned_results := abandoned_results s @ [r]\<rparr>) w WExited)
              | _ \<Rightarrow> None)
           else None)
      | WorkerDrained w \<Rightarrow>
          (if w < length (pool_workers s) \<and> pool_workers s ! w = WIdle \<and> queue_closed s \<and> task_queue s = []
           then Some (set_worker s w WExited)
           else None)
      | _ \<Rightarrow> None)"

text \<open>\<open>Shutdown\<close> up to its wait, and from the end of the wait on.\<close>

definition shutdown_close :: "('a, 'r) bounded_pool \<Rightarrow> ('a, 'r) bounded_pool" where
  "shutdown_close s = (if queue_closed s then s\<lparr>pool_panicked := True\<rparr> else s\<lparr>queue_closed := True\<rparr>)"

definition shutdown_finish :: "('a, 'r) bounded_pool \<Rightarrow> ('a, 'r) bounded_pool option" where
  "shutdown_finish s =
     (if queue_closed s \<and> \<not> results_closed s \<and> (\<forall>p \<in> set (pool_workers s). p = WExited)
      then Some (s\<lparr>results_closed := True, pool_cancelled := True\<rparr>)
      else None)"

definition workers_step :: "('a \<Rightarrow> 'r) \<Rightarrow> ('a, 'r) bounded_pool \<Rightarrow> 'a workers_event \<Rightarrow> ('a, 'r) bounded_pool option" where
  "workers_step fn s e =
     (if pool_panicked s then None
      else case e of
        SubmitSend t \<Rightarrow> submit_send s t
      | SubmitRefused t \<Rightarrow> (if pool_ctx_done s then Some s else None)
      | ShutdownClose \<Rightarrow> Some (shutdown_close s)
      | ShutdownFinish \<Rightarrow> shutdown_finish s
      | ReceiveResult \<Rightarrow>
          (case pool_results s of
             [] \<Rightarrow> None
           | r # rs \<Rightarrow> Some (s\<lparr>pool_results := rs, received_results := received_results s @ [r]\<rparr>))
      | ParentCancel \<Rightarrow> Some (s\<lparr>parent_cancelled := True\<rparr>)
      | _ \<Rightarrow> worker_step fn s e)"

text \<open>Every accepted task is in exactly one place.\<close>

definition pool_account :: "('a \<Rightarrow> 'r) \<Rightarrow> ('a, 'r) bounded_pool \<Rightarrow> bool" where
  "pool_account fn s \<longleftrightarrow>
     image_mset fn (mset (submitted_tasks s)) =
       image_mset fn (mset (task_queue s)) + total_owed (owed fn) (pool_workers s) + mset (pool_results s)
       + mset (received_results s) + mset (abandoned_results s)"

text \<open>As long as nobody cancels the parent context, nothing is abandoned and workers return only when the closed
  queue is empty.\<close>

definition workers_inv :: "('a \<Rightarrow> 'r) \<Rightarrow> ('a, 'r) bounded_pool \<Rightarrow> bool" where
  "workers_inv fn s \<longleftrightarrow>
     pool_account fn s \<and> 0 < task_capacity s \<and> pool_workers s \<noteq> [] \<and>
     length (task_queue s) \<le> task_capacity s \<and> length (pool_results s) \<le> task_capacity s \<and>
     (pool_cancelled s \<longrightarrow> results_closed s) \<and>
     (results_closed s \<longrightarrow> queue_closed s \<and> (\<forall>p \<in> set (pool_workers s). p = WExited)) \<and>
     (\<not> parent_cancelled s \<longrightarrow> abandoned_results s = [] \<and>
        (WExited \<in> set (pool_workers s) \<longrightarrow> queue_closed s \<and> task_queue s = []))"

lemma pool_inv_new: "workers_inv fn (new_worker_pool m n)"
  by (auto simp: workers_inv_def new_worker_pool_def pool_account_def total_owed_idle)

lemma set_worker_fields [simp]:
  "pool_workers (set_worker s w p) = (pool_workers s)[w := p]"
  "task_queue (set_worker s w p) = task_queue s" "queue_closed (set_worker s w p) = queue_closed s"
  "pool_results (set_worker s w p) = pool_results s" "results_closed (set_worker s w p) = results_closed s"
  "parent_cancelled (set_worker s w p) = parent_cancelled s" "pool_cancelled (set_worker s w p) = pool_cancelled s"
  "task_capacity (set_worker s w p) = task_capacity s" "submitted_tasks (set_worker s w p) = submitted_tasks s"
  "received_results (set_worker s w p) = received_results s" "abandoned_results (set_worker s w p) = abandoned_results s"
  "pool_panicked (set_worker s w p) = pool_panicked s"
  by (simp_all add: set_worker_def)

lemma pool_account_worker:
  assumes "pool_account fn s" and "w < length (pool_workers s)"
    and "image_mset fn (mset (task_queue t)) + owed fn p + mset (pool_results t) + mset (received_results t)
           + mset (abandoned_results t)
         = image_mset fn (mset (task_queue s)) + owed fn (pool_workers s ! w) + mset (pool_results s)
           + mset (received_results s) + mset (abandoned_results s)"
    and "submitted_tasks t = submitted_tasks s" and "pool_workers t = (pool_workers s)[w := p]"
  shows "pool_account fn t"
proof -
  let ?r = "owed fn (pool_workers s ! w)"
  have "total_owed (owed fn) (pool_workers t) + ?r = total_owed (owed fn) (pool_workers s) + owed fn p"
    using total_owed_update [OF assms(2), of "owed fn" p] assms(5) by simp
  then have "image_mset fn (mset (task_queue t)) + total_owed (owed fn) (pool_workers t) + mset (pool_results t)
       + mset (received_results t) + mset (abandoned_results t) + ?r
     = image_mset fn (mset (task_queue t)) + owed fn p + mset (pool_results t) + mset (received_results t)
       + mset (abandoned_results t) + total_owed (owed fn) (pool_workers s)"
    by (simp add: ac_simps)
  also have "\<dots> = image_mset fn (mset (submitted_tasks s)) + ?r"
    using assms(1,3) by (simp add: pool_account_def ac_simps)
  finally show ?thesis
    using assms(4) by (simp add: pool_account_def)
qed

lemma worker_step_inv:
  assumes I: "workers_inv fn s" and st: "worker_step fn s e = Some t"
  shows "workers_inv fn t"
proof -
  have acc: "pool_account fn s" using I by (simp add: workers_inv_def)
  have closed: "\<not> results_closed s" if "w < length (pool_workers s)" "pool_workers s ! w \<noteq> WExited" for w
    using I that by (metis nth_mem workers_inv_def)
  have upd: "WExited \<in> set ((pool_workers s)[w := p]) \<Longrightarrow> p \<noteq> WExited \<Longrightarrow> WExited \<in> set (pool_workers s)" for w p
    using set_update_subset_insert [of "pool_workers s" w p] by auto
  show ?thesis
  proof (cases e)
    case (WorkerTake w)
    with st obtain q qs where h: "w < length (pool_workers s)" "pool_workers s ! w = WIdle" "task_queue s = q # qs"
      "t = set_worker (s\<lparr>task_queue := qs\<rparr>) w (WRunning q)"
      by (auto simp: worker_step_def split: if_splits list.splits)
    have "pool_account fn t"
      by (rule pool_account_worker [OF acc h(1), where p = "WRunning q"]) (simp_all add: h)
    with I h closed [OF h(1)] show ?thesis
      by (auto simp: workers_inv_def dest!: upd)
  next
    case (WorkerRun w)
    with st obtain q where h: "w < length (pool_workers s)" "pool_workers s ! w = WRunning q"
      "t = set_worker s w (WSending (fn q))"
      by (auto simp: worker_step_def split: if_splits worker_phase.splits)
    have "pool_account fn t"
      by (rule pool_account_worker [OF acc h(1), where p = "WSending (fn q)"]) (simp_all add: h)
    with I h closed [OF h(1)] show ?thesis
      by (auto simp: workers_inv_def dest!: upd)
  next
    case (WorkerSend w)
    with st obtain r where h: "w < length (pool_workers s)" "pool_workers s ! w = WSending r"
      "length (pool_results s) < task_capacity s"
      "t = set_worker (s\<lparr>pool_results := pool_results s @ [r]\<rparr>) w WIdle"
      by (auto simp: worker_step_def split: if_splits worker_phase.splits)
    have "pool_account fn t"
      by (rule pool_account_worker [OF acc h(1), where p = WIdle]) (simp_all add: h)
    with I h closed [OF h(1)] show ?thesis
      by (auto simp: workers_inv_def dest!: upd)
  next
    case (WorkerCancelled w)
    with st have w: "w < length (pool_workers s)" and d: "pool_ctx_done s"
      by (auto simp: worker_step_def split: if_splits)
    from st WorkerCancelled w have ne: "pool_workers s ! w \<noteq> WExited"
      by (auto simp: worker_step_def split: if_splits)
    have pc: "parent_cancelled s" using closed [OF w ne] d I by (auto simp: workers_inv_def pool_ctx_done_def)
    consider "pool_workers s ! w = WIdle" "t = set_worker s w WExited"
      | r where "pool_workers s ! w = WSending r"
          "t = set_worker (s\<lparr>abandoned_results := abandoned_results s @ [r]\<rparr>) w WExited"
      using st WorkerCancelled by (auto simp: worker_step_def split: if_splits worker_phase.splits)
    then have "pool_account fn t \<and> pool_workers t = (pool_workers s)[w := WExited] \<and> task_capacity t = task_capacity s \<and>
        task_queue t = task_queue s \<and> pool_results t = pool_results s \<and> pool_cancelled t = pool_cancelled s \<and>
        results_closed t = results_closed s \<and> queue_closed t = queue_closed s \<and> parent_cancelled t = parent_cancelled s"
    proof cases
      case 1
      then show ?thesis
        using pool_account_worker [OF acc w, where t = t and p = WExited] by simp
    next
      case 2
      then show ?thesis
        using pool_account_worker [OF acc w, where t = t and p = WExited] by simp
    qed
    with I pc closed [OF w ne] show ?thesis
      by (auto simp: workers_inv_def)
  next
    case (WorkerDrained w)
    with st have h: "w < length (pool_workers s)" "pool_workers s ! w = WIdle" "queue_closed s" "task_queue s = []"
      "t = set_worker s w WExited"
      by (auto simp: worker_step_def split: if_splits)
    have "pool_account fn t"
      by (rule pool_account_worker [OF acc h(1), where p = WExited]) (simp_all add: h)
    with I h closed [OF h(1)] show ?thesis
      by (auto simp: workers_inv_def)
  qed (use st in \<open>simp_all add: worker_step_def\<close>)
qed

lemma pool_step_inv:
  assumes I: "workers_inv fn s" and st: "workers_step fn s e = Some t"
  shows "workers_inv fn t"
proof (cases e)
  case (SubmitSend a)
  with I st show ?thesis
    by (auto simp: workers_step_def submit_send_def workers_inv_def pool_account_def split: if_splits)
next
  case ShutdownClose
  with I st show ?thesis
    by (auto simp: workers_step_def shutdown_close_def workers_inv_def pool_account_def split: if_splits)
next
  case ShutdownFinish
  with I st show ?thesis
    by (auto simp: workers_step_def shutdown_finish_def workers_inv_def pool_account_def split: if_splits)
next
  case ReceiveResult
  with I st show ?thesis
    by (auto simp: workers_step_def workers_inv_def pool_account_def split: if_splits list.splits)
next
  case ParentCancel
  with I st show ?thesis
    by (auto simp: workers_step_def workers_inv_def pool_account_def split: if_splits)
next
  case (SubmitRefused a)
  with I st show ?thesis by (auto simp: workers_step_def split: if_splits)
qed (use I st worker_step_inv [of fn s e t] in \<open>auto simp: workers_step_def split: if_splits\<close>)

lemma pool_run_inv: "run_events (workers_step fn) (new_worker_pool m n) es = Some t \<Longrightarrow> workers_inv fn t"
  by (erule run_events_inv [where I = "workers_inv fn"]) (auto intro: pool_inv_new pool_step_inv)

lemma worker_step_keeps:
  assumes "worker_step fn s e = Some t"
  shows "parent_cancelled t = parent_cancelled s \<and> pool_panicked t = pool_panicked s \<and>
    queue_closed t = queue_closed s \<and> submitted_tasks t = submitted_tasks s"
  using assms by (cases e) (auto simp: worker_step_def split: if_splits list.splits worker_phase.splits)

lemma pool_step_parent:
  "workers_step fn s e = Some t \<Longrightarrow> e \<noteq> ParentCancel \<Longrightarrow> parent_cancelled t = parent_cancelled s"
  using worker_step_keeps [of fn s e t]
  by (cases e) (auto simp: workers_step_def submit_send_def shutdown_close_def shutdown_finish_def split: if_splits list.splits)

lemma pool_run_parent:
  "run_events (workers_step fn) s es = Some t \<Longrightarrow> ParentCancel \<notin> set es \<Longrightarrow> parent_cancelled t = parent_cancelled s"
proof (induction es arbitrary: s)
  case (Cons e es)
  then obtain s1 where "workers_step fn s e = Some s1" "run_events (workers_step fn) s1 es = Some t"
    by (auto split: option.splits)
  with Cons show ?case using pool_step_parent [of fn s e s1] by auto
qed simp

lemma closed_pool_account:
  assumes "workers_inv fn s" and "\<not> parent_cancelled s" and "results_closed s"
  shows "image_mset fn (mset (submitted_tasks s)) = mset (pool_results s) + mset (received_results s)"
proof -
  have all: "\<forall>p \<in> set (pool_workers s). p = WExited" and ne: "pool_workers s \<noteq> []"
    using assms by (auto simp: workers_inv_def)
  then have "WExited \<in> set (pool_workers s)"
    by (metis list.set_sel(1))
  with assms have "task_queue s = []" "abandoned_results s = []" by (auto simp: workers_inv_def)
  moreover have "total_owed (owed fn) (pool_workers s) = {#}"
    using all by (intro total_owed_zero) auto
  ultimately show ?thesis using assms(1) by (simp add: workers_inv_def pool_account_def)
qed

text \<open>The reader is needed: \<open>Shutdown\<close> waits for workers that wait for room in the results, so without a
  concurrent reader it returns only if all results fit into their buffer.\<close>

lemma pool_step_received:
  "workers_step fn s e = Some t \<Longrightarrow> e \<noteq> ReceiveResult \<Longrightarrow> received_results t = received_results s"
  by (cases e) (auto simp: workers_step_def worker_step_def submit_send_def shutdown_close_def shutdown_finish_def
    split: if_splits list.splits worker_phase.splits)

lemma pool_run_received:
  "run_events (workers_step fn) s es = Some t \<Longrightarrow> ReceiveResult \<notin> set es \<Longrightarrow> received_results t = received_results s"
proof (induction es arbitrary: s)
  case (Cons e es)
  then obtain s1 where "workers_step fn s e = Some s1" "run_events (workers_step fn) s1 es = Some t"
    by (auto split: option.splits)
  with Cons show ?case using pool_step_received [of fn s e s1] by auto
qed simp

lemma shutdown_needs_a_reader:
  assumes "run_events (workers_step fn) (new_worker_pool m n) es = Some t" and "ParentCancel \<notin> set es"
    and "ReceiveResult \<notin> set es" and "results_closed t"
  shows "length (submitted_tasks t) \<le> task_capacity t"
proof -
  have I: "workers_inv fn t" using assms(1) by (rule pool_run_inv)
  have p: "\<not> parent_cancelled t" and r: "received_results t = []"
    using pool_run_parent [OF assms(1,2)] pool_run_received [OF assms(1,3)] by (simp_all add: new_worker_pool_def)
  have "size (image_mset fn (mset (submitted_tasks t))) = length (pool_results t)"
    using closed_pool_account [OF I p assms(4)] r by simp
  then show ?thesis using I by (simp add: workers_inv_def)
qed

text \<open>After \<open>Shutdown\<close> has closed the queue only the workers, the reader of the results and the end of
  \<open>Shutdown\<close> act on the pool. Each of their steps brings the end nearer.\<close>

definition service_event :: "'a workers_event \<Rightarrow> bool" where
  "service_event e \<longleftrightarrow> (case e of SubmitSend t \<Rightarrow> False | SubmitRefused t \<Rightarrow> False | ShutdownClose \<Rightarrow> False
     | ParentCancel \<Rightarrow> False | _ \<Rightarrow> True)"

fun phase_work :: "('a, 'r) worker_phase \<Rightarrow> nat" where
  "phase_work WIdle = 1"
| "phase_work (WRunning t) = 4"
| "phase_work (WSending r) = 3"
| "phase_work WExited = 0"

definition pool_work :: "('a, 'r) bounded_pool \<Rightarrow> nat" where
  "pool_work s = 4 * length (task_queue s) + sum_list (map phase_work (pool_workers s)) + length (pool_results s)
     + (if results_closed s then 0 else 1)"

lemma phase_work_update:
  "w < length ws \<Longrightarrow>
   sum_list (map phase_work (ws[w := p])) + phase_work (ws ! w) = sum_list (map phase_work ws) + phase_work p"
  by (rule sum_list_update_nat)

lemma worker_step_work: "worker_step fn s e = Some t \<Longrightarrow> pool_work t < pool_work s"
proof (cases e)
  case (WorkerTake w)
  assume "worker_step fn s e = Some t"
  then obtain q qs where q: "w < length (pool_workers s)" "pool_workers s ! w = WIdle" "task_queue s = q # qs"
    "t = set_worker (s\<lparr>task_queue := qs\<rparr>) w (WRunning q)"
    using WorkerTake by (auto simp: worker_step_def split: if_splits list.splits)
  then show ?thesis using phase_work_update [of w "pool_workers s" "WRunning q"] by (simp add: pool_work_def)
next
  case (WorkerRun w)
  assume "worker_step fn s e = Some t"
  then obtain q where q: "w < length (pool_workers s)" "pool_workers s ! w = WRunning q" "t = set_worker s w (WSending (fn q))"
    using WorkerRun by (auto simp: worker_step_def split: if_splits worker_phase.splits)
  then show ?thesis using phase_work_update [of w "pool_workers s" "WSending (fn q)"] by (simp add: pool_work_def)
next
  case (WorkerSend w)
  assume "worker_step fn s e = Some t"
  then obtain r where r: "w < length (pool_workers s)" "pool_workers s ! w = WSending r"
    "t = set_worker (s\<lparr>pool_results := pool_results s @ [r]\<rparr>) w WIdle"
    using WorkerSend by (auto simp: worker_step_def split: if_splits worker_phase.splits)
  then show ?thesis using phase_work_update [of w "pool_workers s" WIdle] by (simp add: pool_work_def)
next
  case (WorkerCancelled w)
  assume "worker_step fn s e = Some t"
  then show ?thesis using WorkerCancelled phase_work_update [of w "pool_workers s" WExited]
    by (auto simp: worker_step_def pool_work_def split: if_splits worker_phase.splits)
next
  case (WorkerDrained w)
  assume "worker_step fn s e = Some t"
  then show ?thesis using WorkerDrained phase_work_update [of w "pool_workers s" WExited]
    by (auto simp: worker_step_def pool_work_def split: if_splits)
qed (simp_all add: worker_step_def)

lemma service_step_work:
  assumes "workers_step fn s e = Some t" and "service_event e"
  shows "pool_work t < pool_work s \<and> submitted_tasks t = submitted_tasks s \<and> queue_closed t = queue_closed s \<and>
    pool_panicked t = pool_panicked s \<and> parent_cancelled t = parent_cancelled s"
proof (cases e)
  case ShutdownFinish
  with assms show ?thesis
    by (auto simp: workers_step_def shutdown_finish_def pool_work_def split: if_splits)
next
  case ReceiveResult
  with assms show ?thesis
    by (auto simp: workers_step_def pool_work_def split: if_splits list.splits)
qed (use assms worker_step_work [of fn s e t] worker_step_keeps [of fn s e t] in
      \<open>auto simp: workers_step_def service_event_def split: if_splits\<close>)

lemma service_run_work:
  assumes "run_events (workers_step fn) s es = Some t" and "\<forall>e \<in> set es. service_event e"
  shows "length es + pool_work t \<le> pool_work s \<and> submitted_tasks t = submitted_tasks s \<and>
    queue_closed t = queue_closed s \<and> pool_panicked t = pool_panicked s \<and> parent_cancelled t = parent_cancelled s"
  using assms
proof (induction es arbitrary: s)
  case (Cons e es)
  then obtain s1 where s1: "workers_step fn s e = Some s1" "run_events (workers_step fn) s1 es = Some t"
    by (auto split: option.splits)
  with Cons.prems have "service_event e" by simp
  from service_step_work [OF s1(1) this] Cons.IH [OF s1(2)] Cons.prems(2) show ?case by auto
qed simp

text \<open>The pool of a closed queue is never stuck before its results are closed and read.\<close>

lemma pool_not_stuck:
  assumes I: "workers_inv fn s" and "queue_closed s" and "\<not> pool_panicked s"
    and stuck: "\<And>e. service_event e \<Longrightarrow> workers_step fn s e = None"
  shows "results_closed s \<and> pool_results s = []"
proof -
  have rs: "pool_results s = []"
    using stuck [of ReceiveResult] assms(3) by (auto simp: workers_step_def service_event_def split: list.splits)
  have exited: "pool_workers s ! w = WExited" if w: "w < length (pool_workers s)" for w
  proof (cases "pool_workers s ! w")
    case WIdle
    with stuck [of "WorkerTake w"] stuck [of "WorkerDrained w"] w assms(2,3) show ?thesis
      by (auto simp: workers_step_def worker_step_def service_event_def split: list.splits)
  next
    case (WRunning t)
    with stuck [of "WorkerRun w"] w assms(3) show ?thesis
      by (auto simp: workers_step_def worker_step_def service_event_def)
  next
    case (WSending r)
    with stuck [of "WorkerSend w"] w assms(3) rs I show ?thesis
      by (auto simp: workers_step_def worker_step_def service_event_def workers_inv_def)
  next
    case WExited
    then show ?thesis .
  qed
  then have "\<forall>p \<in> set (pool_workers s). p = WExited" by (auto simp: in_set_conv_nth)
  with stuck [of ShutdownFinish] assms(2,3) have "results_closed s"
    by (auto simp: workers_step_def shutdown_finish_def service_event_def split: if_splits)
  with rs show ?thesis by simp
qed

text \<open>C27: Shutdown of the worker pool loses nothing. Take any run of the pool whose parent context is never
  cancelled, up to a point after \<open>Shutdown\<close> closed the queue, and let workers, reader and shutdown go on in any order.
  They stop after a bounded number of steps; and where they can go no further, the results are closed, and what the reader
  received is exactly the result of every task that \<open>Submit\<close> accepted, each once.\<close>

theorem pool_shutdown_delivers:
  assumes "run_events (workers_step fn) (new_worker_pool m n) es = Some s" and "ParentCancel \<notin> set es"
    and "queue_closed s" and "\<not> pool_panicked s"
    and "run_events (workers_step fn) s fs = Some t" and "\<forall>e \<in> set fs. service_event e"
  shows "length fs \<le> pool_work s \<and>
    ((\<forall>e. service_event e \<longrightarrow> workers_step fn t e = None) \<longrightarrow>
       results_closed t \<and> mset (received_results t) = image_mset fn (mset (submitted_tasks s)))"
proof -
  have "workers_inv fn s" using assms(1) by (rule pool_run_inv)
  then have I: "workers_inv fn t"
    using run_events_inv [OF assms(5), of "workers_inv fn"] pool_step_inv by blast
  have "\<not> parent_cancelled s"
    using pool_run_parent [OF assms(1,2)] by (simp add: new_worker_pool_def)
  then have k: "length fs + pool_work t \<le> pool_work s" "submitted_tasks t = submitted_tasks s" "queue_closed t"
    "\<not> pool_panicked t" "\<not> parent_cancelled t"
    using service_run_work [OF assms(5,6)] assms(3,4) by auto
  have "results_closed t \<and> mset (received_results t) = image_mset fn (mset (submitted_tasks s))"
    if "\<forall>e. service_event e \<longrightarrow> workers_step fn t e = None"
  proof -
    have "results_closed t \<and> pool_results t = []"
      using pool_not_stuck [OF I k(3,4)] that by blast
    then show ?thesis using closed_pool_account [OF I k(5)] k(2) by auto
  qed
  with k(1) show ?thesis by simp
qed

lemma pool_shutdown_delivers_witness:
  "\<exists>s t. run_events (workers_step Suc) (new_worker_pool 1 2) [SubmitSend 2, SubmitSend (3 :: nat), ShutdownClose] = Some s
     \<and> run_events (workers_step Suc) s [WorkerTake 0, WorkerRun 0, WorkerSend 0, ReceiveResult, WorkerTake 0, WorkerRun 0,
         WorkerSend 0, ReceiveResult, WorkerDrained 0, ShutdownFinish] = Some t
     \<and> 10 \<le> pool_work s \<and> results_closed t \<and> mset (received_results t) = {# 3, 4 #}"
proof -
  let ?es = "[SubmitSend 2, SubmitSend (3 :: nat), ShutdownClose]"
  let ?fs = "[WorkerTake 0, WorkerRun 0, WorkerSend 0, ReceiveResult, WorkerTake 0, WorkerRun 0, WorkerSend 0,
     ReceiveResult, WorkerDrained 0, ShutdownFinish] :: nat workers_event list"
  let ?s = "(new_worker_pool 1 2)\<lparr>task_queue := [2, 3], submitted_tasks := [2, 3], queue_closed := True\<rparr>
     :: (nat, nat) bounded_pool"
  let ?t = "?s\<lparr>task_queue := [], pool_workers := [WExited], received_results := [3, 4], results_closed := True,
     pool_cancelled := True\<rparr>"
  have es: "run_events (workers_step Suc) (new_worker_pool 1 2) ?es = Some ?s"
    by (simp add: workers_step_def submit_send_def shutdown_close_def new_worker_pool_def)
  have fs: "run_events (workers_step Suc) ?s ?fs = Some ?t"
    by (simp add: workers_step_def worker_step_def shutdown_finish_def new_worker_pool_def set_worker_def)
  have "workers_step Suc ?t e = None" if "service_event e" for e
    using that by (cases e)
      (auto simp: service_event_def workers_step_def worker_step_def shutdown_finish_def new_worker_pool_def nth_Cons'
         split: if_splits)
  moreover have "\<forall>e \<in> set ?fs. service_event e" by (simp add: service_event_def)
  ultimately show ?thesis
    using pool_shutdown_delivers [OF es _ _ _ fs] es fs by (simp add: new_worker_pool_def)
qed

end
