(* ===== verification/Context_Scopes.thy ===== *)
theory Context_Scopes
  imports Worker_Groups Go_Strings
begin

text \<open>
  \<open>patterns/05_context\<close>: the cancellable pipeline (\<open>cancellation_pipeline.go\<close>), whose goroutines are those of the worker
  pool and reuse its model, deadlines that are never extended (\<open>scoped_timeout.go\<close>), typed context values
  (\<open>typed_context_values.go\<close>) and the workflow that passes its context on (\<open>context_propagation.go\<close>).
\<close>


section \<open>The cancellable pipeline\<close>

record pipeline_job =
  pj_id :: int
  pj_value :: int

record pipeline_result =
  pr_job_id :: int
  pr_square :: int

definition square_job :: "pipeline_job \<Rightarrow> pipeline_result" where
  "square_job j = \<lparr>pr_job_id = pj_id j, pr_square = i64 (pj_value j * pj_value j)\<rparr>"

text \<open>All jobs are in the closed queue before the workers start, and the results have room for all of them. The worker's two
  \<open>select\<close>s are those of the pool, and the goroutine that closes the results waits for the workers as \<open>Shutdown\<close>
  does. (With no jobs the channels have no room, but then nothing is sent.)\<close>

definition pipeline_start :: "pipeline_job list \<Rightarrow> int \<Rightarrow> (pipeline_job, pipeline_result) bounded_pool" where
  "pipeline_start jobs workerCount =
     (new_worker_pool workerCount (int (length jobs)))\<lparr>task_queue := jobs, submitted_tasks := jobs, queue_closed := True\<rparr>"

text \<open>The reader has drained the closed results; then the context is asked for its error.\<close>

definition pipeline_return :: "(pipeline_job, pipeline_result) bounded_pool \<Rightarrow> pipeline_result list \<times> ctx_err option" where
  "pipeline_return s = (received_results s, if parent_cancelled s then Some Canceled else None)"

lemma pipeline_start_inv: "workers_inv square_job (pipeline_start jobs n)"
  by (auto simp: workers_inv_def pipeline_start_def new_worker_pool_def pool_account_def total_owed_idle)

definition pipeline_event :: "pipeline_job workers_event \<Rightarrow> bool" where
  "pipeline_event e \<longleftrightarrow> service_event e \<or> e = ParentCancel"

lemma pipeline_step_keeps:
  assumes "workers_step fn s e = Some t" and "pipeline_event e"
  shows "submitted_tasks t = submitted_tasks s \<and> queue_closed t = queue_closed s \<and> pool_panicked t = pool_panicked s \<and>
    pool_work t + (if service_event e then 1 else 0) \<le> pool_work s"
proof (cases "service_event e")
  case True
  with service_step_work [OF assms(1)] show ?thesis by simp
next
  case False
  with assms show ?thesis by (auto simp: pipeline_event_def workers_step_def pool_work_def split: if_splits)
qed

lemma pipeline_run_keeps:
  "run_events (workers_step fn) s es = Some t \<Longrightarrow> \<forall>e \<in> set es. pipeline_event e \<Longrightarrow>
   submitted_tasks t = submitted_tasks s \<and> queue_closed t = queue_closed s \<and> pool_panicked t = pool_panicked s \<and>
   pool_work t + length (filter service_event es) \<le> pool_work s"
proof (induction es arbitrary: s)
  case (Cons e es)
  then obtain s1 where s1: "workers_step fn s e = Some s1" "run_events (workers_step fn) s1 es = Some t"
    by (auto split: option.splits)
  have "pipeline_event e" using Cons.prems(2) by simp
  from pipeline_step_keeps [OF s1(1) this] Cons.IH [OF s1(2)] Cons.prems(2) show ?case by auto
qed simp

text \<open>The pipeline always comes to an end, cancelled or not, and it never makes results up. From its start, whenever the context is
  cancelled, the goroutines make only a bounded number of steps; where they can go no further the results are closed and
  drained, every result is the square of a job of its own, and if no error is returned every job has its
  result.\<close>

theorem pipeline_terminates_complete:
  assumes "run_events (workers_step square_job) (pipeline_start jobs n) es = Some t" and "\<forall>e \<in> set es. pipeline_event e"
    and "\<forall>e. service_event e \<longrightarrow> workers_step square_job t e = None"
    and "pipeline_return t = (results, err)"
  shows "length (filter service_event es) \<le> pool_work (pipeline_start jobs n) \<and> results_closed t \<and>
    mset results \<subseteq># image_mset square_job (mset jobs) \<and>
    (err = None \<longrightarrow> mset results = image_mset square_job (mset jobs))"
proof -
  have I: "workers_inv square_job t"
    using run_events_inv [OF assms(1), of "workers_inv square_job"] pipeline_start_inv pool_step_inv by blast
  have k: "submitted_tasks t = jobs" "queue_closed t" "\<not> pool_panicked t"
    "length (filter service_event es) \<le> pool_work (pipeline_start jobs n)"
    using pipeline_run_keeps [OF assms(1,2)] by (auto simp: pipeline_start_def new_worker_pool_def)
  have c: "results_closed t \<and> pool_results t = []"
    using pool_not_stuck [OF I k(2,3)] assms(3) by blast
  have "mset (received_results t) \<subseteq># image_mset square_job (mset jobs)"
    using I k(1) by (simp add: workers_inv_def pool_account_def)
  moreover have "mset (received_results t) = image_mset square_job (mset jobs)" if "\<not> parent_cancelled t"
    using closed_pool_account [OF I that] c k(1) by auto
  ultimately show ?thesis
    using assms(4) k(4) c by (auto simp: pipeline_return_def split: if_splits)
qed

lemma pipeline_terminates_complete_witness:
  "\<exists>t. run_events (workers_step square_job) (pipeline_start [\<lparr>pj_id = 1, pj_value = 3\<rparr>] 1)
     [WorkerTake 0, WorkerRun 0, WorkerSend 0, ReceiveResult, WorkerDrained 0, ShutdownFinish] = Some t \<and>
     mset (received_results t) = {#\<lparr>pr_job_id = 1, pr_square = 9\<rparr>#}"
proof -
  let ?j = "\<lparr>pj_id = 1, pj_value = 3\<rparr>"
  let ?es = "[WorkerTake 0, WorkerRun 0, WorkerSend 0, ReceiveResult, WorkerDrained 0, ShutdownFinish] :: pipeline_job workers_event list"
  let ?t = "(pipeline_start [?j] 1)\<lparr>task_queue := [], pool_workers := [WExited], received_results := [square_job ?j],
     results_closed := True, pool_cancelled := True\<rparr>"
  have t: "run_events (workers_step square_job) (pipeline_start [?j] 1) ?es = Some ?t"
    by (simp add: workers_step_def worker_step_def shutdown_finish_def pipeline_start_def new_worker_pool_def set_worker_def)
  have ev: "\<forall>e \<in> set ?es. pipeline_event e" by (simp add: pipeline_event_def service_event_def)
  have stuck: "\<forall>e. service_event e \<longrightarrow> workers_step square_job ?t e = None"
  proof (intro allI impI)
    fix e :: "pipeline_job workers_event"
    assume "service_event e"
    then show "workers_step square_job ?t e = None"
      by (cases e) (auto simp: service_event_def workers_step_def worker_step_def shutdown_finish_def pipeline_start_def
          new_worker_pool_def nth_Cons' split: if_splits)
  qed
  have r: "pipeline_return ?t = ([square_job ?j], None)"
    by (simp add: pipeline_return_def pipeline_start_def new_worker_pool_def)
  from pipeline_terminates_complete [OF t ev stuck r] t show ?thesis by (auto simp: square_job_def i64_def)
qed


section \<open>Deadlines\<close>

text \<open>\<open>context.WithTimeout\<close> on a context with or without a deadline, with the reading of the clock it makes.\<close>

definition scope_with_timeout :: "gotime option \<Rightarrow> gotime \<Rightarrow> duration \<Rightarrow> gotime option" where
  "scope_with_timeout parent now d =
     (case parent of
        Some p \<Rightarrow> Some (if p < now + d then p else now + d)
      | None \<Rightarrow> Some (now + d))"

text \<open>\<open>now1\<close> is read by \<open>time.Until\<close>, \<open>now2\<close> by \<open>WithTimeout\<close>.\<close>

definition with_bounded_timeout :: "gotime option \<Rightarrow> gotime \<Rightarrow> gotime \<Rightarrow> duration \<Rightarrow> gotime option" where
  "with_bounded_timeout parent now1 now2 maxDuration =
     (case parent of
        Some p \<Rightarrow>
          (let remaining = time_sub p now1 in
           if remaining < maxDuration then scope_with_timeout parent now2 remaining
           else scope_with_timeout parent now2 maxDuration)
      | None \<Rightarrow> scope_with_timeout parent now2 maxDuration)"

definition remaining_budget :: "gotime option \<Rightarrow> gotime \<Rightarrow> duration" where
  "remaining_budget deadline now =
     (case deadline of
        Some d \<Rightarrow> (let remaining = time_sub d now in if remaining < 0 then 0 else remaining)
      | None \<Rightarrow> 0)"

text \<open>The derived deadline is the earlier of the parent's and the requested one; it never extends the parent's budget.\<close>

lemma bounded_timeout_deadline:
  assumes "now1 \<le> now2" and "in64 maxDuration"
  shows "\<exists>d. with_bounded_timeout parent now1 now2 maxDuration = Some d \<and> d \<le> now2 + maxDuration \<and>
    (case parent of Some p \<Rightarrow> d = min p (now2 + maxDuration) | None \<Rightarrow> d = now2 + maxDuration)"
  using assms by (auto simp: with_bounded_timeout_def scope_with_timeout_def Let_def time_sub_def in64_def min_def max_def split: option.split)

lemma budget_never_grows:
  assumes "now1 \<le> now2" and "in64 maxDuration"
  shows "remaining_budget (with_bounded_timeout (Some p) now1 now2 maxDuration) now3 \<le> remaining_budget (Some p) now3"
proof -
  obtain d where "with_bounded_timeout (Some p) now1 now2 maxDuration = Some d" "d \<le> p"
    using bounded_timeout_deadline [OF assms, of "Some p"] by auto
  then show ?thesis by (auto simp: remaining_budget_def Let_def time_sub_def)
qed


section \<open>Typed context values\<close>

record user_principal =
  principal_id :: string
  principal_role :: string
  principal_email :: string

text \<open>A context is a stack of values under keys of unexported types: only the functions of the package can write them. A nil
  pointer to a principal is a value too.\<close>

datatype ctx_entry = RequestIdEntry string | TenantIdEntry string | UserEntry "user_principal option"

type_synonym value_ctx = "ctx_entry list"

definition with_request_id :: "value_ctx \<Rightarrow> string \<Rightarrow> value_ctx" where
  "with_request_id ctx v = RequestIdEntry v # ctx"

definition with_tenant_id :: "value_ctx \<Rightarrow> string \<Rightarrow> value_ctx" where
  "with_tenant_id ctx v = TenantIdEntry v # ctx"

definition with_user_principal :: "value_ctx \<Rightarrow> user_principal option \<Rightarrow> value_ctx" where
  "with_user_principal ctx u = UserEntry u # ctx"

fun ctx_request_value :: "value_ctx \<Rightarrow> string" where
  "ctx_request_value [] = []"
| "ctx_request_value (RequestIdEntry v # ctx) = v"
| "ctx_request_value (_ # ctx) = ctx_request_value ctx"

fun get_tenant_id :: "value_ctx \<Rightarrow> string \<times> bool" where
  "get_tenant_id [] = ([], False)"
| "get_tenant_id (TenantIdEntry v # ctx) = (v, True)"
| "get_tenant_id (_ # ctx) = get_tenant_id ctx"

fun get_user_principal :: "value_ctx \<Rightarrow> user_principal option \<times> bool" where
  "get_user_principal [] = (None, False)"
| "get_user_principal (UserEntry u # ctx) = (u, u \<noteq> None)"
| "get_user_principal (_ # ctx) = get_user_principal ctx"

text \<open>A value can be read back, the innermost wins, and the keys do not interfere.\<close>

lemma context_values:
  "ctx_request_value (with_request_id ctx v) = v" "get_tenant_id (with_tenant_id ctx v) = (v, True)"
  "get_user_principal (with_user_principal ctx (Some u)) = (Some u, True)"
  "get_tenant_id (with_request_id ctx v) = get_tenant_id ctx"
  "get_tenant_id (with_user_principal ctx p) = get_tenant_id ctx"
  "get_user_principal (with_tenant_id ctx v) = get_user_principal ctx"
  "ctx_request_value (with_tenant_id ctx v) = ctx_request_value ctx"
  by (simp_all add: with_request_id_def with_tenant_id_def with_user_principal_def)

text \<open>A nil principal hides an authenticated one further out and is not taken for a user.\<close>

lemma nil_principal: "get_user_principal (with_user_principal ctx None) = (None, False)"
  by (simp add: with_user_principal_def)


section \<open>Propagation\<close>

datatype 'e workflow_error = AbortedBeforeStart ctx_err | DatabaseStageFailed 'e | ApiStageFailed 'e

definition order_query :: "string \<Rightarrow> string" where
  "order_query orderID = ''SELECT * FROM orders WHERE id = '' @ [CHR 0x27] @ orderID @ [CHR 0x27]"

text \<open>\<open>db\<close> and \<open>api\<close> are the downstream services under the propagated context. The last component lists the calls made.\<close>

datatype downstream_call = QueryCall string | ApiCall string

definition execute_workflow ::
  "(string \<Rightarrow> 'e + string) \<Rightarrow> (string \<Rightarrow> 'e + string) \<Rightarrow> ctx_err option \<Rightarrow> string \<Rightarrow>
   ('e workflow_error + string) \<times> downstream_call list" where
  "execute_workflow db api ctx_done orderID =
     (case ctx_done of
        Some e \<Rightarrow> (Inl (AbortedBeforeStart e), [])
      | None \<Rightarrow>
          (case db (order_query orderID) of
             Inl e \<Rightarrow> (Inl (DatabaseStageFailed e), [QueryCall (order_query orderID)])
           | Inr dbResult \<Rightarrow>
               (case api ''/v1/payments/verify'' of
                  Inl e \<Rightarrow> (Inl (ApiStageFailed e), [QueryCall (order_query orderID), ApiCall ''/v1/payments/verify''])
                | Inr apiResult \<Rightarrow>
                    (Inr (''Success: DB['' @ dbResult @ ''] API['' @ apiResult @ '']''),
                     [QueryCall (order_query orderID), ApiCall ''/v1/payments/verify'']))))"

text \<open>The mock services answer after their delay unless the context is done first.\<close>

definition mock_query :: "ctx_err option \<Rightarrow> string \<Rightarrow> ctx_err + string" where
  "mock_query ctx_done sql = (case ctx_done of None \<Rightarrow> Inr ''db_record_data'' | Some e \<Rightarrow> Inl e)"

definition mock_call :: "ctx_err option \<Rightarrow> string \<Rightarrow> ctx_err + string" where
  "mock_call ctx_done endpoint = (case ctx_done of None \<Rightarrow> Inr ''api_verified'' | Some e \<Rightarrow> Inl e)"

text \<open>Once the context is done no further service is called.\<close>

lemma cancelled_workflow_stops:
  "execute_workflow db api (Some e) orderID = (Inl (AbortedBeforeStart e), [])"
  "snd (execute_workflow (mock_query (Some e)) api None orderID) = [QueryCall (order_query orderID)]"
  by (simp_all add: execute_workflow_def mock_query_def)

text \<open>The identifier is pasted into the statement: one that contains a quote ends the literal and goes on with SQL of its
  own.\<close>

lemma order_query_injectable:
  "order_query (''x'' @ [CHR 0x27] @ '' OR '' @ [CHR 0x27] @ ''1'' @ [CHR 0x27] @ ''='' @ [CHR 0x27] @ ''1'')
     = ''SELECT * FROM orders WHERE id = '' @ [CHR 0x27] @ ''x'' @ [CHR 0x27] @ '' OR '' @ [CHR 0x27] @ ''1'' @ [CHR 0x27]
       @ ''='' @ [CHR 0x27] @ ''1'' @ [CHR 0x27]"
  by (simp add: order_query_def)

end
