(* ===== verification/Data_Access.thy ===== *)
theory Data_Access
  imports Go_Strings
begin

text \<open>
  \<open>patterns/13_database\<close>: the checkout around a short transaction (\<open>transaction_boundary.go\<close>), the adapter for a schema
  migration in two phases (\<open>expand_contract.go\<close>) and the router between primary and replica
  (\<open>read_write_splitter.go\<close>). The payment gateway, the database and its transactions are parameters.
\<close>


section \<open>Checkout\<close>

record payment_order =
  po_id :: string
  po_amount :: int
  po_status :: string

datatype ('g, 'e) checkout_error = InvalidOrderAmount | PaymentDeclined 'g | TxFailedAfterPayment string 'e

text \<open>A transaction runs a function on the database. It reports whether it got so far as to call the function.\<close>

type_synonym ('d, 'e) tx_runner = "('d \<Rightarrow> 'e option \<times> 'd) \<Rightarrow> 'd \<Rightarrow> 'e option \<times> 'd \<times> bool"

text \<open>What a database promises of a transaction: it succeeds only if the function did, and then has its effects; if it fails
  it has none.\<close>

definition atomic_tx :: "('d, 'e) tx_runner \<Rightarrow> bool" where
  "atomic_tx exec_tx \<longleftrightarrow>
     (\<forall>f d. case exec_tx f d of
        (None, d1, began) \<Rightarrow> began \<and> f d = (None, d1)
      | (Some e, d1, began) \<Rightarrow> d1 = d)"

text \<open>The function passed to the transaction.\<close>

definition checkout_tx ::
  "('d \<Rightarrow> payment_order \<Rightarrow> 'e option \<times> 'd) \<Rightarrow> ('d \<Rightarrow> string \<Rightarrow> int \<Rightarrow> 'e option \<times> 'd) \<Rightarrow>
   payment_order \<Rightarrow> string \<Rightarrow> int \<Rightarrow> 'd \<Rightarrow> 'e option \<times> 'd" where
  "checkout_tx save_order deduct order productID qty d =
     (case save_order d (order\<lparr>po_status := ''PAID''\<rparr>) of
        (Some e, d1) \<Rightarrow> (Some e, d1)
      | (None, d1) \<Rightarrow> deduct d1 productID qty)"

text \<open>The result, the order as the caller sees it afterwards, the calls of the gateway and the database.\<close>

definition checkout ::
  "(string \<Rightarrow> int \<Rightarrow> 'g + string) \<Rightarrow> ('d, 'e) tx_runner \<Rightarrow>
   ('d \<Rightarrow> payment_order \<Rightarrow> 'e option \<times> 'd) \<Rightarrow> ('d \<Rightarrow> string \<Rightarrow> int \<Rightarrow> 'e option \<times> 'd) \<Rightarrow>
   payment_order option \<Rightarrow> string \<Rightarrow> int \<Rightarrow> 'd \<Rightarrow>
   ('g, 'e) checkout_error option \<times> payment_order option \<times> (string \<times> int) list \<times> 'd" where
  "checkout gateway exec_tx save_order deduct order productID qty d =
     (case order of
        None \<Rightarrow> (Some InvalidOrderAmount, None, [], d)
      | Some ord \<Rightarrow>
          if po_amount ord \<le> 0 then (Some InvalidOrderAmount, Some ord, [], d)
          else
            (case gateway (po_id ord) (po_amount ord) of
               Inl g \<Rightarrow> (Some (PaymentDeclined g), Some ord, [(po_id ord, po_amount ord)], d)
             | Inr txn \<Rightarrow>
                 (case exec_tx (checkout_tx save_order deduct ord productID qty) d of
                    (err, d1, began) \<Rightarrow>
                      (case err of None \<Rightarrow> None | Some e \<Rightarrow> Some (TxFailedAfterPayment txn e),
                       Some (if began then ord\<lparr>po_status := ''PAID''\<rparr> else ord),
                       [(po_id ord, po_amount ord)], d1))))"

text \<open>C31: How a checkout can end, with an atomic transaction around its two writes. It succeeds only after the gateway took exactly the
  amount of the order, once, and then both writes are in the database. In every other case the database is as before; no
  charge is made for an invalid order, and a failure after the charge is reported with the id of the charge, so that it can be
  reconciled.\<close>

theorem checkout_outcomes:
  assumes "atomic_tx exec_tx"
    and "checkout gateway exec_tx save_order deduct order productID qty d = (res, order1, calls, d1)"
  shows "case res of
      None \<Rightarrow> (\<exists>ord txn d0. order = Some ord \<and> 0 < po_amount ord \<and> calls = [(po_id ord, po_amount ord)] \<and>
        gateway (po_id ord) (po_amount ord) = Inr txn \<and>
        save_order d (ord\<lparr>po_status := ''PAID''\<rparr>) = (None, d0) \<and> deduct d0 productID qty = (None, d1) \<and>
        order1 = Some (ord\<lparr>po_status := ''PAID''\<rparr>))
    | Some InvalidOrderAmount \<Rightarrow> d1 = d \<and> calls = [] \<and> order1 = order
    | Some (PaymentDeclined g) \<Rightarrow> d1 = d \<and> order1 = order \<and>
        (\<exists>ord. order = Some ord \<and> calls = [(po_id ord, po_amount ord)] \<and> gateway (po_id ord) (po_amount ord) = Inl g)
    | Some (TxFailedAfterPayment txn e) \<Rightarrow> d1 = d \<and>
        (\<exists>ord. order = Some ord \<and> calls = [(po_id ord, po_amount ord)] \<and> gateway (po_id ord) (po_amount ord) = Inr txn)"
proof (cases order)
  case None
  with assms(2) show ?thesis by (auto simp: checkout_def)
next
  case (Some ord)
  show ?thesis
  proof (cases "po_amount ord \<le> 0")
    case True
    with assms(2) Some show ?thesis by (auto simp: checkout_def)
  next
    case pos: False
    show ?thesis
    proof (cases "gateway (po_id ord) (po_amount ord)")
      case (Inl g)
      with assms(2) Some pos show ?thesis by (auto simp: checkout_def)
    next
      case (Inr txn)
      define f where "f = checkout_tx save_order deduct ord productID qty"
      obtain err d2 began where x: "exec_tx f d = (err, d2, began)" by (rule prod_cases3)
      have a: "case exec_tx f d of (None, d1, began) \<Rightarrow> began \<and> f d = (None, d1) | (Some e, d1, began) \<Rightarrow> d1 = d"
        using assms(1) [unfolded atomic_tx_def, THEN spec [of _ f], THEN spec [of _ d]] .
      have r: "res = (case err of None \<Rightarrow> None | Some e \<Rightarrow> Some (TxFailedAfterPayment txn e))" "d1 = d2"
        "order1 = Some (if began then ord\<lparr>po_status := ''PAID''\<rparr> else ord)" "calls = [(po_id ord, po_amount ord)]"
        using assms(2) Some pos Inr x by (simp_all add: checkout_def f_def)
      show ?thesis
      proof (cases err)
        case None
        with a x have "began" "f d = (None, d2)" by simp_all
        then show ?thesis using r None Some pos Inr by (auto simp: f_def checkout_tx_def split: prod.splits option.splits)
      next
        case (Some e)
        with a x r \<open>order = Some ord\<close> Inr show ?thesis by simp
      qed
    qed
  qed
qed

text \<open>A runner that is atomic, and the checkout with it.\<close>

definition simple_tx :: "('d, 'e) tx_runner" where
  "simple_tx f d = (case f d of (None, d1) \<Rightarrow> (None, d1, True) | (Some e, d1) \<Rightarrow> (Some e, d, True))"

lemma atomic_simple_tx: "atomic_tx simple_tx"
  by (auto simp: atomic_tx_def simple_tx_def split: prod.split option.split)

lemma checkout_outcomes_witness:
  "\<exists>order1 calls d1. checkout (\<lambda>i a. (Inr ''t'' :: nat + string)) simple_tx (\<lambda>d ord. (None, Suc d)) (\<lambda>d p q. (Some ''no stock'', d))
     (Some \<lparr>po_id = ''o'', po_amount = 5, po_status = ''NEW''\<rparr>) ''p'' 1 0 = (Some (TxFailedAfterPayment ''t'' ''no stock''), order1, calls, d1) \<and> d1 = 0"
proof -
  let ?c = "checkout (\<lambda>i a. (Inr ''t'' :: nat + string)) simple_tx (\<lambda>d ord. (None, Suc d)) (\<lambda>d p q. (Some ''no stock'', d))
     (Some \<lparr>po_id = ''o'', po_amount = 5, po_status = ''NEW''\<rparr>) ''p'' 1 0"
  obtain res order1 calls d1 where c: "?c = (res, order1, calls, d1)" by (rule prod_cases4)
  have "res = Some (TxFailedAfterPayment ''t'' ''no stock'')"
    using c by (simp add: checkout_def simple_tx_def checkout_tx_def)
  with checkout_outcomes [OF atomic_simple_tx c] c show ?thesis by simp
qed

text \<open>After a transaction that failed on its writes the caller's order still says \<open>PAID\<close>, although the database has no such
  order.\<close>

lemma failed_checkout_marks_paid:
  assumes "checkout_tx save_order deduct ord productID qty d = (Some e, d2)" and "0 < po_amount ord"
    and "gateway (po_id ord) (po_amount ord) = Inr txn"
  shows "checkout gateway simple_tx save_order deduct (Some ord) productID qty d =
    (Some (TxFailedAfterPayment txn e), Some (ord\<lparr>po_status := ''PAID''\<rparr>), [(po_id ord, po_amount ord)], d)"
  using assms by (simp add: checkout_def simple_tx_def)


section \<open>Expand and contract\<close>

record user_row =
  row_id :: string
  row_full_name :: string
  row_first_name :: string
  row_last_name :: string

record domain_user =
  user_id :: string
  user_first_name :: string
  user_last_name :: string

definition to_database_row :: "bool \<Rightarrow> domain_user \<Rightarrow> user_row" where
  "to_database_row contracted u =
     (if contracted then
        \<lparr>row_id = user_id u, row_full_name = [], row_first_name = user_first_name u, row_last_name = user_last_name u\<rparr>
      else
        \<lparr>row_id = user_id u, row_full_name = trim_space (user_first_name u @ '' '' @ user_last_name u),
         row_first_name = user_first_name u, row_last_name = user_last_name u\<rparr>)"

text \<open>\<open>strings.SplitN(s, " ", 2)\<close>: up to the first blank, and after it.\<close>

fun split_first_blank :: "string \<Rightarrow> string \<times> string option" where
  "split_first_blank [] = ([], None)"
| "split_first_blank (c # cs) =
     (if c = CHR '' '' then ([], Some cs) else (let (p, r) = split_first_blank cs in (c # p, r)))"

definition to_domain_user :: "user_row \<Rightarrow> domain_user" where
  "to_domain_user row =
     (if row_first_name row \<noteq> [] \<or> row_last_name row \<noteq> [] then
        \<lparr>user_id = row_id row, user_first_name = row_first_name row, user_last_name = row_last_name row\<rparr>
      else
        (let (first, rest) = split_first_blank (row_full_name row);
             last = (case rest of Some r \<Rightarrow> r | None \<Rightarrow> [])
         in \<lparr>user_id = row_id row, user_first_name = first, user_last_name = last\<rparr>))"

lemma split_first_blank_join:
  "split_first_blank s = (p, r) \<Longrightarrow> CHR '' '' \<notin> set p \<and> s = p @ (case r of Some t \<Rightarrow> CHR '' '' # t | None \<Rightarrow> [])"
proof (induction s arbitrary: p)
  case (Cons c cs)
  obtain q r2 where "split_first_blank cs = (q, r2)" by (rule prod.exhaust)
  with Cons show ?case by (auto split: if_splits)
qed simp

lemma trimmed_parts:
  assumes "trim_space s = s"
  shows "trim_prefixes space_runes s = s" and "trim_prefixes (map rev space_runes) (rev s) = rev s"
proof -
  define a where "a = trim_prefixes space_runes s"
  obtain c where c: "s = c @ a" unfolding a_def using trim_prefixes_suffix by blast
  obtain e where e: "rev a = e @ trim_prefixes (map rev space_runes) (rev a)" using trim_prefixes_suffix by blast
  have s: "s = rev (trim_prefixes (map rev space_runes) (rev a))" using assms by (simp add: trim_space_def a_def)
  have "length s \<le> length a" using arg_cong [OF e, of length] s by (metis length_append length_rev le_add2)
  then have "c = []" using c by (metis append_self_conv2 length_append not_add_less2 le_neq_implies_less le_add2 append_eq_append_conv)
  then have as: "a = s" using c by simp
  then show "trim_prefixes space_runes s = s" by (simp add: a_def)
  show "trim_prefixes (map rev space_runes) (rev s) = rev s" using s as by (metis rev_rev_ident)
qed

lemma trim_space_snoc_blank:
  assumes "trim_space s = s"
  shows "trim_space (s @ '' '') = s"
proof (cases "s = []")
  case True
  then show ?thesis using trim_space_blank [of "[]"] by simp
next
  case False
  have "\<not> has_prefix (s @ '' '') p" if p: "p \<in> set space_runes" "p \<noteq> []" for p
  proof
    assume "has_prefix (s @ '' '') p"
    then obtain r where r: "s @ '' '' = p @ r" by (auto simp: has_prefix_iff)
    show False
    proof (cases r rule: rev_cases)
      case Nil
      then have "last p = CHR '' ''" "2 \<le> length p" using r False by (metis append_Nil2 last_snoc, cases s) auto
      then show False using p by (auto simp: space_runes_def)
    next
      case (snoc q x)
      then have "s = p @ q" using r by simp
      then have "has_prefix s p" by (auto simp: has_prefix_iff)
      then show False using trimmed_parts(1) [OF assms] p unfolding trim_fixed by blast
    qed
  qed
  then have "trim_prefixes space_runes (s @ '' '') = s @ '' ''" unfolding trim_fixed by blast
  then show ?thesis
    using trimmed_parts(2) [OF assms] by (simp add: trim_space_def trim_blank_end)
qed

text \<open>The migration loses no user. What either phase writes, either phase reads back as the same user; and a row that only has
  the old column, with a trimmed name, keeps that name when the user read from it is written again while both columns are
  written.\<close>

theorem migration_roundtrip:
  assumes "trim_space name = name"
  shows "to_domain_user (to_database_row contracted u) = u \<and>
    row_full_name (to_database_row False (to_domain_user
      \<lparr>row_id = i, row_full_name = name, row_first_name = [], row_last_name = []\<rparr>)) = name"
proof -
  have "to_domain_user (to_database_row contracted u) = u"
    by (cases "user_first_name u = [] \<and> user_last_name u = []")
       (auto simp: to_domain_user_def to_database_row_def)
  moreover
  obtain p r where s: "split_first_blank name = (p, r)" by (rule prod.exhaust)
  note j = split_first_blank_join [OF s]
  have "trim_space (p @ '' '' @ (case r of Some t \<Rightarrow> t | None \<Rightarrow> [])) = name"
  proof (cases r)
    case None
    then have "p = name" using j by simp
    then show ?thesis using None trim_space_snoc_blank [OF assms] by simp
  next
    case (Some t)
    then show ?thesis using j assms by simp
  qed
  then have "row_full_name (to_database_row False (to_domain_user
      \<lparr>row_id = i, row_full_name = name, row_first_name = [], row_last_name = []\<rparr>)) = name"
    by (simp add: to_domain_user_def to_database_row_def s)
  ultimately show ?thesis by simp
qed

lemma migration_roundtrip_witness:
  "row_full_name (to_database_row False (to_domain_user
      \<lparr>row_id = ''1'', row_full_name = ''Ada'', row_first_name = [], row_last_name = []\<rparr>)) = ''Ada''"
proof -
  have "trim_space ''Ada'' = ''Ada''" by (rule trim_space_id) (simp_all add: space_start_def space_end_def space_runes_def)
  from migration_roundtrip [OF this] show ?thesis by blast
qed

text \<open>While old instances still write, an update of the old column alone is not seen: the new columns win.\<close>

lemma legacy_update_ignored:
  "row_first_name row \<noteq> [] \<Longrightarrow> to_domain_user (row\<lparr>row_full_name := name\<rparr>) = to_domain_user row"
  by (simp add: to_domain_user_def)


section \<open>Reads and writes\<close>

datatype db_endpoint = EndpointPrimary | EndpointReplica

text \<open>The context carries the end of the period in which reads go to the primary, if it was marked at all.\<close>

definition with_recent_write :: "gotime \<Rightarrow> duration \<Rightarrow> gotime option" where
  "with_recent_write now d = Some (now + d)"

definition has_recent_write :: "gotime option \<Rightarrow> gotime \<Rightarrow> bool" where
  "has_recent_write ctx now = (case ctx of Some expiry \<Rightarrow> now < expiry | None \<Rightarrow> False)"

text \<open>The result of a write: the error of the router, or what the primary answers. A database is a function on its state.\<close>

datatype 'e write_result = PrimaryUnavailable | Executed "'e option"

definition router_write :: "('p \<Rightarrow> string \<Rightarrow> 'e option \<times> 'p) option \<Rightarrow> 'p \<Rightarrow> string \<Rightarrow> 'e write_result \<times> 'p" where
  "router_write primary p query =
     (case primary of
        None \<Rightarrow> (PrimaryUnavailable, p)
      | Some exec \<Rightarrow> (let (e, p1) = exec p query in (Executed e, p1)))"

definition router_read ::
  "('p \<Rightarrow> string \<Rightarrow> 'e + string) \<Rightarrow> ('r \<Rightarrow> string \<Rightarrow> 'e + string) \<Rightarrow> gotime option \<Rightarrow> gotime \<Rightarrow> 'p \<Rightarrow> 'r \<Rightarrow> string \<Rightarrow>
   db_endpoint \<times> ('e + string)" where
  "router_read query_primary query_replica ctx now p r query =
     (if has_recent_write ctx now then (EndpointPrimary, query_primary p query)
      else (EndpointReplica, query_replica r query))"

text \<open>A session that marks its context after a write reads that write for the given period, however far behind the replica is.\<close>

lemma read_your_writes:
  assumes "router_write (Some exec) p query = (Executed None, p1)" and "marked \<le> now" and "now < marked + d"
  shows "router_read query_primary query_replica (with_recent_write marked d) now p1 r q = (EndpointPrimary, query_primary p1 q)"
  using assms by (simp add: router_read_def with_recent_write_def has_recent_write_def)

lemma unmarked_reads_replica:
  "router_read query_primary query_replica None now p r q = (EndpointReplica, query_replica r q)"
  by (simp add: router_read_def has_recent_write_def)

end
