(* ===== verification/Once_Guard.thy ===== *)
theory Once_Guard
  imports Go_Prelude
begin

text \<open>
  The contract of the stores that let an operation with a key be done once: \<open>try_start\<close> admits a
  worker exactly if the key is neither done nor in flight, \<open>finish\<close> makes the key done,
  \<open>release\<close> and \<open>abort\<close> end the flight. The client is any number of workers that start, then
  finish and release, or abort; its steps are given once for arbitrary operations, and the facts about
  their interleavings are proved inside the locale.
\<close>

record ('s, 'k) once_ops =
  try_start :: "'s \<Rightarrow> 'k \<Rightarrow> bool \<times> 's"
  finish :: "'s \<Rightarrow> 'k \<Rightarrow> 's"
  release :: "'s \<Rightarrow> 'k \<Rightarrow> 's"
  abort :: "'s \<Rightarrow> 'k \<Rightarrow> 's"

datatype 'k worker = Idle | Running 'k | Finished 'k

record ('s, 'k) once_sys =
  guard :: 's
  workers :: "nat \<Rightarrow> 'k worker"
  successes :: "'k list"

datatype 'k once_event = Start nat 'k | Finish nat | Release nat | Abort nat

fun once_step :: "('s, 'k) once_ops \<Rightarrow> ('s, 'k) once_sys \<Rightarrow> 'k once_event \<Rightarrow> ('s, 'k) once_sys option" where
  "once_step G s (Start w k) =
     (if workers s w \<noteq> Idle then None
      else let (ok, g) = try_start G (guard s) k
           in Some (s\<lparr>guard := g, workers := (if ok then (workers s)(w := Running k) else workers s)\<rparr>))"
| "once_step G s (Finish w) =
     (case workers s w of
        Running k \<Rightarrow> Some (s\<lparr>guard := finish G (guard s) k, workers := (workers s)(w := Finished k),
                           successes := successes s @ [k]\<rparr>)
      | _ \<Rightarrow> None)"
| "once_step G s (Release w) =
     (case workers s w of
        Finished k \<Rightarrow> Some (s\<lparr>guard := release G (guard s) k, workers := (workers s)(w := Idle)\<rparr>)
      | _ \<Rightarrow> None)"
| "once_step G s (Abort w) =
     (case workers s w of
        Running k \<Rightarrow> Some (s\<lparr>guard := abort G (guard s) k, workers := (workers s)(w := Idle)\<rparr>)
      | _ \<Rightarrow> None)"

definition once_start :: "'s \<Rightarrow> ('s, 'k) once_sys" where
  "once_start g = \<lparr>guard = g, workers = (\<lambda>w. Idle), successes = []\<rparr>"

locale once_guard =
  fixes G :: "('s, 'k) once_ops" and completed :: "'s \<Rightarrow> 'k set" and in_flight :: "'s \<Rightarrow> 'k set"
  assumes start_iff: "fst (try_start G s k) \<longleftrightarrow> k \<notin> completed s \<and> k \<notin> in_flight s"
    and start_completed: "completed (snd (try_start G s k)) = completed s"
    and start_in_flight: "in_flight (snd (try_start G s k)) =
      (if fst (try_start G s k) then insert k (in_flight s) else in_flight s)"
    and finish_completed: "k \<in> in_flight s \<Longrightarrow> completed (finish G s k) = insert k (completed s)"
    and finish_in_flight: "in_flight s - {k} \<subseteq> in_flight (finish G s k)"
    and release_completed: "completed (release G s k) = completed s"
    and release_in_flight: "in_flight s - {k} \<subseteq> in_flight (release G s k)"
    and abort_completed: "k \<notin> completed s \<Longrightarrow> completed (abort G s k) = completed s"
    and abort_in_flight: "in_flight s - {k} \<subseteq> in_flight (abort G s k)"
begin

text \<open>A running worker's key is in flight and not done, and no two workers run the same key; the keys
  that are done are those of the successes, each of which happened once.\<close>

definition guarded :: "('s, 'k) once_sys \<Rightarrow> bool" where
  "guarded s \<longleftrightarrow>
     (\<forall>w k. workers s w = Running k \<longrightarrow> k \<in> in_flight (guard s) \<and> k \<notin> completed (guard s))
   \<and> (\<forall>w v k. workers s w = Running k \<longrightarrow> workers s v = Running k \<longrightarrow> w = v)
   \<and> (\<forall>w k. workers s w = Finished k \<longrightarrow> k \<in> completed (guard s))
   \<and> distinct (successes s) \<and> set (successes s) \<subseteq> completed (guard s)"

lemma guardedD:
  assumes "guarded s"
  shows "workers s w = Running k \<Longrightarrow> k \<in> in_flight (guard s)"
    "workers s w = Running k \<Longrightarrow> k \<notin> completed (guard s)"
    "workers s w = Running k \<Longrightarrow> workers s v = Running k \<Longrightarrow> w = v"
    "workers s w = Finished k \<Longrightarrow> k \<in> completed (guard s)"
    "distinct (successes s)" "set (successes s) \<subseteq> completed (guard s)"
  using assms unfolding guarded_def by blast+

lemma guarded_start: "guarded (once_start g)"
  by (simp add: guarded_def once_start_def)

lemma guarded_step:
  assumes "guarded s" and "once_step G s e = Some s'"
  shows "guarded s'"
proof (cases e)
  case (Start w k)
  obtain ok g where st: "try_start G (guard s) k = (ok, g)" by (cases "try_start G (guard s) k")
  have c: "completed g = completed (guard s)" using start_completed [of "guard s" k] st by simp
  have f: "in_flight g = (if ok then insert k (in_flight (guard s)) else in_flight (guard s))"
    using start_in_flight [of "guard s" k] st by simp
  have i: "ok \<longleftrightarrow> k \<notin> completed (guard s) \<and> k \<notin> in_flight (guard s)" using start_iff [of "guard s" k] st by simp
  have s': "s' = s\<lparr>guard := g, workers := (if ok then (workers s)(w := Running k) else workers s)\<rparr>"
    using assms(2) Start st by (auto split: if_splits)
  show ?thesis
  proof (cases ok)
    case True
    then have "workers s v \<noteq> Running k" for v using guardedD(1) [OF assms(1), of v k] i by blast
    with True i show ?thesis using assms(1) unfolding guarded_def s' by (auto simp: c f)
  next
    case False
    then show ?thesis using assms(1) unfolding guarded_def s' by (simp add: c f)
  qed
next
  case (Finish w)
  then obtain k where k: "workers s w = Running k" "s' = s\<lparr>guard := finish G (guard s) k,
      workers := (workers s)(w := Finished k), successes := successes s @ [k]\<rparr>"
    using assms(2) by (auto split: worker.splits)
  note D = guardedD [OF assms(1)]
  have c: "completed (finish G (guard s) k) = insert k (completed (guard s))"
    by (rule finish_completed [OF D(1) [OF k(1)]])
  have "workers s v = Running j \<Longrightarrow> v \<noteq> w \<Longrightarrow> j \<noteq> k \<and> j \<in> in_flight (finish G (guard s) k) \<and> j \<notin> completed (guard s)" for v j
    using D(1-3) [of v j] D(3) [OF k(1), of v] finish_in_flight [of "guard s" k] by blast
  moreover have "k \<notin> set (successes s)" using D(2) [OF k(1)] D(6) by blast
  moreover have "set (successes s) \<subseteq> insert k (completed (guard s))" using D(6) by blast
  ultimately show ?thesis using D(3-5) unfolding guarded_def k(2) by (auto simp: c split: if_splits)
next
  case (Release w)
  then obtain k where k: "workers s w = Finished k" "s' = s\<lparr>guard := release G (guard s) k, workers := (workers s)(w := Idle)\<rparr>"
    using assms(2) by (auto split: worker.splits)
  note D = guardedD [OF assms(1)]
  have "workers s v = Running j \<Longrightarrow> j \<in> in_flight (release G (guard s) k) \<and> j \<notin> completed (guard s)" for v j
    using D(1,2) [of v j] D(4) [OF k(1)] release_in_flight [of "guard s" k] by blast
  then show ?thesis using D(3-6) unfolding guarded_def k(2)
    by (auto simp: release_completed split: if_splits)
next
  case (Abort w)
  then obtain k where k: "workers s w = Running k" "s' = s\<lparr>guard := abort G (guard s) k, workers := (workers s)(w := Idle)\<rparr>"
    using assms(2) by (auto split: worker.splits)
  note D = guardedD [OF assms(1)]
  have "workers s v = Running j \<Longrightarrow> v \<noteq> w \<Longrightarrow> j \<in> in_flight (abort G (guard s) k) \<and> j \<notin> completed (guard s)" for v j
    using D(1-3) [of v j] D(3) [OF k(1), of v] abort_in_flight [of "guard s" k] by blast
  then show ?thesis using D(3-6) unfolding guarded_def k(2)
    by (auto simp: abort_completed [OF D(2) [OF k(1)]] split: if_splits)
qed

lemma guarded_run: "run_events (once_step G) (once_start g) es = Some s \<Longrightarrow> guarded s"
  by (rule run_events_inv [where I = guarded]) (auto intro: guarded_start guarded_step)

lemma at_most_once:
  assumes "run_events (once_step G) (once_start g) es = Some s"
  shows "distinct (successes s)" "workers s w = Running k \<Longrightarrow> workers s v = Running k \<Longrightarrow> w = v"
    "workers s w = Running k \<Longrightarrow> k \<notin> set (successes s)"
  using guardedD [OF guarded_run [OF assms]] by blast+

text \<open>A key that is done or in flight admits nobody; any other key admits the next worker.\<close>

lemma refused_after_success:
  "run_events (once_step G) (once_start g) es = Some s \<Longrightarrow> k \<in> set (successes s) \<Longrightarrow>
    \<not> fst (try_start G (guard s) k)"
  using guardedD(6) [OF guarded_run] start_iff by blast

end

end
