(* ===== verification/Idempotency.thy ===== *)
theory Idempotency
  imports Once_Guard Go_Strings
begin

text \<open>
  Doing a keyed operation once: \<open>patterns/10_apidesign/idempotency_keys.go\<close> (the store of recorded
  responses), \<open>patterns/15_messaging/inbox_pattern.go\<close> (the inbox) and
  \<open>patterns/15_messaging/idempotent_consumer.go\<close>. The first two satisfy the contract
  \<open>once_guard\<close> and inherit its facts; the consumer checks and marks in two separate critical sections
  and does not. A clock is the sequence of the times that will be read.
\<close>

type_synonym clock = "nat \<Rightarrow> gotime"

definition rest :: "clock \<Rightarrow> clock" where
  "rest c = (\<lambda>n. c (Suc n))"


section \<open>Idempotency keys\<close>

record cached_response =
  status_code :: int
  header :: "string \<rightharpoonup> string list"
  body :: string
  payload_hash :: string
  response_created_at :: gotime

record idempotency_store =
  response_cache :: "string \<rightharpoonup> cached_response"
  key_locks :: "string set"

definition new_idempotency_store :: idempotency_store where
  "new_idempotency_store = \<lparr>response_cache = Map.empty, key_locks = {}\<rparr>"

definition lock_key :: "idempotency_store \<Rightarrow> string \<Rightarrow> (cached_response option \<times> bool) \<times> idempotency_store" where
  "lock_key s key =
     (case response_cache s key of
        Some cached \<Rightarrow> ((Some cached, False), s)
      | None \<Rightarrow>
          if key \<in> key_locks s then ((None, False), s)
          else ((None, True), s\<lparr>key_locks := insert key (key_locks s)\<rparr>))"

definition save_response ::
  "idempotency_store \<Rightarrow> gotime \<Rightarrow> string \<Rightarrow> string \<Rightarrow> int \<Rightarrow> (string \<rightharpoonup> string list) \<Rightarrow> string \<Rightarrow> idempotency_store" where
  "save_response s now key payloadHash status hdr bdy =
     \<lparr>response_cache = (response_cache s)(key \<mapsto>
        \<lparr>status_code = status, header = hdr, body = bdy, payload_hash = payloadHash, response_created_at = now\<rparr>),
      key_locks = key_locks s - {key}\<rparr>"

text \<open>\<open>sha256\<close> is the digest function of the standard library.\<close>

definition hash_payload :: "(string \<Rightarrow> string) \<Rightarrow> string \<Rightarrow> string" where
  "hash_payload sha256 bdy = hex_encode (sha256 bdy)"

text \<open>The store as a once-guard: the handler's response to a key is given by \<open>answer\<close>. There is no
  operation that unlocks a key without a response.\<close>

definition idem_ops :: "(string \<Rightarrow> cached_response) \<Rightarrow> (idempotency_store \<times> clock, string) once_ops" where
  "idem_ops answer =
     \<lparr>try_start = (\<lambda>(s, c) k. let ((cached, ok), s1) = lock_key s k in (ok, s1, c)),
      finish = (\<lambda>(s, c) k. let a = answer k in
        (save_response s (c 0) k (payload_hash a) (status_code a) (header a) (body a), rest c)),
      release = (\<lambda>s k. s),
      abort = (\<lambda>s k. s)\<rparr>"

interpretation idem: once_guard "idem_ops answer" "\<lambda>(s, c). dom (response_cache s)" "\<lambda>(s, c). key_locks s"
  for answer
  by unfold_locales
    (auto simp: idem_ops_def lock_key_def save_response_def Let_def split: option.splits if_splits)

text \<open>with idempotency keys a request is executed once. In every interleaving of handlers no two of them
  execute the same key at the same time, no key is completed twice, and once it is completed LockKey
  refuses it and returns the recorded response.\<close>

theorem idempotency_key_executes_once:
  assumes "run_events (once_step (idem_ops answer)) (once_start (new_idempotency_store, c)) es = Some s"
  shows "distinct (successes s)
    \<and> (workers s w = Running k \<longrightarrow> workers s v = Running k \<longrightarrow> w = v)
    \<and> (k \<in> set (successes s) \<longrightarrow>
        (\<exists>r. fst (lock_key (fst (guard s)) k) = (Some r, False)))"
proof -
  have "\<exists>r. fst (lock_key (fst (guard s)) k) = (Some r, False)" if "k \<in> set (successes s)"
    using idem.guardedD(6) [OF idem.guarded_run [OF assms]] that
    by (cases "guard s") (force simp: lock_key_def)
  with idem.at_most_once [OF assms] show ?thesis by blast
qed

definition ok_answer :: "string \<Rightarrow> cached_response" where
  "ok_answer k = \<lparr>status_code = 201, header = Map.empty, body = k, payload_hash = [], response_created_at = 0\<rparr>"

definition demo_once :: "string once_event list" where
  "demo_once = [Start 1 ''k'', Start 2 ''k'', Finish 1, Release 1, Start 2 ''k'']"

theorem idempotency_key_executes_once_witness:
  "\<exists>s. run_events (once_step (idem_ops ok_answer)) (once_start (new_idempotency_store, \<lambda>n. int n)) demo_once = Some s
     \<and> successes s = [''k''] \<and> workers s 2 = Idle \<and> (\<exists>r. fst (lock_key (fst (guard s)) ''k'') = (Some r, False))"
proof -
  obtain s where s: "run_events (once_step (idem_ops ok_answer)) (once_start (new_idempotency_store, \<lambda>n. int n)) demo_once = Some s"
      "successes s = [''k'']" "workers s 2 = Idle"
    by (simp add: demo_once_def once_start_def idem_ops_def lock_key_def save_response_def new_idempotency_store_def
        ok_answer_def Let_def)
  with idempotency_key_executes_once [OF s(1), of 1 "''k''" 2] show ?thesis by auto
qed

text \<open>A handler that dies without a response leaves its key locked.\<close>

lemma abandoned_key_locked:
  assumes "run_events (once_step (idem_ops answer)) (once_start (new_idempotency_store, c)) es = Some s"
    and "workers s w = Running k" and "once_step (idem_ops answer) s (Abort w) = Some s'"
  shows "fst (lock_key (fst (guard s')) k) = (None, False)"
proof -
  have "guard s' = guard s" using assms(2,3) by (auto simp: idem_ops_def)
  moreover have "k \<in> (\<lambda>(s, c). key_locks s) (guard s)" "k \<notin> (\<lambda>(s, c). dom (response_cache s)) (guard s)"
    using idem.guardedD(1,2) [OF idem.guarded_run [OF assms(1)] assms(2)] .
  ultimately show ?thesis by (cases "guard s") (auto simp: lock_key_def split: option.split)
qed


section \<open>Inbox\<close>

datatype inbox_status = InboxProcessing | InboxCompleted | InboxFailed

record inbox_record =
  event_id :: string
  inbox_status :: inbox_status
  processed_at :: gotime

datatype inbox_error = ErrAlreadyProcessed | ErrCurrentlyLocked | InboxRecordNotFound

type_synonym inbox_store = "string \<rightharpoonup> inbox_record"

definition new_inbox_store :: inbox_store where
  "new_inbox_store = Map.empty"

definition try_start_processing :: "inbox_store \<Rightarrow> gotime \<Rightarrow> string \<Rightarrow> inbox_error option \<times> inbox_store" where
  "try_start_processing s now eventID =
     (case s eventID of
        Some rec \<Rightarrow>
          if inbox_status rec = InboxCompleted then (Some ErrAlreadyProcessed, s)
          else if inbox_status rec = InboxProcessing then (Some ErrCurrentlyLocked, s)
          else (None, s(eventID \<mapsto> \<lparr>event_id = eventID, inbox_status = InboxProcessing, processed_at = now\<rparr>))
      | None \<Rightarrow>
          (None, s(eventID \<mapsto> \<lparr>event_id = eventID, inbox_status = InboxProcessing, processed_at = now\<rparr>)))"

definition mark_completed :: "inbox_store \<Rightarrow> gotime \<Rightarrow> string \<Rightarrow> inbox_error option \<times> inbox_store" where
  "mark_completed s now eventID =
     (case s eventID of
        None \<Rightarrow> (Some InboxRecordNotFound, s)
      | Some rec \<Rightarrow> (None, s(eventID \<mapsto> rec\<lparr>inbox_status := InboxCompleted, processed_at := now\<rparr>)))"

definition mark_failed :: "inbox_store \<Rightarrow> string \<Rightarrow> inbox_store" where
  "mark_failed s eventID =
     (case s eventID of None \<Rightarrow> s | Some rec \<Rightarrow> s(eventID \<mapsto> rec\<lparr>inbox_status := InboxFailed\<rparr>))"

definition with_status :: "inbox_status \<Rightarrow> inbox_store \<Rightarrow> string set" where
  "with_status st s = {k. \<exists>rec. s k = Some rec \<and> inbox_status rec = st}"

definition inbox_ops :: "(inbox_store \<times> clock, string) once_ops" where
  "inbox_ops =
     \<lparr>try_start = (\<lambda>(s, c) k. let (err, s1) = try_start_processing s (c 0) k in
        (err = None, s1, if err = None then rest c else c)),
      finish = (\<lambda>(s, c) k. let (err, s1) = mark_completed s (c 0) k in (s1, rest c)),
      release = (\<lambda>s k. s),
      abort = (\<lambda>(s, c) k. (mark_failed s k, c))\<rparr>"

interpretation inbox: once_guard inbox_ops "\<lambda>(s, c). with_status InboxCompleted s" "\<lambda>(s, c). with_status InboxProcessing s"
proof
  fix s :: "inbox_store \<times> clock" and k :: string
  obtain m c where s: "s = (m, c)" by (cases s) auto
  show "fst (try_start inbox_ops s k) \<longleftrightarrow>
      k \<notin> (case s of (s, c) \<Rightarrow> with_status InboxCompleted s) \<and> k \<notin> (case s of (s, c) \<Rightarrow> with_status InboxProcessing s)"
  proof (cases "m k")
    case None
    then show ?thesis by (simp add: s inbox_ops_def try_start_processing_def with_status_def)
  next
    case (Some rec)
    then show ?thesis
      by (cases "inbox_status rec") (simp_all add: s inbox_ops_def try_start_processing_def with_status_def)
  qed
  show "(case snd (try_start inbox_ops s k) of (s, c) \<Rightarrow> with_status InboxCompleted s)
      = (case s of (s, c) \<Rightarrow> with_status InboxCompleted s)"
    by (auto simp: s inbox_ops_def try_start_processing_def with_status_def split: option.splits if_splits)
  show "(case snd (try_start inbox_ops s k) of (s, c) \<Rightarrow> with_status InboxProcessing s) =
      (if fst (try_start inbox_ops s k) then insert k (case s of (s, c) \<Rightarrow> with_status InboxProcessing s)
       else case s of (s, c) \<Rightarrow> with_status InboxProcessing s)"
    by (auto simp: s inbox_ops_def try_start_processing_def with_status_def split: option.splits if_splits)
  show "k \<in> (case s of (s, c) \<Rightarrow> with_status InboxProcessing s) \<Longrightarrow>
      (case finish inbox_ops s k of (s, c) \<Rightarrow> with_status InboxCompleted s)
        = insert k (case s of (s, c) \<Rightarrow> with_status InboxCompleted s)"
    by (auto simp: s inbox_ops_def mark_completed_def with_status_def split: option.splits if_splits)
  show "(case s of (s, c) \<Rightarrow> with_status InboxProcessing s) - {k}
      \<subseteq> (case finish inbox_ops s k of (s, c) \<Rightarrow> with_status InboxProcessing s)"
    by (auto simp: s inbox_ops_def mark_completed_def with_status_def split: option.splits if_splits)
  show "k \<notin> (case s of (s, c) \<Rightarrow> with_status InboxCompleted s) \<Longrightarrow>
      (case abort inbox_ops s k of (s, c) \<Rightarrow> with_status InboxCompleted s)
        = (case s of (s, c) \<Rightarrow> with_status InboxCompleted s)"
    by (auto simp: s inbox_ops_def mark_failed_def with_status_def split: option.splits if_splits)
  show "(case s of (s, c) \<Rightarrow> with_status InboxProcessing s) - {k}
      \<subseteq> (case abort inbox_ops s k of (s, c) \<Rightarrow> with_status InboxProcessing s)"
    by (auto simp: s inbox_ops_def mark_failed_def with_status_def split: option.splits if_splits)
qed (simp_all add: inbox_ops_def)

text \<open>the inbox makes processing effectively once. In every interleaving of workers that start an event
  and complete or fail it, no two process the same event at the same time, no event is completed twice,
  and a completed one is refused as already processed.\<close>

theorem inbox_processes_once:
  assumes "run_events (once_step inbox_ops) (once_start (new_inbox_store, c)) es = Some s"
  shows "distinct (successes s)
    \<and> (workers s w = Running k \<longrightarrow> workers s v = Running k \<longrightarrow> w = v)
    \<and> (k \<in> set (successes s) \<longrightarrow> fst (try_start_processing (fst (guard s)) now k) = Some ErrAlreadyProcessed)"
proof -
  have "fst (try_start_processing (fst (guard s)) now k) = Some ErrAlreadyProcessed" if "k \<in> set (successes s)"
    using inbox.guardedD(6) [OF inbox.guarded_run [OF assms]] that
    by (cases "guard s") (force simp: try_start_processing_def with_status_def)
  with inbox.at_most_once [OF assms] show ?thesis by blast
qed

theorem inbox_processes_once_witness:
  "\<exists>s. run_events (once_step inbox_ops) (once_start (new_inbox_store, \<lambda>n. int n))
       [Start 1 ''e'', Abort 1, Start 2 ''e'', Finish 2, Release 2] = Some s
     \<and> successes s = [''e''] \<and> fst (try_start_processing (fst (guard s)) 9 ''e'') = Some ErrAlreadyProcessed"
proof -
  obtain s where s: "run_events (once_step inbox_ops) (once_start (new_inbox_store, \<lambda>n. int n))
       [Start 1 ''e'', Abort 1, Start 2 ''e'', Finish 2, Release 2] = Some s" "successes s = [''e'']"
    by (simp add: once_start_def inbox_ops_def try_start_processing_def mark_failed_def mark_completed_def
        new_inbox_store_def Let_def)
  with inbox_processes_once [OF s(1), of 1 "''e''" 2 9] show ?thesis by auto
qed


section \<open>Idempotent consumer\<close>

record message =
  msg_id :: string
  msg_payload :: string
  msg_timestamp :: gotime

type_synonym processed_ids = "string \<rightharpoonup> gotime"

definition new_idempotent_consumer :: processed_ids where
  "new_idempotent_consumer = Map.empty"

definition is_processed :: "processed_ids \<Rightarrow> string \<Rightarrow> bool" where
  "is_processed c i \<longleftrightarrow> c i \<noteq> None"

text \<open>\<open>ProcessMessage\<close> is two critical sections with the handler between them. A delivery that finds its
  message processed returns at once; otherwise the handler runs, and if it succeeds the message is marked.\<close>

record consumer_sys =
  processed_set :: processed_ids
  handling :: "nat \<Rightarrow> message option"
  handled_log :: "string list"

datatype consumer_event = Deliver nat message | HandlerOk nat gotime | HandlerErr nat

fun consumer_step :: "consumer_sys \<Rightarrow> consumer_event \<Rightarrow> consumer_sys option" where
  "consumer_step s (Deliver w m) =
     (if handling s w \<noteq> None then None
      else if is_processed (processed_set s) (msg_id m) then Some s
      else Some (s\<lparr>handling := (handling s)(w \<mapsto> m)\<rparr>))"
| "consumer_step s (HandlerOk w now) =
     (case handling s w of
        None \<Rightarrow> None
      | Some m \<Rightarrow> Some \<lparr>processed_set = (processed_set s)(msg_id m \<mapsto> now),
                       handling = (handling s)(w := None),
                       handled_log = handled_log s @ [msg_id m]\<rparr>)"
| "consumer_step s (HandlerErr w) =
     (case handling s w of None \<Rightarrow> None | Some m \<Rightarrow> Some (s\<lparr>handling := (handling s)(w := None)\<rparr>))"

definition consumer_start :: consumer_sys where
  "consumer_start = \<lparr>processed_set = new_idempotent_consumer, handling = (\<lambda>w. None), handled_log = []\<rparr>"

text \<open>One delivery after the other: the whole of \<open>ProcessMessage\<close>.\<close>

definition process_message ::
  "processed_ids \<Rightarrow> gotime \<Rightarrow> (message \<Rightarrow> 'e option) \<Rightarrow> message \<Rightarrow> 'e option \<times> bool \<times> processed_ids" where
  "process_message c now handler m =
     (if is_processed c (msg_id m) then (None, False, c)
      else case handler m of
             Some e \<Rightarrow> (Some e, True, c)
           | None \<Rightarrow> (None, True, c(msg_id m \<mapsto> now)))"

text \<open>two deliveries of one message that overlap both run the handler. The consumer looks the message up and
  marks it in two separate critical sections, so a redelivery that arrives while the first is still being
  handled is not recognised, and the message is handled twice.\<close>

theorem concurrent_redelivery_handled_twice:
  "\<exists>s. run_events consumer_step consumer_start [Deliver 1 m, Deliver 2 m, HandlerOk 1 t, HandlerOk 2 u] = Some s
     \<and> handled_log s = [msg_id m, msg_id m]"
  by (simp add: consumer_start_def new_idempotent_consumer_def is_processed_def)

text \<open>Runs in which every delivery is finished before the next starts.\<close>

definition sequential :: "consumer_sys \<Rightarrow> bool" where
  "sequential s \<longleftrightarrow> (\<forall>w v. handling s w \<noteq> None \<longrightarrow> handling s v \<noteq> None \<longrightarrow> w = v)"

definition seq_consumer_step :: "consumer_sys \<Rightarrow> consumer_event \<Rightarrow> consumer_sys option" where
  "seq_consumer_step s e =
     (case consumer_step s e of None \<Rightarrow> None | Some t \<Rightarrow> if sequential t then Some t else None)"

definition consumer_inv :: "consumer_sys \<Rightarrow> bool" where
  "consumer_inv s \<longleftrightarrow> sequential s \<and> distinct (handled_log s) \<and> set (handled_log s) = dom (processed_set s)
     \<and> (\<forall>w m. handling s w = Some m \<longrightarrow> processed_set s (msg_id m) = None)"

lemma consumer_inv_step:
  assumes "consumer_inv s" and "seq_consumer_step s e = Some t"
  shows "consumer_inv t"
proof -
  have st: "consumer_step s e = Some t" and seq: "sequential t"
    using assms(2) by (auto simp: seq_consumer_step_def split: option.splits if_splits)
  show ?thesis
  proof (cases e)
    case (Deliver w m)
    then show ?thesis using st seq assms(1)
      by (auto simp: consumer_inv_def is_processed_def split: if_splits)
  next
    case (HandlerOk w now)
    then obtain m where m: "handling s w = Some m" using st by (auto split: option.splits)
    have only: "handling s v \<noteq> None \<longrightarrow> v = w" for v
      using assms(1) m unfolding consumer_inv_def sequential_def by blast
    have "handling t v = None" for v using st HandlerOk m only [of v] by auto
    moreover have "processed_set s (msg_id m) = None" using assms(1) m by (simp add: consumer_inv_def)
    ultimately show ?thesis using st seq assms(1) HandlerOk m by (auto simp: consumer_inv_def)
  next
    case (HandlerErr w)
    then show ?thesis using st seq assms(1) by (auto simp: consumer_inv_def split: option.splits if_splits)
  qed
qed

text \<open>deliveries that do not overlap are handled once. If every delivery is finished before the next starts,
  no message is handled successfully twice, and a message is marked exactly if it was handled.\<close>

theorem sequential_deliveries_handled_once:
  assumes "run_events seq_consumer_step consumer_start es = Some s"
  shows "distinct (handled_log s) \<and> (is_processed (processed_set s) i \<longleftrightarrow> i \<in> set (handled_log s))"
proof -
  have "consumer_inv consumer_start"
    by (simp add: consumer_inv_def consumer_start_def sequential_def new_idempotent_consumer_def)
  then have "consumer_inv s" using consumer_inv_step by (rule run_events_inv [OF assms])
  then show ?thesis by (auto simp: consumer_inv_def is_processed_def)
qed

definition demo_message :: message where
  "demo_message = \<lparr>msg_id = ''m'', msg_payload = [], msg_timestamp = 0\<rparr>"

theorem sequential_deliveries_handled_once_witness:
  "\<exists>s. run_events seq_consumer_step consumer_start
       [Deliver 1 demo_message, HandlerErr 1, Deliver 2 demo_message, HandlerOk 2 5] = Some s
     \<and> is_processed (processed_set s) ''m'' \<and> distinct (handled_log s)"
proof -
  define busy :: "nat \<Rightarrow> consumer_sys" where "busy = (\<lambda>w. consumer_start\<lparr>handling := [w \<mapsto> demo_message]\<rparr>)"
  define final where "final = \<lparr>processed_set = [''m'' \<mapsto> 5], handling = Map.empty, handled_log = [''m'']\<rparr>"
  have m: "msg_id demo_message = ''m''" by (simp add: demo_message_def)
  have seq: "sequential consumer_start" "sequential (busy w)" "sequential final" for w
    by (auto simp: sequential_def consumer_start_def busy_def final_def split: if_splits)
  have "consumer_step consumer_start (Deliver w demo_message) = Some (busy w)"
    "consumer_step (busy w) (HandlerErr w) = Some consumer_start"
    "consumer_step (busy w) (HandlerOk w 5) = Some final" for w
    by (simp_all add: busy_def final_def consumer_start_def is_processed_def new_idempotent_consumer_def m)
  with seq have "run_events seq_consumer_step consumer_start
       [Deliver 1 demo_message, HandlerErr 1, Deliver 2 demo_message, HandlerOk 2 5] = Some final"
    by (simp add: seq_consumer_step_def del: consumer_step.simps)
  from this sequential_deliveries_handled_once [OF this, of "''m''"] show ?thesis
    by (simp add: final_def)
qed

text \<open>A call of \<open>ProcessMessage\<close> with nothing in between is a run of these steps.\<close>

lemma process_message_steps:
  assumes "handling s w = None" and "process_message (processed_set s) now h m = (err, called, c)"
  shows "\<exists>es t. run_events consumer_step s es = Some t \<and> processed_set t = c \<and> handling t = handling s
    \<and> handled_log t = handled_log s @ (if called \<and> err = None then [msg_id m] else [])"
proof -
  have restore: "(handling s)(w := None) = handling s" using assms(1) by auto
  consider "is_processed (processed_set s) (msg_id m)"
    | "\<not> is_processed (processed_set s) (msg_id m)" "h m = None"
    | e where "\<not> is_processed (processed_set s) (msg_id m)" "h m = Some e" by (cases "h m") auto
  then show ?thesis
  proof cases
    case 1
    with assms show ?thesis by (intro exI [of _ "[Deliver w m]"]) (auto simp: process_message_def)
  next
    case 2
    with assms restore show ?thesis
      by (intro exI [of _ "[Deliver w m, HandlerOk w now]"]) (auto simp: process_message_def)
  next
    case 3
    then have "err = Some e" "called" "c = processed_set s" using assms(2) by (simp_all add: process_message_def)
    with 3 assms(1) restore show ?thesis
      by (intro exI [of _ "[Deliver w m, HandlerErr w]"]) (auto simp: process_message_def)
  qed
qed

end
