(* ===== verification/Dead_Letters.thy ===== *)
theory Dead_Letters
  imports Idempotency
begin

text \<open>
  \<open>patterns/15_messaging/dead_letter_queue.go\<close>: \<open>ProcessWithDLQ\<close> counts the delivery, runs the
  handler outside the lock, and then forgets the count, keeps it, or moves the message to the dead letter
  queue. The messages are those of the package's consumers (\<open>Idempotency\<close>).
\<close>

record dead_letter =
  dl_message :: message
  dl_last_error :: string
  dl_attempts :: int
  dl_failed_at :: gotime

record dlq_manager =
  dlq_max :: int
  dlq_store :: "dead_letter list"
  dlq_counts :: "string \<rightharpoonup> int"

datatype dlq_error = AttemptFailed int int string | RoutedToDLQ string int string

definition new_dlq_manager :: "int \<Rightarrow> dlq_manager" where
  "new_dlq_manager maxAttempts =
     \<lparr>dlq_max = (if maxAttempts \<le> 0 then 3 else maxAttempts), dlq_store = [], dlq_counts = Map.empty\<rparr>"

text \<open>The first critical section; a missing counter reads as zero.\<close>

definition count_attempt :: "dlq_manager \<Rightarrow> string \<Rightarrow> int \<times> dlq_manager" where
  "count_attempt d i =
     (let n = i64 ((case dlq_counts d i of None \<Rightarrow> 0 | Some c \<Rightarrow> c) + 1)
      in (n, d\<lparr>dlq_counts := (dlq_counts d)(i \<mapsto> n)\<rparr>))"

text \<open>What follows the handler, which returned \<open>err\<close>.\<close>

definition settle_attempt :: "dlq_manager \<Rightarrow> gotime \<Rightarrow> message \<Rightarrow> int \<Rightarrow> string option \<Rightarrow> dlq_error option \<times> dlq_manager" where
  "settle_attempt d now m currAttempts err =
     (case err of
        None \<Rightarrow> (None, d\<lparr>dlq_counts := (dlq_counts d)(msg_id m := None)\<rparr>)
      | Some e \<Rightarrow>
          if dlq_max d \<le> currAttempts then
            (Some (RoutedToDLQ (msg_id m) (dlq_max d) e),
             d\<lparr>dlq_store := dlq_store d @ [\<lparr>dl_message = m, dl_last_error = e, dl_attempts = currAttempts, dl_failed_at = now\<rparr>],
               dlq_counts := (dlq_counts d)(msg_id m := None)\<rparr>)
          else (Some (AttemptFailed currAttempts (dlq_max d) e), d))"

definition process_with_dlq ::
  "dlq_manager \<Rightarrow> gotime \<Rightarrow> (message \<Rightarrow> string option) \<Rightarrow> message \<Rightarrow> dlq_error option \<times> dlq_manager" where
  "process_with_dlq d now handler m =
     (let (n, d1) = count_attempt d (msg_id m) in settle_attempt d1 now m n (handler m))"

definition dlq_entries :: "dlq_manager \<Rightarrow> dead_letter list" where
  "dlq_entries d = dlq_store d"


section \<open>One message\<close>

text \<open>What the deliveries of one message should do: a success starts the count afresh, and so does every
  \<open>n\<close>-th failure in a row, which buries the message.\<close>

fun streak_step :: "int \<Rightarrow> int \<times> nat \<Rightarrow> bool \<Rightarrow> int \<times> nat" where
  "streak_step n (c, buried) ok = (if ok then (0, buried) else if n \<le> c + 1 then (0, Suc buried) else (c + 1, buried))"

definition streaks :: "int \<Rightarrow> bool list \<Rightarrow> int \<times> nat" where
  "streaks n oks = foldl (streak_step n) (0, 0) oks"

type_synonym dlq_delivery = "gotime \<times> message \<times> string option"

definition dlq_deliver :: "dlq_manager \<Rightarrow> dlq_delivery \<Rightarrow> dlq_manager" where
  "dlq_deliver d x = (case x of (now, m, err) \<Rightarrow> snd (process_with_dlq d now (\<lambda>_. err) m))"

definition outcomes_of :: "string \<Rightarrow> dlq_delivery list \<Rightarrow> bool list" where
  "outcomes_of i xs = map (\<lambda>(now, m, err). err = None) (filter (\<lambda>(now, m, err). msg_id m = i) xs)"

definition buried :: "dlq_manager \<Rightarrow> string \<Rightarrow> dead_letter list" where
  "buried d i = filter (\<lambda>l. msg_id (dl_message l) = i) (dlq_store d)"

definition dlq_inv :: "int \<Rightarrow> dlq_manager \<Rightarrow> string \<Rightarrow> int \<times> nat \<Rightarrow> bool" where
  "dlq_inv n d i cb \<longleftrightarrow> dlq_max d = n \<and> dlq_counts d i = (if fst cb = 0 then None else Some (fst cb))
     \<and> 0 \<le> fst cb \<and> fst cb < n \<and> length (buried d i) = snd cb \<and> (\<forall>l \<in> set (buried d i). dl_attempts l = n)"

lemma deliver_other:
  assumes "msg_id m \<noteq> i"
  shows "dlq_counts (dlq_deliver d (now, m, err)) i = dlq_counts d i"
    "buried (dlq_deliver d (now, m, err)) i = buried d i"
    "dlq_max (dlq_deliver d (now, m, err)) = dlq_max d"
  using assms
  by (auto simp: dlq_deliver_def process_with_dlq_def count_attempt_def settle_attempt_def buried_def Let_def
      split: option.split)

lemma dlq_inv_step:
  assumes "dlq_inv n d i cb" and "in64 n"
  shows "dlq_inv n (dlq_deliver d (now, m, err)) i (if msg_id m = i then streak_step n cb (err = None) else cb)"
proof (cases "msg_id m = i")
  case False
  then show ?thesis using assms(1) deliver_other [OF False] by (simp add: dlq_inv_def)
next
  case True
  obtain c b where cb: "cb = (c, b)" by (cases cb)
  have c: "0 \<le> c" "c < n" "dlq_counts d i = (if c = 0 then None else Some c)" "dlq_max d = n"
    using assms(1) by (simp_all add: dlq_inv_def cb)
  have "i64 (c + 1) = c + 1" "i64 1 = 1" using c assms(2) by (auto simp: in64_def i64_def)
  then have n: "count_attempt d i = (c + 1, d\<lparr>dlq_counts := (dlq_counts d)(i \<mapsto> c + 1)\<rparr>)"
    using c(3) by (simp add: count_attempt_def Let_def)
  show ?thesis
  proof (cases err)
    case None
    with n True assms(1) cb show ?thesis
      by (auto simp: dlq_deliver_def process_with_dlq_def settle_attempt_def dlq_inv_def buried_def)
  next
    case (Some e)
    show ?thesis
    proof (cases "n \<le> c + 1")
      case last: True
      then have "n = c + 1" using c(2) by simp
      with Some n True assms(1) cb c last show ?thesis
        by (auto simp: dlq_deliver_def process_with_dlq_def settle_attempt_def dlq_inv_def buried_def)
    next
      case False
      with Some n True assms(1) cb c show ?thesis
        by (auto simp: dlq_deliver_def process_with_dlq_def settle_attempt_def dlq_inv_def buried_def)
    qed
  qed
qed

lemma dlq_inv_run:
  "dlq_inv n d i cb \<Longrightarrow> in64 n \<Longrightarrow>
    dlq_inv n (foldl dlq_deliver d xs) i (foldl (streak_step n) cb (outcomes_of i xs))"
proof (induction xs arbitrary: d cb)
  case Nil
  then show ?case by (simp add: outcomes_of_def)
next
  case (Cons x xs)
  obtain now m err where x: "x = (now, m, err)" by (cases x)
  show ?case using Cons.IH [OF dlq_inv_step [OF Cons.prems(1,2), of now m err] Cons.prems(2)]
    by (cases "msg_id m = i") (simp_all add: x outcomes_of_def)
qed

text \<open>a message goes to the dead letter queue exactly on its \<open>maxAttempts\<close>-th failure in a row. For any
  interleaving of deliveries of any messages, each message's count of attempts and number of dead letters
  are those of its own outcomes alone: a success forgets the failures before it, every \<open>maxAttempts\<close>
  consecutive failures bury it once, with that many attempts recorded, and other messages play no part.\<close>

theorem dead_letter_exact:
  assumes "in64 maxAttempts"
  shows "length (buried (foldl dlq_deliver (new_dlq_manager maxAttempts) xs) i)
      = snd (streaks (dlq_max (new_dlq_manager maxAttempts)) (outcomes_of i xs))
    \<and> (\<forall>l \<in> set (buried (foldl dlq_deliver (new_dlq_manager maxAttempts) xs) i).
        dl_attempts l = dlq_max (new_dlq_manager maxAttempts))
    \<and> dlq_counts (foldl dlq_deliver (new_dlq_manager maxAttempts) xs) i
      = (let c = fst (streaks (dlq_max (new_dlq_manager maxAttempts)) (outcomes_of i xs))
         in if c = 0 then None else Some c)"
proof -
  let ?d = "new_dlq_manager maxAttempts" and ?n = "dlq_max (new_dlq_manager maxAttempts)"
  have "dlq_inv ?n ?d i (0, 0)" by (simp add: dlq_inv_def new_dlq_manager_def buried_def)
  moreover have "in64 ?n" using assms by (simp add: new_dlq_manager_def in64_def)
  ultimately have "dlq_inv ?n (foldl dlq_deliver ?d xs) i (streaks ?n (outcomes_of i xs))"
    unfolding streaks_def by (rule dlq_inv_run)
  then show ?thesis by (simp add: dlq_inv_def Let_def)
qed

definition demo_poison :: dlq_delivery where
  "demo_poison = (0, \<lparr>msg_id = ''p'', msg_payload = [], msg_timestamp = 0\<rparr>, Some ''bad'')"

theorem dead_letter_exact_witness:
  "length (buried (foldl dlq_deliver (new_dlq_manager 0) [demo_poison, demo_poison, demo_poison, demo_poison]) ''p'') = 1"
proof -
  have "outcomes_of ''p'' [demo_poison, demo_poison, demo_poison, demo_poison] = [False, False, False, False]"
    by (simp add: outcomes_of_def demo_poison_def)
  then have "snd (streaks (dlq_max (new_dlq_manager 0)) (outcomes_of ''p'' [demo_poison, demo_poison, demo_poison, demo_poison])) = 1"
    by (simp add: streaks_def new_dlq_manager_def)
  with dead_letter_exact [of 0 "[demo_poison, demo_poison, demo_poison, demo_poison]" "''p''"] show ?thesis
    by (simp add: in64_def)
qed

text \<open>Every failure is reported with its number, the last one as the routing to the queue.\<close>

lemma attempt_reported:
  assumes "dlq_inv n d (msg_id m) (c, b)" and "in64 n"
  shows "fst (process_with_dlq d now (\<lambda>_. Some e) m)
    = Some (if n \<le> c + 1 then RoutedToDLQ (msg_id m) n e else AttemptFailed (c + 1) n e)"
proof -
  have c: "0 \<le> c" "c < n" "dlq_counts d (msg_id m) = (if c = 0 then None else Some c)" "dlq_max d = n"
    using assms(1) by (simp_all add: dlq_inv_def)
  have "i64 (c + 1) = c + 1" "i64 1 = 1" using c assms(2) by (auto simp: in64_def i64_def)
  with c show ?thesis by (simp add: process_with_dlq_def count_attempt_def settle_attempt_def Let_def)
qed

end
