(* ===== verification/Deployment_Gates.thy ===== *)
theory Deployment_Gates
  imports Go_Prelude
begin

text \<open>
  \<open>patterns/21_deployment\<close>: draining before a pod stops (\<open>prestop_draining.go\<close>) and splitting traffic between two
  deployments (\<open>traffic_splitter.go\<close>); \<open>patterns/24_backgroundjobs/scheduled_runner.go\<close>: a periodic task. Requests and
  goroutines interleave: an event is one atomic step of one of them.
\<close>


section \<open>Draining\<close>

record draining_manager =
  is_ready :: bool
  active_requests :: int
  draining_delay :: duration

definition new_draining_manager :: "duration \<Rightarrow> draining_manager" where
  "new_draining_manager d = \<lparr>is_ready = True, active_requests = 0, draining_delay = d\<rparr>"

definition readiness_probe :: "draining_manager \<Rightarrow> int \<times> string" where
  "readiness_probe m = (if \<not> is_ready m then (503, ''UNREADY_DRAINING'') else (200, ''READY''))"

datatype hook_result = HookDone | HookCancelled ctx_err

text \<open>\<open>PreStopHook\<close> clears the flag, then waits for the delay or the context; what it waits for is observed.\<close>

definition pre_stop_hook :: "draining_manager \<Rightarrow> ctx_err option \<Rightarrow> hook_result \<times> draining_manager" where
  "pre_stop_hook m ctx_done =
     (let m1 = m\<lparr>is_ready := False\<rparr> in
      case ctx_done of Some e \<Rightarrow> (HookCancelled e, m1) | None \<Rightarrow> (HookDone, m1))"

datatype drain_event = RequestBegins | RequestEnds | HookCalled "ctx_err option"

fun drain_step :: "draining_manager \<Rightarrow> drain_event \<Rightarrow> draining_manager" where
  "drain_step m RequestBegins = m\<lparr>active_requests := i64 (active_requests m + 1)\<rparr>"
| "drain_step m RequestEnds = m\<lparr>active_requests := i64 (active_requests m - 1)\<rparr>"
| "drain_step m (HookCalled c) = snd (pre_stop_hook m c)"

lemma pre_stop_hook_fields [simp]:
  "is_ready (snd (pre_stop_hook m c)) = False" "active_requests (snd (pre_stop_hook m c)) = active_requests m"
  by (simp_all add: pre_stop_hook_def Let_def split: option.split)

fun is_hook :: "drain_event \<Rightarrow> bool" where
  "is_hook (HookCalled c) = True"
| "is_hook _ = False"

lemma drain_run_ready: "is_ready (foldl drain_step m es) \<longleftrightarrow> is_ready m \<and> \<not> (\<exists>e \<in> set es. is_hook e)"
proof (induction es arbitrary: m)
  case (Cons e es)
  then show ?case by (cases e) auto
qed simp

definition requests_begun :: "drain_event list \<Rightarrow> int" where
  "requests_begun es = int (length (filter (\<lambda>e. e = RequestBegins) es))"

definition requests_ended :: "drain_event list \<Rightarrow> int" where
  "requests_ended es = int (length (filter (\<lambda>e. e = RequestEnds) es))"

text \<open>Once the hook has been called the probe answers 503 for ever, and the counter is the number of requests in flight.\<close>

lemma draining_is_final:
  assumes "m = foldl drain_step (new_draining_manager d) es"
  shows "fst (readiness_probe m) = (if \<exists>e \<in> set es. is_hook e then 503 else 200) \<and>
    active_requests m = i64 (requests_begun es - requests_ended es)"
proof -
  have "active_requests (foldl drain_step (new_draining_manager d) es) = i64 (requests_begun es - requests_ended es)"
  proof (induction es rule: rev_induct)
    case Nil
    then show ?case by (simp add: new_draining_manager_def requests_begun_def requests_ended_def i64_def)
  next
    case (snoc e es)
    then show ?case
    proof (cases e)
      case RequestBegins
      have "i64 (i64 (requests_begun es - requests_ended es) + 1) = i64 (requests_begun es - requests_ended es + 1)" by (rule i64_add_left)
      with snoc RequestBegins show ?thesis by (simp add: requests_begun_def requests_ended_def algebra_simps)
    next
      case RequestEnds
      have "i64 (i64 (requests_begun es - requests_ended es) - 1) = i64 (requests_begun es - requests_ended es - 1)" by (rule i64_diff_left)
      with snoc RequestEnds show ?thesis by (simp add: requests_begun_def requests_ended_def algebra_simps)
    next
      case (HookCalled c)
      with snoc show ?thesis by (simp add: requests_begun_def requests_ended_def)
    qed
  qed
  moreover have "is_ready (foldl drain_step (new_draining_manager d) es) \<longleftrightarrow> \<not> (\<exists>e \<in> set es. is_hook e)"
    using drain_run_ready [of "new_draining_manager d" es] by (simp add: new_draining_manager_def)
  ultimately show ?thesis unfolding assms by (simp add: readiness_probe_def)
qed

text \<open>The hook does not wait for the requests in flight: it returns after the delay however many there are.\<close>

lemma hook_ignores_requests:
  "fst (pre_stop_hook (m\<lparr>active_requests := n\<rparr>) None) = HookDone"
  by (simp add: pre_stop_hook_def)


section \<open>Traffic splitting\<close>

datatype deployment_color = ColorBlue | ColorGreen

record traffic_splitter =
  canary_weight :: int
  active_color :: deployment_color

definition set_canary_weight :: "int \<Rightarrow> traffic_splitter \<Rightarrow> traffic_splitter" where
  "set_canary_weight weight s =
     s\<lparr>canary_weight := (if weight < 0 then 0 else if 100 < weight then 100 else weight)\<rparr>"

definition new_traffic_splitter :: "int \<Rightarrow> traffic_splitter" where
  "new_traffic_splitter initialWeight =
     (set_canary_weight initialWeight \<lparr>canary_weight = 0, active_color = ColorBlue\<rparr>)\<lparr>active_color := ColorBlue\<rparr>"

definition switch_active_color :: "deployment_color \<Rightarrow> traffic_splitter \<Rightarrow> traffic_splitter" where
  "switch_active_color c s = s\<lparr>active_color := c\<rparr>"

text \<open>\<open>draw\<close> is the random number below 100.\<close>

definition route_target :: "traffic_splitter \<Rightarrow> string \<Rightarrow> int \<Rightarrow> deployment_color" where
  "route_target s canary_header draw =
     (if canary_header = ''true'' then ColorGreen
      else if canary_weight s = 0 then active_color s
      else if canary_weight s = 100 then ColorGreen
      else if draw < canary_weight s then ColorGreen
      else ColorBlue)"

datatype splitter_op = SetWeight int | SwitchColor deployment_color

fun splitter_step :: "traffic_splitter \<Rightarrow> splitter_op \<Rightarrow> traffic_splitter" where
  "splitter_step s (SetWeight w) = set_canary_weight w s"
| "splitter_step s (SwitchColor c) = switch_active_color c s"

lemma weight_bounds:
  "0 \<le> canary_weight (foldl splitter_step (new_traffic_splitter w) ops) \<and>
   canary_weight (foldl splitter_step (new_traffic_splitter w) ops) \<le> 100"
proof -
  have "(\<lambda>s. 0 \<le> canary_weight s \<and> canary_weight s \<le> 100) (foldl splitter_step (new_traffic_splitter w) ops)"
  proof (rule foldl_inv)
    show "0 \<le> canary_weight (new_traffic_splitter w) \<and> canary_weight (new_traffic_splitter w) \<le> 100"
      by (simp add: new_traffic_splitter_def set_canary_weight_def)
  next
    fix s :: traffic_splitter and x
    assume "0 \<le> canary_weight s \<and> canary_weight s \<le> 100"
    then show "0 \<le> canary_weight (splitter_step s x) \<and> canary_weight (splitter_step s x) \<le> 100"
      by (cases x) (simp_all add: set_canary_weight_def switch_active_color_def)
  qed
  then show ?thesis by simp
qed

lemma count_below: "0 \<le> w \<Longrightarrow> w \<le> 100 \<Longrightarrow> length (filter (\<lambda>d. d < w) [0..99]) = nat w"
proof -
  assume w: "0 \<le> w" "w \<le> 100"
  have "length (filter (\<lambda>d. d < w) [0..99]) = card {d \<in> set [0..99]. d < w}"
    by (simp add: distinct_length_filter Int_def conj_commute del: upto_rec_numeral)
  also have "{d \<in> set [0..99]. d < w} = {0..<w}" using w by (auto simp del: upto_rec_numeral)
  finally show ?thesis by simp
qed

text \<open>A canary gets its share: of the 100 equally likely draws exactly as many as the weight says route an ordinary request to
  the green deployment, whatever the operator did before, as long as blue is the active colour or the weight is not 0.\<close>

lemma canary_share:
  assumes "s = foldl splitter_step (new_traffic_splitter w) ops" and "h \<noteq> ''true''"
    and "canary_weight s \<noteq> 0 \<or> active_color s = ColorBlue"
  shows "int (length (filter (\<lambda>d. route_target s h d = ColorGreen) [0..99])) = canary_weight s"
proof -
  have b: "0 \<le> canary_weight s" "canary_weight s \<le> 100" using weight_bounds [of w ops] assms(1) by auto
  have "filter (\<lambda>d. route_target s h d = ColorGreen) [0..99] = filter (\<lambda>d. d < canary_weight s) [0..99]"
    by (rule filter_cong [OF refl]) (use assms(2,3) b in \<open>auto simp: route_target_def simp del: upto_rec_numeral\<close>)
  then show ?thesis using count_below [OF b] b by simp
qed

text \<open>The active colour only counts while the weight is 0. After a cut-over to green any other weight below 100 sends the rest of
  the traffic back to blue, and after a switch back to blue the weight 100 still routes everything to green.\<close>

lemma cutover_not_kept:
  assumes "0 < w" and "w < 100" and "w \<le> draw" and "h \<noteq> ''true''"
  shows "route_target (switch_active_color ColorGreen (set_canary_weight w s)) h draw = ColorBlue"
  using assms by (simp add: route_target_def switch_active_color_def set_canary_weight_def)

lemma rollback_not_effective:
  "route_target (switch_active_color ColorBlue (set_canary_weight 100 s)) h draw = ColorGreen"
  by (simp add: route_target_def switch_active_color_def set_canary_weight_def)


section \<open>The scheduled runner\<close>

datatype loop_state = LoopIdle | LoopRunning | LoopExited

record task_runner =
  runner_interval :: duration
  runner_loops :: "loop_state list"
  runner_cancelled :: bool
  runner_stopped :: bool

definition new_task_runner :: "duration \<Rightarrow> task_runner" where
  "new_task_runner interval =
     \<lparr>runner_interval = (if interval \<le> 0 then 60000000000 else interval), runner_loops = [], runner_cancelled = False,
      runner_stopped = False\<rparr>"

text \<open>A loop that finds both the end of the context and a tick ready may take either. \<open>StopReturns\<close> is the end of the wait in
  \<open>Stop\<close>.\<close>

datatype runner_event = RunnerStart | LoopTick nat | LoopTaskDone nat | LoopCancelled nat | StopCalled | StopReturns

fun runner_step :: "task_runner \<Rightarrow> runner_event \<Rightarrow> task_runner option" where
  "runner_step r RunnerStart = Some (r\<lparr>runner_loops := runner_loops r @ [LoopIdle]\<rparr>)"
| "runner_step r (LoopTick i) =
     (if i < length (runner_loops r) \<and> runner_loops r ! i = LoopIdle
      then Some (r\<lparr>runner_loops := (runner_loops r)[i := LoopRunning]\<rparr>) else None)"
| "runner_step r (LoopTaskDone i) =
     (if i < length (runner_loops r) \<and> runner_loops r ! i = LoopRunning
      then Some (r\<lparr>runner_loops := (runner_loops r)[i := LoopIdle]\<rparr>) else None)"
| "runner_step r (LoopCancelled i) =
     (if i < length (runner_loops r) \<and> runner_loops r ! i = LoopIdle \<and> runner_cancelled r
      then Some (r\<lparr>runner_loops := (runner_loops r)[i := LoopExited]\<rparr>) else None)"
| "runner_step r StopCalled = Some (r\<lparr>runner_cancelled := True\<rparr>)"
| "runner_step r StopReturns =
     (if runner_cancelled r \<and> (\<forall>l \<in> set (runner_loops r). l = LoopExited) then Some (r\<lparr>runner_stopped := True\<rparr>) else None)"

definition all_exited :: "task_runner \<Rightarrow> bool" where
  "all_exited r \<longleftrightarrow> runner_stopped r \<and> (\<forall>i < length (runner_loops r). runner_loops r ! i = LoopExited)"

lemma stopped_step: "runner_step r e = Some r1 \<Longrightarrow> e \<noteq> RunnerStart \<Longrightarrow> all_exited r \<Longrightarrow> all_exited r1"
  by (cases e) (auto simp: all_exited_def split: if_splits)

lemma stop_returns_exited: "runner_step r StopReturns = Some r1 \<Longrightarrow> all_exited r1"
  by (auto simp: all_exited_def split: if_splits)

text \<open>After \<open>Stop\<close> has returned no task is running and none is started any more, unless \<open>Start\<close> is called again.\<close>

lemma nothing_runs_after_stop:
  assumes "runner_step r StopReturns = Some s" and "run_events runner_step s es = Some t" and "RunnerStart \<notin> set es"
  shows "all_exited t"
proof -
  have "run_events runner_step s es = Some t \<Longrightarrow> RunnerStart \<notin> set es \<Longrightarrow> all_exited s \<Longrightarrow> all_exited t" for s
  proof (induction es arbitrary: s)
    case (Cons e es)
    then obtain s1 where s1: "runner_step s e = Some s1" "run_events runner_step s1 es = Some t"
      by (auto split: option.splits)
    with stopped_step [OF s1(1)] Cons show ?case by auto
  qed simp
  with assms stop_returns_exited [OF assms(1)] show ?thesis by blast
qed

end
