(* ===== verification/Store_Contract.thy ===== *)
theory Store_Contract
  imports Go_Prelude
begin

text \<open>
  The contract shared by the in-memory repositories: a store has a view as a finite map, saving a
  value binds the value's image at its key in the view, removing deletes the key; both keep the
  store's representation invariant \<open>ok\<close>. The clients' facts (a history of operations refines the
  same history on maps, the last write wins, saving twice is saving once) are proved once, inside
  the locales, and instantiated on each repository in its own theory.
\<close>

datatype ('r, 'v) store_op = Save 'v | Remove 'r

primrec spec_step ::
  "('v \<Rightarrow> 'k) \<Rightarrow> ('v \<Rightarrow> 'w) \<Rightarrow> ('r \<Rightarrow> 'k) \<Rightarrow> ('k \<rightharpoonup> 'w) \<Rightarrow> ('r, 'v) store_op \<Rightarrow> ('k \<rightharpoonup> 'w)" where
  "spec_step key img rkey m (Save v) = m(key v \<mapsto> img v)"
| "spec_step key img rkey m (Remove r) = m(rkey r := None)"

primrec op_key :: "('v \<Rightarrow> 'k) \<Rightarrow> ('r \<Rightarrow> 'k) \<Rightarrow> ('r, 'v) store_op \<Rightarrow> 'k" where
  "op_key key rkey (Save v) = key v"
| "op_key key rkey (Remove r) = rkey r"

lemma spec_run_untouched:
  "k \<notin> op_key key rkey ` set ops \<Longrightarrow> foldl (spec_step key img rkey) m ops k = m k"
proof (induction ops arbitrary: m)
  case Nil
  then show ?case by simp
next
  case (Cons a ops)
  then show ?case by (cases a) auto
qed

locale keyed_store =
  fixes ok :: "'s \<Rightarrow> bool"
    and view :: "'s \<Rightarrow> 'k \<rightharpoonup> 'w"
    and save :: "'s \<Rightarrow> 'v \<Rightarrow> 's"
    and key :: "'v \<Rightarrow> 'k"
    and img :: "'v \<Rightarrow> 'w"
    and valid :: "'v \<Rightarrow> bool"
  assumes view_save: "ok s \<Longrightarrow> valid v \<Longrightarrow> view (save s v) = (view s)(key v \<mapsto> img v)"
    and ok_save: "ok s \<Longrightarrow> valid v \<Longrightarrow> ok (save s v)"
begin

lemma find_after_save: "ok s \<Longrightarrow> valid v \<Longrightarrow> view (save s v) (key v) = Some (img v)"
  by (simp add: view_save)

lemma save_frame: "ok s \<Longrightarrow> valid v \<Longrightarrow> k \<noteq> key v \<Longrightarrow> view (save s v) k = view s k"
  by (simp add: view_save)

lemma save_twice: "ok s \<Longrightarrow> valid v \<Longrightarrow> view (save (save s v) v) = view (save s v)"
  by (simp add: view_save ok_save)

lemma save_overwrites:
  "ok s \<Longrightarrow> valid v \<Longrightarrow> valid w \<Longrightarrow> key w = key v \<Longrightarrow> view (save (save s v) w) = view (save s w)"
  by (simp add: view_save ok_save)

lemma save_commute:
  "ok s \<Longrightarrow> valid v \<Longrightarrow> valid w \<Longrightarrow> key w \<noteq> key v \<Longrightarrow>
    view (save (save s v) w) = view (save (save s w) v)"
  by (simp add: view_save ok_save fun_upd_twist)

end

locale deletable_store = keyed_store ok view save key img valid
  for ok :: "'s \<Rightarrow> bool" and view :: "'s \<Rightarrow> 'k \<rightharpoonup> 'w" and save :: "'s \<Rightarrow> 'v \<Rightarrow> 's" and key img valid +
  fixes remove :: "'s \<Rightarrow> 'r \<Rightarrow> 's" and rkey :: "'r \<Rightarrow> 'k"
  assumes view_remove: "ok s \<Longrightarrow> view (remove s r) = (view s)(rkey r := None)"
    and ok_remove: "ok s \<Longrightarrow> ok (remove s r)"
begin

definition step :: "'s \<Rightarrow> ('r, 'v) store_op \<Rightarrow> 's" where
  "step s x = (case x of Save v \<Rightarrow> save s v | Remove r \<Rightarrow> remove s r)"

definition valid_ops :: "('r, 'v) store_op list \<Rightarrow> bool" where
  "valid_ops ops \<longleftrightarrow> (\<forall>v. Save v \<in> set ops \<longrightarrow> valid v)"

lemma run_refines:
  "ok s \<Longrightarrow> valid_ops ops \<Longrightarrow>
    ok (foldl step s ops) \<and> view (foldl step s ops) = foldl (spec_step key img rkey) (view s) ops"
proof (induction ops arbitrary: s)
  case Nil
  then show ?case by simp
next
  case (Cons a ops)
  then have "valid_ops ops" by (simp add: valid_ops_def)
  with Cons show ?case
    by (cases a) (auto simp: step_def valid_ops_def view_save view_remove ok_save ok_remove)
qed

lemma last_write_wins:
  assumes "ok s" and "valid_ops (before @ Save v # after)" and "key v \<notin> op_key key rkey ` set after"
  shows "view (foldl step s (before @ Save v # after)) (key v) = Some (img v)"
  unfolding run_refines [OF assms(1,2), THEN conjunct2] using assms(3) by (simp add: spec_run_untouched)

lemma remove_twice: "ok s \<Longrightarrow> view (remove (remove s r) r) = view (remove s r)"
  by (simp add: view_remove ok_remove)

lemma find_after_remove: "ok s \<Longrightarrow> view (remove s r) (rkey r) = None"
  by (simp add: view_remove)

end

end
