(* ===== verification/Document_Store.thy ===== *)
theory Document_Store
  imports Store_Contract
begin

text \<open>
  \<open>patterns/04_persistence/idempotent_soft_delete.go\<close>: the document store. Its map holds
  pointers, and every operation hands the stored pointer out, so the model has an explicit heap:
  \<open>docs\<close> maps an id to a reference, \<open>doc_heap\<close> maps references to documents, and a new
  document is allocated at \<open>next_ref\<close>. The time stamps are arguments, one for each reading
  of the clock. The context arguments are ignored by the code and have no counterpart.
\<close>

record document =
  doc_id :: string
  title :: string
  content :: string
  doc_version :: int
  created_at :: gotime
  doc_updated_at :: gotime
  deleted_at :: "gotime option"

definition is_deleted :: "document \<Rightarrow> bool" where
  "is_deleted d \<longleftrightarrow> deleted_at d \<noteq> None"

datatype doc_error = ErrEmptyDocumentId | ErrDocNotFound

record document_store =
  docs :: "string \<rightharpoonup> nat"
  doc_heap :: "nat \<rightharpoonup> document"
  next_ref :: nat

definition new_document_store :: document_store where
  "new_document_store = \<lparr>docs = Map.empty, doc_heap = Map.empty, next_ref = 0\<rparr>"

definition deref :: "document_store \<Rightarrow> nat \<Rightarrow> document" where
  "deref s r = the (doc_heap s r)"

definition set_doc :: "document_store \<Rightarrow> nat \<Rightarrow> document \<Rightarrow> document_store" where
  "set_doc s r d = s\<lparr>doc_heap := (doc_heap s)(r \<mapsto> d)\<rparr>"

definition idempotent_upsert ::
  "document_store \<Rightarrow> gotime \<Rightarrow> string \<Rightarrow> string \<Rightarrow> string \<Rightarrow> (doc_error + nat) \<times> document_store" where
  "idempotent_upsert s now i ttl cnt =
     (if i = [] then (Inl ErrEmptyDocumentId, s)
      else case docs s i of
        None \<Rightarrow>
          let doc = \<lparr>doc_id = i, title = ttl, content = cnt, doc_version = 1,
                     created_at = now, doc_updated_at = now, deleted_at = None\<rparr>;
              r = next_ref s
          in (Inr r, \<lparr>docs = (docs s)(i \<mapsto> r), doc_heap = (doc_heap s)(r \<mapsto> doc), next_ref = r + 1\<rparr>)
      | Some r \<Rightarrow>
          let existing = deref s r in
          if title existing = ttl \<and> content existing = cnt \<and> \<not> is_deleted existing then (Inr r, s)
          else (Inr r, set_doc s r (existing\<lparr>title := ttl, content := cnt, doc_updated_at := now,
                  deleted_at := None, doc_version := i64 (doc_version existing + 1)\<rparr>)))"

definition soft_delete ::
  "document_store \<Rightarrow> gotime \<Rightarrow> string \<Rightarrow> doc_error option \<times> document_store" where
  "soft_delete s now i =
     (case docs s i of
        None \<Rightarrow> (Some ErrDocNotFound, s)
      | Some r \<Rightarrow>
          let doc = deref s r in
          if is_deleted doc then (None, s)
          else (None, set_doc s r (doc\<lparr>deleted_at := Some now, doc_updated_at := now\<rparr>)))"

definition find_active :: "document_store \<Rightarrow> string \<Rightarrow> doc_error + nat" where
  "find_active s i =
     (case docs s i of
        None \<Rightarrow> Inl ErrDocNotFound
      | Some r \<Rightarrow> if is_deleted (deref s r) then Inl ErrDocNotFound else Inr r)"

definition find_including_deleted :: "document_store \<Rightarrow> string \<Rightarrow> doc_error + nat" where
  "find_including_deleted s i =
     (case docs s i of None \<Rightarrow> Inl ErrDocNotFound | Some r \<Rightarrow> Inr r)"

text \<open>The calls that write, with the time each reads, and a run of them.\<close>

datatype doc_call = Upsert gotime string string string | SoftDelete gotime string

primrec doc_exec :: "document_store \<Rightarrow> doc_call \<Rightarrow> document_store" where
  "doc_exec s (Upsert now i ttl cnt) = snd (idempotent_upsert s now i ttl cnt)"
| "doc_exec s (SoftDelete now i) = snd (soft_delete s now i)"

primrec redelivered :: "gotime \<Rightarrow> doc_call \<Rightarrow> doc_call" where
  "redelivered now' (Upsert now i ttl cnt) = Upsert now' i ttl cnt"
| "redelivered now' (SoftDelete now i) = SoftDelete now' i"


section \<open>Representation invariant\<close>

text \<open>Every reference of the map is allocated and holds the document with that id; so no two ids
  share a document.\<close>

definition doc_ok :: "document_store \<Rightarrow> bool" where
  "doc_ok s \<longleftrightarrow> (\<forall>i r. docs s i = Some r \<longrightarrow> r < next_ref s \<and> (\<exists>d. doc_heap s r = Some d \<and> doc_id d = i))"

lemma doc_okD: "doc_ok s \<Longrightarrow> docs s i = Some r \<Longrightarrow> r < next_ref s"
  "doc_ok s \<Longrightarrow> docs s i = Some r \<Longrightarrow> doc_heap s r = Some (deref s r) \<and> doc_id (deref s r) = i"
  by (fastforce simp: doc_ok_def deref_def)+

lemma doc_ok_inj: "doc_ok s \<Longrightarrow> docs s i = Some r \<Longrightarrow> docs s j = Some r \<Longrightarrow> i = j"
  using doc_okD(2) by blast

lemma doc_ok_new [simp, go_inv]: "doc_ok new_document_store"
  by (simp add: doc_ok_def new_document_store_def)

lemma doc_ok_set_doc:
  assumes "doc_ok s" and "docs s i = Some r" and "doc_id d = i"
  shows "doc_ok (set_doc s r d)"
  unfolding doc_ok_def
proof (intro allI impI)
  fix j q
  assume "docs (set_doc s r d) j = Some q"
  then have q: "docs s j = Some q" by (simp add: set_doc_def)
  then have "q = r \<Longrightarrow> j = i" using doc_ok_inj [OF assms(1)] assms(2) by blast
  with doc_okD [OF assms(1) q] assms(3)
  show "q < next_ref (set_doc s r d) \<and> (\<exists>d'. doc_heap (set_doc s r d) q = Some d' \<and> doc_id d' = j)"
    by (auto simp: set_doc_def)
qed

lemma deref_set_doc [simp]: "deref (set_doc s r d) q = (if q = r then d else deref s q)"
  by (simp add: deref_def set_doc_def)

lemma docs_set_doc [simp]: "docs (set_doc s r d) = docs s"
  by (simp add: set_doc_def)

text \<open>The three outcomes of an upsert that is not refused.\<close>

lemma upsert_empty: "idempotent_upsert s now [] ttl cnt = (Inl ErrEmptyDocumentId, s)"
  by (simp add: idempotent_upsert_def)

lemma upsert_insert:
  "i \<noteq> [] \<Longrightarrow> docs s i = None \<Longrightarrow>
    idempotent_upsert s now i ttl cnt = (Inr (next_ref s),
      \<lparr>docs = (docs s)(i \<mapsto> next_ref s),
       doc_heap = (doc_heap s)(next_ref s \<mapsto> \<lparr>doc_id = i, title = ttl, content = cnt, doc_version = 1,
         created_at = now, doc_updated_at = now, deleted_at = None\<rparr>),
       next_ref = next_ref s + 1\<rparr>)"
  by (simp add: idempotent_upsert_def Let_def)

lemma upsert_same:
  "i \<noteq> [] \<Longrightarrow> docs s i = Some r \<Longrightarrow> title (deref s r) = ttl \<Longrightarrow> content (deref s r) = cnt \<Longrightarrow>
    \<not> is_deleted (deref s r) \<Longrightarrow> idempotent_upsert s now i ttl cnt = (Inr r, s)"
  by (simp add: idempotent_upsert_def Let_def)

lemma upsert_update:
  "i \<noteq> [] \<Longrightarrow> docs s i = Some r \<Longrightarrow>
    \<not> (title (deref s r) = ttl \<and> content (deref s r) = cnt \<and> \<not> is_deleted (deref s r)) \<Longrightarrow>
    idempotent_upsert s now i ttl cnt = (Inr r, set_doc s r ((deref s r)\<lparr>title := ttl, content := cnt,
      doc_updated_at := now, deleted_at := None, doc_version := i64 (doc_version (deref s r) + 1)\<rparr>))"
  by (auto simp: idempotent_upsert_def Let_def)

lemma upsert_cases [case_names empty insert same update]:
  assumes "i = [] \<Longrightarrow> P"
    and "i \<noteq> [] \<Longrightarrow> docs s i = None \<Longrightarrow> P"
    and "\<And>r. i \<noteq> [] \<Longrightarrow> docs s i = Some r \<Longrightarrow> title (deref s r) = ttl \<Longrightarrow> content (deref s r) = cnt \<Longrightarrow>
      \<not> is_deleted (deref s r) \<Longrightarrow> P"
    and "\<And>r. i \<noteq> [] \<Longrightarrow> docs s i = Some r \<Longrightarrow>
      \<not> (title (deref s r) = ttl \<and> content (deref s r) = cnt \<and> \<not> is_deleted (deref s r)) \<Longrightarrow> P"
  shows P
  using assms by (cases "docs s i") blast+

lemma doc_ok_upsert [go_inv]:
  assumes "doc_ok s"
  shows "doc_ok (snd (idempotent_upsert s now i ttl cnt))"
proof (cases rule: upsert_cases [of i _ s ttl cnt])
  case empty
  with assms show ?thesis by (simp add: upsert_empty)
next
  case insert
  have "docs s j = Some q \<Longrightarrow> q < next_ref s \<and> q \<noteq> next_ref s" for j q
    using doc_okD(1) [OF assms] by fastforce
  then show ?thesis using assms insert
    by (fastforce simp: upsert_insert doc_ok_def)
next
  case (same r)
  with assms show ?thesis by (simp add: upsert_same)
next
  case (update r)
  with assms doc_okD(2) [OF assms update(2)] show ?thesis
    by (simp add: upsert_update doc_ok_set_doc)
qed

lemma doc_ok_soft_delete [go_inv]: "doc_ok s \<Longrightarrow> doc_ok (snd (soft_delete s now i))"
  using doc_okD(2) [of s i]
  by (auto simp: soft_delete_def Let_def intro!: doc_ok_set_doc split: option.split)

lemma doc_ok_exec [go_inv]: "doc_ok s \<Longrightarrow> doc_ok (doc_exec s c)"
  by (cases c) (simp_all add: doc_ok_upsert doc_ok_soft_delete)

lemma doc_ok_run [go_inv]: "doc_ok s \<Longrightarrow> doc_ok (foldl doc_exec s cs)"
  by (rule foldl_inv) (simp_all add: doc_ok_exec)


section \<open>The active documents as a map\<close>

definition active_view :: "document_store \<Rightarrow> string \<rightharpoonup> string \<times> string" where
  "active_view s i =
     (case find_active s i of
        Inl e \<Rightarrow> None
      | Inr r \<Rightarrow> Some (title (deref s r), content (deref s r)))"

lemma active_view_eq:
  "active_view s i =
     (case docs s i of
        None \<Rightarrow> None
      | Some r \<Rightarrow> if is_deleted (deref s r) then None else Some (title (deref s r), content (deref s r)))"
  by (simp add: active_view_def find_active_def split: option.split)

lemma active_view_set_doc:
  assumes "doc_ok s" and "docs s i = Some r"
  shows "active_view (set_doc s r d) =
    (active_view s)(i := if is_deleted d then None else Some (title d, content d))"
proof (rule ext)
  fix j
  show "active_view (set_doc s r d) j
      = ((active_view s)(i := if is_deleted d then None else Some (title d, content d))) j"
  proof (cases "j = i")
    case True
    then show ?thesis using assms(2) by (simp add: active_view_eq)
  next
    case False
    have "docs s j = Some q \<longrightarrow> q \<noteq> r" for q
      using doc_ok_inj [OF assms, of j] False by auto
    then show ?thesis using False by (cases "docs s j") (simp_all add: active_view_eq)
  qed
qed

lemma active_view_upsert:
  assumes "doc_ok s" and "i \<noteq> []"
  shows "active_view (snd (idempotent_upsert s now i ttl cnt)) = (active_view s)(i \<mapsto> (ttl, cnt))"
proof (cases rule: upsert_cases [of i _ s ttl cnt])
  case empty
  with assms show ?thesis by simp
next
  case insert
  show ?thesis
  proof (rule ext)
    fix j
    have "docs s j = Some q \<longrightarrow> q \<noteq> next_ref s" for q
      using doc_okD(1) [OF assms(1), of j q] by auto
    then show "active_view (snd (idempotent_upsert s now i ttl cnt)) j
        = ((active_view s)(i \<mapsto> (ttl, cnt))) j"
      by (cases "docs s j") (simp_all add: upsert_insert [OF insert] active_view_eq deref_def is_deleted_def)
  qed
next
  case (same r)
  then have "active_view s i = Some (ttl, cnt)" by (simp add: active_view_eq)
  with same show ?thesis by (simp add: upsert_same fun_upd_idem)
next
  case (update r)
  then show ?thesis
    by (simp add: upsert_update [OF update] active_view_set_doc [OF assms(1) update(2)] is_deleted_def)
qed

lemma active_view_soft_delete:
  assumes "doc_ok s"
  shows "active_view (snd (soft_delete s now i)) = (active_view s)(i := None)"
proof (cases "docs s i")
  case None
  then have "active_view s i = None" by (simp add: active_view_eq)
  then show ?thesis using None by (simp add: soft_delete_def fun_upd_idem)
next
  case (Some r)
  show ?thesis
  proof (cases "is_deleted (deref s r)")
    case True
    then have "active_view s i = None" using Some by (simp add: active_view_eq)
    then show ?thesis using Some True by (simp add: soft_delete_def Let_def fun_upd_idem)
  next
    case False
    then show ?thesis using Some
      by (simp add: soft_delete_def Let_def active_view_set_doc [OF assms Some] is_deleted_def)
  qed
qed

interpretation documents: deletable_store doc_ok active_view
  "\<lambda>s (now, i, ttl, cnt). snd (idempotent_upsert s now i ttl cnt)" "\<lambda>(now, i, ttl, cnt). i"
  "\<lambda>(now, i, ttl, cnt). (ttl, cnt)" "\<lambda>(now, i, ttl, cnt). i \<noteq> []"
  "\<lambda>s (now, i). snd (soft_delete s now i)" snd
  by unfold_locales (clarsimp simp: active_view_upsert active_view_soft_delete
    doc_ok_upsert doc_ok_soft_delete)+

text \<open>What \<open>FindActive\<close> sees after any history: exactly the upserts and deletes, on a map. An upsert
  with an empty id is refused.\<close>

primrec doc_spec :: "(string \<rightharpoonup> string \<times> string) \<Rightarrow> doc_call \<Rightarrow> (string \<rightharpoonup> string \<times> string)" where
  "doc_spec m (Upsert now i ttl cnt) = (if i = [] then m else m(i \<mapsto> (ttl, cnt)))"
| "doc_spec m (SoftDelete now i) = m(i := None)"

lemma active_view_exec: "doc_ok s \<Longrightarrow> active_view (doc_exec s c) = doc_spec (active_view s) c"
  by (cases c) (auto simp: active_view_upsert active_view_soft_delete upsert_empty)

text \<open>C16: the store implements a map from ids to (title, content). After any sequence of upserts and
  soft deletes on a new store, FindActive finds exactly the documents of that map with their data,
  and nothing that was deleted since its last upsert.\<close>

theorem document_store_refines_map:
  "active_view (foldl doc_exec new_document_store cs) = foldl doc_spec Map.empty cs"
proof -
  have "doc_ok s \<Longrightarrow> active_view (foldl doc_exec s cs) = foldl doc_spec (active_view s) cs" for s
    by (induction cs arbitrary: s) (simp_all add: active_view_exec doc_ok_exec)
  moreover have "active_view new_document_store = Map.empty"
    by (rule ext) (simp add: active_view_eq new_document_store_def)
  ultimately show ?thesis by (metis doc_ok_new)
qed


section \<open>Idempotence\<close>

lemma upsert_twice:
  assumes "idempotent_upsert s now i ttl cnt = (res, s1)"
  shows "idempotent_upsert s1 now' i ttl cnt = (res, s1)"
proof (cases rule: upsert_cases [of i _ s ttl cnt])
  case empty
  with assms show ?thesis by (simp add: upsert_empty)
next
  case insert
  with assms show ?thesis by (auto simp: upsert_insert deref_def is_deleted_def intro!: upsert_same)
next
  case (same r)
  with assms show ?thesis by (auto simp: upsert_same)
next
  case (update r)
  with assms show ?thesis by (auto simp: upsert_update [OF update] is_deleted_def intro!: upsert_same)
qed

lemma soft_delete_twice:
  "soft_delete s now i = (res, s1) \<Longrightarrow> soft_delete s1 now' i = (res, s1)"
  by (auto simp: soft_delete_def Let_def is_deleted_def deref_def set_doc_def split: option.splits if_splits)

lemma redelivery_no_effect: "doc_exec (doc_exec s c) (redelivered now' c) = doc_exec s c"
proof (cases c)
  case (Upsert now i ttl cnt)
  show ?thesis using upsert_twice [OF surjective_pairing] Upsert by simp
next
  case (SoftDelete now i)
  show ?thesis using soft_delete_twice [OF surjective_pairing] SoftDelete by simp
qed

text \<open>at-least-once delivery is harmless. Executing any call of any history a second time, right
  after the first and at a later time, leaves the whole store as it was: versions, time stamps and
  deletion marks included.\<close>

theorem redelivery_harmless:
  "foldl doc_exec new_document_store (before @ c # redelivered now' c # after)
   = foldl doc_exec new_document_store (before @ c # after)"
  by (simp add: redelivery_no_effect)

text \<open>Soft deletion keeps the row: whoever looks including deleted documents still finds it.\<close>

lemma soft_deleted_row_kept:
  "find_including_deleted (snd (soft_delete s now i)) j = find_including_deleted s j"
  by (simp add: find_including_deleted_def soft_delete_def Let_def split: option.split)

end
