(* ===== verification/Fan_Pipeline.thy ===== *)
theory Fan_Pipeline
  imports Worker_Groups
begin

text \<open>
  \<open>patterns/09_concurrency/fanout_fanin.go\<close>: \<open>FanOut\<close> starts workers that share an input channel and write each to
  a channel of its own, \<open>FanIn\<close> starts one forwarder per channel and merges them. The model is the composition
  \<open>FanIn(ctx, FanOut(ctx, in, n, fn)...)\<close>. The channels between worker and forwarder and the merged channel are
  unbuffered, so a hand-over is one event of both sides. The producer of the input and the consumer of the merged channel
  are the environment. As in the worker pool each ready case of a \<open>select\<close> is an event of its own, and
  \<open>fan_sent\<close>, \<open>fan_received\<close> and \<open>fan_lost\<close> only record what happened.
\<close>

datatype 'r forwarder_phase = FIdle | FHolding 'r | FExited

fun forwarder_owes :: "'r forwarder_phase \<Rightarrow> 'r multiset" where
  "forwarder_owes FIdle = {#}"
| "forwarder_owes (FHolding r) = {#r#}"
| "forwarder_owes FExited = {#}"

record ('a, 'r) fan =
  fan_input :: "'a list"
  fan_input_closed :: bool
  fan_workers :: "('a, 'r) worker_phase list"
  fan_forwarders :: "'r forwarder_phase list"
  fan_cancelled :: bool
  merged_closed :: bool
  fan_sent :: "'a list"
  fan_received :: "'r list"
  fan_lost :: "'r list"

definition new_fan :: "int \<Rightarrow> ('a, 'r) fan" where
  "new_fan workerCount =
     (let n = nat (if workerCount \<le> 0 then 4 else workerCount)
      in \<lparr>fan_input = [], fan_input_closed = False, fan_workers = replicate n WIdle, fan_forwarders = replicate n FIdle,
          fan_cancelled = False, merged_closed = False, fan_sent = [], fan_received = [], fan_lost = []\<rparr>)"

datatype 'a fan_event =
    FanSend 'a | FanCloseInput | FanCancel
  | FanTake nat | FanRun nat | FanHandOver nat | FanWorkerEnds nat | FanWorkerCancelled nat
  | FanReceive nat | FanForwarderEnds nat | FanForwarderCancelled nat | FanCloseMerged

text \<open>The worker goroutines of \<open>FanOut\<close>. A worker that returns closes its channel.\<close>

definition fan_out_step :: "('a \<Rightarrow> 'r) \<Rightarrow> ('a, 'r) fan \<Rightarrow> 'a fan_event \<Rightarrow> ('a, 'r) fan option" where
  "fan_out_step fn s e =
     (case e of
        FanTake w \<Rightarrow>
          (if w < length (fan_workers s) \<and> fan_workers s ! w = WIdle then
             (case fan_input s of
                [] \<Rightarrow> None
              | x # xs \<Rightarrow> Some (s\<lparr>fan_input := xs, fan_workers := (fan_workers s)[w := WRunning x]\<rparr>))
           else None)
      | FanRun w \<Rightarrow>
          (if w < length (fan_workers s) then
             (case fan_workers s ! w of
                WRunning x \<Rightarrow> Some (s\<lparr>fan_workers := (fan_workers s)[w := WSending (fn x)]\<rparr>)
              | _ \<Rightarrow> None)
           else None)
      | FanWorkerEnds w \<Rightarrow>
          (if w < length (fan_workers s) \<and> fan_workers s ! w = WIdle \<and> fan_input_closed s \<and> fan_input s = []
           then Some (s\<lparr>fan_workers := (fan_workers s)[w := WExited]\<rparr>)
           else None)
      | FanWorkerCancelled w \<Rightarrow>
          (if w < length (fan_workers s) \<and> fan_cancelled s then
             (case fan_workers s ! w of
                WIdle \<Rightarrow> Some (s\<lparr>fan_workers := (fan_workers s)[w := WExited]\<rparr>)
              | WSending r \<Rightarrow>
                  Some (s\<lparr>fan_workers := (fan_workers s)[w := WExited], fan_lost := fan_lost s @ [r]\<rparr>)
              | _ \<Rightarrow> None)
           else None)
      | _ \<Rightarrow> None)"

text \<open>The forwarders of \<open>FanIn\<close> and the goroutine that closes the merged channel after all of them.\<close>

definition fan_in_step :: "('a, 'r) fan \<Rightarrow> 'a fan_event \<Rightarrow> ('a, 'r) fan option" where
  "fan_in_step s e =
     (case e of
        FanHandOver w \<Rightarrow>
          (if w < length (fan_workers s) \<and> w < length (fan_forwarders s) \<and> fan_forwarders s ! w = FIdle then
             (case fan_workers s ! w of
                WSending r \<Rightarrow>
                  Some (s\<lparr>fan_workers := (fan_workers s)[w := WIdle],
                          fan_forwarders := (fan_forwarders s)[w := FHolding r]\<rparr>)
              | _ \<Rightarrow> None)
           else None)
      | FanReceive w \<Rightarrow>
          (if w < length (fan_forwarders s) then
             (case fan_forwarders s ! w of
                FHolding r \<Rightarrow>
                  Some (s\<lparr>fan_forwarders := (fan_forwarders s)[w := FIdle], fan_received := fan_received s @ [r]\<rparr>)
              | _ \<Rightarrow> None)
           else None)
      | FanForwarderEnds w \<Rightarrow>
          (if w < length (fan_workers s) \<and> w < length (fan_forwarders s) \<and> fan_forwarders s ! w = FIdle \<and>
              fan_workers s ! w = WExited
           then Some (s\<lparr>fan_forwarders := (fan_forwarders s)[w := FExited]\<rparr>)
           else None)
      | FanForwarderCancelled w \<Rightarrow>
          (if w < length (fan_forwarders s) \<and> fan_cancelled s then
             (case fan_forwarders s ! w of
                FIdle \<Rightarrow> Some (s\<lparr>fan_forwarders := (fan_forwarders s)[w := FExited]\<rparr>)
              | FHolding r \<Rightarrow>
                  Some (s\<lparr>fan_forwarders := (fan_forwarders s)[w := FExited], fan_lost := fan_lost s @ [r]\<rparr>)
              | FExited \<Rightarrow> None)
           else None)
      | FanCloseMerged \<Rightarrow>
          (if \<not> merged_closed s \<and> (\<forall>f \<in> set (fan_forwarders s). f = FExited)
           then Some (s\<lparr>merged_closed := True\<rparr>)
           else None)
      | _ \<Rightarrow> None)"

definition fan_step :: "('a \<Rightarrow> 'r) \<Rightarrow> ('a, 'r) fan \<Rightarrow> 'a fan_event \<Rightarrow> ('a, 'r) fan option" where
  "fan_step fn s e =
     (case e of
        FanSend x \<Rightarrow>
          (if fan_input_closed s then None
           else Some (s\<lparr>fan_input := fan_input s @ [x], fan_sent := fan_sent s @ [x]\<rparr>))
      | FanCloseInput \<Rightarrow> (if fan_input_closed s then None else Some (s\<lparr>fan_input_closed := True\<rparr>))
      | FanCancel \<Rightarrow> Some (s\<lparr>fan_cancelled := True\<rparr>)
      | _ \<Rightarrow> (case fan_out_step fn s e of Some t \<Rightarrow> Some t | None \<Rightarrow> fan_in_step s e))"


section \<open>Accounting\<close>

definition fan_account :: "('a \<Rightarrow> 'r) \<Rightarrow> ('a, 'r) fan \<Rightarrow> bool" where
  "fan_account fn s \<longleftrightarrow>
     image_mset fn (mset (fan_sent s)) =
       image_mset fn (mset (fan_input s)) + total_owed (owed fn) (fan_workers s)
       + total_owed forwarder_owes (fan_forwarders s) + mset (fan_received s) + mset (fan_lost s)"

definition fan_inv :: "('a \<Rightarrow> 'r) \<Rightarrow> ('a, 'r) fan \<Rightarrow> bool" where
  "fan_inv fn s \<longleftrightarrow>
     fan_account fn s \<and> length (fan_workers s) = length (fan_forwarders s) \<and> fan_workers s \<noteq> [] \<and>
     (merged_closed s \<longrightarrow> (\<forall>f \<in> set (fan_forwarders s). f = FExited)) \<and>
     (\<not> fan_cancelled s \<longrightarrow> fan_lost s = [] \<and>
        (WExited \<in> set (fan_workers s) \<longrightarrow> fan_input_closed s \<and> fan_input s = []) \<and>
        (\<forall>w < length (fan_workers s). fan_forwarders s ! w = FExited \<longrightarrow> fan_workers s ! w = WExited))"

lemma fan_inv_new: "fan_inv fn (new_fan n)"
  by (auto simp: fan_inv_def new_fan_def fan_account_def total_owed_idle Let_def)

lemma fan_account_worker:
  assumes "fan_account fn s" and "w < length (fan_workers s)"
    and "fan_workers t = (fan_workers s)[w := p]" and "fan_sent t = fan_sent s"
    and "fan_forwarders t = fan_forwarders s" and "fan_received t = fan_received s"
    and "image_mset fn (mset (fan_input t)) + owed fn p + mset (fan_lost t)
         = image_mset fn (mset (fan_input s)) + owed fn (fan_workers s ! w) + mset (fan_lost s)"
  shows "fan_account fn t"
proof -
  let ?r = "owed fn (fan_workers s ! w)"
  have "total_owed (owed fn) (fan_workers t) + ?r = total_owed (owed fn) (fan_workers s) + owed fn p"
    using total_owed_update [OF assms(2), of "owed fn" p] assms(3) by simp
  then have "image_mset fn (mset (fan_input t)) + total_owed (owed fn) (fan_workers t) + mset (fan_lost t) + ?r
     = (image_mset fn (mset (fan_input t)) + owed fn p + mset (fan_lost t)) + total_owed (owed fn) (fan_workers s)"
    by (simp add: ac_simps)
  also have "\<dots> = image_mset fn (mset (fan_input s)) + total_owed (owed fn) (fan_workers s) + mset (fan_lost s) + ?r"
    using assms(7) by (simp add: ac_simps)
  finally show ?thesis
    using assms(1,4,5,6) by (simp add: fan_account_def ac_simps)
qed

lemma fan_account_forwarder:
  assumes "fan_account fn s" and "w < length (fan_forwarders s)"
    and "fan_forwarders t = (fan_forwarders s)[w := f]" and "fan_sent t = fan_sent s"
    and "fan_workers t = fan_workers s" and "fan_input t = fan_input s"
    and "mset (fan_received t) + forwarder_owes f + mset (fan_lost t)
         = mset (fan_received s) + forwarder_owes (fan_forwarders s ! w) + mset (fan_lost s)"
  shows "fan_account fn t"
proof -
  let ?r = "forwarder_owes (fan_forwarders s ! w)"
  have "total_owed forwarder_owes (fan_forwarders t) + ?r = total_owed forwarder_owes (fan_forwarders s) + forwarder_owes f"
    using total_owed_update [OF assms(2), of forwarder_owes f] assms(3) by simp
  then have "total_owed forwarder_owes (fan_forwarders t) + mset (fan_received t) + mset (fan_lost t) + ?r
     = (mset (fan_received t) + forwarder_owes f + mset (fan_lost t)) + total_owed forwarder_owes (fan_forwarders s)"
    by (simp add: ac_simps)
  also have "\<dots> = total_owed forwarder_owes (fan_forwarders s) + mset (fan_received s) + mset (fan_lost s) + ?r"
    using assms(7) by (simp add: ac_simps)
  finally show ?thesis
    using assms(1,4,5,6) by (simp add: fan_account_def ac_simps)
qed

text \<open>A hand-over is a step of the worker followed by a step of the forwarder.\<close>

lemma fan_account_hand_over:
  assumes "fan_account fn s" and "w < length (fan_workers s)" and "w < length (fan_forwarders s)"
    and "fan_workers s ! w = WSending r" and "fan_forwarders s ! w = FIdle"
  shows "fan_account fn (s\<lparr>fan_workers := (fan_workers s)[w := WIdle], fan_forwarders := (fan_forwarders s)[w := FHolding r]\<rparr>)"
  using total_owed_update [OF assms(2), of "owed fn" WIdle]
    total_owed_update [OF assms(3), of forwarder_owes "FHolding r"] assms(1,4,5)
  by (simp add: fan_account_def ac_simps)

lemma exited_update: "WExited \<in> set (ws[w := p]) \<Longrightarrow> p \<noteq> WExited \<Longrightarrow> WExited \<in> set ws"
  using set_update_subset_insert [of ws w p] by auto

lemma fan_out_step_inv:
  assumes I: "fan_inv fn s" and st: "fan_out_step fn s e = Some t"
  shows "fan_inv fn t"
proof -
  have acc: "fan_account fn s" using I by (simp add: fan_inv_def)
  show ?thesis
  proof (cases e)
    case (FanTake w)
    with st obtain x xs where h: "w < length (fan_workers s)" "fan_workers s ! w = WIdle" "fan_input s = x # xs"
      "t = s\<lparr>fan_input := xs, fan_workers := (fan_workers s)[w := WRunning x]\<rparr>"
      by (auto simp: fan_out_step_def split: if_splits list.splits)
    have "fan_account fn t"
      by (rule fan_account_worker [OF acc h(1), where p = "WRunning x"]) (simp_all add: h)
    with I h show ?thesis
      by (auto simp: fan_inv_def nth_list_update dest!: exited_update)
  next
    case (FanRun w)
    with st obtain x where h: "w < length (fan_workers s)" "fan_workers s ! w = WRunning x"
      "t = s\<lparr>fan_workers := (fan_workers s)[w := WSending (fn x)]\<rparr>"
      by (auto simp: fan_out_step_def split: if_splits worker_phase.splits)
    have "fan_account fn t"
      by (rule fan_account_worker [OF acc h(1), where p = "WSending (fn x)"]) (simp_all add: h)
    with I h show ?thesis
      by (auto simp: fan_inv_def nth_list_update dest!: exited_update)
  next
    case (FanWorkerEnds w)
    with st have h: "w < length (fan_workers s)" "fan_workers s ! w = WIdle" "fan_input_closed s" "fan_input s = []"
      "t = s\<lparr>fan_workers := (fan_workers s)[w := WExited]\<rparr>"
      by (auto simp: fan_out_step_def split: if_splits)
    have "fan_account fn t"
      by (rule fan_account_worker [OF acc h(1), where p = WExited]) (simp_all add: h)
    with I h show ?thesis
      by (auto simp: fan_inv_def nth_list_update)
  next
    case (FanWorkerCancelled w)
    with st have w: "w < length (fan_workers s)" "fan_cancelled s"
      by (auto simp: fan_out_step_def split: if_splits)
    from st FanWorkerCancelled w consider "fan_workers s ! w = WIdle" "t = s\<lparr>fan_workers := (fan_workers s)[w := WExited]\<rparr>"
      | r where "fan_workers s ! w = WSending r"
          "t = s\<lparr>fan_workers := (fan_workers s)[w := WExited], fan_lost := fan_lost s @ [r]\<rparr>"
      by (auto simp: fan_out_step_def split: worker_phase.splits)
    then have "fan_account fn t"
      by cases (rule fan_account_worker [OF acc w(1), where p = WExited]; simp)+
    with I w st FanWorkerCancelled show ?thesis
      by (auto simp: fan_inv_def fan_out_step_def split: if_splits worker_phase.splits)
  qed (use st in \<open>simp_all add: fan_out_step_def\<close>)
qed

lemma fan_in_step_inv:
  assumes I: "fan_inv fn s" and st: "fan_in_step s e = Some t"
  shows "fan_inv fn t"
proof -
  have acc: "fan_account fn s" using I by (simp add: fan_inv_def)
  have open_: "\<not> merged_closed s" if "w < length (fan_forwarders s)" "fan_forwarders s ! w \<noteq> FExited" for w
    using I that by (metis fan_inv_def nth_mem)
  show ?thesis
  proof (cases e)
    case (FanHandOver w)
    with st obtain r where h: "w < length (fan_workers s)" "w < length (fan_forwarders s)" "fan_workers s ! w = WSending r"
      "fan_forwarders s ! w = FIdle"
      "t = s\<lparr>fan_workers := (fan_workers s)[w := WIdle], fan_forwarders := (fan_forwarders s)[w := FHolding r]\<rparr>"
      by (auto simp: fan_in_step_def split: if_splits worker_phase.splits)
    have "fan_account fn t" using fan_account_hand_over [OF acc h(1-4)] h(5) by simp
    with I h open_ [OF h(2)] show ?thesis
      by (auto simp: fan_inv_def nth_list_update dest!: exited_update)
  next
    case (FanReceive w)
    with st obtain r where h: "w < length (fan_forwarders s)" "fan_forwarders s ! w = FHolding r"
      "t = s\<lparr>fan_forwarders := (fan_forwarders s)[w := FIdle], fan_received := fan_received s @ [r]\<rparr>"
      by (auto simp: fan_in_step_def split: if_splits forwarder_phase.splits)
    have "fan_account fn t"
      by (rule fan_account_forwarder [OF acc h(1), where f = FIdle]) (simp_all add: h)
    with I h open_ [OF h(1)] show ?thesis
      by (auto simp: fan_inv_def nth_list_update)
  next
    case (FanForwarderEnds w)
    with st have h: "w < length (fan_workers s)" "w < length (fan_forwarders s)" "fan_forwarders s ! w = FIdle"
      "fan_workers s ! w = WExited" "t = s\<lparr>fan_forwarders := (fan_forwarders s)[w := FExited]\<rparr>"
      by (auto simp: fan_in_step_def split: if_splits)
    have "fan_account fn t"
      by (rule fan_account_forwarder [OF acc h(2), where f = FExited]) (simp_all add: h)
    with I h open_ [OF h(2)] show ?thesis
      by (auto simp: fan_inv_def nth_list_update)
  next
    case (FanForwarderCancelled w)
    with st have w: "w < length (fan_forwarders s)" "fan_cancelled s" "fan_forwarders s ! w \<noteq> FExited"
      by (auto simp: fan_in_step_def split: if_splits)
    from st FanForwarderCancelled w consider "fan_forwarders s ! w = FIdle" "t = s\<lparr>fan_forwarders := (fan_forwarders s)[w := FExited]\<rparr>"
      | r where "fan_forwarders s ! w = FHolding r"
          "t = s\<lparr>fan_forwarders := (fan_forwarders s)[w := FExited], fan_lost := fan_lost s @ [r]\<rparr>"
      by (auto simp: fan_in_step_def split: forwarder_phase.splits)
    then have "fan_account fn t"
      by cases (rule fan_account_forwarder [OF acc w(1), where f = FExited]; simp)+
    with I w st FanForwarderCancelled open_ [OF w(1,3)] show ?thesis
      by (auto simp: fan_inv_def fan_in_step_def split: if_splits forwarder_phase.splits)
  next
    case FanCloseMerged
    with I st show ?thesis
      by (auto simp: fan_inv_def fan_in_step_def fan_account_def split: if_splits)
  qed (use st in \<open>simp_all add: fan_in_step_def\<close>)
qed

lemma fan_step_inv:
  assumes I: "fan_inv fn s" and st: "fan_step fn s e = Some t"
  shows "fan_inv fn t"
proof (cases "fan_out_step fn s e = Some t \<or> fan_in_step s e = Some t")
  case True
  then show ?thesis using fan_out_step_inv [OF I] fan_in_step_inv [OF I] by blast
next
  case False
  with st I show ?thesis
    by (cases e) (auto simp: fan_step_def fan_inv_def fan_account_def split: if_splits option.splits)
qed

lemma fan_run_inv: "run_events (fan_step fn) (new_fan n) es = Some t \<Longrightarrow> fan_inv fn t"
  by (erule run_events_inv [where I = "fan_inv fn"]) (auto intro: fan_inv_new fan_step_inv)

lemma fan_account_finished:
  assumes "fan_inv fn s" and "merged_closed s" and "\<not> fan_cancelled s"
  shows "image_mset fn (mset (fan_sent s)) = mset (fan_received s)"
proof -
  have f: "\<forall>f \<in> set (fan_forwarders s). f = FExited" and ne: "fan_workers s \<noteq> []"
    using assms by (simp_all add: fan_inv_def)
  have w: "fan_workers s ! i = WExited" if "i < length (fan_workers s)" for i
    using assms f that by (auto simp: fan_inv_def)
  then have all: "\<forall>p \<in> set (fan_workers s). p = WExited" by (auto simp: in_set_conv_nth)
  have "WExited \<in> set (fan_workers s)" using w [of 0] ne by (metis length_greater_0_conv nth_mem)
  with assms have "fan_input s = []" "fan_lost s = []" by (auto simp: fan_inv_def)
  moreover have "total_owed (owed fn) (fan_workers s) = {#}" using all by (intro total_owed_zero) auto
  moreover have "total_owed forwarder_owes (fan_forwarders s) = {#}" using f by (intro total_owed_zero) auto
  ultimately show ?thesis using assms(1) by (simp add: fan_inv_def fan_account_def)
qed

text \<open>Cancelled or not, nothing comes out that did not go in, and nothing twice.\<close>

lemma fan_no_duplicates:
  assumes "run_events (fan_step fn) (new_fan n) es = Some t"
  shows "mset (fan_received t) \<subseteq># image_mset fn (mset (fan_sent t))"
  using fan_run_inv [OF assms] by (simp add: fan_inv_def fan_account_def)


section \<open>Termination of the goroutines\<close>

definition fan_internal :: "'a fan_event \<Rightarrow> bool" where
  "fan_internal e \<longleftrightarrow> (case e of FanSend x \<Rightarrow> False | FanCloseInput \<Rightarrow> False | FanCancel \<Rightarrow> False
     | FanReceive w \<Rightarrow> False | _ \<Rightarrow> True)"

fun fan_reads :: "'a fan_event \<Rightarrow> bool" where
  "fan_reads (FanReceive w) = True"
| "fan_reads _ = False"

fun forwarder_work :: "'r forwarder_phase \<Rightarrow> nat" where
  "forwarder_work FIdle = 1"
| "forwarder_work (FHolding r) = 2"
| "forwarder_work FExited = 0"

definition fan_work :: "('a, 'r) fan \<Rightarrow> nat" where
  "fan_work s = 4 * length (fan_input s) + sum_list (map phase_work (fan_workers s))
     + sum_list (map forwarder_work (fan_forwarders s)) + (if merged_closed s then 0 else 1)"

definition same_env :: "('a, 'r) fan \<Rightarrow> ('a, 'r) fan \<Rightarrow> bool" where
  "same_env s t \<longleftrightarrow> fan_sent t = fan_sent s \<and> fan_input_closed t = fan_input_closed s \<and> fan_cancelled t = fan_cancelled s"

lemma forwarder_work_update:
  "w < length fs \<Longrightarrow>
   sum_list (map forwarder_work (fs[w := f])) + forwarder_work (fs ! w) = sum_list (map forwarder_work fs) + forwarder_work f"
  by (rule sum_list_update_nat)

lemma fan_out_step_work:
  assumes "fan_out_step fn s e = Some t"
  shows "fan_work t < fan_work s \<and> same_env s t"
proof (cases e)
  case (FanTake w)
  with assms obtain x xs where h: "w < length (fan_workers s)" "fan_workers s ! w = WIdle" "fan_input s = x # xs"
    "t = s\<lparr>fan_input := xs, fan_workers := (fan_workers s)[w := WRunning x]\<rparr>"
    by (auto simp: fan_out_step_def split: if_splits list.splits)
  then show ?thesis using phase_work_update [OF h(1), of "WRunning x"] by (simp add: fan_work_def same_env_def)
next
  case (FanRun w)
  with assms obtain x where h: "w < length (fan_workers s)" "fan_workers s ! w = WRunning x"
    "t = s\<lparr>fan_workers := (fan_workers s)[w := WSending (fn x)]\<rparr>"
    by (auto simp: fan_out_step_def split: if_splits worker_phase.splits)
  then show ?thesis using phase_work_update [OF h(1), of "WSending (fn x)"] by (simp add: fan_work_def same_env_def)
next
  case (FanWorkerEnds w)
  with assms show ?thesis using phase_work_update [of w "fan_workers s" WExited]
    by (auto simp: fan_out_step_def fan_work_def same_env_def split: if_splits)
next
  case (FanWorkerCancelled w)
  with assms show ?thesis using phase_work_update [of w "fan_workers s" WExited]
    by (auto simp: fan_out_step_def fan_work_def same_env_def split: if_splits worker_phase.splits)
qed (use assms in \<open>simp_all add: fan_out_step_def\<close>)

lemma fan_in_step_work:
  assumes "fan_in_step s e = Some t"
  shows "fan_work t < fan_work s \<and> same_env s t"
proof (cases e)
  case (FanHandOver w)
  with assms obtain r where h: "w < length (fan_workers s)" "w < length (fan_forwarders s)" "fan_workers s ! w = WSending r"
    "fan_forwarders s ! w = FIdle"
    "t = s\<lparr>fan_workers := (fan_workers s)[w := WIdle], fan_forwarders := (fan_forwarders s)[w := FHolding r]\<rparr>"
    by (auto simp: fan_in_step_def split: if_splits worker_phase.splits)
  then show ?thesis
    using phase_work_update [OF h(1), of WIdle] forwarder_work_update [OF h(2), of "FHolding r"]
    by (simp add: fan_work_def same_env_def)
next
  case (FanReceive w)
  with assms obtain r where h: "w < length (fan_forwarders s)" "fan_forwarders s ! w = FHolding r"
    "t = s\<lparr>fan_forwarders := (fan_forwarders s)[w := FIdle], fan_received := fan_received s @ [r]\<rparr>"
    by (auto simp: fan_in_step_def split: if_splits forwarder_phase.splits)
  then show ?thesis using forwarder_work_update [OF h(1), of FIdle] by (simp add: fan_work_def same_env_def)
next
  case (FanForwarderEnds w)
  with assms show ?thesis using forwarder_work_update [of w "fan_forwarders s" FExited]
    by (auto simp: fan_in_step_def fan_work_def same_env_def split: if_splits)
next
  case (FanForwarderCancelled w)
  with assms show ?thesis using forwarder_work_update [of w "fan_forwarders s" FExited]
    by (auto simp: fan_in_step_def fan_work_def same_env_def split: if_splits forwarder_phase.splits)
next
  case FanCloseMerged
  with assms show ?thesis
    by (auto simp: fan_in_step_def fan_work_def same_env_def split: if_splits)
qed (use assms in \<open>simp_all add: fan_in_step_def\<close>)

lemma fan_step_internal:
  "fan_internal e \<or> fan_reads e \<Longrightarrow>
   fan_step fn s e = (case fan_out_step fn s e of Some t \<Rightarrow> Some t | None \<Rightarrow> fan_in_step s e)"
  by (cases e) (simp_all add: fan_step_def fan_internal_def split: option.split)

lemma fan_run_work:
  assumes "run_events (fan_step fn) s es = Some t" and "\<forall>e \<in> set es. fan_internal e \<or> fan_reads e"
  shows "length es + fan_work t \<le> fan_work s \<and> same_env s t"
  using assms
proof (induction es arbitrary: s)
  case Nil
  then show ?case by (simp add: same_env_def)
next
  case (Cons e es)
  then obtain s1 where s1: "fan_step fn s e = Some s1" "run_events (fan_step fn) s1 es = Some t"
    by (auto split: option.splits)
  moreover have "fan_internal e \<or> fan_reads e" using Cons.prems(2) by simp
  ultimately have "fan_work s1 < fan_work s \<and> same_env s s1"
    using fan_out_step_work [of fn s e s1] fan_in_step_work [of s e s1]
    by (auto simp: fan_step_internal split: option.splits)
  with Cons.IH [OF s1(2)] Cons.prems(2) show ?case by (auto simp: same_env_def)
qed

text \<open>With a closed input and a reader, or after cancellation even without a reader, the goroutines go on until all
  of them have returned and the merged channel is closed.\<close>

lemma fan_not_stuck:
  assumes I: "fan_inv fn s" and go: "fan_cancelled s \<or> fan_input_closed s \<and> reader"
    and stuck: "\<And>e. fan_internal e \<or> reader \<and> fan_reads e \<Longrightarrow> fan_out_step fn s e = None \<and> fan_in_step s e = None"
  shows "merged_closed s \<and> (\<forall>p \<in> set (fan_workers s). p = WExited) \<and> (\<forall>f \<in> set (fan_forwarders s). f = FExited)"
proof -
  let ?W = "fan_workers s" and ?F = "fan_forwarders s"
  have len: "length ?W = length ?F" using I by (simp add: fan_inv_def)
  have W: "?W ! w = WExited" if w: "w < length ?W" for w
  proof (cases "?W ! w")
    case WIdle
    with stuck [of "FanTake w"] stuck [of "FanWorkerEnds w"] stuck [of "FanWorkerCancelled w"] w go show ?thesis
      by (auto simp: fan_out_step_def fan_internal_def split: list.splits)
  next
    case (WRunning x)
    with stuck [of "FanRun w"] w show ?thesis by (auto simp: fan_out_step_def fan_internal_def)
  next
    case (WSending r)
    then have nc: "\<not> fan_cancelled s" and rd: reader
      using stuck [of "FanWorkerCancelled w"] w go by (auto simp: fan_out_step_def fan_internal_def)
    have "?F ! w \<noteq> FIdle"
      using stuck [of "FanHandOver w"] WSending w len by (auto simp: fan_in_step_def fan_internal_def)
    moreover have "?F ! w \<noteq> FHolding q" for q
      using stuck [of "FanReceive w"] rd w len by (auto simp: fan_in_step_def)
    ultimately have "?F ! w = FExited" by (cases "?F ! w") auto
    with I nc w show ?thesis by (auto simp: fan_inv_def)
  next
    case WExited
    then show ?thesis .
  qed
  have "?F ! w = FExited" if w: "w < length ?F" for w
  proof (cases "?F ! w")
    case FIdle
    with stuck [of "FanForwarderEnds w"] W [of w] w len show ?thesis
      by (auto simp: fan_in_step_def fan_internal_def)
  next
    case (FHolding r)
    with stuck [of "FanReceive w"] stuck [of "FanForwarderCancelled w"] w go show ?thesis
      by (auto simp: fan_in_step_def fan_internal_def)
  next
    case FExited
    then show ?thesis .
  qed
  then have F: "\<forall>f \<in> set ?F. f = FExited" by (auto simp: in_set_conv_nth)
  with stuck [of FanCloseMerged] have "merged_closed s"
    by (auto simp: fan_in_step_def fan_internal_def split: if_splits)
  moreover have "\<forall>p \<in> set ?W. p = WExited" using W by (auto simp: in_set_conv_nth)
  ultimately show ?thesis using F by blast
qed

text \<open>C26: The fan-out and fan-in pipeline delivers everything and leaks nothing. From any reachable state the goroutines
  and the reader can make only a bounded number of steps. If the input is closed and the reader goes on, or if the
  context is cancelled, with or without a reader, then where nothing can go further every worker and every forwarder has
  returned and the merged channel is closed. If the context was never cancelled the reader has received exactly
  the results of all items, each once; otherwise some of them, none twice.\<close>

theorem fan_pipeline_completes:
  assumes "run_events (fan_step fn) (new_fan n) es = Some s"
    and "run_events (fan_step fn) s fs = Some t" and "\<forall>e \<in> set fs. fan_internal e \<or> fan_reads e"
    and "fan_cancelled s \<or> fan_input_closed s \<and> reader"
    and "\<forall>e. fan_internal e \<or> reader \<and> fan_reads e \<longrightarrow> fan_step fn t e = None"
  shows "length fs \<le> fan_work s \<and> merged_closed t
    \<and> (\<forall>p \<in> set (fan_workers t). p = WExited) \<and> (\<forall>f \<in> set (fan_forwarders t). f = FExited)
    \<and> (\<not> fan_cancelled s \<longrightarrow> mset (fan_received t) = image_mset fn (mset (fan_sent s)))
    \<and> mset (fan_received t) \<subseteq># image_mset fn (mset (fan_sent s))"
proof -
  have "fan_inv fn s" using assms(1) by (rule fan_run_inv)
  then have I: "fan_inv fn t"
    using run_events_inv [OF assms(2), of "fan_inv fn"] fan_step_inv by blast
  have w: "length fs + fan_work t \<le> fan_work s" and env: "same_env s t"
    using fan_run_work [OF assms(2,3)] by auto
  have "fan_out_step fn t e = None \<and> fan_in_step t e = None" if "fan_internal e \<or> reader \<and> fan_reads e" for e
  proof -
    have "fan_step fn t e = None" using assms(5) that by blast
    then show ?thesis using fan_step_internal [of e fn t] that by (auto split: option.splits)
  qed
  then have m: "merged_closed t \<and> (\<forall>p \<in> set (fan_workers t). p = WExited) \<and> (\<forall>f \<in> set (fan_forwarders t). f = FExited)"
    by (rule fan_not_stuck [OF I, of reader, rotated]) (use assms(4) env in \<open>auto simp: same_env_def\<close>)
  have "mset (fan_received t) = image_mset fn (mset (fan_sent s))" if "\<not> fan_cancelled s"
    using fan_account_finished [OF I] m that env by (simp add: same_env_def)
  moreover have "mset (fan_received t) \<subseteq># image_mset fn (mset (fan_sent s))"
    using I env by (simp add: fan_inv_def fan_account_def same_env_def)
  ultimately show ?thesis using w m by auto
qed

theorem fan_pipeline_completes_witness:
  "\<exists>s t. run_events (fan_step Suc) (new_fan 1) [FanSend (5::nat), FanCloseInput] = Some s
     \<and> run_events (fan_step Suc) s
          [FanTake 0, FanRun 0, FanHandOver 0, FanReceive 0, FanWorkerEnds 0, FanForwarderEnds 0, FanCloseMerged] = Some t
     \<and> merged_closed t \<and> fan_workers t = [WExited] \<and> fan_forwarders t = [FExited]
     \<and> mset (fan_received t) = {#6#}"
proof -
  let ?es = "[FanSend 5, FanCloseInput] :: nat fan_event list"
  let ?fs = "[FanTake 0, FanRun 0, FanHandOver 0, FanReceive 0, FanWorkerEnds 0, FanForwarderEnds 0, FanCloseMerged]
     :: nat fan_event list"
  let ?s = "(new_fan 1)\<lparr>fan_input := [5], fan_sent := [5], fan_input_closed := True\<rparr> :: (nat, nat) fan"
  let ?t = "?s\<lparr>fan_input := [], fan_workers := [WExited], fan_forwarders := [FExited], fan_received := [6],
     merged_closed := True\<rparr>"
  have es: "run_events (fan_step Suc) (new_fan 1) ?es = Some ?s"
    by (simp add: fan_step_def new_fan_def Let_def)
  have fs: "run_events (fan_step Suc) ?s ?fs = Some ?t"
    by (simp add: fan_step_def fan_out_step_def fan_in_step_def new_fan_def Let_def)
  have ev: "\<forall>e \<in> set ?fs. fan_internal e \<or> fan_reads e" by (simp add: fan_internal_def)
  have go: "fan_cancelled ?s \<or> fan_input_closed ?s \<and> True" by simp
  have "\<forall>e. fan_internal e \<or> True \<and> fan_reads e \<longrightarrow> fan_step Suc ?t e = None"
  proof (intro allI impI)
    fix e :: "nat fan_event"
    assume "fan_internal e \<or> True \<and> fan_reads e"
    then show "fan_step Suc ?t e = None"
      by (cases e) (auto simp: fan_internal_def fan_step_def fan_out_step_def fan_in_step_def new_fan_def Let_def nth_Cons')
  qed
  from fan_pipeline_completes [OF es fs ev go this] have "mset (fan_received ?t) = {#6#}"
    by (simp add: new_fan_def Let_def)
  with es fs show ?thesis
    by (intro exI [of _ ?s] exI [of _ ?t]) (simp add: new_fan_def Let_def)
qed

end
