(* ===== verification/Singleflight.thy ===== *)
theory Singleflight
  imports Cache_Contract
begin

text \<open>
  \<open>patterns/09_concurrency/singleflight.go\<close>; the caches built on it are the subject of the theory Flight_Caches.
  \<open>Do\<close> is a sequence of steps of a goroutine: join or lead under the mutex; for the leader, the end of
  the function (a result, or a panic, after which the goroutine runs no more of \<open>Do\<close>) and the removal of
  the key; for the others, the wait for the call's result. A call is an object of the heap; its
  \<open>WaitGroup\<close> is released exactly when it has a result.
\<close>

record 'v sf_call =
  call_result :: "'v option"
  call_shared :: bool

datatype 'v sf_pc =
    SOut
  | SLeading string nat
  | SFinished string nat
  | SWaiting string nat
  | SPanicked
  | SGot string nat 'v bool

record 'v singleflight =
  sf_map :: "string \<rightharpoonup> nat"
  sf_calls :: "nat \<Rightarrow> 'v sf_call"
  sf_next :: nat
  sf_pc :: "nat \<Rightarrow> 'v sf_pc"

definition new_singleflight_group :: "'v singleflight" where
  "new_singleflight_group =
     \<lparr>sf_map = Map.empty, sf_calls = (\<lambda>r. \<lparr>call_result = None, call_shared = False\<rparr>), sf_next = 0,
      sf_pc = (\<lambda>t. SOut)\<rparr>"

datatype 'v sf_event =
    DoEnter nat string
  | FnReturns nat 'v
  | FnPanics nat
  | DeleteKey nat
  | WaitReturns nat

definition idle_pc :: "'v sf_pc \<Rightarrow> bool" where
  "idle_pc c \<longleftrightarrow> (case c of SOut \<Rightarrow> True | SGot k r v b \<Rightarrow> True | _ \<Rightarrow> False)"

definition sf_goto :: "'v singleflight \<Rightarrow> nat \<Rightarrow> 'v sf_pc \<Rightarrow> 'v singleflight" where
  "sf_goto g t c = g\<lparr>sf_pc := (sf_pc g)(t := c)\<rparr>"

definition set_call :: "'v singleflight \<Rightarrow> nat \<Rightarrow> 'v sf_call \<Rightarrow> 'v singleflight" where
  "set_call g r c = g\<lparr>sf_calls := (sf_calls g)(r := c)\<rparr>"

fun sf_step :: "'v singleflight \<Rightarrow> 'v sf_event \<Rightarrow> 'v singleflight option" where
  "sf_step g (DoEnter t key) =
     (if \<not> idle_pc (sf_pc g t) then None
      else case sf_map g key of
             Some r \<Rightarrow>
               Some (sf_goto (set_call g r ((sf_calls g r)\<lparr>call_shared := True\<rparr>)) t (SWaiting key r))
           | None \<Rightarrow>
               (let r = sf_next g;
                    g1 = set_call g r \<lparr>call_result = None, call_shared = False\<rparr>
                in Some (sf_goto (g1\<lparr>sf_map := (sf_map g1)(key \<mapsto> r), sf_next := r + 1\<rparr>) t (SLeading key r))))"
| "sf_step g (FnReturns t v) =
     (case sf_pc g t of
        SLeading key r \<Rightarrow>
          Some (sf_goto (set_call g r ((sf_calls g r)\<lparr>call_result := Some v\<rparr>)) t (SFinished key r))
      | _ \<Rightarrow> None)"
| "sf_step g (FnPanics t) =
     (case sf_pc g t of SLeading key r \<Rightarrow> Some (sf_goto g t SPanicked) | _ \<Rightarrow> None)"
| "sf_step g (DeleteKey t) =
     (case sf_pc g t of
        SFinished key r \<Rightarrow>
          (case call_result (sf_calls g r) of
             None \<Rightarrow> None
           | Some v \<Rightarrow> Some (sf_goto (g\<lparr>sf_map := (sf_map g)(key := None)\<rparr>) t
                        (SGot key r v (call_shared (sf_calls g r)))))
      | _ \<Rightarrow> None)"
| "sf_step g (WaitReturns t) =
     (case sf_pc g t of
        SWaiting key r \<Rightarrow>
          (case call_result (sf_calls g r) of
             None \<Rightarrow> None
           | Some v \<Rightarrow> Some (sf_goto g t (SGot key r v True)))
      | _ \<Rightarrow> None)"

lemma sf_simps [simp]: "sf_map (sf_goto g t c) = sf_map g" "sf_calls (sf_goto g t c) = sf_calls g"
  "sf_next (sf_goto g t c) = sf_next g" "sf_pc (sf_goto g t c) = (sf_pc g)(t := c)"
  "sf_map (set_call g r x) = sf_map g" "sf_calls (set_call g r x) = (sf_calls g)(r := x)"
  "sf_next (set_call g r x) = sf_next g" "sf_pc (set_call g r x) = sf_pc g"
  by (simp_all add: sf_goto_def set_call_def)


section \<open>Invariant\<close>

text \<open>The leader of a call owns the key's entry of the map, a call has one leader, and whoever has the
  result of a call has the same one, for the same key.\<close>

definition leads :: "'v singleflight \<Rightarrow> nat \<Rightarrow> string \<Rightarrow> nat \<Rightarrow> bool" where
  "leads g t k r \<longleftrightarrow> sf_pc g t = SLeading k r \<or> sf_pc g t = SFinished k r"

definition refers :: "'v singleflight \<Rightarrow> nat \<Rightarrow> string \<Rightarrow> nat \<Rightarrow> bool" where
  "refers g t k r \<longleftrightarrow> leads g t k r \<or> sf_pc g t = SWaiting k r \<or> (\<exists>v b. sf_pc g t = SGot k r v b)"

definition sf_inv :: "(nat \<Rightarrow> string) \<Rightarrow> 'v singleflight \<Rightarrow> bool" where
  "sf_inv key_of g \<longleftrightarrow>
     (\<forall>t k r. leads g t k r \<longrightarrow> sf_map g k = Some r)
   \<and> (\<forall>k r. sf_map g k = Some r \<longrightarrow> r < sf_next g \<and> key_of r = k)
   \<and> (\<forall>t k r. refers g t k r \<longrightarrow> r < sf_next g \<and> key_of r = k)
   \<and> (\<forall>t u k j r. leads g t k r \<longrightarrow> leads g u j r \<longrightarrow> t = u)
   \<and> (\<forall>t k r v b. sf_pc g t = SGot k r v b \<longrightarrow> call_result (sf_calls g r) = Some v)
   \<and> (\<forall>t k r. sf_pc g t = SLeading k r \<longrightarrow> call_result (sf_calls g r) = None)"

lemma sf_inv_new: "sf_inv ko new_singleflight_group"
  by (simp add: sf_inv_def new_singleflight_group_def leads_def refers_def)

lemma leads_goto: "leads (sf_goto g t c) u k r \<longleftrightarrow> (if u = t then c = SLeading k r \<or> c = SFinished k r else leads g u k r)"
  by (simp add: leads_def)

lemma refers_goto: "refers (sf_goto g t c) u k r \<longleftrightarrow>
    (if u = t then c = SLeading k r \<or> c = SFinished k r \<or> c = SWaiting k r \<or> (\<exists>v b. c = SGot k r v b)
     else refers g u k r)"
  by (auto simp: leads_def refers_def)

lemma leads_frame [simp]: "leads (set_call g q x) u k r = leads g u k r" "refers (set_call g q x) u k r = refers g u k r"
  "leads (g\<lparr>sf_map := m\<rparr>) u k r = leads g u k r" "refers (g\<lparr>sf_map := m\<rparr>) u k r = refers g u k r"
  "leads (g\<lparr>sf_map := m, sf_next := n\<rparr>) u k r = leads g u k r" "refers (g\<lparr>sf_map := m, sf_next := n\<rparr>) u k r = refers g u k r"
  by (simp_all add: leads_def refers_def)

lemma sf_invD:
  assumes "sf_inv ko g"
  shows "leads g t k r \<Longrightarrow> sf_map g k = Some r"
    "sf_map g k = Some r \<Longrightarrow> r < sf_next g \<and> ko r = k"
    "refers g t k r \<Longrightarrow> r < sf_next g \<and> ko r = k"
    "leads g t k r \<Longrightarrow> leads g u j r \<Longrightarrow> t = u"
    "sf_pc g t = SGot k r v b \<Longrightarrow> call_result (sf_calls g r) = Some v"
    "sf_pc g t = SLeading k r \<Longrightarrow> call_result (sf_calls g r) = None"
  using assms unfolding sf_inv_def by metis+

lemma refersI: "leads g t k r \<Longrightarrow> refers g t k r" "sf_pc g t = SWaiting k r \<Longrightarrow> refers g t k r"
  "sf_pc g t = SGot k r v b \<Longrightarrow> refers g t k r"
  by (auto simp: refers_def)

lemma leadsI: "sf_pc g t = SLeading k r \<Longrightarrow> leads g t k r" "sf_pc g t = SFinished k r \<Longrightarrow> leads g t k r"
  by (simp_all add: leads_def)

text \<open>What the steps of one goroutine do to it.\<close>

lemma sf_inv_join:
  assumes "sf_inv ko g" and "sf_map g key = Some r" and "idle_pc (sf_pc g t)"
  shows "sf_inv ko (sf_goto (set_call g r ((sf_calls g r)\<lparr>call_shared := True\<rparr>)) t (SWaiting key r))"
proof -
  have "\<not> leads g t k q" for k q using assms(3) by (auto simp: leads_def idle_pc_def)
  then show ?thesis
    using assms(2) sf_invD [OF assms(1)]
    unfolding sf_inv_def leads_goto refers_goto leads_frame
    by (simp split: if_split) blast
qed

lemma sf_inv_lead:
  assumes "sf_inv ko g" and "sf_map g key = None" and "idle_pc (sf_pc g t)"
  shows "sf_inv (ko(sf_next g := key))
    (sf_goto ((set_call g (sf_next g) \<lparr>call_result = None, call_shared = False\<rparr>)
       \<lparr>sf_map := (sf_map g)(key \<mapsto> sf_next g), sf_next := sf_next g + 1\<rparr>) t (SLeading key (sf_next g)))"
  (is "sf_inv ?ko ?g")
proof -
  note I = sf_invD [OF assms(1)]
  have old: "refers g u k r \<Longrightarrow> r \<noteq> sf_next g" "sf_map g k = Some r \<Longrightarrow> r \<noteq> sf_next g" for u k r
    using I(2,3) by fastforce+
  have pc: "sf_pc ?g u = (if u = t then SLeading key (sf_next g) else sf_pc g u)" for u by simp
  have lead: "leads ?g u k r \<longleftrightarrow> (if u = t then k = key \<and> r = sf_next g else leads g u k r)" for u k r
    by (auto simp: leads_def)
  have ref: "refers ?g u k r \<longleftrightarrow> (if u = t then k = key \<and> r = sf_next g else refers g u k r)" for u k r
    by (auto simp: refers_def leads_def)
  have m: "sf_map ?g = (sf_map g)(key \<mapsto> sf_next g)" "sf_next ?g = Suc (sf_next g)"
    "sf_calls ?g = (sf_calls g)(sf_next g := \<lparr>call_result = None, call_shared = False\<rparr>)" by simp_all
  show ?thesis
    unfolding sf_inv_def lead ref m pc
  proof (intro conjI allI impI)
    fix u k r
    assume l: "if u = t then k = key \<and> r = sf_next g else leads g u k r"
    show "((sf_map g)(key \<mapsto> sf_next g)) k = Some r"
    proof (cases "u = t")
      case False
      then have "sf_map g k = Some r" using l I(1) by simp
      then show ?thesis using assms(2) by auto
    qed (use l in simp)
  next
    fix k r
    assume "((sf_map g)(key \<mapsto> sf_next g)) k = Some r"
    then show "r < Suc (sf_next g)" "(ko(sf_next g := key)) r = k"
      using I(2) [of k r] old(2) [of k r] by (auto split: if_splits)
  next
    fix u k r
    assume "if u = t then k = key \<and> r = sf_next g else refers g u k r"
    then show "r < Suc (sf_next g)" "(ko(sf_next g := key)) r = k"
      using I(3) [of u k r] by (auto split: if_splits)
  next
    fix u v k j r
    assume l: "if u = t then k = key \<and> r = sf_next g else leads g u k r"
      "if v = t then j = key \<and> r = sf_next g else leads g v j r"
    have "leads g w i r \<Longrightarrow> r \<noteq> sf_next g" for w i using old(1) refersI(1) by metis
    then show "u = v" using l I(4) [of u k r v j] by (auto split: if_splits)
  next
    fix u k r v b
    assume u: "(if u = t then SLeading key (sf_next g) else sf_pc g u) = SGot k r v b"
    then have p: "sf_pc g u = SGot k r v b" by (simp split: if_splits)
    then have "r \<noteq> sf_next g" using old(1) refersI(3) by metis
    then show "call_result (((sf_calls g)(sf_next g := \<lparr>call_result = None, call_shared = False\<rparr>)) r) = Some v"
      using I(5) [OF p] by simp
  next
    fix u k r
    assume "(if u = t then SLeading key (sf_next g) else sf_pc g u) = SLeading k r"
    then show "call_result (((sf_calls g)(sf_next g := \<lparr>call_result = None, call_shared = False\<rparr>)) r) = None"
      using I(6) [of u k r] by (simp split: if_splits)
  qed
qed

lemma sf_inv_return:
  assumes "sf_inv ko g" and "sf_pc g t = SLeading key r"
  shows "sf_inv ko (sf_goto (set_call g r ((sf_calls g r)\<lparr>call_result := Some v\<rparr>)) t (SFinished key r))"
  (is "sf_inv ko ?g")
proof -
  note I = sf_invD [OF assms(1)]
  have l: "leads g t key r" by (rule leadsI(1) [OF assms(2)])
  have lead: "leads ?g u k q = leads g u k q" "refers ?g u k q = refers g u k q" for u k q
    using assms(2) by (auto simp: leads_def refers_def)
  have none: "call_result (sf_calls g r) = None" by (rule I(6) [OF assms(2)])
  show ?thesis
    unfolding sf_inv_def lead
  proof (intro conjI allI impI)
    fix u k q w b
    assume "sf_pc ?g u = SGot k q w b"
    then have p: "sf_pc g u = SGot k q w b" by (simp split: if_splits)
    then have "q \<noteq> r" using I(5) [OF p] none by auto
    then show "call_result (sf_calls ?g q) = Some w" using I(5) [OF p] by simp
  next
    fix u k q
    assume u: "sf_pc ?g u = SLeading k q"
    then have p: "u \<noteq> t" "sf_pc g u = SLeading k q" by (auto split: if_splits)
    then have "q \<noteq> r" using I(4) [OF l, of u k] leadsI(1) [OF p(2)] by blast
    then show "call_result (sf_calls ?g q) = None" using I(6) [OF p(2)] by simp
  qed (use I(1-4) in simp_all)
qed

text \<open>A goroutine that stops referring to its call, or leaves with the call's result.\<close>

lemma sf_inv_leave:
  assumes "sf_inv ko g" and "c = SPanicked \<or> (\<exists>k r v b. c = SGot k r v b \<and> refers g t k r \<and> call_result (sf_calls g r) = Some v)"
  shows "sf_inv ko (sf_goto g t c)"
proof -
  have "\<not> (c = SLeading k r \<or> c = SFinished k r)" for k r using assms(2) by auto
  moreover have "refers (sf_goto g t c) u k r \<Longrightarrow> refers g u k r" for u k r
    using assms(2) by (auto simp: refers_goto split: if_splits)
  ultimately show ?thesis
    using assms(2) sf_invD [OF assms(1)] unfolding sf_inv_def leads_goto
    by (simp split: if_split) (metis sf_pc.distinct sf_pc.inject(4))
qed

lemma sf_inv_delete:
  assumes "sf_inv ko g" and "sf_pc g t = SFinished key r" and "call_result (sf_calls g r) = Some v"
  shows "sf_inv ko (sf_goto (g\<lparr>sf_map := (sf_map g)(key := None)\<rparr>) t (SGot key r v b))"
  (is "sf_inv ko ?g")
proof -
  note I = sf_invD [OF assms(1)]
  have l: "leads g t key r" by (rule leadsI(2) [OF assms(2)])
  have lead: "leads ?g u k q \<longleftrightarrow> u \<noteq> t \<and> leads g u k q" for u k q by (auto simp: leads_def)
  have ref: "refers ?g u k q \<Longrightarrow> refers g u k q" for u k q
    using refersI(1) [OF l] by (auto simp: refers_def leads_def split: if_splits)
  have pc: "sf_pc ?g u = (if u = t then SGot key r v b else sf_pc g u)" for u by simp
  show ?thesis
    unfolding sf_inv_def lead pc
  proof (intro conjI allI impI)
    fix u k q
    assume a: "u \<noteq> t \<and> leads g u k q"
    have "k \<noteq> key"
    proof
      assume "k = key"
      then have "q = r" using I(1) [of u k q] I(1) [OF l] a by simp
      then show False using I(4) [of u k q t key] a l by simp
    qed
    then show "sf_map ?g k = Some q" using I(1) [of u k q] a by simp
  next
    fix k q
    assume "sf_map ?g k = Some q"
    then have "sf_map g k = Some q" by (simp split: if_splits)
    then show "q < sf_next ?g" "ko q = k" using I(2) by auto
  next
    fix u k q
    assume "refers ?g u k q"
    then show "q < sf_next ?g" "ko q = k" using I(3) [OF ref] by auto
  next
    fix u w k j q
    assume "u \<noteq> t \<and> leads g u k q" and "w \<noteq> t \<and> leads g w j q"
    then show "u = w" using I(4) by blast
  next
    fix u k q w c
    assume "(if u = t then SGot key r v b else sf_pc g u) = SGot k q w c"
    then show "call_result (sf_calls ?g q) = Some w"
      using I(5) [of u k q w c] assms(3) by (simp split: if_splits)
  next
    fix u k q
    assume "(if u = t then SGot key r v b else sf_pc g u) = SLeading k q"
    then show "call_result (sf_calls ?g q) = None" using I(6) [of u k q] by (simp split: if_splits)
  qed
qed

lemma sf_inv_step:
  assumes "sf_inv ko g" and "sf_step g e = Some g'"
  shows "\<exists>ko'. sf_inv ko' g'"
proof (cases e)
  case (DoEnter t key)
  then have i: "idle_pc (sf_pc g t)" using assms(2) by (auto split: if_splits)
  show ?thesis
  proof (cases "sf_map g key")
    case None
    have "g' = sf_goto ((set_call g (sf_next g) \<lparr>call_result = None, call_shared = False\<rparr>)
       \<lparr>sf_map := (sf_map g)(key \<mapsto> sf_next g), sf_next := sf_next g + 1\<rparr>) t (SLeading key (sf_next g))"
      using assms(2) DoEnter i None by (simp add: Let_def)
    with sf_inv_lead [OF assms(1) None i] show ?thesis by metis
  next
    case (Some r)
    have "g' = sf_goto (set_call g r ((sf_calls g r)\<lparr>call_shared := True\<rparr>)) t (SWaiting key r)"
      using assms(2) DoEnter i Some by simp
    with sf_inv_join [OF assms(1) Some i] show ?thesis by metis
  qed
next
  case (FnReturns t v)
  then obtain key r where "sf_pc g t = SLeading key r"
      "g' = sf_goto (set_call g r ((sf_calls g r)\<lparr>call_result := Some v\<rparr>)) t (SFinished key r)"
    using assms(2) by (auto split: sf_pc.splits)
  with sf_inv_return [OF assms(1)] show ?thesis by metis
next
  case (FnPanics t)
  then show ?thesis using assms sf_inv_leave [OF assms(1), of SPanicked] by (auto split: sf_pc.splits)
next
  case (DeleteKey t)
  then obtain key r v where "sf_pc g t = SFinished key r" "call_result (sf_calls g r) = Some v"
      "g' = sf_goto (g\<lparr>sf_map := (sf_map g)(key := None)\<rparr>) t (SGot key r v (call_shared (sf_calls g r)))"
    using assms(2) by (auto split: sf_pc.splits option.splits)
  with sf_inv_delete [OF assms(1)] show ?thesis by metis
next
  case (WaitReturns t)
  then obtain key r v where w: "sf_pc g t = SWaiting key r" "call_result (sf_calls g r) = Some v"
      "g' = sf_goto g t (SGot key r v True)"
    using assms(2) by (auto split: sf_pc.splits option.splits)
  with sf_inv_leave [OF assms(1), of "SGot key r v True" t] refersI(2) [OF w(1)] show ?thesis by auto
qed

lemma sf_inv_run: "run_events sf_step new_singleflight_group es = Some g \<Longrightarrow> \<exists>ko. sf_inv ko g"
  by (rule run_events_inv [where I = "\<lambda>g. \<exists>ko. sf_inv ko g"]) (use sf_inv_new sf_inv_step in blast)+

text \<open>Where the result of a call comes from: the return of the function in the goroutine that led the call.\<close>

definition returned_by :: "'v sf_event list \<Rightarrow> string \<Rightarrow> nat \<Rightarrow> 'v \<Rightarrow> bool" where
  "returned_by es k r v \<longleftrightarrow>
     (\<exists>xs l ys h. es = xs @ FnReturns l v # ys \<and> run_events sf_step new_singleflight_group xs = Some h
        \<and> sf_pc h l = SLeading k r)"

lemma returned_by_snoc: "returned_by es k r v \<Longrightarrow> returned_by (es @ [e]) k r v"
  unfolding returned_by_def by fastforce

definition known :: "'v singleflight \<Rightarrow> string \<Rightarrow> nat \<Rightarrow> bool" where
  "known g k r \<longleftrightarrow> sf_map g k = Some r \<or> (\<exists>t. refers g t k r)"

definition results_returned :: "'v sf_event list \<Rightarrow> 'v singleflight \<Rightarrow> bool" where
  "results_returned es g \<longleftrightarrow>
     (\<forall>k r v. known g k r \<longrightarrow> call_result (sf_calls g r) = Some v \<longrightarrow> returned_by es k r v)"

lemma results_returned_keep:
  assumes "results_returned es g" and "\<And>k r. known g' k r \<Longrightarrow> known g k r \<or> call_result (sf_calls g' r) = None"
    and "\<And>k r. known g k r \<Longrightarrow> call_result (sf_calls g' r) = call_result (sf_calls g r)"
  shows "results_returned (es @ [e]) g'"
  using assms unfolding results_returned_def by (metis returned_by_snoc option.distinct(1))

lemma results_returned_step:
  assumes "sf_inv ko g" and "results_returned es g" and "run_events sf_step new_singleflight_group es = Some g"
    and "sf_step g e = Some g'"
  shows "results_returned (es @ [e]) g'"
proof (cases e)
  case (DoEnter t key)
  then have i: "idle_pc (sf_pc g t)" using assms(4) by (auto split: if_splits)
  show ?thesis
  proof (cases "sf_map g key")
    case None
    have g': "g' = sf_goto ((set_call g (sf_next g) \<lparr>call_result = None, call_shared = False\<rparr>)
       \<lparr>sf_map := (sf_map g)(key \<mapsto> sf_next g), sf_next := sf_next g + 1\<rparr>) t (SLeading key (sf_next g))"
      using assms(4) DoEnter i None by (simp add: Let_def)
    have "q \<noteq> sf_next g" if "known g k q" for k q
      using that sf_invD(2,3) [OF assms(1)] unfolding known_def by fastforce
    then show ?thesis
      by (intro results_returned_keep [OF assms(2)])
        (auto simp: g' known_def refers_goto split: if_splits)
  next
    case (Some q)
    have "g' = sf_goto (set_call g q ((sf_calls g q)\<lparr>call_shared := True\<rparr>)) t (SWaiting key q)"
      using assms(4) DoEnter i Some by simp
    with Some show ?thesis
      by (intro results_returned_keep [OF assms(2)]) (auto simp: known_def refers_goto split: if_splits)
  qed
next
  case (FnReturns t v)
  then obtain key q where l: "sf_pc g t = SLeading key q"
      "g' = sf_goto (set_call g q ((sf_calls g q)\<lparr>call_result := Some v\<rparr>)) t (SFinished key q)"
    using assms(4) by (auto split: sf_pc.splits)
  have lead: "refers g t key q" by (rule refersI(1) [OF leadsI(1) [OF l(1)]])
  have "refers g' u k p = refers g u k p" for u k p
    using l(1) by (auto simp: l(2) leads_def refers_def)
  then have known: "known g' k p \<longleftrightarrow> known g k p" for k p
    by (simp add: known_def l(2))
  have "returned_by (es @ [FnReturns t v]) key q v"
    unfolding returned_by_def using assms(3) l(1) by (metis append_Nil2 append.assoc)
  moreover have "k = key" if "known g k q" for k
    using that sf_invD(2,3) [OF assms(1)] lead unfolding known_def by metis
  ultimately show ?thesis
    using assms(2) FnReturns unfolding results_returned_def known
    by (auto simp: l(2) intro: returned_by_snoc)
next
  case (FnPanics t)
  then have "g' = sf_goto g t SPanicked" using assms(4) by (auto split: sf_pc.splits)
  then show ?thesis
    by (intro results_returned_keep [OF assms(2)]) (auto simp: known_def refers_goto split: if_splits)
next
  case (DeleteKey t)
  then obtain key q v where l: "sf_pc g t = SFinished key q"
      "g' = sf_goto (g\<lparr>sf_map := (sf_map g)(key := None)\<rparr>) t (SGot key q v (call_shared (sf_calls g q)))"
    using assms(4) by (auto split: sf_pc.splits option.splits)
  have "refers g t key q" by (rule refersI(1) [OF leadsI(2) [OF l(1)]])
  then show ?thesis
    by (intro results_returned_keep [OF assms(2)]) (auto simp: l(2) known_def refers_goto split: if_splits)
next
  case (WaitReturns t)
  then obtain key q v where l: "sf_pc g t = SWaiting key q" "g' = sf_goto g t (SGot key q v True)"
    using assms(4) by (auto split: sf_pc.splits option.splits)
  have "refers g t key q" by (rule refersI(2) [OF l(1)])
  then show ?thesis
    by (intro results_returned_keep [OF assms(2)]) (auto simp: l(2) known_def refers_goto split: if_splits)
qed

lemma results_returned_run:
  "run_events sf_step new_singleflight_group es = Some g \<Longrightarrow> results_returned es g"
proof (induction es arbitrary: g rule: rev_induct)
  case Nil
  then show ?case
    by (auto simp: results_returned_def known_def refers_def leads_def new_singleflight_group_def)
next
  case (snoc e es)
  then obtain h where h: "run_events sf_step new_singleflight_group es = Some h" "sf_step h e = Some g"
    by (auto simp: run_events_append split: option.splits)
  obtain ko where "sf_inv ko h" using sf_inv_run [OF h(1)] by blast
  then show ?case using results_returned_step snoc.IH [OF h(1)] h by blast
qed

text \<open>C19: singleflight. In every interleaving at most one execution of the function is in flight for a key, every caller of
  Do, the leader of a flight or one that joined it, returns what the function returned in the leader's execution for that
  key, and all callers of one flight return the same.\<close>

theorem singleflight_exclusive:
  assumes "run_events sf_step new_singleflight_group es = Some g"
  shows "(sf_pc g t = SLeading k r \<longrightarrow> sf_pc g u = SLeading k q \<longrightarrow> t = u)
    \<and> (sf_pc g t = SGot k r v b \<longrightarrow>
        (\<exists>xs l ys h. es = xs @ FnReturns l v # ys \<and> run_events sf_step new_singleflight_group xs = Some h
           \<and> sf_pc h l = SLeading k r))
    \<and> (sf_pc g t = SGot k r v b \<longrightarrow> sf_pc g u = SGot j r w c \<longrightarrow> v = w \<and> k = j)"
proof -
  obtain ko where I: "sf_inv ko g" using sf_inv_run [OF assms] by blast
  have "t = u" if l: "sf_pc g t = SLeading k r" "sf_pc g u = SLeading k q"
  proof -
    have "sf_map g k = Some r" "sf_map g k = Some q" using sf_invD(1) [OF I] leadsI(1) l by metis+
    then show ?thesis using sf_invD(4) [OF I] leadsI(1) l by (metis option.inject)
  qed
  moreover have "returned_by es k r v" if l: "sf_pc g t = SGot k r v b"
    using results_returned_run [OF assms] sf_invD(5) [OF I l] refersI(3) [OF l]
    unfolding results_returned_def known_def by blast
  moreover have "v = w \<and> k = j" if l: "sf_pc g t = SGot k r v b" "sf_pc g u = SGot j r w c"
    using sf_invD(5) [OF I l(1)] sf_invD(5) [OF I l(2)] sf_invD(3) [OF I refersI(3) [OF l(1)]]
      sf_invD(3) [OF I refersI(3) [OF l(2)]] by simp
  ultimately show ?thesis unfolding returned_by_def by blast
qed

definition demo_flight :: "int sf_event list" where
  "demo_flight = [DoEnter 1 ''k'', DoEnter 2 ''k'', FnReturns 1 7, WaitReturns 2, DeleteKey 1]"

definition demo_flight_end :: "int singleflight" where
  "demo_flight_end = the (run_events sf_step new_singleflight_group demo_flight)"

lemma demo_flight_run: "run_events sf_step new_singleflight_group demo_flight = Some demo_flight_end"
  and demo_flight_pcs: "sf_pc demo_flight_end 1 = SGot ''k'' 0 7 True" "sf_pc demo_flight_end 2 = SGot ''k'' 0 7 True"
  by (simp_all add: demo_flight_end_def demo_flight_def new_singleflight_group_def idle_pc_def)

theorem singleflight_exclusive_witness:
  "\<exists>v w. sf_pc demo_flight_end 1 = SGot ''k'' 0 v True \<and> sf_pc demo_flight_end 2 = SGot ''k'' 0 w True \<and> v = w"
  using singleflight_exclusive [OF demo_flight_run, of 1 "''k''" 0 2 0 7 True "''k''" 7 True] demo_flight_pcs
  by blast

text \<open>A key whose leader is gone: its call has no result and nobody is left to give it one; whoever else
  refers to the key is about a call that had completed when \<open>old\<close> was recorded.\<close>

definition stuck :: "(nat \<Rightarrow> 'v option) \<Rightarrow> 'v singleflight \<Rightarrow> string \<Rightarrow> nat \<Rightarrow> bool" where
  "stuck old g k r \<longleftrightarrow> sf_map g k = Some r \<and> call_result (sf_calls g r) = None
     \<and> (\<forall>t q. \<not> leads g t k q)
     \<and> (\<forall>t q. refers g t k q \<longrightarrow> q = r \<or> old q \<noteq> None \<and> call_result (sf_calls g q) = old q)"

lemma stuck_frame:
  assumes "stuck old g k r" and "sf_map g' k = Some r" and "call_result (sf_calls g' r) = None"
    and "\<And>t q. leads g' t k q \<Longrightarrow> leads g t k q"
    and "\<And>t q. refers g' t k q \<Longrightarrow> q = r \<or> refers g t k q"
    and "\<And>t q. refers g t k q \<Longrightarrow> q \<noteq> r \<Longrightarrow> call_result (sf_calls g' q) = call_result (sf_calls g q)"
  shows "stuck old g' k r"
  using assms unfolding stuck_def by metis

lemma stuck_step:
  assumes "sf_inv ko g" and "stuck old g k r" and "sf_step g e = Some g'"
  shows "stuck old g' k r"
proof (cases e)
  case (DoEnter t key)
  then have i: "idle_pc (sf_pc g t)" using assms(3) by (auto split: if_splits)
  show ?thesis
  proof (cases "sf_map g key")
    case None
    have k: "key \<noteq> k" using None assms(2) by (auto simp: stuck_def)
    have r: "r < sf_next g" using sf_invD(2) [OF assms(1), of k r] assms(2) by (simp add: stuck_def)
    have g': "g' = sf_goto ((set_call g (sf_next g) \<lparr>call_result = None, call_shared = False\<rparr>)
       \<lparr>sf_map := (sf_map g)(key \<mapsto> sf_next g), sf_next := sf_next g + 1\<rparr>) t (SLeading key (sf_next g))"
      using assms(3) DoEnter i None by (simp add: Let_def)
    have fresh: "p \<noteq> sf_next g" if "refers g u j p" for u j p
      using sf_invD(3) [OF assms(1) that] by auto
    show ?thesis
      by (rule stuck_frame [OF assms(2)])
        (use assms(2) k r fresh in
          \<open>auto simp: g' stuck_def leads_goto refers_goto split: if_splits\<close>)
  next
    case (Some q)
    have g': "g' = sf_goto (set_call g q ((sf_calls g q)\<lparr>call_shared := True\<rparr>)) t (SWaiting key q)"
      using assms(3) DoEnter i Some by simp
    show ?thesis
      by (rule stuck_frame [OF assms(2)])
        (use assms(2) Some in \<open>auto simp: g' stuck_def leads_goto refers_goto split: if_splits\<close>)
  qed
next
  case (FnReturns t v)
  then obtain key q where l: "sf_pc g t = SLeading key q"
      "g' = sf_goto (set_call g q ((sf_calls g q)\<lparr>call_result := Some v\<rparr>)) t (SFinished key q)"
    using assms(3) by (auto split: sf_pc.splits)
  have lead: "leads g t key q" by (rule leadsI(1) [OF l(1)])
  have nk: "key \<noteq> k" using assms(2) lead by (auto simp: stuck_def)
  have "ko q = key" using sf_invD(3) [OF assms(1) refersI(1) [OF lead]] by simp
  moreover have "ko r = k" using sf_invD(2) [OF assms(1)] assms(2) by (simp add: stuck_def)
  ultimately have other: "q \<noteq> r" "\<And>u p. refers g u k p \<Longrightarrow> p \<noteq> q"
    using nk sf_invD(3) [OF assms(1)] by metis+
  show ?thesis
    by (rule stuck_frame [OF assms(2)])
      (use assms(2) nk other in \<open>auto simp: l(2) stuck_def leads_goto refers_goto split: if_splits\<close>)
next
  case (FnPanics t)
  then have g': "g' = sf_goto g t SPanicked" using assms(3) by (auto split: sf_pc.splits)
  show ?thesis
    by (rule stuck_frame [OF assms(2)])
      (use assms(2) in \<open>auto simp: g' stuck_def leads_goto refers_goto split: if_splits\<close>)
next
  case (DeleteKey t)
  then obtain key q v where l: "sf_pc g t = SFinished key q"
      "g' = sf_goto (g\<lparr>sf_map := (sf_map g)(key := None)\<rparr>) t (SGot key q v (call_shared (sf_calls g q)))"
    using assms(3) by (auto split: sf_pc.splits option.splits)
  have nk: "key \<noteq> k" using assms(2) leadsI(2) [OF l(1)] by (auto simp: stuck_def)
  show ?thesis
    by (rule stuck_frame [OF assms(2)])
      (use assms(2) nk in \<open>auto simp: l(2) stuck_def leads_goto refers_goto split: if_splits\<close>)
next
  case (WaitReturns t)
  then obtain key q v where l: "sf_pc g t = SWaiting key q" "g' = sf_goto g t (SGot key q v True)"
    using assms(3) by (auto split: sf_pc.splits option.splits)
  show ?thesis
    by (rule stuck_frame [OF assms(2)])
      (use assms(2) refersI(2) [OF l(1)] in \<open>auto simp: l(2) stuck_def leads_goto refers_goto split: if_splits\<close>)
qed

lemma stuck_run:
  "sf_inv ko g \<Longrightarrow> stuck old g k r \<Longrightarrow> run_events sf_step g es = Some g' \<Longrightarrow>
    (\<exists>ko'. sf_inv ko' g') \<and> stuck old g' k r"
proof (induction es arbitrary: g ko)
  case Nil
  then show ?case by auto
next
  case (Cons e es)
  then obtain g1 where g1: "sf_step g e = Some g1" "run_events sf_step g1 es = Some g'"
    by (auto split: option.splits)
  obtain ko1 where "sf_inv ko1 g1" using sf_inv_step [OF Cons.prems(1) g1(1)] by blast
  from Cons.IH [OF this stuck_step [OF Cons.prems(1,2) g1(1)] g1(2)] show ?case .
qed

text \<open>A call that somebody still refers to is in the map until it has a result.\<close>

definition resolved :: "'v singleflight \<Rightarrow> bool" where
  "resolved g \<longleftrightarrow> (\<forall>t k q. refers g t k q \<longrightarrow> sf_map g k = Some q \<or> call_result (sf_calls g q) \<noteq> None)"

lemma resolved_step:
  assumes "sf_inv ko g" and "resolved g" and "sf_step g e = Some g'"
  shows "resolved g'"
proof (cases e)
  case (DoEnter t key)
  then have i: "idle_pc (sf_pc g t)" using assms(3) by (auto split: if_splits)
  show ?thesis
  proof (cases "sf_map g key")
    case None
    have g': "g' = sf_goto ((set_call g (sf_next g) \<lparr>call_result = None, call_shared = False\<rparr>)
       \<lparr>sf_map := (sf_map g)(key \<mapsto> sf_next g), sf_next := sf_next g + 1\<rparr>) t (SLeading key (sf_next g))"
      using assms(3) DoEnter i None by (simp add: Let_def)
    have fresh: "q \<noteq> sf_next g" if "refers g u k q" for u k q
      using sf_invD(3) [OF assms(1) that] by auto
    show ?thesis
      unfolding resolved_def
    proof (intro allI impI)
      fix u k q
      assume "refers g' u k q"
      then have c: "u = t \<and> k = key \<and> q = sf_next g \<or> refers g u k q"
        unfolding g' refers_goto leads_frame by (auto split: if_splits)
      show "sf_map g' k = Some q \<or> call_result (sf_calls g' q) \<noteq> None"
      proof (cases "refers g u k q")
        case True
        then have "sf_map g k = Some q \<or> call_result (sf_calls g q) \<noteq> None"
          using assms(2) unfolding resolved_def by blast
        with fresh [OF True] None show ?thesis unfolding g' by auto
      next
        case False
        with c show ?thesis unfolding g' by simp
      qed
    qed
  next
    case (Some q)
    have g': "g' = sf_goto (set_call g q ((sf_calls g q)\<lparr>call_shared := True\<rparr>)) t (SWaiting key q)"
      using assms(3) DoEnter i Some by simp
    then show ?thesis using assms(2) Some unfolding g' resolved_def refers_goto by auto
  qed
next
  case (FnReturns t v)
  then obtain key q where l: "sf_pc g t = SLeading key q"
      "g' = sf_goto (set_call g q ((sf_calls g q)\<lparr>call_result := Some v\<rparr>)) t (SFinished key q)"
    using assms(3) by (auto split: sf_pc.splits)
  show ?thesis using assms(2) sf_invD(1) [OF assms(1) leadsI(1) [OF l(1)]]
    unfolding l(2) resolved_def refers_goto by auto
next
  case (FnPanics t)
  then have g': "g' = sf_goto g t SPanicked" using assms(3) by (auto split: sf_pc.splits)
  show ?thesis using assms(2) unfolding g' resolved_def refers_goto by auto
next
  case (DeleteKey t)
  then obtain key q v where l: "sf_pc g t = SFinished key q" "call_result (sf_calls g q) = Some v"
      "g' = sf_goto (g\<lparr>sf_map := (sf_map g)(key := None)\<rparr>) t (SGot key q v (call_shared (sf_calls g q)))"
    using assms(3) by (auto split: sf_pc.splits option.splits)
  have m: "sf_map g key = Some q" using sf_invD(1) [OF assms(1) leadsI(2) [OF l(1)]] .
  have "sf_map g' k = Some p \<or> call_result (sf_calls g' p) \<noteq> None" if "refers g' u k p" for u k p
  proof (cases "u = t")
    case True
    with that l(2) show ?thesis unfolding l(3) by (simp add: refers_goto)
  next
    case False
    then have "sf_map g k = Some p \<or> call_result (sf_calls g p) \<noteq> None"
      using that assms(2) unfolding l(3) resolved_def by (simp add: refers_goto)
    then show ?thesis using m l(2) unfolding l(3) by (cases "k = key") auto
  qed
  then show ?thesis unfolding resolved_def by blast
next
  case (WaitReturns t)
  then obtain key q v where l: "sf_pc g t = SWaiting key q" "call_result (sf_calls g q) = Some v"
      "g' = sf_goto g t (SGot key q v True)"
    using assms(3) by (auto split: sf_pc.splits option.splits)
  show ?thesis using assms(2) l(2) unfolding l(3) resolved_def refers_goto by auto
qed

lemma resolved_run:
  assumes "run_events sf_step new_singleflight_group es = Some g"
  shows "\<exists>ko. sf_inv ko g \<and> resolved g"
proof (rule run_events_inv [OF assms, where I = "\<lambda>g. \<exists>ko. sf_inv ko g \<and> resolved g"])
  show "\<exists>ko. sf_inv ko new_singleflight_group \<and> resolved new_singleflight_group"
    using sf_inv_new by (auto simp: resolved_def new_singleflight_group_def refers_def leads_def)
qed (use sf_inv_step resolved_step in blast)

text \<open>a panic of the function makes its key unusable. Once the leader of a key has panicked (and the
  panic was recovered further up), no call of Do for that key ever returns again: a result that is handed
  out for the key later is that of a flight that had completed before the panic.\<close>

theorem panic_blocks_key_forever:
  assumes "run_events sf_step new_singleflight_group es = Some g" and "sf_pc g t = SLeading k r"
    and "sf_step g (FnPanics t) = Some g1" and "run_events sf_step g1 fs = Some g2"
    and "sf_pc g2 u = SGot k q v b"
  shows "call_result (sf_calls g q) = Some v"
proof -
  obtain ko where I: "sf_inv ko g" and res: "resolved g" using resolved_run [OF assms(1)] by blast
  obtain ko1 where I1: "sf_inv ko1 g1" using sf_inv_step [OF I assms(3)] by blast
  have g1: "g1 = sf_goto g t SPanicked" using assms(2,3) by simp
  have l: "leads g t k r" by (rule leadsI(1) [OF assms(2)])
  have m: "sf_map g k = Some r" by (rule sf_invD(1) [OF I l])
  have none: "call_result (sf_calls g r) = None" by (rule sf_invD(6) [OF I assms(2)])
  have alone: "leads g x k p \<Longrightarrow> x = t" for x p
    using sf_invD(1) [OF I] sf_invD(4) [OF I l] m by (metis option.inject)
  let ?old = "\<lambda>p. call_result (sf_calls g p)"
  have S: "stuck ?old g1 k r"
    unfolding stuck_def g1
  proof (intro conjI allI impI)
    fix x p
    show "\<not> leads (sf_goto g t SPanicked) x k p" using alone [of x p] by (auto simp: leads_goto)
  next
    fix x p
    assume "refers (sf_goto g t SPanicked) x k p"
    then have "refers g x k p" by (auto simp: refers_goto split: if_splits)
    then show "p = r \<or> ?old p \<noteq> None \<and> call_result (sf_calls (sf_goto g t SPanicked) p) = ?old p"
      using res m unfolding resolved_def by (metis option.inject sf_simps(2))
  qed (use m none in simp_all)
  obtain ko2 where I2: "sf_inv ko2 g2" and S2: "stuck ?old g2 k r"
    using stuck_run [OF I1 S assms(4)] by blast
  have "call_result (sf_calls g2 q) = Some v" by (rule sf_invD(5) [OF I2 assms(5)])
  moreover have "q = r \<or> ?old q \<noteq> None \<and> call_result (sf_calls g2 q) = ?old q"
    using S2 refersI(3) [OF assms(5)] unfolding stuck_def by blast
  ultimately show ?thesis using S2 unfolding stuck_def by auto
qed

definition demo_panic :: "int sf_event list" where
  "demo_panic = [DoEnter 1 ''k'', DoEnter 2 ''k'', FnReturns 1 7, DeleteKey 1, DoEnter 3 ''k'']"

definition demo_panic_state :: "int singleflight" where
  "demo_panic_state = the (run_events sf_step new_singleflight_group demo_panic)"

definition demo_panic_after :: "int singleflight" where
  "demo_panic_after = the (sf_step demo_panic_state (FnPanics 3))"

definition demo_panic_end :: "int singleflight" where
  "demo_panic_end = the (run_events sf_step demo_panic_after [DoEnter 4 ''k'', WaitReturns 2])"

lemma demo_panic_run:
  "run_events sf_step new_singleflight_group demo_panic = Some demo_panic_state"
  "sf_pc demo_panic_state 3 = SLeading ''k'' 1"
  "sf_step demo_panic_state (FnPanics 3) = Some demo_panic_after"
  "run_events sf_step demo_panic_after [DoEnter 4 ''k'', WaitReturns 2] = Some demo_panic_end"
  "sf_pc demo_panic_end 2 = SGot ''k'' 0 7 True"
  by (simp_all add: demo_panic_end_def demo_panic_after_def demo_panic_state_def demo_panic_def
      new_singleflight_group_def idle_pc_def)

theorem panic_blocks_key_forever_witness:
  "call_result (sf_calls demo_panic_state 0) = Some 7"
  by (rule panic_blocks_key_forever [OF demo_panic_run])

end
