(* ===== verification/Flight_Caches.thy ===== *)
theory Flight_Caches
  imports Singleflight
begin

text \<open>
  The caches built on singleflight: \<open>StampedeProtectedCache\<close>
  (\<open>patterns/14_caching/stampede_prevention.go\<close>, for any cache client) and
  \<open>SingleflightWithStaleCache\<close> (\<open>patterns/26_advanced/singleflight_cache.go\<close>, on
  \<open>MemoryCache\<close>). Here a call runs alone, so \<open>Do\<close> runs the function and returns its result
  (\<open>do_alone\<close>, which \<open>do_alone_steps\<close> derives from the steps of \<open>Do\<close>); overlapping
  calls are the subject of the theories Singleflight, Stampede and Stale_Flights.
\<close>

lemma do_alone_steps:
  assumes "idle_pc (sf_pc g t)" and "sf_map g key = None"
  shows "\<exists>g'. run_events sf_step g [DoEnter t key, FnReturns t v, DeleteKey t] = Some g'
    \<and> sf_pc g' t = SGot key (sf_next g) v False \<and> sf_map g' key = None"
  using assms by (simp add: Let_def)

definition do_alone :: "('s \<Rightarrow> 'r \<times> 's) \<Rightarrow> 's \<Rightarrow> 'r \<times> 's" where
  "do_alone fn s = fn s"


section \<open>Stampede protection\<close>

text \<open>\<open>fetch\<close> is what \<open>fetchFn\<close> returns if it is called; the last component says whether it was.\<close>

definition get_or_compute ::
  "('s, 'v) cache_client \<Rightarrow> gotime \<Rightarrow> gotime \<Rightarrow> gotime \<Rightarrow> string \<Rightarrow> duration \<Rightarrow> string + 'v \<Rightarrow> 's \<Rightarrow>
    (string + 'v) \<times> 's \<times> bool" where
  "get_or_compute C now1 now2 now3 key ttl fetch s =
     (case cc_get C s now1 key of
        Inr val \<Rightarrow> (Inr val, s, False)
      | Inl miss \<Rightarrow>
          (let (r, s1, called) = do_alone (\<lambda>(s, called).
             case cc_get C s now2 key of
               Inr v \<Rightarrow> (Inr v, s, called)
             | Inl miss2 \<Rightarrow>
                 (case fetch of
                    Inl e \<Rightarrow> (Inl e, s, True)
                  | Inr res \<Rightarrow> (Inr res, snd (cc_set C s now3 key res ttl), True))) (s, False)
           in (r, s1, called)))"

context cache_contract
begin

lemma hit_no_fetch:
  "cc_get C s now1 key = Inr v \<Longrightarrow> get_or_compute C now1 now2 now3 key ttl fetch s = (Inr v, s, False)"
  by (simp add: get_or_compute_def)

lemma miss_fetches:
  assumes "cached C s now1 key = None" and "cached C s now2 key = None"
  shows "get_or_compute C now1 now2 now3 key ttl fetch s =
    (case fetch of Inl e \<Rightarrow> (Inl e, s, True) | Inr v \<Rightarrow> (Inr v, snd (cc_set C s now3 key v ttl), True))"
  using assms by (auto simp: cached_def get_or_compute_def do_alone_def split: sum.splits)

lemma filled_after_fetch:
  assumes "get_or_compute C now1 now2 now3 key ttl fetch s = (Inr v, s1, True)" and "now4 \<le> now3 + ttl"
  shows "get_or_compute C now4 now5 now6 key ttl' fetch' s1 = (Inr v, s1, False)"
proof -
  have "s1 = snd (cc_set C s now3 key v ttl)"
    using assms(1) by (auto simp: get_or_compute_def do_alone_def split: sum.splits)
  then have "cached C s1 now4 key = Some v" using get_set_same [of s now3 key v ttl now4] assms(2) by simp
  then have "cc_get C s1 now4 key = Inr v" by (simp add: cached_def split: sum.splits)
  then show ?thesis by (simp add: get_or_compute_def)
qed

end

lemma stampede_second_caller_served:
  "get_or_compute memory_client now1 now2 now3 key ttl fetch s = (Inr v, s1, True) \<Longrightarrow> now4 \<le> now3 + ttl \<Longrightarrow>
    get_or_compute memory_client now4 now5 now6 key ttl' fetch' s1 = (Inr v, s1, False)"
  by (rule mem.filled_after_fetch)


section \<open>Stale fallback\<close>

record 'v stale_cache =
  fresh :: "'v memory_cache"
  stale :: "string \<rightharpoonup> 'v"

definition new_stale_cache :: "'v stale_cache" where
  "new_stale_cache = \<lparr>fresh = new_memory_cache, stale = Map.empty\<rparr>"

text \<open>The answer is the value and whether it is stale, or the database's error.\<close>

definition fetch_stale ::
  "gotime \<Rightarrow> gotime \<Rightarrow> string \<Rightarrow> duration \<Rightarrow> string + 'v \<Rightarrow> 'v stale_cache \<Rightarrow> (string + 'v \<times> bool) \<times> 'v stale_cache" where
  "fetch_stale now1 now2 key ttl query s =
     (case mem_get (fresh s) now1 key of
        Inr v \<Rightarrow> (Inr (v, False), s)
      | Inl miss \<Rightarrow>
          (let (r, s1) = do_alone (\<lambda>s.
             case query of
               Inl e \<Rightarrow> (Inl e, s)
             | Inr res \<Rightarrow>
                 (Inr res, s\<lparr>fresh := snd (mem_set (fresh s) now2 key res ttl),
                              stale := (stale s)(key \<mapsto> res)\<rparr>)) s
           in case r of
                Inr v \<Rightarrow> (Inr (v, False), s1)
              | Inl e \<Rightarrow>
                  (case stale s1 key of
                     Some v \<Rightarrow> (Inr (v, True), s1)
                   | None \<Rightarrow> (Inl e, s1))))"

type_synonym 'v fetch_call = "gotime \<times> gotime \<times> string \<times> duration \<times> (string + 'v)"

fun fetch_all :: "'v stale_cache \<Rightarrow> 'v fetch_call list \<Rightarrow> (string + 'v \<times> bool) list" where
  "fetch_all s [] = []"
| "fetch_all s ((now1, now2, key, ttl, query) # cs) =
     (let (r, s1) = fetch_stale now1 now2 key ttl query s in r # fetch_all s1 cs)"

text \<open>The fresh copy and the stale copy of a key are the value fetched last.\<close>

definition in_sync :: "'v stale_cache \<Rightarrow> bool" where
  "in_sync s \<longleftrightarrow> (\<forall>k it. fresh s k = Some it \<longrightarrow> stale s k = Some (item_val it))"

lemma in_sync_fetch: "in_sync s \<Longrightarrow> in_sync (snd (fetch_stale now1 now2 key ttl query s))"
  by (auto simp: in_sync_def fetch_stale_def do_alone_def mem_set_def split: sum.split option.split)

lemma fetch_stale_answer:
  assumes "in_sync s" and "stale s key = Some v"
  shows "\<exists>w b. fst (fetch_stale now1 now2 key ttl query s) = Inr (w, b)
    \<and> stale (snd (fetch_stale now1 now2 key ttl query s)) key = Some w
    \<and> (w = v \<or> query = Inr w \<and> \<not> b) \<and> (b \<longrightarrow> (\<exists>e. query = Inl e))"
  using assms by (auto simp: in_sync_def fetch_stale_def do_alone_def mem_get_def
      split: sum.split option.splits if_splits)

lemma stale_other: "k \<noteq> key \<Longrightarrow> stale (snd (fetch_stale now1 now2 k ttl query s)) key = stale s key"
  by (auto simp: fetch_stale_def do_alone_def split: sum.split option.split)

lemma fetch_all_answered:
  "in_sync s \<Longrightarrow> stale s key = Some v \<Longrightarrow> i < length cs \<Longrightarrow> fst (snd (snd (cs ! i))) = key \<Longrightarrow>
    \<exists>w b. fetch_all s cs ! i = Inr (w, b) \<and> (b \<longrightarrow> (\<exists>e. snd (snd (snd (snd (cs ! i)))) = Inl e))"
proof (induction cs arbitrary: s v i)
  case Nil
  then show ?case by simp
next
  case (Cons c cs)
  obtain now1 now2 k ttl query where c: "c = (now1, now2, k, ttl, query)" by (cases c) auto
  obtain r s1 where f: "fetch_stale now1 now2 k ttl query s = (r, s1)"
    by (cases "fetch_stale now1 now2 k ttl query s")
  have s1: "in_sync s1" using in_sync_fetch [OF Cons.prems(1)] f by (metis snd_conv)
  show ?case
  proof (cases i)
    case 0
    then have "k = key" using Cons.prems(4) c by simp
    with fetch_stale_answer [OF Cons.prems(1,2), of now1 now2 ttl query] f 0 c show ?thesis by auto
  next
    case (Suc j)
    have "\<exists>w. stale s1 key = Some w"
    proof (cases "k = key")
      case True
      with fetch_stale_answer [OF Cons.prems(1,2), of now1 now2 ttl query] f show ?thesis by auto
    next
      case False
      with stale_other [of k key now1 now2 ttl query s] f Cons.prems(2) show ?thesis by auto
    qed
    then obtain w where "stale s1 key = Some w" by blast
    with Cons.IH [OF s1 this, of j] Cons.prems(3,4) Suc c f show ?thesis by simp
  qed
qed

text \<open>once a key has been fetched, the database can fail for ever and the key stays readable. In any
  sequence of fetches, after a successful one for the key every later one for it answers with a value,
  flagged stale only when the database failed for that very call.\<close>

theorem stale_fallback_available:
  assumes "fetch_stale now1 now2 key ttl (Inr v) s = (Inr (v, False), s1)" and "in_sync s"
    and "i < length cs" and "fst (snd (snd (cs ! i))) = key"
  shows "\<exists>w b. fetch_all s1 cs ! i = Inr (w, b)
    \<and> (b \<longrightarrow> (\<exists>e. snd (snd (snd (snd (cs ! i)))) = Inl e))"
proof -
  have "in_sync s1" using in_sync_fetch [OF assms(2), of now1 now2 key ttl "Inr v"] assms(1) by simp
  moreover have "\<exists>w. stale s1 key = Some w"
    using assms(1,2) by (auto simp: fetch_stale_def do_alone_def in_sync_def mem_get_def
        split: option.splits if_splits sum.splits)
  ultimately show ?thesis using fetch_all_answered [OF _ _ assms(3,4)] by blast
qed

theorem stale_fallback_available_witness:
  "\<exists>w b. fetch_all (snd (fetch_stale 1 1 ''k'' 10 (Inr (5 :: int)) new_stale_cache)) [(50, 50, ''k'', 10, Inl ''down'')] ! 0
     = Inr (w, b)"
proof -
  have "fetch_stale 1 1 ''k'' 10 (Inr (5 :: int)) new_stale_cache
      = (Inr (5, False), snd (fetch_stale 1 1 ''k'' 10 (Inr (5 :: int)) new_stale_cache))"
    by (simp add: fetch_stale_def do_alone_def new_stale_cache_def new_memory_cache_def mem_get_def)
  moreover have "in_sync (new_stale_cache :: int stale_cache)"
    by (simp add: in_sync_def new_stale_cache_def new_memory_cache_def)
  ultimately show ?thesis
    using stale_fallback_available [of 1 1 "''k''" 10 "5 :: int" new_stale_cache _ 0 "[(50, 50, ''k'', 10, Inl ''down'')]"]
    by auto
qed

end
