(* ===== verification/Float64.thy ===== *)
theory Float64
  imports Go_Prelude Complex_Main "HOL-Library.Log_Nat" "HOL-Library.Signed_Division"
begin

text \<open>
  Go's \<open>float64\<close>: IEEE 754 double precision with rounding to nearest, ties to even. A value is a rational number, one of
  the two infinities, or not a number; the sign of zero, which no code of the repository observes, is left out. Every
  operation is the exact one followed by the rounding \<open>round64\<close>, which is computed: \<open>grid_exp\<close> finds the spacing of
  the doubles around a rational, \<open>fl\<close> rounds to a multiple of it. The facts the components use are that the rounding is
  monotone, leaves representable numbers alone, and is off by at most one part in \<open>2 ^ 53\<close>.
\<close>


section \<open>Rounding\<close>

definition round_even :: "rat \<Rightarrow> int" where
  "round_even x =
     (let f = \<lfloor>x\<rfloor>; d = x - of_int f
      in if d < 1 / 2 then f else if 1 / 2 < d then f + 1 else if even f then f else f + 1)"

text \<open>The exponent of the spacing of the doubles at a positive rational.\<close>

definition grid_exp :: "rat \<Rightarrow> int" where
  "grid_exp q =
     (let (a, b) = quotient_of q; k = bitlen a - bitlen b
      in max (- 1074) (if q < 2 powi k then k - 53 else k - 52))"

definition fl :: "rat \<Rightarrow> rat" where
  "fl q = (if q = 0 then 0 else let e = grid_exp \<bar>q\<bar> in of_int (round_even (q / 2 powi e)) * 2 powi e)"

definition representable :: "rat \<Rightarrow> bool" where
  "representable q \<longleftrightarrow> (\<exists>m e. q = of_int m * 2 powi e \<and> \<bar>m\<bar> \<le> 2 ^ 53 \<and> - 1074 \<le> e)"

lemma round_even_near: "\<bar>of_int (round_even x) - x\<bar> \<le> 1 / 2"
proof -
  have "of_int \<lfloor>x\<rfloor> \<le> x" "x < of_int \<lfloor>x\<rfloor> + 1" by linarith+
  then show ?thesis unfolding round_even_def Let_def by (simp add: abs_le_iff; linarith)
qed

lemma round_even_int [simp]: "round_even (of_int n) = n"
  by (simp add: round_even_def)

lemma round_even_mono:
  assumes "x \<le> y"
  shows "round_even x \<le> round_even y"
proof (cases "\<lfloor>x\<rfloor> = \<lfloor>y\<rfloor>")
  case True
  with assms show ?thesis by (auto simp: round_even_def Let_def)
next
  case False
  with assms floor_mono [OF assms] have "\<lfloor>x\<rfloor> + 1 \<le> \<lfloor>y\<rfloor>" by linarith
  moreover have "round_even x \<le> \<lfloor>x\<rfloor> + 1" "\<lfloor>y\<rfloor> \<le> round_even y" by (auto simp: round_even_def Let_def)
  ultimately show ?thesis by linarith
qed

lemma round_even_uminus: "round_even (- x) = - round_even x"
proof (cases "x = of_int \<lfloor>x\<rfloor>")
  case True
  then obtain n where "x = of_int n" by blast
  then have "- x = of_int (- n)" by simp
  then show ?thesis using \<open>x = of_int n\<close> round_even_int by metis
next
  case False
  then have x: "of_int \<lfloor>x\<rfloor> < x" "x < of_int \<lfloor>x\<rfloor> + 1" by linarith+
  then have "\<lfloor>- x\<rfloor> = - \<lfloor>x\<rfloor> - 1" by (intro floor_unique) simp_all
  then show ?thesis using x by (auto simp: round_even_def Let_def)
qed

lemma powi_le: "i \<le> j \<Longrightarrow> (2 :: rat) powi i \<le> 2 powi j"
  by (simp add: power_int_increasing)

lemma powi_plus: "(2 :: rat) powi (i + j) = 2 powi i * 2 powi j"
  by (simp add: power_int_add)

lemma powi_minus: "(2 :: rat) powi (i - j) = 2 powi i / 2 powi j"
  by (simp add: power_int_diff)

lemma bitlen_powi:
  assumes "0 < a"
  shows "2 powi (bitlen a - 1) \<le> (of_int a :: rat)" and "of_int a < (2 :: rat) powi bitlen a"
proof -
  have b: "2 ^ nat (bitlen a - 1) \<le> a" "a < 2 ^ nat (bitlen a)" using bitlen_bounds [OF assms] by auto
  have "0 < bitlen a" using assms bitlen_eq_zero_iff [of a] bitlen_nonneg [of a] by linarith
  then have "2 powi (bitlen a - 1) = (of_int (2 ^ nat (bitlen a - 1)) :: rat)"
    "(2 :: rat) powi bitlen a = of_int (2 ^ nat (bitlen a))"
    by (simp_all add: power_int_def)
  with b show "2 powi (bitlen a - 1) \<le> (of_int a :: rat)" "of_int a < (2 :: rat) powi bitlen a"
    by (simp_all only: of_int_le_iff of_int_less_iff)
qed

lemma grid_exp_bounds:
  assumes "0 < q"
  shows "- 1074 \<le> grid_exp q" and "q < 2 powi (grid_exp q + 53)" and "grid_exp q = - 1074 \<or> 2 powi (grid_exp q + 52) \<le> q"
proof -
  obtain a b where ab: "quotient_of q = (a, b)" by (rule prod.exhaust)
  have q: "q = of_int a / of_int b" using quotient_of_div [OF ab] .
  have b: "0 < b" using quotient_of_denom_pos [OF ab] .
  then have a: "0 < a" using assms q by (simp add: zero_less_divide_iff)
  define k where "k = bitlen a - bitlen b"
  have "2 powi (k - 1) \<le> q"
  proof -
    have "2 powi (k - 1) = 2 powi (bitlen a - 1) / (2 :: rat) powi bitlen b"
      by (simp flip: powi_minus add: k_def algebra_simps)
    also have "\<dots> \<le> of_int a / of_int b"
      using a b bitlen_powi [OF a] bitlen_powi [OF b] by (intro frac_le) (simp_all add: less_imp_le)
    finally show ?thesis by (simp add: q)
  qed
  moreover have "q < 2 powi (k + 1)"
  proof -
    have "q < 2 powi bitlen a / (2 :: rat) powi (bitlen b - 1)"
      unfolding q using a b bitlen_powi [OF a] bitlen_powi [OF b] by (intro frac_less) simp_all
    also have "\<dots> = 2 powi (k + 1)" by (simp flip: powi_minus add: k_def algebra_simps)
    finally show ?thesis .
  qed
  moreover define e where "e = (if q < 2 powi k then k - 53 else k - 52)"
  ultimately have e: "2 powi (e + 52) \<le> q" "q < 2 powi (e + 53)" by (auto simp: e_def add.commute)
  have g: "grid_exp q = max (- 1074) e" by (simp add: grid_exp_def ab k_def e_def)
  show "- 1074 \<le> grid_exp q" by (simp add: g)
  show "grid_exp q = - 1074 \<or> 2 powi (grid_exp q + 52) \<le> q" using e by (auto simp: g max_def)
  have "(2 :: rat) powi (e + 53) \<le> 2 powi (grid_exp q + 53)" by (rule powi_le) (simp add: g)
  with e show "q < 2 powi (grid_exp q + 53)" by linarith
qed

text \<open>Up to the sign, \<open>fl\<close> rounds to a multiple of the spacing.\<close>

lemma fl_grid: "q \<noteq> 0 \<Longrightarrow> fl q = of_int (round_even (q / 2 powi grid_exp \<bar>q\<bar>)) * 2 powi grid_exp \<bar>q\<bar>"
  by (simp add: fl_def Let_def)

lemma fl_zero [simp]: "fl 0 = 0"
  by (simp add: fl_def)

lemma fl_uminus: "fl (- q) = - fl q"
  using round_even_uminus [of "q / 2 powi grid_exp \<bar>q\<bar>"] by (simp add: fl_def Let_def)

lemma scaled_bound: "\<bar>q\<bar> \<le> of_int n * 2 powi e \<Longrightarrow> \<bar>round_even (q / 2 powi e)\<bar> \<le> n"
proof -
  assume "\<bar>q\<bar> \<le> of_int n * 2 powi e"
  then have "\<bar>q / 2 powi e\<bar> \<le> of_int n" by (simp add: abs_divide divide_le_eq)
  then have "- of_int n \<le> q / 2 powi e" "q / 2 powi e \<le> of_int n" by linarith+
  from round_even_mono [OF this(1)] round_even_mono [OF this(2)] round_even_int [of n] round_even_int [of "- n"]
  show ?thesis by (simp add: abs_le_iff)
qed

lemma fl_representable: "representable (fl q)"
proof (cases "q = 0")
  case True
  then have "fl q = of_int 0 * 2 powi 0 \<and> \<bar>0 :: int\<bar> \<le> 2 ^ 53 \<and> - 1074 \<le> (0 :: int)" by simp
  then show ?thesis unfolding representable_def by blast
next
  case False
  let ?e = "grid_exp \<bar>q\<bar>"
  have e: "- 1074 \<le> ?e" "\<bar>q\<bar> < 2 powi (?e + 53)" using False grid_exp_bounds [of "\<bar>q\<bar>"] by simp_all
  then have "\<bar>q\<bar> \<le> of_int (2 ^ 53) * 2 powi ?e" by (simp add: powi_plus)
  then have "\<bar>round_even (q / 2 powi ?e)\<bar> \<le> 2 ^ 53" by (rule scaled_bound)
  then show ?thesis using e fl_grid [OF False] unfolding representable_def by blast
qed

lemma fl_exact:
  assumes "representable q"
  shows "fl q = q"
proof (cases "q = 0")
  case False
  let ?e = "grid_exp \<bar>q\<bar>"
  obtain m k where q: "q = of_int m * 2 powi k" and m: "\<bar>m\<bar> \<le> 2 ^ 53" and k: "- 1074 \<le> k"
    using assms unfolding representable_def by blast
  have "\<exists>n. q = of_int n * 2 powi ?e"
  proof (cases "?e \<le> k")
    case True
    have "(2 :: rat) powi k = 2 powi (k - ?e) * 2 powi ?e" by (simp flip: powi_plus)
    also have "(2 :: rat) powi (k - ?e) = of_int (2 ^ nat (k - ?e))" using True by (simp add: power_int_def)
    finally have "q = of_int (m * 2 ^ nat (k - ?e)) * 2 powi ?e" by (simp add: q)
    then show ?thesis by blast
  next
    case e: False
    have "\<bar>of_int m\<bar> \<le> (2 ^ 53 :: rat)" using m by (metis of_int_abs of_int_le_iff of_int_numeral of_int_power)
    then have up: "\<bar>q\<bar> \<le> 2 powi (k + 53)" by (simp add: q abs_mult powi_plus)
    have "2 powi (?e + 52) \<le> \<bar>q\<bar>" using e k grid_exp_bounds(3) [of "\<bar>q\<bar>"] False by auto
    moreover have "(2 :: rat) powi (k + 53) \<le> 2 powi (?e + 52)" using e by (intro powi_le) linarith
    ultimately have "\<bar>q\<bar> = 2 powi (?e + 52)" using up by linarith
    then have "q = of_int (2 ^ 52) * 2 powi ?e \<or> q = of_int (- (2 ^ 52)) * 2 powi ?e"
      by (auto simp: powi_plus abs_if split: if_splits)
    then show ?thesis by blast
  qed
  then obtain n where n: "q = of_int n * 2 powi ?e" by blast
  then have "q / 2 powi ?e = of_int n" by (simp add: divide_eq_eq)
  then show ?thesis using fl_grid [OF False] n by simp
qed simp

lemma fl_idem [simp]: "fl (fl q) = fl q"
  by (rule fl_exact [OF fl_representable])

lemma fl_mono_pos:
  assumes "0 < p" and "p \<le> q"
  shows "fl p \<le> fl q"
proof (cases "grid_exp p = grid_exp q")
  case True
  have "p / 2 powi grid_exp q \<le> q / 2 powi grid_exp q" using assms(2) by (simp add: divide_right_mono)
  from round_even_mono [OF this] show ?thesis using assms True by (simp add: fl_grid mult_right_mono)
next
  case False
  let ?e = "grid_exp p" and ?f = "grid_exp q"
  note bp = grid_exp_bounds [OF assms(1)] and bq = grid_exp_bounds [OF less_le_trans [OF assms]]
  have "?e < ?f"
  proof (rule ccontr)
    assume "\<not> ?e < ?f"
    with False have lt: "?f < ?e" by linarith
    with bp bq have "2 powi (?e + 52) \<le> p" by linarith
    moreover have "(2 :: rat) powi (?f + 53) \<le> 2 powi (?e + 52)" using lt by (intro powi_le) linarith
    ultimately show False using bq assms(2) by linarith
  qed
  have "round_even (p / 2 powi ?e) \<le> 2 ^ 53"
    using bp(2) assms(1) scaled_bound [of p "2 ^ 53" ?e] by (simp add: powi_plus abs_le_iff)
  then have "(of_int (round_even (p / 2 powi ?e)) :: rat) \<le> of_int (2 ^ 53)" by (simp only: of_int_le_iff)
  then have "fl p \<le> of_int (2 ^ 53) * 2 powi ?e" using assms(1) by (simp add: fl_grid mult_right_mono)
  then have up: "fl p \<le> 2 powi (?e + 53)" by (simp add: powi_plus)
  have "2 powi (?f + 52) \<le> q" using \<open>?e < ?f\<close> bp(1) bq(3) by linarith
  then have "of_int (2 ^ 52) \<le> q / 2 powi ?f" by (simp add: powi_plus le_divide_eq)
  from round_even_mono [OF this] have "2 ^ 52 \<le> round_even (q / 2 powi ?f)" by (simp only: round_even_int)
  then have "(of_int (2 ^ 52) :: rat) \<le> of_int (round_even (q / 2 powi ?f))" by (simp only: of_int_le_iff)
  then have "of_int (2 ^ 52) * 2 powi ?f \<le> fl q" using assms by (simp add: fl_grid mult_right_mono)
  moreover have "(2 :: rat) powi (?e + 53) \<le> 2 powi (?f + 52)" using \<open>?e < ?f\<close> by (intro powi_le) linarith
  ultimately show ?thesis using up by (simp add: powi_plus)
qed

lemma fl_nonneg: "0 \<le> q \<Longrightarrow> 0 \<le> fl q"
proof (cases "q = 0")
  case False
  assume "0 \<le> q"
  then have "of_int 0 \<le> q / 2 powi grid_exp \<bar>q\<bar>" by simp
  from round_even_mono [OF this] have "0 \<le> round_even (q / 2 powi grid_exp \<bar>q\<bar>)" by (simp only: round_even_int)
  then show ?thesis using False by (simp add: fl_grid)
qed simp

lemma fl_mono:
  assumes "p \<le> q"
  shows "fl p \<le> fl q"
proof -
  consider "0 < p" | "q < 0" | "p \<le> 0" "0 \<le> q" by linarith
  then show ?thesis
  proof cases
    case 1
    with assms show ?thesis by (intro fl_mono_pos)
  next
    case 2
    with assms fl_mono_pos [of "- q" "- p"] show ?thesis by (simp add: fl_uminus)
  next
    case 3
    with fl_nonneg [of "- p"] fl_nonneg [of q] show ?thesis by (simp add: fl_uminus)
  qed
qed

text \<open>The error is at most half a spacing.\<close>

lemma fl_error: "\<bar>fl q - q\<bar> \<le> \<bar>q\<bar> / 2 ^ 53 + 1 / 2 ^ 1075"
proof (cases "q = 0")
  case False
  let ?e = "grid_exp \<bar>q\<bar>"
  note b = grid_exp_bounds [of "\<bar>q\<bar>"]
  have q: "q = q / 2 powi ?e * 2 powi ?e" by simp
  have "fl q - q = (of_int (round_even (q / 2 powi ?e)) - q / 2 powi ?e) * 2 powi ?e"
    by (simp add: fl_grid [OF False] left_diff_distrib)
  then have "\<bar>fl q - q\<bar> = \<bar>of_int (round_even (q / 2 powi ?e)) - q / 2 powi ?e\<bar> * 2 powi ?e"
    by (simp add: abs_mult)
  also have "\<dots> \<le> 1 / 2 * 2 powi ?e" by (intro mult_right_mono round_even_near) simp
  finally have err: "\<bar>fl q - q\<bar> \<le> 2 powi ?e / 2" by simp
  from b(3) False consider "?e = - 1074" | "2 powi (?e + 52) \<le> \<bar>q\<bar>" by auto
  then show ?thesis
  proof cases
    case 1
    then have "(2 :: rat) powi ?e / 2 = 1 / 2 ^ 1075" by (simp add: power_int_def power_one_over)
    moreover have "0 \<le> \<bar>q\<bar> / 2 ^ 53" by simp
    ultimately show ?thesis using err by linarith
  next
    case 2
    then have "2 powi ?e / 2 \<le> \<bar>q\<bar> / 2 ^ 53" by (simp add: powi_plus)
    moreover have "(0 :: rat) \<le> 1 / 2 ^ 1075" by simp
    ultimately show ?thesis using err by linarith
  qed
qed simp


lemma fl_upper: "0 \<le> q \<Longrightarrow> fl q \<le> q + q / 2 ^ 53 + 1 / 2 ^ 1075"
  using fl_error [of q] abs_ge_self [of "fl q - q"] by simp

lemma fl_lower: "0 \<le> q \<Longrightarrow> q - q / 2 ^ 53 - 1 / 2 ^ 1075 \<le> fl q"
  using fl_error [of q] abs_ge_minus_self [of "fl q - q"] by simp

lemma tiny: "(1 :: rat) / 2 ^ 1075 \<le> 1 / 2 ^ 60"
  by (intro divide_left_mono power_increasing) simp_all

lemma fl_near: "0 \<le> q \<Longrightarrow> fl q \<le> q + q / 2 ^ 53 + 1 / 2 ^ 60 \<and> q - q / 2 ^ 53 - 1 / 2 ^ 60 \<le> fl q"
  using fl_upper [of q] fl_lower [of q] tiny by linarith

text \<open>The rounding at a known exponent, to evaluate it.\<close>

lemma fl_at:
  assumes "- 1074 \<le> e" and "2 powi (e + 52) \<le> q" and "q < 2 powi (e + 53)"
  shows "fl q = of_int (round_even (q / 2 powi e)) * 2 powi e"
proof -
  have q: "0 < q" using assms(2) zero_less_power_int [of "2 :: rat" "e + 52"] by linarith
  note g = grid_exp_bounds [OF q]
  have "\<not> grid_exp q < e"
  proof
    assume "grid_exp q < e"
    then have "(2 :: rat) powi (grid_exp q + 53) \<le> 2 powi (e + 52)" by (intro powi_le) linarith
    with g(2) assms(2) show False by linarith
  qed
  moreover have "\<not> e < grid_exp q"
  proof
    assume "e < grid_exp q"
    then have "(2 :: rat) powi (e + 53) \<le> 2 powi (grid_exp q + 52)" by (intro powi_le) linarith
    with g(3) assms(1,3) \<open>e < grid_exp q\<close> show False by linarith
  qed
  ultimately have "grid_exp \<bar>q\<bar> = e" using q by simp
  with q show ?thesis by (simp add: fl_grid)
qed

text \<open>Integers up to \<open>2 ^ 53\<close>, and what subtracting one from a number up to that size leaves, are represented.\<close>

lemma representable_int: "\<bar>n\<bar> \<le> 2 ^ 53 \<Longrightarrow> representable (of_int n)"
  unfolding representable_def by (intro exI [of _ n] exI [of _ 0]) simp

lemma representable_scaled: "\<bar>n\<bar> \<le> 2 ^ 53 \<Longrightarrow> representable (of_int n * 2 ^ k)"
  unfolding representable_def by (rule exI [of _ n], rule exI [of _ "int k"]) simp

lemma representable_half: "\<bar>n\<bar> \<le> 2 ^ 53 \<Longrightarrow> representable (of_int n / 2)"
  unfolding representable_def by (rule exI [of _ n], rule exI [of _ "- 1"]) (simp add: power_int_minus_divide)

lemma fl_int [simp]: "\<bar>n\<bar> \<le> 2 ^ 53 \<Longrightarrow> fl (of_int n) = of_int n"
  by (rule fl_exact [OF representable_int])

lemma fl_small: "fl 1 = 1" "fl (- 1) = - 1" "fl 2 = 2"
  using fl_int [of 1] fl_int [of "- 1"] fl_int [of 2] by auto

lemma representable_pred:
  assumes "representable t" and "1 \<le> t" and "t \<le> 2 ^ 53"
  shows "representable (t - 1)"
proof -
  obtain m e where t: "t = of_int m * 2 powi e" and m: "\<bar>m\<bar> \<le> 2 ^ 53" and e: "- 1074 \<le> e"
    using assms(1) unfolding representable_def by blast
  have "0 < m" using assms(2) t by (metis less_le_trans zero_less_one zero_less_mult_iff of_int_0_less_iff
        zero_less_power_int zero_less_numeral less_asym)
  show ?thesis
  proof (cases "e \<le> 0")
    case True
    then have one: "(1 :: rat) = of_int (2 ^ nat (- e)) * 2 powi e" by (simp add: power_int_def power_one_over)
    have "t - 1 = of_int (m - 2 ^ nat (- e)) * 2 powi e"
      unfolding t by (subst one) (simp only: of_int_diff left_diff_distrib)
    moreover have "0 \<le> m - 2 ^ nat (- e)"
    proof -
      have "of_int (2 ^ nat (- e)) * 2 powi e \<le> of_int m * (2 :: rat) powi e" using assms(2) one t by simp
      then have "(of_int (2 ^ nat (- e)) :: rat) \<le> of_int m" by simp
      then show ?thesis by (simp only: of_int_le_iff)
    qed
    moreover have "(0 :: int) \<le> 2 ^ nat (- e)" by simp
    ultimately show ?thesis unfolding representable_def using m e
      by (intro exI [of _ "m - 2 ^ nat (- e)"] exI [of _ e]) linarith
  next
    case False
    then have "t = of_int (m * 2 ^ nat e)" by (simp add: t power_int_def)
    then obtain n where n: "t = of_int n" by blast
    with assms(3) have "n \<le> 2 ^ 53" by (metis of_int_le_iff of_int_numeral of_int_power)
    moreover have "1 \<le> n" using n assms(2) by simp
    ultimately have "\<bar>n - 1\<bar> \<le> 2 ^ 53" by simp
    from representable_int [OF this] show ?thesis by (simp add: n)
  qed
qed


section \<open>Values and operations\<close>

datatype f64 = NaN | NegInf | Finite rat | PosInf

definition round64 :: "rat \<Rightarrow> f64" where
  "round64 q =
     (let r = fl q in if 2 ^ 1024 \<le> r then PosInf else if r \<le> - (2 ^ 1024) then NegInf else Finite r)"

fun f_neg :: "f64 \<Rightarrow> f64" where
  "f_neg (Finite a) = Finite (- a)"
| "f_neg PosInf = NegInf"
| "f_neg NegInf = PosInf"
| "f_neg NaN = NaN"

fun f_add :: "f64 \<Rightarrow> f64 \<Rightarrow> f64" where
  "f_add (Finite a) (Finite b) = round64 (a + b)"
| "f_add NaN y = NaN"
| "f_add x NaN = NaN"
| "f_add PosInf NegInf = NaN"
| "f_add NegInf PosInf = NaN"
| "f_add PosInf y = PosInf"
| "f_add x PosInf = PosInf"
| "f_add NegInf y = NegInf"
| "f_add x NegInf = NegInf"

definition f_sub :: "f64 \<Rightarrow> f64 \<Rightarrow> f64" where
  "f_sub x y = f_add x (f_neg y)"

definition f_inf :: "rat \<Rightarrow> f64" where
  "f_inf s = (if 0 < s then PosInf else if s < 0 then NegInf else NaN)"

fun f_mul :: "f64 \<Rightarrow> f64 \<Rightarrow> f64" where
  "f_mul (Finite a) (Finite b) = round64 (a * b)"
| "f_mul NaN y = NaN"
| "f_mul x NaN = NaN"
| "f_mul PosInf (Finite b) = f_inf b"
| "f_mul NegInf (Finite b) = f_inf (- b)"
| "f_mul (Finite a) PosInf = f_inf a"
| "f_mul (Finite a) NegInf = f_inf (- a)"
| "f_mul PosInf PosInf = PosInf"
| "f_mul NegInf NegInf = PosInf"
| "f_mul PosInf NegInf = NegInf"
| "f_mul NegInf PosInf = NegInf"

text \<open>Division by a constant other than zero, the only one the repository uses.\<close>

fun f_div_const :: "f64 \<Rightarrow> rat \<Rightarrow> f64" where
  "f_div_const (Finite a) c = round64 (a / c)"
| "f_div_const PosInf c = f_inf c"
| "f_div_const NegInf c = f_inf (- c)"
| "f_div_const NaN c = NaN"

text \<open>Comparisons are false when one side is not a number.\<close>

fun f_lt :: "f64 \<Rightarrow> f64 \<Rightarrow> bool" where
  "f_lt (Finite a) (Finite b) = (a < b)"
| "f_lt NegInf (Finite b) = True"
| "f_lt NegInf PosInf = True"
| "f_lt (Finite a) PosInf = True"
| "f_lt x y = False"

definition f_le :: "f64 \<Rightarrow> f64 \<Rightarrow> bool" where
  "f_le x y \<longleftrightarrow> f_lt x y \<or> (x = y \<and> x \<noteq> NaN)"

definition f_of_int :: "int \<Rightarrow> f64" where
  "f_of_int n = round64 (of_int n)"

text \<open>\<open>int64(x)\<close> drops the fraction. What it yields for a value outside the 64-bit range is left to the implementation by the
  Go specification; the function \<open>wild\<close> stands for it.\<close>

definition toward_zero :: "rat \<Rightarrow> int" where
  "toward_zero q = (if 0 \<le> q then \<lfloor>q\<rfloor> else \<lceil>q\<rceil>)"

definition int64_of :: "(f64 \<Rightarrow> int) \<Rightarrow> f64 \<Rightarrow> int" where
  "int64_of wild x =
     (case x of Finite q \<Rightarrow> if in64 (toward_zero q) then toward_zero q else i64 (wild x) | _ \<Rightarrow> i64 (wild x))"

text \<open>\<open>d.Seconds()\<close>.\<close>

definition seconds :: "duration \<Rightarrow> f64" where
  "seconds d = f_add (f_of_int (d sdiv 1000000000)) (f_div_const (f_of_int (d smod 1000000000)) 1000000000)"


text \<open>The Go specification allows a compiler to fuse a product and the addition that uses it into one rounding; \<open>fused\<close> says
  whether it did. The components' theorems hold either way.\<close>

definition f_muladd :: "bool \<Rightarrow> f64 \<Rightarrow> f64 \<Rightarrow> f64 \<Rightarrow> f64" where
  "f_muladd fused x y z =
     (case (x, y, z) of
        (Finite a, Finite b, Finite c) \<Rightarrow> if fused then round64 (a * b + c) else f_add z (f_mul x y)
      | _ \<Rightarrow> f_add z (f_mul x y))"

text \<open>The values a \<open>float64\<close> can have.\<close>

definition f64_value :: "f64 \<Rightarrow> bool" where
  "f64_value x \<longleftrightarrow> (case x of Finite q \<Rightarrow> representable q \<and> \<bar>q\<bar> < 2 ^ 1024 | _ \<Rightarrow> True)"

lemma f64_value_round [simp]: "f64_value (round64 q)"
  by (auto simp: f64_value_def round64_def Let_def fl_representable abs_less_iff)

lemma f64_value_Finite: "f64_value (Finite q) \<longleftrightarrow> fl q = q \<and> \<bar>q\<bar> < 2 ^ 1024"
  using fl_exact fl_representable by (auto simp: f64_value_def) (metis fl_representable)

lemma round64_value: "f64_value (Finite q) \<Longrightarrow> round64 q = Finite q"
  by (auto simp: f64_value_Finite round64_def Let_def abs_less_iff)

text \<open>A rounding that stays below a value of the type does not overflow.\<close>

lemma round64_between:
  assumes "f64_value (Finite a)" and "a \<le> q" and "q \<le> b" and "f64_value (Finite b)"
  shows "round64 q = Finite (fl q) \<and> a \<le> fl q \<and> fl q \<le> b"
proof -
  have "a \<le> fl q" "fl q \<le> b"
    using fl_mono [OF assms(2)] fl_mono [OF assms(3)] assms by (simp_all add: f64_value_Finite)
  with assms show ?thesis by (auto simp: round64_def Let_def f64_value_Finite abs_less_iff)
qed

lemma big_power: "2 ^ 53 < (2 ^ 1024 :: rat)"
  by simp

lemma f64_value_int [simp]: "\<bar>n\<bar> \<le> 2 ^ 53 \<Longrightarrow> f64_value (Finite (of_int n))"
proof -
  assume n: "\<bar>n\<bar> \<le> 2 ^ 53"
  then have "\<bar>of_int n\<bar> \<le> (2 ^ 53 :: rat)" by (metis of_int_abs of_int_le_iff of_int_numeral of_int_power)
  with big_power n show ?thesis by (simp only: f64_value_Finite fl_int) (meson le_less_trans)
qed

lemma f64_value_small [simp]: "f64_value (Finite 0)" "f64_value (Finite 1)" "f64_value (Finite (- 1))"
  using f64_value_int [of 0] f64_value_int [of 1] f64_value_int [of "- 1"] by simp_all

lemma f_of_int_exact: "\<bar>n\<bar> \<le> 2 ^ 53 \<Longrightarrow> f_of_int n = Finite (of_int n)"
  unfolding f_of_int_def by (rule round64_value) simp

text \<open>Away from the smallest numbers the error is relative.\<close>

lemma fl_relative:
  assumes "q = 0 \<or> 1 / 2 ^ 1000 \<le> \<bar>q\<bar>"
  shows "\<bar>fl q - q\<bar> \<le> \<bar>q\<bar> / 2 ^ 52"
proof (cases "q = 0")
  case False
  with assms have "1 / 2 ^ 1000 \<le> \<bar>q\<bar>" by simp
  then have "1 / 2 ^ 1000 / 2 ^ 75 \<le> \<bar>q\<bar> / (2 :: rat) ^ 75" by (rule divide_right_mono) simp
  moreover have "(1 :: rat) / 2 ^ 1000 / 2 ^ 75 = 1 / 2 ^ 1075" by (simp flip: power_add)
  moreover have "\<bar>q\<bar> / (2 :: rat) ^ 75 \<le> \<bar>q\<bar> / 2 ^ 53" by (intro divide_left_mono) simp_all
  ultimately have "1 / 2 ^ 1075 \<le> \<bar>q\<bar> / 2 ^ 53" by linarith
  with fl_error [of q] show ?thesis by simp
qed simp


lemma two_roundings:
  fixes m q r s :: rat
  assumes "0 \<le> m" and "0 \<le> q" and "\<bar>r - q\<bar> \<le> q / 2 ^ 52" and "\<bar>s - (m + r)\<bar> \<le> (m + r) / 2 ^ 52"
  shows "\<bar>s - (m + q)\<bar> \<le> (m + q) / 2 ^ 50"
proof -
  have p: "(2 :: rat) ^ 52 = 4503599627370496" by simp
  have "r \<le> q + q / 4503599627370496" "q - q / 4503599627370496 \<le> r"
    "s \<le> m + r + (m + r) / 4503599627370496" "m + r - (m + r) / 4503599627370496 \<le> s"
    using assms abs_ge_self [of "r - q"] abs_ge_minus_self [of "r - q"] abs_ge_self [of "s - (m + r)"]
      abs_ge_minus_self [of "s - (m + r)"] unfolding p by linarith+
  with assms(1,2) have "s - (m + q) \<le> (m + q) / 1125899906842624" "(m + q) - s \<le> (m + q) / 1125899906842624"
    by (simp_all add: field_simps)
  moreover have "(2 :: rat) ^ 50 = 1125899906842624" by simp
  ultimately show ?thesis by (intro abs_leI) (simp_all only: minus_diff_eq)
qed

text \<open>\<open>Seconds\<close> of a non-negative duration is exact up to one part in \<open>2 ^ 50\<close>.\<close>

lemma seconds_nonneg:
  assumes "0 \<le> d" and "d < 9223372036854775808"
  obtains s where "seconds d = Finite s" and "0 \<le> s" and "f64_value (Finite s)"
    and "\<bar>s - of_int d / 1000000000\<bar> \<le> of_int d / 1000000000 / 2 ^ 50"
proof -
  define m where "m = d div 1000000000"
  define n where "n = d mod 1000000000"
  have n: "0 \<le> n" "n < 1000000000" by (simp_all add: n_def)
  have dm: "d = m * 1000000000 + n" by (simp add: m_def n_def)
  have m: "0 \<le> m" "m \<le> 9223372036" using assms n dm by linarith+
  have div: "d sdiv 1000000000 = m" "d smod 1000000000 = n"
    using assms by (simp_all add: signed_divide_int_def signed_modulo_int_def sgn_if m_def n_def)
  define q where "q = (of_int n :: rat) / 1000000000"
  have q: "0 \<le> q" "q \<le> 1" using n by (simp_all add: q_def)
  have fq: "round64 q = Finite (fl q)" "0 \<le> fl q" "fl q \<le> 1" using round64_between [OF _ q] by simp_all
  have qe: "\<bar>fl q - q\<bar> \<le> q / 2 ^ 52"
  proof (cases "n = 0")
    case False
    with n have "1 / 1000000000 \<le> q" by (simp add: q_def divide_right_mono)
    moreover have "(1 :: rat) / 2 ^ 1000 \<le> 1 / 1000000000" by (intro divide_left_mono) simp_all
    ultimately show ?thesis using fl_relative [of q] q(1) by simp
  qed (simp add: q_def)
  then have q2: "q - q / 2 ^ 52 \<le> fl q" "fl q \<le> q + q / 2 ^ 52" unfolding abs_le_iff by linarith+
  define x where "x = of_int m + fl q"
  have D: "of_int d / 1000000000 = of_int m + q" by (simp add: dm q_def add_divide_distrib)
  have mr: "(0 :: rat) \<le> of_int m" "(of_int m :: rat) \<le> 9223372036" using m by simp_all
  have x: "0 \<le> x" "x \<le> of_int 9223372037" using fq mr by (simp_all add: x_def)
  have fx: "round64 x = Finite (fl x)" "0 \<le> fl x"
    using round64_between [OF f64_value_small(1) x f64_value_int] by simp_all
  have xe: "\<bar>fl x - x\<bar> \<le> x / 2 ^ 52"
  proof (cases "x = 0")
    case False
    have "1 / 2000000000 \<le> x"
    proof (cases "m = 0")
      case True
      then have "n \<noteq> 0" using False by (auto simp: x_def q_def)
      with n have "1 / 1000000000 \<le> q" by (simp add: q_def divide_right_mono)
      moreover have "q / 2 \<le> fl q" using q2(1) q(1) by simp
      ultimately show ?thesis using True by (simp add: x_def)
    next
      case False
      with m have "(1 :: rat) \<le> of_int m" by simp
      with fq show ?thesis by (simp add: x_def)
    qed
    moreover have "(1 :: rat) / 2 ^ 1000 \<le> 1 / 2000000000" by (intro divide_left_mono) simp_all
    ultimately show ?thesis using fl_relative [of x] x(1) by simp
  qed simp
  then have x2: "x - x / 2 ^ 52 \<le> fl x" "fl x \<le> x + x / 2 ^ 52" unfolding abs_le_iff by linarith+
  have "seconds d = Finite (fl x)"
    using m fq fx f_of_int_exact [of m] f_of_int_exact [of n] n
    by (simp add: seconds_def div q_def x_def)
  moreover have "f64_value (Finite (fl x))" using f64_value_round [of x] fx by simp
  moreover have "\<bar>fl x - of_int d / 1000000000\<bar> \<le> of_int d / 1000000000 / 2 ^ 50"
    using two_roundings [OF mr(1) q(1) qe xe [unfolded x_def]] by (simp only: D x_def)
  ultimately show ?thesis using that fx by blast
qed

end
