(* ===== verification/Health_Probes.thy ===== *)
theory Health_Probes
  imports Go_Prelude
begin

text \<open>
  \<open>patterns/01_lifecycle/health_probes.go\<close> and \<open>patterns/01_lifecycle/graceful_startup.go\<close>: the probe
  endpoints with their registered checks, and the validation of dependencies at start-up. A check or pinger is
  a value of type \<open>'c\<close> and \<open>run c\<close> the error its call returns; the orders in which a map of checks is
  visited, and in which concurrent pings answer, are arguments.
\<close>

section \<open>Probes\<close>

datatype health_status = StatusHealthy | StatusUnhealthy

record check_detail =
  cd_status :: health_status
  cd_error :: string

record health_response =
  hr_status :: health_status
  hr_details :: "string \<rightharpoonup> check_detail"

record 'c probe_handler =
  ready_checks :: "string \<rightharpoonup> 'c"
  live_checks :: "string \<rightharpoonup> 'c"
  is_live :: bool
  is_ready :: bool
  is_started :: bool
  check_timeout :: duration

definition new_probe_handler :: "duration \<Rightarrow> 'c probe_handler" where
  "new_probe_handler checkTimeout =
     \<lparr>ready_checks = Map.empty, live_checks = Map.empty, is_live = True, is_ready = False, is_started = False,
      check_timeout = checkTimeout\<rparr>"

definition set_started :: "bool \<Rightarrow> 'c probe_handler \<Rightarrow> 'c probe_handler" where
  "set_started b h = h\<lparr>is_started := b\<rparr>"

definition set_ready :: "bool \<Rightarrow> 'c probe_handler \<Rightarrow> 'c probe_handler" where
  "set_ready b h = h\<lparr>is_ready := b\<rparr>"

definition set_live :: "bool \<Rightarrow> 'c probe_handler \<Rightarrow> 'c probe_handler" where
  "set_live b h = h\<lparr>is_live := b\<rparr>"

definition register_readiness_check :: "string \<Rightarrow> 'c \<Rightarrow> 'c probe_handler \<Rightarrow> 'c probe_handler" where
  "register_readiness_check name check h = h\<lparr>ready_checks := (ready_checks h)(name \<mapsto> check)\<rparr>"

definition register_liveness_check :: "string \<Rightarrow> 'c \<Rightarrow> 'c probe_handler \<Rightarrow> 'c probe_handler" where
  "register_liveness_check name check h = h\<lparr>live_checks := (live_checks h)(name \<mapsto> check)\<rparr>"

text \<open>The loop of \<open>executeChecks\<close>.\<close>

fun check_loop ::
  "('c \<Rightarrow> string option) \<Rightarrow> (string \<rightharpoonup> 'c) \<Rightarrow> bool \<times> (string \<rightharpoonup> check_detail) \<Rightarrow> string list \<Rightarrow> bool \<times> (string \<rightharpoonup> check_detail)" where
  "check_loop run checks acc [] = acc"
| "check_loop run checks (allHealthy, details) (name # names) =
     (case checks name of
        None \<Rightarrow> check_loop run checks (allHealthy, details) names
      | Some check \<Rightarrow>
          (case run check of
             Some err \<Rightarrow> check_loop run checks (False, details(name \<mapsto> \<lparr>cd_status = StatusUnhealthy, cd_error = err\<rparr>)) names
           | None \<Rightarrow> check_loop run checks (allHealthy, details(name \<mapsto> \<lparr>cd_status = StatusHealthy, cd_error = []\<rparr>)) names))"

definition execute_checks ::
  "('c \<Rightarrow> string option) \<Rightarrow> (string \<rightharpoonup> 'c) \<Rightarrow> string list \<Rightarrow> health_response \<times> bool" where
  "execute_checks run checks ks =
     (let (allHealthy, details) = check_loop run checks (True, Map.empty) ks;
          status = (if \<not> allHealthy then StatusUnhealthy else StatusHealthy)
      in (\<lparr>hr_status = status, hr_details = details\<rparr>, allHealthy))"

definition bare_response :: "health_status \<Rightarrow> health_response" where
  "bare_response st = \<lparr>hr_status = st, hr_details = Map.empty\<rparr>"

definition startup_handler :: "'c probe_handler \<Rightarrow> int \<times> health_response" where
  "startup_handler h =
     (if \<not> is_started h then (503, bare_response StatusUnhealthy) else (200, bare_response StatusHealthy))"

definition liveness_handler :: "('c \<Rightarrow> string option) \<Rightarrow> 'c probe_handler \<Rightarrow> string list \<Rightarrow> int \<times> health_response" where
  "liveness_handler run h ks =
     (if \<not> is_live h then (503, bare_response StatusUnhealthy)
      else let (resp, ok) = execute_checks run (live_checks h) ks
           in (if \<not> ok then 503 else 200, resp))"

definition readiness_handler :: "('c \<Rightarrow> string option) \<Rightarrow> 'c probe_handler \<Rightarrow> string list \<Rightarrow> int \<times> health_response" where
  "readiness_handler run h ks =
     (if \<not> is_ready h then (503, bare_response StatusUnhealthy)
      else let (resp, ok) = execute_checks run (ready_checks h) ks
           in (if \<not> ok then 503 else 200, resp))"

definition detail_of :: "string option \<Rightarrow> check_detail" where
  "detail_of err = (case err of None \<Rightarrow> \<lparr>cd_status = StatusHealthy, cd_error = []\<rparr>
     | Some e \<Rightarrow> \<lparr>cd_status = StatusUnhealthy, cd_error = e\<rparr>)"

lemma check_loop_result:
  "check_loop run checks (ok, details) ks
    = (ok \<and> (\<forall>k \<in> set ks. \<forall>c. checks k = Some c \<longrightarrow> run c = None),
       \<lambda>k. if k \<in> set ks \<and> checks k \<noteq> None then Some (detail_of (run (the (checks k)))) else details k)"
proof (induction ks arbitrary: ok details)
  case Nil
  then show ?case by simp
next
  case (Cons k ks)
  show ?case
  proof (cases "checks k")
    case None
    with Cons.IH show ?thesis by (auto simp: fun_eq_iff)
  next
    case (Some c)
    show ?thesis by (cases "run c") (auto simp: Some Cons.IH fun_eq_iff detail_of_def)
  qed
qed

lemma execute_checks_result:
  assumes "iter_order ks checks"
  shows "execute_checks run checks ks
    = (let ok = (\<forall>c \<in> ran checks. run c = None)
       in (\<lparr>hr_status = (if ok then StatusHealthy else StatusUnhealthy),
            hr_details = (\<lambda>k. map_option (\<lambda>c. detail_of (run c)) (checks k))\<rparr>, ok))"
proof -
  have ks: "set ks = dom checks" by (rule iter_orderD(2) [OF assms])
  have "(\<forall>k \<in> set ks. \<forall>c. checks k = Some c \<longrightarrow> run c = None) \<longleftrightarrow> (\<forall>c \<in> ran checks. run c = None)"
    by (auto simp: ks ran_def)
  moreover have "(\<lambda>k. if k \<in> set ks \<and> checks k \<noteq> None then Some (detail_of (run (the (checks k)))) else None)
      = (\<lambda>k. map_option (\<lambda>c. detail_of (run c)) (checks k))" by (auto simp: ks fun_eq_iff split: option.splits)
  ultimately show ?thesis by (auto simp: execute_checks_def check_loop_result Let_def)
qed

text \<open>the probes tell the truth. Readiness answers 200 exactly if the ready flag is set and every registered
  readiness check succeeds, liveness likewise, startup exactly if the started flag is set, and 503 otherwise;
  once the flag is set the body reports every registered check, and no other, with its own error; none of it
  depends on the order in which the checks are visited.\<close>

theorem probes_report_checks:
  assumes "iter_order ks (ready_checks h)" and "iter_order js (live_checks h)"
  shows "fst (readiness_handler run h ks) = (if is_ready h \<and> (\<forall>c \<in> ran (ready_checks h). run c = None) then 200 else 503)
    \<and> fst (liveness_handler run h js) = (if is_live h \<and> (\<forall>c \<in> ran (live_checks h). run c = None) then 200 else 503)
    \<and> fst (startup_handler h) = (if is_started h then 200 else 503)
    \<and> (is_ready h \<longrightarrow> hr_details (snd (readiness_handler run h ks)) = (\<lambda>k. map_option (\<lambda>c. detail_of (run c)) (ready_checks h k)))
    \<and> (is_live h \<longrightarrow> hr_details (snd (liveness_handler run h js)) = (\<lambda>k. map_option (\<lambda>c. detail_of (run c)) (live_checks h k)))"
  by (auto simp: readiness_handler_def liveness_handler_def startup_handler_def Let_def
      execute_checks_result [OF assms(1)] execute_checks_result [OF assms(2)])

theorem probes_report_checks_witness:
  "fst (readiness_handler (\<lambda>c. c) (register_readiness_check ''db'' (Some ''down'') (set_ready True (new_probe_handler 5))) [''db'']) = 503"
proof -
  let ?h = "register_readiness_check ''db'' (Some ''down'') (set_ready True (new_probe_handler 5))"
  have h: "ready_checks ?h = [''db'' \<mapsto> Some ''down'']" "live_checks ?h = Map.empty" "is_ready ?h"
    by (simp_all add: register_readiness_check_def set_ready_def new_probe_handler_def)
  then have "iter_order [''db''] (ready_checks ?h)" "iter_order [] (live_checks ?h)" by (simp_all add: iter_order_def)
  from probes_report_checks [OF this, of "\<lambda>c. c"] h show ?thesis by (simp add: ran_def)
qed


section \<open>Start-up validation\<close>

record 'c dependency =
  dep_name :: string
  critical :: bool
  pinger :: 'c
  dep_timeout :: duration

record 'c startup_validator =
  dependencies :: "'c dependency list"
  total_timeout :: duration

definition new_startup_validator :: "duration \<Rightarrow> 'c startup_validator" where
  "new_startup_validator totalTimeout = \<lparr>dependencies = [], total_timeout = totalTimeout\<rparr>"

definition add_dependency :: "string \<Rightarrow> bool \<Rightarrow> duration \<Rightarrow> 'c \<Rightarrow> 'c startup_validator \<Rightarrow> 'c startup_validator" where
  "add_dependency name crit timeout p v =
     v\<lparr>dependencies := dependencies v @ [\<lparr>dep_name = name, critical = crit, pinger = p, dep_timeout = timeout\<rparr>]\<rparr>"

text \<open>The deadline of a ping that starts at \<open>now\<close> under the overall deadline \<open>limit\<close>.\<close>

definition ping_deadline :: "'c startup_validator \<Rightarrow> gotime \<Rightarrow> gotime \<Rightarrow> 'c dependency \<Rightarrow> gotime" where
  "ping_deadline v limit now d = min limit (now + (if dep_timeout d \<le> 0 then total_timeout v else dep_timeout d))"

text \<open>The results, in the order in which they arrived, and the loop that collects the critical errors.\<close>

fun collect_critical :: "(string \<times> bool \<times> string option) list \<Rightarrow> (string \<times> string) list" where
  "collect_critical [] = []"
| "collect_critical ((name, crit, err) # rs) =
     (case err of
        None \<Rightarrow> collect_critical rs
      | Some e \<Rightarrow> if crit then (name, e) # collect_critical rs else collect_critical rs)"

definition ping_result :: "('c \<Rightarrow> string option) \<Rightarrow> 'c dependency \<Rightarrow> string \<times> bool \<times> string option" where
  "ping_result run d = (dep_name d, critical d, run (pinger d))"

definition validate_all ::
  "('c \<Rightarrow> string option) \<Rightarrow> 'c startup_validator \<Rightarrow> 'c dependency list \<Rightarrow> (string \<times> string) list option" where
  "validate_all run v arrival =
     (let criticalErrors = collect_critical (map (ping_result run) arrival)
      in if criticalErrors \<noteq> [] then Some criticalErrors else None)"

lemma collect_critical_set:
  "set (collect_critical (map (ping_result run) ds))
    = {(dep_name d, e) | d e. d \<in> set ds \<and> critical d \<and> run (pinger d) = Some e}"
  by (induction ds) (auto simp: ping_result_def split: option.splits)

text \<open>Start-up is allowed exactly if every critical dependency answers, in whatever order they do.\<close>

lemma startup_gate:
  assumes "set arrival = set (dependencies v)"
  shows "validate_all run v arrival = None \<longleftrightarrow> (\<forall>d \<in> set (dependencies v). critical d \<longrightarrow> run (pinger d) = None)"
proof -
  have "collect_critical (map (ping_result run) arrival) = []
      \<longleftrightarrow> set (collect_critical (map (ping_result run) arrival)) = {}" by simp
  also have "\<dots> \<longleftrightarrow> (\<forall>d \<in> set arrival. critical d \<longrightarrow> run (pinger d) = None)"
    unfolding collect_critical_set by auto (metis option.exhaust)
  finally show ?thesis by (simp add: validate_all_def Let_def assms)
qed

end
