(* ===== verification/Histogram.thy ===== *)
theory Histogram
  imports Float64 "HOL-Library.Multiset"
begin

text \<open>
  The histogram of \<open>patterns/17_observability/metrics_collector.go\<close>. \<open>sort.Float64s\<close> orders values that are not numbers first;
  with this order \<open>f64\<close> is a linear order, and the library's \<open>sort\<close> is the sorted copy. An index out of range, which panics,
  is \<open>None\<close>.
\<close>

instantiation f64 :: linorder
begin

definition less_f64 :: "f64 \<Rightarrow> f64 \<Rightarrow> bool" where
  "less_f64 x y \<longleftrightarrow> (x = NaN \<and> y \<noteq> NaN) \<or> f_lt x y"

definition less_eq_f64 :: "f64 \<Rightarrow> f64 \<Rightarrow> bool" where
  "less_eq_f64 x y \<longleftrightarrow> x = y \<or> x < (y :: f64)"

instance
proof
  fix x y z :: f64
  show "x < y \<longleftrightarrow> x \<le> y \<and> \<not> y \<le> x" "x \<le> x" "x \<le> y \<Longrightarrow> y \<le> x \<Longrightarrow> x = y" "x \<le> y \<or> y \<le> x"
    by (cases x; cases y; auto simp: less_f64_def less_eq_f64_def)+
  show "x \<le> y \<Longrightarrow> y \<le> z \<Longrightarrow> x \<le> z"
    by (cases x; cases y; cases z; auto simp: less_f64_def less_eq_f64_def)
qed

end

record histogram =
  samples :: "f64 list"

definition new_histogram :: histogram where
  "new_histogram = \<lparr>samples = []\<rparr>"

definition observe :: "histogram \<Rightarrow> f64 \<Rightarrow> histogram" where
  "observe h x = h\<lparr>samples := samples h @ [x]\<rparr>"

definition percentile :: "(f64 \<Rightarrow> int) \<Rightarrow> histogram \<Rightarrow> f64 \<Rightarrow> f64 option" where
  "percentile wild h p =
     (let n = length (samples h); srt = sort (samples h)
      in if n = 0 then Some (Finite 0)
         else if f_le p (Finite 0) then Some (srt ! 0)
         else if f_le (Finite 100) p then Some (srt ! (n - 1))
         else let idx = int64_of wild (f_mul (f_of_int (int n - 1)) (f_div_const p 100))
              in if 0 \<le> idx \<and> idx < int n then Some (srt ! nat idx) else None)"

text \<open>The index the percentile of a number takes.\<close>

definition percentile_index :: "nat \<Rightarrow> f64 \<Rightarrow> nat" where
  "percentile_index n p =
     (if f_le p (Finite 0) then 0 else if f_le (Finite 100) p then n - 1
      else case p of Finite q \<Rightarrow> nat \<lfloor>fl (of_nat (n - 1) * fl (q / 100))\<rfloor> | _ \<Rightarrow> 0)"

lemma percentile_result:
  assumes "samples h \<noteq> []" and "length (samples h) \<le> 2 ^ 53" and "p \<noteq> NaN"
  shows "percentile wild h p = Some (sort (samples h) ! percentile_index (length (samples h)) p)"
    and "percentile_index (length (samples h)) p < length (samples h)"
proof -
  define n where "n = length (samples h)"
  define N where "N = (of_nat (n - 1) :: rat)"
  have n: "0 < n" "int n - 1 \<le> 2 ^ 53" using assms(1,2) by (simp_all add: n_def)
  have N: "f_of_int (int n - 1) = Finite N" "0 \<le> N" "f64_value (Finite N)"
    using f_of_int_exact [of "int n - 1"] f64_value_int [of "int n - 1"] n by (simp_all add: N_def of_nat_diff)
  have "percentile wild h p = Some (sort (samples h) ! percentile_index n p) \<and> percentile_index n p < n"
  proof (cases "f_le p (Finite 0) \<or> f_le (Finite 100) p")
    case True
    then show ?thesis using n by (auto simp: percentile_def percentile_index_def Let_def n_def [symmetric])
  next
    case False
    then obtain q where q: "p = Finite q" "0 < q" "q < 100" using assms(3) by (cases p) (auto simp: f_le_def)
    have "0 \<le> q / 100" "q / 100 \<le> 1" using q by simp_all
    from round64_between [OF f64_value_small(1) this f64_value_small(2)]
    have d: "round64 (q / 100) = Finite (fl (q / 100))" "0 \<le> fl (q / 100)" "fl (q / 100) \<le> 1" by simp_all
    have "0 \<le> N * fl (q / 100)" "N * fl (q / 100) \<le> N" using d N(2) by (simp_all add: mult_left_le)
    from round64_between [OF f64_value_small(1) this N(3)]
    have r: "round64 (N * fl (q / 100)) = Finite (fl (N * fl (q / 100)))" "0 \<le> fl (N * fl (q / 100))" "fl (N * fl (q / 100)) \<le> N"
      by simp_all
    let ?f = "\<lfloor>fl (N * fl (q / 100))\<rfloor>"
    have f: "0 \<le> ?f" "?f \<le> int n - 1" using r floor_mono [OF r(3)] n by (simp_all add: N_def of_nat_diff)
    have "int n - 1 \<le> 9007199254740992" using n(2) by simp
    with f have "in64 ?f" unfolding in64_def by linarith
    then have "int64_of wild (f_mul (f_of_int (int n - 1)) (f_div_const p 100)) = ?f"
      using N(1) d(1) r by (simp add: q(1) int64_of_def toward_zero_def)
    moreover have "percentile_index n p = nat ?f" using False by (simp add: percentile_index_def q(1) N_def)
    moreover have "nat ?f < n" using f n(1) by linarith
    ultimately show ?thesis using False n(1) f by (simp add: percentile_def Let_def flip: n_def)
  qed
  then show "percentile wild h p = Some (sort (samples h) ! percentile_index (length (samples h)) p)"
    "percentile_index (length (samples h)) p < length (samples h)" by (simp_all add: n_def)
qed

lemma percentile_index_mono:
  assumes "p \<le> q" and "p \<noteq> NaN" and "percentile_index n p < n"
  shows "percentile_index n p \<le> percentile_index n q"
proof (cases "f_le p (Finite 0) \<or> f_le (Finite 100) q")
  case True
  have "f_le (Finite 100) q \<Longrightarrow> \<not> f_le q (Finite 0)" by (cases q) (auto simp: f_le_def)
  with True assms(3) show ?thesis by (auto simp: percentile_index_def)
next
  case False
  with assms(1,2) obtain a b where ab: "p = Finite a" "q = Finite b" "a \<le> b"
    by (cases p; cases q) (auto simp: f_le_def less_eq_f64_def less_f64_def)
  have "fl (a / 100) \<le> fl (b / 100)" using ab(3) by (intro fl_mono divide_right_mono) simp_all
  then have "of_nat (n - 1) * fl (a / 100) \<le> of_nat (n - 1) * fl (b / 100)" by (intro mult_left_mono) simp_all
  then have "nat \<lfloor>fl (of_nat (n - 1) * fl (a / 100))\<rfloor> \<le> nat \<lfloor>fl (of_nat (n - 1) * fl (b / 100))\<rfloor>"
    by (intro nat_mono floor_mono fl_mono)
  moreover have "\<not> f_le (Finite 100) p" "\<not> f_le q (Finite 0)" using False ab by (auto simp: f_le_def)
  ultimately show ?thesis using False ab by (simp add: percentile_index_def)
qed

text \<open>Percentiles of a histogram with samples are samples, and a larger percentage never gives a smaller one.\<close>

theorem percentiles_ordered:
  assumes "samples h \<noteq> []" and "length (samples h) \<le> 2 ^ 53" and "p \<noteq> NaN" and "p \<le> q"
  shows "\<exists>v w. percentile wild h p = Some v \<and> percentile wild h q = Some w \<and> v \<in> set (samples h) \<and> w \<in> set (samples h) \<and> v \<le> w"
proof -
  have q: "q \<noteq> NaN" using assms(3,4) by (auto simp: less_eq_f64_def less_f64_def)
  note rp = percentile_result [OF assms(1-3)] and rq = percentile_result [OF assms(1,2) q]
  have "sort (samples h) ! percentile_index (length (samples h)) p \<le> sort (samples h) ! percentile_index (length (samples h)) q"
    using percentile_index_mono [OF assms(4,3) rp(2)] rq(2) by (intro sorted_nth_mono) simp_all
  then show ?thesis using rp rq by (metis length_sort nth_mem set_sort)
qed


theorem percentiles_ordered_witness:
  "\<exists>v w. percentile (\<lambda>x. 0) \<lparr>samples = [Finite 3, Finite 1, PosInf, Finite 2]\<rparr> (Finite 50) = Some v \<and>
    percentile (\<lambda>x. 0) \<lparr>samples = [Finite 3, Finite 1, PosInf, Finite 2]\<rparr> (Finite 95) = Some w \<and>
    v \<in> set [Finite 3, Finite 1, PosInf, Finite 2] \<and> w \<in> set [Finite 3, Finite 1, PosInf, Finite 2] \<and> v \<le> w"
  using percentiles_ordered [of "\<lparr>samples = [Finite 3, Finite 1, PosInf, Finite 2]\<rparr>" "Finite 50" "Finite 95" "\<lambda>x. 0"]
  by (simp add: less_eq_f64_def less_f64_def)

text \<open>The order of the observations does not matter.\<close>

lemma percentile_order_irrelevant:
  "mset xs = mset ys \<Longrightarrow> percentile wild \<lparr>samples = xs\<rparr> p = percentile wild \<lparr>samples = ys\<rparr> p"
  using mset_eq_length [of xs ys] sorted_list_of_multiset_mset [of xs] sorted_list_of_multiset_mset [of ys]
  by (simp add: percentile_def)

text \<open>A percentage that is not a number passes both guards, and its index is whatever the machine converts it to: where that is the
  smallest integer, as on amd64, the access panics.\<close>

lemma percentile_nan_panics:
  "xs \<noteq> [] \<Longrightarrow> wild NaN = - (2 ^ 63) \<Longrightarrow> length xs \<le> 2 ^ 53 \<Longrightarrow> percentile wild \<lparr>samples = xs\<rparr> NaN = None"
  by (cases "f_of_int (int (length xs) - 1)") (simp_all add: percentile_def f_le_def int64_of_def in64_def)

end
