(* ===== verification/Http_Middleware.thy ===== *)
theory Http_Middleware
  imports Go_Strings
begin

text \<open>
  \<open>patterns/11_middleware/middleware_chain.go\<close>, \<open>access_logger.go\<close> and \<open>patterns/07_httpserver/panic_recovery.go\<close>; the
  other middlewares follow in Http_Policies.

  A handler maps a request to what it does to the response writer, in order, and to how it ends: it returns or it
  panics. What reaches the client is computed from that by \<open>client_view\<close>, after \<open>net/http\<close>: the first final status
  counts, a write without one sends 200, the header is fixed when the status is sent, an informational status is not
  final, a code outside 100 to 999 sends nothing (\<open>WriteHeader\<close> panics: it is then the last effect of a handler that ends with
  that panic), the body of an answer to HEAD is taken but not sent, and a panic that reaches the server aborts the
  response. Handlers that declare a length, flush or hijack the connection are not covered. Entries written to a log are
  effects like the others, so that their order and their number are visible. \<open>enc\<close> is the JSON encoding of
  the error bodies, \<open>same\<close> is \<open>strings.EqualFold\<close>.
\<close>


section \<open>Handlers and what the client sees\<close>

record access_log_entry =
  log_method :: string
  log_path :: string
  log_status :: int
  log_bytes :: nat
  log_duration :: duration
  log_remote_addr :: string
  log_user_agent :: string

datatype effect =
    SetHeader string string
  | WriteHeaderTo int
  | WriteBytes string
  | LogAccess access_log_entry
  | LogPanic string
  | RecordMetric string string int duration

datatype handler_exit = Returns | Panics string

record http_request =
  req_method :: string
  req_path :: string
  req_headers :: "string \<rightharpoonup> string"
  req_remote_addr :: string
  ctx_request_id :: "string option"
  ctx_correlation_id :: "string option"

type_synonym handler = "http_request \<Rightarrow> effect list \<times> handler_exit"

definition header_get :: "http_request \<Rightarrow> string \<Rightarrow> string" where
  "header_get r k = (case req_headers r k of Some v \<Rightarrow> v | None \<Rightarrow> [])"

record response_state =
  resp_headers :: "string \<rightharpoonup> string"
  resp_sent :: "(int \<times> (string \<rightharpoonup> string)) option"
  resp_body :: string

definition new_response :: response_state where
  "new_response = \<lparr>resp_headers = Map.empty, resp_sent = None, resp_body = []\<rparr>"

definition final_status :: "int \<Rightarrow> bool" where
  "final_status c \<longleftrightarrow> c = 101 \<or> (200 \<le> c \<and> c \<le> 999)"

definition body_allowed :: "int \<Rightarrow> bool" where
  "body_allowed c \<longleftrightarrow> \<not> (100 \<le> c \<and> c \<le> 199) \<and> c \<noteq> 204 \<and> c \<noteq> 304"

definition send_status :: "int \<Rightarrow> response_state \<Rightarrow> response_state" where
  "send_status c s =
     (if resp_sent s \<noteq> None \<or> \<not> final_status c then s else s\<lparr>resp_sent := Some (c, resp_headers s)\<rparr>)"

definition write_bytes :: "string \<Rightarrow> response_state \<Rightarrow> response_state" where
  "write_bytes b s =
     (let s1 = send_status 200 s in
      case resp_sent s1 of
        Some (c, h) \<Rightarrow> if body_allowed c then s1\<lparr>resp_body := resp_body s1 @ b\<rparr> else s1
      | None \<Rightarrow> s1)"

fun apply_effect :: "effect \<Rightarrow> response_state \<Rightarrow> response_state" where
  "apply_effect (SetHeader k v) s = s\<lparr>resp_headers := (resp_headers s)(k \<mapsto> v)\<rparr>"
| "apply_effect (WriteHeaderTo c) s = send_status c s"
| "apply_effect (WriteBytes b) s = write_bytes b s"
| "apply_effect (LogAccess e) s = s"
| "apply_effect (LogPanic p) s = s"
| "apply_effect (RecordMetric m p c d) s = s"

definition apply_effects :: "effect list \<Rightarrow> response_state \<Rightarrow> response_state" where
  "apply_effects es s = foldl (\<lambda>s e. apply_effect e s) s es"

definition response_status :: "effect list \<Rightarrow> int" where
  "response_status es = (case resp_sent (apply_effects es new_response) of Some (c, h) \<Rightarrow> c | None \<Rightarrow> 200)"

definition response_body :: "effect list \<Rightarrow> string" where
  "response_body es = resp_body (apply_effects es new_response)"

definition response_header :: "effect list \<Rightarrow> string \<Rightarrow> string option" where
  "response_header es =
     (case resp_sent (apply_effects es new_response) of
        Some (c, h) \<Rightarrow> h
      | None \<Rightarrow> resp_headers (apply_effects es new_response))"

definition client_view :: "string \<Rightarrow> effect list \<times> handler_exit \<Rightarrow> (int \<times> (string \<rightharpoonup> string) \<times> string) option" where
  "client_view meth res =
     (case snd res of
        Panics p \<Rightarrow> None
      | Returns \<Rightarrow> Some (response_status (fst res), response_header (fst res),
          if meth = ''HEAD'' then [] else response_body (fst res)))"

lemma apply_effects_simps [simp]:
  "apply_effects [] s = s" "apply_effects (e # es) s = apply_effects es (apply_effect e s)"
  "apply_effects (xs @ ys) s = apply_effects ys (apply_effects xs s)"
  by (simp_all add: apply_effects_def)

lemma send_status_keeps [simp]:
  "resp_headers (send_status c s) = resp_headers s" "resp_body (send_status c s) = resp_body s"
  by (simp_all add: send_status_def)

lemma sent_stays:
  assumes "resp_sent s = Some x"
  shows "resp_sent (apply_effects es s) = Some x"
proof -
  have e: "resp_sent (apply_effect e t) = Some x" if "resp_sent t = Some x" for e t
    using that by (cases e) (auto simp: send_status_def write_bytes_def split: prod.split)
  from assms show ?thesis by (induction es arbitrary: s) (auto simp: e)
qed


section \<open>The chain\<close>

type_synonym middleware = "handler \<Rightarrow> handler"

record chain =
  chain_middlewares :: "middleware list"

definition new_chain :: "middleware list \<Rightarrow> chain" where
  "new_chain ms = \<lparr>chain_middlewares = ms\<rparr>"

definition chain_append :: "chain \<Rightarrow> middleware list \<Rightarrow> chain" where
  "chain_append c ms = \<lparr>chain_middlewares = chain_middlewares c @ ms\<rparr>"

text \<open>The loop of \<open>Then\<close>, with index \<open>i - 1\<close>.\<close>

fun then_loop :: "middleware list \<Rightarrow> nat \<Rightarrow> handler \<Rightarrow> handler" where
  "then_loop ms 0 h = h"
| "then_loop ms (Suc i) h = then_loop ms i ((ms ! i) h)"

definition chain_then :: "handler \<Rightarrow> chain \<Rightarrow> handler option \<Rightarrow> handler" where
  "chain_then defaultMux c finalHandler =
     then_loop (chain_middlewares c) (length (chain_middlewares c))
       (case finalHandler of Some h \<Rightarrow> h | None \<Rightarrow> defaultMux)"

lemma then_loop_foldr: "i \<le> length ms \<Longrightarrow> then_loop ms i h = foldr (\<lambda>m. m) (take i ms) h"
proof (induction i arbitrary: h)
  case (Suc i)
  then have "take (Suc i) ms = take i ms @ [ms ! i]" by (simp add: take_Suc_conv_app_nth)
  with Suc show ?case by simp
qed simp

lemma chain_then_foldr: "chain_then mux c (Some h) = foldr (\<lambda>m. m) (chain_middlewares c) h"
  by (simp add: chain_then_def then_loop_foldr)

lemma chain_then_append: "chain_then mux (chain_append c ms) (Some h) = chain_then mux c (Some (chain_then mux (new_chain ms) (Some h)))"
  by (simp add: chain_then_foldr chain_append_def new_chain_def)

lemma chain_then_cons: "chain_then mux (new_chain (m # ms)) (Some h) = m (chain_then mux (new_chain ms) (Some h))"
  by (simp add: chain_then_foldr new_chain_def)


section \<open>The wrapped response writer\<close>

record rw_wrapper =
  wrap_status :: int
  wrap_bytes :: nat
  wrote_header :: bool

definition new_wrapper :: rw_wrapper where
  "new_wrapper = \<lparr>wrap_status = 200, wrap_bytes = 0, wrote_header = False\<rparr>"

text \<open>What the wrapper passes on to the writer it wraps. It is the only user of that writer, so once it has written the writer has
  the status the wrapper has noted, or 200 when that one was not final; it takes the bytes if its status allows a body.\<close>

definition wrapper_write_header :: "int \<Rightarrow> rw_wrapper \<Rightarrow> effect list \<times> rw_wrapper" where
  "wrapper_write_header c w =
     (if \<not> wrote_header w then ([WriteHeaderTo c], w\<lparr>wrap_status := c, wrote_header := True\<rparr>) else ([], w))"

definition wrapper_write :: "string \<Rightarrow> rw_wrapper \<Rightarrow> effect list \<times> rw_wrapper" where
  "wrapper_write b w =
     (let (es, w1) = (if \<not> wrote_header w then wrapper_write_header 200 w else ([], w));
          n = (if body_allowed (if final_status (wrap_status w1) then wrap_status w1 else 200) then length b else 0)
      in (es @ [WriteBytes b], w1\<lparr>wrap_bytes := wrap_bytes w1 + n\<rparr>))"

fun wrap_effect :: "effect \<Rightarrow> rw_wrapper \<Rightarrow> effect list \<times> rw_wrapper" where
  "wrap_effect (WriteHeaderTo c) w = wrapper_write_header c w"
| "wrap_effect (WriteBytes b) w = wrapper_write b w"
| "wrap_effect e w = ([e], w)"

fun wrap_effects :: "effect list \<Rightarrow> rw_wrapper \<Rightarrow> effect list \<times> rw_wrapper" where
  "wrap_effects [] w = ([], w)"
| "wrap_effects (e # es) w =
     (let (out, w1) = wrap_effect e w; (rest, w2) = wrap_effects es w1 in (out @ rest, w2))"

definition access_logger :: "bool \<Rightarrow> duration \<Rightarrow> middleware" where
  "access_logger writer elapsed nxt r =
     (let (es, exit) = nxt r; (out, w) = wrap_effects es new_wrapper in
      case exit of
        Panics p \<Rightarrow> (out, Panics p)
      | Returns \<Rightarrow>
          (out @ (if writer then [LogAccess \<lparr>log_method = req_method r, log_path = req_path r, log_status = wrap_status w,
                     log_bytes = wrap_bytes w, log_duration = elapsed, log_remote_addr = req_remote_addr r,
                     log_user_agent = header_get r ''User-Agent''\<rparr>] else []), Returns))"

lemma client_view_cong:
  "apply_effects xs new_response = apply_effects ys new_response \<Longrightarrow> client_view m (xs, x) = client_view m (ys, x)"
  unfolding client_view_def response_status_def response_header_def response_body_def fst_conv snd_conv by (erule ssubst) (rule refl)

text \<open>The wrapper and the response it stands for.\<close>

definition wrapper_agrees :: "rw_wrapper \<Rightarrow> response_state \<Rightarrow> bool" where
  "wrapper_agrees w s \<longleftrightarrow>
     wrote_header w = (resp_sent s \<noteq> None) \<and>
     wrap_status w = (case resp_sent s of Some (c, h) \<Rightarrow> c | None \<Rightarrow> 200) \<and> final_status (wrap_status w) \<and>
     wrap_bytes w = length (resp_body s)"

text \<open>A handler that sends no informational and no invalid status.\<close>

definition final_statuses :: "effect list \<Rightarrow> bool" where
  "final_statuses es \<longleftrightarrow> (\<forall>e \<in> set es. case e of WriteHeaderTo c \<Rightarrow> final_status c | _ \<Rightarrow> True)"

lemma wrap_effect_agrees:
  assumes "wrapper_agrees w s" and "final_statuses [e]" and "wrap_effect e w = (out, w1)"
  shows "apply_effects out s = apply_effect e s \<and> wrapper_agrees w1 (apply_effect e s)"
proof (cases e)
  case (WriteHeaderTo c)
  with assms show ?thesis
    by (auto simp: wrapper_write_header_def wrapper_agrees_def send_status_def final_statuses_def split: if_splits)
next
  case (WriteBytes b)
  show ?thesis
  proof (cases "resp_sent s")
    case None
    with WriteBytes assms show ?thesis
      by (auto simp: wrapper_write_def wrapper_write_header_def wrapper_agrees_def send_status_def write_bytes_def
          final_status_def body_allowed_def)
  next
    case (Some x)
    with WriteBytes assms show ?thesis
      by (cases x) (auto simp: wrapper_write_def wrapper_agrees_def send_status_def write_bytes_def Let_def)
  qed
qed (use assms in \<open>auto simp: wrapper_agrees_def\<close>)

lemma wrap_effects_agrees:
  "wrapper_agrees w s \<Longrightarrow> final_statuses es \<Longrightarrow> wrap_effects es w = (out, w1) \<Longrightarrow>
   apply_effects out s = apply_effects es s \<and> wrapper_agrees w1 (apply_effects es s)"
proof (induction es arbitrary: w s out w1)
  case (Cons e es)
  obtain o1 w2 where o1: "wrap_effect e w = (o1, w2)" by (rule prod.exhaust)
  obtain o2 w3 where o2: "wrap_effects es w2 = (o2, w3)" by (rule prod.exhaust)
  have n: "final_statuses [e]" "final_statuses es" using Cons.prems(2) by (simp_all add: final_statuses_def)
  note h = wrap_effect_agrees [OF Cons.prems(1) n(1) o1]
  have "apply_effects o2 (apply_effect e s) = apply_effects es (apply_effect e s) \<and>
      wrapper_agrees w3 (apply_effects es (apply_effect e s))"
    using Cons.IH [OF _ n(2) o2] h by blast
  with h Cons.prems(3) o1 o2 show ?case by auto
qed simp

lemma wrapper_agrees_new: "wrapper_agrees new_wrapper new_response"
  by (simp add: wrapper_agrees_def new_wrapper_def new_response_def final_status_def)

fun access_logs :: "effect list \<Rightarrow> access_log_entry list" where
  "access_logs [] = []"
| "access_logs (LogAccess e # es) = e # access_logs es"
| "access_logs (_ # es) = access_logs es"

lemma access_logs_append [simp]: "access_logs (xs @ ys) = access_logs xs @ access_logs ys"
  by (induction xs rule: access_logs.induct) auto

lemma wrap_effect_logs: "access_logs (fst (wrap_effect e w)) = access_logs [e]"
  by (cases e) (auto simp: wrapper_write_header_def wrapper_write_def Let_def split: prod.split)

lemma wrap_effects_logs: "access_logs (fst (wrap_effects es w)) = access_logs es"
proof (induction es arbitrary: w)
  case (Cons e es)
  obtain o1 w1 where o1: "wrap_effect e w = (o1, w1)" by (rule prod.exhaust)
  obtain o2 w2 where o2: "wrap_effects es w1 = (o2, w2)" by (rule prod.exhaust)
  have "access_logs o1 = access_logs [e]" using wrap_effect_logs [of e w] o1 by simp
  moreover have "access_logs o2 = access_logs es" using Cons.IH [of w1] o2 by simp
  moreover have "access_logs (e # es) = access_logs [e] @ access_logs es"
    by (cases e) simp_all
  ultimately show ?case using o1 o2 by simp
qed simp

lemma access_logger_returns:
  assumes "nxt r = (es, Returns)" and "final_statuses es"
  shows "client_view m (access_logger True d nxt r) = client_view m (nxt r) \<and>
    (\<exists>e. access_logs (fst (access_logger True d nxt r)) = access_logs es @ [e] \<and>
      log_status e = response_status es \<and> log_bytes e = length (response_body es) \<and>
      log_method e = req_method r \<and> log_path e = req_path r \<and> log_duration e = d)"
proof -
  obtain out w where o: "wrap_effects es new_wrapper = (out, w)" by (rule prod.exhaust)
  have a: "apply_effects out new_response = apply_effects es new_response"
    and w: "wrapper_agrees w (apply_effects es new_response)"
    using wrap_effects_agrees [OF wrapper_agrees_new assms(2) o] by simp_all
  have logs: "access_logs out = access_logs es" using wrap_effects_logs [of es new_wrapper] o by simp
  have "client_view m (out @ [LogAccess e], Returns) = client_view m (es, Returns)" for e
    by (rule client_view_cong) (simp add: a)
  then have "client_view m (access_logger True d nxt r) = client_view m (nxt r)"
    by (simp add: access_logger_def assms(1) o)
  with w logs show ?thesis
    by (simp add: access_logger_def assms(1) o wrapper_agrees_def response_status_def response_body_def)
qed

text \<open>A handler that panics is not logged: the entry is not written in a \<open>defer\<close>.\<close>

lemma access_logger_panics:
  assumes "nxt r = (es, Panics p)"
  shows "access_logs (fst (access_logger writer d nxt r)) = access_logs es"
proof -
  obtain out w where o: "wrap_effects es new_wrapper = (out, w)" by (rule prod.exhaust)
  then show ?thesis using wrap_effects_logs [of es new_wrapper] by (simp add: access_logger_def assms)
qed


section \<open>Panic recovery\<close>

definition panic_recovery :: "(string \<Rightarrow> string \<Rightarrow> string) \<Rightarrow> bool \<Rightarrow> middleware" where
  "panic_recovery enc logger nxt r =
     (case nxt r of
        (es, Returns) \<Rightarrow> (es, Returns)
      | (es, Panics p) \<Rightarrow>
          (es @ (if logger then [LogPanic p] else [])
            @ [SetHeader ''Content-Type'' ''application/json'', WriteHeaderTo 500,
               WriteBytes (enc ''internal_server_error'' (''An unexpected panic occurred: '' @ p))], Returns))"

lemma recovery_returns: "snd (panic_recovery enc logger nxt r) = Returns"
  by (simp add: panic_recovery_def split: prod.split handler_exit.split)

lemma recovery_final_statuses:
  "final_statuses (fst (nxt r)) \<Longrightarrow> final_statuses (fst (panic_recovery enc logger nxt r))"
  by (auto simp: panic_recovery_def final_statuses_def final_status_def split: prod.splits handler_exit.splits)

lemma recovery_logs: "access_logs (fst (panic_recovery enc logger nxt r)) = access_logs (fst (nxt r))"
  by (auto simp: panic_recovery_def split: prod.splits handler_exit.splits)

definition header_sent :: "effect list \<Rightarrow> bool" where
  "header_sent es \<longleftrightarrow> resp_sent (apply_effects es new_response) \<noteq> None"

lemma recovery_status:
  assumes "nxt r = (es, Panics p)"
  shows "response_status (fst (panic_recovery enc logger nxt r)) = (if header_sent es then response_status es else 500)"
proof (cases "resp_sent (apply_effects es new_response)")
  case None
  have "resp_sent (apply_effects (fst (panic_recovery enc logger nxt r)) new_response) =
      Some (500, (resp_headers (apply_effects es new_response))(''Content-Type'' \<mapsto> ''application/json''))"
    using None by (cases logger) (simp_all add: panic_recovery_def assms send_status_def write_bytes_def final_status_def body_allowed_def)
  with None show ?thesis by (simp add: response_status_def header_sent_def)
next
  case (Some x)
  have "\<exists>t. fst (panic_recovery enc logger nxt r) = es @ t" by (simp add: panic_recovery_def assms)
  then have "resp_sent (apply_effects (fst (panic_recovery enc logger nxt r)) new_response) = Some x"
    using sent_stays [OF Some] by auto
  with Some show ?thesis by (simp add: response_status_def header_sent_def)
qed

text \<open>The value of the panic is part of the body.\<close>

lemma recovery_shows_panic:
  assumes "nxt r = ([], Panics p)"
  shows "response_body (fst (panic_recovery enc logger nxt r))
    = enc ''internal_server_error'' (''An unexpected panic occurred: '' @ p)"
  using assms
  by (cases logger) (simp_all add: panic_recovery_def response_body_def new_response_def send_status_def write_bytes_def final_status_def body_allowed_def)

text \<open>C28: behind the chain of access logger and panic recovery every request is answered and logged. The handlers further
  in may do anything, panic included, but send only final statuses (101 and 200 to 999). Then the response is not
  aborted, exactly one access log entry is added, it has the request's method and path, the status that the client gets and the number of
  body bytes the handlers wrote, which is the length of the client's body unless the request is a HEAD; what handlers that
  return sent reaches the client unchanged; and a handler that panics before it has sent a status is answered with 500. What
  happens with other statuses is \<open>early_hints_lost\<close> and \<open>invalid_status_logged\<close>.\<close>

theorem logged_and_recovered:
  assumes "inner = chain_then mux (new_chain ms) (Some h)" and "final_statuses (fst (inner r))"
    and "res = chain_then mux (new_chain (access_logger True d # panic_recovery enc logger # ms)) (Some h) r"
  shows "\<exists>st hs body e. client_view (req_method r) res = Some (st, hs, body) \<and>
    access_logs (fst res) = access_logs (fst (inner r)) @ [e] \<and>
    log_status e = st \<and> (req_method r \<noteq> ''HEAD'' \<longrightarrow> log_bytes e = length body) \<and>
    log_method e = req_method r \<and> log_path e = req_path r \<and> log_duration e = d \<and>
    (snd (inner r) = Returns \<longrightarrow> client_view (req_method r) res = client_view (req_method r) (inner r)
       \<and> log_bytes e = length (response_body (fst (inner r)))) \<and>
    (snd (inner r) \<noteq> Returns \<and> \<not> header_sent (fst (inner r)) \<longrightarrow> st = 500)"
proof -
  let ?n = "panic_recovery enc logger inner"
  have res: "res = access_logger True d ?n r" using assms by (simp add: chain_then_cons)
  obtain es x where es: "?n r = (es, x)" by (rule prod.exhaust)
  then have n: "?n r = (es, Returns)" using recovery_returns [of enc logger inner r] by simp
  have ni: "final_statuses es" using recovery_final_statuses [where nxt = inner and r = r and enc = enc and logger = logger] assms(2) n by simp
  have "access_logs es = access_logs (fst (inner r))" using recovery_logs [of enc logger inner r] n by simp
  with access_logger_returns [where nxt = ?n and r = r and es = es and d = d and m = "req_method r", OF n ni] obtain e where
    "client_view (req_method r) res = client_view (req_method r) (?n r)" "access_logs (fst res) = access_logs (fst (inner r)) @ [e]"
    "log_status e = response_status es" "log_bytes e = length (response_body es)" "log_path e = req_path r"
    "log_method e = req_method r" "log_duration e = d"
    unfolding res by auto
  moreover have "response_status es = 500" if p: "snd (inner r) \<noteq> Returns" "\<not> header_sent (fst (inner r))"
  proof -
    obtain es0 q where "inner r = (es0, Panics q)" using p(1) by (cases "inner r"; cases "snd (inner r)") auto
    then show ?thesis using recovery_status [of inner r es0 q enc logger] p(2) n by simp
  qed
  moreover have "inner r = (es, Returns)" if "snd (inner r) = Returns"
    using that n by (cases "inner r") (simp add: panic_recovery_def)
  moreover have "client_view (req_method r) (es, Returns) = Some (response_status es, response_header es,
      if req_method r = ''HEAD'' then [] else response_body es)" by (simp add: client_view_def)
  ultimately show ?thesis unfolding n by auto
qed

theorem logged_and_recovered_witness:
  "\<exists>st hs body. client_view ''GET'' (chain_then (\<lambda>r. ([], Returns))
      (new_chain [access_logger True 5, panic_recovery (\<lambda>a b. b) True]) (Some (\<lambda>r. ([SetHeader ''a'' ''b''], Panics ''boom'')))
      \<lparr>req_method = ''GET'', req_path = ''/'', req_headers = Map.empty, req_remote_addr = [], ctx_request_id = None,
       ctx_correlation_id = None\<rparr>) = Some (st, hs, body) \<and> st = 500"
proof -
  let ?h = "(\<lambda>r. ([SetHeader ''a'' ''b''], Panics ''boom'')) :: handler"
  let ?inner = "chain_then (\<lambda>r. ([], Returns)) (new_chain []) (Some ?h)"
  let ?r = "\<lparr>req_method = ''GET'', req_path = ''/'', req_headers = Map.empty, req_remote_addr = [], ctx_request_id = None,
       ctx_correlation_id = None\<rparr> :: http_request"
  have i: "?inner ?r = ([SetHeader ''a'' ''b''], Panics ''boom'')" by (simp add: chain_then_foldr new_chain_def)
  have "final_statuses (fst (?inner ?r))" by (simp only: i) (simp add: final_statuses_def)
  from logged_and_recovered [OF refl this refl, of 5 "\<lambda>a b. b" True] show ?thesis
    by (auto simp: i header_sent_def new_response_def)
qed

text \<open>In the opposite order a panic is answered but not logged.\<close>

lemma recovery_outside_loses_log:
  assumes "inner r = (es, Panics p)"
  shows "access_logs (fst (panic_recovery enc logger (access_logger True d inner) r)) = access_logs es"
  using recovery_logs [of enc logger "access_logger True d inner" r] access_logger_panics [where nxt = inner and r = r and writer = True and d = d, OF assms] by simp

text \<open>The wrapper takes an informational status for the final one: a handler that first sends \<open>103 Early Hints\<close> and then
  \<open>404\<close> is answered with 200, and logged with 103.\<close>

lemma early_hints_lost:
  assumes "nxt r = ([WriteHeaderTo 103, WriteHeaderTo 404], Returns)"
  shows "response_status (fst (nxt r)) = 404 \<and> response_status (fst (access_logger True d nxt r)) = 200"
  using assms by (simp add: access_logger_def new_wrapper_def wrapper_write_header_def response_status_def new_response_def
      send_status_def final_status_def)

text \<open>A code that \<open>net/http\<close> refuses: \<open>WriteHeader\<close> panics after the wrapper has noted the code, so the 500 of the recovery
  is dropped, the client gets 200 with the error body, and the log says 0.\<close>

lemma invalid_status_logged:
  assumes "nxt r = ([WriteHeaderTo 0], Panics p)"
  shows "response_status (fst (access_logger True d (panic_recovery enc False nxt) r)) = 200
    \<and> map log_status (access_logs (fst (access_logger True d (panic_recovery enc False nxt) r))) = [0]"
  using assms by (simp add: access_logger_def panic_recovery_def new_wrapper_def wrapper_write_header_def wrapper_write_def
      response_status_def new_response_def send_status_def write_bytes_def final_status_def body_allowed_def)

text \<open>The bytes logged for a HEAD request are not sent.\<close>

lemma head_bytes_logged:
  assumes "nxt r = ([WriteBytes b], Returns)" and "req_method r = ''HEAD''"
  shows "client_view (req_method r) (access_logger True d nxt r) = Some (200, Map.empty, [])
    \<and> map log_bytes (access_logs (fst (access_logger True d nxt r))) = [length b]"
  using assms by (simp add: client_view_def response_header_def access_logger_def new_wrapper_def wrapper_write_header_def wrapper_write_def
      response_status_def new_response_def send_status_def write_bytes_def final_status_def body_allowed_def)

end
