(* ===== verification/Http_Policies.thy ===== *)
theory Http_Policies
  imports Http_Middleware
begin

text \<open>
  The remaining middlewares of \<open>patterns/11_middleware\<close> and \<open>patterns/07_httpserver\<close> on the handlers of
  \<open>Http_Middleware\<close>: security headers, CORS (\<open>security_cors.go\<close>), request and correlation ids
  (\<open>request_correlation_id.go\<close>), required content types (\<open>body_limit.go\<close>), the time-out
  (\<open>timeout_middleware.go\<close>), the metrics (\<open>metrics_tracing.go\<close>) and the client address of the rate limiter
  (\<open>rate_limit_middleware.go\<close>). \<open>parse_media\<close> is \<open>mime.ParseMediaType\<close>, \<open>split_host\<close> is
  \<open>net.SplitHostPort\<close>.
\<close>


section \<open>Headers that stay\<close>

definition sets_header :: "string \<Rightarrow> effect list \<Rightarrow> bool" where
  "sets_header k es \<longleftrightarrow> (\<exists>v. SetHeader k v \<in> set es)"

definition header_of :: "response_state \<Rightarrow> string \<Rightarrow> string option" where
  "header_of s = (case resp_sent s of Some (c, h) \<Rightarrow> h | None \<Rightarrow> resp_headers s)"

lemma response_header_of: "response_header es = header_of (apply_effects es new_response)"
  by (simp add: response_header_def header_of_def)

lemma header_untouched: "\<not> sets_header k es \<Longrightarrow> resp_sent s = None \<Longrightarrow> header_of (apply_effects es s) k = resp_headers s k"
proof (induction es arbitrary: s)
  case Nil
  then show ?case by (simp add: header_of_def)
next
  case (Cons e es)
  have n: "\<not> sets_header k es" using Cons.prems(1) by (auto simp: sets_header_def)
  have h: "resp_headers (apply_effect e s) k = resp_headers s k"
    using Cons.prems(1) by (cases e) (auto simp: sets_header_def write_bytes_def Let_def split: option.split)
  show ?case
  proof (cases "resp_sent (apply_effect e s)")
    case None
    with Cons.IH [OF n None] h show ?thesis by simp
  next
    case (Some x)
    then have "snd x = resp_headers s"
      using Cons.prems(2) by (cases e) (auto simp: send_status_def write_bytes_def Let_def split: if_splits option.splits)
    moreover have "resp_sent (apply_effects es (apply_effect e s)) = Some x" by (rule sent_stays [OF Some])
    ultimately show ?thesis by (cases x) (simp add: header_of_def)
  qed
qed

lemma header_set_before:
  assumes "\<not> sets_header k es" and "resp_sent (apply_effects pre new_response) = None"
  shows "response_header (pre @ es) k = resp_headers (apply_effects pre new_response) k"
  using header_untouched [OF assms] by (simp add: response_header_of)


section \<open>Security headers and CORS\<close>

definition security_headers :: middleware where
  "security_headers nxt r =
     (let (es, x) = nxt r in
      ([SetHeader ''X-Content-Type-Options'' ''nosniff'', SetHeader ''X-Frame-Options'' ''DENY'',
        SetHeader ''Strict-Transport-Security'' ''max-age=63072000; includeSubDomains; preload'',
        SetHeader ''Content-Security-Policy'' (''default-src '' @ [CHR 0x27] @ ''self'' @ [CHR 0x27]),
        SetHeader ''Referrer-Policy'' ''strict-origin-when-cross-origin''] @ es, x))"

record cors_config =
  allowed_origins :: "string list"
  allowed_methods :: "string list"
  allowed_headers :: "string list"
  max_age_seconds :: int

definition origin_allowed :: "(string \<Rightarrow> string \<Rightarrow> bool) \<Rightarrow> cors_config \<Rightarrow> string \<Rightarrow> bool" where
  "origin_allowed same cfg origin \<longleftrightarrow> (\<exists>o' \<in> set (allowed_origins cfg). o' = ''*'' \<or> same o' origin)"

definition cors_headers :: "(string \<Rightarrow> string \<Rightarrow> bool) \<Rightarrow> cors_config \<Rightarrow> string \<Rightarrow> effect list" where
  "cors_headers same cfg origin =
     (if origin \<noteq> [] \<and> origin_allowed same cfg origin then
        [SetHeader ''Access-Control-Allow-Origin'' origin]
        @ (if 0 < length (allowed_methods cfg)
           then [SetHeader ''Access-Control-Allow-Methods'' (join_comma (allowed_methods cfg))] else [])
        @ (if 0 < length (allowed_headers cfg)
           then [SetHeader ''Access-Control-Allow-Headers'' (join_comma (allowed_headers cfg))] else [])
      else [])"

definition cors_middleware :: "(string \<Rightarrow> string \<Rightarrow> bool) \<Rightarrow> cors_config \<Rightarrow> middleware" where
  "cors_middleware same cfg nxt r =
     (let hs = cors_headers same cfg (header_get r ''Origin'') in
      if req_method r = ''OPTIONS'' then (hs @ [WriteHeaderTo 204], Returns)
      else (let (es, x) = nxt r in (hs @ es, x)))"

lemma set_headers_not_sent:
  "\<forall>e \<in> set es. \<exists>k v. e = SetHeader k v \<Longrightarrow> resp_sent (apply_effects es s) = resp_sent s"
  by (induction es arbitrary: s) auto

lemma cors_headers_state:
  "resp_sent (apply_effects (cors_headers same cfg origin) new_response) = None"
  "resp_headers (apply_effects (cors_headers same cfg origin) new_response) ''Access-Control-Allow-Origin''
     = (if origin \<noteq> [] \<and> origin_allowed same cfg origin then Some origin else None)"
  by (simp_all add: cors_headers_def new_response_def)

text \<open>The response tells the browser that an origin may read it only if the configuration allows that origin, and then it
  names the origin of the request; a preflight request is answered with 204 and never reaches the handler.\<close>

theorem cors_allows_configured_only:
  assumes "\<not> sets_header ''Access-Control-Allow-Origin'' (fst (nxt r))"
  shows "response_header (fst (cors_middleware same cfg nxt r)) ''Access-Control-Allow-Origin''
      = (let origin = header_get r ''Origin''
         in if origin \<noteq> [] \<and> origin_allowed same cfg origin then Some origin else None) \<and>
    (req_method r = ''OPTIONS'' \<longrightarrow> snd (cors_middleware same cfg nxt r) = Returns \<and>
       response_status (fst (cors_middleware same cfg nxt r)) = 204)"
proof -
  define hs where "hs = cors_headers same cfg (header_get r ''Origin'')"
  have sent: "resp_sent (apply_effects hs new_response) = None" unfolding hs_def by (rule cors_headers_state)
  have hd: "response_header (hs @ es) ''Access-Control-Allow-Origin''
      = (let origin = header_get r ''Origin''
         in if origin \<noteq> [] \<and> origin_allowed same cfg origin then Some origin else None)"
    if "\<not> sets_header ''Access-Control-Allow-Origin'' es" for es
    using header_set_before [OF that sent] by (simp add: hs_def cors_headers_state Let_def)
  have no: "\<not> sets_header ''Access-Control-Allow-Origin'' [WriteHeaderTo 204]" by (simp add: sets_header_def)
  have st: "response_status (hs @ [WriteHeaderTo 204]) = 204"
    using sent by (simp add: response_status_def send_status_def final_status_def)
  obtain es x where n: "nxt r = (es, x)" by (rule prod.exhaust)
  show ?thesis
  proof (cases "req_method r = ''OPTIONS''")
    case True
    then show ?thesis using hd [OF no] st by (simp only: cors_middleware_def hs_def [symmetric] Let_def if_True fst_conv snd_conv)
        simp
  next
    case False
    then show ?thesis using hd [of es] assms n
      by (simp only: cors_middleware_def hs_def [symmetric] Let_def if_False fst_conv prod.case simp_thms)
  qed
qed

lemma cors_allows_configured_only_witness:
  "response_header (fst (cors_middleware (=) \<lparr>allowed_origins = [''a''], allowed_methods = [], allowed_headers = [], max_age_seconds = 0\<rparr>
      (\<lambda>r. ([], Returns)) \<lparr>req_method = ''GET'', req_path = ''/'', req_headers = Map.empty(''Origin'' \<mapsto> ''b''), req_remote_addr = [],
        ctx_request_id = None, ctx_correlation_id = None\<rparr>)) ''Access-Control-Allow-Origin'' = None"
proof -
  let ?cfg = "\<lparr>allowed_origins = [''a''], allowed_methods = [], allowed_headers = [], max_age_seconds = 0\<rparr>"
  let ?r = "\<lparr>req_method = ''GET'', req_path = ''/'', req_headers = Map.empty(''Origin'' \<mapsto> ''b''), req_remote_addr = [],
        ctx_request_id = None, ctx_correlation_id = None\<rparr> :: http_request"
  let ?h = "(\<lambda>r. ([], Returns)) :: handler"
  have "\<not> sets_header ''Access-Control-Allow-Origin'' (fst (?h ?r))" by (simp add: sets_header_def)
  from cors_allows_configured_only [OF this, of "(=)" ?cfg] show ?thesis
    by (simp add: header_get_def origin_allowed_def Let_def)
qed

text \<open>The configured maximal age of a preflight answer is never sent.\<close>

lemma max_age_unused: "cors_middleware same (cfg\<lparr>max_age_seconds := n\<rparr>) = cors_middleware same cfg"
  by (intro ext) (simp add: cors_middleware_def cors_headers_def origin_allowed_def)


section \<open>Request and correlation ids\<close>

text \<open>\<open>random_bytes\<close> are the 16 bytes that \<open>GenerateID\<close> reads, should it be called.\<close>

definition generate_id :: "string \<Rightarrow> string" where
  "generate_id random_bytes = hex_encode random_bytes"

definition request_ids :: "string \<Rightarrow> middleware" where
  "request_ids random_bytes nxt r =
     (let reqID0 = trim_space (header_get r ''X-Request-ID'');
          reqID = (if reqID0 = [] then generate_id random_bytes else reqID0);
          corrID0 = trim_space (header_get r ''X-Correlation-ID'');
          corrID = (if corrID0 = [] then reqID else corrID0);
          (es, x) = nxt (r\<lparr>ctx_request_id := Some reqID, ctx_correlation_id := Some corrID\<rparr>)
      in ([SetHeader ''X-Request-ID'' reqID, SetHeader ''X-Correlation-ID'' corrID] @ es, x))"

definition get_request_id :: "http_request \<Rightarrow> string" where
  "get_request_id r = (case ctx_request_id r of Some v \<Rightarrow> v | None \<Rightarrow> [])"

definition get_correlation_id :: "http_request \<Rightarrow> string" where
  "get_correlation_id r = (case ctx_correlation_id r of Some v \<Rightarrow> v | None \<Rightarrow> [])"

text \<open>The request with which the next handler is called.\<close>

definition identified :: "string \<Rightarrow> http_request \<Rightarrow> http_request" where
  "identified random_bytes r =
     (let reqID0 = trim_space (header_get r ''X-Request-ID'');
          reqID = (if reqID0 = [] then generate_id random_bytes else reqID0);
          corrID0 = trim_space (header_get r ''X-Correlation-ID'');
          corrID = (if corrID0 = [] then reqID else corrID0)
      in r\<lparr>ctx_request_id := Some reqID, ctx_correlation_id := Some corrID\<rparr>)"

lemma request_ids_next:
  "request_ids b nxt r =
     ([SetHeader ''X-Request-ID'' (get_request_id (identified b r)),
       SetHeader ''X-Correlation-ID'' (get_correlation_id (identified b r))] @ fst (nxt (identified b r)),
      snd (nxt (identified b r)))"
  by (simp add: request_ids_def identified_def get_request_id_def get_correlation_id_def Let_def split: prod.split)

text \<open>Every request has both ids, the client reads in the response the ids the handler saw, and a service that passes its correlation
  id on in the header of a further request sees the same id there.\<close>

lemma ids_present:
  assumes "random_bytes \<noteq> []"
  shows "get_request_id (identified random_bytes r) \<noteq> [] \<and> get_correlation_id (identified random_bytes r) \<noteq> []"
proof -
  have "hex_encode random_bytes \<noteq> []" using assms by (cases random_bytes) auto
  then show ?thesis
    by (simp add: identified_def get_request_id_def get_correlation_id_def generate_id_def Let_def)
qed

lemma ids_in_response:
  assumes "\<not> sets_header ''X-Request-ID'' (fst (nxt (identified b r)))"
    and "\<not> sets_header ''X-Correlation-ID'' (fst (nxt (identified b r)))"
  shows "response_header (fst (request_ids b nxt r)) ''X-Request-ID'' = Some (get_request_id (identified b r)) \<and>
    response_header (fst (request_ids b nxt r)) ''X-Correlation-ID'' = Some (get_correlation_id (identified b r))"
proof -
  let ?pre = "[SetHeader ''X-Request-ID'' (get_request_id (identified b r)),
       SetHeader ''X-Correlation-ID'' (get_correlation_id (identified b r))]"
  have "resp_sent (apply_effects ?pre new_response) = None" by (simp add: new_response_def)
  from header_set_before [OF assms(1) this] header_set_before [OF assms(2) this] show ?thesis
    unfolding request_ids_next fst_conv by simp
qed

lemma hex_trim: "trim_space (hex_encode s) = hex_encode s"
proof (cases s)
  case (Cons c cs)
  have no: "c \<notin> set (hex_encode s)" if "hex_val c = None" for c using hex_encode_no_char [OF that] .
  have ne: "hex_encode s \<noteq> []" using Cons by simp
  have "hex_val c = None" if "space_start c \<or> space_end c" for c
    using that by (auto simp: space_start_def space_end_def space_runes_def hex_val_def)
  then have "\<not> space_start (hd (hex_encode s)) \<and> \<not> space_end (last (hex_encode s))"
    using no hd_in_set [OF ne] last_in_set [OF ne] by blast
  then show ?thesis by (intro trim_space_id) simp_all
qed simp

lemma identified_ids:
  "get_request_id (identified b r) =
     (if trim_space (header_get r ''X-Request-ID'') = [] then hex_encode b else trim_space (header_get r ''X-Request-ID''))"
  "get_correlation_id (identified b r) =
     (if trim_space (header_get r ''X-Correlation-ID'') = [] then get_request_id (identified b r)
      else trim_space (header_get r ''X-Correlation-ID''))"
  by (simp_all add: identified_def get_request_id_def get_correlation_id_def generate_id_def Let_def)

lemma correlation_propagates:
  assumes "header_get r2 ''X-Correlation-ID'' = get_correlation_id (identified b r1)" and "b \<noteq> []"
  shows "get_correlation_id (identified b2 r2) = get_correlation_id (identified b r1)"
proof -
  have "trim_space (get_correlation_id (identified b r1)) = get_correlation_id (identified b r1)"
    by (simp add: identified_ids hex_trim)
  moreover have "get_correlation_id (identified b r1) \<noteq> []" using ids_present [OF assms(2)] by simp
  ultimately show ?thesis unfolding identified_ids(2) [of b2 r2] assms(1) by simp
qed


section \<open>Content types\<close>

text \<open>\<open>http.Error\<close>.\<close>

definition http_error :: "string \<Rightarrow> int \<Rightarrow> effect list" where
  "http_error message c =
     [SetHeader ''Content-Type'' ''text/plain; charset=utf-8'', SetHeader ''X-Content-Type-Options'' ''nosniff'',
      WriteHeaderTo c, WriteBytes (message @ [CHR 0x0A])]"

definition require_content_type ::
  "(string \<Rightarrow> string \<Rightarrow> bool) \<Rightarrow> (string \<Rightarrow> string option) \<Rightarrow> string \<Rightarrow> middleware" where
  "require_content_type same parse_media expectedMediaType nxt r =
     (if req_method r = ''GET'' \<or> req_method r = ''HEAD'' \<or> req_method r = ''OPTIONS'' then nxt r
      else
        (let contentType = header_get r ''Content-Type'' in
         if trim_space contentType = [] then (http_error ''missing Content-Type header'' 415, Returns)
         else (case parse_media contentType of
                 None \<Rightarrow>
                   (http_error (''invalid or unsupported Content-Type header (expected: '' @ expectedMediaType @ '', got: '' @ contentType @ '')'') 415,
                    Returns)
               | Some mediaType \<Rightarrow>
                   if \<not> same mediaType expectedMediaType then
                     (http_error (''invalid or unsupported Content-Type header (expected: '' @ expectedMediaType @ '', got: '' @ contentType @ '')'') 415,
                      Returns)
                   else nxt r)))"

lemma http_error_status: "response_status (http_error m c) = c" if "final_status c"
  using that by (simp add: http_error_def response_status_def new_response_def send_status_def write_bytes_def Let_def)

text \<open>A request that may have a body reaches the handler only with the expected media type; otherwise it is answered with 415.\<close>

lemma content_type_required:
  "require_content_type same parse_media expected nxt r = nxt r \<or>
   (req_method r \<notin> {''GET'', ''HEAD'', ''OPTIONS''} \<and>
    (\<forall>m. parse_media (header_get r ''Content-Type'') = Some m \<longrightarrow> same m expected \<longrightarrow> trim_space (header_get r ''Content-Type'') = []) \<and>
    snd (require_content_type same parse_media expected nxt r) = Returns \<and>
    response_status (fst (require_content_type same parse_media expected nxt r)) = 415)"
proof -
  have s: "response_status (http_error m 415) = 415" for m by (rule http_error_status) (simp add: final_status_def)
  show ?thesis by (simp add: require_content_type_def Let_def s split: option.split)
qed


section \<open>Time-out\<close>

text \<open>The handler runs in a goroutine of its own. When it panics its \<open>defer\<close> first puts the value into the buffered
  \<open>panicChan\<close>, then closes \<open>done\<close>. The middleware takes one of the cases of its \<open>select\<close> that are ready.\<close>

datatype handler_progress = StillRunning | PanicReported string | HandlerDone handler_exit

datatype timeout_choice = TakePanic | TakeDone | TakeDeadline

definition choice_ready :: "handler_progress \<Rightarrow> bool \<Rightarrow> timeout_choice \<Rightarrow> bool" where
  "choice_ready g deadline c =
     (case c of
        TakePanic \<Rightarrow> (case g of PanicReported p \<Rightarrow> True | HandlerDone (Panics p) \<Rightarrow> True | _ \<Rightarrow> False)
      | TakeDone \<Rightarrow> (case g of HandlerDone x \<Rightarrow> True | _ \<Rightarrow> False)
      | TakeDeadline \<Rightarrow> deadline)"

text \<open>\<open>before\<close> and \<open>after\<close> are the effects of the handler before and after the time-out; both go to the same writer.\<close>

definition timeout_result ::
  "(string \<Rightarrow> string \<Rightarrow> string) \<Rightarrow> handler_progress \<Rightarrow> effect list \<Rightarrow> timeout_choice \<Rightarrow> effect list \<times> handler_exit" where
  "timeout_result enc g before c =
     (case c of
        TakePanic \<Rightarrow>
          (before, case g of PanicReported p \<Rightarrow> Panics p | HandlerDone (Panics p) \<Rightarrow> Panics p | _ \<Rightarrow> Returns)
      | TakeDone \<Rightarrow> (before, Returns)
      | TakeDeadline \<Rightarrow>
          (before @ [SetHeader ''Content-Type'' ''application/json'', WriteHeaderTo 504,
             WriteBytes (enc ''gateway_timeout'' ''The request processing exceeded the configured timeout deadline'')], Returns))"

text \<open>A handler that has returned in time is answered with what it wrote.\<close>

lemma timeout_transparent:
  "choice_ready (HandlerDone Returns) False c \<Longrightarrow> timeout_result enc (HandlerDone Returns) es c = (es, Returns)"
  by (cases c) (simp_all add: choice_ready_def timeout_result_def)

text \<open>A handler that has written nothing when the deadline passes is answered with 504.\<close>

lemma timeout_answers_504:
  "\<not> header_sent es \<Longrightarrow> response_status (fst (timeout_result enc g es TakeDeadline)) = 504"
  by (simp add: timeout_result_def response_status_def header_sent_def send_status_def write_bytes_def final_status_def body_allowed_def)

text \<open>A panic can be lost: once the goroutine has closed \<open>done\<close>, both cases are ready, and if \<open>select\<close> takes the second one the
  request ends as if the handler had returned.\<close>

lemma timeout_may_swallow_panic:
  "choice_ready (HandlerDone (Panics p)) False TakeDone \<and>
   timeout_result enc (HandlerDone (Panics p)) [] TakeDone = ([], Returns) \<and>
   response_status (fst (timeout_result enc (HandlerDone (Panics p)) [] TakeDone)) = 200"
  by (simp add: choice_ready_def timeout_result_def response_status_def new_response_def)


section \<open>Metrics\<close>

record http_metrics =
  request_count :: "string \<rightharpoonup> int"
  total_latency :: int
  total_success :: int
  total_errors :: int

definition new_http_metrics :: http_metrics where
  "new_http_metrics = \<lparr>request_count = Map.empty, total_latency = 0, total_success = 0, total_errors = 0\<rparr>"

text \<open>\<open>Record\<close>: finding or creating the counter is one critical section (the second look-up under the write lock makes
  it so), every addition is atomic.\<close>

definition metric_key :: "string \<Rightarrow> string \<Rightarrow> int \<Rightarrow> string" where
  "metric_key meth path status = meth @ '' '' @ path @ '' '' @ itoa status"

definition record_request :: "http_metrics \<Rightarrow> string \<Rightarrow> string \<Rightarrow> int \<Rightarrow> duration \<Rightarrow> http_metrics" where
  "record_request m meth path status d =
     (let key = metric_key meth path status;
          counter = (case request_count m key of Some c \<Rightarrow> c | None \<Rightarrow> 0);
          m1 = m\<lparr>request_count := (request_count m)(key \<mapsto> i64 (counter + 1)), total_latency := i64 (total_latency m + d)\<rparr>
      in if 400 \<le> status then m1\<lparr>total_errors := i64 (total_errors m1 + 1)\<rparr>
         else m1\<lparr>total_success := i64 (total_success m1 + 1)\<rparr>)"

definition total_requests :: "http_metrics \<Rightarrow> int" where
  "total_requests m = i64 (total_success m + total_errors m)"

definition metrics_middleware :: "bool \<Rightarrow> duration \<Rightarrow> middleware" where
  "metrics_middleware metrics elapsed nxt r =
     (let (es, exit) = nxt r; (out, w) = wrap_effects es new_wrapper in
      case exit of
        Panics p \<Rightarrow> (out, Panics p)
      | Returns \<Rightarrow>
          (out @ (if metrics then [RecordMetric (req_method r) (req_path r) (wrap_status w) elapsed] else []), Returns))"

definition run_records :: "(string \<times> string \<times> int \<times> duration) list \<Rightarrow> http_metrics" where
  "run_records rs = foldl (\<lambda>m (meth, path, status, d). record_request m meth path status d) new_http_metrics rs"

lemma run_records_snoc: "run_records (rs @ [(a, b, c, d)]) = record_request (run_records rs) a b c d"
  by (simp add: run_records_def)

text \<open>The counters are the numbers of recorded requests, modulo wrap-around.\<close>

lemma total_requests_counts: "total_requests (run_records rs) = i64 (int (length rs))"
proof -
  have "total_success (run_records rs) = i64 (int (length (filter (\<lambda>(a, b, c, d). c < 400) rs))) \<and>
    total_errors (run_records rs) = i64 (int (length (filter (\<lambda>(a, b, c, d). \<not> c < 400) rs)))"
  proof (induction rs rule: rev_induct)
    case Nil
    then show ?case by (simp add: run_records_def new_http_metrics_def i64_def)
  next
    case (snoc x xs)
    obtain a b c d where "x = (a, b, c, d)" by (rule prod_cases4)
    with snoc show ?case
      by (auto simp: run_records_snoc record_request_def Let_def i64_add_left i64_add_right ac_simps)
  qed
  moreover have "length (filter P rs) + length (filter (\<lambda>x. \<not> P x) rs) = length rs" for P
    by (rule sum_length_filter_compl)
  note this [of "\<lambda>(a, b, c, d). c < 400"]
  then have "int (length (filter (\<lambda>(a, b, c, d). c < 400) rs)) + int (length (filter (\<lambda>(a, b, c, d). \<not> c < 400) rs)) = int (length rs)"
    by (simp add: case_prod_unfold flip: of_nat_add)
  ultimately show ?thesis
    by (simp add: total_requests_def i64_add_left i64_add_right)
qed

lemma request_count_exact:
  "(case request_count (run_records rs) k of Some c \<Rightarrow> c | None \<Rightarrow> 0) =
     i64 (int (length (filter (\<lambda>(a, b, c, d). metric_key a b c = k) rs)))"
proof (induction rs rule: rev_induct)
  case Nil
  then show ?case by (simp add: run_records_def new_http_metrics_def i64_def)
next
  case (snoc x xs)
  obtain a b c d where "x = (a, b, c, d)" by (rule prod_cases4)
  with snoc show ?case
    by (auto simp: run_records_snoc record_request_def Let_def i64_add_left i64_add_right ac_simps)
qed


section \<open>The client of the rate limiter\<close>

definition extract_client_ip :: "(string \<Rightarrow> string option) \<Rightarrow> http_request \<Rightarrow> string" where
  "extract_client_ip split_host r =
     (let xff = header_get r ''X-Forwarded-For''; xrip = header_get r ''X-Real-IP'' in
      if xff \<noteq> [] then trim_space (hd (split_on (CHR '','') xff))
      else if xrip \<noteq> [] then trim_space xrip
      else (case split_host (req_remote_addr r) of Some host \<Rightarrow> host | None \<Rightarrow> req_remote_addr r))"

text \<open>The client chooses the key of its own bucket: whatever its address is, the header decides.\<close>

lemma client_ip_spoofable:
  assumes "req_headers r ''X-Forwarded-For'' = Some v" and "v \<noteq> []" and "CHR '','' \<notin> set v" and "trim_space v = v"
  shows "extract_client_ip split_host (r\<lparr>req_remote_addr := a\<rparr>) = v"
  using assms by (simp add: extract_client_ip_def header_get_def)

end
