(* ===== verification/Input_Checks.thy ===== *)
theory Input_Checks
  imports Go_Strings
begin

text \<open>
  Checks on what comes from outside: reading a response body and its status
  (\<open>patterns/08_httpclient/response_handler.go\<close>), validating and escaping user input
  (\<open>patterns/19_security/input_validation.go\<close>), the addresses an outbound request may go to
  (\<open>patterns/19_security/ssrf_protection.go\<close>) and the table-tested validation
  (\<open>patterns/18_testing/table_driven.go\<close>).
\<close>

unbundle bit_operations_syntax


section \<open>Response bodies\<close>

text \<open>What a reader delivers: some bytes, then an error or the end.\<close>

record body_source =
  source_bytes :: string
  source_error :: "string option"

datatype read_error = NilResponse | ReadFailed string | ResponseTooLarge int

text \<open>\<open>io.ReadAll\<close> on an \<open>io.LimitReader\<close>: a limit that is not positive is the end at once; the error of the source shows only if the
  limit is not exhausted before.\<close>

definition read_limited :: "int \<Rightarrow> body_source \<Rightarrow> string + string" where
  "read_limited n src =
     (if int (length (source_bytes src)) < n then
        (case source_error src of Some e \<Rightarrow> Inl e | None \<Rightarrow> Inr (source_bytes src))
      else Inr (take (nat n) (source_bytes src)))"

definition safe_read_response_body :: "body_source option \<Rightarrow> int \<Rightarrow> read_error + string" where
  "safe_read_response_body body maxBytes0 =
     (case body of
        None \<Rightarrow> Inl NilResponse
      | Some src \<Rightarrow>
          (let maxBytes = (if maxBytes0 \<le> 0 then 2097152 else maxBytes0) in
           case read_limited (i64 (maxBytes + 1)) src of
             Inl e \<Rightarrow> Inl (ReadFailed e)
           | Inr bs \<Rightarrow> if maxBytes < int (length bs) then Inl (ResponseTooLarge maxBytes) else Inr bs))"

text \<open>A body is returned whole or not at all, and only if it is within the limit, for every limit below the largest 64-bit
  integer.\<close>

lemma safe_read_exact:
  assumes "0 < maxBytes" and "maxBytes < 9223372036854775807"
  shows "safe_read_response_body (Some \<lparr>source_bytes = b, source_error = None\<rparr>) maxBytes =
    (if int (length b) \<le> maxBytes then Inr b else Inl (ResponseTooLarge maxBytes))"
proof -
  have "i64 (maxBytes + 1) = maxBytes + 1" using assms by (intro i64_id) (simp add: in64_def)
  then show ?thesis using assms by (simp add: safe_read_response_body_def read_limited_def Let_def)
qed

text \<open>With that largest limit the sum wraps around, nothing is read, and every body comes back empty, without an error.\<close>

lemma safe_read_wraps:
  "safe_read_response_body (Some \<lparr>source_bytes = b, source_error = None\<rparr>) 9223372036854775807 = Inr []"
  by (simp add: safe_read_response_body_def read_limited_def i64_def)

datatype status_error = NilStatus | UnexpectedStatus int

definition validate_status_code :: "int option \<Rightarrow> int list \<Rightarrow> status_error option" where
  "validate_status_code resp allowedCodes =
     (case resp of
        None \<Rightarrow> Some NilStatus
      | Some c \<Rightarrow>
          if length allowedCodes = 0 then (if c < 200 \<or> 300 \<le> c then Some (UnexpectedStatus c) else None)
          else if c \<in> set allowedCodes then None else Some (UnexpectedStatus c))"

lemma status_accepted:
  "validate_status_code (Some c) codes = None \<longleftrightarrow> (if codes = [] then 200 \<le> c \<and> c \<le> 299 else c \<in> set codes)"
  by (auto simp: validate_status_code_def)


section \<open>User input\<close>

definition is_letter :: "char \<Rightarrow> bool" where
  "is_letter c \<longleftrightarrow> (65 \<le> (of_char c :: nat) \<and> of_char c \<le> (90 :: nat)) \<or> (97 \<le> (of_char c :: nat) \<and> of_char c \<le> (122 :: nat))"

definition is_alnum :: "char \<Rightarrow> bool" where
  "is_alnum c \<longleftrightarrow> is_letter c \<or> digit_val c \<noteq> None"

text \<open>\<open>usernameRegex\<close>.\<close>

definition username_ok :: "string \<Rightarrow> bool" where
  "username_ok u \<longleftrightarrow> 3 \<le> length u \<and> length u \<le> 30 \<and> (\<forall>c \<in> set u. is_alnum c \<or> c = CHR ''_'' \<or> c = CHR ''-'')"

text \<open>\<open>emailRegex\<close>: neither side contains an \<open>@\<close>, and the last label, of letters only, is what follows the last dot.\<close>

definition email_ok :: "string \<Rightarrow> bool" where
  "email_ok e =
     (case split_on (CHR ''@'') e of
        [l, d] \<Rightarrow>
          (let tld = rev (takeWhile (\<lambda>c. c \<noteq> CHR ''.'') (rev d));
               host = rev (drop (Suc (length tld)) (rev d)) in
           l \<noteq> [] \<and> (\<forall>c \<in> set l. is_alnum c \<or> c \<in> set ''._%+-'') \<and> CHR ''.'' \<in> set d \<and> host \<noteq> [] \<and>
           (\<forall>c \<in> set host. is_alnum c \<or> c \<in> set ''.-'') \<and> 2 \<le> length tld \<and> (\<forall>c \<in> set tld. is_letter c))
      | _ \<Rightarrow> False)"

text \<open>\<open>html.EscapeString\<close>.\<close>

definition escape_char :: "char \<Rightarrow> string" where
  "escape_char c =
     (if c = CHR ''&'' then ''&amp;''
      else if c = CHR 0x27 then ''&#39;''
      else if c = CHR ''<'' then ''&lt;''
      else if c = CHR ''>'' then ''&gt;''
      else if c = CHR 0x22 then ''&#34;''
      else [c])"

definition escape_string :: "string \<Rightarrow> string" where
  "escape_string s = concat (map escape_char s)"

datatype user_error = BadUsername | BadEmail | BioTooLong

definition validate_and_sanitize_user :: "string \<Rightarrow> string \<Rightarrow> string \<Rightarrow> user_error + string" where
  "validate_and_sanitize_user username email bio =
     (if \<not> username_ok username then Inl BadUsername
      else if \<not> email_ok email then Inl BadEmail
      else if 500 < length bio then Inl BioTooLong
      else Inr (escape_string (trim_space bio)))"

lemma escape_no_markup: "c \<in> set (escape_string s) \<Longrightarrow> c \<notin> {CHR ''<'', CHR ''>'', CHR 0x22, CHR 0x27}"
  by (auto simp: escape_string_def escape_char_def split: if_splits)

text \<open>The text a browser shows again.\<close>

fun unescape :: "string \<Rightarrow> string" where
  "unescape [] = []"
| "unescape (c # s) =
     (if has_prefix (c # s) ''&amp;'' then CHR ''&'' # unescape (drop 4 s)
      else if has_prefix (c # s) ''&#39;'' then CHR 0x27 # unescape (drop 4 s)
      else if has_prefix (c # s) ''&lt;'' then CHR ''<'' # unescape (drop 3 s)
      else if has_prefix (c # s) ''&gt;'' then CHR ''>'' # unescape (drop 3 s)
      else if has_prefix (c # s) ''&#34;'' then CHR 0x22 # unescape (drop 4 s)
      else c # unescape s)"

lemma unescape_escape_char: "unescape (escape_char c @ s) = c # unescape s"
  by (simp add: escape_char_def)

lemma unescape_escape: "unescape (escape_string s) = s"
  by (induction s) (simp_all add: escape_string_def unescape_escape_char)

text \<open>What the validation lets through is harmless and complete: the returned text has no character that could open a tag or
  close an attribute, the browser shows exactly the trimmed text the user wrote, and the user name consists of 3 to 30 letters,
  digits, underscores and hyphens.\<close>

theorem sanitized_output_safe:
  assumes "validate_and_sanitize_user username email bio = Inr out"
  shows "set out \<inter> {CHR ''<'', CHR ''>'', CHR 0x22, CHR 0x27} = {} \<and> unescape out = trim_space bio \<and>
    username_ok username \<and> email_ok email \<and> length bio \<le> 500"
  using assms escape_no_markup
  by (auto simp: validate_and_sanitize_user_def unescape_escape split: if_splits)

lemma sanitized_output_safe_witness:
  "unescape (escape_string (trim_space ''<b>'')) = trim_space ''<b>''"
proof -
  have u: "username_ok ''ada'' " by (simp add: username_ok_def is_alnum_def is_letter_def)
  have e: "email_ok ''a@b.org''" by (simp add: email_ok_def is_alnum_def is_letter_def)
  have "validate_and_sanitize_user ''ada'' ''a@b.org'' ''<b>'' = Inr (escape_string (trim_space ''<b>''))"
    using u e by (simp add: validate_and_sanitize_user_def)
  from sanitized_output_safe [OF this] show ?thesis by blast
qed


section \<open>Addresses of outbound requests\<close>

text \<open>An IP address as \<open>net.IP\<close> sees it: four bytes (also when they come mapped into IPv6), or sixteen.\<close>

datatype ip_addr = IPv4 nat nat nat nat | IPv6 "nat list"

definition is_loopback :: "ip_addr \<Rightarrow> bool" where
  "is_loopback ip = (case ip of IPv4 a b c d \<Rightarrow> a = 127 | IPv6 bs \<Rightarrow> bs = replicate 15 0 @ [1])"

definition is_private :: "ip_addr \<Rightarrow> bool" where
  "is_private ip =
     (case ip of
        IPv4 a b c d \<Rightarrow> a = 10 \<or> (a = 172 \<and> b AND 240 = 16) \<or> (a = 192 \<and> b = 168)
      | IPv6 bs \<Rightarrow> length bs = 16 \<and> bs ! 0 AND 254 = 252)"

definition is_unspecified :: "ip_addr \<Rightarrow> bool" where
  "is_unspecified ip = (case ip of IPv4 a b c d \<Rightarrow> a = 0 \<and> b = 0 \<and> c = 0 \<and> d = 0 | IPv6 bs \<Rightarrow> bs = replicate 16 0)"

definition is_multicast :: "ip_addr \<Rightarrow> bool" where
  "is_multicast ip = (case ip of IPv4 a b c d \<Rightarrow> a AND 240 = 224 | IPv6 bs \<Rightarrow> length bs = 16 \<and> bs ! 0 = 255)"

definition is_link_local_unicast :: "ip_addr \<Rightarrow> bool" where
  "is_link_local_unicast ip =
     (case ip of IPv4 a b c d \<Rightarrow> a = 169 \<and> b = 254 | IPv6 bs \<Rightarrow> length bs = 16 \<and> bs ! 0 = 254 \<and> bs ! 1 AND 192 = 128)"

definition is_link_local_multicast :: "ip_addr \<Rightarrow> bool" where
  "is_link_local_multicast ip =
     (case ip of
        IPv4 a b c d \<Rightarrow> a = 224 \<and> b = 0 \<and> c = 0
      | IPv6 bs \<Rightarrow> length bs = 16 \<and> bs ! 0 = 255 \<and> bs ! 1 AND 15 = 2)"

definition is_private_or_reserved_ip :: "ip_addr option \<Rightarrow> bool" where
  "is_private_or_reserved_ip x =
     (case x of
        None \<Rightarrow> True
      | Some ip \<Rightarrow>
          if is_loopback ip then True
          else if is_private ip then True
          else if is_unspecified ip \<or> is_multicast ip then True
          else if is_link_local_unicast ip \<or> is_link_local_multicast ip then True
          else if ip = IPv4 169 254 169 254 then True
          else False)"

datatype url_error = InvalidURL | DisallowedScheme string | MissingHost | SSRFBlocked

record checked_url =
  target_scheme :: string
  target_host :: string
  url_hostname :: string

text \<open>\<open>parse_url\<close> is \<open>url.Parse\<close>, \<open>parse_ip\<close> is \<open>net.ParseIP\<close>, \<open>lower\<close> and \<open>same\<close> are the case functions of
  \<open>strings\<close>.\<close>

definition validate_target_url ::
  "(string \<Rightarrow> checked_url option) \<Rightarrow> (string \<Rightarrow> ip_addr option) \<Rightarrow> (string \<Rightarrow> string) \<Rightarrow> (string \<Rightarrow> string \<Rightarrow> bool) \<Rightarrow> string \<Rightarrow>
   url_error option" where
  "validate_target_url parse_url parse_ip lower same rawURL =
     (case parse_url rawURL of
        None \<Rightarrow> Some InvalidURL
      | Some u \<Rightarrow>
          (let scheme = lower (target_scheme u) in
           if scheme \<noteq> ''http'' \<and> scheme \<noteq> ''https'' then Some (DisallowedScheme scheme)
           else if target_host u = [] then Some MissingHost
           else
             (case parse_ip (url_hostname u) of
                Some ip \<Rightarrow> if is_private_or_reserved_ip (Some ip) then Some SSRFBlocked else None
              | None \<Rightarrow> if same (url_hostname u) ''localhost'' then Some SSRFBlocked else None)))"

lemma high_bits: "(b :: nat) < 256 \<Longrightarrow> b AND 240 = 16 * (b div 16)"
proof -
  assume b: "b < 256"
  have "b AND 240 = push_bit 4 (take_bit 4 (drop_bit 4 b))"
  proof (rule bit_eqI)
    fix n
    have h: "bit (240 :: nat) n \<longleftrightarrow> 4 \<le> n \<and> n < 8"
    proof -
      have "(240 :: nat) = push_bit 4 (mask 4)" by (simp add: push_bit_eq_mult mask_eq_exp_minus_1)
      then have "bit (240 :: nat) n \<longleftrightarrow> bit (push_bit 4 (mask 4 :: nat)) n" by (rule arg_cong)
      then show ?thesis by (auto simp only: bit_push_bit_iff bit_mask_iff possible_bit_nat)
    qed
    show "bit (b AND 240) n \<longleftrightarrow> bit (push_bit 4 (take_bit 4 (drop_bit 4 b))) n"
      by (auto simp: bit_and_iff h bit_push_bit_iff bit_take_bit_iff bit_drop_bit_eq)
  qed
  also have "\<dots> = 16 * (b div 16)"
    using b by (simp add: push_bit_eq_mult take_bit_eq_mod drop_bit_eq_div less_mult_imp_div_less)
  finally show ?thesis .
qed

text \<open>Exactly which IPv4 addresses are blocked.\<close>

lemma blocked_ipv4:
  assumes "a < 256" and "b < 256"
  shows "is_private_or_reserved_ip (Some (IPv4 a b c d)) \<longleftrightarrow>
    a = 127 \<or> a = 10 \<or> (a = 172 \<and> 16 \<le> b \<and> b \<le> 31) \<or> (a = 192 \<and> b = 168) \<or> (a = 169 \<and> b = 254) \<or>
    (224 \<le> a \<and> a \<le> 239) \<or> (a = 0 \<and> b = 0 \<and> c = 0 \<and> d = 0)"
proof -
  have blk: "16 * (n div 16) = 16 * k \<longleftrightarrow> 16 * k \<le> n \<and> n \<le> 16 * k + 15" for n k :: nat
  proof -
    have n: "16 * (n div 16) + n mod 16 = n" and r: "n mod 16 < 16" by simp_all
    show ?thesis
    proof (cases "n div 16" k rule: linorder_cases)
      case less
      with n r have "n < 16 * k" by linarith
      with less show ?thesis by simp
    next
      case equal
      with n r show ?thesis by linarith
    next
      case greater
      with n have "16 * k + 15 < n" by linarith
      with greater show ?thesis by simp
    qed
  qed
  have "16 * (b div 16) = 16 \<longleftrightarrow> 16 \<le> b \<and> b \<le> 31" using blk [of b 1] by simp
  moreover have "16 * (a div 16) = 224 \<longleftrightarrow> 224 \<le> a \<and> a \<le> 239" using blk [of a 14] by simp
  ultimately show ?thesis
    using assms by (auto simp: is_private_or_reserved_ip_def is_loopback_def is_private_def is_unspecified_def is_multicast_def
        is_link_local_unicast_def is_link_local_multicast_def high_bits)
qed

text \<open>So the shared address space, the rest of network 0 and the broadcast address are not, and neither is any name: what it resolves to is
  not looked at.\<close>

lemma unblocked_addresses:
  "\<not> is_private_or_reserved_ip (Some (IPv4 100 64 0 1))" "\<not> is_private_or_reserved_ip (Some (IPv4 0 0 0 1))"
  "\<not> is_private_or_reserved_ip (Some (IPv4 255 255 255 255))"
  by (simp_all add: blocked_ipv4)

lemma names_pass:
  assumes "parse_url raw = Some u" and "lower (target_scheme u) = ''http''" and "target_host u \<noteq> []"
    and "parse_ip (url_hostname u) = None" and "\<not> same (url_hostname u) ''localhost''"
  shows "validate_target_url parse_url parse_ip lower same raw = None"
  using assms by (simp add: validate_target_url_def)


section \<open>The table-tested validation\<close>

record user_input =
  input_username :: string
  input_email :: string
  input_age :: int

datatype input_error = EmptyUsername | InvalidEmail | Underage

definition validate_user_input :: "user_input \<Rightarrow> input_error option" where
  "validate_user_input x =
     (if trim_space (input_username x) = [] then Some EmptyUsername
      else if \<not> contains_str (input_email x) ''@'' \<or> \<not> contains_str (input_email x) ''.'' then Some InvalidEmail
      else if input_age x < 18 then Some Underage
      else None)"

lemma contains_char: "contains_str s [c] \<longleftrightarrow> c \<in> set s"
proof (induction s)
  case (Cons a s)
  then show ?case by (cases s) auto
qed simp

lemma user_input_accepted:
  "validate_user_input x = None \<longleftrightarrow>
     trim_space (input_username x) \<noteq> [] \<and> CHR ''@'' \<in> set (input_email x) \<and> CHR ''.'' \<in> set (input_email x) \<and> 18 \<le> input_age x"
  by (auto simp: validate_user_input_def contains_char)

end
