(* ===== verification/Inventory_Store.thy ===== *)
theory Inventory_Store
  imports Go_Prelude
begin

text \<open>
  \<open>patterns/04_persistence/optimistic_locking.go\<close>: version-checked stock updates. Each
  operation is one critical section. \<open>Create\<close> also writes the version and the time into the
  caller's item, so it returns that item next to the new store.
\<close>

record inv_item =
  inv_id :: string
  sku :: string
  stock :: int
  version :: int
  updated_at :: gotime

datatype inv_error = ErrItemNotFound | ErrOptimisticLockConflict int int

record inventory =
  items :: "string \<rightharpoonup> inv_item"

definition new_inventory :: inventory where
  "new_inventory = \<lparr>items = Map.empty\<rparr>"

definition copy_item :: "inv_item \<Rightarrow> inv_item" where
  "copy_item it = \<lparr>inv_id = inv_id it, sku = sku it, stock = stock it,
     version = version it, updated_at = updated_at it\<rparr>"

definition create_item :: "inventory \<Rightarrow> gotime \<Rightarrow> inv_item \<Rightarrow> inv_item \<times> inventory" where
  "create_item s now it =
     (let it1 = it\<lparr>version := 1, updated_at := now\<rparr>
      in (it1, s\<lparr>items := (items s)(inv_id it1 \<mapsto> copy_item it1)\<rparr>))"

definition get_item :: "inventory \<Rightarrow> string \<Rightarrow> inv_error + inv_item" where
  "get_item s i = (case items s i of None \<Rightarrow> Inl ErrItemNotFound | Some it \<Rightarrow> Inr (copy_item it))"

definition update_stock ::
  "inventory \<Rightarrow> gotime \<Rightarrow> string \<Rightarrow> int \<Rightarrow> int \<Rightarrow> (inv_error + inv_item) \<times> inventory" where
  "update_stock s now i expectedVersion newStock =
     (case items s i of
        None \<Rightarrow> (Inl ErrItemNotFound, s)
      | Some it \<Rightarrow>
          if version it \<noteq> expectedVersion
          then (Inl (ErrOptimisticLockConflict expectedVersion (version it)), s)
          else (let it1 = it\<lparr>stock := newStock, version := i64 (version it + 1), updated_at := now\<rparr>
                in (Inr (copy_item it1), s\<lparr>items := (items s)(i \<mapsto> it1)\<rparr>)))"

text \<open>A history of updates by any number of clients: (time, item, expected version, new stock).\<close>

type_synonym update_call = "gotime \<times> string \<times> int \<times> int"

fun run_updates :: "inventory \<Rightarrow> update_call list \<Rightarrow> (inv_error + inv_item) list \<times> inventory" where
  "run_updates s [] = ([], s)"
| "run_updates s ((now, i, ev, ns) # cs) =
     (let (r, s1) = update_stock s now i ev ns; (rs, s2) = run_updates s1 cs in (r # rs, s2))"

text \<open>The calls on item \<open>i\<close> that were accepted, in order.\<close>

fun accepted_on :: "string \<Rightarrow> update_call list \<Rightarrow> (inv_error + inv_item) list \<Rightarrow> update_call list" where
  "accepted_on i (c # cs) (Inr it # rs) =
     (if fst (snd c) = i then c # accepted_on i cs rs else accepted_on i cs rs)"
| "accepted_on i (c # cs) (Inl e # rs) = accepted_on i cs rs"
| "accepted_on i cs rs = []"

lemma copy_item_id [simp]: "copy_item it = it"
  by (simp add: copy_item_def)

lemma update_stock_refused: "update_stock s now i ev ns = (Inl e, s') \<Longrightarrow> s' = s"
  by (auto simp: update_stock_def Let_def split: option.splits if_splits)

lemma update_stock_accepted:
  "update_stock s now i ev ns = (Inr r, s') \<Longrightarrow>
    \<exists>it. items s i = Some it \<and> version it = ev
      \<and> r = it\<lparr>stock := ns, version := i64 (ev + 1), updated_at := now\<rparr>
      \<and> items s' = (items s)(i \<mapsto> r)"
  by (auto simp: update_stock_def Let_def split: option.splits if_splits)

lemma update_stock_other: "i \<noteq> j \<Longrightarrow> items (snd (update_stock s now j ev ns)) i = items s i"
  by (auto simp: update_stock_def Let_def split: option.splits)

lemma length_run_updates: "length (fst (run_updates s cs)) = length cs"
  by (induction s cs rule: run_updates.induct) (auto split: prod.splits)

lemma accepted_on_length: "length (accepted_on i cs rs) \<le> length cs"
  by (induction i cs rs rule: accepted_on.induct) auto

text \<open>An item keeps its id and its article number.\<close>

lemma run_updates_same:
  assumes "items s i = Some it" and "run_updates s cs = (rs, s')"
  shows "\<exists>it'. items s' i = Some it' \<and> inv_id it' = inv_id it \<and> sku it' = sku it"
  using assms
proof (induction cs arbitrary: s it rs)
  case (Cons c cs)
  obtain now j ev ns where c: "c = (now, j, ev, ns)" by (cases c) auto
  obtain r s1 where u: "update_stock s now j ev ns = (r, s1)" by (cases "update_stock s now j ev ns")
  obtain rs1 where run: "run_updates s1 cs = (rs1, s')" using Cons.prems(2) by (auto simp: c u split: prod.splits)
  have "\<exists>it1. items s1 i = Some it1 \<and> inv_id it1 = inv_id it \<and> sku it1 = sku it"
    using u Cons.prems(1) by (auto simp: update_stock_def Let_def split: option.splits if_splits)
  then show ?case using Cons.IH [OF _ run] by metis
qed simp

text \<open>The expected versions of the accepted calls count up from the current version.\<close>

lemma run_updates_versions:
  assumes "items s i = Some it" and "0 \<le> version it"
    and "version it + int (length cs) < 9223372036854775808"
    and "run_updates s cs = (rs, s')"
  shows "\<exists>it'. items s' i = Some it'
    \<and> map (\<lambda>c. fst (snd (snd c))) (accepted_on i cs rs)
        = map (\<lambda>k. version it + int k) [0..<length (accepted_on i cs rs)]
    \<and> version it' = version it + int (length (accepted_on i cs rs))
    \<and> stock it' = (if accepted_on i cs rs = [] then stock it
                   else snd (snd (snd (last (accepted_on i cs rs)))))"
  using assms
proof (induction cs arbitrary: s it rs)
  case Nil
  then show ?case by simp
next
  case (Cons c cs)
  obtain now j ev ns where c: "c = (now, j, ev, ns)" by (cases c) auto
  obtain r s1 where u: "update_stock s now j ev ns = (r, s1)" by (cases "update_stock s now j ev ns")
  obtain rs1 where run: "run_updates s1 cs = (rs1, s')" and rs: "rs = r # rs1"
    using Cons.prems(4) by (auto simp: c u split: prod.splits)
  have room: "version it + int (length cs) < 9223372036854775808" using Cons.prems(3) by simp
  show ?case
  proof (cases r)
    case (Inl e)
    then have "s1 = s" using u update_stock_refused by blast
    moreover have "accepted_on i (c # cs) rs = accepted_on i cs rs1" by (simp add: rs Inl)
    ultimately show ?thesis using Cons.IH [OF Cons.prems(1,2) room] run by (simp cong: if_cong split del: if_split)
  next
    case (Inr it1)
    note acc = update_stock_accepted [OF u [unfolded Inr]]
    show ?thesis
    proof (cases "j = i")
      case False
      then have "items s1 i = Some it" using update_stock_other [of i j s now ev ns] Cons.prems(1) by (simp add: u)
      moreover have "accepted_on i (c # cs) rs = accepted_on i cs rs1" using False by (simp add: rs Inr c)
      ultimately show ?thesis using Cons.IH [OF _ Cons.prems(2) room run] by (simp cong: if_cong split del: if_split)
    next
      case True
      with acc Cons.prems(1) have ev: "version it = ev" and s1: "items s1 i = Some it1"
        and st: "stock it1 = ns" and v: "version it1 = i64 (ev + 1)"
        by auto
      have v1: "version it1 = version it + 1"
        unfolding v ev [symmetric] by (rule i64_id) (use Cons.prems(2,3) in \<open>simp add: in64_def\<close>)
      let ?n = "length (accepted_on i cs rs1)"
      from Cons.IH [OF s1 _ _ run] Cons.prems(2,3) obtain it' where
        it': "items s' i = Some it'"
          "map (\<lambda>c. fst (snd (snd c))) (accepted_on i cs rs1) = map (\<lambda>k. version it1 + int k) [0..<?n]"
          "version it' = version it1 + int ?n"
          "stock it' = (if accepted_on i cs rs1 = [] then stock it1
             else snd (snd (snd (last (accepted_on i cs rs1)))))"
        by (auto simp: v1)
      have "map (\<lambda>k. version it + int k) [0..<Suc ?n]
          = version it # map (\<lambda>k. version it1 + int k) [0..<?n]"
        by (simp add: upt_conv_Cons map_Suc_upt [symmetric] v1 del: upt_Suc)
      with it' show ?thesis by (simp add: rs Inr c True ev [symmetric] v1 st del: upt_Suc)
    qed
  qed
qed

lemma run_updates_append:
  "run_updates s (xs @ ys) =
     (let (rs, s1) = run_updates s xs; (rs2, s2) = run_updates s1 ys in (rs @ rs2, s2))"
  by (induction s xs rule: run_updates.induct) (auto split: prod.splits)

text \<open>C6: no update is ever lost. In any interleaving of \<open>UpdateStock\<close> calls from any number of clients, a call is
  accepted exactly if it expected the item's first version plus the number of calls accepted on it before, and otherwise refused with
  both versions; so the accepted calls on an item expected exactly the versions v, v+1, v+2, ... with no gap and no
  repetition, the final version counts them, and the final stock is the one of the last accepted call.\<close>

theorem optimistic_updates_serialize:
  assumes "items s i = Some it" and "0 \<le> version it"
    and "version it + int (length cs) < 9223372036854775808" and "run_updates s cs = (rs, s')"
  shows "(cs = xs @ (now, i, ev, ns) # ys \<longrightarrow>
       rs ! length xs = (let cur = version it + int (length (accepted_on i xs (take (length xs) rs)))
         in if ev = cur then Inr (it\<lparr>stock := ns, version := cur + 1, updated_at := now\<rparr>)
            else Inl (ErrOptimisticLockConflict ev cur)))
    \<and> map (\<lambda>c. fst (snd (snd c))) (accepted_on i cs rs) = map (\<lambda>k. version it + int k) [0..<length (accepted_on i cs rs)]
    \<and> (\<exists>it'. items s' i = Some it' \<and> version it' = version it + int (length (accepted_on i cs rs))
        \<and> stock it' = (if accepted_on i cs rs = [] then stock it else snd (snd (snd (last (accepted_on i cs rs))))))"
proof (intro conjI impI)
  assume cs: "cs = xs @ (now, i, ev, ns) # ys"
  obtain rs1 s1 where s1: "run_updates s xs = (rs1, s1)" by (rule prod.exhaust)
  obtain r s2 where r: "update_stock s1 now i ev ns = (r, s2)" by (rule prod.exhaust)
  have len: "length rs1 = length xs" using length_run_updates [of s xs] by (simp add: s1)
  then have nth: "rs ! length xs = r" and prefix: "take (length xs) rs = rs1"
    using assms(4) by (auto simp: cs run_updates_append s1 r nth_append Let_def split: prod.splits)
  obtain it1 where it1: "items s1 i = Some it1" "version it1 = version it + int (length (accepted_on i xs rs1))"
    using run_updates_versions [OF assms(1,2) _ s1] assms(3) by (auto simp: cs)
  have same: "it1\<lparr>stock := a, version := b, updated_at := c\<rparr> = it\<lparr>stock := a, version := b, updated_at := c\<rparr>" for a b c
    using run_updates_same [OF assms(1) s1] it1(1) by auto
  have "i64 (version it1 + 1) = version it1 + 1"
    using it1(2) assms(2,3) accepted_on_length [of i xs rs1] by (intro i64_id) (simp add: in64_def cs)
  with r it1 same show "rs ! length xs = (let cur = version it + int (length (accepted_on i xs (take (length xs) rs)))
      in if ev = cur then Inr (it\<lparr>stock := ns, version := cur + 1, updated_at := now\<rparr>)
         else Inl (ErrOptimisticLockConflict ev cur))"
    by (auto simp: nth prefix update_stock_def Let_def split: if_splits)
qed (use run_updates_versions [OF assms] in blast)+

definition demo_inventory :: inventory where
  "demo_inventory = snd (create_item new_inventory 7
     \<lparr>inv_id = ''i'', sku = ''s'', stock = 10, version = 99, updated_at = 0\<rparr>)"

definition demo_updates :: "update_call list" where
  "demo_updates = [(8, ''i'', 1, 9), (9, ''i'', 1, 8), (10, ''x'', 1, 8), (11, ''i'', 2, 7)]"

theorem optimistic_updates_serialize_witness:
  "\<exists>rs s'. run_updates demo_inventory demo_updates = (rs, s')
     \<and> rs ! 1 = Inl (ErrOptimisticLockConflict 1 2)
     \<and> map (\<lambda>c. fst (snd (snd c))) (accepted_on ''i'' demo_updates rs) = [1, 2]
     \<and> (\<exists>it'. items s' ''i'' = Some it' \<and> version it' = 3 \<and> stock it' = 7)"
proof -
  have it: "items demo_inventory ''i''
      = Some \<lparr>inv_id = ''i'', sku = ''s'', stock = 10, version = 1, updated_at = 7\<rparr>"
    by (simp add: demo_inventory_def create_item_def new_inventory_def Let_def)
  have acc: "accepted_on ''i'' demo_updates (fst (run_updates demo_inventory demo_updates))
      = [(8, ''i'', 1, 9), (11, ''i'', 2, 7)]"
    by (simp add: demo_updates_def update_stock_def it i64_def Let_def)
      (simp add: demo_inventory_def create_item_def new_inventory_def Let_def)
  obtain rs s' where run: "run_updates demo_inventory demo_updates = (rs, s')" by (rule prod.exhaust)
  have "length rs = length demo_updates" using length_run_updates [of demo_inventory demo_updates] unfolding run by simp
  then have "length rs = 4" by (simp add: demo_updates_def)
  then obtain r1 rs1 where rs: "rs = r1 # rs1" by (cases rs) auto
  have a: "accepted_on ''i'' demo_updates rs = [(8, ''i'', 1, 9), (11, ''i'', 2, 7)]" using acc by (simp add: run)
  have split: "demo_updates = [(8, ''i'', 1, 9)] @ (9, ''i'', 1, 8) # [(10, ''x'', 1, 8), (11, ''i'', 2, 7)]"
    by (simp add: demo_updates_def)
  have "r1 = Inr \<lparr>inv_id = ''i'', sku = ''s'', stock = 9, version = 2, updated_at = 8\<rparr>"
    using run it by (auto simp: rs demo_updates_def update_stock_def i64_def Let_def split: prod.splits)
  then have "accepted_on ''i'' [(8, ''i'', 1, 9)] (take 1 rs) = [(8, ''i'', 1, 9)]" by (simp add: rs)
  moreover have "length demo_updates = 4" by (simp add: demo_updates_def)
  ultimately show ?thesis
    using optimistic_updates_serialize [OF it _ _ run, of "[(8, ''i'', 1, 9)]" 9 1 8 "[(10, ''x'', 1, 8), (11, ''i'', 2, 7)]"]
      split run by (simp add: a)
qed

text \<open>A refused update leaves the whole store as it was, and the error carries both versions.\<close>

lemma stale_update_refused:
  assumes "items s i = Some it" and "version it \<noteq> ev"
  shows "update_stock s now i ev ns = (Inl (ErrOptimisticLockConflict ev (version it)), s)"
  using assms by (simp add: update_stock_def)

lemma create_then_get: "get_item (snd (create_item s now it)) (inv_id it) = Inr (fst (create_item s now it))"
  by (simp add: get_item_def create_item_def Let_def)

end
