(* ===== verification/Retry.thy ===== *)
theory Retry
  imports Go_Strings
begin

text \<open>
  The retry loops: \<open>patterns/08_httpclient/retry_backoff.go\<close> (\<open>ExecuteWithRetry\<close>) and
  \<open>patterns/13_database/deadlock_retry.go\<close> (\<open>ExecuteWithDeadlockRetry\<close>). What an attempt
  observes is given by the environment: whether the context is done when it is polled, what the
  operation returns, and whether the context ends the wait before the timer does. The loops return
  the attempts on which they ran the operation, next to the result. The loop variables cannot overflow:
  each is incremented only while it is smaller than a machine integer.
\<close>

section \<open>Retry with backoff\<close>

datatype 'e op_result = OpOk | OpError bool 'e

record 'e attempt_obs =
  poll_done :: "ctx_err option"
  op_result :: "'e op_result"
  wait_done :: "ctx_err option"

record retry_policy =
  max_attempts :: int
  base_delay :: duration
  max_delay :: duration

definition default_retry_policy :: retry_policy where
  "default_retry_policy = \<lparr>max_attempts = 3, base_delay = 50 * 1000000, max_delay = 2 * 1000000000\<rparr>"

datatype 'e retry_result =
    RetryOk
  | RetryAborted ctx_err
  | RetryFailed int 'e
  | RetryAbortedInBackoff ctx_err
  | RetryExhausted "'e option"

function retry_from ::
  "int \<Rightarrow> (int \<Rightarrow> 'e attempt_obs) \<Rightarrow> int \<Rightarrow> 'e option \<Rightarrow> int list \<times> 'e retry_result" where
  "retry_from n obs attempt lastErr =
     (if attempt \<le> n then
        (case poll_done (obs attempt) of
           Some e \<Rightarrow> ([], RetryAborted e)
         | None \<Rightarrow>
             (case op_result (obs attempt) of
                OpOk \<Rightarrow> ([attempt], RetryOk)
              | OpError retryable err \<Rightarrow>
                  if \<not> retryable \<or> attempt \<ge> n then ([attempt], RetryFailed attempt err)
                  else (case wait_done (obs attempt) of
                          Some e \<Rightarrow> ([attempt], RetryAbortedInBackoff e)
                        | None \<Rightarrow>
                            (let (calls, r) = retry_from n obs (attempt + 1) (Some err)
                             in (attempt # calls, r)))))
      else ([], RetryExhausted lastErr))"
  by pat_completeness auto
termination
  by (relation "measure (\<lambda>(n, obs, attempt, lastErr). nat (n + 1 - attempt))") auto

declare retry_from.simps [simp del]

definition execute_with_retry :: "retry_policy \<Rightarrow> (int \<Rightarrow> 'e attempt_obs) \<Rightarrow> int list \<times> 'e retry_result" where
  "execute_with_retry p obs = retry_from (max_attempts p) obs 1 None"

text \<open>An attempt after which the loop goes on.\<close>

definition goes_on :: "int \<Rightarrow> (int \<Rightarrow> 'e attempt_obs) \<Rightarrow> int \<Rightarrow> bool" where
  "goes_on n obs i \<longleftrightarrow> i < n \<and> poll_done (obs i) = None \<and> wait_done (obs i) = None
     \<and> (\<exists>err. op_result (obs i) = OpError True err)"

text \<open>What the loop does at the attempt at which it stops.\<close>

definition stop_result :: "int \<Rightarrow> (int \<Rightarrow> 'e attempt_obs) \<Rightarrow> int \<Rightarrow> 'e retry_result" where
  "stop_result n obs i =
     (case poll_done (obs i) of
        Some e \<Rightarrow> RetryAborted e
      | None \<Rightarrow>
          (case op_result (obs i) of
             OpOk \<Rightarrow> RetryOk
           | OpError retryable err \<Rightarrow>
               if \<not> retryable \<or> i \<ge> n then RetryFailed i err
               else RetryAbortedInBackoff (the (wait_done (obs i)))))"

lemma retry_from_spec:
  assumes "m \<le> k" and "k \<le> n" and "\<forall>i. m \<le> i \<and> i < k \<longrightarrow> goes_on n obs i" and "\<not> goes_on n obs k"
  shows "retry_from n obs m lastErr =
    ([m..(if poll_done (obs k) = None then k else k - 1)], stop_result n obs k)"
  using assms
proof (induction "nat (k - m)" arbitrary: m lastErr)
  case 0
  then have [simp]: "m = k" by simp
  show ?case
  proof (cases "poll_done (obs k)")
    case (Some e)
    then show ?thesis using 0 by (simp add: retry_from.simps [of n obs k lastErr] stop_result_def)
  next
    case None
    then show ?thesis using 0
      by (auto simp: retry_from.simps [of n obs k lastErr] stop_result_def goes_on_def
          split: op_result.split option.split)
  qed
next
  case (Suc d)
  have lt: "m < k" using Suc.hyps(2) by simp
  then have "goes_on n obs m" using Suc.prems(3) by simp
  then obtain err where g: "m < n" "poll_done (obs m) = None" "wait_done (obs m) = None"
      "op_result (obs m) = OpError True err"
    by (auto simp: goes_on_def)
  have IH: "retry_from n obs (m + 1) (Some err) =
      ([m + 1..(if poll_done (obs k) = None then k else k - 1)], stop_result n obs k)"
  proof (rule Suc.hyps(1))
    show "d = nat (k - (m + 1))" using Suc.hyps(2) by simp
    show "\<forall>i. m + 1 \<le> i \<and> i < k \<longrightarrow> goes_on n obs i" using Suc.prems(3) by simp
  qed (use lt Suc.prems in simp_all)
  have "retry_from n obs m lastErr =
      (m # fst (retry_from n obs (m + 1) (Some err)), snd (retry_from n obs (m + 1) (Some err)))"
    using g by (subst retry_from.simps) (simp split: prod.split)
  moreover have "m # [m + 1..j] = [m..j]" if "m \<le> j" for j :: int
    using that by (rule upto_rec1 [symmetric])
  ultimately show ?case using lt by (simp add: IH)
qed

text \<open>the retry loop runs the operation on attempts 1, 2, ... without a gap and never more than
  MaxAttempts times; it goes on only after a retryable error and while the context lives; and it returns
  what happened on the attempt it stopped at: nil exactly if the operation succeeded there.\<close>

theorem retry_loop_correct:
  assumes "0 < max_attempts p"
  shows "\<exists>k. 1 \<le> k \<and> k \<le> max_attempts p
    \<and> (\<forall>i. 1 \<le> i \<and> i < k \<longrightarrow> goes_on (max_attempts p) obs i) \<and> \<not> goes_on (max_attempts p) obs k
    \<and> execute_with_retry p obs =
        ([1..(if poll_done (obs k) = None then k else k - 1)], stop_result (max_attempts p) obs k)
    \<and> (snd (execute_with_retry p obs) = RetryOk \<longleftrightarrow> poll_done (obs k) = None \<and> op_result (obs k) = OpOk)"
proof -
  have "\<not> goes_on (max_attempts p) obs (max_attempts p)" by (simp add: goes_on_def)
  then obtain k where k: "1 \<le> k" "k \<le> max_attempts p" "\<not> goes_on (max_attempts p) obs k"
      "\<forall>i. 1 \<le> i \<and> i < k \<longrightarrow> goes_on (max_attempts p) obs i"
    using first_stop [of "max_attempts p" "goes_on (max_attempts p) obs"] assms by auto
  have "execute_with_retry p obs =
      ([1..(if poll_done (obs k) = None then k else k - 1)], stop_result (max_attempts p) obs k)"
    using retry_from_spec [OF k(1,2,4,3)] by (simp add: execute_with_retry_def)
  moreover have "stop_result (max_attempts p) obs k = RetryOk
      \<longleftrightarrow> poll_done (obs k) = None \<and> op_result (obs k) = OpOk"
    by (auto simp: stop_result_def split: option.split op_result.split)
  ultimately show ?thesis using k by (intro exI [of _ k]) simp
qed

definition flaky :: "int \<Rightarrow> string attempt_obs" where
  "flaky i = \<lparr>poll_done = None, op_result = (if i < 3 then OpError True ''e'' else OpOk), wait_done = None\<rparr>"

theorem retry_loop_correct_witness:
  "\<exists>k. 1 \<le> k \<and> k \<le> 3 \<and> execute_with_retry default_retry_policy flaky =
     ([1..k], stop_result 3 flaky k)"
  using retry_loop_correct [of default_retry_policy flaky]
  by (auto simp: default_retry_policy_def flaky_def)

lemma no_attempts_allowed: "max_attempts p \<le> 0 \<Longrightarrow> execute_with_retry p obs = ([], RetryExhausted None)"
  by (simp add: execute_with_retry_def retry_from.simps)


section \<open>Deadlock retry\<close>

text \<open>An error is the sentinels its chain wraps and its message.\<close>

datatype db_sentinel = ErrDeadlockDetected | ErrSerializationFailure | OtherSentinel string

record db_error =
  err_chain :: "db_sentinel list"
  err_text :: string

definition is_deadlock_error :: "db_error option \<Rightarrow> bool" where
  "is_deadlock_error err =
     (case err of
        None \<Rightarrow> False
      | Some e \<Rightarrow>
          if ErrDeadlockDetected \<in> set (err_chain e) \<or> ErrSerializationFailure \<in> set (err_chain e) then True
          else let errStr = fold_case (err_text e)
               in contains_str errStr ''deadlock'' \<or> contains_str errStr ''could not serialize'')"

record tx_obs =
  tx_poll :: "ctx_err option"
  tx_result :: "db_error option"
  tx_wait :: "ctx_err option"

datatype deadlock_result =
    TxCommitted
  | TxCtxDone ctx_err
  | TxPermanent db_error
  | TxRetriesExhausted db_error
  | TxPanicked

text \<open>\<open>delay\<close> is \<open>baseDelay * time.Duration(1<<uint(attempt-1))\<close> on 64 bits;
  \<open>rand.Int64N\<close> panics unless it is positive.\<close>

definition shl1 :: "int \<Rightarrow> int" where
  "shl1 n = (if 0 \<le> n then i64 (2 ^ nat n) else 0)"

definition deadlock_delay :: "duration \<Rightarrow> int \<Rightarrow> duration" where
  "deadlock_delay base attempt = i64 (base * shl1 (attempt - 1))"

function deadlock_from :: "int \<Rightarrow> duration \<Rightarrow> (int \<Rightarrow> tx_obs) \<Rightarrow> int \<Rightarrow> int list \<times> deadlock_result option" where
  "deadlock_from n base obs attempt =
     (if attempt \<le> n then
        (case tx_poll (obs attempt) of
           Some e \<Rightarrow> ([], Some (TxCtxDone e))
         | None \<Rightarrow>
             (case tx_result (obs attempt) of
                None \<Rightarrow> ([attempt], Some TxCommitted)
              | Some err \<Rightarrow>
                  if \<not> is_deadlock_error (Some err) then ([attempt], Some (TxPermanent err))
                  else if attempt \<ge> n then ([attempt], Some (TxRetriesExhausted err))
                  else if deadlock_delay base attempt \<le> 0 then ([attempt], Some TxPanicked)
                  else (case tx_wait (obs attempt) of
                          Some e \<Rightarrow> ([attempt], Some (TxCtxDone e))
                        | None \<Rightarrow>
                            (let (calls, r) = deadlock_from n base obs (attempt + 1)
                             in (attempt # calls, r)))))
      else ([], None))"
  by pat_completeness auto
termination
  by (relation "measure (\<lambda>(n, base, obs, attempt). nat (n + 1 - attempt))") auto

declare deadlock_from.simps [simp del]

definition execute_with_deadlock_retry ::
  "int \<Rightarrow> duration \<Rightarrow> (int \<Rightarrow> tx_obs) \<Rightarrow> int list \<times> deadlock_result option" where
  "execute_with_deadlock_retry maxRetries baseDelay obs =
     deadlock_from (if maxRetries \<le> 0 then 3 else maxRetries)
       (if baseDelay \<le> 0 then 20 * 1000000 else baseDelay) obs 1"

text \<open>An attempt after which the loop goes on, and the result at the attempt at which it stops.\<close>

definition tx_goes_on :: "int \<Rightarrow> duration \<Rightarrow> (int \<Rightarrow> tx_obs) \<Rightarrow> int \<Rightarrow> bool" where
  "tx_goes_on n base obs i \<longleftrightarrow> i < n \<and> tx_poll (obs i) = None \<and> is_deadlock_error (tx_result (obs i))
     \<and> 0 < deadlock_delay base i \<and> tx_wait (obs i) = None"

definition tx_stop :: "int \<Rightarrow> duration \<Rightarrow> (int \<Rightarrow> tx_obs) \<Rightarrow> int \<Rightarrow> deadlock_result" where
  "tx_stop n base obs i =
     (case tx_poll (obs i) of
        Some e \<Rightarrow> TxCtxDone e
      | None \<Rightarrow>
          (case tx_result (obs i) of
             None \<Rightarrow> TxCommitted
           | Some err \<Rightarrow>
               if \<not> is_deadlock_error (Some err) then TxPermanent err
               else if i \<ge> n then TxRetriesExhausted err
               else if deadlock_delay base i \<le> 0 then TxPanicked
               else TxCtxDone (the (tx_wait (obs i)))))"

lemma deadlock_from_spec:
  assumes "m \<le> k" and "k \<le> n" and "\<forall>i. m \<le> i \<and> i < k \<longrightarrow> tx_goes_on n base obs i"
    and "\<not> tx_goes_on n base obs k"
  shows "deadlock_from n base obs m =
    ([m..(if tx_poll (obs k) = None then k else k - 1)], Some (tx_stop n base obs k))"
  using assms
proof (induction "nat (k - m)" arbitrary: m)
  case 0
  then have [simp]: "m = k" by simp
  show ?case
  proof (cases "tx_poll (obs k)")
    case (Some e)
    then show ?thesis using 0 by (simp add: deadlock_from.simps [of n base obs k] tx_stop_def)
  next
    case None
    then show ?thesis using 0
      by (cases "tx_result (obs k)")
        (auto simp: deadlock_from.simps [of n base obs k] tx_stop_def tx_goes_on_def split: option.split)
  qed
next
  case (Suc d)
  have lt: "m < k" using Suc.hyps(2) by simp
  then have "tx_goes_on n base obs m" using Suc.prems(3) by simp
  then obtain err where g: "m < n" "tx_poll (obs m) = None" "tx_wait (obs m) = None"
      "tx_result (obs m) = Some err" "is_deadlock_error (Some err)" "0 < deadlock_delay base m"
    by (cases "tx_result (obs m)") (auto simp: tx_goes_on_def is_deadlock_error_def)
  have IH: "deadlock_from n base obs (m + 1) =
      ([m + 1..(if tx_poll (obs k) = None then k else k - 1)], Some (tx_stop n base obs k))"
  proof (rule Suc.hyps(1))
    show "d = nat (k - (m + 1))" using Suc.hyps(2) by simp
    show "\<forall>i. m + 1 \<le> i \<and> i < k \<longrightarrow> tx_goes_on n base obs i" using Suc.prems(3) by simp
  qed (use lt Suc.prems in simp_all)
  have "deadlock_from n base obs m =
      (m # fst (deadlock_from n base obs (m + 1)), snd (deadlock_from n base obs (m + 1)))"
    using g by (subst deadlock_from.simps) (simp split: prod.split)
  moreover have "m # [m + 1..j] = [m..j]" if "m \<le> j" for j :: int
    using that by (rule upto_rec1 [symmetric])
  ultimately show ?case using lt by (simp add: IH)
qed

lemma deadlock_retry_stops:
  assumes "1 \<le> n"
  shows "\<exists>k. 1 \<le> k \<and> k \<le> n \<and> (\<forall>i. 1 \<le> i \<and> i < k \<longrightarrow> tx_goes_on n base obs i)
    \<and> deadlock_from n base obs 1 =
        ([1..(if tx_poll (obs k) = None then k else k - 1)], Some (tx_stop n base obs k))"
proof -
  have "\<not> tx_goes_on n base obs n" by (simp add: tx_goes_on_def)
  then obtain k where k: "1 \<le> k" "k \<le> n" "\<not> tx_goes_on n base obs k"
      "\<forall>i. 1 \<le> i \<and> i < k \<longrightarrow> tx_goes_on n base obs i"
    using first_stop [OF assms, of "tx_goes_on n base obs"] by blast
  from deadlock_from_spec [OF k(1,2,4,3)] k(1,2,4) show ?thesis by blast
qed

text \<open>the deadlock retry always returns, after at most maxRetries runs of the transaction; it reruns
  only after deadlocks and serialization failures, returns a permanent error at once and unchanged,
  and reports the last conflict when the retries are used up.\<close>

theorem deadlock_retry_correct:
  "\<exists>calls res. execute_with_deadlock_retry maxRetries baseDelay obs = (calls, Some res)
    \<and> calls = [1..int (length calls)]
    \<and> int (length calls) \<le> (if maxRetries \<le> 0 then 3 else maxRetries)
    \<and> (\<forall>i. i \<in> set (butlast calls) \<longrightarrow> is_deadlock_error (tx_result (obs i)))
    \<and> (res = TxCommitted \<longrightarrow> calls \<noteq> [] \<and> tx_result (obs (last calls)) = None)
    \<and> (\<forall>e. res = TxPermanent e \<longrightarrow> tx_result (obs (last calls)) = Some e \<and> \<not> is_deadlock_error (Some e))
    \<and> (\<forall>e. res = TxRetriesExhausted e \<longrightarrow> tx_result (obs (last calls)) = Some e \<and> is_deadlock_error (Some e)
         \<and> int (length calls) = (if maxRetries \<le> 0 then 3 else maxRetries))"
proof -
  define n where "n = (if maxRetries \<le> 0 then 3 else maxRetries)"
  define base where "base = (if baseDelay \<le> 0 then 20 * 1000000 else baseDelay)"
  have "1 \<le> n" by (simp add: n_def)
  then obtain k where k: "1 \<le> k" "k \<le> n" "\<forall>i. 1 \<le> i \<and> i < k \<longrightarrow> tx_goes_on n base obs i"
      "deadlock_from n base obs 1 =
        ([1..(if tx_poll (obs k) = None then k else k - 1)], Some (tx_stop n base obs k))"
    using deadlock_retry_stops by blast
  have run: "execute_with_deadlock_retry maxRetries baseDelay obs =
      ([1..(if tx_poll (obs k) = None then k else k - 1)], Some (tx_stop n base obs k))"
    using k(4) by (simp add: execute_with_deadlock_retry_def n_def base_def)
  have bl: "\<forall>i. i \<in> set (butlast [1..j]) \<longrightarrow> is_deadlock_error (tx_result (obs i))" if "j \<le> k" for j
  proof (cases "1 \<le> j")
    case True
    then have "butlast [1..j] = [1..j - 1]" by (simp add: upto_rec2)
    with k(3) that show ?thesis by (auto simp: tx_goes_on_def)
  qed simp
  show ?thesis
  proof (cases "tx_poll (obs k)")
    case (Some e)
    then show ?thesis unfolding run n_def [symmetric] using k(1,2) bl [of "k - 1"]
      by (simp add: tx_stop_def)
  next
    case None
    have last: "last [1..k] = k" "[1..k] \<noteq> []" using k(1) by (simp_all add: upto_rec2)
    show ?thesis unfolding run n_def [symmetric] using k(1,2) bl [of k] last None
      by (cases "tx_result (obs k)") (simp_all add: tx_stop_def)
  qed
qed

theorem deadlock_retry_correct_witness:
  "\<exists>calls res. execute_with_deadlock_retry 0 0 (\<lambda>i. \<lparr>tx_poll = None,
       tx_result = (if i = 1 then Some \<lparr>err_chain = [ErrDeadlockDetected], err_text = []\<rparr> else None), tx_wait = None\<rparr>)
     = (calls, Some res) \<and> calls = [1..int (length calls)] \<and> int (length calls) \<le> 3"
  using deadlock_retry_correct [of 0 0 "\<lambda>i. \<lparr>tx_poll = None,
      tx_result = (if i = 1 then Some \<lparr>err_chain = [ErrDeadlockDetected], err_text = []\<rparr> else None), tx_wait = None\<rparr>"]
  by fastforce

text \<open>The wait doubles with each attempt, on 64 bits. With the defaults it is exact.\<close>

lemma default_delays: "map (deadlock_delay (20 * 1000000)) [1, 2, 3] = [20000000, 40000000, 80000000]"
  by (simp add: deadlock_delay_def shl1_def i64_def)

lemma deadlock_delay_exact:
  "1 \<le> attempt \<Longrightarrow> 0 < base \<Longrightarrow> base * 2 ^ nat (attempt - 1) < 9223372036854775808 \<Longrightarrow>
    deadlock_delay base attempt = base * 2 ^ nat (attempt - 1)"
proof -
  assume a: "1 \<le> attempt" "0 < base" "base * 2 ^ nat (attempt - 1) < 9223372036854775808"
  have "(2 :: int) ^ nat (attempt - 1) \<le> base * 2 ^ nat (attempt - 1)" using a(2) by simp
  then have "(2 :: int) ^ nat (attempt - 1) < 9223372036854775808" using a(3) by linarith
  then have "i64 (2 ^ nat (attempt - 1)) = (2 :: int) ^ nat (attempt - 1)"
    by (intro i64_id) (simp add: in64_def order.trans [of _ 0])
  then show ?thesis using a by (simp add: deadlock_delay_def shl1_def in64_def order.trans [of _ 0])
qed

text \<open>A base delay of 2^62 ns makes the second wait negative, and \<open>rand.Int64N\<close> panics.\<close>

lemma huge_delay_panics:
  "execute_with_deadlock_retry 5 4611686018427387904
     (\<lambda>i. \<lparr>tx_poll = None, tx_result = Some \<lparr>err_chain = [ErrDeadlockDetected], err_text = []\<rparr>, tx_wait = None\<rparr>)
   = ([1, 2], Some TxPanicked)"
  by (simp add: execute_with_deadlock_retry_def deadlock_from.simps [of 5 _ _ 1] deadlock_from.simps [of 5 _ _ 2]
      is_deadlock_error_def deadlock_delay_def shl1_def i64_def)

lemma message_match: "is_deadlock_error (Some \<lparr>err_chain = [], err_text = ''DEADLOCK''\<rparr>)"
  by code_simp

end
