(* ===== verification/Jitter.thy ===== *)
theory Jitter
  imports Float64 Retry
begin

text \<open>
  Randomised delays: \<open>patterns/26_advanced/jitter_strategies.go\<close>, \<open>CalculateBackoffWithJitter\<close> of
  \<open>patterns/08_httpclient/retry_backoff.go\<close>, \<open>patterns/14_caching/jittered_ttl.go\<close>, and the fault injector of
  \<open>patterns/18_testing/failure_injection.go\<close>. The number drawn by \<open>rand.Float64\<close> is the argument \<open>u\<close>; the library promises
  \<open>0 \<le> u < 1\<close>. \<open>wild\<close> is what converting a value outside the 64-bit range yields, \<open>fused\<close> tells whether a product and a sum
  are rounded once.
\<close>


section \<open>Exponential delays\<close>

text \<open>\<open>math.Pow(2, float64(n))\<close> for an integer \<open>n\<close> that is not negative is exact.\<close>

definition pow_two :: "int \<Rightarrow> f64" where
  "pow_two n = (if n \<le> 1023 then Finite (2 ^ nat n) else PosInf)"

definition exp_cap :: "int \<Rightarrow> duration \<Rightarrow> duration \<Rightarrow> f64" where
  "exp_cap attempt base mx =
     (let capVal = f_mul (f_of_int base) (pow_two (attempt - 1))
      in if f_lt (f_of_int mx) capVal then f_of_int mx else capVal)"

definition full_jitter :: "(f64 \<Rightarrow> int) \<Rightarrow> f64 \<Rightarrow> int \<Rightarrow> duration \<Rightarrow> duration \<Rightarrow> duration" where
  "full_jitter wild u attempt base mx =
     (if attempt \<le> 0 then 0 else int64_of wild (f_mul u (exp_cap attempt base mx)))"

definition equal_jitter :: "bool \<Rightarrow> (f64 \<Rightarrow> int) \<Rightarrow> f64 \<Rightarrow> int \<Rightarrow> duration \<Rightarrow> duration \<Rightarrow> duration" where
  "equal_jitter fused wild u attempt base mx =
     (if attempt \<le> 0 then 0
      else let half = f_div_const (exp_cap attempt base mx) 2 in int64_of wild (f_muladd fused u half half))"

definition decorrelated_jitter :: "bool \<Rightarrow> (f64 \<Rightarrow> int) \<Rightarrow> f64 \<Rightarrow> duration \<Rightarrow> duration \<Rightarrow> duration \<Rightarrow> duration" where
  "decorrelated_jitter fused wild u prevSleep0 base mx =
     (let prevSleep = (if prevSleep0 < base then base else prevSleep0);
          low = f_of_int base;
          high = f_of_int (i64 (prevSleep * 3));
          res = f_muladd fused u (f_sub high low) low
      in int64_of wild (if f_lt (f_of_int mx) res then f_of_int mx else res))"

definition calculate_backoff :: "(f64 \<Rightarrow> int) \<Rightarrow> f64 \<Rightarrow> retry_policy \<Rightarrow> int \<Rightarrow> duration" where
  "calculate_backoff wild u p attempt =
     (if attempt \<le> 0 then 0
      else let multiplier = pow_two (attempt - 1);
               backoff0 = f_mul (f_of_int (base_delay p)) multiplier;
               backoff = (if f_lt (f_of_int (max_delay p)) backoff0 then f_of_int (max_delay p) else backoff0)
           in int64_of wild (f_mul u backoff))"

text \<open>The numbers \<open>rand.Float64\<close> can return.\<close>

definition random_unit :: "f64 \<Rightarrow> bool" where
  "random_unit u \<longleftrightarrow> (\<exists>x. u = Finite x \<and> 0 \<le> x \<and> x < 1)"

lemma random_half: "random_unit (Finite (1 / 2))"
  unfolding random_unit_def by (rule exI [of _ "1 / 2"]) simp

lemma exp_cap_exact:
  assumes "1 \<le> attempt" and "0 < base" and "base \<le> 2 ^ 53" and "0 \<le> mx" and "mx \<le> 2 ^ 53"
  shows "exp_cap attempt base mx = Finite (of_int (min mx (base * 2 ^ nat (attempt - 1))))"
proof -
  let ?k = "nat (attempt - 1)"
  have ints: "f_of_int base = Finite (of_int base)" "f_of_int mx = Finite (of_int mx)" using assms by (simp_all add: f_of_int_exact)
  have big: "(mx :: int) < base * 2 ^ n" if "53 < n" for n
  proof -
    have "(2 :: int) ^ 53 < 2 ^ n" using that by (rule power_strict_increasing) simp
    also have "(2 :: int) ^ n \<le> base * 2 ^ n" using assms by simp
    finally show ?thesis using assms by linarith
  qed
  show ?thesis
  proof (cases "attempt - 1 \<le> 1023")
    case True
    have "representable (of_int base * 2 ^ ?k)"
      using assms by (intro representable_scaled) simp
    then have fl: "fl (of_int base * 2 ^ ?k) = of_int base * 2 ^ ?k" by (rule fl_exact)
    have cast: "(of_int base * 2 ^ ?k :: rat) = of_int (base * 2 ^ ?k)" by simp
    show ?thesis
    proof (cases "(2 :: rat) ^ 1024 \<le> of_int base * 2 ^ ?k")
      case True
      then have "(2 :: int) ^ 1024 \<le> base * 2 ^ ?k"
        unfolding cast by (metis of_int_le_iff of_int_numeral of_int_power)
      moreover have "(2 :: int) ^ 53 < 2 ^ 1024" by simp
      ultimately have "mx < base * 2 ^ ?k" using assms by linarith
      then show ?thesis using True ints fl \<open>attempt - 1 \<le> 1023\<close>
        by (simp add: exp_cap_def pow_two_def round64_def Let_def min_def)
    next
      case False
      have "0 \<le> of_int base * (2 :: rat) ^ ?k" using assms by simp
      moreover have "(0 :: rat) < 2 ^ 1024" by simp
      ultimately have "\<not> of_int base * (2 :: rat) ^ ?k \<le> - (2 ^ 1024)" by linarith
      with False have r: "round64 (of_int base * 2 ^ ?k) = Finite (of_int base * 2 ^ ?k)"
        by (simp only: round64_def Let_def fl if_False)
      define N where "N = base * 2 ^ ?k"
      have "f_mul (f_of_int base) (pow_two (attempt - 1)) = Finite (of_int N)"
        using r ints \<open>attempt - 1 \<le> 1023\<close> by (simp add: pow_two_def N_def)
      then show ?thesis using ints unfolding N_def [symmetric] by (simp add: exp_cap_def Let_def min_def)
    qed
  next
    case False
    then have "53 < ?k" by linarith
    then have "mx < base * 2 ^ ?k" by (rule big)
    then show ?thesis using False ints assms by (simp add: exp_cap_def pow_two_def f_inf_def min_def)
  qed
qed


lemma scaled_random:
  assumes "random_unit u" and "f64_value (Finite c)" and "0 \<le> c"
  obtains y where "f_mul u (Finite c) = Finite y" and "0 \<le> y" and "y \<le> c" and "f64_value (Finite y)"
proof -
  obtain x where u: "u = Finite x" "0 \<le> x" "x < 1" using assms(1) by (auto simp: random_unit_def)
  have "0 \<le> x * c" "x * c \<le> c" using u assms(3) by (simp_all add: mult_left_le_one_le)
  from round64_between [OF f64_value_small(1) this assms(2)] have y: "round64 (x * c) = Finite (fl (x * c))" "0 \<le> fl (x * c)" "fl (x * c) \<le> c"
    by simp_all
  then show ?thesis using u f64_value_round [of "x * c"] by (intro that [of "fl (x * c)"]) simp_all
qed

text \<open>The same for \<open>low + u * range\<close>, however it is rounded.\<close>

lemma scaled_random_from:
  assumes "random_unit u" and "f64_value (Finite c)" and "0 \<le> c" and "f64_value (Finite a)" and "f64_value (Finite (a + c))"
  obtains y where "f_muladd fused u (Finite c) (Finite a) = Finite y" and "a \<le> y" and "y \<le> a + c"
proof -
  obtain x where u: "u = Finite x" "0 \<le> x" "x < 1" using assms(1) by (auto simp: random_unit_def)
  have xc: "0 \<le> x * c" "x * c \<le> c" using u assms(3) by (simp_all add: mult_left_le_one_le)
  obtain p where p: "f_mul u (Finite c) = Finite p" "0 \<le> p" "p \<le> c" using scaled_random [OF assms(1-3)] .
  let ?q = "if fused then x * c + a else a + p"
  have "f_muladd fused u (Finite c) (Finite a) = round64 ?q" using u p by (simp add: f_muladd_def)
  moreover have "a \<le> ?q" "?q \<le> a + c" using xc p by simp_all
  ultimately show ?thesis using round64_between [OF assms(4) _ _ assms(5), of ?q] by (intro that [of "fl ?q"]) simp_all
qed

lemma int64_of_between:
  assumes "of_int m \<le> y" and "y \<le> of_int n" and "in64 m" and "in64 n"
  shows "m \<le> int64_of wild (Finite y) \<and> int64_of wild (Finite y) \<le> n"
proof -
  have "m \<le> toward_zero y" "toward_zero y \<le> n"
    using assms(1,2) by (simp_all add: toward_zero_def floor_le_iff le_floor_iff ceiling_le_iff le_ceiling_iff)
  then show ?thesis using assms(3,4) by (simp add: int64_of_def in64_def)
qed

lemma in64_exact: "\<bar>n\<bar> \<le> 2 ^ 53 \<Longrightarrow> in64 n"
  by (simp add: in64_def abs_le_iff)

text \<open>Full jitter waits between nothing and the exponential delay, capped by the maximum, for every attempt: the exponent never
  overflows the delay.\<close>

theorem full_jitter_bounds:
  assumes "random_unit u" and "0 < base" and "base \<le> 2 ^ 53" and "0 \<le> mx" and "mx \<le> 2 ^ 53"
  shows "full_jitter wild u attempt base mx \<in> {0 .. (if attempt \<le> 0 then 0 else min mx (base * 2 ^ nat (attempt - 1)))}"
proof (cases "attempt \<le> 0")
  case False
  let ?c = "min mx (base * 2 ^ nat (attempt - 1))"
  have c: "0 \<le> ?c" "?c \<le> 2 ^ 53" using assms by simp_all
  have "f64_value (Finite (of_int ?c))" using c by (intro f64_value_int) simp
  moreover have "(0 :: rat) \<le> of_int ?c" using c by (simp only: of_int_0_le_iff)
  ultimately obtain y where y: "f_mul u (Finite (of_int ?c)) = Finite y" "0 \<le> y" "y \<le> of_int ?c"
    using scaled_random [OF assms(1)] by blast
  have "in64 ?c" using c by (intro in64_exact) simp
  with y c int64_of_between [of 0 y ?c wild] have "int64_of wild (Finite y) \<in> {0 .. ?c}" by (simp add: in64_def)
  with False y(1) exp_cap_exact [of attempt base mx] assms show ?thesis by (simp add: full_jitter_def)
qed (simp add: full_jitter_def)


theorem full_jitter_bounds_witness:
  "full_jitter (\<lambda>x. 0) (Finite (1 / 2)) 100000 50000000 2000000000
    \<in> {0 .. (if (100000 :: int) \<le> 0 then 0 else min 2000000000 (50000000 * 2 ^ nat (100000 - 1)))}"
  by (rule full_jitter_bounds) (simp_all add: random_half)

text \<open>The back-off of the retry policy is full jitter.\<close>

lemma calculate_backoff_full_jitter:
  "calculate_backoff wild u p attempt = full_jitter wild u attempt (base_delay p) (max_delay p)"
  by (simp add: calculate_backoff_def full_jitter_def exp_cap_def Let_def)

text \<open>Equal jitter waits at least half of the capped delay.\<close>

lemma equal_jitter_bounds:
  assumes "random_unit u" and "1 \<le> attempt" and "0 < base" and "base \<le> 2 ^ 53" and "0 \<le> mx" and "mx \<le> 2 ^ 53"
  shows "equal_jitter fused wild u attempt base mx
    \<in> {min mx (base * 2 ^ nat (attempt - 1)) div 2 .. min mx (base * 2 ^ nat (attempt - 1))}"
proof -
  define c where "c = min mx (base * 2 ^ nat (attempt - 1))"
  have c: "0 \<le> c" "c \<le> 2 ^ 53" using assms by (simp_all add: c_def)
  then have cr: "\<bar>of_int c\<bar> \<le> (2 ^ 53 :: rat)" by (metis abs_of_nonneg of_int_0_le_iff of_int_le_iff of_int_numeral of_int_power)
  have half: "f64_value (Finite (of_int c / 2))"
    unfolding f64_value_Finite using representable_half [of c] c cr big_power by (auto simp: fl_exact)
  moreover have "f64_value (Finite (of_int c / 2 + of_int c / 2))" using c by (simp add: f64_value_int)
  moreover have "(0 :: rat) \<le> of_int c / 2" using c by simp
  ultimately obtain y where y: "f_muladd fused u (Finite (of_int c / 2)) (Finite (of_int c / 2)) = Finite y"
    "of_int c / 2 \<le> y" "y \<le> of_int c / 2 + of_int c / 2" using scaled_random_from [OF assms(1) half _ half] by blast
  have "f_div_const (exp_cap attempt base mx) 2 = Finite (of_int c / 2)"
    using exp_cap_exact [of attempt base mx] assms round64_value [OF half] by (simp add: c_def)
  then have "equal_jitter fused wild u attempt base mx = int64_of wild (Finite y)"
    using y(1) assms(2) by (simp add: equal_jitter_def Let_def)
  moreover have "of_int (c div 2) \<le> y"
  proof -
    have "2 * (c div 2) \<le> c" by simp
    then have "(2 :: rat) * of_int (c div 2) \<le> of_int c" by (metis of_int_le_iff of_int_mult of_int_numeral)
    with y(2) show ?thesis by simp
  qed
  moreover have "0 \<le> c div 2" "c div 2 \<le> c" using c by simp_all
  then have "in64 (c div 2)" "in64 c" using c by (simp_all add: in64_def)
  ultimately show ?thesis using int64_of_between [of "c div 2" y c wild] y(3) by (simp flip: c_def)
qed

text \<open>Decorrelated jitter stays between the base and three times the previous delay, and below the maximum.\<close>

lemma decorrelated_jitter_bounds:
  assumes "random_unit u" and "0 \<le> base" and "base \<le> 2 ^ 51" and "prev \<le> 2 ^ 51" and "0 \<le> mx" and "mx \<le> 2 ^ 53"
  shows "decorrelated_jitter fused wild u prev base mx \<in> {min mx base .. min mx (3 * max prev base)}"
proof -
  define p where "p = max prev base"
  have p: "base \<le> p" "0 \<le> p" "p \<le> 2 ^ 51" using assms by (simp_all add: p_def)
  have "in64 (p * 3)" using p by (simp add: in64_def)
  then have ints: "f_of_int base = Finite (of_int base)" "f_of_int (i64 (p * 3)) = Finite (of_int (3 * p))" "f_of_int mx = Finite (of_int mx)"
    using assms p by (simp_all add: f_of_int_exact mult.commute)
  have range: "f_sub (Finite (of_int (3 * p))) (Finite (of_int base)) = Finite (of_int (3 * p - base))"
    using round64_value [OF f64_value_int [of "3 * p - base"]] p assms by (simp add: f_sub_def)
  have "f64_value (Finite (of_int (3 * p - base)))" "f64_value (Finite (of_int base))"
    "f64_value (Finite (of_int base + of_int (3 * p - base)))"
    using f64_value_int [of "3 * p - base"] f64_value_int [of base] f64_value_int [of "3 * p"] p assms by simp_all
  moreover have "(0 :: rat) \<le> of_int (3 * p - base)" using p by (simp only: of_int_0_le_iff)
  ultimately obtain y where y: "f_muladd fused u (Finite (of_int (3 * p - base))) (Finite (of_int base)) = Finite y"
    "of_int base \<le> y" "y \<le> of_int base + of_int (3 * p - base)" using scaled_random_from [OF assms(1)] by blast
  have "decorrelated_jitter fused wild u prev base mx = int64_of wild (Finite (min (of_int mx) y))"
    using y(1) ints range unfolding decorrelated_jitter_def Let_def
    by (simp add: p_def max_def min_def split: if_splits)
  moreover have "of_int (min mx base) \<le> min (of_int mx) y" "min (of_int mx) y \<le> of_int (min mx (3 * p))"
    using y(2,3) by (auto simp: min_def)
  moreover have "in64 (min mx base)" "in64 (min mx (3 * p))" using p assms by (auto simp: in64_def min_def)
  ultimately show ?thesis
    using int64_of_between [of "min mx base" "min (of_int mx) y" "min mx (3 * p)" wild] unfolding p_def by (simp only: atLeastAtMost_iff)
qed

text \<open>At the ends of the range: an exponent too large for a double times a base of zero is not a number, and equal jitter of the
  largest delay can round up to \<open>2 ^ 63\<close>; what the conversion then yields is up to the machine.\<close>

lemma zero_base_unspecified: "full_jitter wild (Finite (1 / 2)) 2000 0 mx = i64 (wild NaN)"
  by (simp add: full_jitter_def exp_cap_def pow_two_def f_of_int_exact f_inf_def int64_of_def)


lemma largest_delay_unspecified:
  "equal_jitter False wild (Finite (1 - 1 / 2 ^ 53)) 1 9223372036854775807 9223372036854775807 = i64 (wild (Finite (2 ^ 63)))"
proof -
  have f1: "\<lfloor>9223372036854775807 / 1024 :: rat\<rfloor> = 9007199254740991" by (simp add: floor_eq_iff)
  have f2: "\<lfloor>18014398509481983 / 2 :: rat\<rfloor> = 9007199254740991" by (simp add: floor_eq_iff)
  have "fl 9223372036854775807 = 9223372036854775808"
    by (subst fl_at [of 10]) (simp_all add: round_even_def Let_def f1)
  then have big: "f_of_int 9223372036854775807 = Finite 9223372036854775808" by (simp add: f_of_int_def round64_def Let_def)
  have "representable (9223372036854775808 / 2)" using representable_scaled [of 1 62] by simp
  then have half: "f_div_const (Finite 9223372036854775808) 2 = Finite 4611686018427387904"
    by (simp add: round64_def Let_def fl_exact)
  have "fl (4611686018427387904 - 512) = 4611686018427387904 - 512"
    using fl_exact [OF representable_scaled [of "2 ^ 53 - 1" 9]] by simp
  then have prod: "f_mul (Finite (1 - 1 / 2 ^ 53)) (Finite 4611686018427387904) = Finite (4611686018427387904 - 512)"
    by (simp add: round64_def Let_def)
  have "fl 9223372036854775296 = 9223372036854775808"
    by (subst fl_at [of 10]) (simp_all add: round_even_def Let_def f2)
  then have "f_muladd False (Finite (1 - 1 / 2 ^ 53)) (Finite 4611686018427387904) (Finite 4611686018427387904) = Finite 9223372036854775808"
    using prod by (simp add: f_muladd_def round64_def Let_def)
  moreover have "exp_cap 1 9223372036854775807 9223372036854775807 = Finite 9223372036854775808"
    using big fl_exact [OF representable_scaled [of 1 63]] by (simp add: exp_cap_def pow_two_def round64_def Let_def)
  ultimately show ?thesis using half by (simp add: equal_jitter_def Let_def int64_of_def toward_zero_def in64_def)
qed


section \<open>Jittered time to live\<close>

definition calculate_jittered_ttl :: "bool \<Rightarrow> (f64 \<Rightarrow> int) \<Rightarrow> f64 \<Rightarrow> duration \<Rightarrow> f64 \<Rightarrow> duration" where
  "calculate_jittered_ttl fused wild u baseTTL jitterRatio0 =
     (if baseTTL \<le> 0 then 0
      else if f_le jitterRatio0 (Finite 0) then baseTTL
      else let jitterRatio = (if f_lt (Finite (1 / 2)) jitterRatio0 then Finite (1 / 2) else jitterRatio0);
               maxDelta = f_mul (f_of_int baseTTL) jitterRatio;
               factor = f_sub (f_mul u (Finite 2)) (Finite 1);
               jittered = f_muladd fused factor maxDelta (f_of_int baseTTL)
           in if f_lt jittered (f_of_int 1000000000) then 1000000000 else int64_of wild jittered)"

text \<open>The factor is between -1 and 1.\<close>

lemma jitter_factor:
  assumes "random_unit u" and "f64_value u"
  obtains k where "f_sub (f_mul u (Finite 2)) (Finite 1) = Finite k" and "- 1 \<le> k" and "k \<le> 1"
proof -
  obtain x where u: "u = Finite x" "0 \<le> x" "x < 1" using assms(1) by (auto simp: random_unit_def)
  have v2: "f64_value (Finite 2)" using f64_value_int [of 2] by simp
  have "0 \<le> x * 2" "x * 2 \<le> 2" using u by simp_all
  from round64_between [OF f64_value_small(1) this v2] have d: "round64 (x * 2) = Finite (fl (x * 2))" "0 \<le> fl (x * 2)" "fl (x * 2) \<le> 2"
    by simp_all
  then have "- 1 \<le> fl (x * 2) + - 1" "fl (x * 2) + - 1 \<le> 1" by simp_all
  from round64_between [OF f64_value_small(3) this f64_value_small(2)] show ?thesis
    using d u by (intro that [of "fl (fl (x * 2) + - 1)"]) (simp_all add: f_sub_def)
qed

text \<open>The jittered time is within the ratio of the base, give or take three nanoseconds for the rounding, but never below a second.\<close>

theorem ttl_within_ratio:
  assumes "random_unit u" and "f64_value u" and "0 < base" and "base \<le> 2 ^ 52" and "f64_value (Finite q)" and "0 < q" and "q \<le> 1 / 2"
  shows "of_int (calculate_jittered_ttl fused wild u base (Finite q))
    \<in> {max 1000000000 (of_int base * (1 - q) - 3) .. max 1000000000 (of_int base * (1 + q) + 3)}"
proof -
  obtain k where k: "f_sub (f_mul u (Finite 2)) (Finite 1) = Finite k" "- 1 \<le> k" "k \<le> 1"
    using jitter_factor [OF assms(1,2)] .
  define B where "B = (of_int base :: rat)"
  have B: "0 < B" "B \<le> 2 ^ 52" using assms(3,4) by (simp_all add: B_def)
  have v52: "f64_value (Finite B)" unfolding B_def using assms(3,4) by (intro f64_value_int) simp
  define M where "M = fl (B * q)"
  have "representable (B / 2)" unfolding B_def using assms(3,4) by (intro representable_half) simp
  moreover have "\<bar>B / 2\<bar> < 2 ^ 1024" using B big_power by (simp add: abs_if)
  ultimately have vh: "f64_value (Finite (B / 2))" by (simp add: f64_value_def)
  have Bq: "0 \<le> B * q" "B * q \<le> B / 2" using B assms(6,7) by simp_all
  note r = round64_between [OF f64_value_small(1) Bq vh, folded M_def]
  have M: "round64 (B * q) = Finite M" "0 \<le> M" "M \<le> B / 2" "f64_value (Finite M)"
    using r f64_value_round [of "B * q"] by simp_all
  have Mq: "M \<le> B * q + 1 / 2"
  proof -
    have "B * q / 2 ^ 53 \<le> 1 / 4" using Bq(2) B(2) by (simp add: field_simps)
    then show ?thesis using fl_upper [OF Bq(1)] tiny unfolding M_def by (simp add: field_simps)
  qed
  have kM: "- M \<le> k * M" "k * M \<le> M"
    using mult_right_mono [OF k(2) M(2)] mult_right_mono [OF k(3) M(2)] by simp_all
  have vM: "f64_value (Finite (- M))" using M(4) by (simp add: f64_value_Finite fl_uminus)
  note kMr = round64_between [OF vM kM M(4)]
  define e where "e = (if fused then k * M else fl (k * M))"
  have e: "- M \<le> e" "e \<le> M" using kM kMr by (simp_all add: e_def)
  define v where "v = fl (B + e)"
  have range: "0 \<le> B + e" "B + e \<le> of_int (2 ^ 53)" using e M(3) B by simp_all
  have v: "round64 (B + e) = Finite v" "0 \<le> v" "v \<le> of_int (2 ^ 53)"
    using round64_between [OF f64_value_small(1) range f64_value_int] by (simp_all add: v_def)
  have verr: "v \<le> B + e + 5 / 4" "B + e - 5 / 4 \<le> v"
  proof -
    have "(B + e) / 2 ^ 53 \<le> 1" using range(2) by simp
    then show "v \<le> B + e + 5 / 4" "B + e - 5 / 4 \<le> v"
      using fl_upper [OF range(1)] fl_lower [OF range(1)] tiny unfolding v_def by (simp_all add: field_simps)
  qed
  have jit: "f_muladd fused (Finite k) (Finite M) (Finite B) = Finite v"
    using v(1) kMr by (simp add: f_muladd_def e_def add.commute split: if_splits)
  have one: "f_of_int 1000000000 = Finite 1000000000" using f_of_int_exact [of 1000000000] by simp
  have base: "f_of_int base = Finite B" using assms(3,4) by (simp add: f_of_int_exact B_def)
  have res: "calculate_jittered_ttl fused wild u base (Finite q) =
      (if v < 1000000000 then 1000000000 else int64_of wild (Finite v))"
    using assms(3,6,7) k(1) M(1) jit one base by (simp add: calculate_jittered_ttl_def f_le_def Let_def)
  have fl_v: "v - 1 \<le> of_int \<lfloor>v\<rfloor>" "of_int \<lfloor>v\<rfloor> \<le> v" by linarith+
  have low: "B * (1 - q) - 2 \<le> v" "v \<le> B * (1 + q) + 2" using verr e Mq by (simp_all add: algebra_simps)
  show ?thesis
  proof (cases "v < 1000000000")
    case True
    with low show ?thesis unfolding res B_def [symmetric] by simp
  next
    case False
    have fr: "0 \<le> \<lfloor>v\<rfloor>" "\<lfloor>v\<rfloor> \<le> 2 ^ 53" using v(2) floor_mono [OF v(3)] by simp_all
    then have "int64_of wild (Finite v) = \<lfloor>v\<rfloor>" using v(2) by (simp add: int64_of_def toward_zero_def in64_def)
    moreover have "(1000000000 :: rat) \<le> of_int \<lfloor>v\<rfloor>" using False by (simp add: le_floor_iff)
    moreover have "of_int \<lfloor>v\<rfloor> \<le> B * (1 + q) + 3" "B * (1 - q) - 3 \<le> of_int \<lfloor>v\<rfloor>" using low fl_v by linarith+
    ultimately show ?thesis using False unfolding res B_def [symmetric] by (simp add: le_max_iff_disj)
  qed
qed


theorem ttl_within_ratio_witness:
  "of_int (calculate_jittered_ttl False (\<lambda>x. 0) (Finite (1 / 2)) 600000000000 (Finite (1 / 4)))
    \<in> {max 1000000000 (of_int 600000000000 * (1 - 1 / 4) - 3) .. max 1000000000 (of_int 600000000000 * (1 + 1 / 4) + 3 :: rat)}"
proof (rule ttl_within_ratio)
  have "(1 :: rat) / 2 = of_int 1 * 2 powi (- 1)" "(1 :: rat) / 4 = of_int 1 * 2 powi (- 2)"
    by (simp_all add: power_int_minus_divide)
  then have "representable (1 / 2)" "representable (1 / 4)" unfolding representable_def by fastforce+
  then show "f64_value (Finite (1 / 2))" "f64_value (Finite (1 / 4))" by (simp_all add: f64_value_def)
qed (simp_all add: random_half)

text \<open>A base time shorter than two thirds of a second is always replaced by a whole second, whatever the ratio, unless jitter is off.\<close>

lemma short_ttl_extended:
  assumes "random_unit u" and "f64_value u" and "0 < base" and "base \<le> 600000000" and "f64_value (Finite q)" and "0 < q" and "q \<le> 1 / 2"
  shows "calculate_jittered_ttl fused wild u base (Finite q) = 1000000000"
proof -
  have "(of_int base :: rat) \<le> 600000000" using assms(4) by simp
  then have "of_int base * (1 + q) \<le> 600000000 * (1 + 1 / 2)" using assms(6,7) by (intro mult_mono) simp_all
  then have "max 1000000000 (of_int base * (1 + q) + 3) = (1000000000 :: rat)" by simp
  moreover have "of_int (calculate_jittered_ttl fused wild u base (Finite q)) \<in>
      {max 1000000000 (of_int base * (1 - q) - 3) .. max 1000000000 (of_int base * (1 + q) + 3)}"
    by (rule ttl_within_ratio) (use assms in simp_all)
  ultimately have "of_int (calculate_jittered_ttl fused wild u base (Finite q)) = (1000000000 :: rat)" by auto
  then show ?thesis by (metis of_int_eq_iff of_int_numeral)
qed

lemma no_jitter: "0 < base \<Longrightarrow> f_le q (Finite 0) \<Longrightarrow> calculate_jittered_ttl fused wild u base q = base"
  by (simp add: calculate_jittered_ttl_def)


section \<open>Injected faults\<close>

record 'e fault_injector =
  failure_rate :: f64
  extra_delay :: duration
  custom_error :: "'e option"

definition new_fault_injector :: "'e \<Rightarrow> f64 \<Rightarrow> duration \<Rightarrow> 'e fault_injector" where
  "new_fault_injector injected failureRate extraDelay =
     \<lparr>failure_rate = failureRate, extra_delay = extraDelay, custom_error = Some injected\<rparr>"

datatype 'e fault_outcome = FaultCtxDone ctx_err | FaultInjected 'e | RanOperation "'e option"

text \<open>\<open>injected\<close> is \<open>ErrInjectedFault\<close>; \<open>delayed\<close> is the error of the context if it ends during the delay; \<open>run\<close> is what the
  operation returns.\<close>

definition fault_execute :: "'e \<Rightarrow> 'e fault_injector \<Rightarrow> ctx_err option \<Rightarrow> f64 \<Rightarrow> 'e option \<Rightarrow> 'e fault_outcome" where
  "fault_execute injected f delayed u run =
     (case (if 0 < extra_delay f then delayed else None) of
        Some e \<Rightarrow> FaultCtxDone e
      | None \<Rightarrow>
          if f_lt (Finite 0) (failure_rate f) \<and> f_lt u (failure_rate f)
          then FaultInjected (case custom_error f of Some e \<Rightarrow> e | None \<Rightarrow> injected)
          else RanOperation run)"

text \<open>A rate of zero never injects, a rate of one or more always does.\<close>

lemma fault_rates:
  assumes "random_unit u" and "extra_delay f \<le> 0"
  shows "f_le (failure_rate f) (Finite 0) \<Longrightarrow> fault_execute injected f d u run = RanOperation run"
    and "f_le (Finite 1) (failure_rate f) \<Longrightarrow> \<exists>e. fault_execute injected f d u run = FaultInjected e"
  using assms by (auto simp: fault_execute_def f_le_def random_unit_def) (cases "failure_rate f"; fastforce)+

end
