(* ===== verification/Job_Scheduling.thy ===== *)
theory Job_Scheduling
  imports Go_Strings
begin

text \<open>
  Background jobs: \<open>patterns/24_backgroundjobs/job_queue.go\<close> (the visibility queue) and
  \<open>patterns/24_backgroundjobs/job_retry.go\<close> (the retry coordinator). \<open>Dequeue\<close> ranges over
  the map of jobs and takes the first visible one, so it is given the visiting order; each operation is
  one critical section and reads the clock at most once.
\<close>

section \<open>The visibility queue\<close>

record job =
  job_id :: string
  payload :: string
  visible_after :: gotime
  attempts :: int
  job_max_attempts :: int

record visibility_queue =
  jobs :: "string \<rightharpoonup> job"
  visibility_timeout :: duration

definition new_visibility_queue :: "duration \<Rightarrow> visibility_queue" where
  "new_visibility_queue timeout =
     \<lparr>jobs = Map.empty, visibility_timeout = (if timeout \<le> 0 then 30 * 1000000000 else timeout)\<rparr>"

definition enqueue_job :: "visibility_queue \<Rightarrow> gotime \<Rightarrow> string \<Rightarrow> string \<Rightarrow> int \<Rightarrow> visibility_queue" where
  "enqueue_job q now i pl maxAttempts =
     q\<lparr>jobs := (jobs q)(i \<mapsto> \<lparr>job_id = i, payload = pl, visible_after = now, attempts = 0,
                              job_max_attempts = maxAttempts\<rparr>)\<rparr>"

text \<open>The copy of the job that \<open>Dequeue\<close> hands out.\<close>

definition copy_job :: "job \<Rightarrow> job" where
  "copy_job j = \<lparr>job_id = job_id j, payload = payload j, visible_after = visible_after j,
     attempts = attempts j, job_max_attempts = job_max_attempts j\<rparr>"

lemma copy_job_id [simp]: "copy_job j = j"
  by (simp add: copy_job_def)

fun dequeue_loop :: "visibility_queue \<Rightarrow> gotime \<Rightarrow> string list \<Rightarrow> job option \<times> visibility_queue" where
  "dequeue_loop q now [] = (None, q)"
| "dequeue_loop q now (k # ks) =
     (case jobs q k of
        None \<Rightarrow> dequeue_loop q now ks
      | Some j \<Rightarrow>
          if now > visible_after j then
            (let j1 = j\<lparr>attempts := i64 (attempts j + 1), visible_after := now + visibility_timeout q\<rparr>
             in (Some (copy_job j1), q\<lparr>jobs := (jobs q)(k \<mapsto> j1)\<rparr>))
          else dequeue_loop q now ks)"

text \<open>\<open>None\<close> is \<open>ErrNoJobAvailable\<close>.\<close>

definition dequeue_job :: "visibility_queue \<Rightarrow> gotime \<Rightarrow> string list \<Rightarrow> job option \<times> visibility_queue" where
  "dequeue_job q now order = dequeue_loop q now order"

definition heartbeat :: "visibility_queue \<Rightarrow> gotime \<Rightarrow> string \<Rightarrow> duration \<Rightarrow> bool \<times> visibility_queue" where
  "heartbeat q now i extension =
     (case jobs q i of
        None \<Rightarrow> (False, q)
      | Some j \<Rightarrow> (True, q\<lparr>jobs := (jobs q)(i \<mapsto> j\<lparr>visible_after := now + extension\<rparr>)\<rparr>))"

definition ack_job :: "visibility_queue \<Rightarrow> string \<Rightarrow> visibility_queue" where
  "ack_job q i = q\<lparr>jobs := (jobs q)(i := None)\<rparr>"

datatype queue_call =
    Enqueue gotime string string int
  | Dequeue gotime "string list"
  | Heartbeat gotime string duration
  | Ack string

primrec queue_exec :: "visibility_queue \<Rightarrow> queue_call \<Rightarrow> job option \<times> visibility_queue" where
  "queue_exec q (Enqueue now i pl m) = (None, enqueue_job q now i pl m)"
| "queue_exec q (Dequeue now order) = dequeue_job q now order"
| "queue_exec q (Heartbeat now i ext) = (None, snd (heartbeat q now i ext))"
| "queue_exec q (Ack i) = (None, ack_job q i)"

fun queue_run :: "visibility_queue \<Rightarrow> queue_call list \<Rightarrow> job option list \<times> visibility_queue" where
  "queue_run q [] = ([], q)"
| "queue_run q (c # cs) =
     (let (r, q1) = queue_exec q c; (rs, q2) = queue_run q1 cs in (r # rs, q2))"

definition keys_ok :: "visibility_queue \<Rightarrow> bool" where
  "keys_ok q \<longleftrightarrow> (\<forall>k j. jobs q k = Some j \<longrightarrow> job_id j = k)"

lemma dequeue_loop_some:
  "dequeue_loop q now ks = (Some r, q') \<Longrightarrow>
    \<exists>k j. k \<in> set ks \<and> jobs q k = Some j \<and> visible_after j < now
      \<and> r = j\<lparr>attempts := i64 (attempts j + 1), visible_after := now + visibility_timeout q\<rparr>
      \<and> q' = q\<lparr>jobs := (jobs q)(k \<mapsto> r)\<rparr>"
  by (induction q now ks rule: dequeue_loop.induct) (auto simp: Let_def split: option.splits if_splits)

lemma dequeue_loop_none:
  "dequeue_loop q now ks = (None, q') \<Longrightarrow>
    q' = q \<and> (\<forall>k\<in>set ks. \<forall>j. jobs q k = Some j \<longrightarrow> now \<le> visible_after j)"
  by (induction q now ks rule: dequeue_loop.induct) (auto simp: Let_def split: option.splits if_splits)

text \<open>Dequeue finds a job exactly when one is visible, whatever the iteration order of the map; it
  returns that job with one more attempt and hides it for the visibility timeout, and nothing else
  changes.\<close>

theorem dequeue_correct:
  assumes "iter_order order (jobs q)"
  shows "(fst (dequeue_job q now order) = None \<longleftrightarrow> (\<forall>k j. jobs q k = Some j \<longrightarrow> now \<le> visible_after j))
    \<and> (\<forall>r q'. dequeue_job q now order = (Some r, q') \<longrightarrow>
        (\<exists>k j. jobs q k = Some j \<and> visible_after j < now
          \<and> r = j\<lparr>attempts := i64 (attempts j + 1), visible_after := now + visibility_timeout q\<rparr>
          \<and> q' = q\<lparr>jobs := (jobs q)(k \<mapsto> r)\<rparr>))"
proof -
  have dom: "k \<in> set order" if "jobs q k = Some j" for k j using assms that by (auto simp: iter_order_def)
  obtain res q1 where d: "dequeue_loop q now order = (res, q1)" by (cases "dequeue_loop q now order")
  show ?thesis
  proof (cases res)
    case None
    with d dequeue_loop_none [of q now order q1] dom show ?thesis by (simp add: dequeue_job_def) blast
  next
    case (Some r)
    with d obtain k j where "jobs q k = Some j" "visible_after j < now"
        "r = j\<lparr>attempts := i64 (attempts j + 1), visible_after := now + visibility_timeout q\<rparr>"
        "q1 = q\<lparr>jobs := (jobs q)(k \<mapsto> r)\<rparr>"
      using dequeue_loop_some [of q now order r q1] by auto
    with d Some show ?thesis by (auto simp: dequeue_job_def not_le)
  qed
qed

definition demo_queue :: visibility_queue where
  "demo_queue = enqueue_job (new_visibility_queue 100) 5 ''j'' ''p'' 3"

lemma demo_queue_jobs: "jobs demo_queue = [''j'' \<mapsto> \<lparr>job_id = ''j'', payload = ''p'', visible_after = 5,
    attempts = 0, job_max_attempts = 3\<rparr>]" "visibility_timeout demo_queue = 100"
  by (simp_all add: demo_queue_def enqueue_job_def new_visibility_queue_def)

theorem dequeue_correct_witness:
  "fst (dequeue_job demo_queue 6 [''j'']) \<noteq> None \<and> fst (dequeue_job demo_queue 5 [''j'']) = None"
proof -
  have "iter_order [''j''] (jobs demo_queue)" by (simp add: iter_order_def demo_queue_jobs)
  from dequeue_correct [OF this, of 6] dequeue_correct [OF this, of 5] show ?thesis
    by (simp add: demo_queue_jobs)
qed

text \<open>A call that leaves the job \<open>i\<close> hidden until \<open>T\<close>: made by \<open>T\<close>, it neither puts a
  job of that id in nor shortens its visibility below \<open>T\<close>.\<close>

primrec keeps_hidden :: "string \<Rightarrow> gotime \<Rightarrow> queue_call \<Rightarrow> bool" where
  "keeps_hidden i T (Enqueue now k pl m) \<longleftrightarrow> k \<noteq> i"
| "keeps_hidden i T (Dequeue now order) \<longleftrightarrow> now \<le> T"
| "keeps_hidden i T (Heartbeat now k ext) \<longleftrightarrow> k = i \<longrightarrow> T \<le> now + ext"
| "keeps_hidden i T (Ack k) \<longleftrightarrow> True"

definition hidden_until :: "visibility_queue \<Rightarrow> string \<Rightarrow> gotime \<Rightarrow> bool" where
  "hidden_until q i T \<longleftrightarrow> (\<forall>j. jobs q i = Some j \<longrightarrow> T \<le> visible_after j)"

lemma exec_keeps_hidden:
  assumes "hidden_until q i T" and "keys_ok q" and "keeps_hidden i T c" and "queue_exec q c = (r, q')"
  shows "hidden_until q' i T \<and> keys_ok q' \<and> (\<forall>j. r = Some j \<longrightarrow> job_id j \<noteq> i)"
proof (cases c)
  case (Dequeue now order)
  show ?thesis
  proof (cases r)
    case None
    then show ?thesis using assms Dequeue dequeue_loop_none [of q now order q'] by (simp add: dequeue_job_def)
  next
    case (Some j)
    then obtain k j0 where k: "jobs q k = Some j0" "visible_after j0 < now"
        "j = j0\<lparr>attempts := i64 (attempts j0 + 1), visible_after := now + visibility_timeout q\<rparr>"
        "q' = q\<lparr>jobs := (jobs q)(k \<mapsto> j)\<rparr>"
      using assms(4) Dequeue dequeue_loop_some [of q now order j q'] by (auto simp: dequeue_job_def)
    have "k \<noteq> i" using assms(1,3) k(1,2) Dequeue by (auto simp: hidden_until_def)
    moreover have "job_id j0 = k" using assms(2) k(1) by (simp add: keys_ok_def)
    ultimately show ?thesis using assms(1,2) k Some by (auto simp: hidden_until_def keys_ok_def)
  qed
next
  case (Enqueue now k pl m)
  then show ?thesis using assms
    by (auto simp: hidden_until_def keys_ok_def enqueue_job_def split: if_splits)
next
  case (Heartbeat now k ext)
  then show ?thesis using assms
    by (auto simp: hidden_until_def keys_ok_def heartbeat_def split: option.splits if_splits)
next
  case (Ack k)
  then show ?thesis using assms by (auto simp: hidden_until_def keys_ok_def ack_job_def split: if_splits)
qed

lemma run_keeps_hidden:
  "hidden_until q i T \<Longrightarrow> keys_ok q \<Longrightarrow> \<forall>c\<in>set cs. keeps_hidden i T c \<Longrightarrow>
    Some j \<in> set (fst (queue_run q cs)) \<Longrightarrow> job_id j \<noteq> i"
proof (induction cs arbitrary: q)
  case Nil
  then show ?case by simp
next
  case (Cons c cs)
  obtain r q1 where r: "queue_exec q c = (r, q1)" by (cases "queue_exec q c")
  from exec_keeps_hidden [OF Cons.prems(1,2) _ r] Cons.prems(3)
  have h: "hidden_until q1 i T" "keys_ok q1" "\<forall>j. r = Some j \<longrightarrow> job_id j \<noteq> i" by auto
  from Cons.prems(4) r have "r = Some j \<or> Some j \<in> set (fst (queue_run q1 cs))"
    by (auto split: prod.splits)
  then show ?case using h Cons.IH [OF h(1,2)] Cons.prems(3) by auto
qed

text \<open>a job in progress is not handed out twice. After a Dequeue at time t, no call returns the same job
  up to t + VisibilityTimeout, whatever other calls run, as long as heartbeats do not shorten its
  visibility and no job of the same id is enqueued.\<close>

theorem visibility_exclusive:
  assumes "keys_ok q" and "dequeue_job q now order = (Some j, q')"
    and "\<forall>c\<in>set cs. keeps_hidden (job_id j) (now + visibility_timeout q) c"
    and "Some j' \<in> set (fst (queue_run q' cs))"
  shows "job_id j' \<noteq> job_id j"
proof -
  obtain k j0 where k: "jobs q k = Some j0"
      "j = j0\<lparr>attempts := i64 (attempts j0 + 1), visible_after := now + visibility_timeout q\<rparr>"
      "q' = q\<lparr>jobs := (jobs q)(k \<mapsto> j)\<rparr>"
    using assms(2) dequeue_loop_some [of q now order j q'] by (auto simp: dequeue_job_def)
  have "job_id j = k" using assms(1) k(1,2) by (simp add: keys_ok_def)
  then have "hidden_until q' (job_id j) (now + visibility_timeout q)" "keys_ok q'"
    using k assms(1) by (auto simp: hidden_until_def keys_ok_def)
  from run_keeps_hidden [OF this assms(3,4)] show ?thesis .
qed

definition demo_queue2 :: visibility_queue where
  "demo_queue2 = enqueue_job demo_queue 5 ''k'' ''p'' 3"

theorem visibility_exclusive_witness:
  "\<exists>j j' q'. dequeue_job demo_queue2 6 [''j'', ''k''] = (Some j, q')
     \<and> Some j' \<in> set (fst (queue_run q' [Heartbeat 7 ''j'' 200, Dequeue 8 [''j'', ''k'']])) \<and> job_id j' \<noteq> job_id j"
proof -
  define j q' where "j = the (fst (dequeue_job demo_queue2 6 [''j'', ''k'']))"
    and "q' = snd (dequeue_job demo_queue2 6 [''j'', ''k''])"
  define j' where "j' = the (fst (queue_run q' [Heartbeat 7 ''j'' 200, Dequeue 8 [''j'', ''k'']]) ! 1)"
  note defs = demo_queue2_def enqueue_job_def demo_queue_jobs dequeue_job_def heartbeat_def i64_def Let_def
  have ok: "keys_ok demo_queue2" by (auto simp: keys_ok_def defs split: if_splits)
  have d: "dequeue_job demo_queue2 6 [''j'', ''k''] = (Some j, q')"
    by (simp add: j_def q'_def defs)
  have ids: "job_id j = ''j''" "visibility_timeout demo_queue2 = 100" by (simp_all add: j_def defs)
  have m: "Some j' \<in> set (fst (queue_run q' [Heartbeat 7 ''j'' 200, Dequeue 8 [''j'', ''k'']]))"
    by (simp add: j'_def q'_def defs)
  have "job_id j' \<noteq> job_id j"
    by (rule visibility_exclusive [OF ok d _ m]) (simp add: ids)
  with d m show ?thesis by blast
qed

text \<open>At-least-once: only \<open>Ack\<close> removes a job.\<close>

lemma unacked_job_stays:
  "jobs q i \<noteq> None \<Longrightarrow> Ack i \<notin> set cs \<Longrightarrow> jobs (snd (queue_run q cs)) i \<noteq> None"
proof (induction cs arbitrary: q)
  case Nil
  then show ?case by simp
next
  case (Cons c cs)
  obtain r q1 where r: "queue_exec q c = (r, q1)" by (cases "queue_exec q c")
  have "jobs q1 i \<noteq> None"
  proof (cases c)
    case (Dequeue now order)
    with r dequeue_loop_some [of q now order _ q1] dequeue_loop_none [of q now order q1] Cons.prems(1)
    show ?thesis by (cases r) (auto simp: dequeue_job_def)
  qed (use Cons.prems r in \<open>auto simp: enqueue_job_def heartbeat_def ack_job_def split: option.splits\<close>)
  from Cons.IH [OF this] Cons.prems(2) r show ?case by (auto split: prod.split)
qed


section \<open>The retry coordinator\<close>

datatype job_state = StateReady | StateRetrying | StateQuarantined

text \<open>A \<open>time.Time\<close> that may be the zero time is an option.\<close>

record managed_job =
  mj_id :: string
  mj_state :: job_state
  mj_attempts :: int
  mj_max_attempts :: int
  mj_next_run :: "gotime option"
  mj_last_error :: string

fun job_state_text :: "job_state \<Rightarrow> string" where
  "job_state_text StateReady = ''READY''"
| "job_state_text StateRetrying = ''RETRYING''"
| "job_state_text StateQuarantined = ''QUARANTINED''"

definition managed_job_string :: "managed_job \<Rightarrow> string" where
  "managed_job_string j =
     ''Job['' @ mj_id j @ '' state='' @ job_state_text (mj_state j) @ '' attempts='' @ itoa (mj_attempts j) @ ''/'' @
       itoa (mj_max_attempts j) @ '' err='' @ mj_last_error j @ '']''"

record retry_coordinator =
  base_backoff :: duration
  max_backoff :: duration

definition new_job_retry_coordinator :: "duration \<Rightarrow> duration \<Rightarrow> retry_coordinator" where
  "new_job_retry_coordinator baseBackoff maxBackoff =
     \<lparr>base_backoff = (if baseBackoff \<le> 0 then 1 * 1000000000 else baseBackoff),
      max_backoff = (if maxBackoff \<le> 0 then 3600 * 1000000000 else maxBackoff)\<rparr>"

text \<open>\<open>1 << uint(n)\<close> on 64 bits: a negative \<open>n\<close> converts to a shift of more than 63 bits.\<close>

definition shl_one :: "int \<Rightarrow> int" where
  "shl_one n = (if 0 \<le> n then i64 (2 ^ nat n) else 0)"

definition retry_delay :: "retry_coordinator \<Rightarrow> int \<Rightarrow> duration" where
  "retry_delay c n =
     (let multiplier = shl_one (i64 (n - 1));
          delay = i64 (base_backoff c * multiplier)
      in if delay > max_backoff c then max_backoff c else delay)"

definition handle_job_failure :: "retry_coordinator \<Rightarrow> managed_job \<Rightarrow> string \<Rightarrow> gotime \<Rightarrow> managed_job" where
  "handle_job_failure c j failureErr now =
     (let j1 = j\<lparr>mj_attempts := i64 (mj_attempts j + 1), mj_last_error := failureErr\<rparr>
      in if mj_attempts j1 \<ge> mj_max_attempts j1
         then j1\<lparr>mj_state := StateQuarantined, mj_next_run := None\<rparr>
         else j1\<lparr>mj_state := StateRetrying, mj_next_run := Some (now + retry_delay c (mj_attempts j1))\<rparr>)"

lemma pow2_mono: "m \<le> n \<Longrightarrow> (2 :: int) ^ nat m \<le> 2 ^ nat n"
  by (intro power_increasing) auto

lemma retry_delay_exact:
  assumes "1 \<le> n" and "in64 n" and "0 < base_backoff c"
    and "base_backoff c * 2 ^ nat (n - 1) < 9223372036854775808"
  shows "retry_delay c n = min (base_backoff c * 2 ^ nat (n - 1)) (max_backoff c)"
proof -
  have n: "i64 (n - 1) = n - 1" using assms(1,2) by (simp add: in64_def)
  have "(2 :: int) ^ nat (n - 1) \<le> base_backoff c * 2 ^ nat (n - 1)" using assms(3) by simp
  then have "(2 :: int) ^ nat (n - 1) < 9223372036854775808" using assms(4) by linarith
  then have p: "i64 (2 ^ nat (n - 1)) = (2 :: int) ^ nat (n - 1)"
    by (intro i64_id) (simp add: in64_def order.trans [of _ 0])
  have "0 \<le> base_backoff c * 2 ^ nat (n - 1)" using assms(3) by simp
  then have d: "i64 (base_backoff c * 2 ^ nat (n - 1)) = base_backoff c * 2 ^ nat (n - 1)"
    using assms(4) by (intro i64_id) (simp add: in64_def)
  show ?thesis using assms(1) by (simp add: retry_delay_def shl_one_def n p d Let_def min_def)
qed

fun fail_times :: "retry_coordinator \<Rightarrow> managed_job \<Rightarrow> (string \<times> gotime) list \<Rightarrow> managed_job" where
  "fail_times c j [] = j"
| "fail_times c j ((e, now) # fs) = fail_times c (handle_job_failure c j e now) fs"

lemma fail_times_attempts:
  "mj_max_attempts (fail_times c j fs) = mj_max_attempts j
   \<and> (0 \<le> mj_attempts j \<longrightarrow> mj_attempts j + int (length fs) < 9223372036854775808 \<longrightarrow>
        mj_attempts (fail_times c j fs) = mj_attempts j + int (length fs))"
proof (induction c j fs rule: fail_times.induct)
  case (1 c j)
  then show ?case by simp
next
  case (2 c j e now fs)
  let ?j = "handle_job_failure c j e now"
  have m: "mj_max_attempts ?j = mj_max_attempts j" "mj_attempts ?j = i64 (mj_attempts j + 1)"
    by (simp_all add: handle_job_failure_def Let_def)
  have "i64 (mj_attempts j + 1) = mj_attempts j + 1"
    if "0 \<le> mj_attempts j" "mj_attempts j + int (length ((e, now) # fs)) < 9223372036854775808"
    using that by (intro i64_id) (simp add: in64_def)
  with 2 m show ?case by auto
qed

text \<open>a job is quarantined by its MaxAttempts-th failure and not before; while the doubling fits in 64
  bits, the wait after the k-th failure is base * 2^(k-1) capped by the maximum.\<close>

theorem quarantine_after_max_attempts:
  assumes "mj_attempts j = 0" and "0 < base_backoff c"
    and "base_backoff c * 2 ^ length fs < 9223372036854775808"
  shows "let k = int (length fs) + 1; j' = fail_times c j (fs @ [(e, now)]) in
    mj_last_error j' = e \<and>
    (if k < mj_max_attempts j
     then mj_state j' = StateRetrying
       \<and> mj_next_run j' = Some (now + min (base_backoff c * 2 ^ length fs) (max_backoff c))
     else mj_state j' = StateQuarantined \<and> mj_next_run j' = None)"
proof -
  have split: "fail_times c j (fs @ [(e, now)]) = handle_job_failure c (fail_times c j fs) e now" for j
    by (induction c j fs rule: fail_times.induct) simp_all
  have "int (length fs) < 2 ^ length fs" by (metis less_exp of_nat_less_iff of_nat_numeral of_nat_power)
  also have "(2 :: int) ^ length fs \<le> base_backoff c * 2 ^ length fs" using assms(2) by simp
  finally have len: "int (length fs) + 1 < 9223372036854775808" using assms(3) by linarith
  have a: "mj_attempts (fail_times c j fs) = int (length fs)"
    "mj_max_attempts (fail_times c j fs) = mj_max_attempts j"
    using fail_times_attempts [of c j fs] assms(1) len by auto
  have k: "i64 (int (length fs) + 1) = int (length fs) + 1" using len by (intro i64_id) (simp add: in64_def)
  have d: "retry_delay c (int (length fs) + 1) = min (base_backoff c * 2 ^ length fs) (max_backoff c)"
    using retry_delay_exact [of "int (length fs) + 1" c] assms(2,3) len by (simp add: in64_def)
  show ?thesis
    by (simp add: split handle_job_failure_def a k d Let_def)
qed

definition demo_managed :: managed_job where
  "demo_managed = \<lparr>mj_id = ''m'', mj_state = StateReady, mj_attempts = 0, mj_max_attempts = 2,
     mj_next_run = None, mj_last_error = []\<rparr>"

theorem quarantine_after_max_attempts_witness:
  "mj_state (fail_times (new_job_retry_coordinator 0 0) demo_managed [(''e'', 1), (''f'', 2)]) = StateQuarantined
   \<and> mj_next_run (fail_times (new_job_retry_coordinator 0 0) demo_managed [(''e'', 1)]) = Some 1000000001"
  using quarantine_after_max_attempts [of demo_managed "new_job_retry_coordinator 0 0" "[(''e'', 1)]" "''f''" 2]
    quarantine_after_max_attempts [of demo_managed "new_job_retry_coordinator 0 0" "[]" "''e''" 1]
  by (simp add: demo_managed_def new_job_retry_coordinator_def Let_def)

text \<open>beyond that the backoff overflows. With the default base of one second, the 35th failure of a job
  that may be tried 50 times schedules it in the past, and from the 56th attempt on every further wait of
  a job with more attempts is zero: such a job is retried immediately.\<close>

theorem backoff_overflow:
  "retry_delay (new_job_retry_coordinator 0 0) 35 < 0
   \<and> retry_delay (new_job_retry_coordinator 0 0) 56 = 0
   \<and> mj_next_run (handle_job_failure (new_job_retry_coordinator 0 0)
       (demo_managed\<lparr>mj_attempts := 34, mj_max_attempts := 50\<rparr>) ''e'' 0) = Some (- 1266874889709551616)"
  by (simp add: retry_delay_def shl_one_def new_job_retry_coordinator_def handle_job_failure_def
      demo_managed_def i64_def Let_def)

end
