(* ===== verification/Keyed_Mutex.thy ===== *)
theory Keyed_Mutex
  imports Slot_Contract
begin

text \<open>
  \<open>patterns/23_dataintegrity/pessimistic_lock.go\<close>: one mutex per key, kept in a map while some
  goroutine uses it. An entry is an object of the heap with its reference count and whether its own
  mutex is locked; the map and the counts change under the global mutex, so each of those sections is
  one step. \<open>Lock\<close> is two steps (find or make the entry and count oneself in, then lock the
  entry), the unlock closure two more (unlock the entry, then count oneself out and drop an unused
  entry). Any goroutine may start on any key whenever it is not inside.
\<close>

record key_ref_mutex =
  locked :: bool
  ref_count :: int

datatype km_pc = KOut | KWaiting string nat | KHolding string nat | KReleasing string nat

record keyed_lock =
  locks :: "string \<rightharpoonup> nat"
  entries :: "nat \<Rightarrow> key_ref_mutex"
  next_entry :: nat
  km_pc :: "nat \<Rightarrow> km_pc"

definition new_keyed_lock :: keyed_lock where
  "new_keyed_lock = \<lparr>locks = Map.empty, entries = (\<lambda>r. \<lparr>locked = False, ref_count = 0\<rparr>),
     next_entry = 0, km_pc = (\<lambda>t. KOut)\<rparr>"

definition km_find :: "keyed_lock \<Rightarrow> string \<Rightarrow> nat \<times> keyed_lock" where
  "km_find l key =
     (case locks l key of
        Some r \<Rightarrow> (r, l)
      | None \<Rightarrow>
          (next_entry l,
           l\<lparr>locks := (locks l)(key \<mapsto> next_entry l),
             entries := (entries l)(next_entry l := \<lparr>locked = False, ref_count = 0\<rparr>),
             next_entry := next_entry l + 1\<rparr>))"

definition set_entry :: "keyed_lock \<Rightarrow> nat \<Rightarrow> key_ref_mutex \<Rightarrow> keyed_lock" where
  "set_entry l r e = l\<lparr>entries := (entries l)(r := e)\<rparr>"

definition km_goto :: "keyed_lock \<Rightarrow> nat \<Rightarrow> km_pc \<Rightarrow> keyed_lock" where
  "km_goto l t c = l\<lparr>km_pc := (km_pc l)(t := c)\<rparr>"

definition lock_enter :: "keyed_lock \<Rightarrow> nat \<Rightarrow> string \<Rightarrow> keyed_lock" where
  "lock_enter l t key =
     (let (r, l1) = km_find l key;
          e = entries l1 r
      in km_goto (set_entry l1 r (e\<lparr>ref_count := i64 (ref_count e + 1)\<rparr>)) t (KWaiting key r))"

definition unlock_leave :: "keyed_lock \<Rightarrow> nat \<Rightarrow> string \<Rightarrow> nat \<Rightarrow> keyed_lock" where
  "unlock_leave l t key r =
     (let e = entries l r;
          e1 = e\<lparr>ref_count := i64 (ref_count e - 1)\<rparr>;
          l1 = set_entry l r e1;
          l2 = (if ref_count e1 = 0 then l1\<lparr>locks := (locks l1)(key := None)\<rparr> else l1)
      in km_goto l2 t KOut)"

inductive km_step :: "keyed_lock \<Rightarrow> keyed_lock \<Rightarrow> bool" where
  km_enter: "km_pc l t = KOut \<Longrightarrow> km_step l (lock_enter l t key)"
| km_lock: "km_pc l t = KWaiting key r \<Longrightarrow> \<not> locked (entries l r) \<Longrightarrow>
    km_step l (km_goto (set_entry l r ((entries l r)\<lparr>locked := True\<rparr>)) t (KHolding key r))"
| km_unlock: "km_pc l t = KHolding key r \<Longrightarrow>
    km_step l (km_goto (set_entry l r ((entries l r)\<lparr>locked := False\<rparr>)) t (KReleasing key r))"
| km_leave: "km_pc l t = KReleasing key r \<Longrightarrow> km_step l (unlock_leave l t key r)"

code_pred [show_modes] km_step .

inductive_cases km_stepE: "km_step l l'"

definition using_entry :: "keyed_lock \<Rightarrow> nat \<rightharpoonup> nat" where
  "using_entry l t = (case km_pc l t of KOut \<Rightarrow> None | KWaiting k r \<Rightarrow> Some r | KHolding k r \<Rightarrow> Some r
     | KReleasing k r \<Rightarrow> Some r)"

definition using_key :: "keyed_lock \<Rightarrow> nat \<rightharpoonup> string" where
  "using_key l t = (case km_pc l t of KOut \<Rightarrow> None | KWaiting k r \<Rightarrow> Some k | KHolding k r \<Rightarrow> Some k
     | KReleasing k r \<Rightarrow> Some k)"

text \<open>At most \<open>2^63 - 1\<close> goroutines use the lock at a time; the counts are exact below that.\<close>

definition few :: "keyed_lock \<Rightarrow> bool" where
  "few l \<longleftrightarrow> (\<forall>r. int (card (holders (using_entry l) r)) < 9223372036854775807)"

definition km_inv :: "keyed_lock \<Rightarrow> bool" where
  "km_inv l \<longleftrightarrow>
     (\<forall>t k r. using_key l t = Some k \<longrightarrow> using_entry l t = Some r \<longrightarrow> locks l k = Some r)
   \<and> (\<forall>k r. locks l k = Some r \<longrightarrow> r < next_entry l)
   \<and> (\<forall>k k' r. locks l k = Some r \<longrightarrow> locks l k' = Some r \<longrightarrow> k = k')
   \<and> (\<forall>k r. locks l k = Some r \<longrightarrow> holders (using_entry l) r \<noteq> {})
   \<and> (\<forall>r. finite (holders (using_entry l) r)
        \<and> (r < next_entry l \<longrightarrow> ref_count (entries l r) = int (card (holders (using_entry l) r))))
   \<and> (\<forall>t k r. km_pc l t = KHolding k r \<longrightarrow> locked (entries l r))
   \<and> (\<forall>t u k k' r. km_pc l t = KHolding k r \<longrightarrow> km_pc l u = KHolding k' r \<longrightarrow> t = u)"

lemma km_invD:
  assumes "km_inv l"
  shows "\<And>t k r. using_key l t = Some k \<Longrightarrow> using_entry l t = Some r \<Longrightarrow> locks l k = Some r"
    "\<And>k r. locks l k = Some r \<Longrightarrow> r < next_entry l"
    "\<And>k k' r. locks l k = Some r \<Longrightarrow> locks l k' = Some r \<Longrightarrow> k = k'"
    "\<And>k r. locks l k = Some r \<Longrightarrow> holders (using_entry l) r \<noteq> {}"
    "\<And>r. finite (holders (using_entry l) r)"
    "\<And>r. r < next_entry l \<Longrightarrow> ref_count (entries l r) = int (card (holders (using_entry l) r))"
    "\<And>t k r. km_pc l t = KHolding k r \<Longrightarrow> locked (entries l r)"
    "\<And>t u k k' r. km_pc l t = KHolding k r \<Longrightarrow> km_pc l u = KHolding k' r \<Longrightarrow> t = u"
  using assms unfolding km_inv_def by blast+

lemma km_goto_simps [simp]: "locks (km_goto l t c) = locks l" "entries (km_goto l t c) = entries l"
  "next_entry (km_goto l t c) = next_entry l" "km_pc (km_goto l t c) = (km_pc l)(t := c)"
  by (simp_all add: km_goto_def)

lemma set_entry_simps [simp]: "locks (set_entry l r e) = locks l"
  "entries (set_entry l r e) = (entries l)(r := e)" "next_entry (set_entry l r e) = next_entry l"
  "km_pc (set_entry l r e) = km_pc l"
  by (simp_all add: set_entry_def)

definition pc_entry :: "km_pc \<Rightarrow> nat option" where
  "pc_entry c = (case c of KOut \<Rightarrow> None | KWaiting k r \<Rightarrow> Some r | KHolding k r \<Rightarrow> Some r | KReleasing k r \<Rightarrow> Some r)"

definition pc_key :: "km_pc \<Rightarrow> string option" where
  "pc_key c = (case c of KOut \<Rightarrow> None | KWaiting k r \<Rightarrow> Some k | KHolding k r \<Rightarrow> Some k | KReleasing k r \<Rightarrow> Some k)"

lemma pc_entry_simps [simp]: "pc_entry KOut = None" "pc_entry (KWaiting k r) = Some r"
  "pc_entry (KHolding k r) = Some r" "pc_entry (KReleasing k r) = Some r"
  "pc_key KOut = None" "pc_key (KWaiting k r) = Some k" "pc_key (KHolding k r) = Some k"
  "pc_key (KReleasing k r) = Some k"
  by (simp_all add: pc_entry_def pc_key_def)

lemma using_eq: "using_entry l = (\<lambda>t. pc_entry (km_pc l t))" "using_key l = (\<lambda>t. pc_key (km_pc l t))"
  by (simp_all add: using_entry_def using_key_def pc_entry_def pc_key_def fun_eq_iff)

lemma using_goto: "using_entry (km_goto l t c) = (using_entry l)(t := pc_entry c)"
  "using_key (km_goto l t c) = (using_key l)(t := pc_key c)"
  by (auto simp: using_eq)

lemma using_frame [simp]: "using_entry (set_entry l r e) = using_entry l" "using_key (set_entry l r e) = using_key l"
  "using_entry (l\<lparr>locks := m\<rparr>) = using_entry l" "using_key (l\<lparr>locks := m\<rparr>) = using_key l"
  by (simp_all add: using_eq)

lemma using_both: "using_entry l t = Some r \<Longrightarrow> \<exists>k. using_key l t = Some k"
  by (cases "km_pc l t") (auto simp: using_eq)

lemma km_inv_new: "km_inv new_keyed_lock"
  by (auto simp: km_inv_def new_keyed_lock_def using_eq holders_def)

lemma user_below: "km_inv l \<Longrightarrow> using_entry l t = Some r \<Longrightarrow> r < next_entry l"
  using using_both [of l t r] km_invD(1,2) by blast

text \<open>A goroutine that comes in on a key that has an entry already.\<close>

lemma km_inv_join:
  assumes "km_inv l" and "km_pc l t = KOut" and "locks l key = Some r" and "few (lock_enter l t key)"
  shows "km_inv (lock_enter l t key)"
proof -
  note I = km_invD [OF assms(1)]
  let ?e = "(entries l r)\<lparr>ref_count := i64 (ref_count (entries l r) + 1)\<rparr>"
  have l': "lock_enter l t key = km_goto (set_entry l r ?e) t (KWaiting key r)"
    using assms(3) by (simp add: lock_enter_def km_find_def Let_def)
  have t: "using_entry l t = None" "using_key l t = None" using assms(2) by (simp_all add: using_eq)
  have r: "r < next_entry l" using I(2) assms(3) by blast
  have H: "holders ((using_entry l)(t \<mapsto> r)) q = (if q = r then insert t (holders (using_entry l) r)
      else holders (using_entry l) q)" for q
    using t by (auto simp: holders_def)
  have card_r: "card (insert t (holders (using_entry l) r)) = card (holders (using_entry l) r) + 1"
    using t I(5) [of r] by simp
  have "int (card (holders (using_entry (lock_enter l t key)) r)) < 9223372036854775807"
    using assms(4) by (simp add: few_def)
  then have small: "i64 (ref_count (entries l r) + 1) = int (card (holders (using_entry l) r)) + 1"
    using I(6) [OF r] card_r by (simp add: l' using_goto H in64_def)
  show ?thesis
    unfolding km_inv_def l' using_goto
  proof (intro conjI allI impI)
    fix u k q
    assume "((using_key (set_entry l r ?e))(t := pc_key (KWaiting key r))) u = Some k"
      and "((using_entry (set_entry l r ?e))(t := pc_entry (KWaiting key r))) u = Some q"
    then show "locks (km_goto (set_entry l r ?e) t (KWaiting key r)) k = Some q"
      using I(1) [of u k q] assms(3) by (auto split: if_splits)
  next
    fix k q
    assume "locks (km_goto (set_entry l r ?e) t (KWaiting key r)) k = Some q"
    then have k: "locks l k = Some q" by simp
    show "q < next_entry (km_goto (set_entry l r ?e) t (KWaiting key r))" using I(2) k by simp
    show "holders ((using_entry (set_entry l r ?e))(t := pc_entry (KWaiting key r))) q \<noteq> {}"
      using I(4) [OF k] by (simp add: H)
  next
    fix k k' q
    assume "locks (km_goto (set_entry l r ?e) t (KWaiting key r)) k = Some q"
      and "locks (km_goto (set_entry l r ?e) t (KWaiting key r)) k' = Some q"
    then show "k = k'" using I(3) by simp
  next
    fix q
    show "finite (holders ((using_entry (set_entry l r ?e))(t := pc_entry (KWaiting key r))) q)"
      using I(5) by (simp add: H)
    assume "q < next_entry (km_goto (set_entry l r ?e) t (KWaiting key r))"
    then show "ref_count (entries (km_goto (set_entry l r ?e) t (KWaiting key r)) q) =
        int (card (holders ((using_entry (set_entry l r ?e))(t := pc_entry (KWaiting key r))) q))"
      using I(6) [of q] small card_r by (simp add: H)
  next
    fix u k q
    assume "km_pc (km_goto (set_entry l r ?e) t (KWaiting key r)) u = KHolding k q"
    then show "locked (entries (km_goto (set_entry l r ?e) t (KWaiting key r)) q)"
      using I(7) [of u k q] by (auto split: if_splits)
  next
    fix u v k k' q
    assume "km_pc (km_goto (set_entry l r ?e) t (KWaiting key r)) u = KHolding k q"
      and "km_pc (km_goto (set_entry l r ?e) t (KWaiting key r)) v = KHolding k' q"
    then show "u = v" using I(8) [of u k q v k'] by (auto split: if_splits)
  qed
qed

text \<open>The first goroutine on a key.\<close>

lemma km_inv_fresh:
  assumes "km_inv l" and "km_pc l t = KOut" and "locks l key = None"
  shows "km_inv (lock_enter l t key)"
proof -
  note I = km_invD [OF assms(1)]
  let ?n = "next_entry l"
  let ?l' = "km_goto (l\<lparr>locks := (locks l)(key \<mapsto> ?n),
      entries := (entries l)(?n := \<lparr>locked = False, ref_count = 1\<rparr>), next_entry := Suc ?n\<rparr>) t (KWaiting key ?n)"
  have l': "lock_enter l t key = ?l'"
    using assms(3) by (simp add: lock_enter_def km_find_def Let_def set_entry_def i64_def)
  have t: "using_entry l t = None" "using_key l t = None" using assms(2) by (simp_all add: using_eq)
  have below: "using_entry l u = Some q \<Longrightarrow> q < ?n" for u q using user_below [OF assms(1)] by blast
  have none: "holders (using_entry l) ?n = {}" using below by (fastforce simp: holders_def)
  have E: "using_entry ?l' = (using_entry l)(t \<mapsto> ?n)" "using_key ?l' = (using_key l)(t \<mapsto> key)"
    by (auto simp: using_eq)
  have H: "holders (using_entry ?l') q = (if q = ?n then {t} else holders (using_entry l) q)" for q
    using t none unfolding E by (auto simp: holders_def)
  have lk: "locks ?l' = (locks l)(key \<mapsto> ?n)" "next_entry ?l' = Suc ?n" by simp_all
  show ?thesis
    unfolding km_inv_def l'
  proof (intro conjI allI impI)
    fix u k q
    assume "using_key ?l' u = Some k" and "using_entry ?l' u = Some q"
    then show "locks ?l' k = Some q"
      using I(1) [of u k q] assms(3) unfolding E lk by (auto split: if_splits)
  next
    fix k q
    assume "locks ?l' k = Some q"
    then have k: "k = key \<and> q = ?n \<or> locks l k = Some q" by (auto split: if_splits)
    then show "q < next_entry ?l'" using I(2) by fastforce
    show "holders (using_entry ?l') q \<noteq> {}" using k I(4) by (auto simp: H)
  next
    fix k k' q
    assume "locks ?l' k = Some q" and "locks ?l' k' = Some q"
    then show "k = k'" using I(3) [of k q k'] I(2) by (force split: if_splits)
  next
    fix q
    show "finite (holders (using_entry ?l') q)" using I(5) by (simp add: H)
    assume "q < next_entry ?l'"
    then show "ref_count (entries ?l' q) = int (card (holders (using_entry ?l') q))"
      using I(6) [of q] unfolding H by auto
  next
    fix u k q
    assume "km_pc ?l' u = KHolding k q"
    then have "km_pc l u = KHolding k q" by (auto split: if_splits)
    with I(7) [OF this] below [of u q] show "locked (entries ?l' q)" by (auto simp: using_eq)
  next
    fix u v k k' q
    assume "km_pc ?l' u = KHolding k q" and "km_pc ?l' v = KHolding k' q"
    then show "u = v" using I(8) [of u k q v k'] by (auto split: if_splits)
  qed
qed

text \<open>Steps that keep a goroutine on its entry: locking and unlocking the entry.\<close>

lemma km_inv_stay:
  assumes "km_inv l" and "using_entry l t = Some r" and "using_key l t = Some key"
    and "pc_entry c = Some r" and "pc_key c = Some key"
    and "\<And>u k. u \<noteq> t \<Longrightarrow> km_pc l u \<noteq> KHolding k r" and "(\<exists>k. c = KHolding k r) \<Longrightarrow> b"
  shows "km_inv (km_goto (set_entry l r ((entries l r)\<lparr>locked := b\<rparr>)) t c)"
proof -
  let ?l' = "km_goto (set_entry l r ((entries l r)\<lparr>locked := b\<rparr>)) t c"
  note I = km_invD [OF assms(1)]
  have E: "using_entry ?l' = using_entry l" "using_key ?l' = using_key l"
    using assms(2-5) by (auto simp: using_goto)
  have hold: "km_pc ?l' u = KHolding k q \<Longrightarrow> km_pc l u = KHolding k q \<and> u \<noteq> t \<and> q \<noteq> r \<or> u = t \<and> q = r \<and> b" for u k q
    using assms(4,6,7) by (cases "u = t") auto
  show ?thesis
    unfolding km_inv_def E
  proof (intro conjI allI impI)
    fix u k q
    assume "km_pc ?l' u = KHolding k q"
    from hold [OF this] I(7) [of u k q] show "locked (entries ?l' q)" by auto
  next
    fix u v k k' q
    assume "km_pc ?l' u = KHolding k q" and "km_pc ?l' v = KHolding k' q"
    from hold [OF this(1)] hold [OF this(2)] I(8) [of u k q v k'] show "u = v" by auto
  next
    fix q
    assume "q < next_entry ?l'"
    then show "ref_count (entries ?l' q) = int (card (holders (using_entry l) q))"
      using I(6) [of q] by (cases "q = r") simp_all
  qed (use I(1-5) in auto)
qed

lemma km_inv_leave:
  assumes "km_inv l" and "km_pc l t = KReleasing key r" and "few l"
  shows "km_inv (unlock_leave l t key r)"
proof -
  note I = km_invD [OF assms(1)]
  have t: "using_entry l t = Some r" "using_key l t = Some key" using assms(2) by (simp_all add: using_eq)
  have lk: "locks l key = Some r" using I(1) t by blast
  have r: "r < next_entry l" using I(2) lk by blast
  have pos: "0 < card (holders (using_entry l) r)" using t I(5) [of r] by (auto simp: card_gt_0_iff)
  have small: "i64 (ref_count (entries l r) - 1) = int (card (holders (using_entry l) r)) - 1"
  proof -
    have "int (card (holders (using_entry l) r)) < 9223372036854775807" using assms(3) unfolding few_def by blast
    then show ?thesis using I(6) [OF r] pos by (intro trans [OF i64_id]) (simp_all add: in64_def)
  qed
  let ?l' = "unlock_leave l t key r"
  define m where "m = (if card (holders (using_entry l) r) = 1 then (locks l)(key := None) else locks l)"
  have f: "locks ?l' = m" "next_entry ?l' = next_entry l" "km_pc ?l' = (km_pc l)(t := KOut)"
    "entries ?l' = (entries l)(r := (entries l r)\<lparr>ref_count := int (card (holders (using_entry l) r)) - 1\<rparr>)"
    using small pos by (auto simp: unlock_leave_def Let_def m_def)
  have E: "using_entry ?l' = (using_entry l)(t := None)" "using_key ?l' = (using_key l)(t := None)"
    by (auto simp: using_eq f)
  have H: "holders (using_entry ?l') q = holders (using_entry l) q - {t}" for q by (simp add: E holders_del)
  have card_r: "card (holders (using_entry l) r - {t}) = card (holders (using_entry l) r) - 1"
    using t by (simp add: card_Diff_singleton)
  have other: "q \<noteq> r \<Longrightarrow> holders (using_entry l) q - {t} = holders (using_entry l) q" for q using t by auto
  have alone: "u = t" if "card (holders (using_entry l) r) = 1" "using_entry l u = Some r" for u
    using that t by (metis card_1_singletonE holders_mem singletonD)
  show ?thesis
    unfolding km_inv_def
  proof (intro conjI allI impI)
    fix u k q
    assume u: "using_key ?l' u = Some k" "using_entry ?l' u = Some q"
    then have old: "using_key l u = Some k" "using_entry l u = Some q" "u \<noteq> t" by (auto simp: E split: if_splits)
    then have q: "locks l k = Some q" using I(1) by blast
    have "\<not> (k = key \<and> card (holders (using_entry l) r) = 1)"
      using alone [of u] old(2,3) q lk by auto
    with q show "locks ?l' k = Some q" unfolding f m_def by auto
  next
    fix k q
    assume "locks ?l' k = Some q"
    then have k: "locks l k = Some q" "k = key \<longrightarrow> card (holders (using_entry l) r) \<noteq> 1"
      unfolding f m_def by (auto split: if_splits)
    then show "q < next_entry ?l'" using I(2) unfolding f by blast
    show "holders (using_entry ?l') q \<noteq> {}"
    proof (cases "q = r")
      case True
      then have "k = key" using I(3) k(1) lk by blast
      then have "card (holders (using_entry l) r - {t}) \<noteq> 0" using k(2) card_r pos by simp
      then show ?thesis unfolding H using True by (metis card.empty)
    next
      case False
      then show ?thesis unfolding H using other [OF False] I(4) [OF k(1)] by simp
    qed
  next
    fix k k' q
    assume "locks ?l' k = Some q" and "locks ?l' k' = Some q"
    then show "k = k'" using I(3) [of k q k'] unfolding f m_def by (auto split: if_splits)
  next
    fix q
    show "finite (holders (using_entry ?l') q)" using I(5) by (simp add: H)
    assume "q < next_entry ?l'"
    then show "ref_count (entries ?l' q) = int (card (holders (using_entry ?l') q))"
      using I(6) [of q] card_r pos other [of q] unfolding f H by (auto simp: of_nat_diff)
  next
    fix u k q
    assume "km_pc ?l' u = KHolding k q"
    then show "locked (entries ?l' q)" using I(7) [of u k q] unfolding f by (auto split: if_splits)
  next
    fix u v k k' q
    assume "km_pc ?l' u = KHolding k q" and "km_pc ?l' v = KHolding k' q"
    then show "u = v" using I(8) [of u k q v k'] unfolding f by (auto split: if_splits)
  qed
qed

definition km_start :: "keyed_lock \<Rightarrow> bool" where
  "km_start l \<longleftrightarrow> l = new_keyed_lock"

definition km_next :: "keyed_lock \<Rightarrow> keyed_lock \<Rightarrow> bool" where
  "km_next l l' \<longleftrightarrow> km_step l l' \<and> few l'"

definition km_full_inv :: "keyed_lock \<Rightarrow> bool" where
  "km_full_inv l \<longleftrightarrow> km_inv l \<and> few l"

lemma km_inv_step:
  assumes "km_inv l" and "few l" and "km_step l l'" and "few l'"
  shows "km_inv l'"
  using assms(3)
proof (cases rule: km_step.cases)
  case (km_enter t key)
  then show ?thesis using assms(1,4) km_inv_join km_inv_fresh by (cases "locks l key") auto
next
  case (km_lock t key r)
  have "\<And>u k. u \<noteq> t \<Longrightarrow> km_pc l u \<noteq> KHolding k r" using km_invD(7) [OF assms(1)] km_lock(3) by blast
  with km_lock(2) show ?thesis unfolding km_lock(1)
    by (intro km_inv_stay [OF assms(1)]) (auto simp: using_eq)
next
  case (km_unlock t key r)
  have "\<And>u k. u \<noteq> t \<Longrightarrow> km_pc l u \<noteq> KHolding k r" using km_invD(8) [OF assms(1)] km_unlock(2) by blast
  with km_unlock(2) show ?thesis unfolding km_unlock(1)
    by (intro km_inv_stay [OF assms(1)]) (auto simp: using_eq)
next
  case (km_leave t key r)
  then show ?thesis using km_inv_leave [OF assms(1) _ assms(2)] by simp
qed

interpretation km: inv_system km_start km_next km_full_inv
proof
  show "km_start l \<Longrightarrow> km_full_inv l" for l
    using km_inv_new by (auto simp: km_start_def km_full_inv_def few_def holders_def using_eq new_keyed_lock_def)
  show "km_full_inv l \<Longrightarrow> km_next l l' \<Longrightarrow> km_full_inv l'" for l l'
    using km_inv_step by (auto simp: km_full_inv_def km_next_def)
qed

text \<open>C17: the keyed lock is a mutex for every key, and leaks nothing. In every interleaving of any number of
  goroutines two of them never hold the lock of the same key, although the entries are dropped and made
  anew in between; and the map has an entry for a key only while some goroutine uses that key.\<close>

theorem keyed_mutex_exclusion:
  assumes "reach km_start km_next l"
  shows "(km_pc l t = KHolding key r \<longrightarrow> km_pc l u = KHolding key q \<longrightarrow> t = u)
    \<and> (locks l key \<noteq> None \<longrightarrow> (\<exists>t. using_key l t = Some key))"
proof -
  have inv: "km_inv l" using km.reach_inv [OF assms] by (simp add: km_full_inv_def)
  note I = km_invD [OF inv]
  have "t = u" if "km_pc l t = KHolding key r" "km_pc l u = KHolding key q"
  proof -
    have "locks l key = Some r" "locks l key = Some q"
      using I(1) [of t key r] I(1) [of u key q] that by (simp_all add: using_eq)
    then show ?thesis using I(8) that by simp
  qed
  moreover have "\<exists>t. using_key l t = Some key" if lk: "locks l key = Some r'" for r'
  proof -
    obtain t where t: "using_entry l t = Some r'" using I(4) [OF lk] by auto
    then obtain k where "using_key l t = Some k" using using_both by blast
    with t I(1) I(3) [OF _ lk] show ?thesis by blast
  qed
  ultimately show ?thesis by blast
qed

definition demo_keyed_lock :: keyed_lock where
  "demo_keyed_lock = lock_enter new_keyed_lock 0 ''k''"

lemma demo_keyed_lock_eq:
  "demo_keyed_lock = \<lparr>locks = [''k'' \<mapsto> 0], entries = (\<lambda>r. \<lparr>locked = False, ref_count = 0\<rparr>)(0 := \<lparr>locked = False, ref_count = 1\<rparr>),
     next_entry = 1, km_pc = (\<lambda>t. KOut)(0 := KWaiting ''k'' 0)\<rparr>"
  by (simp add: demo_keyed_lock_def lock_enter_def km_find_def new_keyed_lock_def set_entry_def km_goto_def i64_def)

lemma demo_keyed_lock_reached: "reach km_start km_next demo_keyed_lock"
proof -
  have "holders (using_entry demo_keyed_lock) r \<subseteq> {0}" for r
    by (auto simp: holders_def using_eq demo_keyed_lock_eq split: if_splits)
  then have "card (holders (using_entry demo_keyed_lock) r) \<le> 1" for r
    by (metis card.empty card.insert card_mono empty_iff finite.emptyI finite.insertI One_nat_def)
  note one = this
  have "int (card (holders (using_entry demo_keyed_lock) r)) < 9223372036854775807" for r
    using one [of r] by linarith
  then have "few demo_keyed_lock" unfolding few_def by blast
  moreover have "km_step new_keyed_lock demo_keyed_lock"
    unfolding demo_keyed_lock_def by (rule km_enter) (simp add: new_keyed_lock_def)
  ultimately show ?thesis
    by (intro reach_step [OF reach_init]) (simp_all add: km_start_def km_next_def)
qed

theorem keyed_mutex_exclusion_witness:
  "locks demo_keyed_lock ''k'' \<noteq> None \<and> (\<exists>t. using_key demo_keyed_lock t = Some ''k'')"
proof -
  have "locks demo_keyed_lock ''k'' \<noteq> None" by (simp add: demo_keyed_lock_eq)
  with keyed_mutex_exclusion [OF demo_keyed_lock_reached, of 0 "''k''" 0 0 0] show ?thesis by blast
qed

end
