(* ===== verification/Keyset_Pagination.thy ===== *)
theory Keyset_Pagination
  imports Go_Strings
begin

text \<open>
  \<open>patterns/04_persistence/keyset_pagination.go\<close>: opaque cursors (base64 of
  \<open>timestamp:id\<close>) and \<open>KeysetPaginator.FetchPage\<close>. An item's \<open>CreatedAt\<close> is
  its \<open>UnixNano\<close> value. The position of an item, \<open>keypos\<close>, is ordered
  lexicographically by timestamp and identifier, the order the paginator requires of its items.
\<close>

record item =
  item_id :: int
  item_title :: string
  item_created :: int

record cursor =
  last_id :: int
  last_timestamp :: int

datatype cursor_error = CursorEncoding | CursorFormat | CursorNumber num_error

definition encode_cursor :: "cursor \<Rightarrow> string" where
  "encode_cursor c = b64_encode True (itoa (last_timestamp c) @ CHR '':'' # itoa (last_id c))"

definition decode_cursor :: "string \<Rightarrow> cursor_error + cursor option" where
  "decode_cursor encoded =
     (if encoded = [] then Inr None
      else case b64_decode True encoded of
        None \<Rightarrow> Inl CursorEncoding
      | Some bytes \<Rightarrow>
          (case split_on (CHR '':'') bytes of
             [p0, p1] \<Rightarrow>
               (case parse_int p0 of
                  Inl e \<Rightarrow> Inl (CursorNumber e)
                | Inr ts \<Rightarrow>
                    (case parse_int p1 of
                       Inl e \<Rightarrow> Inl (CursorNumber e)
                     | Inr i \<Rightarrow> Inr (Some \<lparr>last_id = i, last_timestamp = ts\<rparr>)))
           | _ \<Rightarrow> Inl CursorFormat))"

definition cursor_ok :: "cursor \<Rightarrow> bool" where
  "cursor_ok c \<longleftrightarrow> in64 (last_id c) \<and> in64 (last_timestamp c)"

text \<open>The order of the keyset.\<close>

datatype keypos = KeyPos int int

instantiation keypos :: linorder
begin

fun less_eq_keypos :: "keypos \<Rightarrow> keypos \<Rightarrow> bool" where
  "less_eq_keypos (KeyPos t i) (KeyPos u j) \<longleftrightarrow> t < u \<or> t = u \<and> i \<le> j"

fun less_keypos :: "keypos \<Rightarrow> keypos \<Rightarrow> bool" where
  "less_keypos (KeyPos t i) (KeyPos u j) \<longleftrightarrow> t < u \<or> t = u \<and> i < j"

instance
proof
  fix x y z :: keypos
  show "(x < y) = (x \<le> y \<and> \<not> y \<le> x)" by (cases x; cases y) auto
  show "x \<le> x" by (cases x) auto
  show "x \<le> y \<Longrightarrow> y \<le> z \<Longrightarrow> x \<le> z" by (cases x; cases y; cases z) auto
  show "x \<le> y \<Longrightarrow> y \<le> x \<Longrightarrow> x = y" by (cases x; cases y) auto
  show "x \<le> y \<or> y \<le> x" by (cases x; cases y) auto
qed

end

definition item_pos :: "item \<Rightarrow> keypos" where
  "item_pos it = KeyPos (item_created it) (item_id it)"

definition cursor_pos :: "cursor \<Rightarrow> keypos" where
  "cursor_pos c = KeyPos (last_timestamp c) (last_id c)"

definition cursor_of :: "item \<Rightarrow> cursor" where
  "cursor_of it = \<lparr>last_id = item_id it, last_timestamp = item_created it\<rparr>"

text \<open>The comparison of the code's search loop.\<close>

definition after_cursor :: "item \<Rightarrow> cursor \<Rightarrow> bool" where
  "after_cursor it c \<longleftrightarrow>
     item_created it > last_timestamp c \<or>
     (item_created it = last_timestamp c \<and> item_id it > last_id c)"

text \<open>The search loop: \<open>i\<close> is the index of the head of the list, \<open>start\<close> the
  variable \<open>startIndex\<close>, \<open>n\<close> the number of items.\<close>

fun find_start :: "cursor \<Rightarrow> nat \<Rightarrow> nat \<Rightarrow> nat \<Rightarrow> item list \<Rightarrow> nat" where
  "find_start c n i start [] = start"
| "find_start c n i start (it # its) =
     (if after_cursor it c then i else find_start c n (Suc i) n its)"

function fetch_loop :: "item list \<Rightarrow> nat \<Rightarrow> nat \<Rightarrow> item list \<Rightarrow> item list" where
  "fetch_loop items limit i results =
     (if i < length items \<and> length results < limit
      then fetch_loop items limit (Suc i) (results @ [items ! i]) else results)"
  by pat_completeness auto
termination
  by (relation "measure (\<lambda>(items, limit, i, results). length items - i)") auto

declare fetch_loop.simps [simp del]

definition clamp_limit :: "int \<Rightarrow> nat" where
  "clamp_limit limit =
     (let l1 = (if limit \<le> 0 then 10 else limit) in nat (if l1 > 100 then 100 else l1))"

record paged_result =
  page_items :: "item list"
  next_cursor :: string
  has_more :: bool

definition fetch_page :: "item list \<Rightarrow> string \<Rightarrow> int \<Rightarrow> cursor_error + paged_result" where
  "fetch_page items cursorStr limit0 =
     (let limit = clamp_limit limit0 in
      case decode_cursor cursorStr of
        Inl e \<Rightarrow> Inl e
      | Inr cursor \<Rightarrow>
          (let startIndex = (case cursor of None \<Rightarrow> 0
                             | Some c \<Rightarrow> find_start c (length items) 0 0 items);
               results = fetch_loop items limit startIndex [];
               hasMore = (startIndex + length results < length items);
               nextCursor = (if results \<noteq> [] \<and> hasMore then encode_cursor (cursor_of (last results)) else [])
           in Inr \<lparr>page_items = results, next_cursor = nextCursor, has_more = hasMore\<rparr>))"

text \<open>A client that follows \<open>NextCursor\<close> while \<open>HasMore\<close> holds, for at most
  \<open>fuel\<close> pages; \<open>None\<close> when the fuel runs out or a page is refused.\<close>

fun walk :: "nat \<Rightarrow> item list \<Rightarrow> string \<Rightarrow> int \<Rightarrow> item list option" where
  "walk 0 items cur limit = None"
| "walk (Suc fuel) items cur limit =
     (case fetch_page items cur limit of
        Inl e \<Rightarrow> None
      | Inr p \<Rightarrow> if has_more p
                 then map_option (\<lambda>rest. page_items p @ rest) (walk fuel items (next_cursor p) limit)
                 else Some (page_items p))"

definition keyset_sorted :: "item list \<Rightarrow> bool" where
  "keyset_sorted items \<longleftrightarrow> sorted_wrt (<) (map item_pos items)
     \<and> (\<forall>it\<in>set items. cursor_ok (cursor_of it))"

lemma colon_itoa [simp]: "CHR '':'' \<notin> set (itoa i)"
  by (rule itoa_no_char) (simp_all add: digit_val_def)

lemma encode_cursor_nonempty [simp]: "encode_cursor c \<noteq> []"
  by (simp add: encode_cursor_def)

lemma decode_encode_cursor: "cursor_ok c \<Longrightarrow> decode_cursor (encode_cursor c) = Inr (Some c)"
proof -
  assume "cursor_ok c"
  then have "parse_int (itoa (last_timestamp c)) = Inr (last_timestamp c)"
    "parse_int (itoa (last_id c)) = Inr (last_id c)"
    by (simp_all add: cursor_ok_def parse_int_itoa)
  moreover have "b64_decode True (encode_cursor c)
      = Some (itoa (last_timestamp c) @ CHR '':'' # itoa (last_id c))"
    by (simp add: encode_cursor_def b64_decode_encode)
  ultimately show ?thesis by (simp add: decode_cursor_def)
qed

text \<open>for every cursor of 64-bit values, decoding an encoded cursor gives the cursor back:
  printing, base64 and the three parsing steps are inverse to each other.\<close>

theorem cursor_roundtrip:
  assumes "in64 ts" and "in64 i"
  shows "decode_cursor (encode_cursor \<lparr>last_id = i, last_timestamp = ts\<rparr>)
    = Inr (Some \<lparr>last_id = i, last_timestamp = ts\<rparr>)"
  by (rule decode_encode_cursor) (simp add: cursor_ok_def assms)

theorem cursor_roundtrip_witness:
  "decode_cursor (encode_cursor \<lparr>last_id = 42, last_timestamp = -9223372036854775808\<rparr>)
    = Inr (Some \<lparr>last_id = 42, last_timestamp = -9223372036854775808\<rparr>)"
  by (rule cursor_roundtrip) (simp_all add: in64_def)

lemma after_cursor_pos: "after_cursor it c \<longleftrightarrow> cursor_pos c < item_pos it"
  by (auto simp: after_cursor_def cursor_pos_def item_pos_def)

lemma cursor_pos_of [simp]: "cursor_pos (cursor_of it) = item_pos it"
  by (simp add: cursor_pos_def cursor_of_def item_pos_def)

lemma find_start_takeWhile:
  "its \<noteq> [] \<or> start = i \<Longrightarrow> n = i + length its \<Longrightarrow>
   find_start c n i start its = i + length (takeWhile (\<lambda>it. \<not> after_cursor it c) its)"
proof (induction its arbitrary: i start)
  case Nil
  then show ?case by simp
next
  case (Cons it its)
  show ?case
  proof (cases "its = []")
    case True
    with Cons.prems show ?thesis by simp
  next
    case False
    with Cons show ?thesis by simp
  qed
qed

lemma fetch_loop_take:
  "fetch_loop items limit i results = results @ take (limit - length results) (drop i items)"
proof (induction items limit i results rule: fetch_loop.induct)
  case (1 items limit i results)
  show ?case
  proof (cases "i < length items \<and> length results < limit")
    case True
    then have "take (limit - length results) (drop i items)
        = items ! i # take (limit - Suc (length results)) (drop (Suc i) items)"
      by (simp add: Cons_nth_drop_Suc [symmetric] take_Cons' Suc_diff_Suc)
    with True "1" show ?thesis by (subst fetch_loop.simps) simp
  next
    case False
    then show ?thesis by (subst fetch_loop.simps) auto
  qed
qed

lemma clamp_limit_bounds: "0 < clamp_limit l" "clamp_limit l \<le> 100"
  by (auto simp: clamp_limit_def Let_def)

text \<open>The page that follows a consumed prefix.\<close>

lemma takeWhile_prefix:
  assumes "sorted_wrt (<) (map item_pos (pre @ [x] @ rest))"
  shows "takeWhile (\<lambda>it. \<not> after_cursor it (cursor_of x)) (pre @ [x] @ rest) = pre @ [x]"
proof -
  have "\<forall>it\<in>set (pre @ [x]). \<not> after_cursor it (cursor_of x)"
    using assms by (auto simp: after_cursor_pos sorted_wrt_append)
  moreover have "\<forall>it\<in>set rest. after_cursor it (cursor_of x)"
    using assms by (auto simp: after_cursor_pos sorted_wrt_append)
  ultimately show ?thesis
    by (cases rest) (simp_all add: takeWhile_append2 takeWhile_tail)
qed

lemma fetch_page_after:
  assumes "keyset_sorted (pre @ rest)"
    and cur: "cur = (if pre = [] then [] else encode_cursor (cursor_of (last pre)))"
  shows "fetch_page (pre @ rest) cur limit =
    (let page = take (clamp_limit limit) rest; more = length page < length rest in
     Inr \<lparr>page_items = page, next_cursor = (if more then encode_cursor (cursor_of (last page)) else []),
          has_more = more\<rparr>)"
proof -
  let ?items = "pre @ rest"
  define cd where "cd = (if pre = [] then None else Some (cursor_of (last pre)))"
  define start where "start = (case cd of None \<Rightarrow> 0 | Some c \<Rightarrow> find_start c (length ?items) 0 0 ?items)"
  have dec: "decode_cursor cur = Inr cd"
  proof (cases "pre = []")
    case True
    then show ?thesis by (simp add: cur cd_def decode_cursor_def)
  next
    case False
    then have "cursor_ok (cursor_of (last pre))"
      using assms(1) by (simp add: keyset_sorted_def)
    with False show ?thesis by (simp add: cur cd_def decode_encode_cursor)
  qed
  have start: "start = length pre"
  proof (cases "pre = []")
    case True
    then show ?thesis by (simp add: start_def cd_def)
  next
    case False
    then have split: "?items = butlast pre @ [last pre] @ rest" by simp
    have "takeWhile (\<lambda>it. \<not> after_cursor it (cursor_of (last pre))) ?items = butlast pre @ [last pre]"
      unfolding split by (rule takeWhile_prefix) (use assms(1) in \<open>simp only: split [symmetric] keyset_sorted_def\<close>)
    with False show ?thesis
      by (simp add: start_def cd_def find_start_takeWhile)
  qed
  have "take (clamp_limit limit) rest \<noteq> [] \<or> rest = []"
    using clamp_limit_bounds(1) [of limit] by auto
  then show ?thesis
    unfolding fetch_page_def dec Let_def sum.case start_def [symmetric] start
    by (auto simp: fetch_loop_take)
qed

lemma walk_after:
  assumes "keyset_sorted (pre @ rest)" and "length rest < fuel"
    and "cur = (if pre = [] then [] else encode_cursor (cursor_of (last pre)))"
  shows "walk fuel (pre @ rest) cur limit = Some rest"
  using assms
proof (induction fuel arbitrary: pre rest cur)
  case 0
  then show ?case by simp
next
  case (Suc fuel)
  let ?k = "clamp_limit limit"
  let ?page = "take ?k rest"
  note page = fetch_page_after [OF Suc.prems(1,3), of limit]
  show ?case
  proof (cases "length ?page < length rest")
    case False
    then have "?page = rest" by simp
    with False show ?thesis using page by (simp add: Let_def)
  next
    case True
    have ne: "?page \<noteq> []" using True clamp_limit_bounds(1) [of limit] by auto
    have lt: "length (drop ?k rest) < fuel"
      using Suc.prems(2) True clamp_limit_bounds(1) [of limit] by (auto simp: min_def split: if_splits)
    have "walk fuel ((pre @ ?page) @ drop ?k rest) (encode_cursor (cursor_of (last ?page))) limit
        = Some (drop ?k rest)"
      by (rule Suc.IH) (use Suc.prems(1) ne lt in auto)
    then show ?thesis using True page by (simp add: Let_def)
  qed
qed

text \<open>C3: on items in strict keyset order, a client that starts with the empty cursor and follows
  \<open>NextCursor\<close> sees every item exactly once and in order, whatever page size it asks for, and
  is done after at most one page per item and one more.\<close>

theorem pagination_complete:
  assumes "keyset_sorted items"
  shows "walk (Suc (length items)) items '''' limit = Some items"
  using walk_after [of "[]" items "Suc (length items)" "''''" limit] assms by simp

theorem pagination_complete_witness:
  "walk 4 [\<lparr>item_id = 2, item_title = ''b'', item_created = 5\<rparr>,
      \<lparr>item_id = 7, item_title = ''a'', item_created = 5\<rparr>,
      \<lparr>item_id = 1, item_title = ''c'', item_created = 9\<rparr>] '''' 2
   = Some [\<lparr>item_id = 2, item_title = ''b'', item_created = 5\<rparr>,
      \<lparr>item_id = 7, item_title = ''a'', item_created = 5\<rparr>,
      \<lparr>item_id = 1, item_title = ''c'', item_created = 9\<rparr>]"
  using pagination_complete [of "[\<lparr>item_id = 2, item_title = ''b'', item_created = 5\<rparr>,
      \<lparr>item_id = 7, item_title = ''a'', item_created = 5\<rparr>,
      \<lparr>item_id = 1, item_title = ''c'', item_created = 9\<rparr>]" 2]
  by (simp add: keyset_sorted_def item_pos_def cursor_ok_def cursor_of_def in64_def numeral_eq_Suc
      del: walk.simps)

end
