(* ===== verification/Leases.thy ===== *)
theory Leases
  imports Go_Prelude
begin

text \<open>
  Leases that expire: \<open>patterns/16_distributed/distributed_lock.go\<close> (a lock per resource, with fencing
  tokens) and \<open>patterns/16_distributed/leader_election.go\<close>. Both are single critical sections that read
  the clock once; both satisfy the contract \<open>lease_service\<close>: while a lease runs, nobody but its holder
  obtains or ends it.
\<close>

locale lease_service =
  fixes claim :: "'s \<Rightarrow> gotime \<Rightarrow> 'o \<Rightarrow> duration \<Rightarrow> bool \<times> 's"
    and resign :: "'s \<Rightarrow> 'o \<Rightarrow> 's"
    and lease :: "'s \<Rightarrow> ('o \<times> gotime) option"
    and party :: "'o \<Rightarrow> bool"
  assumes claim_granted: "fst (claim s now w d) \<Longrightarrow> party w \<Longrightarrow> lease (snd (claim s now w d)) = Some (w, now + d)"
    and claim_refused: "\<not> fst (claim s now w d) \<Longrightarrow> lease (snd (claim s now w d)) = lease s"
    and claim_running: "lease s = Some (o1, e) \<Longrightarrow> o1 \<noteq> w \<Longrightarrow> party w \<Longrightarrow> now < e \<Longrightarrow> \<not> fst (claim s now w d)"
    and claim_free: "party w \<Longrightarrow> (\<And>o1 e. lease s = Some (o1, e) \<Longrightarrow> o1 = w \<or> e < now) \<Longrightarrow> fst (claim s now w d)"
    and resign_other: "lease s = Some (o1, e) \<Longrightarrow> o1 \<noteq> w \<Longrightarrow> lease (resign s w) = lease s"
begin

lemma blocked:
  assumes "lease s = Some (o1, e)" and "o1 \<noteq> w" and "party w" and "now < e"
  shows "\<not> fst (claim s now w d)" "lease (snd (claim s now w d)) = Some (o1, e)"
  using claim_running [OF assms] claim_refused assms(1) by simp_all

text \<open>A holder can always extend its lease, and a lease that has run out can be taken.\<close>

lemma renewed: "lease s = Some (w, e) \<Longrightarrow> party w \<Longrightarrow> lease (snd (claim s now w d)) = Some (w, now + d)"
  by (rule claim_granted) (auto intro: claim_free)

lemma taken_over:
  "lease s = Some (o1, e) \<Longrightarrow> e < now \<Longrightarrow> party w \<Longrightarrow> lease (snd (claim s now w d)) = Some (w, now + d)"
  by (rule claim_granted) (auto intro: claim_free)

end


section \<open>Distributed lock\<close>

datatype lock_error = ErrLockHeldByOther | ErrLockLost

record lock_lease =
  lease_resource :: string
  lease_owner :: string
  fencing_token :: int
  expires_at :: gotime

record lock_manager =
  locks :: "string \<rightharpoonup> lock_lease"
  fencing_counter :: int

definition new_lock_manager :: lock_manager where
  "new_lock_manager = \<lparr>locks = Map.empty, fencing_counter = 0\<rparr>"

definition grant_lease ::
  "lock_manager \<Rightarrow> gotime \<Rightarrow> string \<Rightarrow> string \<Rightarrow> duration \<Rightarrow> (lock_error + lock_lease) \<times> lock_manager" where
  "grant_lease m now resource owner ttl =
     (let fencing = i64 (fencing_counter m + 1);
          l = \<lparr>lease_resource = resource, lease_owner = owner, fencing_token = fencing, expires_at = now + ttl\<rparr>
      in (Inr l, \<lparr>locks = (locks m)(resource \<mapsto> l), fencing_counter = fencing\<rparr>))"

definition acquire_lock ::
  "lock_manager \<Rightarrow> gotime \<Rightarrow> string \<Rightarrow> string \<Rightarrow> duration \<Rightarrow> (lock_error + lock_lease) \<times> lock_manager" where
  "acquire_lock m now resource owner ttl =
     (case locks m resource of
        Some existing \<Rightarrow>
          if now < expires_at existing \<and> lease_owner existing \<noteq> owner then (Inl ErrLockHeldByOther, m)
          else grant_lease m now resource owner ttl
      | None \<Rightarrow> grant_lease m now resource owner ttl)"

definition release_lock :: "lock_manager \<Rightarrow> string \<Rightarrow> string \<Rightarrow> lock_manager" where
  "release_lock m resource owner =
     (case locks m resource of
        None \<Rightarrow> m
      | Some existing \<Rightarrow> if lease_owner existing \<noteq> owner then m else m\<lparr>locks := (locks m)(resource := None)\<rparr>)"

definition granted_to :: "(lock_error + lock_lease) \<times> lock_manager \<Rightarrow> bool \<times> lock_manager" where
  "granted_to x = (\<not> isl (fst x), snd x)"

interpretation dl: lease_service
  "\<lambda>m now owner ttl. granted_to (acquire_lock m now resource owner ttl)"
  "\<lambda>m owner. release_lock m resource owner"
  "\<lambda>m. map_option (\<lambda>l. (lease_owner l, expires_at l)) (locks m resource)"
  "\<lambda>owner. True"
  for resource
  by unfold_locales
    (auto simp: granted_to_def acquire_lock_def grant_lease_def release_lock_def Let_def split: option.splits if_splits)

datatype lock_op = Acquire gotime string string duration | Release string string

fun lock_exec :: "lock_manager \<Rightarrow> lock_op \<Rightarrow> (lock_error + lock_lease) option \<times> lock_manager" where
  "lock_exec m (Acquire now resource owner ttl) =
     (let (res, m1) = acquire_lock m now resource owner ttl in (Some res, m1))"
| "lock_exec m (Release resource owner) = (None, release_lock m resource owner)"

fun lock_run :: "lock_manager \<Rightarrow> lock_op list \<Rightarrow> (lock_op \<times> (lock_error + lock_lease) option) list" where
  "lock_run m [] = []"
| "lock_run m (p # ops) = (let (res, m1) = lock_exec m p in (p, res) # lock_run m1 ops)"

definition lock_final :: "lock_manager \<Rightarrow> lock_op list \<Rightarrow> lock_manager" where
  "lock_final m ops = foldl (\<lambda>m p. snd (lock_exec m p)) m ops"

text \<open>The calls by which the holder itself, or time, can end the lease of a resource before \<open>until\<close>.\<close>

fun may_end :: "string \<Rightarrow> string \<Rightarrow> gotime \<Rightarrow> lock_op \<Rightarrow> bool" where
  "may_end resource owner until (Acquire now r w ttl) \<longleftrightarrow> r = resource \<and> (w = owner \<or> until \<le> now)"
| "may_end resource owner until (Release r w) \<longleftrightarrow> r = resource \<and> w = owner"

abbreviation lock_lease_of :: "lock_manager \<Rightarrow> string \<Rightarrow> (string \<times> gotime) option" where
  "lock_lease_of m resource \<equiv> map_option (\<lambda>l. (lease_owner l, expires_at l)) (locks m resource)"

lemma lock_step_kept:
  assumes "lock_lease_of m resource = Some (owner, until)" and "\<not> may_end resource owner until p"
  shows "lock_lease_of (snd (lock_exec m p)) resource = Some (owner, until)
    \<and> (\<forall>now w ttl. p = Acquire now resource w ttl \<longrightarrow> fst (lock_exec m p) = Some (Inl ErrLockHeldByOther))"
proof (cases p)
  case (Acquire now r w ttl)
  show ?thesis
  proof (cases "r = resource")
    case True
    with assms Acquire show ?thesis
      by (auto simp: acquire_lock_def split: option.splits)
  next
    case False
    with assms Acquire show ?thesis
      by (auto simp: acquire_lock_def grant_lease_def Let_def split: option.splits prod.splits if_splits)
  qed
next
  case (Release r w)
  with assms dl.resign_other [of m resource owner until w] show ?thesis
    by (cases "r = resource") (auto simp: release_lock_def split: option.splits)
qed

lemma lock_run_kept:
  "lock_lease_of m resource = Some (owner, until) \<Longrightarrow> \<forall>p \<in> set ops. \<not> may_end resource owner until p \<Longrightarrow>
    (\<forall>now w ttl res. (Acquire now resource w ttl, res) \<in> set (lock_run m ops) \<longrightarrow> res = Some (Inl ErrLockHeldByOther))
    \<and> lock_lease_of (lock_final m ops) resource = Some (owner, until)"
proof (induction ops arbitrary: m)
  case Nil
  then show ?case by (simp add: lock_final_def)
next
  case (Cons p ops)
  obtain res m1 where e: "lock_exec m p = (res, m1)" by (cases "lock_exec m p")
  with lock_step_kept [OF Cons.prems(1), of p] Cons.prems(2)
  have k: "lock_lease_of m1 resource = Some (owner, until)"
    "\<And>now w ttl. p = Acquire now resource w ttl \<Longrightarrow> res = Some (Inl ErrLockHeldByOther)" by auto
  from Cons.IH [OF k(1)] Cons.prems(2) k(2) e show ?case by (auto simp: lock_final_def)
qed

text \<open>C9: a granted lock is exclusive until its lease runs out. Whatever other clients and other resources do
  after the grant, as long as the owner neither releases nor re-acquires and the calls come before the
  expiry, every attempt to acquire the resource is refused and the lease stays with its owner.\<close>

theorem lock_exclusive:
  assumes "acquire_lock m t resource owner ttl = (Inr l, m1)"
    and "\<forall>p \<in> set ops. \<not> may_end resource owner (t + ttl) p"
  shows "(\<forall>now w d res. (Acquire now resource w d, res) \<in> set (lock_run m1 ops) \<longrightarrow> res = Some (Inl ErrLockHeldByOther))
    \<and> lock_lease_of (lock_final m1 ops) resource = Some (owner, t + ttl)"
proof -
  have "lock_lease_of m1 resource = Some (owner, t + ttl)"
    using dl.claim_granted [of m t resource owner ttl] assms(1) by (simp add: granted_to_def)
  from lock_run_kept [OF this assms(2)] show ?thesis .
qed

theorem lock_exclusive_witness:
  "\<exists>l m. acquire_lock new_lock_manager 0 ''db'' ''a'' 10 = (Inr l, m)
     \<and> map snd (lock_run m [Acquire 3 ''db'' ''b'' 10, Release ''db'' ''b'', Acquire 9 ''db'' ''c'' 1])
       = [Some (Inl ErrLockHeldByOther), None, Some (Inl ErrLockHeldByOther)]"
proof -
  let ?ops = "[Acquire 3 ''db'' ''b'' 10, Release ''db'' ''b'', Acquire 9 ''db'' ''c'' 1]"
  obtain l m where a: "acquire_lock new_lock_manager 0 ''db'' ''a'' 10 = (Inr l, m)"
    by (simp add: acquire_lock_def new_lock_manager_def grant_lease_def Let_def)
  have "\<forall>now w d res. (Acquire now ''db'' w d, res) \<in> set (lock_run m ?ops) \<longrightarrow> res = Some (Inl ErrLockHeldByOther)"
    using lock_exclusive [OF a, of ?ops] by simp
  then have "map snd (lock_run m ?ops) = [Some (Inl ErrLockHeldByOther), None, Some (Inl ErrLockHeldByOther)]"
    by (auto simp: Let_def all_conj_distrib split: prod.splits)
  with a show ?thesis by (intro exI conjI)
qed

text \<open>Every successful acquisition, of whatever resource, carries the next fencing token.\<close>

fun tokens :: "(lock_op \<times> (lock_error + lock_lease) option) list \<Rightarrow> int list" where
  "tokens [] = []"
| "tokens ((p, Some (Inr l)) # xs) = fencing_token l # tokens xs"
| "tokens ((p, Some (Inl e)) # xs) = tokens xs"
| "tokens ((p, None) # xs) = tokens xs"

lemma exec_counter:
  assumes "lock_exec m p = (res, m1)"
  shows "(\<exists>l. res = Some (Inr l) \<and> fencing_token l = i64 (fencing_counter m + 1) \<and> fencing_counter m1 = i64 (fencing_counter m + 1))
    \<or> ((res = None \<or> (\<exists>e. res = Some (Inl e))) \<and> fencing_counter m1 = fencing_counter m)"
  using assms
  by (cases p) (auto simp: acquire_lock_def grant_lease_def release_lock_def Let_def split: option.splits if_splits)

lemma tokens_upto:
  "0 \<le> fencing_counter m \<Longrightarrow> fencing_counter m + int (length ops) < 9223372036854775808 \<Longrightarrow>
    tokens (lock_run m ops) = [fencing_counter m + 1 .. fencing_counter m + int (length (tokens (lock_run m ops)))]"
proof (induction ops arbitrary: m)
  case Nil
  then show ?case by simp
next
  case (Cons p ops)
  obtain res m1 where e: "lock_exec m p = (res, m1)" by (cases "lock_exec m p")
  let ?c = "fencing_counter m"
  have i: "i64 (?c + 1) = ?c + 1" using Cons.prems by (intro i64_id) (auto simp: in64_def)
  from exec_counter [OF e] show ?case
  proof
    assume "\<exists>l. res = Some (Inr l) \<and> fencing_token l = i64 (?c + 1) \<and> fencing_counter m1 = i64 (?c + 1)"
    then obtain l where l: "res = Some (Inr l)" "fencing_token l = ?c + 1" "fencing_counter m1 = ?c + 1"
      using i by auto
    define T where "T = tokens (lock_run m1 ops)"
    have IH: "T = [?c + 1 + 1 .. ?c + 1 + int (length T)]"
      using Cons.IH [of m1] Cons.prems l(3) by (simp add: T_def)
    have "tokens (lock_run m (p # ops)) = (?c + 1) # T" using l e by (simp add: T_def)
    moreover have "(?c + 1) # T = [?c + 1 .. ?c + 1 + int (length T)]"
      by (subst IH) (rule upto_rec1 [symmetric], simp)
    ultimately show ?thesis by (simp add: add.commute add.left_commute)
  next
    assume "(res = None \<or> (\<exists>er. res = Some (Inl er))) \<and> fencing_counter m1 = ?c"
    then show ?thesis using Cons.IH [of m1] Cons.prems e by auto
  qed
qed

text \<open>fencing tokens grow by one with every grant. In any sequence of fewer than \<open>2\<^sup>63\<close> calls the
  successful acquisitions, of all resources, carry the tokens 1, 2, 3, ... in this order, so a later grant
  always has the larger token.\<close>

theorem fencing_tokens_increase:
  assumes "length ops < 9223372036854775808"
  shows "tokens (lock_run new_lock_manager ops) = [1 .. int (length (tokens (lock_run new_lock_manager ops)))]"
  using tokens_upto [of new_lock_manager ops] assms by (simp add: new_lock_manager_def)

theorem fencing_tokens_increase_witness:
  "tokens (lock_run new_lock_manager [Acquire 0 ''r'' ''a'' 5, Acquire 1 ''r'' ''b'' 5, Acquire 7 ''r'' ''b'' 5]) = [1, 2]"
proof -
  let ?ops = "[Acquire 0 ''r'' ''a'' 5, Acquire 1 ''r'' ''b'' 5, Acquire 7 ''r'' ''b'' 5]"
  have "length (tokens (lock_run new_lock_manager ?ops)) = 2"
    by (simp add: new_lock_manager_def acquire_lock_def grant_lease_def Let_def)
  with fencing_tokens_increase [of ?ops] show ?thesis by (simp add: upto.simps)
qed


section \<open>Leader election\<close>

text \<open>The empty string stands for no leader.\<close>

record leader_elector =
  current_leader :: string
  lease_expiry :: gotime

definition new_leader_elector :: leader_elector where
  "new_leader_elector = \<lparr>current_leader = [], lease_expiry = zero_time\<rparr>"

definition try_acquire_or_renew :: "leader_elector \<Rightarrow> gotime \<Rightarrow> string \<Rightarrow> duration \<Rightarrow> bool \<times> leader_elector" where
  "try_acquire_or_renew e now candidateID d =
     (if current_leader e = candidateID then (True, e\<lparr>lease_expiry := now + d\<rparr>)
      else if current_leader e = [] \<or> lease_expiry e < now
        then (True, \<lparr>current_leader = candidateID, lease_expiry = now + d\<rparr>)
      else (False, e))"

definition is_leader :: "leader_elector \<Rightarrow> gotime \<Rightarrow> string \<Rightarrow> bool" where
  "is_leader e now candidateID \<longleftrightarrow> current_leader e = candidateID \<and> now < lease_expiry e"

definition resign_leader :: "leader_elector \<Rightarrow> string \<Rightarrow> leader_elector" where
  "resign_leader e candidateID =
     (if current_leader e = candidateID then \<lparr>current_leader = [], lease_expiry = zero_time\<rparr> else e)"

interpretation le: lease_service try_acquire_or_renew resign_leader
  "\<lambda>e. if current_leader e = [] then None else Some (current_leader e, lease_expiry e)"
  "\<lambda>candidate. candidate \<noteq> []"
  by unfold_locales (auto simp: try_acquire_or_renew_def resign_leader_def split: if_splits)

datatype election_op = Campaign gotime string duration | Resign string

primrec elect :: "leader_elector \<Rightarrow> election_op \<Rightarrow> leader_elector" where
  "elect e (Campaign now c d) = snd (try_acquire_or_renew e now c d)"
| "elect e (Resign c) = resign_leader e c"

primrec candidate_of :: "election_op \<Rightarrow> string" where
  "candidate_of (Campaign now c d) = c"
| "candidate_of (Resign c) = c"

primrec by_time :: "gotime \<Rightarrow> election_op \<Rightarrow> bool" where
  "by_time until (Campaign now c d) \<longleftrightarrow> now \<le> until"
| "by_time until (Resign c) \<longleftrightarrow> True"

lemma elect_kept:
  assumes "current_leader e = c" and "c \<noteq> []" and "candidate_of p \<noteq> c" and "by_time (lease_expiry e) p"
  shows "elect e p = e"
  using assms by (cases p) (auto simp: try_acquire_or_renew_def resign_leader_def)

text \<open>C10: a leader is alone until its lease has run out. After a candidate has won, whatever other candidates
  try and resign up to the expiry, none of them wins: at every instant before the expiry the winner, and
  nobody else, is the leader, and after it the next candidate wins.\<close>

theorem leadership_exclusive:
  assumes "try_acquire_or_renew e t c d = (True, e1)" and "c \<noteq> []"
    and "\<forall>p \<in> set ops. candidate_of p \<noteq> c \<and> by_time (t + d) p"
  shows "(now < t + d \<longrightarrow> (is_leader (foldl elect e1 ops) now w \<longleftrightarrow> w = c))
    \<and> (t + d < now \<longrightarrow> fst (try_acquire_or_renew (foldl elect e1 ops) now w d'))
    \<and> (w \<noteq> c \<longrightarrow> now \<le> t + d \<longrightarrow> \<not> fst (try_acquire_or_renew (foldl elect e1 ops) now w d'))"
proof -
  have e1: "current_leader e1 = c" "lease_expiry e1 = t + d"
    using assms(1) by (auto simp: try_acquire_or_renew_def split: if_splits)
  have "foldl elect e1 ops = e1"
    by (rule foldl_inv) (use assms(2,3) elect_kept [of e1 c] e1 in auto)
  then show ?thesis using e1 assms(2) by (auto simp: is_leader_def try_acquire_or_renew_def)
qed

theorem leadership_exclusive_witness:
  "\<exists>e. try_acquire_or_renew new_leader_elector 0 ''a'' 10 = (True, e)
     \<and> is_leader (foldl elect e [Campaign 5 ''b'' 10, Resign ''b'']) 9 ''a''
     \<and> fst (try_acquire_or_renew (foldl elect e [Campaign 5 ''b'' 10, Resign ''b'']) 11 ''b'' 10)"
proof -
  obtain e where e: "try_acquire_or_renew new_leader_elector 0 ''a'' 10 = (True, e)"
    by (simp add: try_acquire_or_renew_def new_leader_elector_def)
  from leadership_exclusive [OF e, of "[Campaign 5 ''b'' 10, Resign ''b'']" 9 "''a''"]
    leadership_exclusive [OF e, of "[Campaign 5 ''b'' 10, Resign ''b'']" 11 "''b''" 10] e
  show ?thesis by auto
qed

text \<open>The empty id is not a party to the lease: a fresh elector grants it, and hands the leadership to the
  next candidate while that lease is running.\<close>

lemma empty_candidate_not_exclusive:
  "\<exists>e. try_acquire_or_renew new_leader_elector 0 [] 10 = (True, e) \<and> fst (try_acquire_or_renew e 1 ''b'' 10)"
  by (simp add: try_acquire_or_renew_def new_leader_elector_def)

end
