(* ===== verification/Ledger.thy ===== *)
theory Ledger
  imports Go_Prelude
begin

text \<open>
  \<open>patterns/18_testing/property_invariant.go\<close>: the in-memory banking ledger. \<open>transfer\<close>
  is \<open>BankingLedger.Transfer\<close> (guards in the code's order, then the two updates of the
  balance map), \<open>total_system_balance\<close> is \<open>TotalSystemBalance\<close>, which adds the
  balances up in the map's iteration order with wrapping 64-bit addition.
\<close>

datatype ledger_error = ErrInvalidTransfer | ErrSameAccount | ErrAccountMissing | ErrInsufficientFunds

record ledger =
  balances :: "string \<rightharpoonup> int"

definition new_banking_ledger :: "(string \<rightharpoonup> int) \<Rightarrow> ledger" where
  "new_banking_ledger initialBalances = \<lparr>balances = initialBalances\<rparr>"

text \<open>Reading a missing key of a Go map gives the zero value.\<close>

definition balance_of :: "ledger \<Rightarrow> string \<Rightarrow> int" where
  "balance_of l k = (case balances l k of None \<Rightarrow> 0 | Some b \<Rightarrow> b)"

definition transfer :: "ledger \<Rightarrow> string \<Rightarrow> string \<Rightarrow> int \<Rightarrow> ledger_error option \<times> ledger" where
  "transfer l src dst amount =
     (if amount \<le> 0 then (Some ErrInvalidTransfer, l)
      else if src = dst then (Some ErrSameAccount, l)
      else if balances l src = None \<or> balances l dst = None then (Some ErrAccountMissing, l)
      else if balance_of l src < amount then (Some ErrInsufficientFunds, l)
      else
        (let l1 = l\<lparr>balances := (balances l)(src \<mapsto> i64 (balance_of l src - amount))\<rparr>;
             l2 = l1\<lparr>balances := (balances l1)(dst \<mapsto> i64 (balance_of l1 dst + amount))\<rparr>
         in (None, l2)))"

fun total_from :: "int \<Rightarrow> string list \<Rightarrow> ledger \<Rightarrow> int" where
  "total_from acc [] l = acc"
| "total_from acc (k # ks) l = total_from (i64 (acc + balance_of l k)) ks l"

definition total_system_balance :: "string list \<Rightarrow> ledger \<Rightarrow> int" where
  "total_system_balance order l = total_from 0 order l"

text \<open>A history is a list of \<open>Transfer\<close> calls, each one atomic under the ledger's mutex.\<close>

type_synonym transfer_call = "string \<times> string \<times> int"

definition run_transfers :: "ledger \<Rightarrow> transfer_call list \<Rightarrow> ledger" where
  "run_transfers = foldl (\<lambda>l (src, dst, amount). snd (transfer l src dst amount))"

text \<open>The exact, unbounded sum that the wrapping sum is measured against.\<close>

definition exact_total :: "ledger \<Rightarrow> int" where
  "exact_total l = (\<Sum>k\<in>dom (balances l). balance_of l k)"

definition solvent :: "ledger \<Rightarrow> bool" where
  "solvent l \<longleftrightarrow> finite (dom (balances l)) \<and> (\<forall>k. 0 \<le> balance_of l k)
     \<and> exact_total l \<le> 9223372036854775807"

lemma total_from_eq: "in64 acc \<Longrightarrow> total_from acc ks l = i64 (acc + (\<Sum>k\<leftarrow>ks. balance_of l k))"
  by (induction ks arbitrary: acc) (simp_all add: i64_add_left add.assoc)

lemma total_system_balance_exact:
  "iter_order ks (balances l) \<Longrightarrow> total_system_balance ks l = i64 (exact_total l)"
  by (simp add: total_system_balance_def exact_total_def total_from_eq in64_def iter_order_def
      sum_list_distinct_conv_sum_set)

text \<open>What a successful transfer does to the map.\<close>

lemma transfer_ok:
  assumes "fst (transfer l src dst amount) = None"
  shows "0 < amount" "src \<noteq> dst" "src \<in> dom (balances l)" "dst \<in> dom (balances l)"
    "amount \<le> balance_of l src"
    "balances (snd (transfer l src dst amount)) =
       (balances l)(src \<mapsto> i64 (balance_of l src - amount), dst \<mapsto> i64 (balance_of l dst + amount))"
  using assms by (auto simp: transfer_def balance_of_def Let_def split: if_splits)

lemma transfer_err: "fst (transfer l src dst amount) = Some e \<Longrightarrow> snd (transfer l src dst amount) = l"
  by (auto simp: transfer_def Let_def split: if_splits)

lemma dom_transfer [simp]: "dom (balances (snd (transfer l src dst amount))) = dom (balances l)"
  by (auto simp: transfer_def Let_def)

lemma dom_run_transfers [simp]: "dom (balances (run_transfers l ts)) = dom (balances l)"
  unfolding run_transfers_def
  by (rule foldl_const [where g = "\<lambda>l. dom (balances l)"]) (auto split: prod.splits)

lemma balance_of_transfer:
  assumes "fst (transfer l src dst amount) = None"
  shows "balance_of (snd (transfer l src dst amount)) k =
    (if k = src then i64 (balance_of l src - amount)
     else if k = dst then i64 (balance_of l dst + amount) else balance_of l k)"
  using transfer_ok [OF assms] by (auto simp: balance_of_def)

lemma exact_total_split:
  assumes "finite (dom (balances l))" "a \<in> dom (balances l)" "b \<in> dom (balances l)" "a \<noteq> b"
  shows "exact_total l = balance_of l a + balance_of l b
    + (\<Sum>k\<in>dom (balances l) - {a, b}. balance_of l k)"
proof -
  let ?D = "dom (balances l)"
  have "exact_total l = balance_of l a + sum (balance_of l) (?D - {a})"
    unfolding exact_total_def using assms by (intro sum.remove) auto
  also have "sum (balance_of l) (?D - {a}) = balance_of l b + sum (balance_of l) (?D - {a} - {b})"
    using assms by (intro sum.remove) auto
  also have "?D - {a} - {b} = ?D - {a, b}" by blast
  finally show ?thesis by simp
qed

lemma exact_total_transfer_ok:
  assumes fin: "finite (dom (balances l))" and ok: "fst (transfer l src dst amount) = None"
  shows "exact_total (snd (transfer l src dst amount)) = exact_total l
    - balance_of l src - balance_of l dst
    + i64 (balance_of l src - amount) + i64 (balance_of l dst + amount)"
proof -
  note T = transfer_ok [OF ok]
  let ?l = "snd (transfer l src dst amount)"
  have "(\<Sum>k\<in>dom (balances l) - {src, dst}. balance_of ?l k)
      = (\<Sum>k\<in>dom (balances l) - {src, dst}. balance_of l k)"
    by (rule sum.cong) (auto simp: balance_of_transfer [OF ok])
  then show ?thesis
    using exact_total_split [OF fin T(3,4,2)] exact_total_split [of ?l src dst] fin T(2-4)
    by (simp add: balance_of_transfer [OF ok])
qed

lemma i64_exact_total_transfer:
  assumes "finite (dom (balances l))"
  shows "i64 (exact_total (snd (transfer l src dst amount))) = i64 (exact_total l)"
proof (cases "fst (transfer l src dst amount)")
  case None
  have "i64 (exact_total l - balance_of l src - balance_of l dst
      + i64 (balance_of l src - amount) + i64 (balance_of l dst + amount)) = i64 (exact_total l)"
    by (simp add: i64_add_two)
  then show ?thesis using exact_total_transfer_ok [OF assms None] by simp
next
  case (Some e)
  then show ?thesis by (simp add: transfer_err)
qed

lemma i64_exact_total_run:
  "finite (dom (balances l)) \<Longrightarrow> i64 (exact_total (run_transfers l ts)) = i64 (exact_total l)"
  by (induction ts arbitrary: l) (auto simp: run_transfers_def i64_exact_total_transfer split: prod.splits)

text \<open>C2: whatever transfers are executed, in whatever order, successful or refused, and even if
  single balances wrap around, the total that \<open>TotalSystemBalance\<close> reports does not change,
  whichever order the map is iterated in before and after.\<close>

theorem total_balance_conserved:
  assumes "iter_order ks (balances l)" and "iter_order ks' (balances l)"
  shows "total_system_balance ks' (run_transfers l ts) = total_system_balance ks l"
proof -
  have "finite (dom (balances l))"
    using iter_orderD(2) [OF assms(1)] by (metis List.finite_set)
  moreover have "iter_order ks' (balances (run_transfers l ts))"
    using assms(2) by (simp add: iter_order_def)
  ultimately show ?thesis
    using assms(1) by (simp add: total_system_balance_exact i64_exact_total_run)
qed

theorem total_balance_conserved_witness:
  "total_system_balance [''b'', ''a'']
     (run_transfers (new_banking_ledger [''a'' \<mapsto> 9223372036854775807, ''b'' \<mapsto> 5])
       [(''a'', ''b'', 9223372036854775807), (''b'', ''b'', 1), (''a'', ''b'', 3)])
   = total_system_balance [''a'', ''b'']
       (new_banking_ledger [''a'' \<mapsto> 9223372036854775807, ''b'' \<mapsto> 5])"
  by (rule total_balance_conserved)
    (auto simp: iter_order_def new_banking_ledger_def)

lemma solvent_transfer:
  assumes S: "solvent l"
  shows "solvent (snd (transfer l src dst amount))
    \<and> exact_total (snd (transfer l src dst amount)) = exact_total l"
proof (cases "fst (transfer l src dst amount)")
  case None
  note T = transfer_ok [OF None]
  let ?rest = "\<Sum>k\<in>dom (balances l) - {src, dst}. balance_of l k"
  have fin: "finite (dom (balances l))" and nn: "\<And>k. 0 \<le> balance_of l k"
    and bound: "exact_total l \<le> 9223372036854775807"
    using S by (auto simp: solvent_def)
  have "0 \<le> ?rest" by (rule sum_nonneg) (rule nn)
  with exact_total_split [OF fin T(3,4,2)] bound nn [of src] nn [of dst] T(1,5)
  have wrap: "in64 (balance_of l src - amount)" "in64 (balance_of l dst + amount)"
    by (auto simp: in64_def)
  then have "exact_total (snd (transfer l src dst amount)) = exact_total l"
    using exact_total_transfer_ok [OF fin None] by simp
  moreover have "0 \<le> balance_of (snd (transfer l src dst amount)) k" for k
    using wrap T(1,5) nn [of k] nn [of dst] by (simp add: balance_of_transfer [OF None])
  ultimately show ?thesis using S by (simp add: solvent_def)
next
  case (Some e)
  then show ?thesis using S by (simp add: transfer_err)
qed

lemma solvent_run: "solvent l \<Longrightarrow> solvent (run_transfers l ts) \<and> exact_total (run_transfers l ts) = exact_total l"
proof (induction ts arbitrary: l)
  case Nil
  then show ?case by (simp add: run_transfers_def)
next
  case (Cons t ts)
  obtain a b n where t: "t = (a, b, n)" by (cases t) auto
  have step: "run_transfers l (t # ts) = run_transfers (snd (transfer l a b n)) ts"
    by (simp add: run_transfers_def t)
  show ?case
    using Cons.IH [of "snd (transfer l a b n)"] solvent_transfer [OF Cons.prems, of a b n]
    unfolding step by simp
qed

text \<open>in a ledger whose balances are non-negative and whose exact sum fits in 64 bits, no
  history of transfers overdraws an account, wraps a balance around, or creates or loses a cent.\<close>

theorem ledger_never_overdrawn:
  assumes "solvent l"
  shows "0 \<le> balance_of (run_transfers l ts) k
    \<and> balance_of (run_transfers l ts) k \<le> exact_total l
    \<and> exact_total (run_transfers l ts) = exact_total l"
proof -
  let ?r = "run_transfers l ts"
  from solvent_run [OF assms, of ts] have r: "solvent ?r" "exact_total ?r = exact_total l" by auto
  then have nn: "\<And>k. 0 \<le> balance_of ?r k" and fin: "finite (dom (balances ?r))"
    by (auto simp: solvent_def)
  have "balance_of ?r k \<le> exact_total ?r"
  proof (cases "k \<in> dom (balances ?r)")
    case True
    then show ?thesis unfolding exact_total_def using fin nn by (intro member_le_sum) auto
  next
    case False
    then have "balances ?r k = None" by blast
    then have "balance_of ?r k = 0" by (simp add: balance_of_def)
    then show ?thesis unfolding exact_total_def using nn by (simp add: sum_nonneg)
  qed
  with r nn show ?thesis by simp
qed

lemma solvent_example: "solvent (new_banking_ledger [''a'' \<mapsto> 100, ''b'' \<mapsto> 5])"
proof -
  have "dom (balances (new_banking_ledger [''a'' \<mapsto> 100, ''b'' \<mapsto> 5])) = {''a'', ''b''}"
    by (auto simp: new_banking_ledger_def)
  then show ?thesis
    by (simp add: solvent_def exact_total_def) (simp add: balance_of_def new_banking_ledger_def)
qed

theorem ledger_never_overdrawn_witness:
  "balance_of (run_transfers (new_banking_ledger [''a'' \<mapsto> 100, ''b'' \<mapsto> 5])
      [(''a'', ''b'', 70), (''a'', ''b'', 70)]) ''a'' = 30 \<and>
   0 \<le> balance_of (run_transfers (new_banking_ledger [''a'' \<mapsto> 100, ''b'' \<mapsto> 5])
      [(''a'', ''b'', 70), (''a'', ''b'', 70)]) ''a''"
  using ledger_never_overdrawn [OF solvent_example, of "[(''a'', ''b'', 70), (''a'', ''b'', 70)]" "''a''"]
  by (simp add: run_transfers_def transfer_def balance_of_def new_banking_ledger_def Let_def i64_def)

end
