(* ===== verification/Lifecycle.thy ===== *)
theory Lifecycle
  imports Go_Prelude "HOL-Library.Multiset"
begin

text \<open>
  Start-up, probes and shutdown of a service: \<open>patterns/01_lifecycle/graceful_startup.go\<close>,
  \<open>health_probes.go\<close> and \<open>graceful_shutdown.go\<close>. Cleanup functions, checks and pings are values of a
  type \<open>'c\<close>; what a call of one returns is an observation. The insertion sort of the shutdown works on an
  array, as in the code, and is shown to be the library's stable sort.
\<close>

section \<open>Graceful shutdown\<close>

record 'c shutdown_hook =
  hook_name :: string
  priority :: int
  cleanup :: 'c

record 'c shutdown_manager =
  hooks :: "'c shutdown_hook list"
  shutdown_timeout :: duration
  shut :: bool

definition new_shutdown_manager :: "duration \<Rightarrow> 'c shutdown_manager" where
  "new_shutdown_manager timeout = \<lparr>hooks = [], shutdown_timeout = timeout, shut = False\<rparr>"

definition register_hook :: "'c shutdown_manager \<Rightarrow> string \<Rightarrow> int \<Rightarrow> 'c \<Rightarrow> 'c shutdown_manager" where
  "register_hook m name prio fn =
     (if shut m then m else m\<lparr>hooks := hooks m @ [\<lparr>hook_name = name, priority = prio, cleanup = fn\<rparr>]\<rparr>)"

text \<open>The inner loop, with \<open>j + 1\<close> as its argument: elements of lower priority are moved one place up.\<close>

fun shift_loop :: "'c shutdown_hook list \<Rightarrow> 'c shutdown_hook \<Rightarrow> nat \<Rightarrow> 'c shutdown_hook list" where
  "shift_loop xs key 0 = xs[0 := key]"
| "shift_loop xs key (Suc j) =
     (if priority (xs ! j) < priority key then shift_loop (xs[Suc j := xs ! j]) key j else xs[Suc j := key])"

definition sort_hooks :: "'c shutdown_hook list \<Rightarrow> 'c shutdown_hook list" where
  "sort_hooks xs = foldl (\<lambda>sorted i. shift_loop sorted (sorted ! i) i) xs [1 ..< length xs]"

datatype shutdown_result =
    AlreadyExecuted
  | ShutdownTimedOut ctx_err
  | HooksFailed "(string \<times> string) list"
  | ShutdownOK

text \<open>The loop over the sorted hooks: \<open>poll n\<close> is what the \<open>n\<close>-th look at the context shows, \<open>outcome c\<close>
  the error of the cleanup \<open>c\<close>. The second component lists the hooks that were called.\<close>

fun run_hooks ::
  "(nat \<Rightarrow> ctx_err option) \<Rightarrow> ('c \<Rightarrow> string option) \<Rightarrow> nat \<Rightarrow> (string \<times> string) list \<Rightarrow> 'c shutdown_hook list
    \<Rightarrow> shutdown_result \<times> 'c shutdown_hook list" where
  "run_hooks poll outcome n errs [] = (if errs = [] then ShutdownOK else HooksFailed errs, [])"
| "run_hooks poll outcome n errs (h # hs) =
     (case poll n of
        Some e \<Rightarrow> (ShutdownTimedOut e, [])
      | None \<Rightarrow>
          (let errs1 = (case outcome (cleanup h) of None \<Rightarrow> errs | Some e \<Rightarrow> errs @ [(hook_name h, e)]);
               (r, called) = run_hooks poll outcome (Suc n) errs1 hs
           in (r, h # called)))"

definition shutdown ::
  "(nat \<Rightarrow> ctx_err option) \<Rightarrow> ('c \<Rightarrow> string option) \<Rightarrow> 'c shutdown_manager
    \<Rightarrow> (shutdown_result \<times> 'c shutdown_hook list) \<times> 'c shutdown_manager" where
  "shutdown poll outcome m =
     (if shut m then ((AlreadyExecuted, []), m)
      else (run_hooks poll outcome 0 [] (sort_hooks (hooks m)), m\<lparr>shut := True\<rparr>))"


subsection \<open>The sort\<close>

lemma length_shift [simp]: "length (shift_loop xs key j) = length xs"
  by (induction xs key j rule: shift_loop.induct) auto

text \<open>The inner loop puts the key behind the last element of the prefix that has at least its priority.\<close>

lemma shift_loop_insert:
  "shift_loop (ys @ x # rest) key (length ys)
    = (let low = takeWhile (\<lambda>h. priority h < priority key) (rev ys)
       in take (length ys - length low) ys @ key # rev low @ rest)"
proof (induction ys arbitrary: x rest rule: rev_induct)
  case Nil
  then show ?case by simp
next
  case (snoc y ys)
  show ?case
  proof (cases "priority y < priority key")
    case True
    then have "shift_loop ((ys @ [y]) @ x # rest) key (length (ys @ [y])) = shift_loop (ys @ y # y # rest) key (length ys)"
      by (simp add: nth_append list_update_append)
    also have "\<dots> = (let low = takeWhile (\<lambda>h. priority h < priority key) (rev ys)
       in take (length ys - length low) ys @ key # rev low @ y # rest)" by (rule snoc.IH)
    finally show ?thesis using True length_takeWhile_le [of "\<lambda>h. priority h < priority key" "rev ys"]
      by (simp add: Let_def)
  next
    case False
    then show ?thesis by (simp add: nth_append list_update_append)
  qed
qed

definition insert_desc :: "'c shutdown_hook \<Rightarrow> 'c shutdown_hook list \<Rightarrow> 'c shutdown_hook list" where
  "insert_desc key ys = rev (dropWhile (\<lambda>h. priority h < priority key) (rev ys)) @ key
     # rev (takeWhile (\<lambda>h. priority h < priority key) (rev ys))"

lemma shift_is_insert: "shift_loop (ys @ key # rest) key (length ys) = insert_desc key ys @ rest"
proof -
  let ?P = "\<lambda>h. priority h < priority key"
  have "take (length ys - length (takeWhile ?P (rev ys))) ys = rev (dropWhile ?P (rev ys))"
    by (simp add: dropWhile_eq_drop rev_drop)
  then show ?thesis by (simp add: shift_loop_insert insert_desc_def Let_def)
qed

definition desc :: "'c shutdown_hook list \<Rightarrow> bool" where
  "desc xs \<longleftrightarrow> sorted_wrt (\<lambda>a b. priority b \<le> priority a) xs"

lemma desc_low:
  assumes "desc ys"
  shows "takeWhile (\<lambda>h. priority h < p) (rev ys) = rev (filter (\<lambda>h. priority h < p) ys)
    \<and> dropWhile (\<lambda>h. priority h < p) (rev ys) = rev (filter (\<lambda>h. p \<le> priority h) ys)"
  using assms
proof (induction ys rule: rev_induct)
  case Nil
  then show ?case by simp
next
  case (snoc y ys)
  have d: "desc ys" "\<forall>h \<in> set ys. priority y \<le> priority h"
    using snoc.prems by (auto simp: desc_def sorted_wrt_append)
  show ?case
  proof (cases "priority y < p")
    case True
    with snoc.IH [OF d(1)] show ?thesis by simp
  next
    case False
    with d(2) have "\<forall>h \<in> set ys. p \<le> priority h" by fastforce
    then have "filter (\<lambda>h. priority h < p) ys = []" "filter (\<lambda>h. p \<le> priority h) ys = ys"
      by (auto simp: filter_empty_conv filter_id_conv)
    with False show ?thesis by simp
  qed
qed

lemma insert_desc_filter:
  "desc ys \<Longrightarrow> insert_desc key ys = filter (\<lambda>h. priority key \<le> priority h) ys @ key # filter (\<lambda>h. priority h < priority key) ys"
  using desc_low [of ys "priority key"] by (simp add: insert_desc_def)

lemma desc_insert: "desc ys \<Longrightarrow> desc (insert_desc key ys)"
  by (auto simp: insert_desc_filter) (auto simp: desc_def sorted_wrt_append sorted_wrt_filter)

lemma mset_insert: "desc ys \<Longrightarrow> mset (insert_desc key ys) = add_mset key (mset ys)"
  by (simp add: insert_desc_filter not_le [symmetric])

text \<open>Hooks of one priority stay in the order of their registration.\<close>

lemma stable_insert:
  "desc ys \<Longrightarrow> filter (\<lambda>h. priority h = p) (insert_desc key ys) = filter (\<lambda>h. priority h = p) (ys @ [key])"
proof -
  assume d: "desc ys"
  show ?thesis
  proof (cases "p = priority key")
    case True
    have "filter (\<lambda>h. priority h = p) (filter (\<lambda>h. priority key \<le> priority h) ys) = filter (\<lambda>h. priority h = p) ys"
      "filter (\<lambda>h. priority h = p) (filter (\<lambda>h. priority h < priority key) ys) = []"
      using True by (induction ys) auto
    with True d show ?thesis by (simp add: insert_desc_filter)
  next
    case False
    have "filter (\<lambda>h. priority h = p) (filter (\<lambda>h. priority key \<le> priority h) ys)
        @ filter (\<lambda>h. priority h = p) (filter (\<lambda>h. priority h < priority key) ys) = filter (\<lambda>h. priority h = p) ys"
      by (cases "priority key \<le> p") (auto simp: filter_empty_conv intro!: filter_cong)
    with False d show ?thesis by (auto simp: insert_desc_filter)
  qed
qed

definition sorted_prefix :: "'c shutdown_hook list \<Rightarrow> nat \<Rightarrow> 'c shutdown_hook list \<Rightarrow> bool" where
  "sorted_prefix xs n s \<longleftrightarrow> (\<exists>ys. s = ys @ drop n xs \<and> desc ys \<and> mset ys = mset (take n xs)
     \<and> (\<forall>p. filter (\<lambda>h. priority h = p) ys = filter (\<lambda>h. priority h = p) (take n xs)))"

lemma sorted_prefix_step:
  assumes "sorted_prefix xs n s" and "n < length xs"
  shows "sorted_prefix xs (Suc n) (shift_loop s (s ! n) n)"
proof -
  obtain ys where ys: "s = ys @ drop n xs" "desc ys" "mset ys = mset (take n xs)"
    "\<forall>p. filter (\<lambda>h. priority h = p) ys = filter (\<lambda>h. priority h = p) (take n xs)"
    using assms(1) by (auto simp: sorted_prefix_def)
  have len: "length ys = n" using ys(3) assms(2) by (metis length_take min.absorb4 size_mset)
  have "drop n xs = xs ! n # drop (Suc n) xs" using assms(2) by (simp add: Cons_nth_drop_Suc)
  then have s: "s = ys @ xs ! n # drop (Suc n) xs" by (simp add: ys(1))
  then have "s ! n = xs ! n" using len by (simp add: nth_append)
  then have "shift_loop s (s ! n) n = insert_desc (xs ! n) ys @ drop (Suc n) xs"
    using shift_is_insert [of ys "xs ! n" "drop (Suc n) xs"] s len by simp
  moreover have "take (Suc n) xs = take n xs @ [xs ! n]" using assms(2) by (simp add: take_Suc_conv_app_nth)
  ultimately show ?thesis
    using desc_insert [OF ys(2)] mset_insert [OF ys(2)] stable_insert [OF ys(2)] ys(3,4)
    unfolding sorted_prefix_def by (intro exI [of _ "insert_desc (xs ! n) ys"]) simp
qed

lemma sort_hooks_prefix:
  "n \<le> length xs \<Longrightarrow> 1 \<le> n \<Longrightarrow> sorted_prefix xs n (foldl (\<lambda>s i. shift_loop s (s ! i) i) xs [1 ..< n])"
proof (induction n)
  case 0
  then show ?case by simp
next
  case (Suc n)
  show ?case
  proof (cases "n = 0")
    case True
    with Suc.prems obtain x xs' where "xs = x # xs'" by (cases xs) auto
    with True show ?thesis by (auto simp: sorted_prefix_def desc_def intro: exI [of _ "[x]"])
  next
    case False
    with Suc have "sorted_prefix xs n (foldl (\<lambda>s i. shift_loop s (s ! i) i) xs [1 ..< n])" by simp
    from sorted_prefix_step [OF this] Suc.prems False show ?thesis by simp
  qed
qed

lemma sort_hooks_stable: "sort_hooks xs = sort_key (\<lambda>h. - priority h) xs"
proof (cases "xs = []")
  case True
  then show ?thesis by (simp add: sort_hooks_def)
next
  case False
  then have "1 \<le> length xs" by (cases xs) auto
  from sort_hooks_prefix [OF le_refl this]
  have ys: "desc (sort_hooks xs)" "mset (sort_hooks xs) = mset xs"
    "\<forall>p. filter (\<lambda>h. priority h = p) (sort_hooks xs) = filter (\<lambda>h. priority h = p) xs"
    by (auto simp: sorted_prefix_def sort_hooks_def)
  have "sort_key (\<lambda>h. - priority h) xs = sort_hooks xs"
  proof (rule properties_for_sort_key)
    show "sorted (map (\<lambda>h. - priority h) (sort_hooks xs))"
      using ys(1) by (simp add: desc_def sorted_wrt_map)
    show "\<And>k. k \<in> set (sort_hooks xs) \<Longrightarrow>
      filter (\<lambda>x. - priority k = - priority x) (sort_hooks xs) = filter (\<lambda>x. - priority k = - priority x) xs"
      using ys(3) by (simp add: eq_commute)
  qed (rule ys(2))
  then show ?thesis by simp
qed


subsection \<open>The shutdown\<close>

definition hook_errors :: "('c \<Rightarrow> string option) \<Rightarrow> 'c shutdown_hook list \<Rightarrow> (string \<times> string) list" where
  "hook_errors outcome hs = [(hook_name h, e). h \<leftarrow> hs, e \<leftarrow> (case outcome (cleanup h) of None \<Rightarrow> [] | Some e \<Rightarrow> [e])]"

lemma run_hooks_all:
  "\<forall>i < length hs. poll (n + i) = None \<Longrightarrow>
    run_hooks poll outcome n errs hs
      = (let es = errs @ hook_errors outcome hs in (if es = [] then ShutdownOK else HooksFailed es, hs))"
proof (induction hs arbitrary: n errs)
  case Nil
  then show ?case by (simp add: hook_errors_def)
next
  case (Cons h hs)
  have "poll n = None" using Cons.prems [rule_format, of 0] by simp
  moreover have "\<forall>i < length hs. poll (Suc n + i) = None"
  proof (intro allI impI)
    fix i assume "i < length hs"
    then show "poll (Suc n + i) = None" using Cons.prems [rule_format, of "Suc i"] by simp
  qed
  ultimately show ?case using Cons.IH [of "Suc n"]
    by (simp add: hook_errors_def Let_def split: option.splits)
qed

lemma run_hooks_stop:
  "k < length hs \<Longrightarrow> \<forall>i < k. poll (n + i) = None \<Longrightarrow> poll (n + k) = Some e \<Longrightarrow>
    run_hooks poll outcome n errs hs = (ShutdownTimedOut e, take k hs)"
proof (induction hs arbitrary: n errs k)
  case Nil
  then show ?case by simp
next
  case (Cons h hs)
  show ?case
  proof (cases k)
    case 0
    with Cons.prems show ?thesis by simp
  next
    case (Suc j)
    have "poll n = None" using Cons.prems(2) [rule_format, of 0] Suc by simp
    moreover have "\<forall>i < j. poll (Suc n + i) = None"
    proof (intro allI impI)
      fix i assume "i < j"
      then show "poll (Suc n + i) = None" using Cons.prems(2) [rule_format, of "Suc i"] Suc by simp
    qed
    ultimately show ?thesis using Cons.IH [of j "Suc n"] Cons.prems(1,3) Suc by (simp add: Let_def)
  qed
qed

text \<open>C35: shutdown runs every hook once, by descending priority and in order of registration within a priority,
  whatever fails. If the deadline does not strike, all hooks are called in that order (the stable sort of the
  registered ones) and the result lists exactly the failures; if the context is first found done before the
  \<open>k\<close>-th hook, exactly the first \<open>k\<close> of them are called. Afterwards nothing is ever called again.\<close>

theorem shutdown_in_priority_order:
  assumes "\<not> shut m" and "shutdown poll outcome m = ((res, called), m1)"
  shows "((\<forall>i < length (hooks m). poll i = None) \<longrightarrow> called = sort_key (\<lambda>h. - priority h) (hooks m)
        \<and> res = (let es = hook_errors outcome called in if es = [] then ShutdownOK else HooksFailed es))
    \<and> (k < length (hooks m) \<and> (\<forall>i < k. poll i = None) \<and> poll k = Some e \<longrightarrow>
        called = take k (sort_key (\<lambda>h. - priority h) (hooks m)) \<and> res = ShutdownTimedOut e)
    \<and> shutdown poll' outcome' (register_hook m1 name prio fn) = ((AlreadyExecuted, []), m1)"
proof -
  let ?s = "sort_key (\<lambda>h. - priority h) (hooks m)"
  have r: "run_hooks poll outcome 0 [] ?s = (res, called)" and m1: "m1 = m\<lparr>shut := True\<rparr>"
    using assms by (auto simp: shutdown_def sort_hooks_stable)
  have "called = ?s \<and> res = (let es = hook_errors outcome called in if es = [] then ShutdownOK else HooksFailed es)"
    if "\<forall>i < length (hooks m). poll i = None"
    using run_hooks_all [of ?s poll 0 outcome "[]"] r that by (auto simp: Let_def split: if_splits)
  moreover have "called = take k ?s \<and> res = ShutdownTimedOut e"
    if "k < length (hooks m) \<and> (\<forall>i < k. poll i = None) \<and> poll k = Some e"
    using run_hooks_stop [of k ?s poll 0 e outcome "[]"] r that by simp
  ultimately show ?thesis by (simp add: m1 shutdown_def register_hook_def)
qed

definition demo_hooks :: "nat shutdown_manager" where
  "demo_hooks = register_hook (register_hook (register_hook (new_shutdown_manager 30) ''db'' 1 0) ''http'' 9 1) ''cache'' 1 2"

theorem shutdown_in_priority_order_witness:
  "\<exists>res called m1. shutdown (\<lambda>n. None) (\<lambda>c. if c = 1 then Some ''busy'' else None) demo_hooks = ((res, called), m1)
     \<and> map hook_name called = [''http'', ''db'', ''cache''] \<and> res = HooksFailed [(''http'', ''busy'')]"
proof -
  obtain res called m1 where s: "shutdown (\<lambda>n. None) (\<lambda>c. if c = 1 then Some ''busy'' else None) demo_hooks = ((res, called), m1)"
    by (metis prod.exhaust)
  have "\<not> shut demo_hooks" by (simp add: demo_hooks_def register_hook_def new_shutdown_manager_def)
  note t = shutdown_in_priority_order [OF this s]
  have "sort_key (\<lambda>h. - priority h) (hooks demo_hooks)
    = [\<lparr>hook_name = ''http'', priority = 9, cleanup = 1\<rparr>, \<lparr>hook_name = ''db'', priority = 1, cleanup = 0\<rparr>,
       \<lparr>hook_name = ''cache'', priority = 1, cleanup = 2\<rparr>]"
    by (simp add: demo_hooks_def register_hook_def new_shutdown_manager_def)
  with t s show ?thesis by (simp add: hook_errors_def)
qed

end
