(* ===== verification/Load_Shedding.thy ===== *)
theory Load_Shedding
  imports Float64
begin

text \<open>
  \<open>patterns/16_distributed/load_shedder.go\<close> and \<open>patterns/26_advanced/adaptive_shedder.go\<close>. The first counts a request before
  it decides, with two atomic operations, so requests that are deciding are part of its state and interleave. The second
  decides under a lock. Both compute in floating point: the thresholds of the first and the moving average of the second follow the
  code in the arithmetic of \<open>Float64\<close>, where \<open>wild\<close> is the result of a conversion out of range and \<open>fusion\<close> says which
  product, if any, the compiler fused with the sum.
\<close>


section \<open>Shedding by priority\<close>

datatype priority_level = PriorityLow | PriorityNormal | PriorityCritical | OtherPriority int

record load_shedder =
  shed_max :: int
  low_threshold :: int
  normal_threshold :: int
  in_flight :: int
  deciding :: "(priority_level \<times> int) list"
  admitted :: nat

definition share_of :: "(f64 \<Rightarrow> int) \<Rightarrow> int \<Rightarrow> rat \<Rightarrow> int" where
  "share_of wild n p = int64_of wild (f_mul (f_of_int n) (round64 p))"

definition new_load_shedder :: "(f64 \<Rightarrow> int) \<Rightarrow> int \<Rightarrow> load_shedder" where
  "new_load_shedder wild maxInFlight0 =
     (let maxInFlight = (if maxInFlight0 \<le> 0 then 100 else maxInFlight0)
      in \<lparr>shed_max = maxInFlight, low_threshold = share_of wild maxInFlight (70 / 100),
          normal_threshold = share_of wild maxInFlight (90 / 100), in_flight = 0, deciding = [], admitted = 0\<rparr>)"

definition should_drop :: "load_shedder \<Rightarrow> priority_level \<Rightarrow> int \<Rightarrow> bool" where
  "should_drop s p current =
     (case p of
        PriorityLow \<Rightarrow> low_threshold s < current
      | PriorityNormal \<Rightarrow> normal_threshold s < current
      | PriorityCritical \<Rightarrow> shed_max s < current
      | OtherPriority n \<Rightarrow> False)"

datatype shed_event = ShedArrive priority_level | ShedDecide nat | ShedRelease

text \<open>The two halves of \<open>Allow\<close>, and the release function, called once per admitted request.\<close>

definition shed_arrive :: "load_shedder \<Rightarrow> priority_level \<Rightarrow> load_shedder" where
  "shed_arrive s p =
     (let current = in_flight s + 1 in s\<lparr>in_flight := current, deciding := deciding s @ [(p, current)]\<rparr>)"

definition shed_decide :: "load_shedder \<Rightarrow> nat \<Rightarrow> load_shedder option" where
  "shed_decide s i =
     (if i < length (deciding s) then
        (let (p, current) = deciding s ! i;
             s1 = s\<lparr>deciding := take i (deciding s) @ drop (Suc i) (deciding s)\<rparr>
         in Some (if should_drop s p current then s1\<lparr>in_flight := in_flight s1 - 1\<rparr>
                  else s1\<lparr>admitted := Suc (admitted s1)\<rparr>))
      else None)"

definition shed_release :: "load_shedder \<Rightarrow> load_shedder option" where
  "shed_release s =
     (if 0 < admitted s then Some (s\<lparr>in_flight := in_flight s - 1, admitted := admitted s - 1\<rparr>) else None)"

fun shed_step :: "load_shedder \<Rightarrow> shed_event \<Rightarrow> load_shedder option" where
  "shed_step s (ShedArrive p) = Some (shed_arrive s p)"
| "shed_step s (ShedDecide i) = shed_decide s i"
| "shed_step s ShedRelease = shed_release s"

fun known_priority :: "shed_event \<Rightarrow> bool" where
  "known_priority (ShedArrive (OtherPriority n)) = False"
| "known_priority _ = True"

text \<open>The requests that are deciding and will be let in.\<close>

definition passing :: "load_shedder \<Rightarrow> (priority_level \<times> int) list" where
  "passing s = filter (\<lambda>(p, c). \<not> should_drop s p c) (deciding s)"

definition shed_inv :: "load_shedder \<Rightarrow> bool" where
  "shed_inv s \<longleftrightarrow>
     in_flight s = int (length (deciding s)) + int (admitted s) \<and>
     int (admitted s) + int (length (passing s)) \<le> shed_max s \<and>
     low_threshold s \<le> shed_max s \<and> normal_threshold s \<le> shed_max s"

lemma passing_le: "length (passing s) \<le> length (deciding s)"
  by (simp add: passing_def)

lemma shed_arrive_inv:
  assumes "shed_inv s" and "known_priority (ShedArrive p)"
  shows "shed_inv (shed_arrive s p)"
proof (cases "should_drop s p (in_flight s + 1)")
  case True
  then have "passing (shed_arrive s p) = passing s"
    by (auto simp: passing_def shed_arrive_def should_drop_def Let_def cong: priority_level.case_cong)
  with assms show ?thesis by (simp add: shed_inv_def) (simp add: shed_arrive_def Let_def)
next
  case False
  then have p: "passing (shed_arrive s p) = passing s @ [(p, in_flight s + 1)]"
    by (auto simp: passing_def shed_arrive_def should_drop_def Let_def cong: priority_level.case_cong)
  have "in_flight s + 1 \<le> shed_max s"
    using False assms by (cases p) (auto simp: should_drop_def shed_inv_def)
  then show ?thesis
    using assms(1) passing_le [of s] p by (simp add: shed_inv_def) (simp add: shed_arrive_def Let_def)
qed

lemma filter_remove:
  assumes "i < length xs"
  shows "length (filter P xs) = length (filter P (take i xs @ drop (Suc i) xs)) + (if P (xs ! i) then 1 else 0)"
proof -
  have "xs = take i xs @ xs ! i # drop (Suc i) xs" using assms by (rule id_take_nth_drop)
  then have "filter P xs = filter P (take i xs) @ filter P [xs ! i] @ filter P (drop (Suc i) xs)"
    by (metis append_Cons append_Nil filter_append)
  then show ?thesis by simp
qed

lemma shed_decide_inv:
  assumes I: "shed_inv s" and d: "shed_decide s i = Some t"
  shows "shed_inv t"
proof -
  obtain p c where e: "deciding s ! i = (p, c)" by (rule prod.exhaust)
  have i: "i < length (deciding s)" using d by (auto simp: shed_decide_def split: if_splits)
  let ?rest = "take i (deciding s) @ drop (Suc i) (deciding s)"
  have len: "length (deciding s) = Suc (length ?rest)" using i by simp
  have t: "t = (if should_drop s p c then s\<lparr>deciding := ?rest, in_flight := in_flight s - 1\<rparr>
                else s\<lparr>deciding := ?rest, admitted := Suc (admitted s)\<rparr>)"
    using d i e by (auto simp: shed_decide_def Let_def)
  have "deciding t = ?rest" and th: "low_threshold t = low_threshold s" "normal_threshold t = normal_threshold s" "shed_max t = shed_max s"
    unfolding t by (simp_all split: if_split)
  have sd: "should_drop t = should_drop s" by (intro ext) (simp only: should_drop_def th)
  have p: "length (passing s) = length (passing t) + (if should_drop s p c then 0 else 1)"
    using filter_remove [OF i, of "\<lambda>(p, c). \<not> should_drop s p c"] e \<open>deciding t = ?rest\<close> by (simp add: passing_def sd)
  have ld: "length (deciding s) = Suc (length (deciding t))" using len \<open>deciding t = ?rest\<close> by simp
  show ?thesis
  proof (cases "should_drop s p c")
    case True
    then have "in_flight t = in_flight s - 1" "admitted t = admitted s" by (simp_all add: t)
    then show ?thesis using I p ld th True by (simp add: shed_inv_def)
  next
    case False
    then have "in_flight t = in_flight s" "admitted t = Suc (admitted s)" by (simp_all add: t)
    then show ?thesis using I p ld th False by (simp add: shed_inv_def)
  qed
qed

lemma shed_release_inv:
  assumes "shed_inv s" and "shed_release s = Some t"
  shows "shed_inv t"
proof -
  have t: "t = s\<lparr>in_flight := in_flight s - 1, admitted := admitted s - 1\<rparr>" and a: "0 < admitted s"
    using assms(2) by (auto simp: shed_release_def split: if_splits)
  have "passing t = passing s" by (simp add: t passing_def should_drop_def cong: priority_level.case_cong)
  then show ?thesis using assms(1) a by (simp add: shed_inv_def t of_nat_diff)
qed

lemma shed_step_inv:
  "shed_inv s \<Longrightarrow> known_priority e \<Longrightarrow> shed_step s e = Some t \<Longrightarrow> shed_inv t"
  by (cases e) (auto intro: shed_arrive_inv shed_decide_inv shed_release_inv)

lemma shed_run_inv:
  "run_events shed_step s es = Some t \<Longrightarrow> \<forall>e \<in> set es. known_priority e \<Longrightarrow> shed_inv s \<Longrightarrow> shed_inv t"
proof (induction es arbitrary: s)
  case (Cons e es)
  then obtain s1 where s1: "shed_step s e = Some s1" "run_events shed_step s1 es = Some t"
    by (auto split: option.splits)
  with Cons shed_step_inv [OF _ _ s1(1)] show ?case by auto
qed simp

lemma shed_max_step: "shed_step s e = Some t \<Longrightarrow> shed_max t = shed_max s"
  by (cases e) (auto simp: shed_arrive_def shed_decide_def shed_release_def Let_def split: if_splits prod.splits)

lemma shed_max_run: "run_events shed_step s es = Some t \<Longrightarrow> shed_max t = shed_max s"
  by (rule run_events_inv [where I = "\<lambda>t. shed_max t = shed_max s"]) (auto dest: shed_max_step)

text \<open>The thresholds are computed below the maximum for every maximum an \<open>int64\<close> can hold.\<close>

lemma share_of_bounds:
  assumes "0 < n" and "in64 n" and "0 \<le> p" and "p \<le> 9 / 10"
  shows "0 \<le> share_of wild n p \<and> of_int (share_of wild n p) \<le> 23 / 25 * (of_int n :: rat)"
proof -
  define N where "N = (of_int n :: rat)"
  have N: "1 \<le> N" "N \<le> 2 ^ 63" using assms(1,2) by (simp_all add: N_def in64_def)
  have v63: "f64_value (Finite (2 ^ 63))"
    unfolding f64_value_Finite using fl_exact [OF representable_scaled [of 1 63]] by simp
  have n: "round64 N = Finite (fl N)" "0 \<le> fl N" "fl N \<le> 2 ^ 63"
    using round64_between [OF f64_value_small(1) _ N(2) v63] N(1) by simp_all
  have p: "round64 p = Finite (fl p)" "0 \<le> fl p" "fl p \<le> 1"
    using round64_between [OF f64_value_small(1) assms(3) _ f64_value_small(2)] assms(4) by simp_all
  have up: "fl N \<le> 1001 / 1000 * N" "fl p \<le> 91 / 100"
    using fl_near [of N] fl_near [of p] N(1) assms(3,4) by (simp_all add: field_simps)
  have prod: "0 \<le> fl N * fl p" "fl N * fl p \<le> 2 ^ 63"
    using n p mult_mono [OF n(3) p(3)] by simp_all
  have r: "round64 (fl N * fl p) = Finite (fl (fl N * fl p))" "0 \<le> fl (fl N * fl p)"
    using round64_between [OF f64_value_small(1) prod v63] by simp_all
  have "fl N * fl p \<le> 1001 / 1000 * N * (91 / 100)" using up n p N(1) by (intro mult_mono) simp_all
  then have y: "fl (fl N * fl p) \<le> 23 / 25 * N"
    using fl_near [OF prod(1)] N(1) by (simp add: field_simps)
  have fy: "0 \<le> \<lfloor>fl (fl N * fl p)\<rfloor>" "of_int \<lfloor>fl (fl N * fl p)\<rfloor> \<le> 23 / 25 * N"
    using r(2) y of_int_floor_le [of "fl (fl N * fl p)"] by (simp, linarith)
  then have "(of_int \<lfloor>fl (fl N * fl p)\<rfloor> :: rat) \<le> of_int n" using N(1) by (simp add: N_def)
  then have "\<lfloor>fl (fl N * fl p)\<rfloor> \<le> n" by (simp only: of_int_le_iff)
  with assms(2) fy(1) have "in64 \<lfloor>fl (fl N * fl p)\<rfloor>" by (rule in64_le)
  then have "share_of wild n p = \<lfloor>fl (fl N * fl p)\<rfloor>"
    using n(1) p(1) r by (simp add: share_of_def f_of_int_def int64_of_def toward_zero_def flip: N_def)
  with fy show ?thesis by (simp add: N_def)
qed

lemma share_of_le:
  assumes "0 < n" and "in64 n" and "0 \<le> p" and "p \<le> 9 / 10"
  shows "share_of wild n p \<le> n"
proof -
  have "(of_int (share_of wild n p) :: rat) \<le> of_int n" using share_of_bounds [OF assms, of wild] assms(1) by simp
  then show ?thesis by (simp only: of_int_le_iff)
qed

text \<open>C29: The shedder holds its bound under every interleaving. Requests of the three
  priorities are never admitted in a number above the maximum, although a request is counted before it is decided, and the
  counter is exactly the number of admitted and deciding requests, so a refused request leaves no trace.\<close>

theorem shedder_bounded:
  assumes "run_events shed_step (new_load_shedder wild m) es = Some s" and "\<forall>e \<in> set es. known_priority e" and "in64 m"
  shows "int (admitted s) \<le> (if m \<le> 0 then 100 else m) \<and> in_flight s = int (length (deciding s)) + int (admitted s)"
proof -
  let ?m = "if m \<le> 0 then 100 else m"
  have "in64 ?m" using assms(3) by (simp add: in64_def)
  then have "share_of wild ?m (70 / 100) \<le> ?m" "share_of wild ?m (90 / 100) \<le> ?m"
    by (intro share_of_le; simp)+
  then have "shed_inv (new_load_shedder wild m)" by (simp add: shed_inv_def new_load_shedder_def Let_def passing_def)
  with shed_run_inv [OF assms(1,2)] have "shed_inv s" by blast
  moreover have "shed_max s = ?m" using shed_max_run [OF assms(1)] by (simp add: new_load_shedder_def Let_def)
  ultimately show ?thesis by (auto simp: shed_inv_def)
qed

lemma shedder_bounded_witness:
  "\<exists>s. run_events shed_step (new_load_shedder (\<lambda>x. 0) 10)
     [ShedArrive PriorityLow, ShedArrive PriorityCritical, ShedDecide 1, ShedDecide 0] = Some s \<and> int (admitted s) \<le> 10"
proof -
  let ?es = "[ShedArrive PriorityLow, ShedArrive PriorityCritical, ShedDecide 1, ShedDecide 0]"
  obtain s where s: "run_events shed_step (new_load_shedder (\<lambda>x. 0) 10) ?es = Some s"
    by (simp add: shed_arrive_def shed_decide_def new_load_shedder_def should_drop_def Let_def)
  have "in64 10" by (simp add: in64_def)
  from shedder_bounded [OF s _ this] s show ?thesis by simp
qed

text \<open>But requests that are about to be refused count too: with a maximum of 1 a critical request is refused although nothing has
  been admitted, because a request of low priority is still deciding.\<close>

lemma spurious_refusal:
  "\<exists>s. run_events shed_step (new_load_shedder wild 1)
     [ShedArrive PriorityLow, ShedArrive PriorityCritical, ShedDecide 1, ShedDecide 0] = Some s \<and> admitted s = 0"
proof -
  have "share_of wild 1 (70 / 100) = 0"
    using share_of_bounds [of 1 "70 / 100" wild] by (simp add: in64_def)
  then show ?thesis by (simp add: shed_arrive_def shed_decide_def new_load_shedder_def should_drop_def Let_def)
qed

text \<open>A priority other than the three is never refused.\<close>

lemma other_priority_unbounded: "\<not> should_drop s (OtherPriority n) current"
  by (simp add: should_drop_def)


section \<open>Shedding by latency\<close>

record ema_shedder =
  target_sla :: duration
  current_ema :: duration
  decay_factor :: f64
  ema_max_in_flight :: int
  ema_in_flight :: int

definition new_ema_shedder :: "duration \<Rightarrow> int \<Rightarrow> ema_shedder" where
  "new_ema_shedder sla0 n =
     (let sla = (if sla0 \<le> 0 then 100000000 else sla0)
      in \<lparr>target_sla = sla, current_ema = sla div 2, decay_factor = round64 (1 / 10), ema_max_in_flight = (if n \<le> 0 then 100 else n), ema_in_flight = 0\<rparr>)"

definition ema_allow :: "ema_shedder \<Rightarrow> bool \<times> ema_shedder" where
  "ema_allow s =
     (if target_sla s < current_ema s \<or> ema_max_in_flight s \<le> ema_in_flight s then (False, s)
      else (True, s\<lparr>ema_in_flight := ema_in_flight s + 1\<rparr>))"

datatype fusion = NoFusion | FuseFirst | FuseSecond

definition latency_ema :: "fusion \<Rightarrow> (f64 \<Rightarrow> int) \<Rightarrow> f64 \<Rightarrow> duration \<Rightarrow> duration \<Rightarrow> duration" where
  "latency_ema fusion wild decay d old =
     (let rest = f_sub (Finite 1) decay
      in int64_of wild
           (case fusion of
              FuseSecond \<Rightarrow> f_muladd True (f_of_int old) rest (f_mul (f_of_int d) decay)
            | _ \<Rightarrow> f_muladd (fusion = FuseFirst) (f_of_int d) decay (f_mul (f_of_int old) rest)))"

definition record_latency :: "fusion \<Rightarrow> (f64 \<Rightarrow> int) \<Rightarrow> duration \<Rightarrow> ema_shedder \<Rightarrow> ema_shedder" where
  "record_latency fusion wild d s =
     s\<lparr>ema_in_flight := ema_in_flight s - 1, current_ema := latency_ema fusion wild (decay_factor s) d (current_ema s)\<rparr>"

datatype ema_event = EmaAllow | EmaDone duration

text \<open>A request can end only if one was admitted.\<close>

fun ema_step :: "fusion \<Rightarrow> (f64 \<Rightarrow> int) \<Rightarrow> ema_shedder \<Rightarrow> ema_event \<Rightarrow> ema_shedder option" where
  "ema_step fusion wild s EmaAllow = Some (snd (ema_allow s))"
| "ema_step fusion wild s (EmaDone d) = (if 0 < ema_in_flight s then Some (record_latency fusion wild d s) else None)"

lemma ema_in_flight_bounded:
  assumes "run_events (ema_step fusion wild) (new_ema_shedder sla n) es = Some s"
  shows "0 \<le> ema_in_flight s \<and> ema_in_flight s \<le> ema_max_in_flight s"
  using assms
proof (rule run_events_inv)
  show "0 \<le> ema_in_flight (new_ema_shedder sla n) \<and> ema_in_flight (new_ema_shedder sla n) \<le> ema_max_in_flight (new_ema_shedder sla n)"
    by (simp add: new_ema_shedder_def Let_def)
next
  fix s :: ema_shedder and e t
  assume "0 \<le> ema_in_flight s \<and> ema_in_flight s \<le> ema_max_in_flight s" and "ema_step fusion wild s e = Some t"
  then show "0 \<le> ema_in_flight t \<and> ema_in_flight t \<le> ema_max_in_flight t"
    by (cases e) (auto simp: ema_allow_def record_latency_def split: if_splits)
qed

text \<open>The latency shedder can shut itself off for good. The average only changes when an admitted request ends; so once it is
  above the target and no request is in flight, every later request is refused, whatever happens and however much time
  passes.\<close>

theorem ema_shedder_latches:
  assumes "target_sla s < current_ema s" and "ema_in_flight s = 0" and "run_events (ema_step fusion wild) s es = Some t"
  shows "t = s \<and> \<not> fst (ema_allow t)"
proof -
  have "t = s" if "run_events (ema_step fusion wild) s es = Some t"
    using that
  proof (induction es)
    case (Cons e es)
    then show ?case using assms(1,2) by (cases e) (auto simp: ema_allow_def)
  qed simp
  with assms show ?thesis by (simp add: ema_allow_def)
qed

text \<open>The average moves a tenth of the way towards the new latency, up to two nanoseconds, however the compiler rounds.\<close>

lemma decay_exact: "fl (1 / 10) = 7205759403792794 / 2 ^ 56" "fl (1 - 7205759403792794 / 2 ^ 56) = 8106479329266893 / 2 ^ 53"
proof -
  have "\<lfloor>36028797018963968 / 5 :: rat\<rfloor> = 7205759403792793" "\<lfloor>32425917317067571 / 4 :: rat\<rfloor> = 8106479329266892"
    by (simp_all add: floor_eq_iff)
  then show "fl (1 / 10) = 7205759403792794 / 2 ^ 56" "fl (1 - 7205759403792794 / 2 ^ 56) = 8106479329266893 / 2 ^ 53"
    by (subst fl_at [of "- 56"] fl_at [of "- 53"]; simp add: round_even_def Let_def power_int_minus_divide)+
qed

lemma latency_ema_near:
  assumes "0 \<le> d" and "d \<le> 2 ^ 50" and "0 \<le> old" and "old \<le> 2 ^ 50"
  shows "\<bar>of_int (latency_ema fusion wild (round64 (1 / 10)) d old) - (of_int d + 9 * of_int old) / 10\<bar> \<le> (2 :: rat)"
proof -
  define D where "D = (of_int d :: rat)"
  define W where "W = (of_int old :: rat)"
  define a where "a = (7205759403792794 / 2 ^ 56 :: rat)"
  define b where "b = (8106479329266893 / 2 ^ 53 :: rat)"
  have ab: "round64 (1 / 10) = Finite a" "f_sub (Finite 1) (Finite a) = Finite b"
    using decay_exact by (simp_all add: round64_def Let_def f_sub_def a_def b_def)
  have D: "0 \<le> D" "D \<le> 2 ^ 50" "f_of_int d = Finite D" "f64_value (Finite D)"
    using assms(1,2) by (simp_all add: D_def f_of_int_exact)
  have W: "0 \<le> W" "W \<le> 2 ^ 50" "f_of_int old = Finite W" "f64_value (Finite W)"
    using assms(3,4) by (simp_all add: W_def f_of_int_exact)
  have p1: "0 \<le> D * a" "D * a \<le> D" and p2: "0 \<le> W * b" "W * b \<le> W" using D W by (simp_all add: a_def b_def)
  note r1 = round64_between [OF f64_value_small(1) p1 D(4)] and r2 = round64_between [OF f64_value_small(1) p2 W(4)]
  define q1 where "q1 = (if fusion = FuseFirst then D * a else fl (D * a))"
  define q2 where "q2 = (if fusion = FuseSecond then W * b else fl (W * b))"
  have q: "0 \<le> q1" "q1 \<le> D" "0 \<le> q2" "q2 \<le> W" using p1 p2 r1 r2 by (simp_all add: q1_def q2_def)
  have n1: "q1 \<le> D / 10 + 1 / 4" "D / 10 - 1 / 4 \<le> q1"
    using fl_near [OF p1(1)] D unfolding q1_def a_def by (simp_all add: field_simps)
  have n2: "q2 \<le> 9 * W / 10 + 1 / 4" "9 * W / 10 - 1 / 4 \<le> q2"
    using fl_near [OF p2(1)] W unfolding q2_def b_def by (simp_all add: field_simps)
  define v where "v = fl (q1 + q2)"
  have s: "0 \<le> q1 + q2" "q1 + q2 \<le> of_int (2 ^ 51)" using q D W by simp_all
  have v: "round64 (q1 + q2) = Finite v" "0 \<le> v" "v \<le> of_int (2 ^ 51)"
    using round64_between [OF f64_value_small(1) s f64_value_int] by (simp_all add: v_def)
  have n: "v \<le> q1 + q2 + 1 / 2" "q1 + q2 - 1 / 2 \<le> v" using fl_near [OF s(1)] s(2) unfolding v_def by (simp_all add: field_simps)
  have "latency_ema fusion wild (round64 (1 / 10)) d old = int64_of wild (Finite v)"
    using v(1) r1 r2 ab D(3) W(3) by (cases fusion) (simp_all add: latency_ema_def f_muladd_def q1_def q2_def add.commute)
  moreover have "0 \<le> \<lfloor>v\<rfloor>" "\<lfloor>v\<rfloor> \<le> 2 ^ 51" using v(2) floor_mono [OF v(3)] by simp_all
  then have "int64_of wild (Finite v) = \<lfloor>v\<rfloor>" using v(2) by (simp add: int64_of_def toward_zero_def in64_def)
  moreover define K where "K = (of_int \<lfloor>v\<rfloor> :: rat)"
  have "v - 1 \<le> K" "K \<le> v" unfolding K_def by linarith+
  then have "\<bar>K - (D + 9 * W) / 10\<bar> \<le> 2" using n n1 n2 by (intro abs_leI) (simp_all add: field_simps)
  ultimately show ?thesis by (simp only: D_def W_def K_def)
qed

lemma ema_shedder_latches_witness:
  "\<exists>s. run_events (ema_step NoFusion (\<lambda>x. 0)) (new_ema_shedder 100000000 5) [EmaAllow, EmaDone 1000000000] = Some s \<and>
     \<not> fst (ema_allow s)"
proof -
  let ?ema = "latency_ema NoFusion (\<lambda>x. 0) (round64 (1 / 10)) 1000000000 50000000"
  let ?s = "(new_ema_shedder 100000000 5)\<lparr>current_ema := ?ema\<rparr>"
  have s: "run_events (ema_step NoFusion (\<lambda>x. 0)) (new_ema_shedder 100000000 5) [EmaAllow, EmaDone 1000000000] = Some ?s"
    by (simp add: new_ema_shedder_def ema_allow_def record_latency_def Let_def)
  have "\<bar>of_int ?ema - 145000000\<bar> \<le> (2 :: rat)"
    using latency_ema_near [of 1000000000 50000000 NoFusion "\<lambda>x. 0"] by simp
  then have "(100000000 :: rat) < of_int ?ema" by linarith
  then have above: "100000000 < ?ema" by simp
  have "run_events (ema_step NoFusion (\<lambda>x. 0)) ?s [EmaAllow] = Some ?s"
    using above by (simp add: new_ema_shedder_def ema_allow_def Let_def)
  from ema_shedder_latches [OF _ _ this] s above show ?thesis by (simp add: new_ema_shedder_def Let_def)
qed

end
