(* ===== verification/Ordered_Delivery.thy ===== *)
theory Ordered_Delivery
  imports Go_Prelude
begin

unbundle bit_operations_syntax

text \<open>
  \<open>patterns/15_messaging/message_ordering.go\<close>: a router that hashes a message's partition key (FNV-1a,
  32 bits, on machine words) and queues it for the partition's only worker. Routing, the workers and the
  shutdown are interleaved steps; a channel is a list with a capacity. \<open>select\<close> may pick either of its
  ready cases, so a worker whose context is done may still take a message.
\<close>

record ordered_message =
  partition_key :: string
  om_sequence :: int
  om_payload :: string


section \<open>The hash\<close>

definition fnv_prime :: "32 word" where "fnv_prime = 16777619"
definition fnv_offset :: "32 word" where "fnv_offset = 2166136261"

definition fnv_byte :: "32 word \<Rightarrow> char \<Rightarrow> 32 word" where
  "fnv_byte h c = (h XOR of_nat (of_char c)) * fnv_prime"

definition hash_key :: "string \<Rightarrow> int" where
  "hash_key key = uint (foldl fnv_byte fnv_offset key)"

lemma hash_key_bounds: "0 \<le> hash_key key" "hash_key key < 4294967296"
  using uint_lt2p [of "foldl fnv_byte fnv_offset key"] by (simp_all add: hash_key_def)

text \<open>Published test vectors of FNV-1a.\<close>

lemma fnv_vectors: "hash_key [] = 2166136261" "hash_key ''a'' = 3826002220" "hash_key ''foobar'' = 3214735720"
  by code_simp+


section \<open>The router\<close>

datatype worker_state = WIdle | WBusy ordered_message | WGone

text \<open>What the handler sees: the beginning and the end of each of its calls.\<close>

datatype handler_event = Began ordered_message | Ended ordered_message

record router =
  num_partitions :: int
  part_queues :: "int \<Rightarrow> ordered_message list"
  part_workers :: "int \<Rightarrow> worker_state"
  router_closed :: bool
  router_done :: bool
  routed :: "ordered_message list"
  handler_log :: "handler_event list"

definition new_router :: "int \<Rightarrow> router" where
  "new_router n =
     \<lparr>num_partitions = (if n \<le> 0 then 4 else n), part_queues = (\<lambda>i. []), part_workers = (\<lambda>i. WIdle),
      router_closed = False, router_done = False, routed = [], handler_log = []\<rparr>"

definition partition_of :: "router \<Rightarrow> ordered_message \<Rightarrow> int" where
  "partition_of r m = hash_key (partition_key m) mod num_partitions r"

datatype route_result = RoutePanics | RouteBlocks | Routed router

definition route :: "router \<Rightarrow> ordered_message \<Rightarrow> route_result" where
  "route r m =
     (let idx = partition_of r m
      in if router_closed r then RoutePanics
         else if 100 \<le> length (part_queues r idx) then RouteBlocks
         else Routed (r\<lparr>part_queues := (part_queues r)(idx := part_queues r idx @ [m]), routed := routed r @ [m]\<rparr>))"

datatype router_event = Route ordered_message | Take int | HandlerDone int | WorkerExit int | ParentDone | CloseQueues | StopDone

text \<open>\<open>Stop\<close> closes the queues, waits for the workers and cancels the context; \<open>StopDone\<close> is its end.\<close>

fun router_step :: "router \<Rightarrow> router_event \<Rightarrow> router option" where
  "router_step r (Route m) = (case route r m of Routed r1 \<Rightarrow> Some r1 | _ \<Rightarrow> None)"
| "router_step r (Take i) =
     (if 0 \<le> i \<and> i < num_partitions r \<and> part_workers r i = WIdle then
        (case part_queues r i of
           [] \<Rightarrow> None
         | m # ms \<Rightarrow> Some (r\<lparr>part_queues := (part_queues r)(i := ms),
                            part_workers := (part_workers r)(i := WBusy m), handler_log := handler_log r @ [Began m]\<rparr>))
      else None)"
| "router_step r (HandlerDone i) =
     (case part_workers r i of
        WBusy m \<Rightarrow> Some (r\<lparr>part_workers := (part_workers r)(i := WIdle), handler_log := handler_log r @ [Ended m]\<rparr>)
      | _ \<Rightarrow> None)"
| "router_step r (WorkerExit i) =
     (if 0 \<le> i \<and> i < num_partitions r \<and> part_workers r i = WIdle
         \<and> (router_done r \<or> (router_closed r \<and> part_queues r i = []))
      then Some (r\<lparr>part_workers := (part_workers r)(i := WGone)\<rparr>) else None)"
| "router_step r ParentDone = Some (r\<lparr>router_done := True\<rparr>)"
| "router_step r CloseQueues = (if router_closed r then None else Some (r\<lparr>router_closed := True\<rparr>))"
| "router_step r StopDone =
     (if router_closed r \<and> (\<forall>i \<in> {0 ..< num_partitions r}. part_workers r i = WGone)
      then Some (r\<lparr>router_done := True\<rparr>) else None)"

definition of_part :: "router \<Rightarrow> int \<Rightarrow> ordered_message list \<Rightarrow> ordered_message list" where
  "of_part r i ms = filter (\<lambda>m. partition_of r m = i) ms"

text \<open>The messages whose handling has ended, the one a worker is handling, and the log of calls made one after
  the other.\<close>

fun completed :: "handler_event list \<Rightarrow> ordered_message list" where
  "completed [] = []"
| "completed (Began m # l) = completed l"
| "completed (Ended m # l) = m # completed l"

definition in_hand :: "router \<Rightarrow> int \<Rightarrow> ordered_message list" where
  "in_hand r i = (case part_workers r i of WBusy m \<Rightarrow> [m] | _ \<Rightarrow> [])"

primrec one_by_one :: "ordered_message list \<Rightarrow> handler_event list" where
  "one_by_one [] = []"
| "one_by_one (m # ms) = Began m # Ended m # one_by_one ms"

fun handler_msg :: "handler_event \<Rightarrow> ordered_message" where
  "handler_msg (Began m) = m"
| "handler_msg (Ended m) = m"

definition part_log :: "router \<Rightarrow> int \<Rightarrow> handler_event list \<Rightarrow> handler_event list" where
  "part_log r i l = filter (\<lambda>e. partition_of r (handler_msg e) = i) l"

lemma completed_append [simp]: "completed (l @ l') = completed l @ completed l'"
  by (induction l rule: completed.induct) simp_all

lemma completed_Began [simp]: "completed (map Began ms) = []"
  by (induction ms) simp_all

lemma one_by_one_append [simp]: "one_by_one (ms @ ns) = one_by_one ms @ one_by_one ns"
  by (induction ms) simp_all

lemma completed_one_by_one [simp]: "completed (one_by_one ms) = ms"
  by (induction ms) simp_all

lemma completed_filter: "completed (filter (P \<circ> handler_msg) l) = filter P (completed l)"
  by (induction l rule: completed.induct) simp_all

lemma one_by_one_filter: "filter (P \<circ> handler_msg) (one_by_one ms) = one_by_one (filter P ms)"
  by (induction ms) simp_all

text \<open>In every partition the handler is called for one message at a time, in the order of routing.\<close>

definition part_inv :: "router \<Rightarrow> int \<Rightarrow> bool" where
  "part_inv r i \<longleftrightarrow> (\<exists>ms. part_log r i (handler_log r) = one_by_one ms @ map Began (in_hand r i)
     \<and> of_part r i (routed r) = ms @ in_hand r i @ part_queues r i)"

definition router_inv :: "router \<Rightarrow> bool" where
  "router_inv r \<longleftrightarrow> 0 < num_partitions r
   \<and> (\<forall>i. part_inv r i)
   \<and> (\<forall>i. \<forall>m \<in> set (in_hand r i @ part_queues r i). partition_of r m = i) \<and> (\<forall>i. length (part_queues r i) \<le> 100)
   \<and> (\<forall>i. part_workers r i = WGone \<longrightarrow> router_done r \<or> (router_closed r \<and> part_queues r i = []))"

lemma partition_bounds: "0 < num_partitions r \<Longrightarrow> 0 \<le> partition_of r m \<and> partition_of r m < num_partitions r"
  by (simp add: partition_of_def)

lemma part_cong:
  assumes "num_partitions s = num_partitions r"
  shows "of_part s = of_part r" "part_log s = part_log r" "partition_of s = partition_of r"
  using assms by (auto simp: of_part_def part_log_def partition_of_def fun_eq_iff)

lemma router_inv_new: "router_inv (new_router n)"
  by (auto simp: router_inv_def part_inv_def new_router_def of_part_def part_log_def in_hand_def intro: exI [of _ "[]"])

lemma router_invD:
  assumes "router_inv r"
  shows "part_inv r i" "m \<in> set (in_hand r i) \<or> m \<in> set (part_queues r i) \<Longrightarrow> partition_of r m = i"
    "length (part_queues r i) \<le> 100" "0 < num_partitions r"
    "part_workers r i = WGone \<Longrightarrow> router_done r \<or> (router_closed r \<and> part_queues r i = [])"
  using assms unfolding router_inv_def by auto

text \<open>A step that adds nothing to the log or the routed messages and leaves every queue and every message in hand
  where it is.\<close>

lemma part_inv_same:
  assumes "part_inv r i" and "num_partitions s = num_partitions r" and "handler_log s = handler_log r"
    and "routed s = routed r" "part_queues s i = part_queues r i" "in_hand s i = in_hand r i"
  shows "part_inv s i"
  using assms(1) unfolding part_inv_def part_cong [OF assms(2)] assms(3-) .

lemma part_inv_route:
  assumes "part_inv r i" and "s = r\<lparr>part_queues := (part_queues r)(partition_of r m := part_queues r (partition_of r m) @ [m]), routed := routed r @ [m]\<rparr>"
  shows "part_inv s i"
proof -
  have p: "of_part s = of_part r" "part_log s = part_log r" by (rule part_cong; simp add: assms(2))+
  have s: "in_hand s = in_hand r" "handler_log s = handler_log r"
    "of_part r i (routed s) = of_part r i (routed r) @ (if partition_of r m = i then [m] else [])"
    "part_queues s i = part_queues r i @ (if partition_of r m = i then [m] else [])"
    by (auto simp: assms(2) in_hand_def of_part_def)
  show ?thesis using assms(1) unfolding part_inv_def p s by auto
qed

lemma part_inv_take:
  assumes "part_inv r j" and "part_queues r i = m # ms" "part_workers r i = WIdle" "partition_of r m = i"
    and "s = r\<lparr>part_queues := (part_queues r)(i := ms), part_workers := (part_workers r)(i := WBusy m),
      handler_log := handler_log r @ [Began m]\<rparr>"
  shows "part_inv s j"
proof -
  have p: "of_part s = of_part r" "part_log s = part_log r" by (rule part_cong; simp add: assms(5))+
  have s: "in_hand s j = (if j = i then [m] else in_hand r j)" "part_queues s j = (if j = i then ms else part_queues r j)"
    "routed s = routed r"
    "part_log r j (handler_log s) = part_log r j (handler_log r) @ (if j = i then [Began m] else [])"
    using assms(4) by (auto simp: assms(5) in_hand_def part_log_def)
  have "in_hand r i = []" using assms(3) by (simp add: in_hand_def)
  with assms(1,2) show ?thesis unfolding part_inv_def p s by auto
qed

lemma part_inv_done:
  assumes "part_inv r j" and "part_workers r i = WBusy m" "partition_of r m = i"
    and "s = r\<lparr>part_workers := (part_workers r)(i := WIdle), handler_log := handler_log r @ [Ended m]\<rparr>"
  shows "part_inv s j"
proof -
  have p: "of_part s = of_part r" "part_log s = part_log r" by (rule part_cong; simp add: assms(4))+
  have s: "in_hand s j = (if j = i then [] else in_hand r j)" "part_queues s j = part_queues r j" "routed s = routed r"
    "part_log r j (handler_log s) = part_log r j (handler_log r) @ (if j = i then [Ended m] else [])"
    using assms(3) by (auto simp: assms(4) in_hand_def part_log_def)
  have h: "in_hand r i = [m]" using assms(2) by (simp add: in_hand_def)
  obtain ms where ms: "part_log r j (handler_log r) = one_by_one ms @ map Began (in_hand r j)"
    "of_part r j (routed r) = ms @ in_hand r j @ part_queues r j"
    using assms(1) unfolding part_inv_def by blast
  show ?thesis unfolding part_inv_def p s
    by (rule exI [of _ "ms @ (if j = i then [m] else [])"]) (use h ms in auto)
qed

lemma router_inv_step:
  assumes "router_inv r" and "router_step r e = Some s"
  shows "router_inv s"
proof -
  note D = router_invD [OF assms(1)]
  have n: "num_partitions s = num_partitions r"
    using assms(2) by (cases e) (auto simp: route_def Let_def split: if_splits list.splits worker_state.splits)
  note p = part_cong(3) [OF n]
  have other: ?thesis
    if "\<And>i. part_inv s i" "\<And>i m. m \<in> set (in_hand s i) \<or> m \<in> set (part_queues s i) \<Longrightarrow> partition_of r m = i"
      "\<And>i. length (part_queues s i) \<le> 100"
      "\<And>i. part_workers s i = WGone \<Longrightarrow> router_done s \<or> (router_closed s \<and> part_queues s i = [])"
    using that D(4) unfolding router_inv_def p n by auto
  show ?thesis
  proof (cases e)
    case (Route m)
    have s: "\<not> router_closed r" "length (part_queues r (partition_of r m)) < 100"
      "s = r\<lparr>part_queues := (part_queues r)(partition_of r m := part_queues r (partition_of r m) @ [m]), routed := routed r @ [m]\<rparr>"
      using assms(2) Route by (auto simp: route_def Let_def split: if_splits)
    show ?thesis
      by (rule other) (use D s part_inv_route [OF D(1) s(3)] in \<open>auto simp: in_hand_def split: if_splits\<close>)
  next
    case (Take i)
    then obtain m ms where s: "part_queues r i = m # ms" "part_workers r i = WIdle"
      "s = r\<lparr>part_queues := (part_queues r)(i := ms), part_workers := (part_workers r)(i := WBusy m),
        handler_log := handler_log r @ [Began m]\<rparr>"
      using assms(2) by (auto split: if_splits list.splits)
    have m: "partition_of r m = i" using D(2) [of m i] s(1) by simp
    have "length ms \<le> 100" using D(3) [of i] s(1) by simp
    moreover have "x \<in> set ms \<Longrightarrow> partition_of r x = i" for x using D(2) [of x i] s(1) by simp
    ultimately show ?thesis
      by (intro other) (use D(2-5) s m part_inv_take [OF D(1) s(1,2) m s(3)] in
          \<open>auto simp: in_hand_def split: if_splits\<close>)
  next
    case (HandlerDone i)
    then obtain m where s: "part_workers r i = WBusy m"
      "s = r\<lparr>part_workers := (part_workers r)(i := WIdle), handler_log := handler_log r @ [Ended m]\<rparr>"
      using assms(2) by (auto split: worker_state.splits)
    have m: "partition_of r m = i" using D(2) [of m i] s(1) by (simp add: in_hand_def)
    show ?thesis
      by (rule other) (use D(2-5) s part_inv_done [OF D(1) s(1) m s(2)] in
          \<open>auto simp: in_hand_def split: if_splits\<close>)
  next
    case (WorkerExit i)
    then have s: "part_workers r i = WIdle" "s = r\<lparr>part_workers := (part_workers r)(i := WGone)\<rparr>"
      "router_done r \<or> (router_closed r \<and> part_queues r i = [])" using assms(2) by (auto split: if_splits)
    then have "in_hand s = in_hand r" by (auto simp: in_hand_def fun_eq_iff)
    with s D show ?thesis by (intro other) (auto intro: part_inv_same [OF D(1)] split: if_splits)
  next
    case ParentDone
    with assms(2) D show ?thesis by (intro other) (auto simp: in_hand_def intro: part_inv_same [OF D(1)])
  next
    case CloseQueues
    have "\<forall>i. part_workers r i = WGone \<longrightarrow> router_done r \<or> part_queues r i = []" using D(5) by blast
    with CloseQueues assms(2) D(1-3) show ?thesis
      by (intro other) (auto simp: in_hand_def intro: part_inv_same [OF D(1)] split: if_splits)
  next
    case StopDone
    with assms(2) D show ?thesis
      by (intro other) (auto simp: in_hand_def intro: part_inv_same [OF D(1)] split: if_splits)
  qed
qed

lemma router_inv_run: "run_events router_step (new_router n) es = Some r \<Longrightarrow> router_inv r"
  by (rule run_events_inv [where I = router_inv]) (auto intro: router_inv_new router_inv_step)

text \<open>The messages of one key, wherever they go, all go to one partition.\<close>

definition of_key :: "string \<Rightarrow> ordered_message list \<Rightarrow> ordered_message list" where
  "of_key k ms = filter (\<lambda>m. partition_key m = k) ms"

definition key_log :: "string \<Rightarrow> handler_event list \<Rightarrow> handler_event list" where
  "key_log k l = filter (\<lambda>e. partition_key (handler_msg e) = k) l"

lemma of_key_part: "of_key k ms = of_key k (of_part r (hash_key k mod num_partitions r) ms)"
  by (induction ms) (auto simp: of_key_def of_part_def partition_of_def)

lemma key_log_part: "key_log k l = key_log k (part_log r (hash_key k mod num_partitions r) l)"
  by (induction l) (auto simp: key_log_def part_log_def partition_of_def)

lemma key_log_simps:
  "key_log k (one_by_one ms) = one_by_one (of_key k ms)" "key_log k (map Began ms) = map Began (of_key k ms)"
  "key_log k (l @ l') = key_log k l @ key_log k l'" "of_key k (ms @ ns) = of_key k ms @ of_key k ns"
  "completed (key_log k l) = of_key k (completed l)"
  using one_by_one_filter [of "\<lambda>m. partition_key m = k"] completed_filter [of "\<lambda>m. partition_key m = k"]
  by (simp_all add: key_log_def of_key_def comp_def filter_map)

text \<open>C22: messages of one partition key are handled one at a time, in the order in which they were routed. In every
  interleaving of producers, workers and shutdown, for every key, the handler's calls for it do not overlap: its log
  is that of completed calls made one after the other, followed by the beginning of the one under way, if any. What
  was routed is what those calls were made for, in that order, followed by what still waits in one queue, and no
  queue exceeds its capacity of 100.\<close>

theorem per_key_fifo:
  assumes "run_events router_step (new_router n) es = Some r"
  shows "key_log k (handler_log r)
      = one_by_one (of_key k (completed (handler_log r)))
        @ map Began (of_key k (in_hand r (hash_key k mod num_partitions r)))
    \<and> of_key k (routed r)
      = of_key k (completed (handler_log r)) @ of_key k (in_hand r (hash_key k mod num_partitions r))
        @ of_key k (part_queues r (hash_key k mod num_partitions r))
    \<and> length (part_queues r i) \<le> 100"
proof -
  note D = router_invD [OF router_inv_run [OF assms]]
  let ?i = "hash_key k mod num_partitions r"
  obtain ms where ms: "part_log r ?i (handler_log r) = one_by_one ms @ map Began (in_hand r ?i)"
    "of_part r ?i (routed r) = ms @ in_hand r ?i @ part_queues r ?i"
    using D(1) [of ?i] unfolding part_inv_def by blast
  have log: "key_log k (handler_log r) = one_by_one (of_key k ms) @ map Began (of_key k (in_hand r ?i))"
    by (simp only: key_log_part [of k "handler_log r" r] ms(1) key_log_simps)
  then have "completed (key_log k (handler_log r)) = of_key k ms" by simp
  then have "of_key k (completed (handler_log r)) = of_key k ms" by (simp only: key_log_simps)
  moreover have "of_key k (routed r) = of_key k ms @ of_key k (in_hand r ?i) @ of_key k (part_queues r ?i)"
    by (simp only: of_key_part [of k "routed r" r] ms(2) key_log_simps)
  ultimately show ?thesis using D(3) log by simp
qed

definition demo_msg :: "int \<Rightarrow> ordered_message" where
  "demo_msg n = \<lparr>partition_key = ''k'', om_sequence = n, om_payload = []\<rparr>"

theorem per_key_fifo_witness:
  "\<exists>r. run_events router_step (new_router 1)
       [Route (demo_msg 1), Route (demo_msg 2), Take 0, Route (demo_msg 3), HandlerDone 0, Take 0] = Some r
     \<and> key_log ''k'' (handler_log r) = [Began (demo_msg 1), Ended (demo_msg 1), Began (demo_msg 2)]
     \<and> of_key ''k'' (routed r) = [demo_msg 1, demo_msg 2] @ of_key ''k'' (part_queues r (hash_key ''k'' mod num_partitions r))"
proof -
  obtain r where r: "run_events router_step (new_router 1)
       [Route (demo_msg 1), Route (demo_msg 2), Take 0, Route (demo_msg 3), HandlerDone 0, Take 0] = Some r"
    "handler_log r = [Began (demo_msg 1), Ended (demo_msg 1), Began (demo_msg 2)]" "num_partitions r = 1"
    "part_workers r 0 = WBusy (demo_msg 2)"
    by (simp add: new_router_def route_def partition_of_def Let_def)
  with per_key_fifo [OF r(1), of "''k''" 0] show ?thesis by (auto simp: of_key_def in_hand_def demo_msg_def)
qed

text \<open>A router that is stopped without its context being cancelled before has handled everything it was given.\<close>

lemma stop_drains:
  assumes "run_events router_step (new_router n) es = Some r" and "router_step r StopDone = Some s" and "\<not> router_done r"
  shows "completed (part_log r i (handler_log s)) = of_part r i (routed s)"
proof -
  note D = router_invD [OF router_inv_run [OF assms(1)]]
  have gone: "\<forall>i \<in> {0 ..< num_partitions r}. part_workers r i = WGone" and s: "handler_log s = handler_log r" "routed s = routed r"
    using assms(2) by (auto split: if_splits)
  obtain ms where ms: "part_log r i (handler_log r) = one_by_one ms @ map Began (in_hand r i)"
    "of_part r i (routed r) = ms @ in_hand r i @ part_queues r i"
    using D(1) [of i] unfolding part_inv_def by blast
  show ?thesis
  proof (cases "0 \<le> i \<and> i < num_partitions r")
    case True
    with gone have g: "part_workers r i = WGone" by simp
    with D(5) [of i] assms(3) have "part_queues r i = []" by simp
    with g ms s show ?thesis by (simp add: in_hand_def)
  next
    case False
    then have "partition_of r m \<noteq> i" for m using partition_bounds [OF D(4)] by metis
    then show ?thesis by (simp add: of_part_def part_log_def)
  qed
qed

end
