(* ===== verification/Outbox.thy ===== *)
theory Outbox
  imports Go_Prelude
begin

text \<open>
  The transactional outbox: \<open>patterns/15_messaging/outbox_pattern.go\<close> (store and relay) and
  \<open>patterns/26_advanced/reliable_outbox_publisher.go\<close> (the polling publisher). A broker is a state
  \<open>'w\<close> with a publishing function that may fail; a batch of pending events is collected in the
  iteration order of the map, which is an argument, and each event is published outside the lock and then
  marked.
\<close>

datatype outbox_status = StatusPending | StatusPublished

record outbox_event =
  oe_id :: string
  aggregate_type :: string
  aggregate_id :: string
  event_type :: string
  oe_payload :: string
  oe_status :: outbox_status
  oe_created_at :: gotime
  published_at :: "gotime option"

type_synonym outbox_store = "string \<rightharpoonup> outbox_event"

definition new_outbox_store :: outbox_store where
  "new_outbox_store = Map.empty"

definition save_tx :: "outbox_store \<Rightarrow> gotime \<Rightarrow> outbox_event \<Rightarrow> outbox_store" where
  "save_tx s now e = s(oe_id e \<mapsto> e\<lparr>oe_status := StatusPending, oe_created_at := now\<rparr>)"

fun pending_loop :: "outbox_store \<Rightarrow> int \<Rightarrow> outbox_event list \<Rightarrow> string list \<Rightarrow> outbox_event list" where
  "pending_loop s limit pending [] = pending"
| "pending_loop s limit pending (k # ks) =
     (case s k of
        None \<Rightarrow> pending_loop s limit pending ks
      | Some e \<Rightarrow>
          if oe_status e = StatusPending then
            let pending1 = pending @ [e]
            in if limit \<le> int (length pending1) then pending1 else pending_loop s limit pending1 ks
          else pending_loop s limit pending ks)"

definition get_pending_events :: "outbox_store \<Rightarrow> string list \<Rightarrow> int \<Rightarrow> outbox_event list" where
  "get_pending_events s ks limit = pending_loop s limit [] ks"

definition mark_published :: "outbox_store \<Rightarrow> gotime \<Rightarrow> string \<Rightarrow> string option \<times> outbox_store" where
  "mark_published s now i =
     (case s i of
        None \<Rightarrow> (Some i, s)
      | Some e \<Rightarrow> (None, s(i \<mapsto> e\<lparr>oe_status := StatusPublished, published_at := Some now\<rparr>)))"

text \<open>The relay's loop stops at the first failure; the reliable publisher's loop goes on. The times at which the
  events are marked are given in order.\<close>

fun flush_loop ::
  "(outbox_event \<Rightarrow> 'w \<Rightarrow> 'e option \<times> 'w) \<Rightarrow> (nat \<Rightarrow> gotime) \<Rightarrow> nat \<Rightarrow> outbox_event list \<Rightarrow> outbox_store \<Rightarrow> 'w
    \<Rightarrow> (int \<times> 'e option) \<times> outbox_store \<times> 'w" where
  "flush_loop publish clk n [] s w = ((int n, None), s, w)"
| "flush_loop publish clk n (e # es) s w =
     (case publish e w of
        (Some err, w1) \<Rightarrow> ((int n, Some err), s, w1)
      | (None, w1) \<Rightarrow> flush_loop publish clk (Suc n) es (snd (mark_published s (clk n) (oe_id e))) w1)"

definition flush ::
  "outbox_store \<Rightarrow> string list \<Rightarrow> (outbox_event \<Rightarrow> 'w \<Rightarrow> 'e option \<times> 'w) \<Rightarrow> (nat \<Rightarrow> gotime) \<Rightarrow> 'w
    \<Rightarrow> (int \<times> 'e option) \<times> outbox_store \<times> 'w" where
  "flush s ks publish clk w = flush_loop publish clk 0 (get_pending_events s ks 50) s w"

fun flush_once_loop ::
  "(string \<Rightarrow> string \<Rightarrow> 'w \<Rightarrow> 'e option \<times> 'w) \<Rightarrow> (nat \<Rightarrow> gotime) \<Rightarrow> nat \<Rightarrow> 'e list \<Rightarrow> outbox_event list \<Rightarrow> outbox_store \<Rightarrow> 'w
    \<Rightarrow> 'e list \<times> outbox_store \<times> 'w" where
  "flush_once_loop publish clk n errs [] s w = (errs, s, w)"
| "flush_once_loop publish clk n errs (e # es) s w =
     (case publish (event_type e) (oe_payload e) w of
        (Some err, w1) \<Rightarrow> flush_once_loop publish clk n (errs @ [err]) es s w1
      | (None, w1) \<Rightarrow> flush_once_loop publish clk (Suc n) errs es (snd (mark_published s (clk n) (oe_id e))) w1)"

definition flush_once ::
  "outbox_store \<Rightarrow> string list \<Rightarrow> (string \<Rightarrow> string \<Rightarrow> 'w \<Rightarrow> 'e option \<times> 'w) \<Rightarrow> (nat \<Rightarrow> gotime) \<Rightarrow> 'w
    \<Rightarrow> 'e list \<times> outbox_store \<times> 'w" where
  "flush_once s ks publish clk w = flush_once_loop publish clk 0 [] (get_pending_events s ks 20) s w"


section \<open>The batch\<close>

definition is_pending :: "outbox_store \<Rightarrow> string \<Rightarrow> bool" where
  "is_pending s k \<longleftrightarrow> (\<exists>e. s k = Some e \<and> oe_status e = StatusPending)"

text \<open>The store files every event under its own id.\<close>

definition well_filed :: "outbox_store \<Rightarrow> bool" where
  "well_filed s \<longleftrightarrow> (\<forall>k e. s k = Some e \<longrightarrow> oe_id e = k)"

lemma well_filed_save: "well_filed s \<Longrightarrow> well_filed (save_tx s now e)"
  by (simp add: well_filed_def save_tx_def)

lemma well_filed_mark: "well_filed s \<Longrightarrow> well_filed (snd (mark_published s now i))"
  by (auto simp: well_filed_def mark_published_def split: option.splits)

lemma pending_loop_take:
  "well_filed s \<Longrightarrow> int (length acc) < limit \<Longrightarrow>
    map oe_id (pending_loop s limit acc ks) = take (nat limit) (map oe_id acc @ filter (is_pending s) ks)"
proof (induction ks arbitrary: acc)
  case Nil
  then show ?case by simp
next
  case (Cons k ks)
  show ?case
  proof (cases "is_pending s k")
    case True
    then obtain e where e: "s k = Some e" "oe_status e = StatusPending" "oe_id e = k"
      using Cons.prems(1) by (auto simp: is_pending_def well_filed_def)
    show ?thesis
    proof (cases "limit \<le> int (length acc) + 1")
      case True
      with Cons.prems(2) have "nat limit = Suc (length acc)" by linarith
      with True e \<open>is_pending s k\<close> show ?thesis by (simp add: add.commute)
    next
      case False
      with e Cons.IH [of "acc @ [e]"] Cons.prems \<open>is_pending s k\<close> show ?thesis by simp
    qed
  next
    case False
    with Cons show ?thesis by (auto simp: is_pending_def split: option.splits)
  qed
qed

lemma batch_ids:
  "well_filed s \<Longrightarrow> 0 < limit \<Longrightarrow>
    map oe_id (get_pending_events s ks limit) = take (nat limit) (filter (is_pending s) ks)"
  unfolding get_pending_events_def by (subst pending_loop_take) simp_all

lemma pending_loop_stored:
  "\<forall>e \<in> set acc. \<exists>k. s k = Some e \<Longrightarrow> e \<in> set (pending_loop s limit acc ks) \<Longrightarrow> \<exists>k. s k = Some e"
proof (induction ks arbitrary: acc)
  case Nil
  then show ?case by simp
next
  case (Cons k ks)
  show ?case
  proof (cases "s k")
    case None
    with Cons show ?thesis by simp
  next
    case (Some x)
    then have "\<forall>e \<in> set (acc @ [x]). \<exists>k. s k = Some e" using Cons.prems(1) by auto
    with Some Cons.IH [of "acc @ [x]"] Cons.IH [of acc] Cons.prems show ?thesis
      by (simp add: Let_def split: if_splits) blast
  qed
qed

lemma mark_pending: "is_pending (snd (mark_published s now i)) k \<longleftrightarrow> is_pending s k \<and> k \<noteq> i"
  by (auto simp: mark_published_def is_pending_def split: option.splits)


section \<open>Nothing is lost\<close>

text \<open>A broker that records the topics and payloads it has accepted and fails the calls whose number
  \<open>fails\<close> says, with an error.\<close>

record broker =
  calls :: nat
  accepted :: "(string \<times> string) list"

definition broker_publish :: "(nat \<Rightarrow> string option) \<Rightarrow> string \<Rightarrow> string \<Rightarrow> broker \<Rightarrow> string option \<times> broker" where
  "broker_publish fails topic pl b =
     (case fails (calls b) of
        Some err \<Rightarrow> (Some err, b\<lparr>calls := Suc (calls b)\<rparr>)
      | None \<Rightarrow> (None, \<lparr>calls = Suc (calls b), accepted = accepted b @ [(topic, pl)]\<rparr>))"

definition core :: "outbox_event \<Rightarrow> string \<times> string" where
  "core e = (event_type e, oe_payload e)"

definition relay_publish :: "(nat \<Rightarrow> string option) \<Rightarrow> outbox_event \<Rightarrow> broker \<Rightarrow> string option \<times> broker" where
  "relay_publish fails e = broker_publish fails (event_type e) (oe_payload e)"

definition stored :: "outbox_store \<Rightarrow> string \<Rightarrow> string \<times> string \<Rightarrow> bool" where
  "stored s k c \<longleftrightarrow> (\<exists>x. s k = Some x \<and> core x = c)"

text \<open>Every stored event is pending or was accepted by the broker.\<close>

definition safe :: "outbox_store \<Rightarrow> broker \<Rightarrow> bool" where
  "safe s b \<longleftrightarrow> (\<forall>k x. s k = Some x \<longrightarrow> oe_status x = StatusPending \<or> core x \<in> set (accepted b))"

lemma safeD:
  assumes "safe s b" and "stored s k c"
  shows "is_pending s k \<or> c \<in> set (accepted b)"
proof -
  obtain x where x: "s k = Some x" "core x = c" using assms(2) by (auto simp: stored_def)
  with assms(1) have "oe_status x = StatusPending \<or> c \<in> set (accepted b)" unfolding safe_def by blast
  with x(1) show ?thesis by (auto simp: is_pending_def)
qed

lemma core_mark: "core (x\<lparr>oe_status := st, published_at := t\<rparr>) = core x"
  by (simp add: core_def)

lemma stored_mark [simp]: "stored (snd (mark_published s now i)) = stored s"
  by (rule ext)+ (auto simp: mark_published_def stored_def core_mark split: option.splits)

lemma well_filed_stored: "well_filed s \<Longrightarrow> s k = Some e \<Longrightarrow> stored s (oe_id e) (core e)"
  by (auto simp: well_filed_def stored_def)

lemma safe_mark:
  assumes "safe s b" and "stored s i c" and "c \<in> set (accepted b)"
  shows "safe (snd (mark_published s now i)) b"
proof -
  obtain x where x: "s i = Some x" "core x = c" using assms(2) by (auto simp: stored_def)
  have "oe_status y = StatusPending \<or> core y \<in> set (accepted b)"
    if "snd (mark_published s now i) k = Some y" for k y
  proof (cases "k = i")
    case True
    with that x assms(3) show ?thesis by (auto simp: mark_published_def core_mark)
  next
    case False
    with that x have "s k = Some y" by (simp add: mark_published_def)
    with assms(1) show ?thesis by (simp add: safe_def)
  qed
  then show ?thesis by (simp add: safe_def)
qed

lemma safe_more: "safe s b \<Longrightarrow> set (accepted b) \<subseteq> set (accepted b') \<Longrightarrow> safe s b'"
  by (auto simp: safe_def)

text \<open>What both loops keep.\<close>

definition kept :: "outbox_store \<Rightarrow> outbox_store \<Rightarrow> broker \<Rightarrow> bool" where
  "kept s s' b' \<longleftrightarrow> safe s' b' \<and> stored s' = stored s \<and> well_filed s'"

lemma published_once:
  assumes "safe s b" and "well_filed s" and "stored s (oe_id e) (core e)"
    and "broker_publish fails (event_type e) (oe_payload e) b = (None, b1)"
  shows "safe (snd (mark_published s now (oe_id e))) b1"
proof -
  have b1: "accepted b1 = accepted b @ [core e]"
    using assms(4) by (auto simp: broker_publish_def core_def split: option.splits)
  then have "safe s b1" using safe_more [OF assms(1), of b1] by auto
  then show ?thesis by (rule safe_mark [OF _ assms(3)]) (simp add: b1)
qed

lemma publish_failed: "broker_publish fails topic pl b = (Some err, b1) \<Longrightarrow> safe s b \<Longrightarrow> safe s b1"
  by (rule safe_more [of s b]) (auto simp: broker_publish_def split: option.splits)

lemma flush_loop_kept:
  "safe s b \<Longrightarrow> well_filed s \<Longrightarrow> \<forall>e \<in> set es. stored s (oe_id e) (core e) \<Longrightarrow>
    flush_loop (relay_publish fails) clk n es s b = (r, s', b') \<Longrightarrow> kept s s' b'"
proof (induction es arbitrary: n s b)
  case Nil
  then show ?case by (simp add: kept_def)
next
  case (Cons e es)
  obtain err b1 where p: "relay_publish fails e b = (err, b1)" by (cases "relay_publish fails e b")
  note q = p [unfolded relay_publish_def]
  show ?case
  proof (cases err)
    case None
    let ?s = "snd (mark_published s (clk n) (oe_id e))"
    have "safe ?s b1" using published_once [OF Cons.prems(1,2)] Cons.prems(3) q None by simp
    then have "kept ?s s' b'"
      using Cons.IH [OF _ well_filed_mark [OF Cons.prems(2)]] Cons.prems(3,4) p None by simp
    then show ?thesis by (simp add: kept_def)
  next
    case (Some er)
    with Cons.prems p publish_failed q show ?thesis by (auto simp: kept_def)
  qed
qed

lemma flush_once_loop_kept:
  "safe s b \<Longrightarrow> well_filed s \<Longrightarrow> \<forall>e \<in> set es. stored s (oe_id e) (core e) \<Longrightarrow>
    flush_once_loop (broker_publish fails) clk n errs es s b = (r, s', b') \<Longrightarrow> kept s s' b'"
proof (induction es arbitrary: n errs s b)
  case Nil
  then show ?case by (simp add: kept_def)
next
  case (Cons e es)
  obtain err b1 where q: "broker_publish fails (event_type e) (oe_payload e) b = (err, b1)"
    by (cases "broker_publish fails (event_type e) (oe_payload e) b")
  show ?case
  proof (cases err)
    case None
    let ?s = "snd (mark_published s (clk n) (oe_id e))"
    have "safe ?s b1" using published_once [OF Cons.prems(1,2)] Cons.prems(3) q None by simp
    then have "kept ?s s' b'"
      using Cons.IH [OF _ well_filed_mark [OF Cons.prems(2)]] Cons.prems(3,4) q None by simp
    then show ?thesis by (simp add: kept_def)
  next
    case (Some er)
    with Cons.prems q show ?thesis using Cons.IH [OF publish_failed [OF q [unfolded Some]]] by simp
  qed
qed

datatype outbox_op = SaveTx gotime outbox_event | Flush "string list" "nat \<Rightarrow> gotime" | FlushOnce "string list" "nat \<Rightarrow> gotime"

fun outbox_exec :: "(nat \<Rightarrow> string option) \<Rightarrow> outbox_store \<times> broker \<Rightarrow> outbox_op \<Rightarrow> outbox_store \<times> broker" where
  "outbox_exec fails (s, b) (SaveTx now e) = (save_tx s now e, b)"
| "outbox_exec fails (s, b) (Flush ks clk) = snd (flush s ks (relay_publish fails) clk b)"
| "outbox_exec fails (s, b) (FlushOnce ks clk) = snd (flush_once s ks (broker_publish fails) clk b)"

definition outbox_start :: "outbox_store \<times> broker" where
  "outbox_start = (new_outbox_store, \<lparr>calls = 0, accepted = []\<rparr>)"

definition outbox_ok :: "outbox_store \<times> broker \<Rightarrow> bool" where
  "outbox_ok x \<longleftrightarrow> safe (fst x) (snd x) \<and> well_filed (fst x)"

lemma batch_stored:
  "well_filed s \<Longrightarrow> e \<in> set (get_pending_events s ks limit) \<Longrightarrow> stored s (oe_id e) (core e)"
  unfolding get_pending_events_def using pending_loop_stored [of "[]" s e limit ks] well_filed_stored by auto

lemma outbox_flushed:
  assumes "outbox_ok x" and "\<And>now e. p \<noteq> SaveTx now e"
  shows "outbox_ok (outbox_exec fails x p) \<and> stored (fst (outbox_exec fails x p)) = stored (fst x)"
proof -
  obtain s b where x: "x = (s, b)" by (cases x)
  with assms(1) have I: "safe s b" "well_filed s" by (simp_all add: outbox_ok_def)
  have st: "\<forall>e \<in> set (get_pending_events s ks limit). stored s (oe_id e) (core e)" for ks limit
    using batch_stored [OF I(2)] by blast
  show ?thesis
  proof (cases p)
    case (SaveTx now e)
    with assms(2) show ?thesis by blast
  next
    case (Flush ks clk)
    obtain r s' b' where f: "flush s ks (relay_publish fails) clk b = (r, s', b')"
      by (cases "flush s ks (relay_publish fails) clk b") auto
    with flush_loop_kept [OF I st] Flush x show ?thesis by (auto simp: flush_def outbox_ok_def kept_def)
  next
    case (FlushOnce ks clk)
    obtain r s' b' where f: "flush_once s ks (broker_publish fails) clk b = (r, s', b')"
      by (cases "flush_once s ks (broker_publish fails) clk b") auto
    with flush_once_loop_kept [OF I st] FlushOnce x show ?thesis
      by (auto simp: flush_once_def outbox_ok_def kept_def)
  qed
qed

lemma outbox_saved:
  assumes "outbox_ok x"
  shows "outbox_ok (outbox_exec fails x (SaveTx now e))"
    "stored (fst (outbox_exec fails x (SaveTx now e))) k c \<longleftrightarrow> (if k = oe_id e then c = core e else stored (fst x) k c)"
  using assms by (cases x; auto simp: outbox_ok_def safe_def save_tx_def well_filed_def stored_def core_def)+

lemma outbox_run:
  assumes "outbox_ok x" and "\<forall>now e'. SaveTx now e' \<in> set ops \<longrightarrow> oe_id e' = k \<longrightarrow> core e' = c"
    and "stored (fst x) k c \<or> (\<exists>now e. SaveTx now e \<in> set ops \<and> oe_id e = k)"
  shows "outbox_ok (foldl (outbox_exec fails) x ops) \<and> stored (fst (foldl (outbox_exec fails) x ops)) k c"
  using assms
proof (induction ops arbitrary: x)
  case Nil
  then show ?case by simp
next
  case (Cons p ops)
  let ?x = "outbox_exec fails x p"
  have "outbox_ok ?x \<and> (stored (fst ?x) k c \<or> (\<exists>now e. SaveTx now e \<in> set ops \<and> oe_id e = k))"
  proof (cases p)
    case (SaveTx now e)
    with outbox_saved [OF Cons.prems(1)] Cons.prems(2,3) show ?thesis by auto
  next
    case (Flush ks clk)
    with outbox_flushed [OF Cons.prems(1), of p fails] Cons.prems(3) show ?thesis by auto
  next
    case (FlushOnce ks clk)
    with outbox_flushed [OF Cons.prems(1), of p fails] Cons.prems(3) show ?thesis by auto
  qed
  then show ?case using Cons.IH [of ?x] Cons.prems(2) by simp
qed

text \<open>C5: the outbox loses no event. In any sequence of commits, relay flushes and publisher flushes, with any
  broker failures and any iteration orders, an event that was committed (and whose id was not committed
  again with other contents) is in the end either still pending, so that a later flush retries it, or its
  type and payload were accepted by the broker.\<close>

theorem outbox_at_least_once:
  assumes "SaveTx now e \<in> set ops"
    and "\<forall>t e'. SaveTx t e' \<in> set ops \<longrightarrow> oe_id e' = oe_id e \<longrightarrow> event_type e' = event_type e \<and> oe_payload e' = oe_payload e"
    and "foldl (outbox_exec fails) outbox_start ops = (s, b)"
  shows "is_pending s (oe_id e) \<or> (event_type e, oe_payload e) \<in> set (accepted b)"
proof -
  have "outbox_ok outbox_start"
    by (simp add: outbox_ok_def outbox_start_def new_outbox_store_def safe_def well_filed_def)
  moreover have "\<forall>t e'. SaveTx t e' \<in> set ops \<longrightarrow> oe_id e' = oe_id e \<longrightarrow> core e' = core e"
    using assms(2) by (simp add: core_def)
  moreover have "\<exists>t e'. SaveTx t e' \<in> set ops \<and> oe_id e' = oe_id e" using assms(1) by blast
  ultimately have "outbox_ok (s, b) \<and> stored s (oe_id e) (core e)"
    using outbox_run [of outbox_start ops "oe_id e" "core e" fails] assms(3) by (metis fst_conv)
  then show ?thesis using safeD [of s b "oe_id e" "core e"] by (simp add: outbox_ok_def core_def)
qed

definition demo_event :: "string \<Rightarrow> outbox_event" where
  "demo_event i = \<lparr>oe_id = i, aggregate_type = ''order'', aggregate_id = ''7'', event_type = ''created'', oe_payload = i,
     oe_status = StatusPublished, oe_created_at = 0, published_at = None\<rparr>"

definition down_once :: "nat \<Rightarrow> string option" where
  "down_once n = (if n = 0 then Some ''down'' else None)"

theorem outbox_at_least_once_witness:
  "\<exists>s b. foldl (outbox_exec down_once) outbox_start
       [SaveTx 1 (demo_event ''a''), Flush [''a''] (\<lambda>n. 2), FlushOnce [''a''] (\<lambda>n. 3)] = (s, b)
     \<and> \<not> is_pending s ''a'' \<and> (''created'', ''a'') \<in> set (accepted b)"
proof -
  let ?ops = "[SaveTx 1 (demo_event ''a''), Flush [''a''] (\<lambda>n. 2), FlushOnce [''a''] (\<lambda>n. 3)]"
  obtain s b where r: "foldl (outbox_exec down_once) outbox_start ?ops = (s, b)" by (rule prod.exhaust)
  define e where "e = (demo_event ''a'')\<lparr>oe_status := StatusPending, oe_created_at := 1\<rparr>"
  have e: "oe_id e = ''a''" "oe_status e = StatusPending" by (simp_all add: e_def demo_event_def)
  have "outbox_exec down_once outbox_start (SaveTx 1 (demo_event ''a'')) = ([''a'' \<mapsto> e], \<lparr>calls = 0, accepted = []\<rparr>)"
    by (simp add: outbox_start_def new_outbox_store_def save_tx_def e_def) (simp add: demo_event_def)
  moreover have "outbox_exec down_once ([''a'' \<mapsto> e], \<lparr>calls = 0, accepted = []\<rparr>) (Flush [''a''] (\<lambda>n. 2))
      = ([''a'' \<mapsto> e], \<lparr>calls = Suc 0, accepted = []\<rparr>)"
    by (simp add: flush_def get_pending_events_def e relay_publish_def broker_publish_def down_once_def)
  moreover have "map_option oe_status (fst (outbox_exec down_once ([''a'' \<mapsto> e], \<lparr>calls = Suc 0, accepted = []\<rparr>)
      (FlushOnce [''a''] (\<lambda>n. 3))) ''a'') = Some StatusPublished"
    by (simp add: flush_once_def get_pending_events_def e broker_publish_def down_once_def mark_published_def)
  ultimately have "map_option oe_status (fst (foldl (outbox_exec down_once) outbox_start ?ops) ''a'') = Some StatusPublished"
    by simp
  then have "map_option oe_status (s ''a'') = Some StatusPublished" unfolding r by simp
  then have "\<not> is_pending s ''a''" by (auto simp: is_pending_def)
  moreover have d: "oe_id (demo_event ''a'') = ''a''" "event_type (demo_event ''a'') = ''created''"
    "oe_payload (demo_event ''a'') = ''a''" by (simp_all add: demo_event_def)
  have "is_pending s ''a'' \<or> (''created'', ''a'') \<in> set (accepted b)"
    using outbox_at_least_once [OF _ _ r, of 1 "demo_event ''a''"] by (simp add: d)
  ultimately show ?thesis using r by blast
qed


section \<open>The publisher drains the outbox\<close>

lemma flush_once_loop_ok:
  "fails = (\<lambda>n. None) \<Longrightarrow>
    flush_once_loop (broker_publish fails) clk n errs es s b = (r, s', b') \<Longrightarrow>
    dom s' = dom s \<and> (\<forall>k. is_pending s' k \<longleftrightarrow> is_pending s k \<and> k \<notin> oe_id ` set es)"
proof (induction es arbitrary: n errs s b)
  case Nil
  then show ?case by simp
next
  case (Cons e es)
  let ?s = "snd (mark_published s (clk n) (oe_id e))"
  have "dom ?s = dom s" by (auto simp: mark_published_def split: option.splits)
  moreover have "broker_publish fails (event_type e) (oe_payload e) b
      = (None, \<lparr>calls = Suc (calls b), accepted = accepted b @ [(event_type e, oe_payload e)]\<rparr>)"
    by (simp add: broker_publish_def Cons.prems(1))
  with Cons.prems(2) have "flush_once_loop (broker_publish fails) clk (Suc n) errs es ?s
      \<lparr>calls = Suc (calls b), accepted = accepted b @ [(event_type e, oe_payload e)]\<rparr> = (r, s', b')"
    by simp
  ultimately show ?case using Cons.IH [OF Cons.prems(1)] by (auto simp: mark_pending)
qed

lemma set_drop_distinct:
  assumes "distinct xs"
  shows "set (drop n xs) = set xs - set (take n xs)"
proof -
  have "distinct (take n xs @ drop n xs)" by (simp only: append_take_drop_id assms)
  then have "set (take n xs) \<inter> set (drop n xs) = {}" by (simp only: distinct_append)
  moreover have "set xs = set (take n xs) \<union> set (drop n xs)" by (metis append_take_drop_id set_append)
  ultimately show ?thesis by blast
qed

definition backlog :: "outbox_store \<Rightarrow> string set" where
  "backlog s = {k. is_pending s k}"

text \<open>A batch that is published as a whole takes its events out of the backlog.\<close>

lemma batch_drains:
  assumes "well_filed s" and "iter_order ks s" and "0 < limit"
    and "\<forall>k. is_pending s' k \<longleftrightarrow> is_pending s k \<and> k \<notin> oe_id ` set (get_pending_events s ks limit)"
  shows "card (backlog s') = card (backlog s) - nat limit"
proof -
  have k: "distinct ks" "set ks = dom s" using iter_orderD [OF assms(2)] .
  let ?p = "filter (is_pending s) ks"
  have bl: "backlog s = set ?p" using k(2) by (auto simp: backlog_def is_pending_def)
  have "oe_id ` set (get_pending_events s ks limit) = set (take (nat limit) ?p)"
    using batch_ids [OF assms(1,3), of ks] by (metis set_map)
  then have "backlog s' = set ?p - set (take (nat limit) ?p)" using assms(4) bl by (auto simp: backlog_def)
  moreover have "set ?p - set (take (nat limit) ?p) = set (drop (nat limit) ?p)"
    using set_drop_distinct [of ?p "nat limit"] k(1) by simp
  moreover have "card (set (drop (nat limit) ?p)) = length ?p - nat limit" "card (set ?p) = length ?p"
    using distinct_card [of "drop (nat limit) ?p"] distinct_card [of ?p] k(1) by simp_all
  ultimately show ?thesis using bl by simp
qed

lemma flush_once_drains:
  assumes "well_filed s" and "iter_order ks s" and "flush_once s ks (broker_publish (\<lambda>n. None)) clk b = (r, s', b')"
  shows "dom s' = dom s" "card (backlog s') = card (backlog s) - 20"
proof -
  have f: "dom s' = dom s \<and> (\<forall>k. is_pending s' k \<longleftrightarrow> is_pending s k \<and> k \<notin> oe_id ` set (get_pending_events s ks 20))"
    by (rule flush_once_loop_ok [OF refl]) (use assms(3) in \<open>simp add: flush_once_def\<close>)
  then show "dom s' = dom s" by blast
  show "card (backlog s') = card (backlog s) - 20"
    using batch_drains [OF assms(1,2), of 20 s'] f by simp
qed

fun drain :: "outbox_store \<times> broker \<Rightarrow> string list list \<Rightarrow> (nat \<Rightarrow> gotime) \<Rightarrow> outbox_store \<times> broker" where
  "drain x [] clk = x"
| "drain (s, b) (ks # rounds) clk = drain (snd (flush_once s ks (broker_publish (\<lambda>n. None)) clk b)) rounds clk"

lemma drain_card:
  "outbox_ok (s, b) \<Longrightarrow> \<forall>ks \<in> set rounds. distinct ks \<and> set ks = dom s \<Longrightarrow> drain (s, b) rounds clk = (s', b') \<Longrightarrow>
    outbox_ok (s', b') \<and> stored s' = stored s \<and> dom s' = dom s \<and> card (backlog s') = card (backlog s) - 20 * length rounds"
proof (induction rounds arbitrary: s b)
  case Nil
  then show ?case by simp
next
  case (Cons ks rounds)
  obtain r s1 b1 where f: "flush_once s ks (broker_publish (\<lambda>n. None)) clk b = (r, s1, b1)"
    by (cases "flush_once s ks (broker_publish (\<lambda>n. None)) clk b") auto
  have "well_filed s" using Cons.prems(1) by (simp add: outbox_ok_def)
  note d = flush_once_drains [OF this _ f]
  have o: "iter_order ks s" using Cons.prems(2) by (simp add: iter_order_def)
  have "outbox_ok (s1, b1) \<and> stored s1 = stored s"
    using outbox_flushed [OF Cons.prems(1), of "FlushOnce ks clk" "\<lambda>n. None"] f by simp
  moreover have "drain (s1, b1) rounds clk = (s', b')" using Cons.prems(3) f by simp
  ultimately show ?case using Cons.IH [of s1 b1] Cons.prems(2) d [OF o] by simp
qed

text \<open>C40: the publisher drains the backlog. While the broker accepts everything, one poll for every
  twenty pending events is enough, in whatever order the map is visited: after that many polls nothing is pending and
  the broker has accepted every stored event.\<close>

theorem publisher_drains_backlog:
  assumes "foldl (outbox_exec fails) outbox_start ops = (s, b)" and "finite (dom s)"
    and "\<forall>ks \<in> set rounds. iter_order ks s"
    and "card (backlog s) \<le> 20 * length rounds" and "drain (s, b) rounds clk = (s', b')"
  shows "\<not> is_pending s' k \<and> (s k = Some e \<longrightarrow> (event_type e, oe_payload e) \<in> set (accepted b'))"
proof -
  have "outbox_ok outbox_start"
    by (simp add: outbox_ok_def outbox_start_def new_outbox_store_def safe_def well_filed_def)
  then have "outbox_ok (foldl (outbox_exec fails) outbox_start ops)"
  proof (rule foldl_inv)
    fix x p assume "outbox_ok x"
    then show "outbox_ok (outbox_exec fails x p)"
      using outbox_flushed [of x p fails] outbox_saved(1) [of x fails] by (cases p) blast+
  qed
  with assms(1) have "outbox_ok (s, b)" by simp
  then have r: "outbox_ok (s', b')" "stored s' = stored s" "dom s' = dom s" "card (backlog s') = 0"
    using drain_card [of s b rounds clk s' b'] assms(3-5) by (auto simp: iter_order_def)
  have "finite (backlog s')"
    by (rule finite_subset [of _ "dom s"]) (use assms(2) r(3) in \<open>auto simp: backlog_def is_pending_def\<close>)
  with r(4) have none: "\<not> is_pending s' k" for k by (auto simp: backlog_def)
  have "(event_type e, oe_payload e) \<in> set (accepted b')" if "s k = Some e"
  proof -
    have "stored s' k (core e)" using r(2) that by (simp add: stored_def)
    moreover have "safe s' b'" using r(1) by (simp add: outbox_ok_def)
    ultimately have "core e \<in> set (accepted b')" using safeD none by blast
    then show ?thesis by (simp add: core_def)
  qed
  with none show ?thesis by blast
qed

theorem publisher_drains_backlog_witness:
  "\<exists>s b s' b'. foldl (outbox_exec (\<lambda>n. None)) outbox_start [SaveTx 1 (demo_event ''a'')] = (s, b)
     \<and> drain (s, b) [[''a'']] (\<lambda>n. 2) = (s', b') \<and> \<not> is_pending s' ''a''"
proof -
  obtain s b where r: "foldl (outbox_exec (\<lambda>n. None)) outbox_start [SaveTx 1 (demo_event ''a'')] = (s, b)"
    "dom s = {''a''}"
    by (simp add: outbox_start_def new_outbox_store_def save_tx_def demo_event_def)
  obtain s' b' where d: "drain (s, b) [[''a'']] (\<lambda>n. 2) = (s', b')" by (cases "drain (s, b) [[''a'']] (\<lambda>n. 2)")
  have "backlog s \<subseteq> {''a''}" using r(2) by (auto simp: backlog_def is_pending_def)
  then have "card (backlog s) \<le> card {''a''}" by (intro card_mono) simp
  with publisher_drains_backlog [OF r(1) _ _ _ d, of "''a''"] r d show ?thesis
    by (auto simp: iter_order_def)
qed

end
