(* ===== verification/Password_Hashing.thy ===== *)
theory Password_Hashing
  imports Go_Strings
begin

text \<open>
  \<open>patterns/19_security/password_hashing.go\<close>: deriving a key from a password and a salt, printing it with its parameters, and
  verifying a password against a printed hash; and \<open>sql_injection_defense.go\<close>: building a query with placeholders.
  \<open>sha\<close> is \<open>crypto/sha256\<close>, the salt that \<open>HashPassword\<close> draws is an argument.
\<close>


section \<open>Key derivation\<close>

record password_hasher =
  iterations :: int
  salt_length :: int
  key_length :: int

definition new_password_hasher :: "int \<Rightarrow> password_hasher" where
  "new_password_hasher n = \<lparr>iterations = (if n \<le> 0 then 100000 else n), salt_length = 16, key_length = 32\<rparr>"

definition xor_char :: "char \<Rightarrow> char \<Rightarrow> char" where
  "xor_char a b = char_of (Bit_Operations.xor (of_char a :: nat) (of_char b))"

text \<open>\<open>out[j] ^= block[j]\<close> as far as both reach.\<close>

fun xor_into :: "string \<Rightarrow> string \<Rightarrow> string" where
  "xor_into [] block = []"
| "xor_into out [] = out"
| "xor_into (c # cs) (b # bs) = xor_char c b # xor_into cs bs"

fun derive_loop :: "(string \<Rightarrow> string) \<Rightarrow> string \<Rightarrow> nat \<Rightarrow> string \<Rightarrow> string \<Rightarrow> string" where
  "derive_loop sha password 0 block out = out"
| "derive_loop sha password (Suc n) block out =
     (let block1 = sha (password @ block) in derive_loop sha password n block1 (xor_into out block1))"

text \<open>\<open>copy(out, block)\<close> into \<open>keyLen\<close> zero bytes. A loop over a negative number of iterations does not run.\<close>

definition copy_into :: "nat \<Rightarrow> string \<Rightarrow> string" where
  "copy_into n block = take n block @ replicate (n - length block) (CHR 0x00)"

definition derive_key :: "(string \<Rightarrow> string) \<Rightarrow> string \<Rightarrow> string \<Rightarrow> int \<Rightarrow> nat \<Rightarrow> string" where
  "derive_key sha password salt n keyLen =
     (let block = sha (password @ salt) in derive_loop sha password (nat n) block (copy_into keyLen block))"

lemma length_xor_into [simp]: "length (xor_into out block) = length out"
  by (induction out block rule: xor_into.induct) auto

lemma length_derive_loop: "length (derive_loop sha p n block out) = length out"
  by (induction n arbitrary: block out) (auto simp: Let_def)

lemma length_derive_key: "length (derive_key sha p s n k) = k"
  by (simp add: derive_key_def Let_def length_derive_loop copy_into_def)


section \<open>Hashing and verification\<close>

definition hash_password :: "(string \<Rightarrow> string) \<Rightarrow> password_hasher \<Rightarrow> string \<Rightarrow> string \<Rightarrow> string" where
  "hash_password sha p salt password =
     (let hash = derive_key sha password salt (iterations p) (nat (key_length p)) in
      ''$pbkdf2-sha256$'' @ itoa (iterations p) @ ''$'' @ hex_encode salt @ ''$'' @ hex_encode hash)"

datatype password_error = PasswordMismatch | MalformedHash

definition verify_password :: "(string \<Rightarrow> string) \<Rightarrow> string \<Rightarrow> string \<Rightarrow> password_error option" where
  "verify_password sha password encodedHash =
     (let parts = split_on (CHR ''$'') encodedHash in
      if length parts \<noteq> 5 \<or> parts ! 1 \<noteq> ''pbkdf2-sha256'' then Some MalformedHash
      else case parse_int (parts ! 2) of
        Inl e \<Rightarrow> Some MalformedHash
      | Inr n \<Rightarrow>
          (case hex_decode (parts ! 3) of
             None \<Rightarrow> Some MalformedHash
           | Some salt \<Rightarrow>
               (case hex_decode (parts ! 4) of
                  None \<Rightarrow> Some MalformedHash
                | Some expectedHash \<Rightarrow>
                    (let actualHash = derive_key sha password salt n (length expectedHash) in
                     if actualHash \<noteq> expectedHash then Some PasswordMismatch else None))))"

lemma split_encoded:
  assumes "CHR ''$'' \<notin> set a" and "CHR ''$'' \<notin> set b" and "CHR ''$'' \<notin> set c"
  shows "split_on (CHR ''$'') (''$pbkdf2-sha256$'' @ a @ ''$'' @ b @ ''$'' @ c) = [[], ''pbkdf2-sha256'', a, b, c]"
proof -
  have s: "split_on (CHR ''$'') (''$pbkdf2-sha256$'' @ t) = [] # ''pbkdf2-sha256'' # split_on (CHR ''$'') t" for t
    by simp
  show ?thesis unfolding s using assms by simp
qed

lemma verify_parts:
  assumes "CHR ''$'' \<notin> set a" and "CHR ''$'' \<notin> set b" and "CHR ''$'' \<notin> set c"
    and "parse_int a = Inr n" and "hex_decode b = Some salt" and "hex_decode c = Some h"
  shows "verify_password sha password (''$pbkdf2-sha256$'' @ a @ ''$'' @ b @ ''$'' @ c) =
    (if derive_key sha password salt n (length h) \<noteq> h then Some PasswordMismatch else None)"
proof -
  define enc where "enc = ''$pbkdf2-sha256$'' @ a @ ''$'' @ b @ ''$'' @ c"
  have "split_on (CHR ''$'') enc = [[], ''pbkdf2-sha256'', a, b, c]"
    unfolding enc_def by (rule split_encoded [OF assms(1-3)])
  then have "verify_password sha password enc =
      (if derive_key sha password salt n (length h) \<noteq> h then Some PasswordMismatch else None)"
    using assms(4-6) by (simp add: verify_password_def Let_def)
  then show ?thesis by (simp only: enc_def)
qed

lemma no_dollar: "CHR ''$'' \<notin> set (itoa i)" "CHR ''$'' \<notin> set (hex_encode s)"
  by (simp_all add: digit_val_def hex_encode_no_char hex_val_def)

text \<open>C32: A password is accepted against a hash that \<open>HashPassword\<close> made of it with any salt; and another password is
  accepted against that hash exactly if the two derive the same key from the salt, and refused as a mismatch otherwise.\<close>

theorem password_roundtrip:
  assumes "in64 (iterations p)"
  shows "verify_password sha password (hash_password sha p salt password) = None \<and>
    verify_password sha other (hash_password sha p salt password) =
      (if derive_key sha other salt (iterations p) (nat (key_length p)) =
          derive_key sha password salt (iterations p) (nat (key_length p))
       then None else Some PasswordMismatch)"
proof -
  have "verify_password sha q (hash_password sha p salt password) =
      (if derive_key sha q salt (iterations p) (nat (key_length p)) =
          derive_key sha password salt (iterations p) (nat (key_length p))
       then None else Some PasswordMismatch)" for q
    unfolding hash_password_def Let_def
    by (subst verify_parts [OF no_dollar(1) no_dollar(2) no_dollar(2) parse_int_itoa [OF assms] hex_decode_encode hex_decode_encode])
       (simp add: length_derive_key)
  then show ?thesis by simp
qed

lemma password_roundtrip_witness:
  "verify_password (\<lambda>s. s) ''pw'' (hash_password (\<lambda>s. s) (new_password_hasher 3) ''salt'' ''pw'') = None"
  using password_roundtrip [of "new_password_hasher 3" "\<lambda>s. s" "''pw''" "''salt''"]
  by (simp add: new_password_hasher_def in64_def)

text \<open>A stored hash whose last part is empty is not refused as malformed: the key derived to its length is empty too, and every password is
  accepted.\<close>

lemma empty_hash_accepts_all:
  "verify_password sha password ''$pbkdf2-sha256$1$$'' = None"
proof -
  have "parse_int ''1'' = Inr 1"
    by (simp add: parse_int_def parse_uint_def digit_val_def)
  then have "verify_password sha password (''$pbkdf2-sha256$'' @ ''1'' @ ''$'' @ [] @ ''$'' @ []) = None"
    by (subst verify_parts [where n = 1 and salt = "[]" and h = "[]"])
       (simp_all add: length_derive_key flip: length_0_conv)
  then show ?thesis by simp
qed

text \<open>The pseudo-random function hashes the password followed by the salt, so the boundary between them does not matter to the first block:
  without iterations a password that ends in the beginning of the salt has the same key as the shorter password.\<close>

lemma first_block_concatenation:
  "sha (password @ salt) = sha (p2 @ s2)" if "password @ salt = p2 @ s2"
  using that by simp


section \<open>Queries with placeholders\<close>

record parameterized_query =
  query_sql :: string
  query_args :: "string list"

datatype query_error = DisallowedColumn string | NoFilter

definition search_fields :: "string set" where
  "search_fields = {''email'', ''status'', ''role''}"

text \<open>The loop over the filters in the order in which Go visits the map, with the number of the next placeholder.\<close>

fun build_loop :: "(string \<rightharpoonup> string) \<Rightarrow> string list \<Rightarrow> int \<Rightarrow> string \<Rightarrow> string list \<Rightarrow> query_error + parameterized_query" where
  "build_loop filters [] argIdx query args =
     (if args = [] then Inl NoFilter else Inr \<lparr>query_sql = query, query_args = args\<rparr>)"
| "build_loop filters (field # order) argIdx query args =
     (if field \<notin> search_fields then Inl (DisallowedColumn field)
      else build_loop filters order (argIdx + 1) (query @ '' AND '' @ field @ '' = $'' @ itoa argIdx)
             (args @ [trim_space (the (filters field))]))"

definition build_query :: "(string \<rightharpoonup> string) \<Rightarrow> string list \<Rightarrow> query_error + parameterized_query" where
  "build_query filters order =
     build_loop filters order 1 ''SELECT id, email, status, role FROM users WHERE 1=1'' []"

text \<open>The condition for the \<open>i\<close>-th field.\<close>

fun conditions :: "int \<Rightarrow> string list \<Rightarrow> string" where
  "conditions i [] = []"
| "conditions i (f # fs) = '' AND '' @ f @ '' = $'' @ itoa i @ conditions (i + 1) fs"

lemma build_loop_result:
  "build_loop filters order i query args =
     (case List.find (\<lambda>f. f \<notin> search_fields) order of
        Some f \<Rightarrow> Inl (DisallowedColumn f)
      | None \<Rightarrow>
          if args = [] \<and> order = [] then Inl NoFilter
          else Inr \<lparr>query_sql = query @ conditions i order,
                    query_args = args @ map (\<lambda>f. trim_space (the (filters f))) order\<rparr>)"
  by (induction order arbitrary: i query args) (auto split: option.split)

lemma build_query_result:
  "List.find (\<lambda>f. f \<notin> search_fields) order = Some f \<Longrightarrow> build_query filters order = Inl (DisallowedColumn f)"
  "List.find (\<lambda>f. f \<notin> search_fields) order = None \<Longrightarrow> order = [] \<Longrightarrow> build_query filters order = Inl NoFilter"
  "List.find (\<lambda>f. f \<notin> search_fields) order = None \<Longrightarrow> order \<noteq> [] \<Longrightarrow> build_query filters order =
     Inr \<lparr>query_sql = ''SELECT id, email, status, role FROM users WHERE 1=1'' @ conditions 1 order,
          query_args = map (\<lambda>f. trim_space (the (filters f))) order\<rparr>"
  unfolding build_query_def build_loop_result by simp_all

text \<open>The text of the query never contains anything the user typed. Two sets of filters whose columns are visited in the same
  order, whatever their values, build the same SQL text or the same error; a built query mentions only the three searchable
  columns, and its \<open>i\<close>-th placeholder is bound to the trimmed value of the \<open>i\<close>-th column.\<close>

theorem query_text_independent_of_values:
  "map_sum id query_sql (build_query filters order) = map_sum id query_sql (build_query filters2 order) \<and>
    (case build_query filters order of
       Inl e \<Rightarrow> True
     | Inr q \<Rightarrow> set order \<subseteq> search_fields \<and> order \<noteq> [] \<and>
         query_sql q = ''SELECT id, email, status, role FROM users WHERE 1=1'' @ conditions 1 order \<and>
         query_args q = map (\<lambda>f. trim_space (the (filters f))) order)"
proof (cases "List.find (\<lambda>f. f \<notin> search_fields) order")
  case (Some f)
  then show ?thesis by (simp add: build_query_result)
next
  case None
  have "set order \<subseteq> search_fields" using None by (auto simp: find_None_iff)
  show ?thesis
  proof (cases "order = []")
    case True
    then show ?thesis using build_query_result(2) [OF None] by simp
  next
    case False
    show ?thesis
      unfolding build_query_result(3) [OF None False] sum.case map_sum.simps parameterized_query.simps
      using \<open>set order \<subseteq> search_fields\<close> False by blast
  qed
qed

end
