(* ===== verification/Payment_Domain.thy ===== *)
theory Payment_Domain
  imports Go_Strings
begin

text \<open>
  Data integrity: \<open>patterns/23_dataintegrity/state_machine.go\<close> (the payment state machine) and
  \<open>patterns/23_dataintegrity/domain_invariants.go\<close> (the bank account with its audit trail).
  A payment state is a string in the code, so any string may be asked for; the transition table is the
  code's map of maps, in which a missing entry reads as false.
\<close>

section \<open>Payment state machine\<close>

type_synonym payment_state = string

definition StatePending :: payment_state where "StatePending = ''PENDING''"
definition StateProcessing :: payment_state where "StateProcessing = ''PROCESSING''"
definition StateSucceeded :: payment_state where "StateSucceeded = ''SUCCEEDED''"
definition StateFailed :: payment_state where "StateFailed = ''FAILED''"
definition StateRefunded :: payment_state where "StateRefunded = ''REFUNDED''"

lemmas payment_states = StatePending_def StateProcessing_def StateSucceeded_def StateFailed_def StateRefunded_def

definition allowed_transitions :: "payment_state \<Rightarrow> (payment_state \<Rightarrow> bool option) option" where
  "allowed_transitions =
     [StatePending \<mapsto> [StateProcessing \<mapsto> True, StateFailed \<mapsto> True],
      StateProcessing \<mapsto> [StateSucceeded \<mapsto> True, StateFailed \<mapsto> True],
      StateSucceeded \<mapsto> [StateRefunded \<mapsto> True],
      StateFailed \<mapsto> Map.empty,
      StateRefunded \<mapsto> Map.empty]"

record payment_sm =
  current_state :: payment_state
  transitions :: "payment_state \<rightharpoonup> (payment_state \<rightharpoonup> bool)"

definition new_payment_state_machine :: "payment_state \<Rightarrow> payment_sm" where
  "new_payment_state_machine initialState =
     \<lparr>current_state = (if initialState = [] then StatePending else initialState),
      transitions = allowed_transitions\<rparr>"

definition transition_allowed :: "payment_sm \<Rightarrow> payment_state \<Rightarrow> bool" where
  "transition_allowed sm target =
     (case transitions sm (current_state sm) of
        None \<Rightarrow> False
      | Some allowed \<Rightarrow> (case allowed target of None \<Rightarrow> False | Some b \<Rightarrow> b))"

text \<open>The error carries the state the machine is in and the state asked for.\<close>

definition transition_to ::
  "payment_sm \<Rightarrow> payment_state \<Rightarrow> (payment_state \<times> payment_state) option \<times> payment_sm" where
  "transition_to sm target =
     (if \<not> transition_allowed sm target then (Some (current_state sm, target), sm)
      else (None, sm\<lparr>current_state := target\<rparr>))"

text \<open>The states entered by a history of requests.\<close>

fun visited :: "payment_sm \<Rightarrow> payment_state list \<Rightarrow> payment_state list" where
  "visited sm [] = []"
| "visited sm (t # ts) =
     (let (err, sm1) = transition_to sm t
      in if err = None then current_state sm1 # visited sm1 ts else visited sm1 ts)"

lemma transitions_to [simp]: "transitions (snd (transition_to sm t)) = transitions sm"
  by (simp add: transition_to_def)

lemma state_distinct [simp]:
  "StatePending \<noteq> StateProcessing" "StatePending \<noteq> StateSucceeded" "StatePending \<noteq> StateFailed"
  "StatePending \<noteq> StateRefunded" "StateProcessing \<noteq> StatePending" "StateProcessing \<noteq> StateSucceeded"
  "StateProcessing \<noteq> StateFailed" "StateProcessing \<noteq> StateRefunded" "StateSucceeded \<noteq> StatePending"
  "StateSucceeded \<noteq> StateProcessing" "StateSucceeded \<noteq> StateFailed" "StateSucceeded \<noteq> StateRefunded"
  "StateFailed \<noteq> StatePending" "StateFailed \<noteq> StateProcessing" "StateFailed \<noteq> StateSucceeded"
  "StateFailed \<noteq> StateRefunded" "StateRefunded \<noteq> StatePending" "StateRefunded \<noteq> StateProcessing"
  "StateRefunded \<noteq> StateSucceeded" "StateRefunded \<noteq> StateFailed"
  by (simp_all add: payment_states)

definition std :: "payment_sm \<Rightarrow> bool" where
  "std sm \<longleftrightarrow> transitions sm = allowed_transitions"

lemma std_to: "std sm \<Longrightarrow> std (snd (transition_to sm t))"
  by (simp add: std_def)

lemma allowed_cases:
  "std sm \<Longrightarrow> transition_allowed sm t \<longleftrightarrow>
     (current_state sm, t) \<in> {(StatePending, StateProcessing), (StatePending, StateFailed),
       (StateProcessing, StateSucceeded), (StateProcessing, StateFailed), (StateSucceeded, StateRefunded)}"
  by (auto simp: std_def transition_allowed_def allowed_transitions_def split: if_splits)

lemma visited_step: "visited sm (t # ts) =
    (if transition_allowed sm t then t # visited (sm\<lparr>current_state := t\<rparr>) ts else visited sm ts)"
  by (simp add: transition_to_def)

lemma std_upd: "std sm \<Longrightarrow> std (sm\<lparr>current_state := t\<rparr>)"
  by (simp add: std_def)

lemma visited_stuck:
  assumes "std sm" and "\<And>t. \<not> transition_allowed sm t"
  shows "visited sm ts = []"
  using assms by (induction ts) (simp_all add: transition_to_def)

lemma visited_succeeded:
  "std sm \<Longrightarrow> current_state sm = StateSucceeded \<Longrightarrow> visited sm ts \<in> {[], [StateRefunded]}"
proof (induction ts)
  case Nil
  then show ?case by simp
next
  case (Cons t ts)
  have "visited (sm\<lparr>current_state := StateRefunded\<rparr>) ts = []"
    by (rule visited_stuck) (use Cons.prems std_upd in \<open>auto simp: allowed_cases\<close>)
  then show ?case using Cons unfolding visited_step allowed_cases [OF Cons.prems(1)] by auto
qed

lemma visited_failed: "std sm \<Longrightarrow> visited (sm\<lparr>current_state := StateFailed\<rparr>) ts = []"
  by (rule visited_stuck) (auto simp: allowed_cases std_upd)

lemma visited_processing:
  "std sm \<Longrightarrow> current_state sm = StateProcessing \<Longrightarrow>
    visited sm ts \<in> {[], [StateFailed], [StateSucceeded], [StateSucceeded, StateRefunded]}"
proof (induction ts)
  case Nil
  then show ?case by simp
next
  case (Cons t ts)
  have "visited (sm\<lparr>current_state := StateSucceeded\<rparr>) ts \<in> {[], [StateRefunded]}"
    by (rule visited_succeeded) (simp_all add: std_upd Cons.prems)
  then show ?case using Cons visited_failed [OF Cons.prems(1), of ts]
    unfolding visited_step allowed_cases [OF Cons.prems(1)] by auto
qed

text \<open>whatever transitions are requested, a new payment goes through one of the legal histories and no
  other: it succeeds only after processing, is refunded only after it succeeded, and never leaves FAILED
  or REFUNDED; a refused request changes nothing.\<close>

theorem payment_histories:
  "visited (new_payment_state_machine []) ts \<in>
     {[], [StateFailed], [StateProcessing], [StateProcessing, StateFailed],
      [StateProcessing, StateSucceeded], [StateProcessing, StateSucceeded, StateRefunded]}"
proof -
  have "std sm \<Longrightarrow> current_state sm = StatePending \<Longrightarrow> visited sm ts \<in>
     {[], [StateFailed], [StateProcessing], [StateProcessing, StateFailed],
      [StateProcessing, StateSucceeded], [StateProcessing, StateSucceeded, StateRefunded]}" for sm
  proof (induction ts)
    case Nil
    then show ?case by simp
  next
    case (Cons t ts)
    have "visited (sm\<lparr>current_state := StateProcessing\<rparr>) ts
        \<in> {[], [StateFailed], [StateSucceeded], [StateSucceeded, StateRefunded]}"
      by (rule visited_processing) (simp_all add: std_upd Cons.prems)
    then show ?case using Cons visited_failed [OF Cons.prems(1), of ts]
      unfolding visited_step allowed_cases [OF Cons.prems(1)] by auto
  qed
  then show ?thesis by (simp add: new_payment_state_machine_def std_def)
qed


section \<open>Account with audit trail\<close>

record audit_entry =
  audit_id :: string
  audit_actor :: string
  audit_action :: string
  audit_account :: string
  audit_delta :: int
  audit_balance :: int
  audit_time :: gotime

record invariant_account =
  acc_id :: string
  acc_owner :: string
  acc_balance :: int
  audit_logs :: "audit_entry list"

datatype account_error = ErrNegativeBalance | ErrEmptyAccountOwner | NonPositiveWithdrawal

definition new_invariant_account :: "string \<Rightarrow> string \<Rightarrow> int \<Rightarrow> gotime \<Rightarrow> account_error + invariant_account" where
  "new_invariant_account i owner initialBalance now =
     (if owner = [] then Inl ErrEmptyAccountOwner
      else if initialBalance < 0 then Inl ErrNegativeBalance
      else Inr \<lparr>acc_id = i, acc_owner = owner, acc_balance = initialBalance,
        audit_logs = [\<lparr>audit_id = ''audit-'' @ i @ ''-init'', audit_actor = ''SYSTEM'',
          audit_action = ''ACCOUNT_OPENED'', audit_account = i, audit_delta = initialBalance,
          audit_balance = initialBalance, audit_time = now\<rparr>]\<rparr>)"

definition withdraw_audited ::
  "invariant_account \<Rightarrow> gotime \<Rightarrow> string \<Rightarrow> int \<Rightarrow> account_error option \<times> invariant_account" where
  "withdraw_audited a now actor amount =
     (if amount \<le> 0 then (Some NonPositiveWithdrawal, a)
      else if i64 (acc_balance a - amount) < 0 then (Some ErrNegativeBalance, a)
      else
        (let a1 = a\<lparr>acc_balance := i64 (acc_balance a - amount)\<rparr>
         in (None, a1\<lparr>audit_logs := audit_logs a1 @
              [\<lparr>audit_id = ''audit-'' @ acc_id a1 @ ''-'' @ itoa (int (length (audit_logs a1)) + 1),
                audit_actor = actor, audit_action = ''WITHDRAWAL'', audit_account = acc_id a1,
                audit_delta = i64 (- amount), audit_balance = acc_balance a1, audit_time = now\<rparr>]\<rparr>)))"

definition audited_balance :: "invariant_account \<Rightarrow> int" where
  "audited_balance a = acc_balance a"

definition audit_trail :: "invariant_account \<Rightarrow> audit_entry list" where
  "audit_trail a = audit_logs a"

fun withdraw_all :: "invariant_account \<Rightarrow> (gotime \<times> string \<times> int) list \<Rightarrow> invariant_account" where
  "withdraw_all a [] = a"
| "withdraw_all a ((now, actor, amount) # ws) = withdraw_all (snd (withdraw_audited a now actor amount)) ws"

text \<open>The trail explains the balance: entry by entry the balances are the running sums of the deltas.\<close>

definition running_sums :: "int list \<Rightarrow> int list" where
  "running_sums ds = map (\<lambda>n. sum_list (take (Suc n) ds)) [0..<length ds]"

lemma running_sums_snoc: "running_sums (ds @ [d]) = running_sums ds @ [sum_list ds + d]"
  by (simp add: running_sums_def)

definition account_ok :: "invariant_account \<Rightarrow> bool" where
  "account_ok a \<longleftrightarrow> 0 \<le> acc_balance a \<and> in64 (acc_balance a)
     \<and> sum_list (map audit_delta (audit_logs a)) = acc_balance a
     \<and> map audit_balance (audit_logs a) = running_sums (map audit_delta (audit_logs a))
     \<and> (\<forall>e\<in>set (audit_logs a). audit_account e = acc_id a)
     \<and> map audit_id (audit_logs a) = (''audit-'' @ acc_id a @ ''-init'')
         # map (\<lambda>k. ''audit-'' @ acc_id a @ ''-'' @ itoa (int k)) [2..<length (audit_logs a) + 1]
     \<and> audit_logs a \<noteq> []"

lemma withdraw_ok:
  assumes "account_ok a" and "in64 amount"
  shows "account_ok (snd (withdraw_audited a now actor amount))"
proof (cases "amount \<le> 0 \<or> acc_balance a < amount")
  case True
  have "i64 (acc_balance a - amount) = acc_balance a - amount" if "0 < amount"
    using assms that by (auto simp: account_ok_def in64_def)
  with True have "snd (withdraw_audited a now actor amount) = a"
    by (auto simp: withdraw_audited_def)
  with assms show ?thesis by simp
next
  case False
  have i: "i64 (acc_balance a - amount) = acc_balance a - amount" "i64 (- amount) = - amount"
    using assms False by (auto simp: account_ok_def in64_def)
  have "[2..<Suc (Suc (length (audit_logs a)))] = [2..<Suc (length (audit_logs a))] @ [Suc (length (audit_logs a))]"
    using assms(1) by (cases "audit_logs a") (simp_all add: account_ok_def)
  then show ?thesis using assms False i
    by (auto simp: withdraw_audited_def account_ok_def running_sums_snoc in64_def Let_def add.commute
        simp del: upt_Suc)
qed

lemma audit_ids_distinct:
  assumes "account_ok a"
  shows "distinct (map audit_id (audit_logs a))"
proof -
  have "''init'' \<noteq> itoa n" for n
  proof
    assume e: "''init'' = itoa n"
    have "CHR ''t'' \<notin> set (itoa n)" by (simp add: digit_val_def)
    then show False unfolding e [symmetric] by simp
  qed
  moreover have "map audit_id (audit_logs a) = (''audit-'' @ acc_id a @ ''-init'')
      # map (\<lambda>k. ''audit-'' @ acc_id a @ ''-'' @ itoa (int k)) [2..<length (audit_logs a) + 1]"
    using assms by (simp add: account_ok_def)
  ultimately show ?thesis by (auto simp: distinct_map inj_on_def)
qed

lemma withdraw_all_ok:
  "account_ok a \<Longrightarrow> \<forall>(now, actor, amount)\<in>set ws. in64 amount \<Longrightarrow> account_ok (withdraw_all a ws)"
  by (induction a ws rule: withdraw_all.induct) (auto intro: withdraw_ok)

lemma new_account_ok:
  "new_invariant_account i owner b now = Inr a \<Longrightarrow> in64 b \<Longrightarrow> account_ok a"
  by (auto simp: new_invariant_account_def account_ok_def running_sums_def split: if_splits)

text \<open>the audit trail accounts for every unit. After any withdrawals on a new account the balance is not
  negative, it is the sum of the deltas of the trail, each entry's balance is the running sum up to it,
  and no two entries have the same id.\<close>

theorem audit_trail_complete:
  assumes "new_invariant_account i owner b now = Inr a" and "in64 b"
    and "\<forall>(now, actor, amount)\<in>set ws. in64 amount"
  shows "let a' = withdraw_all a ws; trail = audit_trail a' in
    0 \<le> audited_balance a' \<and> sum_list (map audit_delta trail) = audited_balance a'
    \<and> map audit_balance trail = running_sums (map audit_delta trail) \<and> distinct (map audit_id trail)"
proof -
  have "account_ok (withdraw_all a ws)"
    using withdraw_all_ok [OF new_account_ok [OF assms(1,2)] assms(3)] .
  with audit_ids_distinct [OF this] show ?thesis
    by (simp add: account_ok_def audit_trail_def audited_balance_def Let_def)
qed

definition demo_account :: invariant_account where
  "demo_account = (case new_invariant_account ''1'' ''bob'' 10 0 of Inr a \<Rightarrow> a | Inl e \<Rightarrow> undefined)"

theorem audit_trail_complete_witness:
  "map audit_delta (audit_trail (withdraw_all demo_account [(1, ''bob'', 4), (2, ''bob'', 7)])) = [10, -4]
   \<and> sum_list (map audit_delta (audit_trail (withdraw_all demo_account [(1, ''bob'', 4), (2, ''bob'', 7)])))
       = audited_balance (withdraw_all demo_account [(1, ''bob'', 4), (2, ''bob'', 7)])"
proof -
  have a: "new_invariant_account ''1'' ''bob'' 10 0 = Inr demo_account"
    by (simp add: demo_account_def new_invariant_account_def)
  have "in64 10" "\<forall>(now, actor, amount)\<in>set [(1 :: int, ''bob'', 4), (2, ''bob'', 7)]. in64 amount"
    by (simp_all add: in64_def)
  from audit_trail_complete [OF a this] show ?thesis
    by (simp add: Let_def) (simp add: demo_account_def new_invariant_account_def withdraw_audited_def
        audit_trail_def i64_def Let_def)
qed

end
