(* ===== verification/Payment_Pipeline.thy ===== *)
theory Payment_Pipeline
  imports Payment_Domain
begin

text \<open>
  \<open>patterns/26_advanced/idempotent_payment_pipeline.go\<close>: \<open>ProcessPayment\<close>, step by step.
  A call claims its idempotency key in one critical section, drives a payment state machine
  (\<open>Payment_Domain\<close>) around the call of the gateway, records the response in a second critical section
  and releases the key in a third, deferred one. The gateway's answer is an observation of its step.
\<close>

record payment_request =
  idempotency_key :: string
  req_amount :: int
  customer_id :: string

record payment_response =
  payment_id :: string
  resp_status :: string
  resp_amount :: int

record payment_pipeline =
  idempotency :: "string \<rightharpoonup> payment_response"
  in_flight_keys :: "string set"

definition new_payment_pipeline :: payment_pipeline where
  "new_payment_pipeline = \<lparr>idempotency = Map.empty, in_flight_keys = {}\<rparr>"

datatype pay_error = KeyRequired | KeyInFlight | ChargeFailed string

text \<open>The gateway is code outside the repository. It answers with a charge, or the call fails or panics; in these
  two cases the charge may have been made all the same, its answer lost on the way (the second component).\<close>

datatype gateway_answer = Charged string | ChargeError string "string option" | GatewayPanic "string option"

datatype entry = Refuse pay_error | Replay payment_response | Proceed

text \<open>The first critical section, and what precedes it.\<close>

definition enter_payment :: "payment_pipeline \<Rightarrow> payment_request \<Rightarrow> entry \<times> payment_pipeline" where
  "enter_payment p req =
     (if idempotency_key req = [] then (Refuse KeyRequired, p)
      else case idempotency p (idempotency_key req) of
             Some cached \<Rightarrow> (Replay cached, p)
           | None \<Rightarrow>
               if idempotency_key req \<in> in_flight_keys p then (Refuse KeyInFlight, p)
               else (Proceed, p\<lparr>in_flight_keys := insert (idempotency_key req) (in_flight_keys p)\<rparr>))"

text \<open>The state machine from its creation to the call of the gateway, and the response built after it.\<close>

definition charge_machine :: payment_sm where
  "charge_machine = snd (transition_to (new_payment_state_machine StatePending) StateProcessing)"

definition build_response :: "payment_request \<Rightarrow> gateway_answer \<Rightarrow> (pay_error + payment_response) option" where
  "build_response req ans =
     (case ans of
        GatewayPanic made \<Rightarrow> None
      | ChargeError e made \<Rightarrow> Some (Inl (ChargeFailed e))
      | Charged chargeID \<Rightarrow>
          (let sm = snd (transition_to charge_machine StateSucceeded)
           in Some (Inr \<lparr>payment_id = chargeID, resp_status = current_state sm, resp_amount = req_amount req\<rparr>)))"

definition record_response :: "payment_pipeline \<Rightarrow> string \<Rightarrow> payment_response \<Rightarrow> payment_pipeline" where
  "record_response p key resp = p\<lparr>idempotency := (idempotency p)(key \<mapsto> resp)\<rparr>"

definition leave_payment :: "payment_pipeline \<Rightarrow> string \<Rightarrow> payment_pipeline" where
  "leave_payment p key = p\<lparr>in_flight_keys := in_flight_keys p - {key}\<rparr>"

text \<open>A call with nothing in between.\<close>

definition process_payment ::
  "payment_pipeline \<Rightarrow> (string \<Rightarrow> int \<Rightarrow> gateway_answer) \<Rightarrow> payment_request
    \<Rightarrow> (pay_error + payment_response) option \<times> payment_pipeline" where
  "process_payment p gw req =
     (case enter_payment p req of
        (Refuse e, p1) \<Rightarrow> (Some (Inl e), p1)
      | (Replay cached, p1) \<Rightarrow> (Some (Inr cached), p1)
      | (Proceed, p1) \<Rightarrow>
          (let res = build_response req (gw (customer_id req) (req_amount req));
               p2 = (case res of Some (Inr resp) \<Rightarrow> record_response p1 (idempotency_key req) resp | _ \<Rightarrow> p1)
           in (res, leave_payment p2 (idempotency_key req))))"

text \<open>Any number of calls in any interleaving. \<open>charges\<close> is the gateway's own record of the charges it
  made, those with a lost answer included; \<open>replies\<close> what the calls returned.\<close>

record charge =
  charge_key :: string
  charge_id :: string
  charge_customer :: string
  charge_amount :: int
  answered :: bool

definition charge_for :: "payment_request \<Rightarrow> string \<Rightarrow> bool \<Rightarrow> charge" where
  "charge_for req c a =
     \<lparr>charge_key = idempotency_key req, charge_id = c, charge_customer = customer_id req,
      charge_amount = req_amount req, answered = a\<rparr>"

fun charges_made :: "payment_request \<Rightarrow> gateway_answer \<Rightarrow> charge list" where
  "charges_made req (Charged c) = [charge_for req c True]"
| "charges_made req (ChargeError e made) = (case made of None \<Rightarrow> [] | Some c \<Rightarrow> [charge_for req c False])"
| "charges_made req (GatewayPanic made) = (case made of None \<Rightarrow> [] | Some c \<Rightarrow> [charge_for req c False])"

datatype phase = Outside | Charging payment_request | Storing payment_request payment_response
  | Leaving payment_request "(pay_error + payment_response) option"

record pay_sys =
  pipeline :: payment_pipeline
  phases :: "nat \<Rightarrow> phase"
  charges :: "charge list"
  replies :: "(payment_request \<times> payment_response) list"

datatype pay_event = Call nat payment_request | Gateway nat gateway_answer | Record nat | Leave nat

fun pay_step :: "pay_sys \<Rightarrow> pay_event \<Rightarrow> pay_sys option" where
  "pay_step s (Call w req) =
     (if phases s w \<noteq> Outside then None
      else case enter_payment (pipeline s) req of
             (Refuse e, p) \<Rightarrow> Some (s\<lparr>pipeline := p\<rparr>)
           | (Replay cached, p) \<Rightarrow> Some (s\<lparr>pipeline := p, replies := replies s @ [(req, cached)]\<rparr>)
           | (Proceed, p) \<Rightarrow> Some (s\<lparr>pipeline := p, phases := (phases s)(w := Charging req)\<rparr>))"
| "pay_step s (Gateway w ans) =
     (case phases s w of
        Charging req \<Rightarrow>
          Some (s\<lparr>charges := charges s @ charges_made req ans,
                  phases := (phases s)(w := (case build_response req ans of
                       Some (Inr resp) \<Rightarrow> Storing req resp
                     | res \<Rightarrow> Leaving req res))\<rparr>)
      | _ \<Rightarrow> None)"
| "pay_step s (Record w) =
     (case phases s w of
        Storing req resp \<Rightarrow>
          Some (s\<lparr>pipeline := record_response (pipeline s) (idempotency_key req) resp,
                  phases := (phases s)(w := Leaving req (Some (Inr resp)))\<rparr>)
      | _ \<Rightarrow> None)"
| "pay_step s (Leave w) =
     (case phases s w of
        Leaving req res \<Rightarrow>
          Some (s\<lparr>pipeline := leave_payment (pipeline s) (idempotency_key req),
                  phases := (phases s)(w := Outside),
                  replies := (case res of Some (Inr resp) \<Rightarrow> replies s @ [(req, resp)] | _ \<Rightarrow> replies s)\<rparr>)
      | _ \<Rightarrow> None)"

definition pay_start :: pay_sys where
  "pay_start = \<lparr>pipeline = new_payment_pipeline, phases = (\<lambda>w. Outside), charges = [], replies = []\<rparr>"


section \<open>At most one answered charge per key\<close>

text \<open>A list of charges in which an answered charge is the last one of its key.\<close>

definition answered_last :: "charge list \<Rightarrow> bool" where
  "answered_last cs \<longleftrightarrow>
     (\<forall>xs ch ys. cs = xs @ ch # ys \<longrightarrow> answered ch \<longrightarrow> charge_key ch \<notin> charge_key ` set ys)"

definition answered_keys :: "charge list \<Rightarrow> string set" where
  "answered_keys cs = charge_key ` {ch \<in> set cs. answered ch}"

lemma answered_keys_simps [simp]:
  "answered_keys [] = {}"
  "answered_keys (cs @ ds) = answered_keys cs \<union> answered_keys ds"
  "answered_keys [ch] = (if answered ch then {charge_key ch} else {})"
  by (auto simp: answered_keys_def)

lemma charge_for_simps [simp]:
  "charge_key (charge_for req c a) = idempotency_key req" "charge_id (charge_for req c a) = c"
  "charge_amount (charge_for req c a) = req_amount req" "answered (charge_for req c a) = a"
  by (simp_all add: charge_for_def)

lemma answered_last_Nil [simp]: "answered_last []"
  by (simp add: answered_last_def)

lemma answered_last_snoc:
  assumes "answered_last cs" and "charge_key ch \<notin> answered_keys cs"
  shows "answered_last (cs @ [ch])"
  unfolding answered_last_def
proof (intro allI impI)
  fix xs c ys
  assume eq: "cs @ [ch] = xs @ c # ys" and c: "answered c"
  show "charge_key c \<notin> charge_key ` set ys"
  proof (cases ys rule: rev_cases)
    case (snoc zs z)
    with eq have cs: "cs = xs @ c # zs" "z = ch" by simp_all
    with c have "charge_key c \<in> answered_keys cs" by (simp add: answered_keys_def)
    with assms(2) have "charge_key c \<noteq> charge_key ch" by metis
    with assms(1) c cs snoc show ?thesis unfolding answered_last_def by auto
  qed simp
qed

lemma answered_last_unique:
  assumes "answered_last cs" and "a \<in> set cs" "b \<in> set cs" "answered a" "answered b" "charge_key a = charge_key b"
  shows "a = b"
proof (rule ccontr)
  assume "a \<noteq> b"
  obtain xs ys where cs: "cs = xs @ a # ys" "a \<notin> set xs" using split_list_first [OF assms(2)] by blast
  with assms(1,4,6) have "b \<notin> set ys" unfolding answered_last_def by force
  with assms(3) \<open>a \<noteq> b\<close> cs have "b \<in> set xs" by auto
  then obtain us vs where "xs = us @ b # vs" by (auto dest: split_list)
  then have "cs = us @ b # (vs @ a # ys)" using cs(1) by simp
  then have "charge_key b \<notin> charge_key ` set (vs @ a # ys)"
    using assms(1,5) unfolding answered_last_def by blast
  with assms(6) show False by simp
qed

text \<open>So a key has at most one charge more than it has lost answers.\<close>

lemma answered_last_count:
  assumes "answered_last cs"
  shows "length (filter (\<lambda>ch. charge_key ch = k) cs) \<le> Suc (length (filter (\<lambda>ch. charge_key ch = k \<and> \<not> answered ch) cs))"
  using assms
proof (induction cs)
  case (Cons ch cs)
  have rest: "answered_last cs" using Cons.prems unfolding answered_last_def by (metis append_Cons)
  have "answered ch \<longrightarrow> charge_key ch \<notin> charge_key ` set cs"
    using Cons.prems unfolding answered_last_def by (metis append_Nil)
  then have "filter (\<lambda>ch. charge_key ch = k) cs = []" if "answered ch" "charge_key ch = k"
    using that by (intro filter_False) (metis image_eqI)
  then show ?case using Cons.IH [OF rest] by auto
qed simp

lemma charge_status: "current_state (snd (transition_to charge_machine StateSucceeded)) = StateSucceeded"
  by (simp add: charge_machine_def transition_to_def transition_allowed_def new_payment_state_machine_def
      allowed_transitions_def payment_states)

text \<open>The key a call holds.\<close>

fun holds :: "phase \<Rightarrow> string option" where
  "holds Outside = None"
| "holds (Charging req) = Some (idempotency_key req)"
| "holds (Storing req resp) = Some (idempotency_key req)"
| "holds (Leaving req res) = Some (idempotency_key req)"

definition honest :: "pay_sys \<Rightarrow> string \<Rightarrow> payment_response \<Rightarrow> bool" where
  "honest s k r \<longleftrightarrow>
     (\<exists>ch \<in> set (charges s). answered ch \<and> charge_key ch = k \<and> charge_id ch = payment_id r \<and> charge_amount ch = resp_amount r)
   \<and> resp_status r = StateSucceeded"

definition key_owners :: "pay_sys \<Rightarrow> bool" where
  "key_owners s \<longleftrightarrow>
     (\<forall>w k. holds (phases s w) = Some k \<longrightarrow> k \<in> in_flight_keys (pipeline s))
   \<and> (\<forall>w v k. holds (phases s w) = Some k \<longrightarrow> holds (phases s v) = Some k \<longrightarrow> w = v)"

definition fresh_keys :: "pay_sys \<Rightarrow> bool" where
  "fresh_keys s \<longleftrightarrow>
     (\<forall>w req. phases s w = Charging req \<longrightarrow> idempotency_key req \<notin> answered_keys (charges s))
   \<and> (\<forall>k \<in> answered_keys (charges s). idempotency (pipeline s) k \<noteq> None
        \<or> (\<exists>w req r. phases s w = Storing req r \<and> idempotency_key req = k))
   \<and> answered_last (charges s)"

definition honest_responses :: "pay_sys \<Rightarrow> bool" where
  "honest_responses s \<longleftrightarrow>
     (\<forall>w req r. phases s w = Storing req r \<longrightarrow> honest s (idempotency_key req) r)
   \<and> (\<forall>w req r. phases s w = Leaving req (Some (Inr r)) \<longrightarrow> honest s (idempotency_key req) r)
   \<and> (\<forall>k r. idempotency (pipeline s) k = Some r \<longrightarrow> honest s k r)
   \<and> (\<forall>req r. (req, r) \<in> set (replies s) \<longrightarrow> honest s (idempotency_key req) r)"

lemma enter_cases:
  assumes "enter_payment p req = (e, p')"
  obtains err where "e = Refuse err" "p' = p"
  | cached where "e = Replay cached" "p' = p" "idempotency p (idempotency_key req) = Some cached"
  | "e = Proceed" "idempotency p (idempotency_key req) = None" "idempotency_key req \<notin> in_flight_keys p"
    "p' = p\<lparr>in_flight_keys := insert (idempotency_key req) (in_flight_keys p)\<rparr>"
proof (cases "idempotency_key req = []")
  case True
  with assms show ?thesis by (intro that(1) [of KeyRequired]) (auto simp: enter_payment_def)
next
  case ne: False
  show ?thesis
  proof (cases "idempotency p (idempotency_key req)")
    case (Some c)
    with ne assms show ?thesis by (intro that(2) [of c]) (auto simp: enter_payment_def)
  next
    case None
    show ?thesis
    proof (cases "idempotency_key req \<in> in_flight_keys p")
      case True
      with None ne assms show ?thesis by (intro that(1) [of KeyInFlight]) (auto simp: enter_payment_def)
    next
      case False
      with None ne assms show ?thesis by (intro that(3)) (auto simp: enter_payment_def)
    qed
  qed
qed

lemma key_ownersD:
  assumes "key_owners s"
  shows "holds (phases s w) = Some k \<Longrightarrow> k \<in> in_flight_keys (pipeline s)"
    "holds (phases s w) = Some k \<Longrightarrow> holds (phases s v) = Some k \<Longrightarrow> w = v"
  using assms unfolding key_owners_def by blast+

text \<open>A step that changes the phase of one call without changing the key it holds or the claimed keys.\<close>

lemma key_owners_same:
  assumes "key_owners s" and "\<And>w. holds (phases t w) = holds (phases s w)"
    and "in_flight_keys (pipeline t) = in_flight_keys (pipeline s)"
  shows "key_owners t"
  using assms by (simp add: key_owners_def)

lemma build_cases:
  obtains c where "ans = Charged c"
      "build_response req ans = Some (Inr \<lparr>payment_id = c, resp_status = StateSucceeded, resp_amount = req_amount req\<rparr>)"
  | "charges_made req ans = [] \<or> (\<exists>c. charges_made req ans = [charge_for req c False])"
      "\<And>r. build_response req ans \<noteq> Some (Inr r)"
proof (cases "\<exists>c. ans = Charged c")
  case True
  then obtain c where c: "ans = Charged c" ..
  show ?thesis by (rule that(1) [OF c]) (simp add: c build_response_def charge_status Let_def)
next
  case False
  have "charges_made req ans = [] \<or> (\<exists>c. charges_made req ans = [charge_for req c False])"
  proof (cases ans)
    case (ChargeError e made)
    then show ?thesis by (cases made) auto
  next
    case (GatewayPanic made)
    then show ?thesis by (cases made) auto
  qed (use False in blast)
  moreover have "build_response req ans \<noteq> Some (Inr r)" for r
    using False by (cases ans) (auto simp: build_response_def)
  ultimately show ?thesis by (rule that(2))
qed

lemma key_owners_step:
  assumes "key_owners s" and "pay_step s e = Some t"
  shows "key_owners t"
proof (cases e)
  case (Call w req)
  obtain en p where en: "enter_payment (pipeline s) req = (en, p)" by (cases "enter_payment (pipeline s) req")
  have idle: "phases s w = Outside" using assms(2) Call by (auto split: if_splits)
  from en show ?thesis
  proof (cases rule: enter_cases)
    case 3
    then have "holds (phases s v) \<noteq> Some (idempotency_key req)" for v using key_ownersD(1) [OF assms(1)] by blast
    moreover have "phases t = (phases s)(w := Charging req)"
      "in_flight_keys (pipeline t) = insert (idempotency_key req) (in_flight_keys (pipeline s))"
      using assms(2) Call en idle 3 by auto
    ultimately show ?thesis using key_ownersD [OF assms(1)] unfolding key_owners_def by (auto split: if_splits)
  qed (use assms Call en idle in \<open>auto simp: key_owners_def\<close>)
next
  case (Gateway w ans)
  then obtain req where req: "phases s w = Charging req" using assms(2) by (auto split: phase.splits)
  show ?thesis
    using assms(2) Gateway req
    by (intro key_owners_same [OF assms(1)]) (auto split: option.splits sum.splits)
next
  case (Record w)
  then show ?thesis
    using assms(2)
    by (intro key_owners_same [OF assms(1)]) (auto simp: record_response_def split: phase.splits)
next
  case (Leave w)
  then obtain req res where r: "phases s w = Leaving req res" using assms(2) by (auto split: phase.splits)
  then have "v \<noteq> w \<Longrightarrow> holds (phases s v) \<noteq> Some (idempotency_key req)" for v
    using key_ownersD(2) [OF assms(1), of w "idempotency_key req" v] by auto
  moreover have "phases t = (phases s)(w := Outside)"
    "in_flight_keys (pipeline t) = in_flight_keys (pipeline s) - {idempotency_key req}"
    using assms(2) Leave r by (auto simp: leave_payment_def)
  ultimately show ?thesis using key_ownersD [OF assms(1)] unfolding key_owners_def by (auto split: if_splits)
qed

lemma honest_mono:
  "set (charges s) \<subseteq> set (charges t) \<Longrightarrow> honest s k r \<Longrightarrow> honest t k r"
  by (auto simp: honest_def)

lemma charges_grow:
  assumes "pay_step s e = Some t"
  shows "set (charges s) \<subseteq> set (charges t)"
proof (cases e)
  case (Call w req)
  obtain en p where en: "enter_payment (pipeline s) req = (en, p)" by (cases "enter_payment (pipeline s) req")
  with assms Call show ?thesis by (cases en) (auto split: if_splits)
next
  case (Gateway w ans)
  with assms show ?thesis by (cases ans) (auto split: phase.splits)
qed (use assms in \<open>auto split: phase.splits\<close>)

lemma honest_responses_step:
  assumes "honest_responses s" and "pay_step s e = Some t"
  shows "honest_responses t"
proof -
  note mono = honest_mono [OF charges_grow [OF assms(2)]]
  have H: "phases s w = Storing req r \<Longrightarrow> honest t (idempotency_key req) r"
    "phases s w = Leaving req (Some (Inr r)) \<Longrightarrow> honest t (idempotency_key req) r"
    "idempotency (pipeline s) k = Some r \<Longrightarrow> honest t k r"
    "(req, r) \<in> set (replies s) \<Longrightarrow> honest t (idempotency_key req) r" for w req r k
    using assms(1) mono unfolding honest_responses_def by blast+
  show ?thesis
  proof (cases e)
    case (Call w req)
    obtain en p where en: "enter_payment (pipeline s) req = (en, p)" by (cases "enter_payment (pipeline s) req")
    have idle: "phases s w = Outside" using assms(2) Call by (auto split: if_splits)
    from en show ?thesis
      by (cases rule: enter_cases)
        (use assms(2) Call en H idle in \<open>auto simp: honest_responses_def split: if_splits\<close>)
  next
    case (Gateway w ans)
    then obtain req where req: "phases s w = Charging req" using assms(2) by (auto split: phase.splits)
    show ?thesis
    proof (cases rule: build_cases [of ans req])
      case (1 c)
      then have "honest t (idempotency_key req) \<lparr>payment_id = c, resp_status = StateSucceeded, resp_amount = req_amount req\<rparr>"
        using assms(2) Gateway req by (auto simp: honest_def)
      with 1 show ?thesis using assms(2) Gateway req H by (auto simp: honest_responses_def split: if_splits)
    next
      case 2
      then show ?thesis using assms(2) Gateway req H
        by (auto simp: honest_responses_def split: if_splits option.splits sum.splits)
    qed
  next
    case (Record w)
    then show ?thesis using assms(2) H
      by (auto simp: honest_responses_def record_response_def split: phase.splits if_splits)
  next
    case (Leave w)
    then show ?thesis using assms(2) H
      by (auto simp: honest_responses_def leave_payment_def split: phase.splits if_splits option.splits sum.splits)
  qed
qed

lemma fresh_keysD:
  assumes "fresh_keys s"
  shows "phases s w = Charging req \<Longrightarrow> idempotency_key req \<notin> answered_keys (charges s)"
    "k \<in> answered_keys (charges s) \<Longrightarrow> idempotency (pipeline s) k \<noteq> None
        \<or> (\<exists>w req r. phases s w = Storing req r \<and> idempotency_key req = k)"
    "answered_last (charges s)"
  using assms unfolding fresh_keys_def by blast+

lemma fresh_keys_keep:
  assumes "fresh_keys s" and "charges t = charges s"
    and "\<And>k. idempotency (pipeline s) k \<noteq> None \<Longrightarrow> idempotency (pipeline t) k \<noteq> None"
    and "\<And>w req r. phases s w = Storing req r \<Longrightarrow>
      phases t w = Storing req r \<or> idempotency (pipeline t) (idempotency_key req) \<noteq> None"
    and "\<And>w req. phases t w = Charging req \<Longrightarrow> idempotency_key req \<notin> answered_keys (charges s)"
  shows "fresh_keys t"
proof -
  have "idempotency (pipeline t) k \<noteq> None \<or> (\<exists>w req r. phases t w = Storing req r \<and> idempotency_key req = k)"
    if "k \<in> answered_keys (charges s)" for k
    using fresh_keysD(2) [OF assms(1) that] assms(3,4) by blast
  then show ?thesis using fresh_keysD(3) [OF assms(1)] assms(2,5) unfolding fresh_keys_def by simp
qed

lemma uncharged_entry:
  assumes "key_owners s" and "fresh_keys s" and "idempotency (pipeline s) k = None" and "k \<notin> in_flight_keys (pipeline s)"
  shows "k \<notin> answered_keys (charges s)"
proof
  assume "k \<in> answered_keys (charges s)"
  with fresh_keysD(2) [OF assms(2)] assms(3) obtain v r' r where "phases s v = Storing r' r" "idempotency_key r' = k"
    by blast
  then show False using key_ownersD(1) [OF assms(1), of v k] assms(4) by simp
qed

text \<open>A charge with a lost answer leaves the answered keys as they are.\<close>

lemma fresh_keys_lost:
  assumes "fresh_keys s" and "phases s w = Charging req"
    and "phases t = (phases s)(w := Leaving req res)" "pipeline t = pipeline s"
    and "charges t = charges s \<or> (\<exists>c. charges t = charges s @ [charge_for req c False])"
  shows "fresh_keys t"
proof -
  have keys: "answered_keys (charges t) = answered_keys (charges s)" using assms(5) by auto
  have "answered_last (charges t)"
    using assms(5) fresh_keysD(1) [OF assms(1,2)] fresh_keysD(3) [OF assms(1)] by (auto intro!: answered_last_snoc)
  moreover have "idempotency (pipeline t) k \<noteq> None \<or> (\<exists>w req r. phases t w = Storing req r \<and> idempotency_key req = k)"
    if "k \<in> answered_keys (charges s)" for k
    using fresh_keysD(2) [OF assms(1) that]
  proof
    assume "\<exists>v r' q. phases s v = Storing r' q \<and> idempotency_key r' = k"
    then obtain v r' q where v: "phases s v = Storing r' q" "idempotency_key r' = k" by blast
    with assms(2) have "phases t v = Storing r' q" by (auto simp: assms(3))
    with v show ?thesis by blast
  qed (simp add: assms(4))
  ultimately show ?thesis
    using fresh_keysD(1) [OF assms(1)] unfolding fresh_keys_def keys by (auto simp: assms(3) split: if_splits)
qed

lemma fresh_keys_charge:
  assumes "key_owners s" and "fresh_keys s" and "phases s w = Charging req"
    and "phases t = (phases s)(w := Storing req r)" "pipeline t = pipeline s"
    and "charges t = charges s @ [charge_for req c True]"
  shows "fresh_keys t"
proof -
  have "idempotency_key r' \<notin> answered_keys (charges t)" if "phases t v = Charging r'" for v r'
  proof -
    have v: "v \<noteq> w" "phases s v = Charging r'" using that assms(4) by (auto split: if_splits)
    then have "idempotency_key r' \<noteq> idempotency_key req"
      using key_ownersD(2) [OF assms(1), of w "idempotency_key req" v] assms(3) by auto
    with fresh_keysD(1) [OF assms(2) v(2)] show ?thesis by (simp add: assms(6))
  qed
  moreover have "idempotency (pipeline t) k \<noteq> None \<or> (\<exists>w req r. phases t w = Storing req r \<and> idempotency_key req = k)"
    if "k \<in> answered_keys (charges t)" for k
  proof (cases "k = idempotency_key req")
    case True
    have "phases t w = Storing req r" by (simp add: assms(4))
    with True show ?thesis by blast
  next
    case False
    with that have "k \<in> answered_keys (charges s)" by (simp add: assms(6))
    from fresh_keysD(2) [OF assms(2) this] show ?thesis
    proof
      assume "\<exists>v r' q. phases s v = Storing r' q \<and> idempotency_key r' = k"
      then obtain v r' q where v: "phases s v = Storing r' q" "idempotency_key r' = k" by blast
      with assms(3) have "v \<noteq> w" by auto
      with v have "phases t v = Storing r' q" by (simp add: assms(4))
      with v show ?thesis by blast
    qed (simp add: assms(5))
  qed
  moreover have "answered_last (charges t)"
    using fresh_keysD(1) [OF assms(2,3)] fresh_keysD(3) [OF assms(2)] by (simp add: assms(6) answered_last_snoc)
  ultimately show ?thesis unfolding fresh_keys_def by blast
qed

lemma fresh_keys_step:
  assumes "key_owners s" and "fresh_keys s" and "pay_step s e = Some t"
  shows "fresh_keys t"
proof -
  note keep = fresh_keys_keep [OF assms(2)] and F = fresh_keysD(1) [OF assms(2)]
  show ?thesis
  proof (cases e)
    case (Call w req)
    obtain en p where en: "enter_payment (pipeline s) req = (en, p)" by (cases "enter_payment (pipeline s) req")
    have idle: "phases s w = Outside" using assms(3) Call by (auto split: if_splits)
    from en show ?thesis
    proof (cases rule: enter_cases)
      case (1 err)
      then have t: "phases t = phases s" "charges t = charges s" "pipeline t = pipeline s"
        using assms(3) Call en idle by auto
      show ?thesis using F by (intro keep) (auto simp: t)
    next
      case (2 cached)
      then have t: "phases t = phases s" "charges t = charges s" "pipeline t = pipeline s"
        using assms(3) Call en idle by auto
      show ?thesis using F by (intro keep) (auto simp: t)
    next
      case 3
      have t: "phases t = (phases s)(w := Charging req)" "charges t = charges s"
        "idempotency (pipeline t) = idempotency (pipeline s)" using assms(3) Call en idle 3 by auto
      show ?thesis
        using uncharged_entry [OF assms(1,2) 3(2,3)] F idle
        by (intro keep) (auto simp: t simp del: not_None_eq split: if_splits)
    qed
  next
    case (Gateway w ans)
    then obtain req where req: "phases s w = Charging req" using assms(3) by (auto split: phase.splits)
    show ?thesis
    proof (cases rule: build_cases [of ans req])
      case (1 c)
      show ?thesis
        by (rule fresh_keys_charge [OF assms(1,2) req]) (use assms(3) Gateway req 1 in auto)
    next
      case 2
      have t: "phases t = (phases s)(w := Leaving req (build_response req ans))" "pipeline t = pipeline s"
        "charges t = charges s @ charges_made req ans"
        using assms(3) Gateway req 2(2) by (auto split: option.splits sum.splits)
      show ?thesis by (rule fresh_keys_lost [OF assms(2) req t(1,2)]) (use 2(1) t(3) in auto)
    qed
  next
    case (Record w)
    then obtain req r where r: "phases s w = Storing req r" using assms(3) by (auto split: phase.splits)
    have t: "phases t = (phases s)(w := Leaving req (Some (Inr r)))" "charges t = charges s"
      "idempotency (pipeline t) = (idempotency (pipeline s))(idempotency_key req \<mapsto> r)"
      using assms(3) Record r by (auto simp: record_response_def)
    show ?thesis using F r by (intro keep) (auto simp: t split: if_splits)
  next
    case (Leave w)
    then obtain req res where r: "phases s w = Leaving req res" using assms(3) by (auto split: phase.splits)
    have t: "phases t = (phases s)(w := Outside)" "charges t = charges s"
      "idempotency (pipeline t) = idempotency (pipeline s)"
      using assms(3) Leave r by (auto simp: leave_payment_def)
    show ?thesis using F r by (intro keep) (auto simp: t simp del: not_None_eq split: if_splits)
  qed
qed

definition pay_inv :: "pay_sys \<Rightarrow> bool" where
  "pay_inv s \<longleftrightarrow> key_owners s \<and> fresh_keys s \<and> honest_responses s"

lemma pay_inv_run: "run_events pay_step pay_start es = Some s \<Longrightarrow> pay_inv s"
  by (rule run_events_inv [where I = pay_inv])
    (auto simp: pay_inv_def pay_start_def new_payment_pipeline_def key_owners_def [of "\<lparr>pipeline = _, phases = _, charges = _, replies = _\<rparr>"]
      fresh_keys_def [of "\<lparr>pipeline = _, phases = _, charges = _, replies = _\<rparr>"]
      honest_responses_def [of "\<lparr>pipeline = _, phases = _, charges = _, replies = _\<rparr>"]
      intro: key_owners_step fresh_keys_step honest_responses_step)

text \<open>C4: a payment has at most one answered charge per idempotency key. In every interleaving of any number of calls,
  with a gateway that may fail or panic after it made a charge (the answer was lost) as well as before: no two
  calls are at the gateway with the same key; an answered charge is the last one ever made under its key, so a key
  has at most one charge more than it has lost answers, and at most one when none was lost; every response that is
  returned, recorded ones included, reports an answered charge made under its request's key with its amount and
  status SUCCEEDED, and all responses for a key are the same. That a lost answer does lead to a second charge is
  \<open>lost_answer_charges_again\<close>.\<close>

theorem charged_at_most_once:
  assumes "run_events pay_step pay_start es = Some s"
  shows "(phases s w = Charging req \<longrightarrow> phases s v = Charging req' \<longrightarrow> w \<noteq> v \<longrightarrow> idempotency_key req \<noteq> idempotency_key req')
    \<and> (charges s = xs @ ch # ys \<longrightarrow> answered ch \<longrightarrow> charge_key ch \<notin> charge_key ` set ys)
    \<and> length (filter (\<lambda>ch. charge_key ch = k) (charges s))
        \<le> Suc (length (filter (\<lambda>ch. charge_key ch = k \<and> \<not> answered ch) (charges s)))
    \<and> ((req, r) \<in> set (replies s) \<longrightarrow> resp_status r = StateSucceeded
        \<and> (\<exists>ch \<in> set (charges s). answered ch \<and> charge_key ch = idempotency_key req
             \<and> charge_id ch = payment_id r \<and> charge_amount ch = resp_amount r))
    \<and> ((req, r) \<in> set (replies s) \<longrightarrow> (req', r') \<in> set (replies s) \<longrightarrow>
        idempotency_key req = idempotency_key req' \<longrightarrow> r = r')"
proof (intro conjI)
  have I: "key_owners s" "fresh_keys s" "honest_responses s" using pay_inv_run [OF assms] by (simp_all add: pay_inv_def)
  note L = fresh_keysD(3) [OF I(2)]
  have H: "(q, p) \<in> set (replies s) \<Longrightarrow> honest s (idempotency_key q) p" for q p
    using I(3) unfolding honest_responses_def by blast
  show "phases s w = Charging req \<longrightarrow> phases s v = Charging req' \<longrightarrow> w \<noteq> v \<longrightarrow> idempotency_key req \<noteq> idempotency_key req'"
    using key_ownersD(2) [OF I(1), of w "idempotency_key req" v] by auto
  show "charges s = xs @ ch # ys \<longrightarrow> answered ch \<longrightarrow> charge_key ch \<notin> charge_key ` set ys"
    using L unfolding answered_last_def by blast
  show "length (filter (\<lambda>ch. charge_key ch = k) (charges s))
      \<le> Suc (length (filter (\<lambda>ch. charge_key ch = k \<and> \<not> answered ch) (charges s)))"
    by (rule answered_last_count [OF L])
  show "(req, r) \<in> set (replies s) \<longrightarrow> resp_status r = StateSucceeded
      \<and> (\<exists>ch \<in> set (charges s). answered ch \<and> charge_key ch = idempotency_key req
           \<and> charge_id ch = payment_id r \<and> charge_amount ch = resp_amount r)"
    using H unfolding honest_def by blast
  show "(req, r) \<in> set (replies s) \<longrightarrow> (req', r') \<in> set (replies s) \<longrightarrow>
      idempotency_key req = idempotency_key req' \<longrightarrow> r = r'"
    using H [of req r] H [of req' r'] unfolding honest_def
    by (metis answered_last_unique [OF L] payment_response.surjective old.unit.exhaust)
qed

definition demo_pay :: payment_request where
  "demo_pay = \<lparr>idempotency_key = ''k'', req_amount = 100, customer_id = ''c''\<rparr>"

lemmas demo_pay_run = pay_start_def enter_payment_def new_payment_pipeline_def demo_pay_def build_response_def
  leave_payment_def record_response_def Let_def charge_for_def charge_status

theorem charged_at_most_once_witness:
  "\<exists>s r. run_events pay_step pay_start
       [Call 1 demo_pay, Call 2 demo_pay, Gateway 1 (ChargeError ''down'' None), Leave 1,
        Call 2 demo_pay, Gateway 2 (Charged ''ch_1''), Record 2, Call 3 demo_pay, Leave 2] = Some s
     \<and> map charge_id (charges s) = [''ch_1''] \<and> replies s = [(demo_pay, r), (demo_pay, r)]
     \<and> resp_status r = StateSucceeded \<and> resp_amount r = 100"
proof -
  obtain s r where s: "run_events pay_step pay_start
       [Call 1 demo_pay, Call 2 demo_pay, Gateway 1 (ChargeError ''down'' None), Leave 1,
        Call 2 demo_pay, Gateway 2 (Charged ''ch_1''), Record 2, Call 3 demo_pay, Leave 2] = Some s"
      "charges s = [charge_for demo_pay ''ch_1'' True]" "replies s = [(demo_pay, r), (demo_pay, r)]"
    by (simp add: demo_pay_run)
  with charged_at_most_once [OF s(1), of 1 demo_pay 2 demo_pay "[]" "charge_for demo_pay ''ch_1'' True" "[]" "''k''" r r]
  show ?thesis by (auto simp: demo_pay_def)
qed

text \<open>When the answer of a charge is lost, the call fails, nothing is recorded for the key and the key is released: the
  client's retry with the same key charges again.\<close>

lemma lost_answer_charges_again:
  "\<exists>s. run_events pay_step pay_start
       [Call 1 demo_pay, Gateway 1 (ChargeError ''timeout'' (Some ''ch_1'')), Leave 1,
        Call 2 demo_pay, Gateway 2 (Charged ''ch_2''), Record 2, Leave 2] = Some s
     \<and> map (\<lambda>ch. (charge_key ch, charge_id ch)) (charges s) = [(''k'', ''ch_1''), (''k'', ''ch_2'')]
     \<and> map (payment_id \<circ> snd) (replies s) = [''ch_2'']"
  by (simp add: demo_pay_run)

text \<open>A call with nothing in between is a run of these steps with the same result.\<close>

lemma process_payment_steps:
  assumes "phases s w = Outside" and "process_payment (pipeline s) gw req = (res, p)"
  shows "\<exists>es t. run_events pay_step s es = Some t \<and> pipeline t = p \<and> phases t = phases s"
proof -
  let ?ans = "gw (customer_id req) (req_amount req)"
  have restore: "(phases s)(w := Outside) = phases s" using assms(1) by auto
  obtain en p1 where en: "enter_payment (pipeline s) req = (en, p1)" by (cases "enter_payment (pipeline s) req")
  from en show ?thesis
  proof (cases rule: enter_cases)
    case 3
    show ?thesis
    proof (cases rule: build_cases [of ?ans req])
      case (1 c)
      with 3 en assms restore show ?thesis
        by (intro exI [of _ "[Call w req, Gateway w ?ans, Record w, Leave w]"])
          (auto simp: process_payment_def Let_def)
    next
      case 2
      with 3 en assms restore show ?thesis
        by (intro exI [of _ "[Call w req, Gateway w ?ans, Leave w]"])
          (auto simp: process_payment_def Let_def split: option.splits sum.splits)
    qed
  qed (use en assms in \<open>auto simp: process_payment_def intro!: exI [of _ "[Call w req]"]\<close>)
qed

end
