(* ===== verification/Process_Resources.thy ===== *)
theory Process_Resources
  imports Go_Prelude "HOL-Library.Multiset"
begin

text \<open>
  \<open>patterns/22_resourcemanagement\<close>: the resource tracker (\<open>resource_lifecycle.go\<close>) and the buffer pool
  (\<open>buffer_pool.go\<close>). A closer is known by a name of its own; what its \<open>Close\<close> returns is a function \<open>close_err\<close>.
  \<open>tracked_log\<close> and \<open>closed_log\<close> record which closers were taken over and on which \<open>Close\<close> was called.
\<close>


section \<open>Resource tracker\<close>

record 'c managed_resource =
  mr_closer :: "'c option"
  mr_created_at :: gotime
  mr_timeout :: duration

record 'c resource_tracker =
  max_resources :: int
  active_resources :: "string \<rightharpoonup> 'c managed_resource"
  tracked_log :: "'c list"
  closed_log :: "'c list"

definition new_resource_tracker :: "int \<Rightarrow> 'c resource_tracker" where
  "new_resource_tracker n =
     \<lparr>max_resources = (if n \<le> 0 then 100 else n), active_resources = Map.empty, tracked_log = [], closed_log = []\<rparr>"

definition active_count :: "'c resource_tracker \<Rightarrow> nat" where
  "active_count t = card (dom (active_resources t))"

definition opt_list :: "'c option \<Rightarrow> 'c list" where
  "opt_list x = (case x of None \<Rightarrow> [] | Some c \<Rightarrow> [c])"

text \<open>\<open>Track\<close>; the boolean is success.\<close>

definition track_resource ::
  "'c resource_tracker \<Rightarrow> gotime \<Rightarrow> string \<Rightarrow> 'c option \<Rightarrow> duration \<Rightarrow> bool \<times> 'c resource_tracker" where
  "track_resource t now i closer timeout =
     (if max_resources t \<le> int (active_count t) then (False, t)
      else (True, t\<lparr>active_resources := (active_resources t)(i \<mapsto>
                      \<lparr>mr_closer = closer, mr_created_at = now, mr_timeout = timeout\<rparr>),
                    tracked_log := tracked_log t @ opt_list closer\<rparr>))"

definition release_resource :: "('c \<Rightarrow> 'e option) \<Rightarrow> 'c resource_tracker \<Rightarrow> string \<Rightarrow> 'e option \<times> 'c resource_tracker" where
  "release_resource close_err t i =
     (case active_resources t i of
        None \<Rightarrow> (None, t)
      | Some res \<Rightarrow>
          (let t1 = t\<lparr>active_resources := (active_resources t)(i := None)\<rparr> in
           case mr_closer res of
             None \<Rightarrow> (None, t1)
           | Some c \<Rightarrow> (close_err c, t1\<lparr>closed_log := closed_log t1 @ [c]\<rparr>)))"

datatype 'e close_result = AllClosed "'e list" | CloseTimedOut | NilCloser

text \<open>The loop of \<open>CloseAll\<close> over the resources it has collected; \<open>polls\<close> are the answers of the context. A resource without
  closer makes the call of \<open>Close\<close> panic.\<close>

fun close_loop ::
  "('c \<Rightarrow> 'e option) \<Rightarrow> 'c managed_resource list \<Rightarrow> bool list \<Rightarrow> 'e list \<Rightarrow> 'c list \<Rightarrow> 'e close_result \<times> 'c list" where
  "close_loop close_err [] polls errs closed = (AllClosed errs, closed)"
| "close_loop close_err (r # rs) polls errs closed =
     (if polls \<noteq> [] \<and> hd polls then (CloseTimedOut, closed)
      else case mr_closer r of
        None \<Rightarrow> (NilCloser, closed)
      | Some c \<Rightarrow>
          close_loop close_err rs (tl polls) (errs @ opt_list (close_err c)) (closed @ [c]))"

definition close_all ::
  "('c \<Rightarrow> 'e option) \<Rightarrow> 'c resource_tracker \<Rightarrow> string list \<Rightarrow> bool list \<Rightarrow> 'e close_result \<times> 'c resource_tracker" where
  "close_all close_err t order polls =
     (let resources = map (\<lambda>i. the (active_resources t i)) order;
          (res, closed) = close_loop close_err resources polls [] []
      in (res, t\<lparr>active_resources := Map.empty, closed_log := closed_log t @ closed\<rparr>))"

text \<open>The operations of a process on its tracker.\<close>

datatype 'c tracker_op = TrackOp gotime string "'c option" duration | ReleaseOp string

fun tracker_step :: "('c \<Rightarrow> 'e option) \<Rightarrow> 'c resource_tracker \<Rightarrow> 'c tracker_op \<Rightarrow> 'c resource_tracker" where
  "tracker_step close_err t (TrackOp now i c d) = snd (track_resource t now i c d)"
| "tracker_step close_err t (ReleaseOp i) = snd (release_resource close_err t i)"

text \<open>An identifier is not used again while it is active, and every resource has a closer.\<close>

fun fresh_op :: "'c resource_tracker \<Rightarrow> 'c tracker_op \<Rightarrow> bool" where
  "fresh_op t (TrackOp now i c d) = (active_resources t i = None \<and> c \<noteq> None)"
| "fresh_op t (ReleaseOp i) = True"

fun fresh_ops :: "('c \<Rightarrow> 'e option) \<Rightarrow> 'c resource_tracker \<Rightarrow> 'c tracker_op list \<Rightarrow> bool" where
  "fresh_ops close_err t [] = True"
| "fresh_ops close_err t (x # xs) = (fresh_op t x \<and> fresh_ops close_err (tracker_step close_err t x) xs)"

definition closers_of :: "(string \<rightharpoonup> 'c managed_resource) \<Rightarrow> 'c multiset" where
  "closers_of m = image_mset (\<lambda>i. the (mr_closer (the (m i)))) (mset_set (dom m))"

definition tracker_inv :: "'c resource_tracker \<Rightarrow> bool" where
  "tracker_inv t \<longleftrightarrow>
     finite (dom (active_resources t)) \<and> int (active_count t) \<le> max_resources t \<and>
     (\<forall>i r. active_resources t i = Some r \<longrightarrow> mr_closer r \<noteq> None) \<and>
     mset (tracked_log t) = mset (closed_log t) + closers_of (active_resources t)"

lemma closers_of_insert:
  assumes "finite (dom m)" and "m i = None"
  shows "closers_of (m(i \<mapsto> r)) = add_mset (the (mr_closer r)) (closers_of m)"
proof -
  have i: "i \<notin> dom m" using assms(2) by auto
  have "image_mset (\<lambda>j. the (mr_closer (the ((m(i \<mapsto> r)) j)))) (mset_set (dom m))
      = image_mset (\<lambda>j. the (mr_closer (the (m j)))) (mset_set (dom m))"
    by (rule image_mset_cong) (use assms(1) i in auto)
  with assms(1) i show ?thesis by (simp add: closers_of_def)
qed

lemma closers_of_remove:
  assumes "finite (dom m)" and "m i = Some r"
  shows "closers_of m = add_mset (the (mr_closer r)) (closers_of (m(i := None)))"
proof -
  have "m = (m(i := None))(i \<mapsto> r)" using assms(2) by auto
  then have "closers_of m = closers_of ((m(i := None))(i \<mapsto> r))" by simp
  also have "\<dots> = add_mset (the (mr_closer r)) (closers_of (m(i := None)))"
    by (rule closers_of_insert) (use assms(1) in auto)
  finally show ?thesis .
qed

lemma tracker_inv_new: "tracker_inv (new_resource_tracker n)"
  by (auto simp: tracker_inv_def new_resource_tracker_def active_count_def closers_of_def)

lemma tracker_step_inv:
  assumes I: "tracker_inv t" and f: "fresh_op t x"
  shows "tracker_inv (tracker_step close_err t x)"
proof (cases x)
  case (TrackOp now i c d)
  then obtain k where k: "c = Some k" and i: "active_resources t i = None" using f by auto
  show ?thesis
  proof (cases "max_resources t \<le> int (active_count t)")
    case True
    with I TrackOp show ?thesis by (simp add: track_resource_def)
  next
    case False
    define r where "r = \<lparr>mr_closer = Some k, mr_created_at = now, mr_timeout = d\<rparr>"
    have t1: "tracker_step close_err t x =
        t\<lparr>active_resources := (active_resources t)(i \<mapsto> r), tracked_log := tracked_log t @ [k]\<rparr>"
      using False TrackOp k by (simp add: track_resource_def opt_list_def r_def)
    have fin: "finite (dom (active_resources t))" using I by (simp add: tracker_inv_def)
    have "card (dom ((active_resources t)(i \<mapsto> r))) = Suc (active_count t)"
      using card_dom_upd [OF fin i] by (simp add: active_count_def)
    moreover have "closers_of ((active_resources t)(i \<mapsto> r)) = add_mset k (closers_of (active_resources t))"
      using closers_of_insert [OF fin i] by (simp add: r_def)
    moreover have "\<forall>j q. ((active_resources t)(i \<mapsto> r)) j = Some q \<longrightarrow> mr_closer q \<noteq> None"
      using I by (auto simp: tracker_inv_def r_def)
    ultimately show ?thesis
      using I False unfolding t1 by (simp add: tracker_inv_def active_count_def del: fun_upd_apply)
  qed
next
  case (ReleaseOp i)
  show ?thesis
  proof (cases "active_resources t i")
    case None
    with I ReleaseOp show ?thesis by (simp add: release_resource_def)
  next
    case (Some r)
    with I obtain c where c: "mr_closer r = Some c" by (auto simp: tracker_inv_def)
    have fin: "finite (dom (active_resources t))" using I by (simp add: tracker_inv_def)
    have "int (card (dom ((active_resources t)(i := None)))) \<le> max_resources t"
      using I card_dom_del [OF fin Some] by (simp add: tracker_inv_def active_count_def)
    with I ReleaseOp Some c fin closers_of_remove [OF fin Some] show ?thesis
      by (auto simp: tracker_inv_def release_resource_def active_count_def Let_def split: if_splits)
  qed
qed

lemma tracker_run_inv:
  "tracker_inv t \<Longrightarrow> fresh_ops close_err t xs \<Longrightarrow> tracker_inv (foldl (tracker_step close_err) t xs)"
  by (induction xs arbitrary: t) (auto intro: tracker_step_inv)

lemma close_loop_all:
  assumes "\<forall>r \<in> set rs. mr_closer r \<noteq> None" and "True \<notin> set polls"
  shows "\<exists>es. close_loop close_err rs polls errs closed = (AllClosed es, closed @ map (\<lambda>r. the (mr_closer r)) rs)"
  using assms
proof (induction rs arbitrary: polls errs closed)
  case (Cons r rs)
  then obtain c where c: "mr_closer r = Some c" by auto
  have np: "\<not> (polls \<noteq> [] \<and> hd polls)" using Cons.prems(2) by (cases polls) auto
  have "True \<notin> set (tl polls)" using Cons.prems(2) by (cases polls) auto
  then obtain es where "close_loop close_err rs (tl polls) (errs @ opt_list (close_err c)) (closed @ [c])
      = (AllClosed es, (closed @ [c]) @ map (\<lambda>r. the (mr_closer r)) rs)"
    using Cons.IH [of "tl polls" "errs @ opt_list (close_err c)" "closed @ [c]"] Cons.prems(1) by auto
  then show ?case using np c by auto
qed simp

lemma closers_of_order:
  assumes "iter_order order m"
  shows "mset (map (\<lambda>r. the (mr_closer r)) (map (\<lambda>i. the (m i)) order)) = closers_of m"
proof -
  have "mset order = mset_set (dom m)"
    using iter_orderD [OF assms] by (metis mset_set_set)
  then show ?thesis by (simp add: closers_of_def comp_def)
qed

text \<open>C30: No resource is leaked and none is closed twice. After any sequence of \<open>Track\<close> and \<open>Release\<close> calls that uses an
  identifier only once at a time, with closers that are not nil, there are never more active resources than the bound, and a
  \<open>CloseAll\<close> whose context does not end first has the effect that every resource ever tracked has been closed exactly
  once.\<close>

theorem tracker_closes_exactly_once:
  assumes "fresh_ops close_err (new_resource_tracker n) xs"
    and "t = foldl (tracker_step close_err) (new_resource_tracker n) xs"
    and "iter_order order (active_resources t)" and "True \<notin> set polls"
    and "close_all close_err t order polls = (res, t1)"
  shows "int (active_count t) \<le> max_resources t \<and> (\<exists>es. res = AllClosed es) \<and> active_count t1 = 0 \<and>
    mset (closed_log t1) = mset (tracked_log t1)"
proof -
  have I: "tracker_inv t" using tracker_run_inv [OF tracker_inv_new assms(1)] assms(2) by simp
  let ?rs = "map (\<lambda>i. the (active_resources t i)) order"
  have "\<forall>r \<in> set ?rs. mr_closer r \<noteq> None"
    using I iter_order_lookup [OF assms(3)] by (fastforce simp: tracker_inv_def)
  from close_loop_all [OF this assms(4), of close_err "[]" "[]"] obtain es where
    l: "close_loop close_err ?rs polls [] [] = (AllClosed es, map (\<lambda>r. the (mr_closer r)) ?rs)" by auto
  have t1: "t1 = t\<lparr>active_resources := Map.empty, closed_log := closed_log t @ map (\<lambda>r. the (mr_closer r)) ?rs\<rparr>"
    and res: "res = AllClosed es"
    using assms(5) l by (simp_all add: close_all_def Let_def)
  have "mset (closed_log t1) = mset (closed_log t) + closers_of (active_resources t)"
    using closers_of_order [OF assms(3)] by (simp add: t1)
  then show ?thesis using I res by (simp add: tracker_inv_def t1 active_count_def)
qed

lemma tracker_closes_exactly_once_witness:
  "\<exists>t1. snd (close_all (\<lambda>c. None :: nat option)
     (foldl (tracker_step (\<lambda>c. None :: nat option)) (new_resource_tracker 2) [TrackOp 0 ''a'' (Some (1::nat)) 5]) [''a''] [False]) = t1 \<and>
     mset (closed_log t1) = mset (tracked_log t1)"
proof -
  let ?c = "\<lambda>c :: nat. None :: nat option"
  let ?xs = "[TrackOp 0 ''a'' (Some (1::nat)) 5]"
  let ?t = "foldl (tracker_step ?c) (new_resource_tracker 2) ?xs"
  have f: "fresh_ops ?c (new_resource_tracker 2) ?xs" by (simp add: new_resource_tracker_def)
  have o: "iter_order [''a''] (active_resources ?t)"
    by (simp add: iter_order_def track_resource_def new_resource_tracker_def active_count_def)
  obtain res t1 where c: "close_all ?c ?t [''a''] [False] = (res, t1)" by (rule prod.exhaust)
  from tracker_closes_exactly_once [OF f refl o _ c] have "mset (closed_log t1) = mset (tracked_log t1)" by simp
  with c show ?thesis by simp
qed

text \<open>When the context ends first, the resources not reached are neither closed nor tracked any more.\<close>

lemma close_all_timeout_leaks:
  "close_all close_err t order (True # polls) = (CloseTimedOut, t\<lparr>active_resources := Map.empty\<rparr>)" if "order \<noteq> []"
  using that by (cases order) (simp_all add: close_all_def)

text \<open>Tracking an identifier again forgets the closer it had.\<close>

lemma track_twice_forgets:
  assumes "track_resource t now i c d = (True, t1)" and "track_resource t1 now2 i c2 d2 = (True, t2)"
  shows "closed_log t2 = closed_log t \<and> active_resources t2 i = Some \<lparr>mr_closer = c2, mr_created_at = now2, mr_timeout = d2\<rparr>"
  using assms by (auto simp: track_resource_def split: if_splits)

text \<open>\<open>Release\<close> accepts a resource without closer, \<open>CloseAll\<close> panics on it, and leaves the rest open.\<close>

lemma close_all_nil_closer:
  assumes "active_resources t i = Some r" and "mr_closer r = None"
  shows "fst (close_all close_err t (i # order) (False # polls)) = NilCloser"
  using assms by (simp add: close_all_def)


section \<open>Buffer pool\<close>

record buffer =
  buf_bytes :: string
  buf_cap :: int

record buffer_pool =
  initial_capacity :: int
  max_capacity :: int
  pooled_buffers :: "buffer list"

definition new_buffer_pool :: "int \<Rightarrow> int \<Rightarrow> buffer_pool" where
  "new_buffer_pool initialCapacity maxCapacity =
     \<lparr>initial_capacity = (if initialCapacity \<le> 0 then 1024 else initialCapacity),
      max_capacity = (if maxCapacity \<le> 0 then 65536 else maxCapacity), pooled_buffers = []\<rparr>"

definition reset_buffer :: "buffer \<Rightarrow> buffer" where
  "reset_buffer b = b\<lparr>buf_bytes := []\<rparr>"

text \<open>\<open>sync.Pool\<close> hands out any of its buffers, here the one at \<open>pick\<close>, or makes a new one.\<close>

definition get_buffer :: "buffer_pool \<Rightarrow> nat \<Rightarrow> buffer \<times> buffer_pool" where
  "get_buffer p pick =
     (if pick < length (pooled_buffers p) then
        (reset_buffer (pooled_buffers p ! pick),
         p\<lparr>pooled_buffers := take pick (pooled_buffers p) @ drop (Suc pick) (pooled_buffers p)\<rparr>)
      else (reset_buffer \<lparr>buf_bytes = [], buf_cap = initial_capacity p\<rparr>, p))"

definition put_buffer :: "buffer_pool \<Rightarrow> buffer option \<Rightarrow> buffer_pool" where
  "put_buffer p b =
     (case b of
        None \<Rightarrow> p
      | Some buf \<Rightarrow>
          if max_capacity p < buf_cap buf then p
          else p\<lparr>pooled_buffers := pooled_buffers p @ [reset_buffer buf]\<rparr>)"

datatype buffer_op = GetBuffer nat | PutBuffer "buffer option" | CollectBuffer nat

text \<open>The garbage collector may empty the pool at any time.\<close>

fun buffer_step :: "buffer_pool \<Rightarrow> buffer_op \<Rightarrow> buffer_pool" where
  "buffer_step p (GetBuffer pick) = snd (get_buffer p pick)"
| "buffer_step p (PutBuffer b) = put_buffer p b"
| "buffer_step p (CollectBuffer i) = p\<lparr>pooled_buffers := take i (pooled_buffers p)\<rparr>"

definition buffer_inv :: "buffer_pool \<Rightarrow> bool" where
  "buffer_inv p \<longleftrightarrow> (\<forall>b \<in> set (pooled_buffers p). buf_bytes b = [] \<and> buf_cap b \<le> max_capacity p)"

lemma buffer_step_inv: "buffer_inv p \<Longrightarrow> buffer_inv (buffer_step p x)"
  by (cases x) (auto simp: buffer_inv_def get_buffer_def put_buffer_def reset_buffer_def
      dest: in_set_takeD in_set_dropD split: option.split)

text \<open>Whatever the callers wrote into the buffers, a buffer that is handed out is empty, and the pool never keeps one larger than its
  ceiling.\<close>

lemma buffers_clean_and_bounded:
  assumes "p = foldl buffer_step (new_buffer_pool m n) xs"
  shows "buf_bytes (fst (get_buffer p pick)) = [] \<and> (\<forall>b \<in> set (pooled_buffers p). buf_cap b \<le> max_capacity p)"
proof -
  have "buffer_inv p" unfolding assms
    by (rule foldl_inv) (auto intro: buffer_step_inv, simp add: buffer_inv_def new_buffer_pool_def)
  then show ?thesis by (simp add: buffer_inv_def get_buffer_def reset_buffer_def)
qed

end
