(* ===== verification/Process_Signals.thy ===== *)
theory Process_Signals
  imports Lifecycle Context_Scopes
begin

text \<open>
  \<open>patterns/01_lifecycle\<close>: the signal controller (\<open>signal_handling.go\<close>) and the composition root
  (\<open>composition_root.go\<close>), which wires the shutdown manager of \<open>Lifecycle\<close>.
\<close>


section \<open>Signals\<close>

text \<open>The channel holds two signals; a nil signal is \<open>None\<close>. The operating system drops a signal when the channel is full,
  \<open>InjectSignal\<close> waits for room. After \<open>Stop\<close> no signal is delivered, but the loop goes on.\<close>

datatype loop_phase = NotStarted | AwaitFirst | AwaitSecond | LoopEnded

record 'g signal_controller =
  sig_chan :: "'g option list"
  sig_phase :: loop_phase
  sig_subscribed :: bool
  shutdown_cancelled :: bool
  force_exit :: bool
  sig_received :: "'g option list"

definition new_signal_controller :: "'g signal_controller" where
  "new_signal_controller =
     \<lparr>sig_chan = [], sig_phase = NotStarted, sig_subscribed = False, shutdown_cancelled = False, force_exit = False, sig_received = []\<rparr>"

datatype 'g signal_event = SignalStart | SignalStop | SignalDelivered 'g | InjectSignal "'g option" | LoopReceives | DeadlineElapses

definition start_signals :: "'g signal_controller \<Rightarrow> 'g signal_controller" where
  "start_signals s = (if sig_phase s = NotStarted then s\<lparr>sig_phase := AwaitFirst, sig_subscribed := True\<rparr> else s)"

definition stop_signals :: "'g signal_controller \<Rightarrow> 'g signal_controller" where
  "stop_signals s = s\<lparr>sig_subscribed := False\<rparr>"

fun signal_step :: "'g signal_controller \<Rightarrow> 'g signal_event \<Rightarrow> 'g signal_controller option" where
  "signal_step s SignalStart = Some (start_signals s)"
| "signal_step s SignalStop = Some (stop_signals s)"
| "signal_step s (SignalDelivered g) =
     (if \<not> sig_subscribed s then None
      else Some (if length (sig_chan s) < 2 then s\<lparr>sig_chan := sig_chan s @ [Some g]\<rparr> else s))"
| "signal_step s (InjectSignal g) =
     (if length (sig_chan s) < 2 then Some (s\<lparr>sig_chan := sig_chan s @ [g]\<rparr>) else None)"
| "signal_step s LoopReceives =
     (case sig_chan s of
        [] \<Rightarrow> None
      | g # gs \<Rightarrow>
          (let s1 = s\<lparr>sig_chan := gs, sig_received := sig_received s @ [g]\<rparr> in
           case sig_phase s of
             AwaitFirst \<Rightarrow>
               Some (if g = None then s1\<lparr>sig_phase := LoopEnded\<rparr>
                     else s1\<lparr>sig_phase := AwaitSecond, shutdown_cancelled := True\<rparr>)
           | AwaitSecond \<Rightarrow>
               Some (if g \<noteq> None then s1\<lparr>sig_phase := LoopEnded, force_exit := True\<rparr> else s1\<lparr>sig_phase := LoopEnded\<rparr>)
           | _ \<Rightarrow> None))"
| "signal_step s DeadlineElapses =
     (if sig_phase s = AwaitSecond then Some (s\<lparr>sig_phase := LoopEnded\<rparr>) else None)"

definition signal_inv :: "'g signal_controller \<Rightarrow> bool" where
  "signal_inv s \<longleftrightarrow>
     (case sig_phase s of
        NotStarted \<Rightarrow> sig_received s = [] \<and> \<not> shutdown_cancelled s \<and> \<not> force_exit s
      | AwaitFirst \<Rightarrow> sig_received s = [] \<and> \<not> shutdown_cancelled s \<and> \<not> force_exit s
      | AwaitSecond \<Rightarrow> (\<exists>g. sig_received s = [Some g]) \<and> shutdown_cancelled s \<and> \<not> force_exit s
      | LoopEnded \<Rightarrow>
          (sig_received s = [None] \<and> \<not> shutdown_cancelled s \<and> \<not> force_exit s) \<or>
          (\<exists>g. sig_received s = [Some g] \<and> shutdown_cancelled s \<and> \<not> force_exit s) \<or>
          (\<exists>g h. sig_received s = [Some g, h] \<and> shutdown_cancelled s \<and> (force_exit s \<longleftrightarrow> h \<noteq> None)))"

lemma signal_step_inv:
  assumes "signal_inv s" and "signal_step s e = Some t"
  shows "signal_inv t"
proof (cases e)
  case LoopReceives
  with assms obtain g gs where g: "sig_chan s = g # gs" by (cases "sig_chan s") auto
  show ?thesis
  proof (cases "sig_phase s")
    case AwaitFirst
    with assms LoopReceives g show ?thesis by (cases g) (auto simp: signal_inv_def Let_def)
  next
    case AwaitSecond
    with assms LoopReceives g show ?thesis by (cases g) (auto simp: signal_inv_def Let_def)
  qed (use assms LoopReceives g in \<open>simp_all add: Let_def\<close>)
next
  case SignalStart
  with assms show ?thesis by (auto simp: signal_inv_def start_signals_def)
next
  case SignalStop
  with assms show ?thesis by (auto simp: signal_inv_def stop_signals_def cong: loop_phase.case_cong)
next
  case DeadlineElapses
  with assms show ?thesis by (auto simp: signal_inv_def split: if_splits)
next
  case (SignalDelivered g)
  with assms have "t = s \<or> t = s\<lparr>sig_chan := sig_chan s @ [Some g]\<rparr>" by (auto split: if_splits)
  with assms(1) show ?thesis by (elim disjE) (simp_all add: signal_inv_def cong: loop_phase.case_cong)
next
  case (InjectSignal g)
  with assms have "t = s\<lparr>sig_chan := sig_chan s @ [g]\<rparr>" by (simp split: if_splits)
  with assms(1) show ?thesis by (simp add: signal_inv_def cong: loop_phase.case_cong)
qed

text \<open>The shutdown context is cancelled exactly if the first signal received is a real one, and an immediate exit is demanded exactly if
  a second one was received after it, before the deadline.\<close>

lemma signals_control_shutdown:
  assumes "run_events signal_step new_signal_controller es = Some s"
  shows "(shutdown_cancelled s \<longleftrightarrow> (\<exists>g gs. sig_received s = Some g # gs)) \<and>
    (force_exit s \<longleftrightarrow> (\<exists>g h. sig_received s = [Some g, Some h])) \<and> (force_exit s \<longrightarrow> shutdown_cancelled s)"
proof -
  have "signal_inv s"
    using assms by (rule run_events_inv) (auto intro: signal_step_inv, simp add: signal_inv_def new_signal_controller_def)
  then show ?thesis by (cases "sig_phase s") (auto simp: signal_inv_def)
qed

text \<open>After \<open>Stop\<close> the operating system's signals no longer reach the controller: without injected ones the shutdown state
  is settled by what is in the channel.\<close>

lemma stopped_undelivered: "signal_step (stop_signals s) (SignalDelivered g) = None"
  by (simp add: stop_signals_def)

text \<open>The deadline of \<open>ShutdownDeadlineContext\<close>, with the reading of the clock when it is called. It counts from the call, whenever
  the shutdown was triggered, so two calls give two deadlines.\<close>

definition shutdown_deadline_context :: "gotime option \<Rightarrow> gotime \<Rightarrow> duration \<Rightarrow> gotime option" where
  "shutdown_deadline_context parent now deadline = scope_with_timeout parent now deadline"

lemma shutdown_deadline_from_call:
  "t1 < t2 \<Longrightarrow> shutdown_deadline_context None t1 d \<noteq> shutdown_deadline_context None t2 d"
  by (simp add: shutdown_deadline_context_def scope_with_timeout_def)

text \<open>Once the loop has ended nobody receives any more: two further injected signals fill the channel, and a third waits for ever.\<close>

lemma injection_blocks_after_loop:
  "sig_phase s = LoopEnded \<Longrightarrow> length (sig_chan s) = 2 \<Longrightarrow>
   signal_step s (InjectSignal g) = None \<and> signal_step s LoopReceives = None"
  by (auto simp: Let_def split: list.split)


section \<open>Composition root\<close>

record app_config =
  app_port :: int
  app_shutdown_timeout :: duration

record 'h http_server =
  server_addr :: string
  server_handler :: 'h

text \<open>The only clean-up action is the shutdown of the server.\<close>

datatype app_cleanup = ShutdownServer

record 'h composition_root =
  root_config :: app_config
  root_deps :: "('h http_server \<times> app_cleanup shutdown_manager) option"

definition new_composition_root :: "app_config \<Rightarrow> 'h composition_root" where
  "new_composition_root cfg = \<lparr>root_config = cfg, root_deps = None\<rparr>"

datatype build_error = InvalidPort

definition build_root :: "'h composition_root \<Rightarrow> 'h \<Rightarrow> build_error option \<times> 'h composition_root" where
  "build_root c handler =
     (if app_port (root_config c) \<le> 0 then (Some InvalidPort, c)
      else
        (let timeout0 = app_shutdown_timeout (root_config c);
             timeout = (if timeout0 \<le> 0 then 5000000000 else timeout0);
             mgr = register_hook (new_shutdown_manager timeout) ''HTTP Server'' 100 ShutdownServer;
             srv = \<lparr>server_addr = '':'' @ itoa (app_port (root_config c)), server_handler = handler\<rparr>
         in (None, c\<lparr>root_deps := Some (srv, mgr)\<rparr>)))"

text \<open>What \<open>Start\<close> waits for: the end of its context, an error of the server, or the closing of the error channel, which
  happens when \<open>ListenAndServe\<close> returns without an error that counts.\<close>

datatype start_observation = StartCtxDone | ServerFailed string | ServerClosed

datatype start_result = NotBuilt | ShutdownFinished shutdown_result | ServerCrashed "string option"

definition start_root ::
  "(nat \<Rightarrow> ctx_err option) \<Rightarrow> (app_cleanup \<Rightarrow> string option) \<Rightarrow> 'h composition_root \<Rightarrow> start_observation \<Rightarrow>
   start_result \<times> app_cleanup shutdown_hook list \<times> 'h composition_root" where
  "start_root poll outcome c obs =
     (case root_deps c of
        None \<Rightarrow> (NotBuilt, [], c)
      | Some (srv, mgr) \<Rightarrow>
          (case obs of
             StartCtxDone \<Rightarrow>
               (let ((res, called), mgr1) = shutdown poll outcome mgr
                in (ShutdownFinished res, called, c\<lparr>root_deps := Some (srv, mgr1)\<rparr>))
           | ServerFailed e \<Rightarrow> (ServerCrashed (Some e), [], c)
           | ServerClosed \<Rightarrow> (ServerCrashed None, [], c)))"

text \<open>A built application whose context ends shuts its server down, once.\<close>

lemma start_shuts_server_down:
  assumes "build_root c handler = (None, c1)" and "poll 0 = None"
  shows "\<exists>res called c2. start_root poll outcome c1 StartCtxDone = (ShutdownFinished res, called, c2) \<and>
    map cleanup called = [ShutdownServer] \<and>
    res = (case outcome ShutdownServer of None \<Rightarrow> ShutdownOK | Some e \<Rightarrow> HooksFailed [(''HTTP Server'', e)])"
proof -
  from assms(1) obtain srv t where d: "root_deps c1 =
      Some (srv, register_hook (new_shutdown_manager t) ''HTTP Server'' 100 ShutdownServer)"
    by (auto simp: build_root_def Let_def split: if_splits)
  have "hooks (register_hook (new_shutdown_manager t) ''HTTP Server'' 100 ShutdownServer) =
      [\<lparr>hook_name = ''HTTP Server'', priority = 100, cleanup = ShutdownServer\<rparr>]"
    by (simp add: register_hook_def new_shutdown_manager_def)
  then show ?thesis
    using d assms(2)
    by (simp add: start_root_def shutdown_def sort_hooks_def register_hook_def new_shutdown_manager_def split: option.split)
qed

text \<open>If the server is closed in the regular way by somebody else, \<open>Start\<close> still reports a crash, with a nil cause.\<close>

lemma regular_close_reported_as_crash:
  "build_root c handler = (None, c1) \<Longrightarrow> fst (start_root poll outcome c1 ServerClosed) = ServerCrashed None"
  by (auto simp: build_root_def start_root_def Let_def split: if_splits)

end
