(* ===== verification/Product_Repository.thy ===== *)
theory Product_Repository
  imports Store_Contract
begin

text \<open>
  \<open>patterns/04_persistence/repository_pattern.go\<close>: the in-memory product repository, whose
  every call first waits for a simulated latency or the context, whichever comes first. What the
  call observes there is the argument \<open>delay_obs\<close>: whether the context is already done when
  it is polled (\<open>queryLatency <= 0\<close>), and which of the two cases the \<open>select\<close> takes
  otherwise. The repository copies products in and out, so a product is a plain value.
\<close>

record product =
  prod_id :: string
  prod_name :: string
  prod_price :: int
  prod_created_at :: gotime

datatype repo_error = ErrNotFound string | ErrInvalidProduct | ErrRepoCtx ctx_err

record product_repo =
  store :: "string \<rightharpoonup> product"
  query_latency :: duration

record delay_obs =
  done_at_poll :: "ctx_err option"
  done_first :: "ctx_err option"

definition new_product_repo :: "duration \<Rightarrow> product_repo" where
  "new_product_repo simulatedLatency = \<lparr>store = Map.empty, query_latency = simulatedLatency\<rparr>"

definition simulate_delay :: "product_repo \<Rightarrow> delay_obs \<Rightarrow> ctx_err option" where
  "simulate_delay r obs = (if query_latency r \<le> 0 then done_at_poll obs else done_first obs)"

text \<open>The defensive copy made on the way in and on the way out.\<close>

definition copy_product :: "product \<Rightarrow> product" where
  "copy_product p = \<lparr>prod_id = prod_id p, prod_name = prod_name p,
     prod_price = prod_price p, prod_created_at = prod_created_at p\<rparr>"

lemma copy_product_id [simp]: "copy_product p = p"
  by (simp add: copy_product_def)

definition find_by_id :: "product_repo \<Rightarrow> delay_obs \<Rightarrow> string \<Rightarrow> repo_error + product" where
  "find_by_id r obs i =
     (case simulate_delay r obs of
        Some e \<Rightarrow> Inl (ErrRepoCtx e)
      | None \<Rightarrow>
          (case store r i of
             None \<Rightarrow> Inl (ErrNotFound i)
           | Some p \<Rightarrow> Inr (copy_product p)))"

definition save_product ::
  "product_repo \<Rightarrow> delay_obs \<Rightarrow> product option \<Rightarrow> repo_error option \<times> product_repo" where
  "save_product r obs p =
     (case p of
        None \<Rightarrow> (Some ErrInvalidProduct, r)
      | Some q \<Rightarrow>
          if prod_id q = [] then (Some ErrInvalidProduct, r)
          else (case simulate_delay r obs of
                  Some e \<Rightarrow> (Some (ErrRepoCtx e), r)
                | None \<Rightarrow> (None, r\<lparr>store := (store r)(prod_id q \<mapsto> copy_product q)\<rparr>)))"

definition delete_product ::
  "product_repo \<Rightarrow> delay_obs \<Rightarrow> string \<Rightarrow> repo_error option \<times> product_repo" where
  "delete_product r obs i =
     (case simulate_delay r obs of
        Some e \<Rightarrow> (Some (ErrRepoCtx e), r)
      | None \<Rightarrow>
          if store r i = None then (Some (ErrNotFound i), r)
          else (None, r\<lparr>store := (store r)(i := None)\<rparr>))"

text \<open>The calls that change the repository, with what each observes of its context.\<close>

datatype repo_call = SaveCall delay_obs "product option" | DeleteCall delay_obs string

primrec repo_exec :: "product_repo \<Rightarrow> repo_call \<Rightarrow> repo_error option \<times> product_repo" where
  "repo_exec r (SaveCall obs p) = save_product r obs p"
| "repo_exec r (DeleteCall obs i) = delete_product r obs i"

fun repo_run :: "product_repo \<Rightarrow> repo_call list \<Rightarrow> repo_error option list \<times> product_repo" where
  "repo_run r [] = ([], r)"
| "repo_run r (c # cs) =
     (let (e, r1) = repo_exec r c; (es, r2) = repo_run r1 cs in (e # es, r2))"

text \<open>The specification sees the calls that returned no error, as operations on a map.\<close>

fun acknowledged :: "repo_call list \<Rightarrow> repo_error option list \<Rightarrow> (string, product) store_op list" where
  "acknowledged (SaveCall obs (Some p) # cs) (None # es) = Save p # acknowledged cs es"
| "acknowledged (DeleteCall obs i # cs) (None # es) = Remove i # acknowledged cs es"
| "acknowledged (c # cs) (e # es) = acknowledged cs es"
| "acknowledged cs es = []"

definition live :: delay_obs where
  "live = \<lparr>done_at_poll = None, done_first = None\<rparr>"

lemma simulate_delay_live [simp]: "simulate_delay r live = None"
  by (simp add: simulate_delay_def live_def)

lemma save_product_copy:
  "save_product r obs (Some q) =
     (if prod_id q = [] then (Some ErrInvalidProduct, r)
      else case simulate_delay r obs of
             Some e \<Rightarrow> (Some (ErrRepoCtx e), r)
           | None \<Rightarrow> (None, r\<lparr>store := (store r)(prod_id q \<mapsto> q)\<rparr>))"
  by (simp add: save_product_def split: option.split)

text \<open>A refused call changes nothing; an accepted one acts on the map as its specification.\<close>

lemma repo_exec_error: "repo_exec r c = (Some e, r') \<Longrightarrow> r' = r"
  by (cases c) (auto simp: save_product_def delete_product_def split: option.splits if_splits)

lemma save_ok: "save_product r obs p = (None, r') \<Longrightarrow>
  \<exists>q. p = Some q \<and> prod_id q \<noteq> [] \<and> store r' = (store r)(prod_id q \<mapsto> q)"
  by (cases p) (auto simp: save_product_copy save_product_def split: option.splits if_splits)

lemma delete_ok: "delete_product r obs i = (None, r') \<Longrightarrow>
  i \<in> dom (store r) \<and> store r' = (store r)(i := None)"
  by (auto simp: delete_product_def split: option.splits if_splits)

interpretation repo_store: deletable_store "\<lambda>r. True" store
  "\<lambda>r p. snd (save_product r live (Some p))" prod_id "\<lambda>p. p" "\<lambda>p. prod_id p \<noteq> []"
  "\<lambda>r i. snd (delete_product r live i)" "\<lambda>i. i"
  by unfold_locales (auto simp: save_product_copy delete_product_def)

text \<open>whatever calls are made, under whatever cancellations and latencies, the repository holds
  exactly the map that the acknowledged calls describe: a call that returned an error had no
  effect, and no acknowledged write is lost.\<close>

theorem repository_refines_map:
  "store (snd (repo_run r cs)) =
     foldl (spec_step prod_id (\<lambda>p. p) (\<lambda>i. i)) (store r) (acknowledged cs (fst (repo_run r cs)))"
proof (induction cs arbitrary: r)
  case Nil
  then show ?case by simp
next
  case (Cons c cs)
  obtain e r1 where c: "repo_exec r c = (e, r1)" by (cases "repo_exec r c")
  obtain es r2 where cs: "repo_run r1 cs = (es, r2)" by (cases "repo_run r1 cs")
  have IH: "store r2 = foldl (spec_step prod_id (\<lambda>p. p) (\<lambda>i. i)) (store r1) (acknowledged cs es)"
    using Cons [of r1] cs by simp
  show ?case
  proof (cases e)
    case None
    show ?thesis
    proof (cases c)
      case (SaveCall obs p)
      with None c obtain q where "p = Some q" "store r1 = (store r)(prod_id q \<mapsto> q)"
        using save_ok [of r obs p r1] by auto
      then show ?thesis using None SaveCall c cs IH by simp
    next
      case (DeleteCall obs i)
      with None c have "store r1 = (store r)(i := None)"
        using delete_ok [of r obs i r1] by simp
      then show ?thesis using None DeleteCall c cs IH by simp
    qed
  next
    case (Some err)
    then have "r1 = r" using repo_exec_error c by blast
    then show ?thesis using Some c cs IH by (cases c) auto
  qed
qed

lemma find_after_save_product:
  assumes "prod_id p \<noteq> []"
  shows "find_by_id (snd (save_product r live (Some p))) live (prod_id p) = Inr p"
  using repo_store.find_after_save [OF TrueI assms, of r] by (simp add: find_by_id_def)

end
