(* ===== verification/Reconciliation.thy ===== *)
theory Reconciliation
  imports Store_Contract
begin

text \<open>
  \<open>patterns/16_distributed/reconciliation.go\<close>: the engine that repairs a target store from a source of
  truth, for any stores behind the interface \<open>ReconciliationStore\<close> (\<open>recon_client\<close>), and the
  in-memory store. The engine's facts are proved under the contract \<open>recon_store\<close>, an extension of the
  repositories' contract by the reading of all records, and instantiated on the in-memory store. The
  errors of \<open>Upsert\<close> and \<open>Delete\<close> are discarded by the engine.
\<close>

record recon_record =
  rec_id :: string
  rec_version :: int
  rec_data :: string

record recon_report =
  missing_in_target :: "string list"
  mismatch_in_target :: "string list"
  orphans_in_target :: "string list"
  repaired_count :: int

record ('s, 'e) recon_client =
  get_all :: "'s \<Rightarrow> 'e + (string \<rightharpoonup> recon_record)"
  upsert_rec :: "'s \<Rightarrow> recon_record \<Rightarrow> 'e option \<times> 's"
  delete_rec :: "'s \<Rightarrow> string \<Rightarrow> 'e option \<times> 's"

type_synonym recon_memory = "string \<rightharpoonup> recon_record"

definition new_recon_memory :: recon_memory where
  "new_recon_memory = Map.empty"

definition memory_get_all :: "recon_memory \<Rightarrow> 'e + (string \<rightharpoonup> recon_record)" where
  "memory_get_all s = Inr s"

definition memory_upsert :: "recon_memory \<Rightarrow> recon_record \<Rightarrow> 'e option \<times> recon_memory" where
  "memory_upsert s r = (None, s(rec_id r \<mapsto> r))"

definition memory_delete :: "recon_memory \<Rightarrow> string \<Rightarrow> 'e option \<times> recon_memory" where
  "memory_delete s i = (None, s(i := None))"

definition memory_recon :: "(recon_memory, 'e) recon_client" where
  "memory_recon = \<lparr>get_all = memory_get_all, upsert_rec = memory_upsert, delete_rec = memory_delete\<rparr>"

definition empty_report :: recon_report where
  "empty_report = \<lparr>missing_in_target = [], mismatch_in_target = [], orphans_in_target = [], repaired_count = 0\<rparr>"

text \<open>The body of the loop over the source's records.\<close>

definition outdated :: "recon_record \<Rightarrow> recon_record \<Rightarrow> bool" where
  "outdated tgtRec srcRec \<longleftrightarrow> rec_version tgtRec < rec_version srcRec \<or> rec_data tgtRec \<noteq> rec_data srcRec"

definition repair_record ::
  "('t, 'e) recon_client \<Rightarrow> (string \<rightharpoonup> recon_record) \<Rightarrow> (string \<rightharpoonup> recon_record)
    \<Rightarrow> recon_report \<times> 't \<Rightarrow> string \<Rightarrow> recon_report \<times> 't" where
  "repair_record T src tgt rt i =
     (case (rt, src i) of
        ((rep, t), None) \<Rightarrow> (rep, t)
      | ((rep, t), Some srcRec) \<Rightarrow>
          (case tgt i of
             None \<Rightarrow>
               (rep\<lparr>missing_in_target := missing_in_target rep @ [i], repaired_count := i64 (repaired_count rep + 1)\<rparr>,
                snd (upsert_rec T t srcRec))
           | Some tgtRec \<Rightarrow>
               if outdated tgtRec srcRec then
                 (rep\<lparr>mismatch_in_target := mismatch_in_target rep @ [i], repaired_count := i64 (repaired_count rep + 1)\<rparr>,
                  snd (upsert_rec T t srcRec))
               else (rep, t)))"

text \<open>The body of the loop over the target's records.\<close>

definition remove_orphan ::
  "('t, 'e) recon_client \<Rightarrow> (string \<rightharpoonup> recon_record) \<Rightarrow> recon_report \<times> 't \<Rightarrow> string \<Rightarrow> recon_report \<times> 't" where
  "remove_orphan T src rt i =
     (case (rt, src i) of
        ((rep, t), Some _) \<Rightarrow> (rep, t)
      | ((rep, t), None) \<Rightarrow>
          (rep\<lparr>orphans_in_target := orphans_in_target rep @ [i], repaired_count := i64 (repaired_count rep + 1)\<rparr>,
           snd (delete_rec T t i)))"

text \<open>\<open>ks\<close> and \<open>js\<close> are the orders in which the two copies are visited.\<close>

definition reconcile ::
  "('s, 'e) recon_client \<Rightarrow> ('t, 'e) recon_client \<Rightarrow> 's \<Rightarrow> 't \<Rightarrow> string list \<Rightarrow> string list \<Rightarrow> ('e + recon_report) \<times> 't" where
  "reconcile S T s t ks js =
     (case get_all S s of
        Inl err \<Rightarrow> (Inl err, t)
      | Inr sourceRecords \<Rightarrow>
          (case get_all T t of
             Inl err \<Rightarrow> (Inl err, t)
           | Inr targetRecords \<Rightarrow>
               (let rt = foldl (repair_record T sourceRecords targetRecords) (empty_report, t) ks;
                    (rep, t1) = foldl (remove_orphan T sourceRecords) rt js
                in (Inr rep, t1))))"


section \<open>The contract, and what the engine does with it\<close>

text \<open>What the target should hold: the source's record, except that a target record with the same data and a
  version that is not older stays.\<close>

definition reconciled :: "(string \<rightharpoonup> recon_record) \<Rightarrow> (string \<rightharpoonup> recon_record) \<Rightarrow> (string \<rightharpoonup> recon_record)" where
  "reconciled src tgt = (\<lambda>i.
     case src i of None \<Rightarrow> None
     | Some srcRec \<Rightarrow>
         (case tgt i of
            Some tgtRec \<Rightarrow> if outdated tgtRec srcRec then Some srcRec else Some tgtRec
          | None \<Rightarrow> Some srcRec))"

definition filed :: "(string \<rightharpoonup> recon_record) \<Rightarrow> bool" where
  "filed m \<longleftrightarrow> (\<forall>i r. m i = Some r \<longrightarrow> rec_id r = i)"

definition needs_repair :: "(string \<rightharpoonup> recon_record) \<Rightarrow> (string \<rightharpoonup> recon_record) \<Rightarrow> string \<Rightarrow> bool" where
  "needs_repair src tgt i \<longleftrightarrow> (case (src i, tgt i) of
     (Some srcRec, None) \<Rightarrow> True
   | (Some srcRec, Some tgtRec) \<Rightarrow> outdated tgtRec srcRec
   | _ \<Rightarrow> False)"

lemma reconciled_stable: "reconciled src (reconciled src tgt) = reconciled src tgt"
  by (rule ext) (auto simp: reconciled_def outdated_def split: option.splits)

lemma reconciled_no_repair: "\<not> needs_repair src (reconciled src tgt) i"
  by (auto simp: reconciled_def needs_repair_def outdated_def split: option.splits)

lemma dom_reconciled: "dom (reconciled src tgt) = dom src"
  by (auto simp: reconciled_def split: option.splits if_splits)

text \<open>The counter is the number of listed repairs, and the lists are what their names say; this does not depend on
  the store.\<close>

definition counted :: "recon_report \<Rightarrow> bool" where
  "counted rep \<longleftrightarrow> repaired_count rep
     = i64 (int (length (missing_in_target rep) + length (mismatch_in_target rep) + length (orphans_in_target rep)))"

lemma counted_repair: "counted (fst x) \<Longrightarrow> counted (fst (repair_record T src tgt x i))"
  by (cases x) (auto simp: counted_def repair_record_def i64_add_left i64_add_right ac_simps split: option.splits)

lemma counted_remove: "counted (fst x) \<Longrightarrow> counted (fst (remove_orphan T src x i))"
  by (cases x) (auto simp: counted_def remove_orphan_def i64_add_left i64_add_right ac_simps split: option.splits)

definition missing_of :: "(string \<rightharpoonup> recon_record) \<Rightarrow> (string \<rightharpoonup> recon_record) \<Rightarrow> string list \<Rightarrow> string list" where
  "missing_of src tgt ks = filter (\<lambda>i. src i \<noteq> None \<and> tgt i = None) ks"

definition mismatch_of :: "(string \<rightharpoonup> recon_record) \<Rightarrow> (string \<rightharpoonup> recon_record) \<Rightarrow> string list \<Rightarrow> string list" where
  "mismatch_of src tgt ks = filter (\<lambda>i. tgt i \<noteq> None \<and> needs_repair src tgt i) ks"

definition orphans_of :: "(string \<rightharpoonup> recon_record) \<Rightarrow> string list \<Rightarrow> string list" where
  "orphans_of src js = filter (\<lambda>i. src i = None) js"

lemmas listed_defs = missing_of_def mismatch_of_def orphans_of_def needs_repair_def

lemma repair_lists:
  "missing_in_target (fst (foldl (repair_record T src tgt) x ks)) = missing_in_target (fst x) @ missing_of src tgt ks
   \<and> mismatch_in_target (fst (foldl (repair_record T src tgt) x ks)) = mismatch_in_target (fst x) @ mismatch_of src tgt ks
   \<and> orphans_in_target (fst (foldl (repair_record T src tgt) x ks)) = orphans_in_target (fst x)"
proof (induction ks arbitrary: x)
  case Nil
  then show ?case by (simp add: listed_defs)
next
  case (Cons k ks)
  have "missing_in_target (fst (repair_record T src tgt x k)) = missing_in_target (fst x) @ missing_of src tgt [k]
    \<and> mismatch_in_target (fst (repair_record T src tgt x k)) = mismatch_in_target (fst x) @ mismatch_of src tgt [k]
    \<and> orphans_in_target (fst (repair_record T src tgt x k)) = orphans_in_target (fst x)"
    by (cases x) (auto simp: repair_record_def listed_defs split: option.splits)
  then show ?case using Cons.IH [of "repair_record T src tgt x k"]
    by (simp add: missing_of_def mismatch_of_def)
qed

lemma remove_lists:
  "orphans_in_target (fst (foldl (remove_orphan T src) x js)) = orphans_in_target (fst x) @ orphans_of src js
   \<and> missing_in_target (fst (foldl (remove_orphan T src) x js)) = missing_in_target (fst x)
   \<and> mismatch_in_target (fst (foldl (remove_orphan T src) x js)) = mismatch_in_target (fst x)"
proof (induction js arbitrary: x)
  case Nil
  then show ?case by (simp add: listed_defs)
next
  case (Cons k js)
  have "orphans_in_target (fst (remove_orphan T src x k)) = orphans_in_target (fst x) @ orphans_of src [k]
    \<and> missing_in_target (fst (remove_orphan T src x k)) = missing_in_target (fst x)
    \<and> mismatch_in_target (fst (remove_orphan T src x k)) = mismatch_in_target (fst x)"
    by (cases x) (auto simp: remove_orphan_def listed_defs split: option.splits)
  then show ?case using Cons.IH [of "remove_orphan T src x k"] by (simp add: orphans_of_def)
qed

locale recon_store = deletable_store ok view "\<lambda>t r. snd (upsert_rec T t r)" rec_id "\<lambda>r. r" "\<lambda>r. True"
    "\<lambda>t i. snd (delete_rec T t i)" "\<lambda>i. i"
  for ok :: "'t \<Rightarrow> bool" and view :: "'t \<Rightarrow> string \<rightharpoonup> recon_record" and T :: "('t, 'e) recon_client" +
  assumes reads_all: "ok t \<Longrightarrow> get_all T t = Inr (view t)"
begin

lemma repair_step:
  assumes "ok (snd x)" and "filed src"
  shows "ok (snd (repair_record T src tgt x k)) \<and> view (snd (repair_record T src tgt x k))
    = (if needs_repair src tgt k then (view (snd x))(k := src k) else view (snd x))"
proof (cases "src k")
  case None
  with assms show ?thesis by (cases x) (simp add: repair_record_def needs_repair_def)
next
  case (Some s)
  with assms(2) have "rec_id s = k" by (simp add: filed_def)
  with Some assms(1) view_save ok_save show ?thesis
    by (cases x) (auto simp: repair_record_def needs_repair_def split: option.splits)
qed

lemma repair_loop:
  "ok (snd x) \<Longrightarrow> filed src \<Longrightarrow>
    ok (snd (foldl (repair_record T src tgt) x ks))
    \<and> view (snd (foldl (repair_record T src tgt) x ks))
        = (\<lambda>i. if i \<in> set ks \<and> needs_repair src tgt i then src i else view (snd x) i)"
proof (induction ks arbitrary: x)
  case Nil
  then show ?case by simp
next
  case (Cons k ks)
  note st = repair_step [OF Cons.prems, of tgt k]
  show ?case using Cons.IH [of "repair_record T src tgt x k"] st Cons.prems(2) by (auto simp: fun_eq_iff)
qed

lemma remove_step:
  assumes "ok (snd x)"
  shows "ok (snd (remove_orphan T src x k)) \<and> view (snd (remove_orphan T src x k))
    = (if src k = None then (view (snd x))(k := None) else view (snd x))"
  using assms view_remove ok_remove by (cases x) (auto simp: remove_orphan_def split: option.splits)

lemma remove_loop:
  "ok (snd x) \<Longrightarrow>
    ok (snd (foldl (remove_orphan T src) x js))
    \<and> view (snd (foldl (remove_orphan T src) x js)) = (\<lambda>i. if i \<in> set js \<and> src i = None then None else view (snd x) i)"
proof (induction js arbitrary: x)
  case Nil
  then show ?case by simp
next
  case (Cons k js)
  note st = remove_step [OF Cons.prems, of src k]
  show ?case using Cons.IH [of "remove_orphan T src x k"] st by (auto simp: fun_eq_iff)
qed

lemma reconcile_result:
  assumes "get_all S s = Inr src" and "filed src" and "ok t" and "iter_order ks src" and "iter_order js (view t)"
  shows "\<exists>rep t1. reconcile S T s t ks js = (Inr rep, t1) \<and> ok t1 \<and> view t1 = reconciled src (view t) \<and> counted rep
    \<and> missing_in_target rep = missing_of src (view t) ks \<and> mismatch_in_target rep = mismatch_of src (view t) ks
    \<and> orphans_in_target rep = orphans_of src js"
proof -
  let ?x = "foldl (repair_record T src (view t)) (empty_report, t) ks"
  let ?y = "foldl (remove_orphan T src) ?x js"
  have ks: "set ks = dom src" and js: "set js = dom (view t)" using iter_orderD(2) assms(4,5) by blast+
  have x: "ok (snd ?x)" "view (snd ?x) = (\<lambda>i. if i \<in> set ks \<and> needs_repair src (view t) i then src i else view t i)"
    using repair_loop [of "(empty_report, t)" src "view t" ks] assms(2,3) by (simp_all cong: if_cong)
  have "view (snd ?y) = reconciled src (view t)"
    using remove_loop [OF x(1), of src js] x(2) ks js
    by (auto simp: fun_eq_iff reconciled_def needs_repair_def split: option.splits)
  moreover have "ok (snd ?y)" using remove_loop [OF x(1)] by blast
  moreover have "counted (fst ?x)"
    by (rule foldl_inv [where I = "\<lambda>x. counted (fst x)"])
      (auto simp: counted_repair, simp add: counted_def empty_report_def i64_def)
  then have "counted (fst ?y)"
    by (rule foldl_inv [where I = "\<lambda>x. counted (fst x)"]) (rule counted_remove)
  moreover have "reconcile S T s t ks js = (Inr (fst ?y), snd ?y)"
    by (simp add: reconcile_def assms(1) reads_all [OF assms(3)] Let_def split: prod.split)
  ultimately show ?thesis
    using repair_lists [of T src "view t" "(empty_report, t)" ks] remove_lists [of T src ?x js]
    by (simp add: empty_report_def)
qed

lemma reconcile_again:
  assumes "get_all S s = Inr src" and "filed src" and "ok t" and "iter_order ks src" and "view t = reconciled src tgt"
    and "iter_order js (view t)"
  shows "\<exists>t1. reconcile S T s t ks js = (Inr empty_report, t1) \<and> view t1 = view t"
proof -
  obtain rep t1 where r: "reconcile S T s t ks js = (Inr rep, t1)" "view t1 = reconciled src (view t)" "counted rep"
    "missing_in_target rep = missing_of src (view t) ks" "mismatch_in_target rep = mismatch_of src (view t) ks"
    "orphans_in_target rep = orphans_of src js"
    using reconcile_result [OF assms(1-4,6)] by blast
  have js: "set js = dom src" using iter_orderD(2) [OF assms(6)] by (simp add: assms(5) dom_reconciled)
  have "missing_of src (view t) ks = []" "orphans_of src js = []" "mismatch_of src (view t) ks = []"
    using js reconciled_no_repair [of src tgt] dom_reconciled [of src tgt]
    by (auto simp: missing_of_def orphans_of_def mismatch_of_def filter_empty_conv assms(5))
  with r(3-6) have "rep = empty_report" by (cases rep) (simp add: empty_report_def counted_def i64_def)
  with r(1,2) show ?thesis by (simp add: assms(5) reconciled_stable)
qed

end

interpretation mem_recon: recon_store "\<lambda>s. True" "\<lambda>s. s" memory_recon
  by unfold_locales (auto simp: memory_recon_def memory_upsert_def memory_delete_def memory_get_all_def)


section \<open>Convergence\<close>

definition reconcile_memory ::
  "recon_memory \<Rightarrow> recon_memory \<Rightarrow> string list \<Rightarrow> string list \<Rightarrow> (string + recon_report) \<times> recon_memory" where
  "reconcile_memory = reconcile memory_recon memory_recon"

lemma filed_upsert: "filed s \<Longrightarrow> filed (snd (memory_upsert s r))"
  by (simp add: filed_def memory_upsert_def)

lemma filed_delete: "filed s \<Longrightarrow> filed (snd (memory_delete s i))"
  by (simp add: filed_def memory_delete_def)

text \<open>C33: reconciliation converges in one pass. For in-memory stores (the source filing its records under their
  ids), in whatever orders the maps are visited: the report lists, in those orders, exactly the ids that were missing in the target, those
  whose record had an older version or other data, and those the source does not have, and counts them all; the target then
  holds exactly the source's ids, the source's record for every id listed as missing or mismatched, and its own
  old record for the others, which has the source's data under a version that is not older; and a second pass
  repairs nothing and changes nothing.\<close>

theorem reconcile_converges:
  assumes "filed src" and "iter_order ks src" and "iter_order js tgt"
  shows "\<exists>rep t1. reconcile_memory src tgt ks js = (Inr rep, t1)
    \<and> missing_in_target rep = filter (\<lambda>i. i \<notin> dom tgt) ks
    \<and> mismatch_in_target rep = filter (\<lambda>i. \<exists>r u. src i = Some r \<and> tgt i = Some u
         \<and> (rec_version u < rec_version r \<or> rec_data u \<noteq> rec_data r)) ks
    \<and> orphans_in_target rep = filter (\<lambda>i. i \<notin> dom src) js
    \<and> repaired_count rep = i64 (int (length (missing_in_target rep) + length (mismatch_in_target rep) + length (orphans_in_target rep)))
    \<and> dom t1 = dom src
    \<and> (\<forall>i \<in> dom src. t1 i = (if i \<in> set (missing_in_target rep) \<union> set (mismatch_in_target rep) then src i else tgt i))
    \<and> (\<forall>i r. src i = Some r \<longrightarrow> (\<exists>u. t1 i = Some u \<and> rec_data u = rec_data r \<and> rec_version r \<le> rec_version u))
    \<and> (\<forall>js2. iter_order js2 t1 \<longrightarrow>
        reconcile_memory src t1 ks js2 = (Inr empty_report, t1))"
proof -
  have g: "get_all (memory_recon :: (recon_memory, string) recon_client) src = Inr src" by (simp add: memory_recon_def memory_get_all_def)
  obtain rep t1 where r: "reconcile_memory src tgt ks js = (Inr rep, t1)" "t1 = reconciled src tgt" "counted rep"
    "missing_in_target rep = missing_of src tgt ks" "mismatch_in_target rep = mismatch_of src tgt ks"
    "orphans_in_target rep = orphans_of src js"
    using mem_recon.reconcile_result [OF g assms(1) TrueI assms(2,3)] unfolding reconcile_memory_def by blast
  note ks = iter_orderD(2) [OF assms(2)]
  have missing: "missing_in_target rep = filter (\<lambda>i. i \<notin> dom tgt) ks"
    using ks by (auto simp: r(4) missing_of_def intro!: filter_cong)
  have mismatch: "mismatch_in_target rep = filter (\<lambda>i. \<exists>r u. src i = Some r \<and> tgt i = Some u
      \<and> (rec_version u < rec_version r \<or> rec_data u \<noteq> rec_data r)) ks"
    unfolding r(5) mismatch_of_def by (intro filter_cong refl) (auto simp: needs_repair_def outdated_def split: option.splits)
  have orphans: "orphans_in_target rep = filter (\<lambda>i. i \<notin> dom src) js"
    by (auto simp: r(6) orphans_of_def intro!: filter_cong)
  have "t1 i = (if i \<in> set (missing_in_target rep) \<union> set (mismatch_in_target rep) then src i else tgt i)" if "i \<in> dom src" for i
    using that ks by (auto simp: r(2) missing mismatch reconciled_def outdated_def split: option.splits)
  moreover have "\<forall>i r. src i = Some r \<longrightarrow> (\<exists>u. t1 i = Some u \<and> rec_data u = rec_data r \<and> rec_version r \<le> rec_version u)"
    by (auto simp: r(2) reconciled_def outdated_def split: option.splits)
  moreover have "reconcile_memory src t1 ks js2 = (Inr empty_report, t1)" if "iter_order js2 t1" for js2
    using mem_recon.reconcile_again [OF g assms(1) TrueI assms(2) r(2) that] unfolding reconcile_memory_def by auto
  moreover have "dom t1 = dom src" by (simp add: r(2) dom_reconciled)
  ultimately show ?thesis using r(1,3) missing mismatch orphans unfolding counted_def by blast
qed

definition demo_record :: "string \<Rightarrow> int \<Rightarrow> recon_record" where
  "demo_record i v = \<lparr>rec_id = i, rec_version = v, rec_data = i\<rparr>"

text \<open>The drift of the repository's test: a record that is outdated, one that is missing and an orphan.\<close>

theorem reconcile_converges_witness:
  "\<exists>rep t1. reconcile_memory [''a'' \<mapsto> demo_record ''a'' 2, ''n'' \<mapsto> demo_record ''n'' 1]
        [''b'' \<mapsto> demo_record ''b'' 1, ''a'' \<mapsto> demo_record ''a'' 1] [''a'', ''n''] [''a'', ''b''] = (Inr rep, t1)
     \<and> missing_in_target rep = [''n''] \<and> mismatch_in_target rep = [''a''] \<and> orphans_in_target rep = [''b'']
     \<and> repaired_count rep = 3 \<and> dom t1 = {''a'', ''n''}"
proof -
  let ?a = "[''a'' \<mapsto> demo_record ''a'' 2, ''n'' \<mapsto> demo_record ''n'' 1]"
  let ?b = "[''b'' \<mapsto> demo_record ''b'' 1, ''a'' \<mapsto> demo_record ''a'' 1]"
  have h: "filed ?a" "iter_order [''a'', ''n''] ?a" "iter_order [''a'', ''b''] ?b"
    by (auto simp: filed_def iter_order_def demo_record_def split: if_splits)
  obtain rep t1 where r: "reconcile_memory ?a ?b [''a'', ''n''] [''a'', ''b''] = (Inr rep, t1)"
    "missing_in_target rep = filter (\<lambda>i. i \<notin> dom ?b) [''a'', ''n'']"
    "mismatch_in_target rep = filter (\<lambda>i. \<exists>r u. ?a i = Some r \<and> ?b i = Some u
         \<and> (rec_version u < rec_version r \<or> rec_data u \<noteq> rec_data r)) [''a'', ''n'']"
    "orphans_in_target rep = filter (\<lambda>i. i \<notin> dom ?a) [''a'', ''b'']"
    "repaired_count rep = i64 (int (length (missing_in_target rep) + length (mismatch_in_target rep) + length (orphans_in_target rep)))"
    "dom t1 = dom ?a"
    using reconcile_converges [OF h] by blast
  then have l: "missing_in_target rep = [''n'']" "mismatch_in_target rep = [''a'']" "orphans_in_target rep = [''b'']"
    by (simp_all add: demo_record_def)
  then have "repaired_count rep = 3" using r(5) by (simp add: i64_def)
  with r(1,6) l show ?thesis by auto
qed

end
