(* ===== verification/Safe_Paths.thy ===== *)
theory Safe_Paths
  imports Go_Strings
begin

text \<open>
  \<open>patterns/19_security/path_traversal.go\<close>, with the parts of \<open>path/filepath\<close> that it uses, on a Unix system: \<open>Clean\<close>,
  \<open>IsAbs\<close>, \<open>Join\<close>, \<open>Abs\<close> and \<open>Rel\<close>. \<open>Clean\<close> is written on the elements between the slashes. The working
  directory is an argument, which is missing if \<open>os.Getwd\<close> fails.
\<close>


section \<open>Lexical paths\<close>

definition dot_byte :: string where "dot_byte = ''.''"
definition dotdot :: string where "dotdot = ''..''"

definition is_abs :: "string \<Rightarrow> bool" where
  "is_abs p \<longleftrightarrow> has_prefix p ''/''"

text \<open>One element of \<open>Clean\<close>; the stack is the output so far, innermost element first.\<close>

definition clean_elem :: "bool \<Rightarrow> string list \<Rightarrow> string \<Rightarrow> string list" where
  "clean_elem rooted out e =
     (if e = [] \<or> e = dot_byte then out
      else if e = dotdot then
        (case out of
           [] \<Rightarrow> if rooted then [] else [dotdot]
         | x # xs \<Rightarrow> if x = dotdot then dotdot # out else xs)
      else e # out)"

definition clean_elems :: "bool \<Rightarrow> string list \<Rightarrow> string list" where
  "clean_elems rooted es = rev (foldl (clean_elem rooted) [] es)"

definition clean_path :: "string \<Rightarrow> string" where
  "clean_path p =
     (let es = clean_elems (is_abs p) (split_on (CHR ''/'') p) in
      if is_abs p then ''/'' @ join_with (CHR ''/'') es
      else if es = [] then dot_byte
      else join_with (CHR ''/'') es)"

text \<open>\<open>Join\<close> of two elements, and \<open>Abs\<close>.\<close>

definition join_path :: "string \<Rightarrow> string \<Rightarrow> string" where
  "join_path a b =
     (if a \<noteq> [] then clean_path (a @ ''/'' @ b) else if b \<noteq> [] then clean_path b else [])"

definition abs_path :: "string option \<Rightarrow> string \<Rightarrow> string option" where
  "abs_path wd p = (if is_abs p then Some (clean_path p) else map_option (\<lambda>d. join_path d p) wd)"

text \<open>\<open>Rel\<close>: elements in common are dropped, what is left of the base is climbed.\<close>

definition path_elems :: "string \<Rightarrow> string list" where
  "path_elems p = filter (\<lambda>e. e \<noteq> []) (split_on (CHR ''/'') p)"

fun strip_common :: "string list \<Rightarrow> string list \<Rightarrow> string list \<times> string list" where
  "strip_common (b # bs) (t # ts) = (if b = t then strip_common bs ts else (b # bs, t # ts))"
| "strip_common bs ts = (bs, ts)"

definition rel_path :: "string \<Rightarrow> string \<Rightarrow> string option" where
  "rel_path basepath targpath =
     (let base = clean_path basepath; targ = clean_path targpath in
      if targ = base then Some dot_byte
      else if is_abs base \<noteq> is_abs targ then None
      else (case strip_common (if base = dot_byte then [] else path_elems base) (path_elems targ) of
              ([], ts) \<Rightarrow> Some (join_with (CHR ''/'') ts)
            | (b # bs, ts) \<Rightarrow>
                if b = dotdot then None
                else Some (join_with (CHR ''/'') (replicate (length (b # bs)) dotdot @ ts))))"


section \<open>\<open>SafeJoinPath\<close>\<close>

datatype path_error = InvalidNullByte | InvalidBase | PathTraversalDetected string

definition safe_join_path :: "string option \<Rightarrow> string \<Rightarrow> string \<Rightarrow> path_error + string" where
  "safe_join_path wd baseDir userSubpath =
     (if CHR 0x00 \<in> set userSubpath then Inl InvalidNullByte
      else case abs_path wd (clean_path baseDir) of
             None \<Rightarrow> Inl InvalidBase
           | Some absBase \<Rightarrow>
               (let cleanedSub = clean_path userSubpath in
                if has_prefix cleanedSub dotdot \<or> is_abs userSubpath \<or> has_prefix userSubpath ''/''
                then Inl (PathTraversalDetected userSubpath)
                else
                  (let joined = join_path absBase cleanedSub in
                   case rel_path absBase joined of
                     None \<Rightarrow> Inl (PathTraversalDetected userSubpath)
                   | Some rel \<Rightarrow>
                       if has_prefix rel dotdot then Inl (PathTraversalDetected userSubpath) else Inr joined)))"


section \<open>Clean paths\<close>

definition real_elem :: "string \<Rightarrow> bool" where
  "real_elem e \<longleftrightarrow> e \<noteq> [] \<and> e \<noteq> dot_byte \<and> e \<noteq> dotdot \<and> CHR ''/'' \<notin> set e"

definition rooted_path :: "string list \<Rightarrow> string" where
  "rooted_path es = ''/'' @ join_with (CHR ''/'') es"

lemma split_no_sep: "e \<in> set (split_on c s) \<Longrightarrow> c \<notin> set e"
proof (induction s arbitrary: e)
  case (Cons x xs)
  obtain p ps where p: "split_on c xs = p # ps" by (cases "split_on c xs") auto
  with Cons show ?case by (auto split: if_splits)
qed simp

lemma split_join: "es \<noteq> [] \<Longrightarrow> \<forall>e \<in> set es. c \<notin> set e \<Longrightarrow> split_on c (join_with c es) = es"
  by (induction c es rule: join_with.induct) auto

lemma split_append: "split_on c (a @ c # b) = split_on c a @ split_on c b"
proof (induction a)
  case (Cons x xs)
  obtain p ps where "split_on c xs = p # ps" by (cases "split_on c xs") auto
  with Cons show ?case by auto
qed simp

lemma clean_real: "\<forall>e \<in> set es. real_elem e \<Longrightarrow> foldl (clean_elem r) out es = rev es @ out"
  by (induction es arbitrary: out) (auto simp: clean_elem_def real_elem_def)

text \<open>A rooted path has only real elements; a relative one has some \<open>..\<close> in front of them.\<close>

lemma clean_rooted_real:
  "\<forall>e \<in> set out. real_elem e \<Longrightarrow> \<forall>e \<in> set es. CHR ''/'' \<notin> set e \<Longrightarrow>
   \<forall>e \<in> set (foldl (clean_elem True) out es). real_elem e"
proof (induction es arbitrary: out)
  case (Cons e es)
  have "\<forall>x \<in> set (clean_elem True out e). real_elem x"
    using Cons.prems by (auto simp: clean_elem_def real_elem_def split: list.splits)
  with Cons show ?case by simp
qed simp

definition climbing :: "string list \<Rightarrow> bool" where
  "climbing out \<longleftrightarrow> (\<exists>n rs. out = rs @ replicate n dotdot \<and> (\<forall>e \<in> set rs. real_elem e))"

lemma climbing_elem:
  assumes "climbing out" and "CHR ''/'' \<notin> set e"
  shows "climbing (clean_elem False out e)"
proof -
  from assms(1) obtain n rs where out: "out = rs @ replicate n dotdot" and rs: "\<forall>x \<in> set rs. real_elem x"
    by (auto simp: climbing_def)
  consider "e = [] \<or> e = dot_byte" | "e = dotdot" | "real_elem e"
    using assms(2) by (auto simp: real_elem_def)
  then show ?thesis
  proof cases
    case 1
    with assms(1) show ?thesis by (auto simp: clean_elem_def)
  next
    case 2
    then have ne: "\<not> (e = [] \<or> e = dot_byte)" by (simp add: dot_byte_def dotdot_def)
    show ?thesis
    proof (cases rs)
      case Nil
      then have "clean_elem False out e = [] @ replicate (Suc n) dotdot"
        using 2 ne out by (cases n) (simp_all add: clean_elem_def)
      then show ?thesis unfolding climbing_def by (metis empty_iff list.set(1))
    next
      case (Cons x xs)
      then have "clean_elem False out e = xs @ replicate n dotdot"
        using 2 ne out rs by (auto simp: clean_elem_def real_elem_def)
      with rs Cons show ?thesis unfolding climbing_def by (metis list.set_intros(2))
    qed
  next
    case 3
    then have "clean_elem False out e = (e # rs) @ replicate n dotdot"
      by (simp add: clean_elem_def out real_elem_def)
    moreover have "\<forall>x \<in> set (e # rs). real_elem x" using 3 rs by simp
    ultimately show ?thesis unfolding climbing_def by blast
  qed
qed

lemma clean_relative_climbing:
  "climbing out \<Longrightarrow> \<forall>e \<in> set es. CHR ''/'' \<notin> set e \<Longrightarrow> climbing (foldl (clean_elem False) out es)"
  by (induction es arbitrary: out) (auto intro: climbing_elem)

lemma clean_abs:
  assumes "is_abs p"
  obtains es where "clean_path p = rooted_path es" and "\<forall>e \<in> set es. real_elem e"
proof -
  have "\<forall>e \<in> set (foldl (clean_elem True) [] (split_on (CHR ''/'') p)). real_elem e"
    by (rule clean_rooted_real) (auto dest: split_no_sep)
  then show thesis
    using that [of "clean_elems True (split_on (CHR ''/'') p)"] assms
    by (simp add: clean_path_def clean_elems_def rooted_path_def)
qed

lemma join_dotdot_prefix: "has_prefix (join_with (CHR ''/'') (dotdot # es)) dotdot"
  by (cases es) (simp_all add: has_prefix_iff)

lemma clean_relative:
  assumes "\<not> is_abs p" and "\<not> has_prefix (clean_path p) dotdot"
  obtains es where "clean_path p = (if es = [] then dot_byte else join_with (CHR ''/'') es)" and "\<forall>e \<in> set es. real_elem e"
proof -
  let ?f = "foldl (clean_elem False) [] (split_on (CHR ''/'') p)"
  have c0: "climbing []" unfolding climbing_def by (rule exI [of _ 0]) simp
  have "climbing ?f" by (rule clean_relative_climbing [OF c0]) (auto dest: split_no_sep)
  then obtain n rs where f: "?f = rs @ replicate n dotdot" and rs: "\<forall>e \<in> set rs. real_elem e"
    by (auto simp: climbing_def)
  have es: "clean_elems False (split_on (CHR ''/'') p) = replicate n dotdot @ rev rs"
    by (simp add: clean_elems_def f)
  have "n = 0"
  proof (rule ccontr)
    assume "n \<noteq> 0"
    then obtain m where "n = Suc m" by (cases n) auto
    then have "clean_path p = join_with (CHR ''/'') (dotdot # replicate m dotdot @ rev rs)"
      using assms(1) es by (simp add: clean_path_def Let_def)
    with assms(2) join_dotdot_prefix show False by metis
  qed
  then show thesis
    using that [of "rev rs"] es rs assms(1) by (simp add: clean_path_def Let_def)
qed

lemma rooted_abs [simp]: "is_abs (rooted_path es)"
  by (simp add: is_abs_def rooted_path_def)

lemma real_no_sep: "\<forall>e \<in> set es. real_elem e \<Longrightarrow> \<forall>e \<in> set es. CHR ''/'' \<notin> set e"
  by (simp add: real_elem_def)

lemma split_rooted:
  assumes "\<forall>e \<in> set es. real_elem e"
  shows "split_on (CHR ''/'') (rooted_path es) = [] # (if es = [] then [[]] else es)"
  using split_join [of es "CHR ''/''"] real_no_sep [OF assms] by (cases "es = []") (simp_all add: rooted_path_def)

lemma clean_rooted: "\<forall>e \<in> set es. real_elem e \<Longrightarrow> clean_path (rooted_path es) = rooted_path es"
proof -
  assume es: "\<forall>e \<in> set es. real_elem e"
  have "clean_elems True (split_on (CHR ''/'') (rooted_path es)) = es"
    using clean_real [OF es, of True "[]"] by (simp add: clean_elems_def split_rooted [OF es]) (simp add: clean_elem_def)
  then show ?thesis by (simp add: clean_path_def) (simp add: rooted_path_def)
qed

text \<open>Joining a clean relative path appends its elements.\<close>

lemma join_rooted:
  assumes bs: "\<forall>e \<in> set bs. real_elem e" and es: "\<forall>e \<in> set es. real_elem e"
  shows "join_path (rooted_path bs) (if es = [] then dot_byte else join_with (CHR ''/'') es) = rooted_path (bs @ es)"
proof -
  let ?s = "if es = [] then dot_byte else join_with (CHR ''/'') es"
  have ne: "rooted_path bs \<noteq> []" by (simp add: rooted_path_def)
  have split_s: "split_on (CHR ''/'') ?s = (if es = [] then [dot_byte] else es)"
    using split_join [of es "CHR ''/''"] real_no_sep [OF es] by (simp add: dot_byte_def)
  have all: "split_on (CHR ''/'') (rooted_path bs @ ''/'' @ ?s)
      = ([] # (if bs = [] then [[]] else bs)) @ (if es = [] then [dot_byte] else es)"
    using split_append [of "CHR ''/''" "rooted_path bs" ?s] by (simp only: append_Cons append_Nil split_rooted [OF bs] split_s)
  have "clean_elems True (split_on (CHR ''/'') (rooted_path bs @ ''/'' @ ?s)) = bs @ es"
    unfolding all using clean_real [OF bs, of True "[]"] clean_real [OF es, of True "rev bs"]
    by (cases "es = []"; cases "bs = []") (simp_all add: clean_elems_def, simp_all add: clean_elem_def)
  moreover have "is_abs (rooted_path bs @ t)" for t by (simp add: is_abs_def rooted_path_def)
  ultimately show ?thesis using ne by (simp add: join_path_def clean_path_def) (simp add: rooted_path_def)
qed

lemma elems_rooted: "\<forall>e \<in> set es. real_elem e \<Longrightarrow> path_elems (rooted_path es) = es"
  by (auto simp: path_elems_def split_rooted real_elem_def intro: filter_True)

lemma strip_common_prefix: "strip_common bs (bs @ es) = ([], es)"
  by (induction bs) (cases es; simp)+

lemma rooted_inj:
  assumes "\<forall>e \<in> set xs. real_elem e" and "\<forall>e \<in> set ys. real_elem e"
  shows "rooted_path xs = rooted_path ys \<longleftrightarrow> xs = ys"
  using elems_rooted [OF assms(1)] elems_rooted [OF assms(2)] by metis

lemma rel_rooted:
  assumes bs: "\<forall>e \<in> set bs. real_elem e" and es: "\<forall>e \<in> set es. real_elem e"
  shows "rel_path (rooted_path bs) (rooted_path (bs @ es)) = Some (if es = [] then dot_byte else join_with (CHR ''/'') es)"
proof -
  have be: "\<forall>e \<in> set (bs @ es). real_elem e" using bs es by auto
  have nd: "rooted_path bs \<noteq> dot_byte" by (simp add: rooted_path_def dot_byte_def)
  have eq: "rooted_path (bs @ es) = rooted_path bs \<longleftrightarrow> es = []" using rooted_inj [OF be bs] by simp
  show ?thesis
    by (simp add: rel_path_def Let_def clean_rooted [OF bs] clean_rooted [OF be] eq nd elems_rooted [OF bs] elems_rooted [OF be]
        strip_common_prefix)
qed


section \<open>Confinement\<close>

text \<open>With an absolute working directory the base is a rooted path.\<close>

lemma abs_base:
  assumes "abs_path wd p = Some b" and "\<And>d. wd = Some d \<Longrightarrow> is_abs d"
  obtains bs where "b = rooted_path bs" and "\<forall>e \<in> set bs. real_elem e"
proof (cases "is_abs p")
  case True
  with assms(1) that show thesis by (auto simp: abs_path_def elim: clean_abs)
next
  case False
  with assms obtain d where d: "is_abs d" "b = join_path d p" by (auto simp: abs_path_def)
  then have "is_abs (d @ ''/'' @ p)" and "d \<noteq> []" by (auto simp: is_abs_def has_prefix_iff)
  with d(2) that show thesis by (auto simp: join_path_def elim: clean_abs)
qed

lemma safe_join_result:
  assumes "abs_path wd (clean_path baseDir) = Some (rooted_path bs)" and bs: "\<forall>e \<in> set bs. real_elem e"
    and "CHR 0x00 \<notin> set sub" and na: "\<not> is_abs sub" and "\<not> has_prefix (clean_path sub) dotdot"
  obtains es where "\<forall>e \<in> set es. real_elem e" and "safe_join_path wd baseDir sub = Inr (rooted_path (bs @ es))"
    and "clean_path sub = (if es = [] then dot_byte else join_with (CHR ''/'') es)"
proof -
  obtain es where s: "clean_path sub = (if es = [] then dot_byte else join_with (CHR ''/'') es)" and es: "\<forall>e \<in> set es. real_elem e"
    using clean_relative [OF na assms(5)] by blast
  have "\<not> has_prefix sub ''/''" using na by (simp add: is_abs_def)
  with assms(1,3,4,5) have "safe_join_path wd baseDir sub = Inr (rooted_path (bs @ es))"
    using join_rooted [OF bs es] rel_rooted [OF bs es] unfolding s
    by (simp add: safe_join_path_def Let_def s)
  with es s that show thesis by blast
qed

text \<open>C24: \<open>SafeJoinPath\<close> cannot leave its base. With an absolute working directory, whatever the user supplies, a path it
  returns is the absolute base directory followed by elements that are proper names: none is empty, \<open>.\<close> or \<open>..\<close>, and
  none contains a slash. And it refuses a path exactly if it has a null byte, is absolute, or once cleaned starts with
  two dots.\<close>

theorem safe_join_confined:
  assumes "abs_path wd (clean_path baseDir) = Some absBase" and "\<forall>d. wd = Some d \<longrightarrow> is_abs d"
  shows "\<exists>bs. absBase = rooted_path bs \<and>
    (case safe_join_path wd baseDir sub of
       Inr p \<Rightarrow> \<not> (CHR 0x00 \<in> set sub \<or> is_abs sub \<or> has_prefix (clean_path sub) dotdot) \<and>
         (\<exists>es. p = rooted_path (bs @ es) \<and> (\<forall>e \<in> set (bs @ es). real_elem e))
     | Inl err \<Rightarrow> CHR 0x00 \<in> set sub \<or> is_abs sub \<or> has_prefix (clean_path sub) dotdot)"
proof -
  obtain bs where b: "absBase = rooted_path bs" and bs: "\<forall>e \<in> set bs. real_elem e"
    by (rule abs_base [OF assms(1)]) (use assms(2) in blast)+
  show ?thesis
  proof (cases "CHR 0x00 \<in> set sub \<or> is_abs sub \<or> has_prefix (clean_path sub) dotdot")
    case True
    then have "\<exists>err. safe_join_path wd baseDir sub = Inl err"
      using assms(1) by (auto simp: safe_join_path_def Let_def)
    with b True show ?thesis by auto
  next
    case False
    then obtain es where "\<forall>e \<in> set es. real_elem e" "safe_join_path wd baseDir sub = Inr (rooted_path (bs @ es))"
      using safe_join_result [OF _ bs] assms(1) b by (metis (no_types, lifting))
    with b bs False show ?thesis by auto
  qed
qed

lemma safe_join_confined_witness:
  "\<exists>bs. ''/srv'' = rooted_path bs \<and> (case safe_join_path None ''/srv/'' ''a/../b'' of
       Inr p \<Rightarrow> \<not> (CHR 0x00 \<in> set ''a/../b'' \<or> is_abs ''a/../b'' \<or> has_prefix (clean_path ''a/../b'') dotdot) \<and>
         (\<exists>es. p = rooted_path (bs @ es) \<and> (\<forall>e \<in> set (bs @ es). real_elem e))
     | Inl err \<Rightarrow> CHR 0x00 \<in> set ''a/../b'' \<or> is_abs ''a/../b'' \<or> has_prefix (clean_path ''a/../b'') dotdot)"
proof -
  have "abs_path None (clean_path ''/srv/'') = Some ''/srv''"
    by (simp add: abs_path_def clean_path_def is_abs_def clean_elems_def clean_elem_def dot_byte_def dotdot_def)
  from safe_join_confined [OF this] show ?thesis by simp
qed

text \<open>The check is stricter than it needs to be: a file whose name merely starts with two dots is refused too.\<close>

lemma dotted_name_refused:
  "is_abs b \<Longrightarrow> safe_join_path wd b ''..data'' = Inl (PathTraversalDetected ''..data'')"
proof -
  assume "is_abs b"
  then have "is_abs (clean_path b)" by (metis clean_abs rooted_abs)
  then show ?thesis
    by (simp add: safe_join_path_def abs_path_def Let_def)
       (simp add: clean_path_def is_abs_def clean_elems_def clean_elem_def dot_byte_def dotdot_def)
qed

end
