(* ===== verification/Saga.thy ===== *)
theory Saga
  imports Go_Prelude
begin

text \<open>
  \<open>patterns/16_distributed/saga_orchestrator.go\<close>: \<open>Execute\<close> and \<open>compensate\<close>. The services
  that actions and compensations touch are a state \<open>'w\<close>; an action may change it even when it fails. Error
  values keep the parts from which the code prints its message.
\<close>

record ('w, 'e) saga_step =
  step_name :: string
  action :: "'w \<Rightarrow> 'e option \<times> 'w"
  compensation :: "('w \<Rightarrow> 'e option \<times> 'w) option"

datatype 'e saga_error = Compensated string 'e | CompensationFailed string 'e "(string \<times> 'e) list"

text \<open>The loop of \<open>compensate\<close>, on the steps already in reverse order.\<close>

fun compensate_loop :: "('w, 'e) saga_step list \<Rightarrow> 'w \<Rightarrow> (string \<times> 'e) list \<times> 'w" where
  "compensate_loop [] w = ([], w)"
| "compensate_loop (st # sts) w =
     (case compensation st of
        None \<Rightarrow> compensate_loop sts w
      | Some c \<Rightarrow>
          (let (err, w1) = c w;
               (errs, w2) = compensate_loop sts w1
           in (case err of None \<Rightarrow> errs | Some e \<Rightarrow> (step_name st, e) # errs, w2)))"

definition compensate :: "('w, 'e) saga_step list \<Rightarrow> 'w \<Rightarrow> (string \<times> 'e) list \<times> 'w" where
  "compensate steps w = compensate_loop (rev steps) w"

fun execute_from :: "('w, 'e) saga_step list \<Rightarrow> ('w, 'e) saga_step list \<Rightarrow> 'w \<Rightarrow> 'e saga_error option \<times> 'w" where
  "execute_from completed [] w = (None, w)"
| "execute_from completed (st # sts) w =
     (case action st w of
        (Some err, w1) \<Rightarrow>
          (let (compErr, w2) = compensate completed w1
           in (Some (if compErr \<noteq> [] then CompensationFailed (step_name st) err compErr
                     else Compensated (step_name st) err), w2))
      | (None, w1) \<Rightarrow> execute_from (completed @ [st]) sts w1)"

definition execute_saga :: "('w, 'e) saga_step list \<Rightarrow> 'w \<Rightarrow> 'e saga_error option \<times> 'w" where
  "execute_saga steps w = execute_from [] steps w"


section \<open>What a saga does\<close>

text \<open>The forward run of a list of steps that all succeed.\<close>

fun forward :: "('w, 'e) saga_step list \<Rightarrow> 'w \<Rightarrow> 'w option" where
  "forward [] w = Some w"
| "forward (st # sts) w = (case action st w of (None, w1) \<Rightarrow> forward sts w1 | _ \<Rightarrow> None)"

lemma forward_snoc:
  "forward (xs @ [st]) w = (case forward xs w of None \<Rightarrow> None
     | Some w1 \<Rightarrow> (case action st w1 of (None, w2) \<Rightarrow> Some w2 | _ \<Rightarrow> None))"
  by (induction xs arbitrary: w) (auto split: option.splits prod.splits)

lemma execute_from_all: "forward sts w = Some w1 \<Longrightarrow> execute_from completed sts w = (None, w1)"
  by (induction sts arbitrary: completed w) (auto split: option.splits prod.splits)

lemma execute_from_fail:
  "forward pre w = Some w1 \<Longrightarrow> action st w1 = (Some err, w2) \<Longrightarrow>
    execute_from completed (pre @ st # post) w =
      (let (compErr, w3) = compensate (completed @ pre) w2
       in (Some (if compErr \<noteq> [] then CompensationFailed (step_name st) err compErr
                 else Compensated (step_name st) err), w3))"
  by (induction pre arbitrary: completed w) (auto split: option.splits prod.splits)

lemma forward_split:
  "forward sts w = None \<Longrightarrow>
    \<exists>pre st post w1 err w2. sts = pre @ st # post \<and> forward pre w = Some w1 \<and> action st w1 = (Some err, w2)"
proof (induction sts arbitrary: w)
  case Nil
  then show ?case by simp
next
  case (Cons st sts)
  obtain r w1 where a: "action st w = (r, w1)" by (cases "action st w")
  show ?case
  proof (cases r)
    case None
    with a Cons.prems have "forward sts w1 = None" by simp
    from Cons.IH [OF this] obtain pre st' post w2 err w3 where
      x: "sts = pre @ st' # post" "forward pre w1 = Some w2" "action st' w2 = (Some err, w3)" by blast
    then have "st # sts = (st # pre) @ st' # post" "forward (st # pre) w = Some w2" using a None by simp_all
    with x(3) show ?thesis by blast
  next
    case (Some err)
    with a have "st # sts = [] @ st # sts" "forward [] w = Some w" "action st w = (Some err, w1)" by simp_all
    then show ?thesis by blast
  qed
qed

text \<open>Compensations that undo: run in the state an action left behind, the compensation restores the state the
  action started from. A step whose action changes nothing needs no compensation.\<close>

definition undoes :: "('w, 'e) saga_step \<Rightarrow> bool" where
  "undoes st \<longleftrightarrow> (\<forall>w w1. action st w = (None, w1) \<longrightarrow>
     (case compensation st of None \<Rightarrow> w1 = w | Some c \<Rightarrow> c w1 = (None, w)))"

definition fails_clean :: "('w, 'e) saga_step \<Rightarrow> bool" where
  "fails_clean st \<longleftrightarrow> (\<forall>w e w1. action st w = (Some e, w1) \<longrightarrow> w1 = w)"

lemma compensate_undoes:
  "\<forall>st \<in> set pre. undoes st \<Longrightarrow> forward pre w = Some w1 \<Longrightarrow> compensate pre w1 = ([], w)"
proof (induction pre arbitrary: w1 rule: rev_induct)
  case Nil
  then show ?case by (simp add: compensate_def)
next
  case (snoc st pre)
  from snoc.prems(2) obtain w0 where f: "forward pre w = Some w0" "action st w0 = (None, w1)"
    by (auto simp: forward_snoc split: option.splits prod.splits)
  have u: "undoes st" using snoc.prems(1) by simp
  have IH: "compensate pre w0 = ([], w)" using snoc.IH [OF _ f(1)] snoc.prems(1) by simp
  show ?case
  proof (cases "compensation st")
    case None
    with u f(2) have "w1 = w0" by (auto simp: undoes_def)
    with None IH show ?thesis by (simp add: compensate_def)
  next
    case (Some c)
    with u f(2) have "c w1 = (None, w0)" unfolding undoes_def by fastforce
    with Some IH show ?thesis by (simp add: compensate_def)
  qed
qed

text \<open>C7: a saga is all or nothing. If every compensation undoes its action and a failing action changes nothing,
  then \<open>Execute\<close> either runs all actions and reports success, or reports the failing step as
  successfully compensated and leaves every service as it was before the saga.\<close>

theorem saga_all_or_nothing:
  assumes "\<forall>st \<in> set steps. undoes st \<and> fails_clean st"
  shows "(\<exists>w1. forward steps w = Some w1 \<and> execute_saga steps w = (None, w1))
    \<or> (\<exists>st \<in> set steps. \<exists>err. execute_saga steps w = (Some (Compensated (step_name st) err), w))"
proof (cases "forward steps w")
  case (Some w1)
  then show ?thesis using execute_from_all [of steps w w1 "[]"] by (simp add: execute_saga_def)
next
  case None
  from forward_split [OF None] obtain pre st post w1 err w2 where
    x: "steps = pre @ st # post" "forward pre w = Some w1" "action st w1 = (Some err, w2)"
    by blast
  have "w2 = w1" using assms x(1,3) unfolding fails_clean_def by auto
  moreover have "compensate pre w1 = ([], w)" using compensate_undoes [OF _ x(2)] assms x(1) by simp
  ultimately have "execute_saga steps w = (Some (Compensated (step_name st) err), w)"
    using execute_from_fail [OF x(2,3), of "[]" post] by (simp add: execute_saga_def x(1))
  moreover have "st \<in> set steps" using x(1) by simp
  ultimately show ?thesis by blast
qed

text \<open>Two services with a counter each; the third step always fails.\<close>

definition demo_step :: "string \<Rightarrow> (int \<times> int \<Rightarrow> int \<times> int) \<Rightarrow> (int \<times> int \<Rightarrow> int \<times> int) \<Rightarrow> (int \<times> int, string) saga_step" where
  "demo_step n f g = \<lparr>step_name = n, action = (\<lambda>w. (None, f w)), compensation = Some (\<lambda>w. (None, g w))\<rparr>"

definition demo_saga :: "(int \<times> int, string) saga_step list" where
  "demo_saga =
     [demo_step ''reserve'' (\<lambda>(a, b). (a - 1, b)) (\<lambda>(a, b). (a + 1, b)),
      demo_step ''charge'' (\<lambda>(a, b). (a, b - 50)) (\<lambda>(a, b). (a, b + 50)),
      \<lparr>step_name = ''ship'', action = (\<lambda>w. (Some ''no carrier'', w)), compensation = None\<rparr>]"

theorem saga_all_or_nothing_witness:
  "\<exists>st \<in> set demo_saga. \<exists>err. execute_saga demo_saga (10, 100) = (Some (Compensated (step_name st) err), (10, 100))"
proof -
  have "\<forall>st \<in> set demo_saga. undoes st \<and> fails_clean st"
    by (auto simp: demo_saga_def demo_step_def undoes_def fails_clean_def)
  moreover have "forward demo_saga (10, 100) = None" by (simp add: demo_saga_def demo_step_def)
  ultimately show ?thesis using saga_all_or_nothing [of demo_saga "(10, 100)"] by simp
qed


section \<open>Every compensation runs\<close>

text \<open>Without assumptions on the services: the calls a saga makes, in order. A step is instrumented so that its
  calls are logged.\<close>

datatype saga_call = Acted string | Undone string

definition logged :: "('w, 'e) saga_step \<Rightarrow> ('w \<times> saga_call list, 'e) saga_step" where
  "logged st =
     \<lparr>step_name = step_name st,
      action = (\<lambda>(w, l). let (e, w1) = action st w in (e, w1, l @ [Acted (step_name st)])),
      compensation = map_option (\<lambda>c (w, l). let (e, w1) = c w in (e, w1, l @ [Undone (step_name st)])) (compensation st)\<rparr>"

definition undo_calls :: "('w, 'e) saga_step list \<Rightarrow> saga_call list" where
  "undo_calls sts = map (\<lambda>st. Undone (step_name st)) (filter (\<lambda>st. compensation st \<noteq> None) sts)"

lemma compensate_loop_log: "snd (snd (compensate_loop (map logged sts) (w, l))) = l @ undo_calls sts"
proof (induction sts arbitrary: w l)
  case Nil
  then show ?case by (simp add: undo_calls_def)
next
  case (Cons st sts)
  show ?case
  proof (cases "compensation st")
    case None
    then show ?thesis using Cons.IH [of w l] by (simp add: logged_def undo_calls_def)
  next
    case (Some c)
    obtain e w1 where c: "c w = (e, w1)" by (cases "c w")
    show ?thesis using Cons.IH [of w1 "l @ [Undone (step_name st)]"] Some c
      by (auto simp: logged_def undo_calls_def Let_def split: prod.splits)
  qed
qed

lemma forward_log:
  "forward (map logged sts) (w, l)
    = map_option (\<lambda>w1. (w1, l @ map (\<lambda>st. Acted (step_name st)) sts)) (forward sts w)"
  by (induction sts arbitrary: w l) (auto simp: logged_def Let_def split: option.splits prod.splits)

text \<open>C8: a failed saga undoes exactly its completed steps, newest first. If the step after \<open>pre\<close> is the first
  to fail, the calls made are the actions up to and including it, then the compensations of the steps in
  \<open>pre\<close> in reverse order, every one of them even if others fail; the actions after it are never run. The
  outcome names the failing step and lists the failed compensations.\<close>

theorem saga_compensates_in_reverse:
  assumes "forward pre w = Some w1" and "action st w1 = (Some err, w2)"
  shows "snd (snd (execute_saga (map logged (pre @ st # post)) (w, [])))
      = map (\<lambda>st. Acted (step_name st)) (pre @ [st]) @ undo_calls (rev pre)
    \<and> fst (execute_saga (pre @ st # post) w)
      = Some (case fst (compensate pre w2) of [] \<Rightarrow> Compensated (step_name st) err
              | errs \<Rightarrow> CompensationFailed (step_name st) err errs)"
proof -
  let ?l = "map (\<lambda>st. Acted (step_name st)) pre"
  have f: "forward (map logged pre) (w, []) = Some (w1, ?l)" by (simp add: forward_log assms(1))
  have a: "action (logged st) (w1, ?l) = (Some err, w2, ?l @ [Acted (step_name st)])"
    by (simp add: logged_def assms(2))
  have c: "snd (snd (compensate (map logged pre) (w2, ?l @ [Acted (step_name st)])))
      = (?l @ [Acted (step_name st)]) @ undo_calls (rev pre)"
    by (simp only: compensate_def rev_map compensate_loop_log)
  show ?thesis
    using execute_from_fail [OF f a, of "[]" "map logged post"] execute_from_fail [OF assms, of "[]" post] c
    by (auto simp: execute_saga_def Let_def split: prod.splits list.splits)
qed

theorem saga_compensates_in_reverse_witness:
  "snd (snd (execute_saga (map logged demo_saga) ((0, 0), [])))
    = [Acted ''reserve'', Acted ''charge'', Acted ''ship'', Undone ''charge'', Undone ''reserve'']"
proof -
  let ?pre = "take 2 demo_saga"
  have d: "demo_saga = ?pre @ (demo_saga ! 2) # []" by (simp add: demo_saga_def)
  have f: "forward ?pre (0, 0) = Some (- 1, - 50)" "action (demo_saga ! 2) (- 1, - 50) = (Some ''no carrier'', (- 1, - 50))"
    by (simp_all add: demo_saga_def demo_step_def)
  have "undo_calls (rev ?pre) = [Undone ''charge'', Undone ''reserve'']"
    "map (\<lambda>st. Acted (step_name st)) (?pre @ [demo_saga ! 2]) = [Acted ''reserve'', Acted ''charge'', Acted ''ship'']"
    by (simp_all add: undo_calls_def demo_saga_def demo_step_def)
  with saga_compensates_in_reverse [OF f, of "[]"] show ?thesis by (simp add: d [symmetric])
qed

end
