(* ===== verification/Server_Edge.thy ===== *)
theory Server_Edge
  imports Http_Policies Outbox
begin

text \<open>
  The edge of a server and what runs behind it: the server and client settings of
  \<open>patterns/07_httpserver/hardened_server.go\<close> and \<open>patterns/08_httpclient/pooled_client.go\<close>, the strict decoder of
  \<open>strict_json.go\<close>, the body limit of \<open>body_limit.go\<close>, and the polling loop of
  \<open>patterns/26_advanced/reliable_outbox_publisher.go\<close> around the batches modelled in \<open>Outbox\<close>.
\<close>


section \<open>Settings\<close>

record hardened_config =
  hs_addr :: string
  read_header_timeout :: duration
  read_timeout :: duration
  write_timeout :: duration
  idle_timeout :: duration
  max_header_bytes :: int

definition default_hardened_config :: "string \<Rightarrow> hardened_config" where
  "default_hardened_config addr =
     \<lparr>hs_addr = addr, read_header_timeout = 2 * 1000000000, read_timeout = 5 * 1000000000, write_timeout = 10 * 1000000000,
      idle_timeout = 120 * 1000000000, max_header_bytes = push_bit 20 1\<rparr>"

text \<open>The fields of \<open>http.Server\<close> that the constructor sets.\<close>

record 'h hardened_server =
  srv_addr :: string
  srv_handler :: 'h
  srv_read_header_timeout :: duration
  srv_read_timeout :: duration
  srv_write_timeout :: duration
  srv_idle_timeout :: duration
  srv_max_header_bytes :: int

definition new_hardened_server :: "hardened_config \<Rightarrow> 'h \<Rightarrow> 'h hardened_server" where
  "new_hardened_server cfg h =
     \<lparr>srv_addr = hs_addr cfg, srv_handler = h, srv_read_header_timeout = read_header_timeout cfg,
      srv_read_timeout = read_timeout cfg, srv_write_timeout = write_timeout cfg, srv_idle_timeout = idle_timeout cfg,
      srv_max_header_bytes = max_header_bytes cfg\<rparr>"

record pooled_config =
  pc_max_idle_conns :: int
  pc_max_idle_per_host :: int
  pc_max_conns_per_host :: int
  pc_idle_conn_timeout :: duration
  pc_connect_timeout :: duration
  pc_tls_timeout :: duration
  pc_overall_timeout :: duration

definition default_pooled_config :: pooled_config where
  "default_pooled_config =
     \<lparr>pc_max_idle_conns = 200, pc_max_idle_per_host = 50, pc_max_conns_per_host = 100, pc_idle_conn_timeout = 90 * 1000000000,
      pc_connect_timeout = 5 * 1000000000, pc_tls_timeout = 5 * 1000000000, pc_overall_timeout = 10 * 1000000000\<rparr>"

text \<open>The fields of \<open>http.Transport\<close>, of its dialer and of \<open>http.Client\<close> that the constructor sets.\<close>

record pooled_client =
  dial_timeout :: duration
  dial_keep_alive :: duration
  force_http2 :: bool
  tr_max_idle_conns :: int
  tr_max_idle_per_host :: int
  tr_max_conns_per_host :: int
  tr_idle_conn_timeout :: duration
  tr_tls_timeout :: duration
  tr_expect_continue_timeout :: duration
  client_timeout :: duration

definition new_pooled_client :: "pooled_config \<Rightarrow> pooled_client" where
  "new_pooled_client cfg =
     \<lparr>dial_timeout = pc_connect_timeout cfg, dial_keep_alive = 30 * 1000000000, force_http2 = True,
      tr_max_idle_conns = pc_max_idle_conns cfg, tr_max_idle_per_host = pc_max_idle_per_host cfg,
      tr_max_conns_per_host = pc_max_conns_per_host cfg, tr_idle_conn_timeout = pc_idle_conn_timeout cfg,
      tr_tls_timeout = pc_tls_timeout cfg, tr_expect_continue_timeout = 1000000000, client_timeout = pc_overall_timeout cfg\<rparr>"

text \<open>With the defaults no phase of a request is without a limit (a limit of zero means none), and the limits nest.\<close>

lemma default_limits_set:
  "0 < srv_read_header_timeout (new_hardened_server (default_hardened_config a) h) \<and>
   srv_read_header_timeout (new_hardened_server (default_hardened_config a) h) \<le> srv_read_timeout (new_hardened_server (default_hardened_config a) h) \<and>
   0 < srv_write_timeout (new_hardened_server (default_hardened_config a) h) \<and>
   0 < srv_idle_timeout (new_hardened_server (default_hardened_config a) h) \<and>
   srv_max_header_bytes (new_hardened_server (default_hardened_config a) h) = 1048576"
  by (simp add: new_hardened_server_def default_hardened_config_def push_bit_eq_mult)

lemma default_pool_limits:
  "0 < tr_max_conns_per_host (new_pooled_client default_pooled_config) \<and>
   tr_max_idle_per_host (new_pooled_client default_pooled_config) \<le> tr_max_conns_per_host (new_pooled_client default_pooled_config) \<and>
   dial_timeout (new_pooled_client default_pooled_config) + tr_tls_timeout (new_pooled_client default_pooled_config)
     \<le> client_timeout (new_pooled_client default_pooled_config)"
  by (simp add: new_pooled_client_def default_pooled_config_def)


section \<open>Strict JSON\<close>

text \<open>The errors of the decoder as far as the code tells them apart. \<open>UnknownField\<close> stands for the errors whose text starts with
  \<open>json: unknown field\<close>; the end of an empty stream is \<open>JsonEOF\<close>, a document that breaks off is one of the others.\<close>

datatype json_error = JsonSyntax int string | JsonType string string | JsonUnknownField string | JsonEOF | JsonOther string

datatype strict_error =
  EmptyBody | MalformedJSON int string | InvalidField string string | UnknownFieldError string | MultipleJSONVals | JSONDecodeError string

text \<open>The reader is what decoding yields, document by document: the first attempt decodes into the target with unknown fields refused,
  the second into a raw message. Each attempt returns the error and leaves a target.\<close>

record 't json_reader =
  first_decode :: "json_error option \<times> 't"
  second_decode :: "json_error option"

definition decode_strict_json :: "'t json_reader option \<Rightarrow> 't \<Rightarrow> strict_error option \<times> 't" where
  "decode_strict_json r dst =
     (case r of
        None \<Rightarrow> (Some EmptyBody, dst)
      | Some d \<Rightarrow>
          (let (err, dst1) = first_decode d in
           case err of
             Some (JsonSyntax off t) \<Rightarrow> (Some (MalformedJSON off t), dst1)
           | Some (JsonType field t) \<Rightarrow> (Some (InvalidField field t), dst1)
           | Some (JsonUnknownField t) \<Rightarrow> (Some (UnknownFieldError t), dst1)
           | Some JsonEOF \<Rightarrow> (Some EmptyBody, dst1)
           | Some (JsonOther t) \<Rightarrow> (Some (JSONDecodeError t), dst1)
           | None \<Rightarrow> if second_decode d \<noteq> Some JsonEOF then (Some MultipleJSONVals, dst1) else (None, dst1)))"

text \<open>A body is accepted exactly if it is one document that fits the target, followed by the end of the stream.\<close>

lemma strict_json_accepts_iff:
  "fst (decode_strict_json r dst) = None \<longleftrightarrow>
    (\<exists>d. r = Some d \<and> fst (first_decode d) = None \<and> second_decode d = Some JsonEOF)"
  by (auto simp: decode_strict_json_def split_beta Let_def split: option.splits json_error.splits if_splits)

text \<open>But a refused body may have been stored already: the target of a body with trailing data holds its first document.\<close>

lemma refused_body_decoded:
  "fst (first_decode d) = None \<Longrightarrow> second_decode d \<noteq> Some JsonEOF \<Longrightarrow>
    decode_strict_json (Some d) dst = (Some MultipleJSONVals, snd (first_decode d))"
  by (simp add: decode_strict_json_def split_beta Let_def)


section \<open>The body limit\<close>

text \<open>What reading through \<open>http.MaxBytesReader\<close> yields: at most the limit, and an error exactly if there is more.\<close>

definition max_bytes_reader :: "int \<Rightarrow> string \<Rightarrow> string \<times> bool" where
  "max_bytes_reader limit body =
     (let n = nat (max 0 limit) in if length body \<le> n then (body, False) else (take n body, True))"

definition body_limit_middleware :: "int \<Rightarrow> ((string \<times> bool) option \<Rightarrow> 'a) \<Rightarrow> string option \<Rightarrow> 'a" where
  "body_limit_middleware maxBytes next body = next (map_option (max_bytes_reader maxBytes) body)"

lemma body_limited:
  "body_limit_middleware m (\<lambda>b. b) (Some body) = Some (seen, over) \<Longrightarrow>
    length seen \<le> nat (max 0 m) \<and> (over \<longleftrightarrow> nat (max 0 m) < length body) \<and> (\<not> over \<longrightarrow> seen = body)"
  by (auto simp: body_limit_middleware_def max_bytes_reader_def Let_def split: if_splits)


section \<open>The outbox publisher\<close>

datatype publisher_phase = PubIdle | PubSelecting | PubStopped

record publisher =
  pub_interval :: duration
  pub_phase :: publisher_phase
  pub_cancelled :: bool
  pub_state :: "outbox_store \<times> broker"

definition new_publisher :: "outbox_store \<times> broker \<Rightarrow> duration \<Rightarrow> publisher" where
  "new_publisher sb pollInterval =
     \<lparr>pub_interval = (if pollInterval \<le> 0 then 50 * 1000000 else pollInterval), pub_phase = PubIdle, pub_cancelled = False,
      pub_state = sb\<rparr>"

text \<open>\<open>Start\<close> is called once. The goroutine takes a tick, which flushes one batch, or sees the cancelled context. If both are ready the select takes either.
  \<open>PubCancel\<close> is the first half of \<open>Stop\<close> or the end of the parent context; \<open>PubStopReturns\<close> is its second half, which waits for
  the goroutine.\<close>

datatype publisher_event =
  PubStart | PubTick "string list" "nat \<Rightarrow> gotime" | PubSeesDone | PubCancel | PubStopReturns

fun publisher_step :: "(nat \<Rightarrow> string option) \<Rightarrow> publisher \<Rightarrow> publisher_event \<Rightarrow> publisher option" where
  "publisher_step fails p PubStart =
     (if pub_phase p = PubIdle then Some (p\<lparr>pub_phase := PubSelecting\<rparr>) else None)"
| "publisher_step fails p (PubTick ks clk) =
     (if pub_phase p = PubSelecting
      then Some (p\<lparr>pub_state := snd (flush_once (fst (pub_state p)) ks (broker_publish fails) clk (snd (pub_state p)))\<rparr>)
      else None)"
| "publisher_step fails p PubSeesDone =
     (if pub_phase p = PubSelecting \<and> pub_cancelled p then Some (p\<lparr>pub_phase := PubStopped\<rparr>) else None)"
| "publisher_step fails p PubCancel = Some (p\<lparr>pub_cancelled := True\<rparr>)"
| "publisher_step fails p PubStopReturns = (if pub_cancelled p \<and> pub_phase p \<noteq> PubSelecting then Some p else None)"

fun tick_ops :: "publisher_event list \<Rightarrow> outbox_op list" where
  "tick_ops [] = []"
| "tick_ops (PubTick ks clk # es) = FlushOnce ks clk # tick_ops es"
| "tick_ops (e # es) = tick_ops es"

text \<open>The loop does nothing but flush batches: every run of it is a run of the outbox, to which the delivery guarantee of the outbox
  applies.\<close>

lemma publisher_runs_outbox:
  "run_events (publisher_step fails) p es = Some q \<Longrightarrow> pub_state q = foldl (outbox_exec fails) (pub_state p) (tick_ops es)"
proof (induction es arbitrary: p)
  case (Cons e es)
  then obtain p1 where p1: "publisher_step fails p e = Some p1" "run_events (publisher_step fails) p1 es = Some q"
    by (auto split: option.splits)
  have "pub_state p1 = foldl (outbox_exec fails) (pub_state p) (tick_ops [e])"
    using p1(1) by (cases e; cases "pub_state p") (auto split: if_splits)
  with Cons.IH [OF p1(2)] show ?case by (cases e) auto
qed simp

text \<open>Once \<open>Stop\<close> has returned on a started publisher nothing is published any more.\<close>

lemma stopped_publisher_silent:
  assumes "pub_phase p = PubStopped" and "run_events (publisher_step fails) p es = Some q"
  shows "pub_phase q = PubStopped \<and> pub_state q = pub_state p"
proof (rule run_events_inv [OF assms(2), where I = "\<lambda>q. pub_phase q = PubStopped \<and> pub_state q = pub_state p"])
  show "pub_phase p = PubStopped \<and> pub_state p = pub_state p" using assms(1) by simp
next
  fix s e t
  assume "pub_phase s = PubStopped \<and> pub_state s = pub_state p" "publisher_step fails s e = Some t"
  then show "pub_phase t = PubStopped \<and> pub_state t = pub_state p" by (cases e) (auto split: if_splits)
qed

end
