(* ===== verification/Service_Layers.thy ===== *)
theory Service_Layers
  imports Store_Contract Http_Policies Float64
begin

text \<open>
  Services on top of injected dependencies: \<open>patterns/03_di\<close> (\<open>interface_at_consumer.go\<close>,
  \<open>constructor_injection.go\<close>, \<open>test_doubles.go\<close>), \<open>patterns/25_codeorganization\<close>
  (\<open>layered_architecture.go\<close>, \<open>domain_isolation.go\<close>) and \<open>patterns/20_reliability/graceful_degradation.go\<close>. A dependency is
  a function; what a service does to its dependencies is the list of calls it makes, in order.
\<close>


section \<open>Processing an order\<close>

record stored_order =
  so_id :: string
  so_amount :: int
  so_status :: string
  so_customer :: string

datatype order_call = GetOrderCall string | ChargeCall string int | StatusCall string string

datatype 'e process_error =
    FetchError 'e | OrderAlreadyPaid | ProcessDeclined 'e | EmptyTransactionId | StatusUpdateFailed 'e

definition process_order ::
  "(string \<Rightarrow> 'e + stored_order) \<Rightarrow> (string \<Rightarrow> int \<Rightarrow> 'e + string) \<Rightarrow> (string \<Rightarrow> string \<Rightarrow> 'e option) \<Rightarrow> string \<Rightarrow>
   'e process_error option \<times> order_call list" where
  "process_order get charge upd orderID =
     (case get orderID of
        Inl e \<Rightarrow> (Some (FetchError e), [GetOrderCall orderID])
      | Inr ord \<Rightarrow>
          if so_status ord = ''PAID'' then (Some OrderAlreadyPaid, [GetOrderCall orderID])
          else
            (case charge (so_customer ord) (so_amount ord) of
               Inl e \<Rightarrow>
                 (Some (ProcessDeclined e),
                  [GetOrderCall orderID, ChargeCall (so_customer ord) (so_amount ord), StatusCall orderID ''PAYMENT_FAILED''])
             | Inr txnID \<Rightarrow>
                 if txnID = [] then
                   (Some EmptyTransactionId, [GetOrderCall orderID, ChargeCall (so_customer ord) (so_amount ord)])
                 else
                   (map_option StatusUpdateFailed (upd orderID ''PAID''),
                    [GetOrderCall orderID, ChargeCall (so_customer ord) (so_amount ord), StatusCall orderID ''PAID''])))"

fun is_charge :: "order_call \<Rightarrow> bool" where
  "is_charge (ChargeCall c a) = True"
| "is_charge _ = False"

text \<open>One call charges at most once, never for an order that is paid, and the amount of the order; it records \<open>PAID\<close> only
  after a charge with a transaction id.\<close>

lemma process_order_charges:
  "length (filter is_charge (snd (process_order get charge upd i))) \<le> 1 \<and>
   (ChargeCall c a \<in> set (snd (process_order get charge upd i)) \<longrightarrow>
      (\<exists>ord. get i = Inr ord \<and> so_status ord \<noteq> ''PAID'' \<and> c = so_customer ord \<and> a = so_amount ord)) \<and>
   (StatusCall j ''PAID'' \<in> set (snd (process_order get charge upd i)) \<longrightarrow>
      (\<exists>ord txn. get i = Inr ord \<and> charge (so_customer ord) (so_amount ord) = Inr txn \<and> txn \<noteq> [] \<and> j = i))"
  by (auto simp: process_order_def split: sum.split)

text \<open>But an order whose status could not be updated after the charge, or whose charge returned an empty id, is charged again by the next
  attempt: the storage still shows the old status.\<close>

lemma retry_charges_again:
  assumes "get i = Inr ord" and "so_status ord \<noteq> ''PAID''"
    and "fst (process_order get charge upd i) = Some (StatusUpdateFailed e) \<or>
         fst (process_order get charge upd i) = Some EmptyTransactionId"
  shows "ChargeCall (so_customer ord) (so_amount ord) \<in> set (snd (process_order get charge upd i)) \<and>
    ChargeCall (so_customer ord) (so_amount ord) \<in> set (snd (process_order get charge upd2 i))"
  using assms by (auto simp: process_order_def split: sum.splits)


section \<open>Registering a user\<close>

record plain_user =
  pu_id :: string
  pu_email :: string
  pu_name :: string

datatype 'e register_error = InvalidUserData | SaveFailed 'e | NotificationFailed 'e

datatype constructor_error = NilRepository | NilNotifier

definition new_user_service :: "'r option \<Rightarrow> 'n option \<Rightarrow> constructor_error + ('r \<times> 'n)" where
  "new_user_service repo notifier =
     (case repo of
        None \<Rightarrow> Inl NilRepository
      | Some r \<Rightarrow> (case notifier of None \<Rightarrow> Inl NilNotifier | Some n \<Rightarrow> Inr (r, n)))"

definition register_user ::
  "('s \<Rightarrow> plain_user \<Rightarrow> 'e option \<times> 's) \<Rightarrow> (string \<Rightarrow> string \<Rightarrow> 'e option) \<Rightarrow> 's \<Rightarrow> plain_user option \<Rightarrow>
   'e register_error option \<times> 's" where
  "register_user save notify s user =
     (case user of
        None \<Rightarrow> (Some InvalidUserData, s)
      | Some u \<Rightarrow>
          if pu_email u = [] then (Some InvalidUserData, s)
          else (case save s u of
                  (Some e, s1) \<Rightarrow> (Some (SaveFailed e), s1)
                | (None, s1) \<Rightarrow>
                    (case notify (pu_email u) (pu_name u) of
                       Some e \<Rightarrow> (Some (NotificationFailed e), s1)
                     | None \<Rightarrow> (None, s1))))"

text \<open>A user whose welcome mail fails has been saved all the same.\<close>

lemma failed_mail_keeps_user:
  assumes "pu_email u \<noteq> []" and "save s u = (None, s1)"
  shows "snd (register_user save notify s (Some u)) = s1"
  using assms by (simp add: register_user_def split: option.split)


section \<open>Test doubles\<close>

record bank_account =
  ba_id :: string
  ba_balance :: int

definition copy_account :: "bank_account \<Rightarrow> bank_account" where
  "copy_account a = \<lparr>ba_id = ba_id a, ba_balance = ba_balance a\<rparr>"

lemma copy_account_id [simp]: "copy_account a = a"
  by (simp add: copy_account_def)

record fake_repository =
  fake_accounts :: "string \<rightharpoonup> bank_account"

definition new_fake_repository :: fake_repository where
  "new_fake_repository = \<lparr>fake_accounts = Map.empty\<rparr>"

definition fake_get :: "fake_repository \<Rightarrow> string \<Rightarrow> bank_account option" where
  "fake_get f i = map_option copy_account (fake_accounts f i)"

definition fake_save :: "fake_repository \<Rightarrow> bank_account \<Rightarrow> fake_repository" where
  "fake_save f acc = f\<lparr>fake_accounts := (fake_accounts f)(ba_id acc \<mapsto> copy_account acc)\<rparr>"

record 'e stub_repository =
  canned_account :: "bank_account option"
  canned_error :: "'e option"

definition stub_get :: "'e stub_repository \<Rightarrow> string \<Rightarrow> bank_account option \<times> 'e option" where
  "stub_get s i = (canned_account s, canned_error s)"

definition stub_save :: "'e stub_repository \<Rightarrow> bank_account \<Rightarrow> 'e option" where
  "stub_save s acc = canned_error s"

record 'e spy_repository =
  get_calls :: "string list"
  save_calls :: "bank_account list"
  return_error :: "'e option"

definition spy_get :: "'e spy_repository \<Rightarrow> string \<Rightarrow> ('e + bank_account) \<times> 'e spy_repository" where
  "spy_get m i =
     (case return_error m of Some e \<Rightarrow> Inl e | None \<Rightarrow> Inr \<lparr>ba_id = i, ba_balance = 1000\<rparr>,
      m\<lparr>get_calls := get_calls m @ [i]\<rparr>)"

definition spy_save :: "'e spy_repository \<Rightarrow> bank_account \<Rightarrow> 'e option \<times> 'e spy_repository" where
  "spy_save m acc = (return_error m, m\<lparr>save_calls := save_calls m @ [acc]\<rparr>)"

text \<open>The fake has the semantics of the real stores; the stub and the spy do not: the spy answers every look-up alike.\<close>

interpretation fake_store: keyed_store "\<lambda>f. True" fake_accounts fake_save ba_id "\<lambda>a. a" "\<lambda>a. True"
  by unfold_locales (simp_all add: fake_save_def)

lemma fake_get_after_save: "fake_get (fake_save f acc) (ba_id acc) = Some acc"
  using fake_store.find_after_save by (simp add: fake_get_def)

lemma fake_get_frame: "i \<noteq> ba_id acc \<Longrightarrow> fake_get (fake_save f acc) i = fake_get f i"
  using fake_store.save_frame by (simp add: fake_get_def)

lemma spy_ignores_saves:
  "fst (spy_get (snd (spy_save m acc)) i) = fst (spy_get m i)"
  by (simp add: spy_get_def spy_save_def)


section \<open>Layers\<close>

record member_account =
  member_id :: string
  member_email :: string
  member_tier :: string

datatype 'e upgrade_error = MemberLookupFailed 'e | AlreadyPremium | MemberUpdateFailed 'e

definition upgrade_to_premium :: "member_account \<Rightarrow> member_account option" where
  "upgrade_to_premium m = (if member_tier m = ''PREMIUM'' then None else Some (m\<lparr>member_tier := ''PREMIUM''\<rparr>))"

definition upgrade_member_tier ::
  "('s \<Rightarrow> string \<Rightarrow> 'e + member_account) \<Rightarrow> ('s \<Rightarrow> member_account \<Rightarrow> 'e option \<times> 's) \<Rightarrow> 's \<Rightarrow> string \<Rightarrow>
   ('e upgrade_error + member_account) \<times> 's" where
  "upgrade_member_tier get upd s i =
     (case get s i of
        Inl e \<Rightarrow> (Inl (MemberLookupFailed e), s)
      | Inr m \<Rightarrow>
          (case upgrade_to_premium m of
             None \<Rightarrow> (Inl AlreadyPremium, s)
           | Some m1 \<Rightarrow>
               (case upd s m1 of
                  (Some e, s1) \<Rightarrow> (Inl (MemberUpdateFailed e), s1)
                | (None, s1) \<Rightarrow> (Inr m1, s1))))"

definition trim_prefix :: "string \<Rightarrow> string \<Rightarrow> string" where
  "trim_prefix s p = (if has_prefix s p then drop (length p) s else s)"

text \<open>\<open>enc\<close> is the JSON encoding of the two members of the answer, \<open>text\<close> prints an error.\<close>

definition upgrade_tier_handler ::
  "('s \<Rightarrow> string \<Rightarrow> 'e + member_account) \<Rightarrow> ('s \<Rightarrow> member_account \<Rightarrow> 'e option \<times> 's) \<Rightarrow> ('e upgrade_error \<Rightarrow> string) \<Rightarrow>
   (string \<Rightarrow> string \<Rightarrow> string) \<Rightarrow> 's \<Rightarrow> http_request \<Rightarrow> effect list \<times> 's" where
  "upgrade_tier_handler get upd text enc s r =
     (let i = trim_prefix (req_path r) ''/members/upgrade/'' in
      if i = [] then (http_error ''missing member id'' 400, s)
      else
        (case upgrade_member_tier get upd s i of
           (Inl e, s1) \<Rightarrow> (http_error (text e) 422, s1)
         | (Inr m, s1) \<Rightarrow>
             ([SetHeader ''Content-Type'' ''application/json'', WriteHeaderTo 200, WriteBytes (enc (member_id m) (member_tier m))], s1)))"

text \<open>The handler's answer: 400 without an identifier, 200 exactly if the member was upgraded and stored, 422 otherwise. (A path
  without the prefix is taken whole as the identifier.)\<close>

lemma upgrade_statuses:
  "response_status (fst (upgrade_tier_handler get upd text enc s r)) =
     (let i = trim_prefix (req_path r) ''/members/upgrade/'' in
      if i = [] then 400
      else if isl (fst (upgrade_member_tier get upd s i)) then 422 else 200)"
proof -
  have e: "response_status (http_error m 400) = 400" "response_status (http_error m 422) = 422" for m
    by (rule http_error_status, simp add: final_status_def)+
  show ?thesis
    by (auto simp: upgrade_tier_handler_def Let_def e response_status_def [of "[_, _, _]"] new_response_def send_status_def write_bytes_def
        final_status_def split: prod.split sum.split)
qed

text \<open>With a store as repository an upgrade is visible, changes nobody else, and cannot be repeated.\<close>

definition member_get :: "(string \<rightharpoonup> member_account) \<Rightarrow> string \<Rightarrow> unit + member_account" where
  "member_get s i = (case s i of None \<Rightarrow> Inl () | Some m \<Rightarrow> Inr m)"

definition member_put :: "(string \<rightharpoonup> member_account) \<Rightarrow> member_account \<Rightarrow> unit option \<times> (string \<rightharpoonup> member_account)" where
  "member_put s m = (None, s(member_id m \<mapsto> m))"

lemma upgrade_once:
  assumes "s i = Some m" and "member_id m = i" and "member_tier m \<noteq> ''PREMIUM''"
  shows "\<exists>s1. upgrade_member_tier member_get member_put s i = (Inr (m\<lparr>member_tier := ''PREMIUM''\<rparr>), s1) \<and>
    s1 = s(i \<mapsto> m\<lparr>member_tier := ''PREMIUM''\<rparr>) \<and>
    upgrade_member_tier member_get member_put s1 i = (Inl AlreadyPremium, s1)"
  using assms by (simp add: upgrade_member_tier_def member_get_def member_put_def upgrade_to_premium_def)


section \<open>Invoices\<close>

record invoice =
  invoice_id :: string
  total_cents :: int
  tax_cents :: int
  invoice_paid :: bool
  issued_at :: gotime

definition grand_total :: "invoice \<Rightarrow> int" where
  "grand_total bill = i64 (total_cents bill + tax_cents bill)"

definition mark_as_paid :: "invoice \<Rightarrow> bool \<times> invoice" where
  "mark_as_paid bill = (if invoice_paid bill then (False, bill) else (True, bill\<lparr>invoice_paid := True\<rparr>))"

record db_invoice_row =
  inv_row_id :: string
  inv_row_total_cents :: int
  inv_row_tax_cents :: int
  inv_row_is_paid :: bool
  inv_row_created_at :: string

text \<open>\<open>parse_time\<close> is \<open>time.Parse\<close> for RFC 3339; a date it rejects is replaced by the present.\<close>

definition map_db_to_domain :: "(string \<Rightarrow> gotime option) \<Rightarrow> gotime \<Rightarrow> db_invoice_row \<Rightarrow> invoice" where
  "map_db_to_domain parse_time now row =
     \<lparr>invoice_id = inv_row_id row, total_cents = inv_row_total_cents row, tax_cents = inv_row_tax_cents row,
      invoice_paid = inv_row_is_paid row,
      issued_at = (case parse_time (inv_row_created_at row) of Some t \<Rightarrow> t | None \<Rightarrow> now)\<rparr>"

record api_invoice =
  api_invoice_id :: string
  grand_total_dollars :: f64
  api_is_paid :: bool

definition map_domain_to_api :: "invoice \<Rightarrow> api_invoice" where
  "map_domain_to_api bill =
     \<lparr>api_invoice_id = invoice_id bill, grand_total_dollars = f_div_const (f_of_int (grand_total bill)) 100,
      api_is_paid = invoice_paid bill\<rparr>"

text \<open>Up to eleven trillion dollars the cents can be read back from the number of dollars by rounding to the nearest cent.\<close>

lemma invoice_cents_recoverable:
  assumes "\<bar>grand_total bill\<bar> \<le> 2 ^ 50"
  shows "\<exists>x. grand_total_dollars (map_domain_to_api bill) = Finite x \<and> \<lfloor>100 * x + 1 / 2\<rfloor> = grand_total bill"
proof -
  define c where "c = (of_int (grand_total bill) :: rat)"
  have "\<bar>c\<bar> = of_int \<bar>grand_total bill\<bar>" by (simp add: c_def)
  also have "\<dots> \<le> of_int (2 ^ 50)" using assms by (simp only: of_int_le_iff)
  finally have c: "\<bar>c\<bar> \<le> 2 ^ 50" by simp
  have v: "f64_value (Finite (of_int (2 ^ 50)))" "f64_value (Finite (of_int (- (2 ^ 50))))" by (intro f64_value_int; simp)+
  have "of_int (- (2 ^ 50)) \<le> c / 100" "c / 100 \<le> of_int (2 ^ 50)" using c by (simp_all add: abs_le_iff)
  from round64_between [OF v(2) this v(1)] have r: "round64 (c / 100) = Finite (fl (c / 100))" by simp
  have "\<bar>c / 100\<bar> / 2 ^ 53 \<le> 1 / 800" using c by (simp add: abs_divide field_simps)
  then have "\<bar>fl (c / 100) - c / 100\<bar> \<le> 1 / 400" using fl_error [of "c / 100"] tiny by (simp add: field_simps)
  then have "c \<le> 100 * fl (c / 100) + 1 / 2" "100 * fl (c / 100) + 1 / 2 < c + 1" unfolding abs_le_iff by linarith+
  then have "\<lfloor>100 * fl (c / 100) + 1 / 2\<rfloor> = grand_total bill" unfolding c_def by (intro floor_unique)
  moreover have "f_of_int (grand_total bill) = Finite c" using assms by (simp add: f_of_int_exact c_def)
  ultimately show ?thesis using r by (simp add: map_domain_to_api_def)
qed

lemma invoice_paid_once:
  "fst (mark_as_paid bill) \<longleftrightarrow> \<not> invoice_paid bill" "fst (mark_as_paid (snd (mark_as_paid bill))) = False"
  "grand_total (snd (mark_as_paid bill)) = grand_total bill"
  by (simp_all add: mark_as_paid_def grand_total_def)


section \<open>Graceful degradation\<close>

record recommendation =
  rec_product :: string
  rec_title :: string
  is_degraded :: bool

record ('p, 'f) resilient_service =
  rs_primary :: 'p
  rs_fallback :: 'f
  rs_timeout :: duration

definition new_resilient_service :: "'p \<Rightarrow> 'f \<Rightarrow> duration \<Rightarrow> ('p, 'f) resilient_service" where
  "new_resilient_service primary fallback timeout =
     \<lparr>rs_primary = primary, rs_fallback = fallback, rs_timeout = (if timeout \<le> 0 then 100 * 1000000 else timeout)\<rparr>"

lemma resilient_timeout_positive: "0 < rs_timeout (new_resilient_service p f d)"
  by (simp add: new_resilient_service_def)

definition get_recommendations :: "('e + recommendation list) \<Rightarrow> recommendation list \<Rightarrow> recommendation list option" where
  "get_recommendations primary fallbackRecs =
     (case primary of
        Inr recs \<Rightarrow>
          if 0 < length recs then Some recs
          else if length fallbackRecs = 0 then None
          else Some (map (\<lambda>r. \<lparr>rec_product = rec_product r, rec_title = rec_title r, is_degraded = True\<rparr>) fallbackRecs)
      | Inl e \<Rightarrow>
          if length fallbackRecs = 0 then None
          else Some (map (\<lambda>r. \<lparr>rec_product = rec_product r, rec_title = rec_title r, is_degraded = True\<rparr>) fallbackRecs))"

text \<open>A user gets something unless both sources have nothing, and what comes from the fallback is marked as such.\<close>

lemma degradation:
  "(get_recommendations primary fb = None \<longleftrightarrow> (isl primary \<or> projr primary = []) \<and> fb = []) \<and>
   (get_recommendations primary fb = Some rs \<longrightarrow> rs \<noteq> [] \<and>
      (primary = Inr rs \<or> (map rec_product rs = map rec_product fb \<and> (\<forall>r \<in> set rs. is_degraded r))))"
  by (cases primary) (auto simp: get_recommendations_def comp_def split: if_splits)

end
