(* ===== verification/Signed_Tokens.thy ===== *)
theory Signed_Tokens
  imports Go_Strings
begin

text \<open>
  Tokens authenticated by an HMAC: \<open>patterns/12_auth/jwt_validator.go\<close> and
  \<open>patterns/19_security/csrf_protection.go\<close>, on byte strings, with the standard library's splitting and
  encodings of \<open>Go_Strings\<close>. \<open>hmac key data\<close> is HMAC-SHA256; \<open>marshal\<close> and \<open>unmarshal\<close> are
  \<open>encoding/json\<close> on the claims. Nothing is assumed of them except, where a theorem says so, that
  unmarshalling inverts marshalling.
\<close>

definition dot :: char where "dot = CHR ''.''"
definition colon :: char where "colon = CHR '':''"

text \<open>\<open>t.Unix()\<close>: whole seconds since the epoch.\<close>

definition unix_seconds :: "gotime \<Rightarrow> int" where
  "unix_seconds t = t div 1000000000"

lemma b64_no_dot: "dot \<notin> set (b64_encode False s)"
proof
  assume "dot \<in> set (b64_encode False s)"
  then obtain n where "n < 64" "dot = b64_char n" using b64_encode_chars by blast
  then show False using b64_char_neq(4) [of n] by (simp add: dot_def)
qed

lemma split_on_parts: "x \<in> set (split_on sep s) \<Longrightarrow> sep \<notin> set x"
proof (induction s arbitrary: x)
  case (Cons c s)
  show ?case
  proof (cases "c = sep")
    case False
    obtain p ps where "split_on sep s = p # ps" using split_on_nonempty [of sep s] by (cases "split_on sep s") auto
    with Cons False show ?thesis by auto
  qed (use Cons in auto)
qed simp

lemma split_jwt: "split_on dot (b64_encode False a @ dot # b64_encode False b @ dot # b64_encode False c)
    = [b64_encode False a, b64_encode False b, b64_encode False c]"
  using b64_no_dot by simp

lemma hex_no_sep: "dot \<notin> set (hex_encode s)" "colon \<notin> set (hex_encode s)"
  by (rule hex_encode_no_char, simp add: hex_val_def dot_def colon_def)+

lemma itoa_no_sep: "dot \<notin> set (itoa i)" "colon \<notin> set (itoa i)"
  by (rule itoa_no_char, simp_all add: digit_val_def dot_def colon_def)+


section \<open>JSON web tokens\<close>

record jwt_claims =
  subject :: string
  email :: string
  roles :: "string list"
  expires_at_unix :: int
  issued_at_unix :: int

datatype jwt_error = ErrInvalidTokenFormat | ErrInvalidSignature | MalformedPayload | UnmarshalFailed string | ErrTokenExpired

type_synonym jwt_validator = string

definition new_jwt_validator :: "string \<Rightarrow> jwt_validator" where
  "new_jwt_validator secret = secret"

text \<open>What \<open>json.Marshal\<close> makes of the fixed header map: its keys in order.\<close>

definition jwt_header :: string where
  "jwt_header = ''{\"alg\":\"HS256\",\"typ\":\"JWT\"}''"

definition signing_input :: "string \<Rightarrow> string" where
  "signing_input payloadBytes = b64_encode False jwt_header @ dot # b64_encode False payloadBytes"

definition sign_token ::
  "(string \<Rightarrow> string \<Rightarrow> string) \<Rightarrow> (jwt_claims \<Rightarrow> string + string) \<Rightarrow> jwt_validator \<Rightarrow> jwt_claims \<Rightarrow> string + string" where
  "sign_token hmac marshal v claims =
     (case marshal claims of
        Inl err \<Rightarrow> Inl err
      | Inr payloadBytes \<Rightarrow>
          (let signingInput = signing_input payloadBytes
           in Inr (signingInput @ dot # b64_encode False (hmac v signingInput))))"

definition validate_token ::
  "(string \<Rightarrow> string \<Rightarrow> string) \<Rightarrow> (string \<Rightarrow> string + jwt_claims) \<Rightarrow> jwt_validator \<Rightarrow> gotime \<Rightarrow> string \<Rightarrow> jwt_error + jwt_claims" where
  "validate_token hmac unmarshal v now tokenStr =
     (case split_on dot tokenStr of
        [headerB64, payloadB64, sigB64] \<Rightarrow>
          (let expectedSig = hmac v (headerB64 @ dot # payloadB64)
           in case b64_decode False sigB64 of
                None \<Rightarrow> Inl ErrInvalidSignature
              | Some providedSig \<Rightarrow>
                  if expectedSig \<noteq> providedSig then Inl ErrInvalidSignature
                  else (case b64_decode False payloadB64 of
                          None \<Rightarrow> Inl MalformedPayload
                        | Some payloadBytes \<Rightarrow>
                            (case unmarshal payloadBytes of
                               Inl e \<Rightarrow> Inl (UnmarshalFailed e)
                             | Inr claims \<Rightarrow>
                                 if 0 < expires_at_unix claims \<and> expires_at_unix claims \<le> unix_seconds now
                                 then Inl ErrTokenExpired else Inr claims)))
      | _ \<Rightarrow> Inl ErrInvalidTokenFormat)"

lemma signed_parts:
  assumes "marshal c = Inr p" and "sign_token hmac marshal v c = Inr tok"
  shows "split_on dot tok = [b64_encode False jwt_header, b64_encode False p, b64_encode False (hmac v (signing_input p))]"
proof -
  have "tok = b64_encode False jwt_header @ dot # b64_encode False p @ dot # b64_encode False (hmac v (signing_input p))"
    using assms by (simp add: sign_token_def signing_input_def Let_def)
  then show ?thesis by (simp only: split_jwt)
qed

text \<open>What is checked of a token in three parts whose third part decodes.\<close>

lemma validate_parts:
  assumes "split_on dot tok = [h, q, s]" and "b64_decode False s = Some sig"
  shows "validate_token hmac unmarshal v now tok =
    (if hmac v (h @ dot # q) \<noteq> sig then Inl ErrInvalidSignature
     else (case b64_decode False q of
             None \<Rightarrow> Inl MalformedPayload
           | Some payloadBytes \<Rightarrow>
               (case unmarshal payloadBytes of
                  Inl e \<Rightarrow> Inl (UnmarshalFailed e)
                | Inr claims \<Rightarrow>
                    if 0 < expires_at_unix claims \<and> expires_at_unix claims \<le> unix_seconds now
                    then Inl ErrTokenExpired else Inr claims)))"
  using assms by (simp add: validate_token_def Let_def)

text \<open>C38: signed tokens are authentic. For claims that survive the JSON round trip, a token that the validator signed is
  accepted with its claims if they carry no expiry or it lies ahead, and refused as expired otherwise. A token in three parts
  that carries the same signature, in whatever spelling, but another header or payload is refused as not properly
  signed, provided that it is no HMAC collision with the signed one; with the same header and payload it counts as the signed token. A
  validator whose secret gives the token another HMAC refuses it.\<close>

theorem jwt_authentic:
  assumes "marshal c = Inr p" and "unmarshal p = Inr c" and "sign_token hmac marshal v c = Inr tok"
    and "split_on dot forged = [h, q, s]"
    and "h @ dot # q \<noteq> signing_input p \<longrightarrow> hmac v (h @ dot # q) \<noteq> hmac v (signing_input p)"
  shows "validate_token hmac unmarshal v now tok
      = (if 0 < expires_at_unix c \<and> expires_at_unix c \<le> unix_seconds now then Inl ErrTokenExpired else Inr c)
    \<and> (b64_decode False s = b64_decode False (last (split_on dot tok)) \<longrightarrow>
        validate_token hmac unmarshal v now forged
          = (if [h, q] = butlast (split_on dot tok) then validate_token hmac unmarshal v now tok else Inl ErrInvalidSignature))
    \<and> (hmac w (signing_input p) \<noteq> hmac v (signing_input p) \<longrightarrow>
        validate_token hmac unmarshal w now tok = Inl ErrInvalidSignature)"
proof -
  note parts = signed_parts [OF assms(1,3)]
  note tok = validate_parts [OF parts b64_decode_encode, where hmac = hmac and unmarshal = unmarshal and now = now]
  have sep: "dot \<notin> set h" "dot \<notin> set (b64_encode False jwt_header)"
    using split_on_parts [of h dot forged] assms(4) b64_no_dot [of jwt_header] by simp_all
  have same: "h @ dot # q = signing_input p \<longleftrightarrow> [h, q] = butlast (split_on dot tok)"
  proof (intro iffI)
    assume eq: "h @ dot # q = signing_input p"
    then have "h # split_on dot q = b64_encode False jwt_header # split_on dot (b64_encode False p)"
      using split_on_append [OF sep(1), of q] split_on_append [OF sep(2), of "b64_encode False p"]
      by (simp only: signing_input_def)
    with eq show "[h, q] = butlast (split_on dot tok)" by (simp add: parts signing_input_def)
  qed (simp add: parts signing_input_def)
  have "validate_token hmac unmarshal v now forged
      = (if [h, q] = butlast (split_on dot tok) then validate_token hmac unmarshal v now tok else Inl ErrInvalidSignature)"
    if s: "b64_decode False s = b64_decode False (last (split_on dot tok))"
  proof -
    have "b64_decode False s = Some (hmac v (signing_input p))" using s by (simp add: parts b64_decode_encode)
    note forged = validate_parts [OF assms(4) this, where hmac = hmac and unmarshal = unmarshal and now = now and v = v]
    show ?thesis
    proof (cases "h @ dot # q = signing_input p")
      case True
      then have "h = b64_encode False jwt_header" "q = b64_encode False p" using same by (simp_all add: parts)
      then show ?thesis by (simp add: forged tok parts)
    next
      case False
      with assms(5) same show ?thesis by (simp add: forged)
    qed
  qed
  moreover have "validate_token hmac unmarshal v now tok
      = (if 0 < expires_at_unix c \<and> expires_at_unix c \<le> unix_seconds now then Inl ErrTokenExpired else Inr c)"
    by (simp add: tok signing_input_def b64_decode_encode assms(2))
  moreover have "validate_token hmac unmarshal w now tok = Inl ErrInvalidSignature"
    if "hmac w (signing_input p) \<noteq> hmac v (signing_input p)"
    using that by (simp add: tok signing_input_def)
  ultimately show ?thesis by blast
qed

definition demo_claims :: jwt_claims where
  "demo_claims = \<lparr>subject = ''u'', email = [], roles = [], expires_at_unix = 100, issued_at_unix = 0\<rparr>"

text \<open>The payload exchanged under the old signature.\<close>

theorem jwt_authentic_witness:
  "\<exists>tok forged. sign_token (\<lambda>k d. k @ d) (\<lambda>_. Inr ''c'') ''key'' demo_claims = Inr tok
     \<and> split_on dot forged = [b64_encode False jwt_header, b64_encode False ''d'', last (split_on dot tok)]
     \<and> validate_token (\<lambda>k d. k @ d) (\<lambda>_. Inr demo_claims) ''key'' 99000000000 tok = Inr demo_claims
     \<and> validate_token (\<lambda>k d. k @ d) (\<lambda>_. Inr demo_claims) ''key'' 99000000000 forged = Inl ErrInvalidSignature
     \<and> validate_token (\<lambda>k d. k @ d) (\<lambda>_. Inr demo_claims) ''kex'' 99000000000 tok = Inl ErrInvalidSignature"
proof -
  let ?m = "\<lambda>k d :: string. k @ d" and ?enc = "\<lambda>c :: jwt_claims. Inr ''c'' :: string + string"
    and ?dec = "\<lambda>p :: string. Inr demo_claims :: string + jwt_claims"
  obtain tok where tok: "sign_token ?m ?enc ''key'' demo_claims = Inr tok" by (simp add: sign_token_def Let_def)
  note parts = signed_parts [where marshal = ?enc, OF refl tok]
  let ?s = "b64_encode False (?m ''key'' (signing_input ''c''))"
  let ?forged = "b64_encode False jwt_header @ dot # b64_encode False ''d'' @ dot # ?s"
  have f: "split_on dot ?forged = [b64_encode False jwt_header, b64_encode False ''d'', ?s]" by (rule split_jwt)
  have last: "last (split_on dot tok) = ?s" by (simp only: parts last.simps list.distinct simp_thms if_False if_True)
  have "b64_encode False ''d'' \<noteq> b64_encode False ''c''"
  proof
    assume "b64_encode False ''d'' = b64_encode False ''c''"
    then have "b64_decode False (b64_encode False ''d'') = b64_decode False (b64_encode False ''c'')" by (rule arg_cong)
    then show False unfolding b64_decode_encode by simp
  qed
  then have ne: "[b64_encode False jwt_header, b64_encode False ''d''] \<noteq> butlast (split_on dot tok)"
    by (simp only: parts butlast.simps list.distinct list.inject if_False if_True) blast
  have inj: "h \<noteq> signing_input ''c'' \<longrightarrow> ?m ''key'' h \<noteq> ?m ''key'' (signing_input ''c'')" for h by simp
  have key: "?m ''kex'' (signing_input ''c'') \<noteq> ?m ''key'' (signing_input ''c'')" by simp
  note r = jwt_authentic [where marshal = ?enc and unmarshal = ?dec and hmac = ?m and w = "''kex''"
      and now = 99000000000, OF refl refl tok f inj]
  have "\<not> (0 < expires_at_unix demo_claims \<and> expires_at_unix demo_claims \<le> unix_seconds 99000000000)"
    by (simp add: demo_claims_def unix_seconds_def)
  with r have "validate_token ?m ?dec ''key'' 99000000000 tok = Inr demo_claims" by (simp only: if_False)
  moreover from r ne last have "validate_token ?m ?dec ''key'' 99000000000 ?forged = Inl ErrInvalidSignature"
    by (simp only: if_False)
  moreover from r key have "validate_token ?m ?dec ''kex'' 99000000000 tok = Inl ErrInvalidSignature" by blast
  ultimately show ?thesis using tok f last by metis
qed


section \<open>CSRF tokens\<close>

record csrf_manager =
  csrf_secret :: string
  csrf_ttl :: duration

datatype csrf_error = ErrCSRFInvalid | ErrCSRFExpired

definition new_csrf_manager :: "string \<Rightarrow> duration \<Rightarrow> csrf_manager" where
  "new_csrf_manager secret ttl = \<lparr>csrf_secret = secret, csrf_ttl = (if ttl = 0 then 3600000000000 else ttl)\<rparr>"

text \<open>\<open>nonce\<close> is what \<open>rand.Read\<close> filled in; \<open>None\<close> if it failed.\<close>

definition generate_csrf ::
  "(string \<Rightarrow> string \<Rightarrow> string) \<Rightarrow> csrf_manager \<Rightarrow> string option \<Rightarrow> gotime \<Rightarrow> string \<Rightarrow> string option" where
  "generate_csrf hmac m nonce now sessionID =
     (case nonce of
        None \<Rightarrow> None
      | Some bytes \<Rightarrow>
          (let expiresAt = unix_seconds (now + csrf_ttl m);
               payload = sessionID @ colon # hex_encode bytes @ colon # itoa expiresAt
           in Some (payload @ dot # hex_encode (hmac (csrf_secret m) payload))))"

definition validate_csrf ::
  "(string \<Rightarrow> string \<Rightarrow> string) \<Rightarrow> csrf_manager \<Rightarrow> gotime \<Rightarrow> string \<Rightarrow> string \<Rightarrow> csrf_error option" where
  "validate_csrf hmac m now sessionID token =
     (case split_on dot token of
        [payload, sigHex] \<Rightarrow>
          (case hex_decode sigHex of
             None \<Rightarrow> Some ErrCSRFInvalid
           | Some providedSig \<Rightarrow>
               if hmac (csrf_secret m) payload \<noteq> providedSig then Some ErrCSRFInvalid
               else (case split_on colon payload of
                       [tokenSessionID, nonceHex, expStr] \<Rightarrow>
                         if tokenSessionID \<noteq> sessionID then Some ErrCSRFInvalid
                         else (case parse_int expStr of
                                 Inl _ \<Rightarrow> Some ErrCSRFExpired
                               | Inr e \<Rightarrow> if e \<le> unix_seconds now then Some ErrCSRFExpired else None)
                     | _ \<Rightarrow> Some ErrCSRFInvalid))
      | _ \<Rightarrow> Some ErrCSRFInvalid)"

lemma split_on_count: "split_on c s = [a, b] \<Longrightarrow> count_list s c = 1" "split_on c s = [a, b, d] \<Longrightarrow> count_list s c = 2"
  using length_split_on [of c s] by auto

lemma count_list_pos: "c \<in> set s \<Longrightarrow> 0 < count_list s c"
  by (metis count_list_0_iff gr0I)

text \<open>a CSRF token protects its own session until it expires, if the session id can be carried. A token
  generated for a session is accepted for exactly that session and up to the expiry; but if the session id
  contains a dot or a colon, the characters that separate the parts, the token is never accepted.\<close>

theorem csrf_roundtrip:
  assumes "generate_csrf hmac m (Some nonce) t0 sid = Some token" and "in64 (unix_seconds (t0 + csrf_ttl m))"
  shows "validate_csrf hmac m now sid' token =
    (if dot \<in> set sid \<or> colon \<in> set sid \<or> sid' \<noteq> sid then Some ErrCSRFInvalid
     else if unix_seconds (t0 + csrf_ttl m) \<le> unix_seconds now then Some ErrCSRFExpired else None)"
proof -
  let ?e = "itoa (unix_seconds (t0 + csrf_ttl m))"
  let ?p = "sid @ colon # hex_encode nonce @ colon # ?e"
  let ?s = "hex_encode (hmac (csrf_secret m) ?p)"
  have tok: "token = ?p @ dot # ?s" using assms(1) by (simp add: generate_csrf_def Let_def)
  show ?thesis
  proof (cases "dot \<in> set sid")
    case True
    then have "count_list token dot \<ge> 2" using count_list_pos [of dot sid] by (simp add: tok)
    then have "split_on dot token \<noteq> [a, b]" for a b using split_on_count(1) [of dot token a b] by auto
    then have "validate_csrf hmac m now sid' token = Some ErrCSRFInvalid"
      by (auto simp: validate_csrf_def split: list.splits)
    with True show ?thesis by simp
  next
    case nd: False
    have "dot \<notin> set ?p" using nd hex_no_sep itoa_no_sep by (auto simp: dot_def colon_def)
    then have s: "split_on dot token = [?p, ?s]" unfolding tok using hex_no_sep(1) by (simp only: split_on_append split_on_none not_False_eq_True)
    show ?thesis
    proof (cases "colon \<in> set sid")
      case True
      then have "count_list ?p colon \<ge> 3" using count_list_pos [of colon sid] by simp
      then have "split_on colon ?p \<noteq> [a, b, c]" for a b c using split_on_count(2) [of colon ?p a b c] by auto
      then have "validate_csrf hmac m now sid' token = Some ErrCSRFInvalid"
        unfolding validate_csrf_def s by (auto split: list.splits)
      with True show ?thesis by simp
    next
      case False
      then have "split_on colon ?p = [sid, hex_encode nonce, ?e]" using hex_no_sep(2) itoa_no_sep(2) by simp
      then show ?thesis using nd False unfolding validate_csrf_def s
        by (simp add: parse_int_itoa [OF assms(2)])
    qed
  qed
qed

theorem csrf_roundtrip_witness:
  "\<exists>token. generate_csrf (\<lambda>k d. k) (new_csrf_manager ''key'' 0) (Some ''n'') 0 ''s1'' = Some token
     \<and> validate_csrf (\<lambda>k d. k) (new_csrf_manager ''key'' 0) 5 ''s1'' token = None
     \<and> validate_csrf (\<lambda>k d. k) (new_csrf_manager ''key'' 0) 5 ''s2'' token = Some ErrCSRFInvalid"
proof -
  let ?m = "new_csrf_manager ''key'' 0"
  obtain token where t: "generate_csrf (\<lambda>k d. k) ?m (Some ''n'') 0 ''s1'' = Some token"
    by (simp add: generate_csrf_def Let_def)
  have "in64 (unix_seconds (0 + csrf_ttl ?m))" by (simp add: unix_seconds_def new_csrf_manager_def in64_def)
  note r = csrf_roundtrip [OF t this]
  have "\<not> unix_seconds (0 + csrf_ttl ?m) \<le> unix_seconds 5" by (simp add: unix_seconds_def new_csrf_manager_def)
  then show ?thesis using t r [of 5 "''s1''"] r [of 5 "''s2''"] by (simp add: dot_def colon_def)
qed

end
