(* ===== verification/Stale_Flights.thy ===== *)
theory Stale_Flights
  imports Flight_Caches
begin

text \<open>
  \<open>Fetch\<close> of \<open>patterns/26_advanced/singleflight_cache.go\<close> with overlapping calls: the lookup, \<open>Do\<close> of the singleflight group
  around the query, the filling of the cache and of the stale copies, and the fallback are steps of their own. The list of
  queries, with the time at which each began, is only recorded.
\<close>

datatype 'v fetch_pc =
    FOut
  | FMissed string duration
  | FQuerying string duration
  | FStoring string duration 'v
  | FKeeping string 'v
  | FFlying
  | FLanded string "string + 'v"
  | FAnswered string "string + 'v \<times> bool"

record 'v fetch_sys =
  fs_cache :: "'v stale_cache"
  fs_flight :: "(string + 'v) singleflight"
  fs_pc :: "nat \<Rightarrow> 'v fetch_pc"
  fs_queries :: "string list"

definition new_fetch_sys :: "'v fetch_sys" where
  "new_fetch_sys = \<lparr>fs_cache = new_stale_cache, fs_flight = new_singleflight_group, fs_pc = (\<lambda>t. FOut), fs_queries = []\<rparr>"

datatype 'v fetch_event =
    FetchLookup nat string duration gotime
  | FetchEnter nat
  | QueryReturns nat "string + 'v"
  | QueryPanics nat
  | FillFresh nat gotime
  | KeepStale nat
  | FetchLeave nat
  | FetchFallback nat

definition fs_goto :: "'v fetch_sys \<Rightarrow> nat \<Rightarrow> 'v fetch_pc \<Rightarrow> 'v fetch_sys" where
  "fs_goto s t c = s\<lparr>fs_pc := (fs_pc s)(t := c)\<rparr>"

definition fs_fly :: "'v fetch_sys \<Rightarrow> nat \<Rightarrow> (string + 'v) sf_event \<Rightarrow> 'v fetch_sys option" where
  "fs_fly s t e = map_option (\<lambda>f. fs_goto (s\<lparr>fs_flight := f\<rparr>) t FFlying) (sf_step (fs_flight s) e)"

definition fetching_pc :: "'v fetch_pc \<Rightarrow> bool" where
  "fetching_pc c \<longleftrightarrow> (case c of FOut \<Rightarrow> False | FAnswered k r \<Rightarrow> False | _ \<Rightarrow> True)"

fun fetch_step :: "'v fetch_sys \<Rightarrow> 'v fetch_event \<Rightarrow> 'v fetch_sys option" where
  "fetch_step s (FetchLookup t key ttl now) =
     (if fetching_pc (fs_pc s t) then None
      else case mem_get (fresh (fs_cache s)) now key of
             Inr v \<Rightarrow> Some (fs_goto s t (FAnswered key (Inr (v, False))))
           | Inl miss \<Rightarrow> Some (fs_goto s t (FMissed key ttl)))"
| "fetch_step s (FetchEnter t) =
     (case fs_pc s t of
        FMissed key ttl \<Rightarrow>
          (case sf_step (fs_flight s) (DoEnter t key) of
             None \<Rightarrow> None
           | Some f \<Rightarrow>
               (case sf_pc f t of
                  SLeading k r \<Rightarrow> Some (fs_goto (s\<lparr>fs_flight := f, fs_queries := fs_queries s @ [key]\<rparr>) t (FQuerying key ttl))
                | _ \<Rightarrow> Some (fs_goto (s\<lparr>fs_flight := f\<rparr>) t FFlying)))
      | _ \<Rightarrow> None)"
| "fetch_step s (QueryReturns t res) =
     (case fs_pc s t of
        FQuerying key ttl \<Rightarrow>
          (case res of
             Inl e \<Rightarrow> fs_fly s t (FnReturns t (Inl e))
           | Inr v \<Rightarrow> Some (fs_goto s t (FStoring key ttl v)))
      | _ \<Rightarrow> None)"
| "fetch_step s (QueryPanics t) =
     (case fs_pc s t of FQuerying key ttl \<Rightarrow> fs_fly s t (FnPanics t) | _ \<Rightarrow> None)"
| "fetch_step s (FillFresh t now) =
     (case fs_pc s t of
        FStoring key ttl v \<Rightarrow>
          Some (fs_goto (s\<lparr>fs_cache := (fs_cache s)\<lparr>fresh := snd (mem_set (fresh (fs_cache s)) now key v ttl)\<rparr>\<rparr>) t (FKeeping key v))
      | _ \<Rightarrow> None)"
| "fetch_step s (KeepStale t) =
     (case fs_pc s t of
        FKeeping key v \<Rightarrow>
          fs_fly (s\<lparr>fs_cache := (fs_cache s)\<lparr>stale := (stale (fs_cache s))(key \<mapsto> v)\<rparr>\<rparr>) t (FnReturns t (Inr v))
      | _ \<Rightarrow> None)"
| "fetch_step s (FetchLeave t) =
     (case fs_pc s t of
        FFlying \<Rightarrow>
          (case sf_step (fs_flight s) (case sf_pc (fs_flight s) t of SFinished k r \<Rightarrow> DeleteKey t | _ \<Rightarrow> WaitReturns t) of
             None \<Rightarrow> None
           | Some f \<Rightarrow>
               (case sf_pc f t of
                  SGot k r v b \<Rightarrow> Some (fs_goto (s\<lparr>fs_flight := f\<rparr>) t (FLanded k v))
                | _ \<Rightarrow> None))
      | _ \<Rightarrow> None)"
| "fetch_step s (FetchFallback t) =
     (case fs_pc s t of
        FLanded key res \<Rightarrow>
          (case res of
             Inr v \<Rightarrow> Some (fs_goto s t (FAnswered key (Inr (v, False))))
           | Inl e \<Rightarrow>
               (case stale (fs_cache s) key of
                  Some v \<Rightarrow> Some (fs_goto s t (FAnswered key (Inr (v, True))))
                | None \<Rightarrow> Some (fs_goto s t (FAnswered key (Inl e)))))
      | _ \<Rightarrow> None)"

lemma fs_goto_simps [simp]:
  "fs_cache (fs_goto s t c) = fs_cache s" "fs_pc (fs_goto s t c) = (fs_pc s)(t := c)" "fs_flight (fs_goto s t c) = fs_flight s"
  "fs_queries (fs_goto s t c) = fs_queries s"
  by (simp_all add: fs_goto_def)

lemma fs_fly_frame: "fs_fly s t e = Some s' \<Longrightarrow> fs_cache s' = fs_cache s \<and> fs_pc s' = (fs_pc s)(t := FFlying)"
  by (auto simp: fs_fly_def)

text \<open>A step moves one call; it never removes a stale copy, and it answers with an error only if there is none.\<close>

fun fetch_actor :: "'v fetch_event \<Rightarrow> nat" where
  "fetch_actor (FetchLookup t k ttl now) = t"
| "fetch_actor (FetchEnter t) = t"
| "fetch_actor (QueryReturns t r) = t"
| "fetch_actor (QueryPanics t) = t"
| "fetch_actor (FillFresh t now) = t"
| "fetch_actor (KeepStale t) = t"
| "fetch_actor (FetchLeave t) = t"
| "fetch_actor (FetchFallback t) = t"

lemma fetch_step_effect:
  assumes "fetch_step s e = Some s'"
  shows "\<exists>c. fs_pc s' = (fs_pc s)(fetch_actor e := c) \<and> (\<forall>k err. c = FAnswered k (Inl err) \<longrightarrow> stale (fs_cache s) k = None)
    \<and> dom (stale (fs_cache s)) \<subseteq> dom (stale (fs_cache s'))"
proof (cases e)
  case (FetchLookup t key ttl now)
  then show ?thesis using assms by (auto split: if_splits sum.splits)
next
  case (FetchEnter t)
  then show ?thesis using assms by (auto simp del: sf_step.simps split: fetch_pc.splits option.splits sf_pc.splits)
next
  case (QueryReturns t res)
  then show ?thesis using assms by (auto dest!: fs_fly_frame split: fetch_pc.splits sum.splits)
next
  case (QueryPanics t)
  then show ?thesis using assms by (auto dest!: fs_fly_frame split: fetch_pc.splits)
next
  case (FillFresh t now)
  then show ?thesis using assms by (auto split: fetch_pc.splits)
next
  case (KeepStale t)
  then show ?thesis using assms by (auto dest!: fs_fly_frame split: fetch_pc.splits)
next
  case (FetchLeave t)
  then show ?thesis using assms by (auto simp del: sf_step.simps split: fetch_pc.splits option.splits sf_pc.splits)
next
  case (FetchFallback t)
  then show ?thesis using assms by (auto split: fetch_pc.splits sum.splits option.splits)
qed

text \<open>Once a key has a stale copy it stays readable, under every interleaving and whatever the database does: a call that is
  not answered yet will not be answered with an error.\<close>

lemma stale_copy_available:
  assumes "run_events fetch_step s es = Some s'" and "stale (fs_cache s) k \<noteq> None"
    and "fs_pc s t \<noteq> FAnswered k (Inl err)"
  shows "fs_pc s' t \<noteq> FAnswered k (Inl err)"
proof -
  have "stale (fs_cache s') k \<noteq> None \<and> fs_pc s' t \<noteq> FAnswered k (Inl err)"
  proof (rule run_events_inv [OF assms(1), where I = "\<lambda>s. stale (fs_cache s) k \<noteq> None \<and> fs_pc s t \<noteq> FAnswered k (Inl err)"])
    fix u e v
    assume I: "stale (fs_cache u) k \<noteq> None \<and> fs_pc u t \<noteq> FAnswered k (Inl err)" and st: "fetch_step u e = Some v"
    obtain c where c: "fs_pc v = (fs_pc u)(fetch_actor e := c)" "\<forall>k err. c = FAnswered k (Inl err) \<longrightarrow> stale (fs_cache u) k = None"
        "dom (stale (fs_cache u)) \<subseteq> dom (stale (fs_cache v))" using fetch_step_effect [OF st] by blast
    have "stale (fs_cache v) k \<noteq> None" using c(3) I by (metis domIff subsetD)
    moreover have "fs_pc v t \<noteq> FAnswered k (Inl err)"
    proof (cases "t = fetch_actor e")
      case True
      then have "fs_pc v t = c" using c(1) by simp
      then show ?thesis using c(2) I by metis
    next
      case False
      then have "fs_pc v t = fs_pc u t" using c(1) by simp
      then show ?thesis using I by simp
    qed
    ultimately show "stale (fs_cache v) k \<noteq> None \<and> fs_pc v t \<noteq> FAnswered k (Inl err)" by blast
  qed (use assms(2,3) in blast)
  then show ?thesis by blast
qed

text \<open>Unlike \<open>GetOrCompute\<close>, the leader does not look the key up again. A call that missed before the key was stored and enters
  \<open>Do\<close> after that flight has ended queries the database a second time, while the stored value is still good.\<close>

definition demo_refetch :: "int fetch_event list" where
  "demo_refetch = [FetchLookup 1 ''k'' 100 0, FetchLookup 2 ''k'' 100 0, FetchEnter 1, QueryReturns 1 (Inr 7), FillFresh 1 1,
     KeepStale 1, FetchLeave 1, FetchFallback 1, FetchEnter 2]"

lemma refetch_within_ttl:
  "\<exists>s. run_events fetch_step new_fetch_sys demo_refetch = Some s \<and> fs_queries s = [''k'', ''k'']
     \<and> mem_get (fresh (fs_cache s)) 2 ''k'' = Inr 7 \<and> fs_pc s 2 = FQuerying ''k'' 100"
  by (simp add: demo_refetch_def new_fetch_sys_def new_stale_cache_def new_singleflight_group_def fetching_pc_def mem_get_def
      mem_set_def new_memory_cache_def idle_pc_def fs_fly_def fs_goto_def sf_goto_def set_call_def)

text \<open>A call that runs alone is \<open>fetch_stale\<close>.\<close>

lemma alone_is_fetch_stale:
  assumes "\<not> fetching_pc (fs_pc s t)" and "idle_pc (sf_pc (fs_flight s) t)" and "sf_map (fs_flight s) key = None"
    and "mem_get (fresh (fs_cache s)) now1 key = Inl miss"
  shows "\<exists>s'. run_events fetch_step s
      ([FetchLookup t key ttl now1, FetchEnter t, QueryReturns t q] @ (if isl q then [] else [FillFresh t now2, KeepStale t]) @
        [FetchLeave t, FetchFallback t]) = Some s'
    \<and> fetch_stale now1 now2 key ttl q (fs_cache s) = (case fs_pc s' t of FAnswered k r \<Rightarrow> r, fs_cache s')
    \<and> (\<exists>r. fs_pc s' t = FAnswered key r)"
  using assms by (cases q; cases "stale (fs_cache s) key") (simp_all add: fetch_stale_def do_alone_def fs_fly_def Let_def)

end
