(* ===== verification/Stampede.thy ===== *)
theory Stampede
  imports Flight_Caches
begin

text \<open>
  \<open>GetOrCompute\<close> of \<open>patterns/14_caching/stampede_prevention.go\<close> with overlapping calls: every call looks the key up, enters
  \<open>Do\<close> of the singleflight group (\<open>Singleflight\<close>), and the one that leads looks the key up again, fetches, and stores what it
  fetched. Each of these is a step of its own, and the steps of all callers interleave. The log records when a fetch begins
  and what was stored; no step reads it.
\<close>

datatype 'v goc_pc =
    GOut
  | GMissed string duration
  | GChecking string duration
  | GFetching string duration
  | GStoring string duration 'v
  | GFlying
  | GReturned string "string + 'v"

datatype 'v fetch_entry =
    FetchStarted string gotime
  | FetchFailed string
  | FetchStored string 'v gotime duration

record ('s, 'v) stampede =
  shared_cache :: 's
  flight :: "(string + 'v) singleflight"
  goc_pc :: "nat \<Rightarrow> 'v goc_pc"
  fetch_log :: "'v fetch_entry list"

definition new_stampede :: "'s \<Rightarrow> ('s, 'v) stampede" where
  "new_stampede c = \<lparr>shared_cache = c, flight = new_singleflight_group, goc_pc = (\<lambda>t. GOut), fetch_log = []\<rparr>"

datatype 'v goc_event =
    Lookup nat string duration gotime
  | EnterDo nat
  | Recheck nat gotime
  | FetchReturns nat "string + 'v"
  | FetchPanics nat
  | StoreResult nat gotime
  | LeaveDo nat

definition goc_goto :: "('s, 'v) stampede \<Rightarrow> nat \<Rightarrow> 'v goc_pc \<Rightarrow> ('s, 'v) stampede" where
  "goc_goto s t c = s\<lparr>goc_pc := (goc_pc s)(t := c)\<rparr>"

definition fly :: "('s, 'v) stampede \<Rightarrow> nat \<Rightarrow> (string + 'v) sf_event \<Rightarrow> ('s, 'v) stampede option" where
  "fly s t e = map_option (\<lambda>f. goc_goto (s\<lparr>flight := f\<rparr>) t GFlying) (sf_step (flight s) e)"

definition record_entry :: "('s, 'v) stampede \<Rightarrow> 'v fetch_entry \<Rightarrow> ('s, 'v) stampede" where
  "record_entry s x = s\<lparr>fetch_log := fetch_log s @ [x]\<rparr>"

definition calling :: "'v goc_pc \<Rightarrow> bool" where
  "calling c \<longleftrightarrow> (case c of GOut \<Rightarrow> False | GReturned k r \<Rightarrow> False | _ \<Rightarrow> True)"

fun stampede_step :: "('s, 'v) cache_client \<Rightarrow> ('s, 'v) stampede \<Rightarrow> 'v goc_event \<Rightarrow> ('s, 'v) stampede option" where
  "stampede_step C s (Lookup t key ttl now) =
     (if calling (goc_pc s t) then None
      else case cc_get C (shared_cache s) now key of
             Inr v \<Rightarrow> Some (goc_goto s t (GReturned key (Inr v)))
           | Inl miss \<Rightarrow> Some (goc_goto s t (GMissed key ttl)))"
| "stampede_step C s (EnterDo t) =
     (case goc_pc s t of
        GMissed key ttl \<Rightarrow>
          (case sf_step (flight s) (DoEnter t key) of
             None \<Rightarrow> None
           | Some f \<Rightarrow>
               Some (goc_goto (s\<lparr>flight := f\<rparr>) t
                 (case sf_pc f t of SLeading k r \<Rightarrow> GChecking key ttl | _ \<Rightarrow> GFlying)))
      | _ \<Rightarrow> None)"
| "stampede_step C s (Recheck t now) =
     (case goc_pc s t of
        GChecking key ttl \<Rightarrow>
          (case cc_get C (shared_cache s) now key of
             Inr v \<Rightarrow> fly s t (FnReturns t (Inr v))
           | Inl miss \<Rightarrow> Some (record_entry (goc_goto s t (GFetching key ttl)) (FetchStarted key now)))
      | _ \<Rightarrow> None)"
| "stampede_step C s (FetchReturns t res) =
     (case goc_pc s t of
        GFetching key ttl \<Rightarrow>
          (case res of
             Inl e \<Rightarrow> fly (record_entry s (FetchFailed key)) t (FnReturns t (Inl e))
           | Inr v \<Rightarrow> Some (goc_goto s t (GStoring key ttl v)))
      | _ \<Rightarrow> None)"
| "stampede_step C s (FetchPanics t) =
     (case goc_pc s t of
        GFetching key ttl \<Rightarrow> fly (record_entry s (FetchFailed key)) t (FnPanics t)
      | _ \<Rightarrow> None)"
| "stampede_step C s (StoreResult t now) =
     (case goc_pc s t of
        GStoring key ttl v \<Rightarrow>
          fly (record_entry (s\<lparr>shared_cache := snd (cc_set C (shared_cache s) now key v ttl)\<rparr>) (FetchStored key v now ttl))
            t (FnReturns t (Inr v))
      | _ \<Rightarrow> None)"
| "stampede_step C s (LeaveDo t) =
     (case goc_pc s t of
        GFlying \<Rightarrow>
          (case sf_step (flight s) (case sf_pc (flight s) t of SFinished k r \<Rightarrow> DeleteKey t | _ \<Rightarrow> WaitReturns t) of
             None \<Rightarrow> None
           | Some f \<Rightarrow>
               (case sf_pc f t of
                  SGot k r v b \<Rightarrow> Some (goc_goto (s\<lparr>flight := f\<rparr>) t (GReturned k v))
                | _ \<Rightarrow> None))
      | _ \<Rightarrow> None)"

text \<open>The readings of the clock, in the order of the steps.\<close>

fun reading :: "'v goc_event \<Rightarrow> gotime list" where
  "reading (Lookup t key ttl now) = [now]"
| "reading (Recheck t now) = [now]"
| "reading (StoreResult t now) = [now]"
| "reading _ = []"

definition readings :: "'v goc_event list \<Rightarrow> gotime list" where
  "readings es = concat (map reading es)"

lemma goc_simps [simp]:
  "shared_cache (goc_goto s t c) = shared_cache s" "flight (goc_goto s t c) = flight s"
  "goc_pc (goc_goto s t c) = (goc_pc s)(t := c)" "fetch_log (goc_goto s t c) = fetch_log s"
  "shared_cache (record_entry s x) = shared_cache s" "flight (record_entry s x) = flight s" "goc_pc (record_entry s x) = goc_pc s"
  "fetch_log (record_entry s x) = fetch_log s @ [x]"
  by (simp_all add: goc_goto_def record_entry_def)


section \<open>Who runs the function\<close>

fun in_closure :: "'v goc_pc \<Rightarrow> string option" where
  "in_closure (GChecking k ttl) = Some k"
| "in_closure (GFetching k ttl) = Some k"
| "in_closure (GStoring k ttl v) = Some k"
| "in_closure _ = None"

fun fetches :: "'v goc_pc \<Rightarrow> string option" where
  "fetches (GFetching k ttl) = Some k"
| "fetches (GStoring k ttl v) = Some k"
| "fetches _ = None"

lemma fetches_in_closure: "fetches c = Some k \<Longrightarrow> in_closure c = Some k"
  by (cases c) auto

definition stored_in :: "'v fetch_entry list \<Rightarrow> string \<Rightarrow> 'v \<Rightarrow> bool" where
  "stored_in xs k v \<longleftrightarrow> (\<exists>t ttl. FetchStored k v t ttl \<in> set xs)"

lemma stored_in_append [simp]: "stored_in (xs @ [x]) k v \<longleftrightarrow> stored_in xs k v \<or> (\<exists>t ttl. x = FetchStored k v t ttl)"
  by (auto simp: stored_in_def)

text \<open>Whoever is inside the function leads the flight of its key, and a value that a flight has, that the cache holds or that a call
  has returned was stored for that key.\<close>

definition flight_ok :: "(nat \<Rightarrow> string) \<Rightarrow> ('s, 'v) stampede \<Rightarrow> bool" where
  "flight_ok ko s \<longleftrightarrow> sf_inv ko (flight s)
     \<and> (\<forall>t k. in_closure (goc_pc s t) = Some k \<longrightarrow> (\<exists>r. sf_pc (flight s) t = SLeading k r))
     \<and> (\<forall>r v. call_result (sf_calls (flight s) r) = Some (Inr v) \<longrightarrow> stored_in (fetch_log s) (ko r) v)
     \<and> (\<forall>t k v. goc_pc s t = GReturned k (Inr v) \<longrightarrow> stored_in (fetch_log s) k v)"

lemma flight_okD:
  assumes "flight_ok ko s"
  shows "sf_inv ko (flight s)" "in_closure (goc_pc s t) = Some k \<Longrightarrow> \<exists>r. sf_pc (flight s) t = SLeading k r"
    "call_result (sf_calls (flight s) r) = Some (Inr v) \<Longrightarrow> stored_in (fetch_log s) (ko r) v"
    "goc_pc s t = GReturned k (Inr v) \<Longrightarrow> stored_in (fetch_log s) k v"
  using assms unfolding flight_ok_def by blast+

lemma one_in_closure:
  assumes "flight_ok ko s" and "in_closure (goc_pc s t) = Some k" and "in_closure (goc_pc s u) = Some k"
  shows "t = u"
proof -
  note I = flight_okD(1) [OF assms(1)]
  obtain r q where r: "sf_pc (flight s) t = SLeading k r" "sf_pc (flight s) u = SLeading k q"
    using flight_okD(2) [OF assms(1)] assms(2,3) by blast
  have l: "leads (flight s) t k r" "leads (flight s) u k q" using r leadsI(1) by blast+
  have "r = q" using sf_invD(1) [OF I l(1)] sf_invD(1) [OF I l(2)] by simp
  with sf_invD(4) [OF I l(1)] l(2) show ?thesis by blast
qed

text \<open>The four ways in which a step changes the flight.\<close>

lemma flight_ok_goto:
  assumes "flight_ok ko s" and "in_closure c = None \<or> in_closure c = in_closure (goc_pc s t)"
    and "\<And>k v. c = GReturned k (Inr v) \<Longrightarrow> stored_in (fetch_log s) k v"
  shows "flight_ok ko (goc_goto s t c)"
  using assms flight_okD [OF assms(1)] unfolding flight_ok_def by (auto split: if_splits)

lemma flight_ok_entry: "flight_ok ko s \<Longrightarrow> flight_ok ko (record_entry s x)"
  unfolding flight_ok_def by auto

lemma flight_ok_cache [simp]: "flight_ok ko (s\<lparr>shared_cache := c\<rparr>) = flight_ok ko s"
  by (simp add: flight_ok_def)

lemma flight_ok_return:
  assumes "flight_ok ko s" and "sf_pc (flight s) t = SLeading k r" and "\<And>v. res = Inr v \<Longrightarrow> stored_in (fetch_log s) k v"
    and "fly s t (FnReturns t res) = Some s'"
  shows "flight_ok ko s'"
proof -
  note I = flight_okD(1) [OF assms(1)]
  have s': "s' = goc_goto (s\<lparr>flight := sf_goto (set_call (flight s) r ((sf_calls (flight s) r)\<lparr>call_result := Some res\<rparr>)) t
      (SFinished k r)\<rparr>) t GFlying" using assms(2,4) by (simp add: fly_def)
  have "ko r = k" using sf_invD(3) [OF I refersI(1) [OF leadsI(1) [OF assms(2)]]] by simp
  then show ?thesis
    unfolding s' flight_ok_def
    using sf_inv_return [OF I assms(2), of res] assms(3) flight_okD(2-4) [OF assms(1)] by (auto split: if_splits)
qed

lemma flight_ok_panic:
  assumes "flight_ok ko s" and "fly s t (FnPanics t) = Some s'"
  shows "flight_ok ko s'"
proof -
  have s': "s' = goc_goto (s\<lparr>flight := sf_goto (flight s) t SPanicked\<rparr>) t GFlying"
    using assms(2) by (auto simp: fly_def split: sf_pc.splits)
  show ?thesis
    unfolding s' flight_ok_def
    using sf_inv_leave [OF flight_okD(1) [OF assms(1)], of SPanicked t] flight_okD(2-4) [OF assms(1)] by (auto split: if_splits)
qed

lemma flight_ok_enter:
  assumes "flight_ok ko s" and "in_closure (goc_pc s t) = None" and "stampede_step C s (EnterDo t) = Some s'"
  shows "\<exists>ko'. flight_ok ko' s'"
proof -
  note I = flight_okD(1) [OF assms(1)]
  obtain key ttl f where e: "goc_pc s t = GMissed key ttl" "sf_step (flight s) (DoEnter t key) = Some f"
      "s' = goc_goto (s\<lparr>flight := f\<rparr>) t (case sf_pc f t of SLeading k r \<Rightarrow> GChecking key ttl | _ \<Rightarrow> GFlying)"
    using assms(3) by (auto split: goc_pc.splits option.splits simp del: sf_step.simps)
  have i: "idle_pc (sf_pc (flight s) t)" using e(2) by (simp split: if_splits)
  show ?thesis
  proof (cases "sf_map (flight s) key")
    case None
    let ?r = "sf_next (flight s)"
    let ?f = "sf_goto ((set_call (flight s) ?r \<lparr>call_result = None, call_shared = False\<rparr>)
       \<lparr>sf_map := (sf_map (flight s))(key \<mapsto> ?r), sf_next := ?r + 1\<rparr>) t (SLeading key ?r)"
    have f: "f = ?f" using e(2) i None by (simp add: Let_def)
    then have s': "s' = goc_goto (s\<lparr>flight := ?f\<rparr>) t (GChecking key ttl)" using e(3) by simp
    have "flight_ok (ko(?r := key)) s'"
      unfolding s' flight_ok_def
      using sf_inv_lead [OF I None i] flight_okD(2-4) [OF assms(1)] by (auto split: if_splits)
    then show ?thesis by blast
  next
    case (Some r)
    let ?f = "sf_goto (set_call (flight s) r ((sf_calls (flight s) r)\<lparr>call_shared := True\<rparr>)) t (SWaiting key r)"
    have f: "f = ?f" using e(2) i Some by simp
    then have s': "s' = goc_goto (s\<lparr>flight := ?f\<rparr>) t GFlying" using e(3) by simp
    have "flight_ok ko s'"
      unfolding s' flight_ok_def
      using sf_inv_join [OF I Some i] flight_okD(2-4) [OF assms(1)] by (auto split: if_splits)
    then show ?thesis by blast
  qed
qed

text \<open>Leaving \<open>Do\<close> as the leader or as a waiter, with the result of the call.\<close>

lemma leave_flight:
  assumes "sf_inv ko g" and "sf_step g (case sf_pc g t of SFinished k r \<Rightarrow> DeleteKey t | _ \<Rightarrow> WaitReturns t) = Some f"
  shows "\<exists>k r v b. refers g t k r \<and> call_result (sf_calls g r) = Some v \<and> sf_inv ko f \<and>
    sf_calls f = sf_calls g \<and> sf_pc f = (sf_pc g)(t := SGot k r v b)"
proof (cases "sf_pc g t")
  case (SFinished k r)
  with assms(2) obtain v where v: "call_result (sf_calls g r) = Some v"
      "f = sf_goto (g\<lparr>sf_map := (sf_map g)(k := None)\<rparr>) t (SGot k r v (call_shared (sf_calls g r)))"
    by (cases "call_result (sf_calls g r)") auto
  with sf_inv_delete [OF assms(1) SFinished v(1)] refersI(1) [OF leadsI(2) [OF SFinished]] show ?thesis by force
next
  case (SWaiting k r)
  with assms(2) obtain v where v: "call_result (sf_calls g r) = Some v" "f = sf_goto g t (SGot k r v True)"
    by (cases "call_result (sf_calls g r)") auto
  with sf_inv_leave [OF assms(1), of "SGot k r v True" t] refersI(2) [OF SWaiting] show ?thesis by force
qed (use assms(2) in simp_all)

lemma flight_ok_leave:
  assumes "flight_ok ko s" and "stampede_step C s (LeaveDo t) = Some s'"
  shows "flight_ok ko s'" "\<exists>k v. s' = goc_goto (s\<lparr>flight := flight s'\<rparr>) t (GReturned k v)"
proof -
  note I = flight_okD(1) [OF assms(1)]
  obtain f where l: "sf_step (flight s) (case sf_pc (flight s) t of SFinished k r \<Rightarrow> DeleteKey t | _ \<Rightarrow> WaitReturns t) = Some f"
      and s': "(case sf_pc f t of SGot k r v b \<Rightarrow> Some (goc_goto (s\<lparr>flight := f\<rparr>) t (GReturned k v)) | _ \<Rightarrow> None) = Some s'"
    using assms(2) by (simp del: sf_step.simps split: goc_pc.splits option.splits)
  obtain k r v b where f: "refers (flight s) t k r" "call_result (sf_calls (flight s) r) = Some v" "sf_inv ko f"
      "sf_calls f = sf_calls (flight s)" "sf_pc f = (sf_pc (flight s))(t := SGot k r v b)"
    using leave_flight [OF I l] by blast
  have g: "s' = goc_goto (s\<lparr>flight := f\<rparr>) t (GReturned k v)" using s' f(5) by simp
  have "ko r = k" using sf_invD(3) [OF I f(1)] by simp
  then show "flight_ok ko s'"
    unfolding g flight_ok_def using f(2-5) flight_okD(2-4) [OF assms(1)] by (auto split: if_splits)
  show "\<exists>k v. s' = goc_goto (s\<lparr>flight := flight s'\<rparr>) t (GReturned k v)" using g by force
qed


section \<open>When fetches begin\<close>

text \<open>In the log: how often a fetch of a key has begun and ended, and that none begins while a stored value is still good.\<close>

fun begins :: "string \<Rightarrow> 'v fetch_entry \<Rightarrow> bool" where
  "begins k (FetchStarted j now) \<longleftrightarrow> j = k"
| "begins k _ \<longleftrightarrow> False"

fun ends :: "string \<Rightarrow> 'v fetch_entry \<Rightarrow> bool" where
  "ends k (FetchFailed j) \<longleftrightarrow> j = k"
| "ends k (FetchStored j v now ttl) \<longleftrightarrow> j = k"
| "ends k _ \<longleftrightarrow> False"

definition fetches_begun :: "string \<Rightarrow> 'v fetch_entry list \<Rightarrow> nat" where
  "fetches_begun k xs = length (filter (begins k) xs)"

definition fetches_ended :: "string \<Rightarrow> 'v fetch_entry list \<Rightarrow> nat" where
  "fetches_ended k xs = length (filter (ends k) xs)"

fun spaced :: "'v fetch_entry list \<Rightarrow> bool" where
  "spaced [] \<longleftrightarrow> True"
| "spaced (x # xs) \<longleftrightarrow> spaced xs \<and>
     (case x of FetchStored k v t ttl \<Rightarrow> (\<forall>y \<in> set xs. case y of FetchStarted j now \<Rightarrow> j = k \<longrightarrow> t + ttl < now | _ \<Rightarrow> True)
      | _ \<Rightarrow> True)"

lemma spaced_snoc:
  "spaced (xs @ [y]) \<longleftrightarrow> spaced xs \<and>
     (case y of FetchStarted j now \<Rightarrow> (\<forall>v t ttl. FetchStored j v t ttl \<in> set xs \<longrightarrow> t + ttl < now) | _ \<Rightarrow> True)"
  by (induction xs) (auto split: fetch_entry.splits)

lemma spacedD:
  "spaced xs \<Longrightarrow> i < j \<Longrightarrow> j < length xs \<Longrightarrow> xs ! i = FetchStored k v t ttl \<Longrightarrow> xs ! j = FetchStarted k now \<Longrightarrow> t + ttl < now"
proof (induction xs arbitrary: i j)
  case Nil
  then show ?case by simp
next
  case (Cons x xs)
  then obtain j' where j: "j = Suc j'" by (cases j) auto
  show ?case
  proof (cases i)
    case 0
    then have "FetchStarted k now \<in> set xs" using Cons.prems j by (metis Suc_less_eq length_Cons nth_Cons_Suc nth_mem)
    then show ?thesis using Cons.prems(1,4) 0 by force
  next
    case (Suc i')
    then show ?thesis using Cons.IH [of i' j'] Cons.prems j by auto
  qed
qed

text \<open>What holds between the steps, when the clock has last shown \<open>T\<close>: a stored value is found until it expires, who fetches a key
  does so after everything stored for it has expired, and exactly the keys that are being fetched have a fetch that has begun and
  not fetches_ended.\<close>

definition spacing_ok ::
  "('s, 'v) cache_client \<Rightarrow> gotime \<Rightarrow> 's \<Rightarrow> 'v fetch_entry list \<Rightarrow> (nat \<Rightarrow> 'v goc_pc) \<Rightarrow> bool" where
  "spacing_ok C T c xs pc \<longleftrightarrow>
     (\<forall>k v t ttl n. FetchStored k v t ttl \<in> set xs \<longrightarrow> T \<le> n \<longrightarrow> n \<le> t + ttl \<longrightarrow> cached C c n k \<noteq> None)
   \<and> (\<forall>u k v t ttl. fetches (pc u) = Some k \<longrightarrow> FetchStored k v t ttl \<in> set xs \<longrightarrow> t + ttl < T)
   \<and> (\<forall>k. fetches_begun k xs = fetches_ended k xs + (if \<exists>u. fetches (pc u) = Some k then 1 else 0))
   \<and> (\<forall>n k v. cached C c n k = Some v \<longrightarrow> stored_in xs k v) \<and> spaced xs"

lemma spacing_okD:
  assumes "spacing_ok C T c xs pc"
  shows "FetchStored k v t ttl \<in> set xs \<Longrightarrow> T \<le> n \<Longrightarrow> n \<le> t + ttl \<Longrightarrow> cached C c n k \<noteq> None"
    "fetches (pc u) = Some k \<Longrightarrow> FetchStored k v t ttl \<in> set xs \<Longrightarrow> t + ttl < T"
    "fetches_begun k xs = fetches_ended k xs + (if \<exists>u. fetches (pc u) = Some k then 1 else 0)"
    "cached C c n k = Some v \<Longrightarrow> stored_in xs k v" "spaced xs"
  using assms unfolding spacing_ok_def by blast+

lemma spacing_later:
  assumes "spacing_ok C T c xs pc" and "T \<le> T'"
  shows "spacing_ok C T' c xs pc"
  unfolding spacing_ok_def
proof (intro conjI allI impI)
  fix u k v t ttl
  assume "fetches (pc u) = Some k" and "FetchStored k v t ttl \<in> set xs"
  then show "t + ttl < T'" using spacing_okD(2) [OF assms(1)] assms(2) by fastforce
qed (use spacing_okD(1,3-5) [OF assms(1)] assms(2) in \<open>blast dest: order_trans\<close>)+

lemma spacing_move:
  assumes "spacing_ok C T c xs pc" and "fetches x = fetches (pc t)"
  shows "spacing_ok C T c xs (pc(t := x))"
proof -
  have "fetches ((pc(t := x)) u) = fetches (pc u)" for u using assms(2) by simp
  then show ?thesis using assms(1) unfolding spacing_ok_def by presburger
qed

text \<open>Who fetches a key is alone.\<close>

lemma fetching_after:
  assumes "\<And>u. u \<noteq> t \<Longrightarrow> fetches (pc u) \<noteq> Some k" and "fetches (pc t) = None \<or> fetches (pc t) = Some k"
    and "fetches x = None \<or> fetches x = Some k"
  shows "(\<exists>u. fetches ((pc(t := x)) u) = Some j) \<longleftrightarrow> (if j = k then fetches x = Some k else \<exists>u. fetches (pc u) = Some j)"
proof (cases "j = k")
  case True
  then show ?thesis using assms(1) by auto
next
  case False
  then have "fetches ((pc(t := x)) u) = Some j \<longleftrightarrow> fetches (pc u) = Some j" for u using assms(2,3) by auto
  then show ?thesis using False by simp
qed

lemma spacing_start:
  assumes "spacing_ok C T c xs pc" and "cached C c T k = None" and "pc t = GChecking k ttl"
    and "\<And>u. u \<noteq> t \<Longrightarrow> fetches (pc u) \<noteq> Some k"
  shows "spacing_ok C T c (xs @ [FetchStarted k T]) (pc(t := GFetching k ttl))"
proof -
  note D = spacing_okD [OF assms(1)]
  have gone: "t' + ttl' < T" if "FetchStored k v t' ttl' \<in> set xs" for v t' ttl'
    using D(1) [OF that, of T] assms(2) by force
  have after: "(\<exists>u. fetches ((pc(t := GFetching k ttl)) u) = Some j) \<longleftrightarrow> j = k \<or> (\<exists>u. fetches (pc u) = Some j)" for j
    using fetching_after [of t pc k "GFetching k ttl" j] assms(3,4) by auto
  have idle: "\<not> (\<exists>u. fetches (pc u) = Some k)" using assms(3,4) by (metis fetches.simps(5) option.distinct(1))
  have count: "fetches_begun j (xs @ [FetchStarted k T]) = fetches_ended j (xs @ [FetchStarted k T])
      + (if \<exists>u. fetches ((pc(t := GFetching k ttl)) u) = Some j then 1 else 0)" for j
    using D(3) [of j] idle unfolding after by (cases "j = k") (simp_all add: fetches_begun_def fetches_ended_def)
  show ?thesis
    unfolding spacing_ok_def
  proof (intro conjI allI impI)
    fix u j v t' ttl'
    assume "fetches ((pc(t := GFetching k ttl)) u) = Some j" and "FetchStored j v t' ttl' \<in> set (xs @ [FetchStarted k T])"
    then show "t' + ttl' < T" using D(2) gone by (auto split: if_splits)
  qed (use D(1,4,5) gone count in \<open>auto simp: spaced_snoc\<close>)
qed

lemma spacing_fail:
  assumes "spacing_ok C T c xs pc" and "fetches (pc t) = Some k" and "\<And>u. u \<noteq> t \<Longrightarrow> fetches (pc u) \<noteq> Some k"
  shows "spacing_ok C T c (xs @ [FetchFailed k]) (pc(t := GFlying))"
proof -
  note D = spacing_okD [OF assms(1)]
  have count: "fetches_begun j (xs @ [FetchFailed k]) = fetches_ended j (xs @ [FetchFailed k])
      + (if \<exists>u. fetches ((pc(t := GFlying)) u) = Some j then 1 else 0)" for j
    using D(3) [of j] assms(2) fetching_after [of t pc k GFlying j] assms(3)
    by (cases "j = k") (auto simp: fetches_begun_def fetches_ended_def)
  show ?thesis
    unfolding spacing_ok_def
    by (intro conjI allI impI) (use D(1,2,4,5) count in \<open>auto simp: spaced_snoc split: if_splits\<close>)
qed

context cache_contract
begin

lemma spacing_store:
  assumes "spacing_ok C T c xs pc" and "pc t = GStoring k ttl v" and "\<And>u. u \<noteq> t \<Longrightarrow> fetches (pc u) \<noteq> Some k"
  shows "spacing_ok C T (snd (cc_set C c T k v ttl)) (xs @ [FetchStored k v T ttl]) (pc(t := GFlying))"
    (is "spacing_ok C T ?c ?xs ?pc")
proof -
  note D = spacing_okD [OF assms(1)]
  have f: "fetches (pc t) = Some k" using assms(2) by simp
  have count: "fetches_begun j ?xs = fetches_ended j ?xs + (if \<exists>u. fetches (?pc u) = Some j then 1 else 0)" for j
    using D(3) [of j] f fetching_after [of t pc k GFlying j] assms(3)
    by (cases "j = k") (auto simp: fetches_begun_def fetches_ended_def)
  show ?thesis
    unfolding spacing_ok_def
  proof (intro conjI allI impI)
    fix j w t' ttl' n
    assume st: "FetchStored j w t' ttl' \<in> set ?xs" and n: "T \<le> n" "n \<le> t' + ttl'"
    show "cached C ?c n j \<noteq> None"
    proof (cases "j = k")
      case True
      then have "t' = T \<and> ttl' = ttl" using st D(2) [OF f] n by fastforce
      then show ?thesis using True n get_set_same by simp
    next
      case False
      then show ?thesis using st D(1) n get_set_other by simp
    qed
  next
    fix u j w t' ttl'
    assume "fetches (?pc u) = Some j" and "FetchStored j w t' ttl' \<in> set ?xs"
    then show "t' + ttl' < T" using D(2) [of u j w t' ttl'] assms(3) by (auto split: if_splits)
  next
    fix n j w
    assume "cached C ?c n j = Some w"
    then show "stored_in ?xs j w"
      using D(4) [of n j w] get_set_same [of c T k v ttl n] get_set_other [of j k c T v ttl n]
      by (cases "j = k") (auto split: if_splits)
  qed (use D(5) count in \<open>auto simp: spaced_snoc\<close>)
qed

end


section \<open>All steps\<close>

definition stampede_ok :: "('s, 'v) cache_client \<Rightarrow> gotime \<Rightarrow> ('s, 'v) stampede \<Rightarrow> bool" where
  "stampede_ok C T s \<longleftrightarrow> (\<exists>ko. flight_ok ko s) \<and> spacing_ok C T (shared_cache s) (fetch_log s) (goc_pc s)"

lemma fly_frame:
  "fly s t e = Some s' \<Longrightarrow> shared_cache s' = shared_cache s \<and> fetch_log s' = fetch_log s \<and> goc_pc s' = (goc_pc s)(t := GFlying)"
  by (auto simp: fly_def)

lemma cached_get_iff: "cc_get C c now k = Inr v \<longleftrightarrow> cached C c now k = Some v"
  by (simp add: cached_def split: sum.split)

lemma alone_fetching:
  assumes "flight_ok ko s" and "in_closure (goc_pc s t) = Some k" and "u \<noteq> t"
  shows "fetches (goc_pc s u) \<noteq> Some k"
  using one_in_closure [OF assms(1,2), of u] fetches_in_closure [of "goc_pc s u" k] assms(3) by blast

context cache_contract
begin

lemma lookup_ok:
  assumes "stampede_ok C T s" and "stampede_step C s (Lookup t key ttl T) = Some s'"
  shows "stampede_ok C T s'"
proof -
  obtain ko where F: "flight_ok ko s" and S: "spacing_ok C T (shared_cache s) (fetch_log s) (goc_pc s)"
    using assms(1) by (auto simp: stampede_ok_def)
  have c: "\<not> calling (goc_pc s t)" using assms(2) by (auto split: if_splits)
  then have p: "in_closure (goc_pc s t) = None" "fetches (goc_pc s t) = None"
    by (cases "goc_pc s t"; simp add: calling_def)+
  show ?thesis
  proof (cases "cc_get C (shared_cache s) T key")
    case (Inl miss)
    then have s': "s' = goc_goto s t (GMissed key ttl)" using assms(2) c by simp
    have "flight_ok ko s'" unfolding s' by (intro flight_ok_goto [OF F]) simp_all
    then show ?thesis using spacing_move [OF S, of "GMissed key ttl" t] p by (auto simp: s' stampede_ok_def)
  next
    case (Inr v)
    then have s': "s' = goc_goto s t (GReturned key (Inr v))" using assms(2) c by simp
    have "stored_in (fetch_log s) key v" using spacing_okD(4) [OF S] Inr by (simp add: cached_get_iff)
    then have "flight_ok ko s'" unfolding s' by (intro flight_ok_goto [OF F]) simp_all
    then show ?thesis using spacing_move [OF S, of "GReturned key (Inr v)" t] p by (auto simp: s' stampede_ok_def)
  qed
qed

lemma recheck_ok:
  assumes "stampede_ok C T s" and "stampede_step C s (Recheck t T) = Some s'"
  shows "stampede_ok C T s'"
proof -
  obtain ko where F: "flight_ok ko s" and S: "spacing_ok C T (shared_cache s) (fetch_log s) (goc_pc s)"
    using assms(1) by (auto simp: stampede_ok_def)
  obtain key ttl where p: "goc_pc s t = GChecking key ttl" using assms(2) by (auto split: goc_pc.splits)
  obtain r where l: "sf_pc (flight s) t = SLeading key r" using flight_okD(2) [OF F, of t key] p by auto
  show ?thesis
  proof (cases "cc_get C (shared_cache s) T key")
    case (Inl miss)
    then have s': "s' = record_entry (goc_goto s t (GFetching key ttl)) (FetchStarted key T)" using assms(2) p by simp
    have "cached C (shared_cache s) T key = None" using Inl by (simp add: cached_def)
    have a: "fetches (goc_pc s u) \<noteq> Some key" if "u \<noteq> t" for u using alone_fetching [OF F, of t key u] p that by simp
    from spacing_start [OF S \<open>cached C (shared_cache s) T key = None\<close> p a]
    have "spacing_ok C T (shared_cache s') (fetch_log s') (goc_pc s')" unfolding s' by simp
    moreover have "flight_ok ko s'" unfolding s' by (intro flight_ok_entry flight_ok_goto [OF F]) (simp_all add: p)
    ultimately show ?thesis by (auto simp: stampede_ok_def)
  next
    case (Inr v)
    then have f: "fly s t (FnReturns t (Inr v)) = Some s'" using assms(2) p by simp
    have "stored_in (fetch_log s) key v" using spacing_okD(4) [OF S] Inr by (simp add: cached_get_iff)
    then have "flight_ok ko s'" by (intro flight_ok_return [OF F l _ f]) simp
    moreover have "spacing_ok C T (shared_cache s') (fetch_log s') (goc_pc s')"
      using spacing_move [OF S, of GFlying t] fly_frame [OF f] p by simp
    ultimately show ?thesis by (auto simp: stampede_ok_def)
  qed
qed

lemma fetch_ended_ok:
  assumes "stampede_ok C T s" and "goc_pc s t = GFetching key ttl"
    and "fly (record_entry s (FetchFailed key)) t e = Some s'" and "e = FnPanics t \<or> (\<exists>err. e = FnReturns t (Inl err))"
  shows "stampede_ok C T s'"
proof -
  obtain ko where F: "flight_ok ko s" and S: "spacing_ok C T (shared_cache s) (fetch_log s) (goc_pc s)"
    using assms(1) by (auto simp: stampede_ok_def)
  let ?s = "record_entry s (FetchFailed key)"
  have F1: "flight_ok ko ?s" by (rule flight_ok_entry [OF F])
  have a: "fetches (goc_pc s u) \<noteq> Some key" if "u \<noteq> t" for u using alone_fetching [OF F, of t key u] assms(2) that by simp
  have "spacing_ok C T (shared_cache s') (fetch_log s') (goc_pc s')"
    using spacing_fail [OF S, of t key] a fly_frame [OF assms(3)] assms(2) by simp
  moreover have "flight_ok ko s'"
    using assms(4)
  proof
    assume "e = FnPanics t"
    then show ?thesis using flight_ok_panic [OF F1] assms(3) by simp
  next
    assume "\<exists>err. e = FnReturns t (Inl err)"
    then obtain err where e: "fly ?s t (FnReturns t (Inl err)) = Some s'" using assms(3) by blast
    obtain r where l: "sf_pc (flight ?s) t = SLeading key r" using flight_okD(2) [OF F, of t key] assms(2) by auto
    show ?thesis by (intro flight_ok_return [OF F1 l _ e]) simp
  qed
  ultimately show ?thesis by (auto simp: stampede_ok_def)
qed

lemma store_ok:
  assumes "stampede_ok C T s" and "stampede_step C s (StoreResult t T) = Some s'"
  shows "stampede_ok C T s'"
proof -
  obtain ko where F: "flight_ok ko s" and S: "spacing_ok C T (shared_cache s) (fetch_log s) (goc_pc s)"
    using assms(1) by (auto simp: stampede_ok_def)
  obtain key ttl v where p: "goc_pc s t = GStoring key ttl v" using assms(2) by (auto split: goc_pc.splits)
  let ?s = "record_entry (s\<lparr>shared_cache := snd (cc_set C (shared_cache s) T key v ttl)\<rparr>) (FetchStored key v T ttl)"
  have f: "fly ?s t (FnReturns t (Inr v)) = Some s'" using assms(2) p by simp
  have F1: "flight_ok ko ?s" using F by (intro flight_ok_entry) simp
  obtain r where l: "sf_pc (flight ?s) t = SLeading key r" using flight_okD(2) [OF F, of t key] p by auto
  have a: "fetches (goc_pc s u) \<noteq> Some key" if "u \<noteq> t" for u using alone_fetching [OF F, of t key u] p that by simp
  have "flight_ok ko s'" by (intro flight_ok_return [OF F1 l _ f]) simp
  moreover have "spacing_ok C T (shared_cache s') (fetch_log s') (goc_pc s')"
    using spacing_store [OF S p a] fly_frame [OF f] by simp
  ultimately show ?thesis by (auto simp: stampede_ok_def)
qed

lemma enter_ok:
  assumes "stampede_ok C T s" and "stampede_step C s (EnterDo t) = Some s'"
  shows "stampede_ok C T s'"
proof -
  obtain ko where F: "flight_ok ko s" and S: "spacing_ok C T (shared_cache s) (fetch_log s) (goc_pc s)"
    using assms(1) by (auto simp: stampede_ok_def)
  obtain key ttl f c where p: "goc_pc s t = GMissed key ttl" "s' = goc_goto (s\<lparr>flight := f\<rparr>) t c" "fetches c = None"
    using assms(2) by (auto simp del: sf_step.simps split: goc_pc.splits option.splits sf_pc.splits)
  then have "spacing_ok C T (shared_cache s') (fetch_log s') (goc_pc s')" using spacing_move [OF S, of c t] by simp
  with flight_ok_enter [OF F _ assms(2)] p(1) show ?thesis by (simp add: stampede_ok_def)
qed

lemma leave_ok:
  assumes "stampede_ok C T s" and "stampede_step C s (LeaveDo t) = Some s'"
  shows "stampede_ok C T s'"
proof -
  obtain ko where F: "flight_ok ko s" and S: "spacing_ok C T (shared_cache s) (fetch_log s) (goc_pc s)"
    using assms(1) by (auto simp: stampede_ok_def)
  obtain k v where s': "s' = goc_goto (s\<lparr>flight := flight s'\<rparr>) t (GReturned k v)" using flight_ok_leave(2) [OF F assms(2)] by blast
  have "goc_pc s t = GFlying" using assms(2) by (simp del: sf_step.simps split: goc_pc.splits)
  then have "spacing_ok C T (shared_cache s) (fetch_log s) ((goc_pc s)(t := GReturned k v))" by (intro spacing_move [OF S]) simp
  then have "spacing_ok C T (shared_cache s') (fetch_log s') (goc_pc s')" by (subst (1 2 3) s') simp
  with flight_ok_leave(1) [OF F assms(2)] show ?thesis by (auto simp: stampede_ok_def)
qed

lemma stampede_step_ok:
  assumes "stampede_ok C T s" and "stampede_step C s e = Some s'" and "\<forall>n \<in> set (reading e). T \<le> n"
  shows "stampede_ok C (last (T # reading e)) s'"
proof -
  have later: "stampede_ok C T' s" if "T \<le> T'" for T'
    using assms(1) spacing_later [OF _ that] by (auto simp: stampede_ok_def)
  show ?thesis
  proof (cases e)
    case (Lookup t key ttl now)
    then show ?thesis using lookup_ok [OF later] assms(2,3) by simp
  next
    case (EnterDo t)
    then show ?thesis using enter_ok [OF assms(1)] assms(2) by simp
  next
    case (Recheck t now)
    then show ?thesis using recheck_ok [OF later] assms(2,3) by simp
  next
    case (FetchReturns t res)
    then obtain key ttl where p: "goc_pc s t = GFetching key ttl" using assms(2) by (auto split: goc_pc.splits)
    show ?thesis
    proof (cases res)
      case (Inl err)
      then show ?thesis using fetch_ended_ok [OF assms(1) p] assms(2) FetchReturns p by simp
    next
      case (Inr v)
      then have s': "s' = goc_goto s t (GStoring key ttl v)" using assms(2) FetchReturns p by simp
      obtain ko where F: "flight_ok ko s" and S: "spacing_ok C T (shared_cache s) (fetch_log s) (goc_pc s)"
        using assms(1) by (auto simp: stampede_ok_def)
      have "flight_ok ko s'" unfolding s' by (intro flight_ok_goto [OF F]) (simp_all add: p)
      then show ?thesis using spacing_move [OF S, of "GStoring key ttl v" t] p FetchReturns by (auto simp: s' stampede_ok_def)
    qed
  next
    case (FetchPanics t)
    then obtain key ttl where p: "goc_pc s t = GFetching key ttl" using assms(2) by (auto split: goc_pc.splits)
    then show ?thesis using fetch_ended_ok [OF assms(1) p] assms(2) FetchPanics by simp
  next
    case (StoreResult t now)
    then show ?thesis using store_ok [OF later] assms(2,3) by simp
  next
    case (LeaveDo t)
    then show ?thesis using leave_ok [OF assms(1)] assms(2) by simp
  qed
qed

lemma stampede_run_ok:
  "stampede_ok C T s \<Longrightarrow> sorted (T # readings es) \<Longrightarrow> run_events (stampede_step C) s es = Some s' \<Longrightarrow>
    \<exists>T'. stampede_ok C T' s'"
proof (induction es arbitrary: T s)
  case Nil
  then show ?case by auto
next
  case (Cons e es)
  obtain s1 where s1: "stampede_step C s e = Some s1" "run_events (stampede_step C) s1 es = Some s'"
    using Cons.prems(3) by (auto split: option.splits)
  have "\<forall>n \<in> set (reading e). T \<le> n" using Cons.prems(2) by (auto simp: readings_def)
  from stampede_step_ok [OF Cons.prems(1) s1(1) this] have "stampede_ok C (last (T # reading e)) s1" .
  moreover have "sorted (last (T # reading e) # readings es)"
    using Cons.prems(2) by (cases e) (auto simp: readings_def)
  ultimately show ?case using Cons.IH s1(2) by blast
qed

lemma stampede_ok_new: "\<forall>n k. cached C c n k = None \<Longrightarrow> stampede_ok C T (new_stampede c)"
  by (auto simp: stampede_ok_def new_stampede_def flight_ok_def sf_inv_new spacing_ok_def fetches_begun_def fetches_ended_def)
    (simp add: new_singleflight_group_def)

end

text \<open>A call that runs alone, step by step, is \<open>get_or_compute\<close>.\<close>

lemma alone_is_get_or_compute:
  assumes "\<not> calling (goc_pc s t)" and "idle_pc (sf_pc (flight s) t)" and "sf_map (flight s) key = None"
    and "cc_get C (shared_cache s) now1 key = Inl e1" and "cc_get C (shared_cache s) now2 key = Inl e2"
  shows "\<exists>s'. run_events (stampede_step C) s [Lookup t key ttl now1, EnterDo t, Recheck t now2, FetchReturns t (Inr v),
        StoreResult t now3, LeaveDo t] = Some s'
    \<and> get_or_compute C now1 now2 now3 key ttl (Inr v) (shared_cache s) = (Inr v, shared_cache s', True)
    \<and> goc_pc s' t = GReturned key (Inr v)"
  using assms by (simp add: get_or_compute_def do_alone_def fly_def Let_def)

text \<open>C20: A cache miss never stampedes the source. In every interleaving of callers, with fetches that succeed, fail or panic, and a
  clock that does not go back: at most one fetch of a key is running at any moment; once a fetched value has been stored with a
  time to live, no fetch of that key begins before it has run out; and a value that a call returns was fetched for its key.\<close>

theorem no_stampede:
  assumes "run_events (stampede_step memory_client) (new_stampede new_memory_cache) es = Some s" and "sorted (readings es)"
  shows "fetches_begun k (fetch_log s) \<le> fetches_ended k (fetch_log s) + 1
    \<and> (i < j \<longrightarrow> j < length (fetch_log s) \<longrightarrow> fetch_log s ! i = FetchStored k v t ttl \<longrightarrow>
         fetch_log s ! j = FetchStarted k now \<longrightarrow> t + ttl < now)
    \<and> (goc_pc s u = GReturned k (Inr w) \<longrightarrow> stored_in (fetch_log s) k w)"
proof -
  let ?T = "if readings es = [] then 0 else hd (readings es)"
  have "sorted (?T # readings es)" using assms(2) by (cases "readings es") auto
  then obtain T where ok: "stampede_ok memory_client T s"
    using mem.stampede_run_ok [OF mem.stampede_ok_new _ assms(1)] by auto
  obtain ko where F: "flight_ok ko s" using ok by (auto simp: stampede_ok_def)
  have "spacing_ok memory_client T (shared_cache s) (fetch_log s) (goc_pc s)" using ok by (simp add: stampede_ok_def)
  note D = spacing_okD [OF this]
  from D(3) [of k] have "fetches_begun k (fetch_log s) \<le> fetches_ended k (fetch_log s) + 1" by simp
  with spacedD [OF D(5), of i j k v t ttl now] flight_okD(4) [OF F, of u k w] show ?thesis by blast
qed

definition demo_stampede :: "int goc_event list" where
  "demo_stampede = [Lookup 1 ''k'' 10 0, Lookup 2 ''k'' 10 0, EnterDo 1, Recheck 1 1, EnterDo 2, FetchReturns 1 (Inr 7),
     StoreResult 1 2, LeaveDo 1, LeaveDo 2, Lookup 1 ''k'' 10 13, EnterDo 1, Recheck 1 14]"

theorem no_stampede_witness:
  "\<exists>s. run_events (stampede_step memory_client) (new_stampede new_memory_cache) demo_stampede = Some s
     \<and> fetch_log s = [FetchStarted ''k'' 1, FetchStored ''k'' 7 2 10, FetchStarted ''k'' 14]
     \<and> (2 :: int) + 10 < 14 \<and> goc_pc s 2 = GReturned ''k'' (Inr 7) \<and> stored_in (fetch_log s) ''k'' (7 :: int)"
proof -
  obtain s where s: "run_events (stampede_step memory_client) (new_stampede new_memory_cache) demo_stampede = Some s"
    "fetch_log s = [FetchStarted ''k'' 1, FetchStored ''k'' 7 2 10, FetchStarted ''k'' 14]"
    "goc_pc s 2 = GReturned ''k'' (Inr (7 :: int))"
    by (simp add: demo_stampede_def new_stampede_def new_singleflight_group_def calling_def mem_get_def mem_set_def
        new_memory_cache_def idle_pc_def fly_def goc_goto_def record_entry_def sf_goto_def set_call_def)
  have "sorted (readings demo_stampede)" by (simp add: demo_stampede_def readings_def)
  with no_stampede [OF s(1), of "''k''" 1 2 7 2 10 14 2 7] s show ?thesis by auto
qed

end
