(* ===== verification/Tagged_Cache.thy ===== *)
theory Tagged_Cache
  imports Go_Strings
begin

text \<open>
  \<open>patterns/14_caching/ttl_invalidation.go\<close> (entries with a time to live, dropped by key prefix or by tag)
  and \<open>patterns/02_config/secret_sanitizer.go\<close> (redaction of secrets). Both range over maps; the order is an
  argument. Deleting an entry of a map while ranging over it is allowed in Go and does not disturb the loop.
\<close>

section \<open>Invalidation by prefix and tag\<close>

record 'v tagged_item =
  ti_value :: 'v
  ti_tags :: "string list"
  ti_expires :: gotime

type_synonym 'v tagged_cache = "string \<rightharpoonup> 'v tagged_item"

definition new_tagged_cache :: "'v tagged_cache" where
  "new_tagged_cache = Map.empty"

definition tag_set :: "'v tagged_cache \<Rightarrow> gotime \<Rightarrow> string \<Rightarrow> 'v \<Rightarrow> duration \<Rightarrow> string list \<Rightarrow> 'v tagged_cache" where
  "tag_set m now key v ttl tags = m(key \<mapsto> \<lparr>ti_value = v, ti_tags = tags, ti_expires = now + ttl\<rparr>)"

definition tag_get :: "'v tagged_cache \<Rightarrow> gotime \<Rightarrow> string \<Rightarrow> 'v option" where
  "tag_get m now key =
     (case m key of None \<Rightarrow> None | Some item \<Rightarrow> if ti_expires item < now then None else Some (ti_value item))"

definition drop_prefixed :: "string \<Rightarrow> int \<times> 'v tagged_cache \<Rightarrow> string \<Rightarrow> int \<times> 'v tagged_cache" where
  "drop_prefixed pre cm k = (case cm of (count, m) \<Rightarrow> if has_prefix k pre then (count + 1, m(k := None)) else (count, m))"

definition invalidate_prefix :: "'v tagged_cache \<Rightarrow> string list \<Rightarrow> string \<Rightarrow> int \<times> 'v tagged_cache" where
  "invalidate_prefix m ks pre = foldl (drop_prefixed pre) (0, m) ks"

fun tag_loop :: "string \<Rightarrow> string list \<Rightarrow> bool" where
  "tag_loop tag [] = False"
| "tag_loop tag (t # ts) = (if t = tag then True else tag_loop tag ts)"

definition drop_tagged :: "string \<Rightarrow> int \<times> 'v tagged_cache \<Rightarrow> string \<Rightarrow> int \<times> 'v tagged_cache" where
  "drop_tagged tag cm k =
     (case cm of (count, m) \<Rightarrow>
        (case m k of
           None \<Rightarrow> (count, m)
         | Some item \<Rightarrow> if tag_loop tag (ti_tags item) then (count + 1, m(k := None)) else (count, m)))"

definition invalidate_tag :: "'v tagged_cache \<Rightarrow> string list \<Rightarrow> string \<Rightarrow> int \<times> 'v tagged_cache" where
  "invalidate_tag m ks tag = foldl (drop_tagged tag) (0, m) ks"

lemma tag_loop_iff [simp]: "tag_loop tag ts \<longleftrightarrow> tag \<in> set ts"
  by (induction ts) auto

text \<open>A loop that drops, from the entries visited, those that satisfy a condition on key and item, and counts them.\<close>

lemma drop_loop:
  assumes "\<And>count m k. f (count, m) k = (case m k of None \<Rightarrow> (count, m)
      | Some item \<Rightarrow> if P k item then (count + 1, m(k := None)) else (count, m))"
    and "distinct ks"
  shows "foldl f (c, m) ks = (c + int (length (filter (\<lambda>k. \<exists>i. m k = Some i \<and> P k i) ks)),
      \<lambda>k. if k \<in> set ks \<and> (\<exists>i. m k = Some i \<and> P k i) then None else m k)"
  using assms(2)
proof (induction ks arbitrary: c m)
  case Nil
  then show ?case by simp
next
  case (Cons k ks)
  show ?case
  proof (cases "\<exists>i. m k = Some i \<and> P k i")
    case True
    then have f: "f (c, m) k = (c + 1, m(k := None))" by (auto simp: assms(1))
    have "filter (\<lambda>j. \<exists>i. (m(k := None)) j = Some i \<and> P j i) ks = filter (\<lambda>j. \<exists>i. m j = Some i \<and> P j i) ks"
      using Cons.prems by (auto intro!: filter_cong)
    moreover have "distinct ks" using Cons.prems by simp
    note Cons.IH [OF this, of "c + 1" "m(k := None)"]
    moreover have "foldl f (c, m) (k # ks) = foldl f (c + 1, m(k := None)) ks" by (simp only: foldl_Cons f)
    ultimately show ?thesis using True by (simp only:) (auto simp: fun_eq_iff)
  next
    case False
    then have "f (c, m) k = (c, m)" by (auto simp: assms(1) split: option.split)
    with False Cons show ?thesis by (auto simp: fun_eq_iff)
  qed
qed

lemma card_filter_set: "distinct ks \<Longrightarrow> card {x \<in> set ks. P x} = length (filter P ks)"
  by (metis distinct_card distinct_filter set_filter)

lemma drop_append_left: "drop (length xs) (xs @ ys) = ys"
  by simp

lemma invalidate_tag_result:
  assumes "iter_order ks m"
  shows "snd (invalidate_tag m ks tag) = (\<lambda>k. case m k of None \<Rightarrow> None | Some i \<Rightarrow> if tag \<in> set (ti_tags i) then None else Some i)"
    "fst (invalidate_tag m ks tag) = int (card {k. \<exists>i. m k = Some i \<and> tag \<in> set (ti_tags i)})"
proof -
  let ?Q = "\<lambda>k. \<exists>i. m k = Some i \<and> tag \<in> set (ti_tags i)"
  have ks: "distinct ks" "set ks = dom m" using iter_orderD [OF assms] .
  have r: "invalidate_tag m ks tag = (int (length (filter ?Q ks)), \<lambda>k. if k \<in> set ks \<and> ?Q k then None else m k)"
    unfolding invalidate_tag_def
    by (subst drop_loop [where P = "\<lambda>k i. tag \<in> set (ti_tags i)"]) (auto simp: drop_tagged_def ks(1) split: option.split)
  show "snd (invalidate_tag m ks tag) = (\<lambda>k. case m k of None \<Rightarrow> None | Some i \<Rightarrow> if tag \<in> set (ti_tags i) then None else Some i)"
    by (auto simp: r ks(2) fun_eq_iff split: option.split)
  have "{k. ?Q k} = set (filter ?Q ks)" by (auto simp: ks(2))
  then show "fst (invalidate_tag m ks tag) = int (card {k. ?Q k})"
    using ks(1) by (simp add: r card_filter_set)
qed

lemma drop_prefix_loop:
  "foldl (drop_prefixed pre) (c, n) js
    = (c + int (length (filter (\<lambda>k. has_prefix k pre) js)), \<lambda>k. if k \<in> set js \<and> has_prefix k pre then None else n k)"
  by (induction js arbitrary: c n) (auto simp: drop_prefixed_def fun_eq_iff)

lemma invalidate_prefix_result:
  assumes "iter_order ks m"
  shows "snd (invalidate_prefix m ks pre) = (\<lambda>k. if has_prefix k pre then None else m k)"
    "fst (invalidate_prefix m ks pre) = int (card {k \<in> dom m. has_prefix k pre})"
proof -
  have ks: "distinct ks" "set ks = dom m" using iter_orderD [OF assms] .
  have r: "invalidate_prefix m ks pre = (int (length (filter (\<lambda>k. has_prefix k pre) ks)), \<lambda>k. if k \<in> set ks \<and> has_prefix k pre then None else m k)"
    by (simp add: invalidate_prefix_def drop_prefix_loop)
  show "snd (invalidate_prefix m ks pre) = (\<lambda>k. if has_prefix k pre then None else m k)"
    by (auto simp: r ks(2) fun_eq_iff dom_def)
  have "{k \<in> dom m. has_prefix k pre} = set (filter (\<lambda>k. has_prefix k pre) ks)" by (auto simp: ks(2))
  then show "fst (invalidate_prefix m ks pre) = int (card {k \<in> dom m. has_prefix k pre})"
    using ks(1) by (simp add: r card_filter_set)
qed

text \<open>invalidation drops exactly what it names. Whatever the order of visiting, after \<open>InvalidateTag\<close> no
  entry with the tag can be read, after \<open>InvalidatePrefix\<close> none whose key starts with the prefix; every other
  entry reads as before, and the count returned is the number of entries dropped.\<close>

theorem invalidation_exact:
  assumes "iter_order ks m"
  shows "tag_get (snd (invalidate_tag m ks tag)) now k
      = (if \<exists>i. m k = Some i \<and> tag \<in> set (ti_tags i) then None else tag_get m now k)
    \<and> tag_get (snd (invalidate_prefix m ks pre)) now k = (if has_prefix k pre then None else tag_get m now k)
    \<and> fst (invalidate_tag m ks tag) = int (card {k. \<exists>i. m k = Some i \<and> tag \<in> set (ti_tags i)})
    \<and> fst (invalidate_prefix m ks pre) = int (card {k \<in> dom m. has_prefix k pre})"
  by (auto simp: invalidate_tag_result [OF assms] invalidate_prefix_result [OF assms] tag_get_def split: option.split)

theorem invalidation_exact_witness:
  "tag_get (snd (invalidate_tag (tag_set new_tagged_cache 0 ''user:1'' (7 :: int) 10 [''u'']) [''user:1''] ''u'')) 5 ''user:1'' = None"
proof -
  let ?m = "tag_set new_tagged_cache 0 ''user:1'' (7 :: int) 10 [''u'']"
  have m: "?m ''user:1'' = Some \<lparr>ti_value = 7, ti_tags = [''u''], ti_expires = 10\<rparr>" by (simp add: tag_set_def)
  have "iter_order [''user:1''] ?m" by (simp add: iter_order_def tag_set_def new_tagged_cache_def)
  from invalidation_exact [OF this, of "''u''" 5 "''user:1''"] m show ?thesis by auto
qed


section \<open>Redaction\<close>

definition redacted :: string where
  "redacted = ''[REDACTED]''"

datatype 'a secret = Secret 'a

definition expose :: "'a secret \<Rightarrow> 'a" where
  "expose s = (case s of Secret v \<Rightarrow> v)"

definition secret_string :: "'a secret \<Rightarrow> string" where
  "secret_string s = redacted"

definition secret_go_string :: "'a secret \<Rightarrow> string" where
  "secret_go_string s = redacted"

text \<open>The JSON of a string without characters to escape is the string in double quotes.\<close>

definition secret_json :: "'a secret \<Rightarrow> string" where
  "secret_json s = CHR 0x22 # redacted @ [CHR 0x22]"

text \<open>However it is printed, a secret looks like any other.\<close>

lemma secrets_indistinguishable:
  "secret_string (Secret v) = secret_string (Secret w) \<and> secret_go_string (Secret v) = secret_go_string (Secret w) \<and>
    secret_json (Secret v) = secret_json (Secret w)"
  by (simp add: secret_string_def secret_go_string_def secret_json_def)

definition sensitive_keywords :: "string list" where
  "sensitive_keywords = [''pass'', ''secret'', ''token'', ''key'', ''auth'', ''credential'', ''private'', ''cert'']"

definition is_sensitive :: "string \<Rightarrow> bool" where
  "is_sensitive k \<longleftrightarrow> list_ex (contains_str (fold_case k)) sensitive_keywords"

definition sanitize_entry :: "(string \<rightharpoonup> string) \<Rightarrow> (string \<rightharpoonup> string) \<Rightarrow> string \<Rightarrow> (string \<rightharpoonup> string)" where
  "sanitize_entry input out k =
     (case input k of None \<Rightarrow> out | Some v \<Rightarrow> if is_sensitive k then out(k \<mapsto> redacted) else out(k \<mapsto> v))"

definition sanitize_map :: "(string \<rightharpoonup> string) \<Rightarrow> string list \<Rightarrow> (string \<rightharpoonup> string)" where
  "sanitize_map input ks = foldl (sanitize_entry input) Map.empty ks"

definition redact_url :: "string \<Rightarrow> string" where
  "redact_url rawURL =
     (let idxAt = str_index rawURL ''@'';
          idxScheme = str_index rawURL ''://''
      in if idxAt = - 1 then rawURL
         else if idxScheme = - 1 \<or> idxAt < idxScheme then rawURL
         else take (nat (idxScheme + 3)) rawURL @ ''user:****'' @ drop (nat idxAt) rawURL)"

lemma sanitize_loop:
  "foldl (sanitize_entry input) out ks
    = (\<lambda>k. if k \<in> set ks \<and> input k \<noteq> None then (if is_sensitive k then Some redacted else input k) else out k)"
  by (induction ks arbitrary: out) (auto simp: sanitize_entry_def fun_eq_iff split: option.splits)

text \<open>A sanitised map has the same keys; the values of sensitive keys, and only those, are replaced.\<close>

lemma sanitize_map_exact:
  "iter_order ks input \<Longrightarrow> sanitize_map input ks k = (if is_sensitive k then map_option (\<lambda>_. redacted) (input k) else input k)"
  by (auto simp: sanitize_map_def sanitize_loop iter_order_def)

lemma index_scheme:
  assumes "CHR '':'' \<notin> set scheme"
  shows "str_index (scheme @ ''://'' @ rest) ''://'' = int (length scheme)"
proof -
  have "index_from i (scheme @ ''://'' @ rest) ''://'' = i + int (length scheme)" for i
    using assms
  proof (induction scheme arbitrary: i)
    case Nil
    then show ?case by simp
  next
    case (Cons c cs)
    then have c: "c \<noteq> CHR '':''" by auto
    then have "\<not> has_prefix (c # cs @ ''://'' @ rest) ''://''" by simp
    with c Cons show ?case by simp
  qed
  from this [of 0] show ?thesis by (simp add: str_index_def)
qed

text \<open>credentials are redacted up to the first at-sign only. For a URL \<open>scheme://userinfo@host\<close> with no
  at-sign in scheme and userinfo the userinfo is replaced as a whole; but a password that contains an at-sign
  is printed from there on, and a URL without userinfo whose path contains one loses its host.\<close>

theorem redact_url_first_at:
  assumes "CHR '':'' \<notin> set scheme" and "CHR ''@'' \<notin> set scheme" and "CHR ''@'' \<notin> set part"
  shows "redact_url (scheme @ ''://'' @ part @ ''@'' @ rest) = scheme @ ''://'' @ ''user:****'' @ ''@'' @ rest"
proof -
  let ?u = "scheme @ ''://'' @ part @ ''@'' @ rest"
  have at: "str_index ?u ''@'' = int (length (scheme @ ''://'' @ part))"
    using index_char_found [of "CHR ''@''" "scheme @ ''://'' @ part" rest] assms(2,3) by simp
  have sc: "str_index ?u ''://'' = int (length scheme)" using index_scheme [OF assms(1)] .
  have "drop (length (scheme @ ''://'' @ part)) ((scheme @ ''://'' @ part) @ ''@'' @ rest) = ''@'' @ rest"
    by (rule drop_append_left)
  then have "drop (length (scheme @ ''://'' @ part)) ?u = ''@'' @ rest" by (simp only: append_assoc)
  moreover have "take (length scheme + 3) ?u = scheme @ ''://''" by simp
  moreover have "nat (int (length scheme) + 3) = length scheme + 3" by simp
  moreover have "\<not> int (length (scheme @ ''://'' @ part)) = - 1"
    "\<not> (int (length scheme) = - 1 \<or> int (length (scheme @ ''://'' @ part)) < int (length scheme))" by simp_all
  ultimately show ?thesis unfolding redact_url_def Let_def at sc by (simp only: if_False nat_int append_assoc)
qed

text \<open>The password \<open>p@ss\<close> leaks its end, and a host disappears.\<close>

theorem redact_url_first_at_witness:
  "redact_url ''db://u:p@ss@h'' = ''db://user:****@ss@h'' \<and> redact_url ''http://h/a@b'' = ''http://user:****@b''"
  using redact_url_first_at [of "''db''" "''u:p''" "''ss@h''"] redact_url_first_at [of "''http''" "''h/a''" "''b''"] by simp

end
