(* ===== verification/Task_Groups.thy ===== *)
theory Task_Groups
  imports Go_Prelude
begin

text \<open>
  \<open>patterns/09_concurrency\<close>: the error group of \<open>errgroup.go\<close>, and the owned channel and the counters of
  \<open>channel_ownership.go\<close>. The goroutines of a group interleave; what a function passed to \<open>Go\<close> returns is an
  argument of the event that ends it.
\<close>


section \<open>Error group\<close>

text \<open>Why a context was cancelled: by an error of the group, by the end of \<open>Wait\<close> (whose cause is
  \<open>context.Canceled\<close>), or from outside. The first cause stays.\<close>

datatype 'e cancel_cause = ByError 'e | ByWait | ByParent

record 'e task_group =
  has_cancel :: bool
  group_running :: nat
  group_err :: "'e option"
  group_cause :: "'e cancel_cause option"

definition group_with_context :: "'e task_group" where
  "group_with_context = \<lparr>has_cancel = True, group_running = 0, group_err = None, group_cause = None\<rparr>"

definition zero_group :: "'e task_group" where
  "zero_group = \<lparr>has_cancel = False, group_running = 0, group_err = None, group_cause = None\<rparr>"

definition cancel_group :: "'e cancel_cause \<Rightarrow> 'e task_group \<Rightarrow> 'e task_group" where
  "cancel_group c g = (if group_cause g = None then g\<lparr>group_cause := Some c\<rparr> else g)"

datatype 'e group_event = GroupGo | GroupFinish "'e option" | GroupWait | GroupParentDone

definition finish_task :: "'e option \<Rightarrow> 'e task_group \<Rightarrow> 'e task_group" where
  "finish_task result g =
     (case result of
        None \<Rightarrow> g
      | Some e \<Rightarrow>
          if group_err g = None then
            (let g1 = g\<lparr>group_err := Some e\<rparr> in if has_cancel g then cancel_group (ByError e) g1 else g1)
          else g)"

fun group_step :: "'e task_group \<Rightarrow> 'e group_event \<Rightarrow> 'e task_group option" where
  "group_step g GroupGo = Some (g\<lparr>group_running := Suc (group_running g)\<rparr>)"
| "group_step g (GroupFinish result) =
     (if 0 < group_running g then Some ((finish_task result g)\<lparr>group_running := group_running g - 1\<rparr>) else None)"
| "group_step g GroupWait =
     (if group_running g = 0 then Some (if has_cancel g then cancel_group ByWait g else g) else None)"
| "group_step g GroupParentDone = Some (cancel_group ByParent g)"

text \<open>The results in the order in which the functions returned, and how often \<open>Go\<close> was called.\<close>

fun group_results :: "'e group_event list \<Rightarrow> 'e option list" where
  "group_results [] = []"
| "group_results (GroupFinish r # es) = r # group_results es"
| "group_results (_ # es) = group_results es"

fun group_spawned :: "'e group_event list \<Rightarrow> nat" where
  "group_spawned [] = 0"
| "group_spawned (GroupGo # es) = Suc (group_spawned es)"
| "group_spawned (_ # es) = group_spawned es"

lemma cancel_group_fields [simp]:
  "has_cancel (cancel_group c g) = has_cancel g" "group_running (cancel_group c g) = group_running g"
  "group_err (cancel_group c g) = group_err g"
  "group_cause (cancel_group c g) = (if group_cause g = None then Some c else group_cause g)"
  by (simp_all add: cancel_group_def)

lemma finish_task_fields [simp]:
  "has_cancel (finish_task r g) = has_cancel g" "group_running (finish_task r g) = group_running g"
  "group_err (finish_task r g) = (if group_err g = None then r else group_err g)"
  "group_cause (finish_task r g) =
     (if group_cause g = None \<and> group_err g = None \<and> has_cancel g then map_option ByError r else group_cause g)"
  by (auto simp: finish_task_def Let_def split: option.split)

lemma group_run:
  "run_events group_step g es = Some t \<Longrightarrow>
   has_cancel t = has_cancel g \<and>
   group_err t = (case group_err g of None \<Rightarrow> first_some (group_results es) | Some e \<Rightarrow> Some e) \<and>
   group_running t + length (group_results es) = group_running g + group_spawned es"
proof (induction es arbitrary: g)
  case Nil
  then show ?case by (simp split: option.split)
next
  case (Cons e es)
  then obtain g1 where g1: "group_step g e = Some g1" "run_events group_step g1 es = Some t"
    by (auto split: option.splits)
  from Cons.IH [OF g1(2)] g1(1) show ?case
    by (cases e) (auto split: option.splits if_splits)
qed

text \<open>As long as neither the parent is done nor \<open>Wait\<close> has returned, the context carries the group's error.\<close>

lemma group_run_cause:
  "run_events group_step g es = Some t \<Longrightarrow> GroupParentDone \<notin> set es \<Longrightarrow> GroupWait \<notin> set es \<Longrightarrow> has_cancel g \<Longrightarrow>
   group_cause g = map_option ByError (group_err g) \<Longrightarrow> group_cause t = map_option ByError (group_err t)"
proof (induction es arbitrary: g)
  case (Cons e es)
  then obtain g1 where g1: "group_step g e = Some g1" "run_events group_step g1 es = Some t"
    by (auto split: option.splits)
  have "has_cancel g1 \<and> group_cause g1 = map_option ByError (group_err g1)"
    using g1(1) Cons.prems by (cases e) (auto split: if_splits)
  with Cons g1(2) show ?case by auto
qed simp

text \<open>\<open>Wait\<close> returns only when every function has returned, and it returns the first error in the order in which the
  functions returned, or nothing if there was none. The context of the group is cancelled with that error as its cause, or with
  \<open>context.Canceled\<close> once \<open>Wait\<close> is over.\<close>

theorem group_first_error:
  assumes "run_events group_step group_with_context (es @ [GroupWait]) = Some t"
    and "GroupParentDone \<notin> set es" and "GroupWait \<notin> set es"
  shows "length (group_results es) = group_spawned es \<and> group_err t = first_some (group_results es) \<and>
    group_cause t = Some (case first_some (group_results es) of Some e \<Rightarrow> ByError e | None \<Rightarrow> ByWait)"
proof -
  obtain u where u: "run_events group_step group_with_context es = Some u" "group_step u GroupWait = Some t"
    using assms(1) by (auto simp: run_events_append split: option.splits)
  have r: "has_cancel u" "group_err u = first_some (group_results es)"
    "group_running u + length (group_results es) = group_spawned es"
    using group_run [OF u(1)] by (auto simp: group_with_context_def)
  have "group_cause u = map_option ByError (group_err u)"
    using group_run_cause [OF u(1) assms(2,3)] by (simp add: group_with_context_def)
  with u(2) r show ?thesis by (auto split: if_splits option.split)
qed

lemma group_first_error_witness:
  "\<exists>t. run_events group_step group_with_context
     ([GroupGo, GroupGo, GroupFinish None, GroupFinish (Some ''down'')] @ [GroupWait]) = Some t \<and> group_err t = Some ''down''"
proof -
  let ?es = "[GroupGo, GroupGo, GroupFinish None, GroupFinish (Some ''down'')]"
  obtain t where t: "run_events group_step group_with_context (?es @ [GroupWait]) = Some t"
    by (simp add: group_with_context_def)
  from group_first_error [OF t] have "group_err t = Some ''down''" by simp
  with t show ?thesis by blast
qed

text \<open>A zero \<open>Group\<close> has no context to cancel.\<close>

lemma zero_group_never_cancels:
  "run_events group_step zero_group es = Some t \<Longrightarrow> GroupParentDone \<notin> set es \<Longrightarrow> group_cause t = None"
proof -
  have "run_events group_step g es = Some t \<Longrightarrow> GroupParentDone \<notin> set es \<Longrightarrow> \<not> has_cancel g \<Longrightarrow>
    group_cause g = None \<Longrightarrow> group_cause t = None" for g :: "'a task_group"
  proof (induction es arbitrary: g)
    case (Cons e es)
    then obtain g1 where g1: "group_step g e = Some g1" "run_events group_step g1 es = Some t"
      by (auto split: option.splits)
    have "\<not> has_cancel g1 \<and> group_cause g1 = None"
      using g1(1) Cons.prems by (cases e) (auto split: if_splits)
    with Cons g1(2) show ?case by auto
  qed simp
  then show "run_events group_step zero_group es = Some t \<Longrightarrow> GroupParentDone \<notin> set es \<Longrightarrow> group_cause t = None"
    by (simp add: zero_group_def)
qed


section \<open>The owned channel\<close>

text \<open>\<open>GenerateSequence\<close>: the channel has room for all values, so the producer never waits; a negative count panics in
  \<open>make\<close>. What a reader that drains the channel sees, until the producer closes it, is this list.\<close>

function sequence_loop :: "int \<Rightarrow> int \<Rightarrow> int list" where
  "sequence_loop i count = (if i \<le> count then i # sequence_loop (i + 1) count else [])"
  by pat_completeness auto
termination by (relation "measure (\<lambda>(i, count). nat (count + 1 - i))") auto

declare sequence_loop.simps [simp del]

definition generate_sequence :: "int \<Rightarrow> int list option" where
  "generate_sequence count = (if count < 0 then None else Some (sequence_loop 1 count))"

lemma sequence_loop_upto: "sequence_loop i count = [i..count]"
  by (induction i count rule: sequence_loop.induct) (subst sequence_loop.simps, simp add: upto.simps)

lemma generate_sequence_values:
  "0 \<le> count \<Longrightarrow> generate_sequence count = Some [1..count]"
  by (simp add: generate_sequence_def sequence_loop_upto)


section \<open>Counters\<close>

text \<open>Each \<open>Inc\<close> is one critical section, or one atomic addition; both wrap around.\<close>

definition counter_inc :: "int \<Rightarrow> int" where
  "counter_inc v = i64 (v + 1)"

definition atomic_inc :: "int \<Rightarrow> int" where
  "atomic_inc v = i64 (v + 1)"

lemma counter_total: "(counter_inc ^^ n) 0 = i64 (int n)"
proof (induction n)
  case (Suc n)
  then show ?case by (simp add: counter_inc_def i64_add_left i64_add_right ac_simps)
qed (simp add: i64_def)

lemma counters_agree: "(atomic_inc ^^ n) v = (counter_inc ^^ n) v"
  by (induction n) (simp_all add: counter_inc_def atomic_inc_def)

end
