(* ===== verification/Telemetry.thy ===== *)
theory Telemetry
  imports Go_Strings Float64
begin

text \<open>
  \<open>patterns/17_observability\<close>: the structured logger (\<open>structured_logger.go\<close>), the spans of the tracer
  (\<open>tracer.go\<close>) and the integer metrics (\<open>metrics_collector.go\<close>). A field's value is opaque. The random
  draw that decides whether a record is sampled out is an argument.
\<close>


section \<open>Structured logger\<close>

datatype 'v field_value = FieldValue 'v | Redacted

record 'v log_record =
  rec_timestamp :: gotime
  rec_level :: string
  rec_message :: string
  rec_request_id :: string
  rec_correlation_id :: string
  rec_fields :: "(string \<rightharpoonup> 'v field_value) option"

record 'v structured_logger =
  logger_out :: "'v log_record list"
  sample_rate :: f64
  min_level :: string

definition new_structured_logger :: "f64 \<Rightarrow> string \<Rightarrow> 'v structured_logger" where
  "new_structured_logger sampleRate minLevel =
     \<lparr>logger_out = [],
      sample_rate = (if f_le sampleRate (Finite 0) \<or> f_lt (Finite 1) sampleRate then Finite 1 else sampleRate),
      min_level = minLevel\<rparr>"

definition sensitive_keys :: "string list" where
  "sensitive_keys = [''password'', ''secret'', ''token'', ''key'', ''auth'', ''credential'', ''credit_card'', ''ssn'']"

text \<open>A level outside the table counts 0.\<close>

definition level_order :: "string \<Rightarrow> int" where
  "level_order l =
     (if l = ''DEBUG'' then 1 else if l = ''INFO'' then 2 else if l = ''WARN'' then 3 else if l = ''ERROR'' then 4 else 0)"

definition should_log_level :: "'v structured_logger \<Rightarrow> string \<Rightarrow> bool" where
  "should_log_level l level \<longleftrightarrow> level_order (min_level l) \<le> level_order level"

definition sensitive_attr :: "string \<Rightarrow> bool" where
  "sensitive_attr k \<longleftrightarrow> (\<exists>s \<in> set sensitive_keys. contains_str (fold_case k) s)"

definition sanitize_fields :: "(string \<rightharpoonup> 'v) option \<Rightarrow> (string \<rightharpoonup> 'v field_value) option" where
  "sanitize_fields fields' =
     map_option (\<lambda>m k. map_option (\<lambda>v. if sensitive_attr k then Redacted else FieldValue v) (m k)) fields'"

text \<open>\<open>u\<close> is what \<open>rand.Float64\<close> returns.\<close>

definition log_event ::
  "'v structured_logger \<Rightarrow> f64 \<Rightarrow> gotime \<Rightarrow> string \<Rightarrow> string \<Rightarrow> (string \<rightharpoonup> 'v) option \<Rightarrow> 'v structured_logger" where
  "log_event l u now level msg fields' =
     (if \<not> should_log_level l level then l
      else if (level = ''DEBUG'' \<or> level = ''INFO'') \<and> f_lt (sample_rate l) (Finite 1) \<and> f_lt (sample_rate l) u then l
      else l\<lparr>logger_out := logger_out l @
             [\<lparr>rec_timestamp = now, rec_level = level, rec_message = msg, rec_request_id = [], rec_correlation_id = [],
               rec_fields = sanitize_fields fields'\<rparr>]\<rparr>)"

text \<open>Warnings and errors are never sampled away.\<close>

lemma warnings_always_logged:
  assumes "level = ''WARN'' \<or> level = ''ERROR''" and "should_log_level l level"
  shows "length (logger_out (log_event l u now level msg fs)) = Suc (length (logger_out l))"
  using assms by (auto simp: log_event_def)

text \<open>A rate outside the range is taken for 1, and nothing is sampled away at that rate.\<close>

lemma full_rate_logs_all:
  assumes "f_le r (Finite 0) \<or> f_le (Finite 1) r" and "l = new_structured_logger r m" and "should_log_level l level"
  shows "length (logger_out (log_event l u now level msg fs)) = 1"
proof -
  have "sample_rate l = Finite 1" "logger_out l = []"
    using assms(1,2) by (auto simp: new_structured_logger_def f_le_def)
  with assms(3) show ?thesis by (simp add: log_event_def)
qed

text \<open>What is written does not depend on the values of sensitive fields: two calls whose fields differ only there leave the same
  log.\<close>

lemma secrets_not_logged:
  assumes "\<And>k. \<not> sensitive_attr k \<Longrightarrow> m1 k = m2 k" and "dom m1 = dom m2"
  shows "log_event l u now level msg (Some m1) = log_event l u now level msg (Some m2)"
proof -
  have "map_option (\<lambda>v. if sensitive_attr k then Redacted else FieldValue v) (m1 k) =
      map_option (\<lambda>v. if sensitive_attr k then Redacted else FieldValue v) (m2 k)" for k
  proof (cases "sensitive_attr k")
    case True
    have "(m1 k = None) = (m2 k = None)" using assms(2) by (metis domIff)
    with True show ?thesis by (cases "m1 k"; cases "m2 k") auto
  next
    case False
    then show ?thesis by (simp add: assms(1))
  qed
  then show ?thesis by (simp add: log_event_def sanitize_fields_def)
qed

text \<open>The identifiers of the request are never filled in.\<close>

lemma ids_never_logged:
  assumes "\<forall>r \<in> set (logger_out l). rec_request_id r = [] \<and> rec_correlation_id r = []"
  shows "\<forall>r \<in> set (logger_out (log_event l u now level msg fs)). rec_request_id r = [] \<and> rec_correlation_id r = []"
  using assms by (simp add: log_event_def)


section \<open>Spans\<close>

record span =
  trace_id :: string
  span_id :: string
  parent_span_id :: string
  span_name :: string
  span_start :: gotime
  span_end :: gotime
  span_tags :: "string \<rightharpoonup> string"
  span_events :: "(string \<times> gotime) list"

definition set_tag :: "span \<Rightarrow> string \<Rightarrow> string \<Rightarrow> span" where
  "set_tag s k v = s\<lparr>span_tags := (span_tags s)(k \<mapsto> v)\<rparr>"

definition add_event :: "span \<Rightarrow> gotime \<Rightarrow> string \<Rightarrow> span" where
  "add_event s now name = s\<lparr>span_events := span_events s @ [(name, now)]\<rparr>"

definition finish_span :: "span \<Rightarrow> gotime \<Rightarrow> span" where
  "finish_span s now = s\<lparr>span_end := now\<rparr>"

text \<open>\<open>parent\<close> is the span in the context, \<open>trace_bytes\<close> and \<open>span_bytes\<close> are the random bytes read.\<close>

definition generate_hex_id :: "string \<Rightarrow> string" where
  "generate_hex_id random_bytes = hex_encode random_bytes"

text \<open>A context is known by the value under the span key: nothing, something that is no span, or a span pointer.\<close>

datatype span_value = NoValue | NotASpan | ASpan "span option"

definition span_from_context :: "span_value \<Rightarrow> span option" where
  "span_from_context v = (case v of ASpan s \<Rightarrow> s | _ \<Rightarrow> None)"

definition start_span :: "span option \<Rightarrow> string \<Rightarrow> string \<Rightarrow> gotime \<Rightarrow> string \<Rightarrow> span" where
  "start_span parent trace_bytes span_bytes now name =
     (let traceID0 = generate_hex_id trace_bytes;
          (traceID, parentSpanID) = (case parent of Some p \<Rightarrow> (trace_id p, span_id p) | None \<Rightarrow> (traceID0, []))
      in \<lparr>trace_id = traceID, span_id = generate_hex_id span_bytes, parent_span_id = parentSpanID, span_name = name,
          span_start = now, span_end = zero_time, span_tags = Map.empty, span_events = []\<rparr>)"

text \<open>Spans started one inside the other, outermost first, with their random bytes and clock readings.\<close>

fun nested_spans :: "span option \<Rightarrow> (string \<times> string \<times> gotime \<times> string) list \<Rightarrow> span list" where
  "nested_spans parent [] = []"
| "nested_spans parent ((tb, sb, now, name) # xs) =
     (let s = start_span parent tb sb now name in s # nested_spans (Some s) xs)"

text \<open>All spans of a nest carry the trace id of the outermost one, and each names its parent.\<close>

lemma nested_same_trace:
  "s \<in> set (nested_spans (Some p) xs) \<Longrightarrow> trace_id s = trace_id p"
proof (induction xs arbitrary: p)
  case (Cons x xs)
  obtain tb sb now name where x: "x = (tb, sb, now, name)" by (rule prod_cases4)
  have "trace_id (start_span (Some p) tb sb now name) = trace_id p" by (simp add: start_span_def Let_def)
  with Cons x show ?case by (auto simp: Let_def)
qed simp

lemma child_names_parent:
  "parent_span_id (start_span (Some p) tb sb now name) = span_id p" "parent_span_id (start_span None tb sb now name) = []"
  by (simp_all add: start_span_def Let_def)

lemma span_operations_keep_ids:
  "trace_id (set_tag s k v) = trace_id s" "span_id (add_event s now n) = span_id s" "parent_span_id (finish_span s now) = parent_span_id s"
  by (simp_all add: set_tag_def add_event_def finish_span_def)


section \<open>Integer metrics\<close>

datatype gauge_op = GaugeSet int | GaugeInc | GaugeDec

definition counter_add :: "int \<Rightarrow> int \<Rightarrow> int" where
  "counter_add v d = i64 (v + d)"

fun gauge_step :: "int \<Rightarrow> gauge_op \<Rightarrow> int" where
  "gauge_step v (GaugeSet x) = x"
| "gauge_step v GaugeInc = i64 (v + 1)"
| "gauge_step v GaugeDec = i64 (v - 1)"

lemma counter_sum: "foldl counter_add (i64 v) ds = i64 (v + sum_list ds)"
proof (induction ds arbitrary: v)
  case (Cons d ds)
  have "counter_add (i64 v) d = i64 (v + d)" by (simp add: counter_add_def i64_add_left)
  then show ?case using Cons [of "v + d"] by (simp add: add.assoc)
qed simp

text \<open>Nothing keeps a counter from going down: \<open>Add\<close> takes any number.\<close>

lemma counter_can_decrease: "counter_add 5 (- 3) = 2"
  by (simp add: counter_add_def in64_def)

end
