(* ===== verification/Token_Buckets.thy ===== *)
theory Token_Buckets
  imports Float64 Http_Policies
begin

text \<open>
  The three token buckets of the repository: \<open>patterns/09_concurrency/rate_limiter.go\<close>, the limiter per client of
  \<open>patterns/11_middleware/rate_limit_middleware.go\<close> and \<open>patterns/08_httpclient/retry_budget.go\<close>, in the arithmetic of
  \<open>Float64\<close>. Each operation reads the clock once; the reading is its argument.

  What a bucket promises is stated by the locale \<open>token_account\<close>: an operation that is granted pays for it out of the
  account's worth, and an operation can add at most its gift. Inside, the number of grants of any run is bounded by
  the worth at its start and the gifts. The buckets interpret it with the tokens less the tokens the time passed has earned,
  so that the gifts are the rounding errors and, for the budget, the deposits.
\<close>


section \<open>Accounts\<close>

fun run_account :: "('s \<Rightarrow> 'e \<Rightarrow> bool \<times> 's) \<Rightarrow> 's \<Rightarrow> 'e list \<Rightarrow> nat \<times> 's" where
  "run_account step s [] = (0, s)"
| "run_account step s (e # es) =
     (let (granted, s1) = step s e; (n, s2) = run_account step s1 es in ((if granted then Suc n else n), s2))"

locale token_account =
  fixes step :: "'s \<Rightarrow> 'e \<Rightarrow> bool \<times> 's" and good :: "'s \<Rightarrow> bool" and allowed :: "'s \<Rightarrow> 'e \<Rightarrow> bool"
    and worth :: "'s \<Rightarrow> rat" and gift :: "'e \<Rightarrow> rat"
  assumes keeps: "good s \<Longrightarrow> allowed s e \<Longrightarrow> good (snd (step s e))"
    and pays: "good s \<Longrightarrow> allowed s e \<Longrightarrow> of_bool (fst (step s e)) + worth (snd (step s e)) \<le> worth s + gift e"
begin

fun all_allowed :: "'s \<Rightarrow> 'e list \<Rightarrow> bool" where
  "all_allowed s [] = True"
| "all_allowed s (e # es) = (allowed s e \<and> all_allowed (snd (step s e)) es)"

lemma run_good: "good s \<Longrightarrow> all_allowed s es \<Longrightarrow> good (snd (run_account step s es))"
  by (induction es arbitrary: s) (auto simp: split_beta Let_def keeps)

lemma run_bound:
  "good s \<Longrightarrow> all_allowed s es \<Longrightarrow>
    of_nat (fst (run_account step s es)) + worth (snd (run_account step s es)) \<le> worth s + sum_list (map gift es)"
proof (induction es arbitrary: s)
  case (Cons e es)
  then have "good s" "allowed s e" and rest: "all_allowed (snd (step s e)) es" by simp_all
  with Cons.IH [OF keeps rest] pays [of s e] show ?case by (auto simp: split_beta Let_def)
qed simp

end


section \<open>Refilling\<close>

definition refill_tokens :: "bool \<Rightarrow> f64 \<Rightarrow> f64 \<Rightarrow> f64 \<Rightarrow> duration \<Rightarrow> f64" where
  "refill_tokens fused tokens rate burst elapsed =
     (let t = f_muladd fused (seconds elapsed) rate tokens in if f_lt burst t then burst else t)"

lemma round64_capped:
  assumes "f64_value (Finite b)" and "0 \<le> b" and "0 \<le> q"
  shows "(if f_lt (Finite b) (round64 q) then Finite b else round64 q) = Finite (min b (fl q))"
proof -
  have "0 \<le> fl q" and "\<bar>b\<bar> < 2 ^ 1024" using fl_nonneg assms by (auto simp: f64_value_Finite)
  moreover have "(0 :: rat) < 2 ^ 1024" by simp
  ultimately have "\<not> fl q \<le> - (2 ^ 1024)" "b < 2 ^ 1024" by linarith+
  then show ?thesis using assms by (auto simp: round64_def Let_def min_def)
qed

lemma refill_eq:
  assumes t: "f64_value (Finite t)" "0 \<le> t" and r: "0 < r" and b: "f64_value (Finite b)" "0 \<le> b"
    and s: "seconds d = Finite s" "0 \<le> s"
  shows "refill_tokens fused (Finite t) (Finite r) (Finite b) d =
    Finite (min b (if fused then fl (s * r + t) else fl (t + fl (s * r))))"
proof (cases "fused \<or> round64 (s * r) = Finite (fl (s * r))")
  case True
  have "0 \<le> s * r" "0 \<le> fl (s * r)" using s r by (simp_all add: fl_nonneg)
  with True show ?thesis using round64_capped [OF b, of "s * r + t"] round64_capped [OF b, of "t + fl (s * r)"] t s
    by (auto simp: refill_tokens_def f_muladd_def Let_def)
next
  case False
  have p: "0 \<le> fl (s * r)" using s r by (simp add: fl_nonneg)
  moreover have "(0 :: rat) < 2 ^ 1024" by simp
  ultimately have "round64 (s * r) = PosInf" "2 ^ 1024 \<le> fl (s * r)" using False by (auto simp: round64_def Let_def split: if_splits)
  moreover have "fl (s * r) \<le> fl (t + fl (s * r))" using fl_mono [of "fl (s * r)" "t + fl (s * r)"] t by simp
  moreover have "b < 2 ^ 1024" using b by (simp add: f64_value_Finite abs_less_iff)
  ultimately show ?thesis using False s by (simp add: refill_tokens_def f_muladd_def Let_def min_def)
qed

lemma refill_rounding:
  fixes t b A p f x h :: rat
  assumes "0 \<le> t" "t \<le> b" "1 \<le> b" "0 \<le> A" "p \<le> A + A / 2 ^ 50" "f \<le> p + p / 2 ^ 53 + h" "x \<le> t + f + (t + f) / 2 ^ 53 + h"
    "h \<le> 1 / 2 ^ 60"
  shows "x \<le> t + A + A / 2 ^ 49 + b / 2 ^ 52"
  using assms by (simp add: field_simps)

lemma refill_rounding_low:
  fixes t b A p f x h :: rat
  assumes "0 \<le> t" "t \<le> b" "1 \<le> b" "0 \<le> A" "A - A / 2 ^ 50 \<le> p" "p - p / 2 ^ 53 - h \<le> f" "t + f - (t + f) / 2 ^ 53 - h \<le> x"
    "h \<le> 1 / 2 ^ 60"
  shows "t + A - A / 2 ^ 49 - b / 2 ^ 52 \<le> x"
  using assms by (simp add: field_simps)

text \<open>A refill adds what the elapsed time earns, up to the rounding.\<close>

lemma refill_bounds:
  assumes t: "f64_value (Finite t)" "0 \<le> t" "t \<le> b" and r: "0 < r" and b: "f64_value (Finite b)" "1 \<le> b"
    and d: "0 \<le> d" "d < 9223372036854775808"
  obtains c where "refill_tokens fused (Finite t) (Finite r) (Finite b) d = Finite c"
    and "f64_value (Finite c)" and "t \<le> c" and "c \<le> b"
    and "c \<le> t + (1 + 1 / 2 ^ 49) * r * of_int d / 1000000000 + b / 2 ^ 52"
    and "c = b \<or> t + (1 - 1 / 2 ^ 49) * r * of_int d / 1000000000 - b / 2 ^ 52 \<le> c"
    and "1 + 1 / 2 ^ 49 \<le> r * of_int d / 1000000000 \<longrightarrow> 1 \<le> c"
proof -
  obtain s where s: "seconds d = Finite s" "0 \<le> s" "f64_value (Finite s)"
    and se: "\<bar>s - of_int d / 1000000000\<bar> \<le> of_int d / 1000000000 / 2 ^ 50" using seconds_nonneg [OF d] .
  define D where "D = (of_int d / 1000000000 :: rat)"
  define p where "p = s * r"
  define x where "x = (if fused then fl (p + t) else fl (t + fl p))"
  have D: "0 \<le> D" using d by (simp add: D_def)
  have p: "0 \<le> p" "0 \<le> fl p" using s r by (simp_all add: p_def fl_nonneg)
  have eq: "refill_tokens fused (Finite t) (Finite r) (Finite b) d = Finite (min b x)"
    using refill_eq [OF t(1,2) r b(1) _ s(1,2)] b by (simp add: x_def p_def)
  have tx: "t \<le> x" using fl_mono [of t "p + t"] fl_mono [of t "t + fl p"] p t by (auto simp: x_def f64_value_Finite)
  have s2: "s \<le> D + D / 2 ^ 50" "D - D / 2 ^ 50 \<le> s"
    using se abs_ge_self [of "s - D"] abs_ge_minus_self [of "s - D"] unfolding D_def by linarith+
  have pp: "p \<le> r * D + r * D / 2 ^ 50" "r * D - r * D / 2 ^ 50 \<le> p"
    using mult_left_mono [OF s2(1), of r] mult_left_mono [OF s2(2), of r] r by (simp_all add: p_def algebra_simps)
  have "x \<le> t + r * D + r * D / 2 ^ 49 + b / 2 ^ 52"
  proof (rule refill_rounding)
    let ?f = "if fused then p else fl p"
    show "?f \<le> p + p / 2 ^ 53 + 1 / 2 ^ 1075" using fl_upper [of p] p by simp
    show "x \<le> t + ?f + (t + ?f) / 2 ^ 53 + 1 / 2 ^ 1075"
      using fl_upper [of "p + t"] fl_upper [of "t + fl p"] p t by (simp add: x_def add.commute)
    show "0 \<le> r * D" using r D by simp
  qed (use t b pp tiny in simp_all)
  moreover have "t + r * D - r * D / 2 ^ 49 - b / 2 ^ 52 \<le> x"
  proof (rule refill_rounding_low)
    let ?f = "if fused then p else fl p"
    show "p - p / 2 ^ 53 - 1 / 2 ^ 1075 \<le> ?f" using fl_lower [of p] p by simp
    show "t + ?f - (t + ?f) / 2 ^ 53 - 1 / 2 ^ 1075 \<le> x"
      using fl_lower [of "p + t"] fl_lower [of "t + fl p"] p t by (simp add: x_def add.commute)
    show "0 \<le> r * D" using r D by simp
  qed (use t b pp tiny in simp_all)
  moreover have "1 \<le> x" if "1 + 1 / 2 ^ 49 \<le> r * D"
  proof -
    have "1 \<le> p" using that pp by (simp add: field_simps)
    then have "1 \<le> p + t" "1 \<le> t + fl p" using t fl_mono [of 1 p] by (simp_all add: fl_small)
    then show ?thesis using fl_mono [of 1 "p + t"] fl_mono [of 1 "t + fl p"] by (auto simp: x_def fl_small)
  qed
  moreover have "f64_value (Finite (min b x))"
  proof (cases "b \<le> x")
    case False
    moreover have "fl x = x" by (simp add: x_def)
    ultimately show ?thesis using b tx t by (simp add: f64_value_Finite min_def abs_less_iff)
  qed (use b in \<open>simp add: min_def\<close>)
  moreover have "(1 + 1 / 2 ^ 49) * r * of_int d / 1000000000 = r * D + r * D / 2 ^ 49"
    "(1 - 1 / 2 ^ 49) * r * of_int d / 1000000000 = r * D - r * D / 2 ^ 49" "r * of_int d / 1000000000 = r * D"
    by (simp_all add: D_def field_simps)
  moreover have "min b x = b \<or> min b x = x" "min b x \<le> x" "min b x \<le> b" by (auto simp: min_def)
  ultimately show ?thesis using tx t b by (intro that [OF eq]) (auto simp only: min_def split: if_splits)
qed



section \<open>The token bucket limiter\<close>

record token_bucket =
  bucket_rate :: f64
  bucket_burst :: f64
  bucket_tokens :: f64
  last_refill :: gotime

definition new_token_bucket :: "f64 \<Rightarrow> f64 \<Rightarrow> gotime \<Rightarrow> token_bucket" where
  "new_token_bucket rate0 burst0 now =
     (let rate = (if f_le rate0 (Finite 0) then Finite 10 else rate0);
          burst = (if f_le burst0 (Finite 0) then rate else burst0)
      in \<lparr>bucket_rate = rate, bucket_burst = burst, bucket_tokens = burst, last_refill = now\<rparr>)"

definition refill_locked :: "bool \<Rightarrow> token_bucket \<Rightarrow> gotime \<Rightarrow> token_bucket" where
  "refill_locked fused b now =
     b\<lparr>last_refill := now,
       bucket_tokens := refill_tokens fused (bucket_tokens b) (bucket_rate b) (bucket_burst b) (time_sub now (last_refill b))\<rparr>"

definition bucket_allow :: "bool \<Rightarrow> token_bucket \<Rightarrow> gotime \<Rightarrow> bool \<times> token_bucket" where
  "bucket_allow fused b now =
     (let b1 = refill_locked fused b now
      in if f_le (Finite 1) (bucket_tokens b1) then (True, b1\<lparr>bucket_tokens := f_sub (bucket_tokens b1) (Finite 1)\<rparr>)
         else (False, b1))"

text \<open>The rounds of \<open>Wait\<close>. A round observes the context before the attempt, the clock, and the context again while it sleeps.
  The result is \<open>None\<close> if \<open>Wait\<close> has not returned within the given rounds, and the error or its absence otherwise.\<close>

fun bucket_wait ::
  "bool \<Rightarrow> token_bucket \<Rightarrow> (ctx_err option \<times> gotime \<times> ctx_err option) list \<Rightarrow> ctx_err option option \<times> token_bucket" where
  "bucket_wait fused b [] = (None, b)"
| "bucket_wait fused b ((poll, now, slept) # rounds) =
     (case poll of
        Some e \<Rightarrow> (Some (Some e), b)
      | None \<Rightarrow>
          (let (ok, b1) = bucket_allow fused b now
           in if ok then (Some None, b1)
              else (case slept of Some e \<Rightarrow> (Some (Some e), b1) | None \<Rightarrow> bucket_wait fused b1 rounds)))"

definition bucket_ok :: "rat \<Rightarrow> rat \<Rightarrow> token_bucket \<Rightarrow> bool" where
  "bucket_ok r b s \<longleftrightarrow>
     bucket_rate s = Finite r \<and> bucket_burst s = Finite b \<and> 0 < r \<and> 1 \<le> b \<and> b \<le> 2 ^ 53 \<and> f64_value (Finite b) \<and>
     (\<exists>t. bucket_tokens s = Finite t \<and> f64_value (Finite t) \<and> 0 \<le> t \<and> t \<le> b)"

definition f_value :: "f64 \<Rightarrow> rat" where
  "f_value x = (case x of Finite q \<Rightarrow> q | _ \<Rightarrow> 0)"

definition earned :: "rat \<Rightarrow> gotime \<Rightarrow> rat" where
  "earned r t = (1 + 1 / 2 ^ 49) * r * of_int t / 1000000000"

lemma earned_diff: "earned r t - earned r u = (1 + 1 / 2 ^ 49) * r * of_int (t - u) / 1000000000"
  by (simp only: earned_def of_int_diff right_diff_distrib diff_divide_distrib)

lemma time_sub_forward:
  assumes "u \<le> t"
  shows "0 \<le> time_sub t u" "time_sub t u < 9223372036854775808" "time_sub t u \<le> t - u"
  using assms by (simp_all add: time_sub_def)

lemma spend_exact:
  assumes "f64_value (Finite c)" and "1 \<le> c" and "c \<le> 2 ^ 53"
  shows "f_sub (Finite c) (Finite 1) = Finite (c - 1)" and "f64_value (Finite (c - 1))"
proof -
  have "representable (c - 1)" using assms by (intro representable_pred) (simp_all add: f64_value_def)
  moreover have "\<bar>c - 1\<bar> < 2 ^ 1024" using assms big_power by (simp add: abs_if)
  ultimately show v: "f64_value (Finite (c - 1))" by (simp add: f64_value_def)
  show "f_sub (Finite c) (Finite 1) = Finite (c - 1)" using round64_value [OF v] by (simp add: f_sub_def)
qed

text \<open>One attempt: the bucket stays within its bounds, and pays one token for a grant.\<close>

lemma bucket_allow_pays:
  assumes ok: "bucket_ok r b s" and now: "last_refill s \<le> now"
  shows "bucket_ok r b (snd (bucket_allow fused s now))"
    and "of_bool (fst (bucket_allow fused s now)) + f_value (bucket_tokens (snd (bucket_allow fused s now)))
      \<le> f_value (bucket_tokens s) + earned r now - earned r (last_refill s) + b / 2 ^ 52"
    and "\<not> fst (bucket_allow fused s now) \<Longrightarrow>
      f_value (bucket_tokens s) + (1 - 1 / 2 ^ 49) * r * of_int (time_sub now (last_refill s)) / 1000000000 - b / 2 ^ 52
        \<le> f_value (bucket_tokens (snd (bucket_allow fused s now))) \<and> f_value (bucket_tokens (snd (bucket_allow fused s now))) < 1"
    and "1 + 1 / 2 ^ 49 \<le> r * of_int (time_sub now (last_refill s)) / 1000000000 \<Longrightarrow> fst (bucket_allow fused s now)"
proof -
  define d where "d = time_sub now (last_refill s)"
  have d: "0 \<le> d" "d < 9223372036854775808" "d \<le> now - last_refill s" using time_sub_forward [OF now] by (simp_all add: d_def)
  obtain t where t: "bucket_tokens s = Finite t" "f64_value (Finite t)" "0 \<le> t" "t \<le> b"
    and rb: "bucket_rate s = Finite r" "bucket_burst s = Finite b" "0 < r" "1 \<le> b" "b \<le> 2 ^ 53" "f64_value (Finite b)"
    using ok by (auto simp: bucket_ok_def)
  obtain c where c: "refill_tokens fused (Finite t) (Finite r) (Finite b) d = Finite c" "f64_value (Finite c)" "t \<le> c" "c \<le> b"
    and up: "c \<le> t + (1 + 1 / 2 ^ 49) * r * of_int d / 1000000000 + b / 2 ^ 52"
    and low: "c = b \<or> t + (1 - 1 / 2 ^ 49) * r * of_int d / 1000000000 - b / 2 ^ 52 \<le> c"
    and one: "1 + 1 / 2 ^ 49 \<le> r * of_int d / 1000000000 \<longrightarrow> 1 \<le> c"
    using refill_bounds [where fused = fused, OF t(2-4) rb(3,6,4) d(1,2)] .
  have allow: "bucket_allow fused s now =
    (if 1 \<le> c then (True, s\<lparr>last_refill := now, bucket_tokens := Finite (c - 1)\<rparr>)
     else (False, s\<lparr>last_refill := now, bucket_tokens := Finite c\<rparr>))"
    using c t rb spend_exact [of c] by (auto simp: bucket_allow_def refill_locked_def Let_def f_le_def d_def)
  show "bucket_ok r b (snd (bucket_allow fused s now))"
    using t rb c spend_exact [of c] by (auto simp: allow bucket_ok_def)
  have "(1 + 1 / 2 ^ 49) * r * of_int d \<le> (1 + 1 / 2 ^ 49) * r * of_int (now - last_refill s)"
    using d rb by (intro mult_left_mono) (simp_all only: of_int_le_iff, simp)
  then have "(1 + 1 / 2 ^ 49) * r * of_int d / 1000000000 \<le> earned r now - earned r (last_refill s)"
    by (simp add: earned_def diff_divide_distrib algebra_simps)
  with up show "of_bool (fst (bucket_allow fused s now)) + f_value (bucket_tokens (snd (bucket_allow fused s now)))
      \<le> f_value (bucket_tokens s) + earned r now - earned r (last_refill s) + b / 2 ^ 52"
    by (auto simp: allow t f_value_def)
  show "f_value (bucket_tokens s) + (1 - 1 / 2 ^ 49) * r * of_int (time_sub now (last_refill s)) / 1000000000 - b / 2 ^ 52
        \<le> f_value (bucket_tokens (snd (bucket_allow fused s now))) \<and> f_value (bucket_tokens (snd (bucket_allow fused s now))) < 1"
    if "\<not> fst (bucket_allow fused s now)"
    using that low rb unfolding d_def [symmetric] by (auto simp: allow t f_value_def split: if_splits)
  show "1 + 1 / 2 ^ 49 \<le> r * of_int (time_sub now (last_refill s)) / 1000000000 \<Longrightarrow> fst (bucket_allow fused s now)"
    using one unfolding d_def [symmetric] by (simp add: allow)
qed


lemma bucket_allow_time [simp]: "last_refill (snd (bucket_allow fused s now)) = now"
  by (simp add: bucket_allow_def refill_locked_def Let_def)

interpretation limiter: token_account "bucket_allow fused" "bucket_ok r b" "\<lambda>s now. last_refill s \<le> now"
    "\<lambda>s. f_value (bucket_tokens s) - earned r (last_refill s)" "\<lambda>now. b / 2 ^ 52" for fused r b
proof
  fix s now
  assume "bucket_ok r b s" "last_refill s \<le> now"
  note pays = bucket_allow_pays [where fused = fused, OF this]
  show "bucket_ok r b (snd (bucket_allow fused s now))" by (rule pays)
  show "of_bool (fst (bucket_allow fused s now)) + (f_value (bucket_tokens (snd (bucket_allow fused s now)))
      - earned r (last_refill (snd (bucket_allow fused s now)))) \<le> f_value (bucket_tokens s) - earned r (last_refill s) + b / 2 ^ 52"
    using pays(2) by simp
qed

lemma run_account_append:
  "run_account step s (xs @ ys) =
    (let (m, s1) = run_account step s xs; (n, s2) = run_account step s1 ys in (m + n, s2))"
  by (induction xs arbitrary: s) (auto simp: Let_def split: prod.split)

lemma sorted_allowed: "sorted (last_refill s # nows) \<Longrightarrow> limiter.all_allowed fused s nows"
  by (induction nows arbitrary: s) auto

lemma bucket_run_time: "last_refill (snd (run_account (bucket_allow fused) s nows)) = last (last_refill s # nows)"
  by (induction nows arbitrary: s) (auto simp: Let_def split_beta)

lemma new_bucket_ok:
  "0 < r \<Longrightarrow> 1 \<le> b \<Longrightarrow> b \<le> 2 ^ 53 \<Longrightarrow> f64_value (Finite b) \<Longrightarrow> bucket_ok r b (new_token_bucket (Finite r) (Finite b) now)"
  by (simp add: bucket_ok_def new_token_bucket_def f_le_def Let_def)

lemma new_bucket_time [simp]: "last_refill (new_token_bucket r b now) = now"
  by (simp add: new_token_bucket_def Let_def)

lemma bucket_ok_tokens: "bucket_ok r b s \<Longrightarrow> 0 \<le> f_value (bucket_tokens s) \<and> f_value (bucket_tokens s) \<le> b"
  by (auto simp: bucket_ok_def f_value_def)

lemma sorted_window: "sorted (t # xs @ ys) \<Longrightarrow> sorted (t # xs) \<and> sorted (last (t # xs) # ys)"
  by (auto simp: sorted_append)

text \<open>C14: In every window of time the limiter grants no more than the burst and what the rate earns in the window, up to the
  rounding: one part in \<open>2 ^ 49\<close> of the earnings and one part in \<open>2 ^ 52\<close> of the burst per call.\<close>

theorem rate_limiter_bounded:
  assumes "0 < r" and "1 \<le> b" and "b \<le> 2 ^ 53" and "f64_value (Finite b)" and "sorted (t0 # before @ window)"
    and s_def: "s = snd (run_account (bucket_allow fused) (new_token_bucket (Finite r) (Finite b) t0) before)"
  shows "of_nat (fst (run_account (bucket_allow fused) s window)) \<le>
    b + (1 + 1 / 2 ^ 49) * r * of_int (last (last (t0 # before) # window) - last (t0 # before)) / 1000000000
      + of_nat (length window) * b / 2 ^ 52"
proof -
  let ?s0 = "new_token_bucket (Finite r) (Finite b) t0"
  have so: "sorted (t0 # before)" "sorted (last (t0 # before) # window)" using sorted_window [OF assms(5)] by simp_all
  have start: "last_refill s = last (t0 # before)" by (simp add: s_def bucket_run_time)
  have ok: "bucket_ok r b s"
    unfolding s_def using so(1) by (intro limiter.run_good new_bucket_ok assms) (simp add: sorted_allowed)
  have all: "limiter.all_allowed fused s window" using so(2) by (intro sorted_allowed) (simp add: start)
  define s1 where "s1 = snd (run_account (bucket_allow fused) s window)"
  define n where "n = (of_nat (fst (run_account (bucket_allow fused) s window)) :: rat)"
  have run: "n + (f_value (bucket_tokens s1) - earned r (last_refill s1)) \<le>
      f_value (bucket_tokens s) - earned r (last_refill s) + of_nat (length window) * (b / 2 ^ 52)"
    using limiter.run_bound [OF ok all] by (simp add: s1_def n_def sum_list_triv)
  have end_: "last_refill s1 = last (last (t0 # before) # window)" by (simp only: s1_def bucket_run_time start)
  have "0 \<le> f_value (bucket_tokens s1)" "f_value (bucket_tokens s) \<le> b"
    using bucket_ok_tokens [OF ok] bucket_ok_tokens [OF limiter.run_good [OF ok all]] by (simp_all add: s1_def)
  with run have "n \<le> b + (earned r (last_refill s1) - earned r (last_refill s)) + of_nat (length window) * (b / 2 ^ 52)"
    by linarith
  then show ?thesis by (simp only: n_def earned_diff end_ start times_divide_eq_right)
qed


theorem rate_limiter_bounded_witness:
  "of_nat (fst (run_account (bucket_allow False) (snd (run_account (bucket_allow False) (new_token_bucket (Finite 10) (Finite 5) 0) [0]))
      [0, 1000000000])) \<le> 5 + (1 + 1 / 2 ^ 49) * 10 * of_int (1000000000 - 0) / 1000000000 + of_nat 2 * 5 / (2 ^ 52 :: rat)"
  using rate_limiter_bounded [of 10 5 0 "[0]" "[0, 1000000000]" _ False, OF _ _ _ _ _ refl] f64_value_int [of 5] by simp

text \<open>Rounds of \<open>Wait\<close> under a context that is never done: as long as all are refused, the tokens grow.\<close>

lemma wait_refused:
  assumes "bucket_ok r b s" and "sorted (last_refill s # nows)" and "last (last_refill s # nows) - last_refill s < 9223372036854775808"
    and "fst (bucket_wait fused s (map (\<lambda>t. (None, t, None)) nows)) = None" and "nows \<noteq> []"
  shows "f_value (bucket_tokens s) + (1 - 1 / 2 ^ 49) * r * of_int (last nows - last_refill s) / 1000000000
    < 1 + of_nat (length nows) * (b / 2 ^ 52)"
  using assms
proof (induction nows arbitrary: s)
  case (Cons t nows)
  define s1 where "s1 = snd (bucket_allow fused s t)"
  have ord: "last_refill s \<le> t" "sorted (t # nows)" using Cons.prems(2) by simp_all
  have refused: "\<not> fst (bucket_allow fused s t)"
    and rest: "fst (bucket_wait fused s1 (map (\<lambda>t. (None, t, None)) nows)) = None"
    using Cons.prems(4) by (auto simp: s1_def split_beta Let_def split: if_splits)
  have last: "t \<le> last (t # nows)" using ord(2) by (cases nows) (auto simp: last_in_set)
  then have d: "time_sub t (last_refill s) = t - last_refill s" using ord Cons.prems(3) by (simp add: in64_def)
  have s1: "bucket_ok r b s1" "last_refill s1 = t" using bucket_allow_pays(1) [OF Cons.prems(1) ord(1)] by (simp_all add: s1_def)
  have step: "f_value (bucket_tokens s) + (1 - 1 / 2 ^ 49) * r * of_int (t - last_refill s) / 1000000000 - b / 2 ^ 52
      \<le> f_value (bucket_tokens s1)" "f_value (bucket_tokens s1) < 1"
    using bucket_allow_pays(3) [OF Cons.prems(1) ord(1) refused] unfolding d by (simp_all add: s1_def)
  show ?case
  proof (cases "nows = []")
    case True
    with step show ?thesis by simp
  next
    case False
    have "f_value (bucket_tokens s1) + (1 - 1 / 2 ^ 49) * r * of_int (last nows - t) / 1000000000 < 1 + of_nat (length nows) * (b / 2 ^ 52)"
      using Cons.IH [OF s1(1) _ _ rest False] ord Cons.prems(3) False by (simp add: s1(2))
    moreover have "(1 - 1 / 2 ^ 49) * r * of_int (last nows - last_refill s) / 1000000000 =
        (1 - 1 / 2 ^ 49) * r * of_int (last nows - t) / 1000000000 + (1 - 1 / 2 ^ 49) * r * of_int (t - last_refill s) / 1000000000"
      by (simp only: add_divide_distrib [symmetric] distrib_left [symmetric] of_int_add [symmetric]) simp
    ultimately have "f_value (bucket_tokens s) + (1 - 1 / 2 ^ 49) * r * of_int (last nows - last_refill s) / 1000000000
        < 1 + of_nat (length nows) * (b / 2 ^ 52) + b / 2 ^ 52"
      using step(1) by linarith
    moreover have "last (t # nows) = last nows" using False by simp
    moreover have "of_nat (length (t # nows)) * (b / 2 ^ 52) = of_nat (length nows) * (b / 2 ^ 52) + b / 2 ^ 52"
      by (simp only: length_Cons of_nat_Suc distrib_right mult_1 add.commute)
    ultimately show ?thesis by (simp only: add.assoc)
  qed
qed simp

text \<open>C15: For a single, uncontended caller \<open>Wait\<close> returns with a token as soon as the rate has earned one, whatever
  the state of the bucket was.\<close>

theorem wait_gets_token:
  assumes "0 < r" and "1 \<le> b" and "b \<le> 2 ^ 53" and "f64_value (Finite b)" and "sorted (t0 # before @ nows)"
    and "s = snd (run_account (bucket_allow fused) (new_token_bucket (Finite r) (Finite b) t0) before)"
    and "nows \<noteq> []" and "last nows - last (t0 # before) < 9223372036854775808"
    and "1 + of_nat (length nows) * (b / 2 ^ 52) \<le> (1 - 1 / 2 ^ 49) * r * of_int (last nows - last (t0 # before)) / 1000000000"
  shows "fst (bucket_wait fused s (map (\<lambda>t. (None, t, None)) nows)) = Some None"
proof (rule ccontr)
  assume "fst (bucket_wait fused s (map (\<lambda>t. (None, t, None)) nows)) \<noteq> Some None"
  then have refused: "fst (bucket_wait fused s (map (\<lambda>t. (None, t, None)) nows)) = None"
    by (induction nows arbitrary: s) (auto simp: split_beta Let_def split: if_splits)
  have so: "sorted (t0 # before)" "sorted (last (t0 # before) # nows)" using sorted_window [OF assms(5)] by simp_all
  have start: "last_refill s = last (t0 # before)" by (simp add: assms(6) bucket_run_time)
  have ok: "bucket_ok r b s"
    unfolding assms(6) using so(1) by (intro limiter.run_good new_bucket_ok assms(1-4)) (simp add: sorted_allowed)
  have "last (last (t0 # before) # nows) = last nows" using assms(7) by simp
  then have "sorted (last_refill s # nows)" "last (last_refill s # nows) - last_refill s < 9223372036854775808"
    using so(2) assms(8) by (simp_all only: start)
  from wait_refused [OF ok this refused assms(7)] bucket_ok_tokens [OF ok] assms(9)
  show False unfolding start by linarith
qed


theorem wait_gets_token_witness:
  "fst (bucket_wait False (snd (run_account (bucket_allow False) (new_token_bucket (Finite 10) (Finite 5) 0) [0, 0]))
    (map (\<lambda>t. (None, t, None)) [50000000, 200000000])) = Some None"
  by (rule wait_gets_token [of 10 5 0 "[0, 0]", OF _ _ _ _ _ refl]) (use f64_value_int [of 5] in simp_all)

text \<open>A burst below one is never enough for a token: such a limiter refuses for ever. The constructor creates one whenever it
  takes the burst from a rate below one per second.\<close>

lemma small_burst_refuses:
  assumes "bucket_burst s = Finite b" and "b < 1"
  shows "\<not> fst (bucket_allow fused s now)" and "bucket_burst (snd (bucket_allow fused s now)) = Finite b"
proof -
  have "\<not> f_le (Finite 1) (bucket_tokens (refill_locked fused s now))"
  proof
    assume "f_le (Finite 1) (bucket_tokens (refill_locked fused s now))"
    then show False using assms
      by (cases "f_muladd fused (seconds (time_sub now (last_refill s))) (bucket_rate s) (bucket_tokens s)")
        (auto simp: refill_locked_def refill_tokens_def Let_def f_le_def split: if_splits)
  qed
  then show "\<not> fst (bucket_allow fused s now)" "bucket_burst (snd (bucket_allow fused s now)) = Finite b"
    using assms by (simp_all add: bucket_allow_def refill_locked_def Let_def)
qed

lemma slow_limiter_starves:
  assumes "0 < r" and "r < 1"
  shows "fst (run_account (bucket_allow fused) (new_token_bucket (Finite r) (Finite 0) t0) nows) = 0"
proof -
  have "bucket_burst s = Finite r \<Longrightarrow> fst (run_account (bucket_allow fused) s nows) = 0" for s
    using small_burst_refuses [OF _ assms(2)] by (induction nows arbitrary: s) (auto simp: split_beta Let_def)
  moreover have "bucket_burst (new_token_bucket (Finite r) (Finite 0) t0) = Finite r"
    using assms by (simp add: new_token_bucket_def f_le_def Let_def)
  ultimately show ?thesis by blast
qed


section \<open>One bucket per client\<close>

record client_bucket =
  client_tokens :: f64
  client_refill :: gotime

record ip_limiter =
  ip_clients :: "string \<rightharpoonup> client_bucket"
  ip_rate :: f64
  ip_burst :: f64

definition new_ip_limiter :: "f64 \<Rightarrow> f64 \<Rightarrow> ip_limiter" where
  "new_ip_limiter rate burst = \<lparr>ip_clients = Map.empty, ip_rate = rate, ip_burst = burst\<rparr>"

definition ip_allow :: "bool \<Rightarrow> ip_limiter \<Rightarrow> string \<times> gotime \<Rightarrow> bool \<times> ip_limiter" where
  "ip_allow fused l req =
     (let (ip, now) = req in
      case ip_clients l ip of
        None \<Rightarrow>
          (True, l\<lparr>ip_clients := (ip_clients l)(ip \<mapsto>
             \<lparr>client_tokens = f_sub (ip_burst l) (Finite 1), client_refill = now\<rparr>)\<rparr>)
      | Some c \<Rightarrow>
          (let t = refill_tokens fused (client_tokens c) (ip_rate l) (ip_burst l) (time_sub now (client_refill c))
           in if f_le (Finite 1) t
              then (True, l\<lparr>ip_clients := (ip_clients l)(ip \<mapsto> \<lparr>client_tokens = f_sub t (Finite 1), client_refill = now\<rparr>)\<rparr>)
              else (False, l\<lparr>ip_clients := (ip_clients l)(ip \<mapsto> \<lparr>client_tokens = t, client_refill = now\<rparr>)\<rparr>)))"

definition rate_limit_middleware ::
  "bool \<Rightarrow> (string \<Rightarrow> string \<Rightarrow> string) \<Rightarrow> (string \<Rightarrow> string option) \<Rightarrow> handler \<Rightarrow> ip_limiter \<Rightarrow> gotime \<Rightarrow> http_request \<Rightarrow>
     (effect list \<times> handler_exit) \<times> ip_limiter" where
  "rate_limit_middleware fused enc split_host next l now r =
     (let (ok, l1) = ip_allow fused l (extract_client_ip split_host r, now)
      in (if \<not> ok
          then ([SetHeader ''Content-Type'' ''application/json'', SetHeader ''Retry-After'' ''1'', WriteHeaderTo 429,
                 WriteBytes (enc ''too_many_requests'' ''Rate limit exceeded. Please retry after some time.'')], Returns)
          else next r, l1))"

text \<open>A known client's bucket behaves like the bucket of the limiter above.\<close>

definition client_view_bucket :: "ip_limiter \<Rightarrow> client_bucket \<Rightarrow> token_bucket" where
  "client_view_bucket l c =
     \<lparr>bucket_rate = ip_rate l, bucket_burst = ip_burst l, bucket_tokens = client_tokens c, last_refill = client_refill c\<rparr>"

definition bucket_client :: "token_bucket \<Rightarrow> client_bucket" where
  "bucket_client s = \<lparr>client_tokens = bucket_tokens s, client_refill = last_refill s\<rparr>"

lemma client_view_bucket_fields [simp]:
  "bucket_tokens (client_view_bucket l c) = client_tokens c" "last_refill (client_view_bucket l c) = client_refill c"
  by (simp_all add: client_view_bucket_def)

lemma ip_allow_known:
  "ip_clients l ip = Some c \<Longrightarrow>
    ip_allow fused l (ip, now) =
      (fst (bucket_allow fused (client_view_bucket l c) now),
       l\<lparr>ip_clients := (ip_clients l)(ip \<mapsto> bucket_client (snd (bucket_allow fused (client_view_bucket l c) now)))\<rparr>)"
  by (simp add: ip_allow_def bucket_allow_def refill_locked_def client_view_bucket_def bucket_client_def Let_def)

lemma ip_allow_frame:
  "ip_rate (snd (ip_allow fused l req)) = ip_rate l" "ip_burst (snd (ip_allow fused l req)) = ip_burst l"
  "ip \<noteq> fst req \<Longrightarrow> ip_clients (snd (ip_allow fused l req)) ip = ip_clients l ip"
  by (auto simp: ip_allow_def Let_def split: prod.split option.split)

text \<open>The account of one client among all requests: only its own requests concern it.\<close>

definition own_step :: "bool \<Rightarrow> string \<Rightarrow> ip_limiter \<Rightarrow> string \<times> gotime \<Rightarrow> bool \<times> ip_limiter" where
  "own_step fused ip l req = (let (ok, l1) = ip_allow fused l req in (ok \<and> fst req = ip, l1))"

definition client_ok :: "rat \<Rightarrow> rat \<Rightarrow> gotime \<Rightarrow> string \<Rightarrow> ip_limiter \<Rightarrow> bool" where
  "client_ok r b t0 ip l \<longleftrightarrow>
     ip_rate l = Finite r \<and> ip_burst l = Finite b \<and> 0 < r \<and> 1 \<le> b \<and> b \<le> 2 ^ 53 \<and> f64_value (Finite b) \<and>
     (case ip_clients l ip of None \<Rightarrow> True | Some c \<Rightarrow> bucket_ok r b (client_view_bucket l c))"

definition client_worth :: "rat \<Rightarrow> rat \<Rightarrow> gotime \<Rightarrow> string \<Rightarrow> ip_limiter \<Rightarrow> rat" where
  "client_worth r b t0 ip l =
     (case ip_clients l ip of
        None \<Rightarrow> b - earned r t0
      | Some c \<Rightarrow> f_value (client_tokens c) - earned r (client_refill c))"

definition client_due :: "gotime \<Rightarrow> string \<Rightarrow> ip_limiter \<Rightarrow> string \<times> gotime \<Rightarrow> bool" where
  "client_due t0 ip l req \<longleftrightarrow>
     fst req = ip \<longrightarrow> t0 \<le> snd req \<and> (case ip_clients l ip of None \<Rightarrow> True | Some c \<Rightarrow> client_refill c \<le> snd req)"

lemma earned_mono: "0 < r \<Longrightarrow> t \<le> u \<Longrightarrow> earned r t \<le> earned r u"
  unfolding earned_def by (intro divide_right_mono mult_left_mono) simp_all

interpretation client: token_account "own_step fused ip" "client_ok r b t0 ip" "client_due t0 ip" "client_worth r b t0 ip"
    "\<lambda>req. if fst req = ip then b / 2 ^ 52 else 0" for fused ip r b t0
proof
  fix l and req :: "string \<times> gotime"
  assume ok: "client_ok r b t0 ip l" and due: "client_due t0 ip l req"
  obtain ip' now where req: "req = (ip', now)" by (rule prod.exhaust)
  have step: "own_step fused ip l (i, t) = (fst (ip_allow fused l (i, t)) \<and> i = ip, snd (ip_allow fused l (i, t)))" for i t
    by (simp add: own_step_def split_beta Let_def)
  have "client_ok r b t0 ip (snd (own_step fused ip l req)) \<and>
    of_bool (fst (own_step fused ip l req)) + client_worth r b t0 ip (snd (own_step fused ip l req))
      \<le> client_worth r b t0 ip l + (if fst req = ip then b / 2 ^ 52 else 0)"
  proof (cases "ip' = ip")
    case False
    then show ?thesis using ok ip_allow_frame [where fused = fused and l = l and req = req]
      by (auto simp: step req client_ok_def client_worth_def client_view_bucket_def split: option.splits)
  next
    case own: True
    show ?thesis
    proof (cases "ip_clients l ip")
      case None
      have b: "f64_value (Finite b)" "1 \<le> b" "b \<le> 2 ^ 53" "0 < r" using ok by (simp_all add: client_ok_def)
      have "earned r t0 \<le> earned r now" using due own b by (intro earned_mono) (simp_all add: client_due_def req)
      then have "of_bool (fst (own_step fused ip l req)) + client_worth r b t0 ip (snd (own_step fused ip l req))
          \<le> client_worth r b t0 ip l + (if fst req = ip then b / 2 ^ 52 else 0)"
        using ok None own spend_exact [OF b(1-3)] b
        by (simp add: step req ip_allow_def client_worth_def client_ok_def f_value_def)
      moreover have "client_ok r b t0 ip (snd (own_step fused ip l req))"
        using ok None own spend_exact [OF b(1-3)] by (simp add: step req ip_allow_def client_ok_def client_view_bucket_def bucket_ok_def)
      ultimately show ?thesis by blast
    next
      case (Some c)
      have "bucket_ok r b (client_view_bucket l c)" using ok Some by (simp add: client_ok_def)
      moreover have "last_refill (client_view_bucket l c) \<le> now"
        using due own Some by (simp add: client_due_def req client_view_bucket_def)
      ultimately have st: "bucket_ok r b (client_view_bucket l c)" "last_refill (client_view_bucket l c) \<le> now" .
      have pays: "bucket_ok r b (snd (bucket_allow fused (client_view_bucket l c) now))"
        "of_bool (fst (bucket_allow fused (client_view_bucket l c) now))
          + f_value (bucket_tokens (snd (bucket_allow fused (client_view_bucket l c) now)))
          \<le> f_value (client_tokens c) + earned r now - earned r (client_refill c) + b / 2 ^ 52"
        using bucket_allow_pays(1,2) [where fused = fused, OF st] by (simp_all only: client_view_bucket_fields)
      let ?s = "snd (bucket_allow fused (client_view_bucket l c) now)"
      have "client_view_bucket (l\<lparr>ip_clients := m\<rparr>) (bucket_client ?s) = ?s" for m
        using pays(1) ok by (simp add: client_view_bucket_def bucket_client_def bucket_ok_def client_ok_def)
      then have "client_ok r b t0 ip (snd (own_step fused ip l req))"
        using pays(1) ok own Some by (simp add: step req ip_allow_known client_ok_def)
      moreover have "of_bool (fst (own_step fused ip l req)) + client_worth r b t0 ip (snd (own_step fused ip l req))
          \<le> client_worth r b t0 ip l + (if fst req = ip then b / 2 ^ 52 else 0)"
        using pays(2) own Some by (simp add: step req ip_allow_known client_worth_def bucket_client_def)
      ultimately show ?thesis by blast
    qed
  qed
  then show "client_ok r b t0 ip (snd (own_step fused ip l req))"
    "of_bool (fst (own_step fused ip l req)) + client_worth r b t0 ip (snd (own_step fused ip l req))
      \<le> client_worth r b t0 ip l + (if fst req = ip then b / 2 ^ 52 else 0)" by blast+
qed


lemma ip_allow_clients:
  "\<exists>t. ip_clients (snd (ip_allow fused l req)) = (ip_clients l)(fst req \<mapsto> \<lparr>client_tokens = t, client_refill = snd req\<rparr>)"
  by (auto simp: ip_allow_def Let_def split: prod.split option.split)

definition refills_upto :: "ip_limiter \<Rightarrow> gotime \<Rightarrow> bool" where
  "refills_upto l t \<longleftrightarrow> (\<forall>ip c. ip_clients l ip = Some c \<longrightarrow> client_refill c \<le> t)"

lemma refills_step:
  assumes "refills_upto l t" and "t \<le> snd req"
  shows "refills_upto (snd (own_step fused ip l req)) (snd req)"
proof -
  obtain tk where "ip_clients (snd (ip_allow fused l req)) = (ip_clients l)(fst req \<mapsto> \<lparr>client_tokens = tk, client_refill = snd req\<rparr>)"
    using ip_allow_clients by blast
  with assms show ?thesis by (force simp: refills_upto_def own_step_def split_beta Let_def)
qed

lemma client_run_times:
  "refills_upto l t \<Longrightarrow> t0 \<le> t \<Longrightarrow> sorted (t # map snd reqs) \<Longrightarrow>
    client.all_allowed fused ip t0 l reqs \<and>
    refills_upto (snd (run_account (own_step fused ip) l reqs)) (last (t # map snd reqs))"
proof (induction reqs arbitrary: l t)
  case (Cons req reqs)
  have "refills_upto (snd (own_step fused ip l req)) (snd req)" using Cons.prems by (intro refills_step [of l t]) auto
  moreover have "client_due t0 ip l req"
    using Cons.prems by (fastforce simp: client_due_def refills_upto_def split: option.split)
  ultimately show ?case using Cons.IH Cons.prems by (auto simp: split_beta Let_def)
qed simp

lemma sum_list_own:
  "sum_list (map (\<lambda>q. if P q then x else 0) qs) = of_nat (length (filter P qs)) * (x :: rat)"
  by (induction qs) (simp_all add: algebra_simps)

text \<open>Whatever other clients do, a client gets no more than the burst and what the rate earns in the time.\<close>

theorem client_rate_bounded:
  assumes "0 < r" and "1 \<le> b" and "b \<le> 2 ^ 53" and "f64_value (Finite b)" and "sorted (t0 # map snd reqs)"
  shows "of_nat (fst (run_account (own_step fused ip) (new_ip_limiter (Finite r) (Finite b)) reqs)) \<le>
    b + (1 + 1 / 2 ^ 49) * r * of_int (last (t0 # map snd reqs) - t0) / 1000000000
      + of_nat (length (filter (\<lambda>q. fst q = ip) reqs)) * (b / 2 ^ 52)"
proof -
  let ?l = "new_ip_limiter (Finite r) (Finite b)"
  define l1 where "l1 = snd (run_account (own_step fused ip) ?l reqs)"
  define m where "m = last (t0 # map snd reqs)"
  have ok: "client_ok r b t0 ip ?l" using assms by (simp add: client_ok_def new_ip_limiter_def)
  have times: "client.all_allowed fused ip t0 ?l reqs" "refills_upto l1 m"
    using client_run_times [of ?l t0 t0 reqs fused ip] assms(5) by (simp_all add: l1_def m_def refills_upto_def new_ip_limiter_def)
  have "client_ok r b t0 ip l1" unfolding l1_def by (rule client.run_good [OF ok times(1)])
  moreover have "t0 \<le> m" using assms(5) by (cases reqs) (auto simp: m_def last_map last_in_set)
  ultimately have "- earned r m \<le> client_worth r b t0 ip l1"
    using earned_mono [OF assms(1), of _ m] times(2) assms(2) bucket_ok_tokens
    by (fastforce simp: client_worth_def client_ok_def refills_upto_def split: option.splits)
  moreover have "client_worth r b t0 ip ?l = b - earned r t0" by (simp add: client_worth_def new_ip_limiter_def)
  moreover note client.run_bound [OF ok times(1), unfolded sum_list_own, folded l1_def]
  ultimately show ?thesis using earned_diff [of r m t0] unfolding m_def [symmetric] by linarith
qed

theorem client_rate_bounded_witness:
  "of_nat (fst (run_account (own_step False ''a'') (new_ip_limiter (Finite 10) (Finite 5)) [(''a'', 0), (''b'', 0), (''a'', 1)])) \<le>
    5 + (1 + 1 / 2 ^ 49) * 10 * of_int (1 - 0) / 1000000000 + of_nat 2 * (5 / 2 ^ 52 :: rat)"
  using client_rate_bounded [of 10 5 0 "[(''a'', 0), (''b'', 0), (''a'', 1)]" False "''a''"] f64_value_int [of 5] by simp

text \<open>A refused request never reaches the handler and is answered with 429 and the time to wait.\<close>

lemma rate_limited_request:
  assumes "\<not> fst (ip_allow fused l (extract_client_ip split_host r, now))"
  shows "response_status (fst (fst (rate_limit_middleware fused enc split_host next l now r))) = 429"
    and "response_header (fst (fst (rate_limit_middleware fused enc split_host next l now r))) ''Retry-After'' = Some ''1''"
  using assms
  by (simp_all add: rate_limit_middleware_def split_beta Let_def response_status_def response_header_def new_response_def send_status_def
      write_bytes_def final_status_def body_allowed_def)

text \<open>Buckets are never dropped: after any requests there is one for each key ever seen, and the key is the client's choice.\<close>

lemma clients_never_forgotten:
  "dom (ip_clients (snd (run_account (ip_allow fused) l reqs))) = dom (ip_clients l) \<union> fst ` set reqs"
proof (induction reqs arbitrary: l)
  case (Cons req reqs)
  obtain t where "ip_clients (snd (ip_allow fused l req)) = (ip_clients l)(fst req \<mapsto> \<lparr>client_tokens = t, client_refill = snd req\<rparr>)"
    using ip_allow_clients by blast
  with Cons.IH show ?case by (auto simp: split_beta Let_def)
qed simp



section \<open>The retry budget\<close>

record retry_budget =
  budget_ratio :: f64
  budget_tokens :: f64
  budget_max :: f64
  min_retries_sec :: f64
  budget_updated :: gotime

definition new_retry_budget :: "f64 \<Rightarrow> f64 \<Rightarrow> f64 \<Rightarrow> gotime \<Rightarrow> retry_budget" where
  "new_retry_budget ratio0 maxTokens0 minRetries0 now =
     (let ratio = (if f_le ratio0 (Finite 0) \<or> f_lt (Finite 1) ratio0 then round64 (1 / 10) else ratio0);
          maxTokens = (if f_le maxTokens0 (Finite 0) then Finite 100 else maxTokens0);
          minRetries = (if f_le minRetries0 (Finite 0) then Finite 10 else minRetries0)
      in \<lparr>budget_ratio = ratio, budget_tokens = maxTokens, budget_max = maxTokens, min_retries_sec = minRetries, budget_updated = now\<rparr>)"

definition replenish_locked :: "bool \<Rightarrow> retry_budget \<Rightarrow> gotime \<Rightarrow> retry_budget" where
  "replenish_locked fused b now =
     b\<lparr>budget_updated := now,
       budget_tokens := refill_tokens fused (budget_tokens b) (min_retries_sec b) (budget_max b) (time_sub now (budget_updated b))\<rparr>"

definition budget_record_request :: "bool \<Rightarrow> retry_budget \<Rightarrow> gotime \<Rightarrow> retry_budget" where
  "budget_record_request fused b now =
     (let b1 = replenish_locked fused b now; t = f_add (budget_tokens b1) (budget_ratio b1)
      in b1\<lparr>budget_tokens := (if f_lt (budget_max b1) t then budget_max b1 else t)\<rparr>)"

definition try_acquire_retry :: "bool \<Rightarrow> retry_budget \<Rightarrow> gotime \<Rightarrow> bool \<times> retry_budget" where
  "try_acquire_retry fused b now =
     (let b1 = replenish_locked fused b now
      in if f_le (Finite 1) (budget_tokens b1) then (True, b1\<lparr>budget_tokens := f_sub (budget_tokens b1) (Finite 1)\<rparr>)
         else (False, b1))"

datatype budget_event = BudgetRequest gotime | BudgetRetry gotime

fun budget_step :: "bool \<Rightarrow> retry_budget \<Rightarrow> budget_event \<Rightarrow> bool \<times> retry_budget" where
  "budget_step fused b (BudgetRequest now) = (False, budget_record_request fused b now)"
| "budget_step fused b (BudgetRetry now) = try_acquire_retry fused b now"

fun budget_time :: "budget_event \<Rightarrow> gotime" where
  "budget_time (BudgetRequest now) = now"
| "budget_time (BudgetRetry now) = now"

fun is_request :: "budget_event \<Rightarrow> bool" where
  "is_request (BudgetRequest now) = True"
| "is_request (BudgetRetry now) = False"

definition budget_ok :: "rat \<Rightarrow> rat \<Rightarrow> rat \<Rightarrow> retry_budget \<Rightarrow> bool" where
  "budget_ok q r b s \<longleftrightarrow>
     budget_ratio s = Finite q \<and> 0 < q \<and> q \<le> 1 \<and>
     bucket_ok r b \<lparr>bucket_rate = min_retries_sec s, bucket_burst = budget_max s, bucket_tokens = budget_tokens s,
                    last_refill = budget_updated s\<rparr>"

text \<open>A retry is an attempt on the bucket of the limiter.\<close>

definition budget_bucket :: "retry_budget \<Rightarrow> token_bucket" where
  "budget_bucket s =
     \<lparr>bucket_rate = min_retries_sec s, bucket_burst = budget_max s, bucket_tokens = budget_tokens s, last_refill = budget_updated s\<rparr>"

lemma try_acquire_bucket:
  "fst (try_acquire_retry fused s now) = fst (bucket_allow fused (budget_bucket s) now)"
  "budget_bucket (snd (try_acquire_retry fused s now)) = snd (bucket_allow fused (budget_bucket s) now)"
  "budget_ratio (snd (try_acquire_retry fused s now)) = budget_ratio s"
  by (simp_all add: try_acquire_retry_def bucket_allow_def replenish_locked_def refill_locked_def budget_bucket_def Let_def)

lemma budget_ok_bucket:
  "budget_ok q r b s \<longleftrightarrow> budget_ratio s = Finite q \<and> 0 < q \<and> q \<le> 1 \<and> bucket_ok r b (budget_bucket s)"
  by (simp add: budget_ok_def budget_bucket_def)

lemma deposit_bound:
  assumes "f64_value (Finite c)" and "0 \<le> c" and "c \<le> b" and "1 \<le> b" and "f64_value (Finite b)" and "0 < q" and "q \<le> 1"
  obtains t where "(if f_lt (Finite b) (f_add (Finite c) (Finite q)) then Finite b else f_add (Finite c) (Finite q)) = Finite t"
    and "f64_value (Finite t)" and "0 \<le> t" and "t \<le> b" and "t \<le> c + q + b / 2 ^ 51"
proof -
  let ?t = "min b (fl (c + q))"
  have eq: "(if f_lt (Finite b) (f_add (Finite c) (Finite q)) then Finite b else f_add (Finite c) (Finite q)) = Finite ?t"
    unfolding f_add.simps by (rule round64_capped [OF assms(5)]) (use assms in simp_all)
  have low: "c \<le> fl (c + q)" using fl_mono [of c "c + q"] assms by (simp add: f64_value_Finite)
  have up: "fl (c + q) \<le> c + q + b / 2 ^ 51"
    using fl_upper [of "c + q"] tiny assms by (simp add: field_simps)
  have "f64_value (Finite ?t)"
    using assms low by (auto simp: min_def f64_value_Finite abs_less_iff)
  with low up assms show ?thesis by (intro that [OF eq]) (auto simp: min_def)
qed

lemma record_request_pays:
  assumes ok: "budget_ok q r b s" and now: "budget_updated s \<le> now"
  shows "budget_ok q r b (budget_record_request fused s now)"
    and "f_value (budget_tokens (budget_record_request fused s now))
      \<le> f_value (budget_tokens s) + earned r now - earned r (budget_updated s) + (q + b / 2 ^ 50)"
    and "budget_updated (budget_record_request fused s now) = now"
proof -
  define d where "d = time_sub now (budget_updated s)"
  have d: "0 \<le> d" "d < 9223372036854775808" "d \<le> now - budget_updated s" using time_sub_forward [OF now] by (simp_all add: d_def)
  obtain t where t: "budget_tokens s = Finite t" "f64_value (Finite t)" "0 \<le> t" "t \<le> b"
    and rb: "min_retries_sec s = Finite r" "budget_max s = Finite b" "0 < r" "1 \<le> b" "b \<le> 2 ^ 53" "f64_value (Finite b)"
    and q: "budget_ratio s = Finite q" "0 < q" "q \<le> 1"
    using ok by (auto simp: budget_ok_def bucket_ok_def)
  obtain c where c: "refill_tokens fused (Finite t) (Finite r) (Finite b) d = Finite c" "f64_value (Finite c)" "t \<le> c" "c \<le> b"
    and up: "c \<le> t + (1 + 1 / 2 ^ 49) * r * of_int d / 1000000000 + b / 2 ^ 52"
    using refill_bounds [where fused = fused, OF t(2-4) rb(3,6,4) d(1,2)] .
  have "0 \<le> c" using c t by linarith
  then obtain u where u: "(if f_lt (Finite b) (f_add (Finite c) (Finite q)) then Finite b else f_add (Finite c) (Finite q)) = Finite u"
    "f64_value (Finite u)" "0 \<le> u" "u \<le> b" "u \<le> c + q + b / 2 ^ 51"
    using deposit_bound [OF c(2) _ c(4) rb(4,6) q(2,3)] by blast
  have req: "budget_record_request fused s now = s\<lparr>budget_updated := now, budget_tokens := Finite u\<rparr>"
    using u(1) c(1) t rb q by (auto simp: budget_record_request_def replenish_locked_def Let_def d_def split: if_splits)
  show "budget_ok q r b (budget_record_request fused s now)" using u rb q by (simp add: req budget_ok_def bucket_ok_def)
  show "budget_updated (budget_record_request fused s now) = now" by (simp add: req)
  have "(1 + 1 / 2 ^ 49) * r * of_int d \<le> (1 + 1 / 2 ^ 49) * r * of_int (now - budget_updated s)"
    using d rb by (intro mult_left_mono) (simp_all only: of_int_le_iff, simp)
  then have "(1 + 1 / 2 ^ 49) * r * of_int d / 1000000000 \<le> earned r now - earned r (budget_updated s)"
    unfolding earned_diff by (rule divide_right_mono) simp
  moreover have "b / 2 ^ 52 + b / 2 ^ 51 \<le> b / (2 :: rat) ^ 50" using rb by (simp add: field_simps)
  ultimately show "f_value (budget_tokens (budget_record_request fused s now))
      \<le> f_value (budget_tokens s) + earned r now - earned r (budget_updated s) + (q + b / 2 ^ 50)"
    using up u(5) unfolding req t f_value_def by simp
qed

interpretation budget: token_account "budget_step fused" "budget_ok q r b" "\<lambda>s e. budget_updated s \<le> budget_time e"
    "\<lambda>s. f_value (budget_tokens s) - earned r (budget_updated s)" "\<lambda>e. (if is_request e then q else 0) + b / 2 ^ 50" for fused q r b
proof
  fix s e
  assume ok: "budget_ok q r b s" and time: "budget_updated s \<le> budget_time e"
  have "budget_ok q r b (snd (budget_step fused s e)) \<and>
    of_bool (fst (budget_step fused s e)) + (f_value (budget_tokens (snd (budget_step fused s e)))
      - earned r (budget_updated (snd (budget_step fused s e))))
      \<le> f_value (budget_tokens s) - earned r (budget_updated s) + ((if is_request e then q else 0) + b / 2 ^ 50)"
  proof (cases e)
    case (BudgetRequest now)
    with record_request_pays [where fused = fused, OF ok, of now] time show ?thesis by simp
  next
    case (BudgetRetry now)
    let ?s = "snd (try_acquire_retry fused s now)"
    have b: "1 \<le> b" "bucket_ok r b (budget_bucket s)" using ok by (simp_all add: budget_ok_bucket bucket_ok_def)
    have fields: "bucket_tokens (budget_bucket x) = budget_tokens x" "last_refill (budget_bucket x) = budget_updated x" for x
      by (simp_all add: budget_bucket_def)
    have "last_refill (budget_bucket s) \<le> now" using time BudgetRetry by (simp add: fields)
    note pays = bucket_allow_pays(1,2) [where fused = fused, OF b(2) this, folded try_acquire_bucket, unfolded fields]
    have upd: "budget_updated ?s = now" using bucket_allow_time [of fused "budget_bucket s" now] unfolding try_acquire_bucket(2) [symmetric] fields .
    have "b / 2 ^ 52 \<le> b / 2 ^ 50" using b by (intro divide_left_mono) simp_all
    then have "of_bool (fst (try_acquire_retry fused s now)) + (f_value (budget_tokens ?s) - earned r (budget_updated ?s))
        \<le> f_value (budget_tokens s) - earned r (budget_updated s) + b / 2 ^ 50"
      using pays(2) unfolding upd by linarith
    moreover have "budget_ok q r b ?s" using pays(1) ok by (simp add: budget_ok_bucket try_acquire_bucket(3))
    ultimately show ?thesis using BudgetRetry by simp
  qed
  then show "budget_ok q r b (snd (budget_step fused s e))"
    "of_bool (fst (budget_step fused s e)) + (f_value (budget_tokens (snd (budget_step fused s e)))
      - earned r (budget_updated (snd (budget_step fused s e))))
      \<le> f_value (budget_tokens s) - earned r (budget_updated s) + ((if is_request e then q else 0) + b / 2 ^ 50)" by blast+
qed


lemma budget_step_time [simp]: "budget_updated (snd (budget_step fused s e)) = budget_time e"
  by (cases e) (simp_all add: budget_record_request_def try_acquire_retry_def replenish_locked_def Let_def)

lemma budget_sorted_allowed: "sorted (budget_updated s # map budget_time es) \<Longrightarrow> budget.all_allowed fused s es"
  by (induction es arbitrary: s) auto

lemma budget_run_time:
  "budget_updated (snd (run_account (budget_step fused) s es)) = last (budget_updated s # map budget_time es)"
  by (induction es arbitrary: s) (auto simp: Let_def split_beta)

lemma budget_gifts:
  "sum_list (map (\<lambda>e. (if is_request e then q else 0) + x) es) =
    q * of_nat (length (filter is_request es)) + of_nat (length es) * (x :: rat)"
  by (induction es) (simp_all add: algebra_simps)

text \<open>C34: In any order of requests and retries, the retries let through are at most the capacity, the ratio of the requests made, and what
  the baseline earns in the time, up to the rounding.\<close>

theorem retry_budget_bounded:
  assumes "0 < q" and "q \<le> 1" and "0 < r" and "1 \<le> b" and "b \<le> 2 ^ 53" and "f64_value (Finite b)"
    and "sorted (t0 # map budget_time es)"
  shows "of_nat (fst (run_account (budget_step fused) (new_retry_budget (Finite q) (Finite b) (Finite r) t0) es)) \<le>
    b + q * of_nat (length (filter is_request es))
      + (1 + 1 / 2 ^ 49) * r * of_int (last (t0 # map budget_time es) - t0) / 1000000000 + of_nat (length es) * (b / 2 ^ 50)"
proof -
  let ?s = "new_retry_budget (Finite q) (Finite b) (Finite r) t0"
  define s1 where "s1 = snd (run_account (budget_step fused) ?s es)"
  have fields: "budget_tokens ?s = Finite b" "budget_updated ?s = t0"
    using assms by (simp_all add: new_retry_budget_def f_le_def Let_def)
  have ok: "budget_ok q r b ?s" using assms by (simp add: budget_ok_def bucket_ok_def new_retry_budget_def f_le_def Let_def)
  have all: "budget.all_allowed fused ?s es" using assms(7) by (intro budget_sorted_allowed) (simp only: fields)
  have end_: "budget_updated s1 = last (t0 # map budget_time es)" by (simp only: s1_def budget_run_time fields)
  have "budget_ok q r b s1" unfolding s1_def by (rule budget.run_good [OF ok all])
  then have "0 \<le> f_value (budget_tokens s1)" by (auto simp: budget_ok_def bucket_ok_def f_value_def)
  moreover have "f_value (budget_tokens ?s) = b" by (simp add: fields f_value_def)
  moreover note budget.run_bound [OF ok all, unfolded budget_gifts, folded s1_def]
  ultimately show ?thesis using earned_diff [of r "budget_updated s1" t0] unfolding fields end_ by linarith
qed

theorem retry_budget_bounded_witness:
  "of_nat (fst (run_account (budget_step False) (new_retry_budget (Finite (1 / 2)) (Finite 1) (Finite 1) 0)
      [BudgetRetry 0, BudgetRequest 1, BudgetRetry 2])) \<le>
    1 + (1 / 2) * of_nat 1 + (1 + 1 / 2 ^ 49) * 1 * of_int (2 - 0) / 1000000000 + of_nat 3 * (1 / 2 ^ 50 :: rat)"
  using retry_budget_bounded [of "1 / 2" 1 1 0 "[BudgetRetry 0, BudgetRequest 1, BudgetRetry 2]" False] by simp

end
