(* ===== verification/Unit_Of_Work.thy ===== *)
theory Unit_Of_Work
  imports Go_Prelude
begin

text \<open>
  \<open>patterns/04_persistence/unit_of_work.go\<close>. The function a client passes to \<open>ExecuteTx\<close>
  is a \<open>tx_prog\<close>: a tree of the calls it makes on its \<open>TxScope\<close>, each continued with
  the answer of the call, ending in the error it returns (or nil) or in a panic. A session stages its
  reads and writes; wallets are copied at every boundary, so they are plain values.
\<close>

record wallet =
  wallet_id :: string
  wallet_balance :: int

record ledger_entry =
  entry_id :: string
  entry_wallet :: string
  entry_amount :: int
  entry_reference :: string

datatype uow_error = WalletNotFound | InvalidWallet | InvalidLedgerEntry | TxFnError string

record unit_of_work =
  wallets :: "string \<rightharpoonup> wallet"
  ledgers :: "ledger_entry list"

record tx_session =
  staged_wallets :: "string \<rightharpoonup> wallet"
  staged_ledgers :: "ledger_entry list"

definition new_unit_of_work :: unit_of_work where
  "new_unit_of_work = \<lparr>wallets = Map.empty, ledgers = []\<rparr>"

definition copy_wallet :: "wallet \<Rightarrow> wallet" where
  "copy_wallet w = \<lparr>wallet_id = wallet_id w, wallet_balance = wallet_balance w\<rparr>"

lemma copy_wallet_id [simp]: "copy_wallet w = w"
  by (simp add: copy_wallet_def)

definition seed_wallet :: "unit_of_work \<Rightarrow> wallet \<Rightarrow> unit_of_work" where
  "seed_wallet u w = u\<lparr>wallets := (wallets u)(wallet_id w \<mapsto> copy_wallet w)\<rparr>"

definition get_balance :: "unit_of_work \<Rightarrow> string \<Rightarrow> uow_error + int" where
  "get_balance u i = (case wallets u i of None \<Rightarrow> Inl WalletNotFound | Some w \<Rightarrow> Inr (wallet_balance w))"

definition ledger_count :: "unit_of_work \<Rightarrow> nat" where
  "ledger_count u = length (ledgers u)"

definition new_session :: tx_session where
  "new_session = \<lparr>staged_wallets = Map.empty, staged_ledgers = []\<rparr>"

definition tx_get_wallet ::
  "unit_of_work \<Rightarrow> tx_session \<Rightarrow> string \<Rightarrow> (uow_error + wallet) \<times> tx_session" where
  "tx_get_wallet u s i =
     (case staged_wallets s i of
        Some w \<Rightarrow> (Inr (copy_wallet w), s)
      | None \<Rightarrow>
          (case wallets u i of
             None \<Rightarrow> (Inl WalletNotFound, s)
           | Some w \<Rightarrow>
               (let staged = copy_wallet w
                in (Inr (copy_wallet staged),
                    s\<lparr>staged_wallets := (staged_wallets s)(i \<mapsto> staged)\<rparr>))))"

definition tx_update_wallet :: "tx_session \<Rightarrow> wallet option \<Rightarrow> uow_error option \<times> tx_session" where
  "tx_update_wallet s w =
     (case w of
        None \<Rightarrow> (Some InvalidWallet, s)
      | Some v \<Rightarrow>
          if wallet_id v = [] then (Some InvalidWallet, s)
          else (None, s\<lparr>staged_wallets := (staged_wallets s)(wallet_id v \<mapsto> copy_wallet v)\<rparr>))"

definition tx_create_ledger :: "tx_session \<Rightarrow> ledger_entry option \<Rightarrow> uow_error option \<times> tx_session" where
  "tx_create_ledger s e =
     (case e of
        None \<Rightarrow> (Some InvalidLedgerEntry, s)
      | Some x \<Rightarrow> (None, s\<lparr>staged_ledgers := staged_ledgers s @ [x]\<rparr>))"

datatype tx_prog =
    TxReturn "uow_error option"
  | TxPanic string
  | TxGetWallet string "uow_error + wallet \<Rightarrow> tx_prog"
  | TxUpdateWallet "wallet option" "uow_error option \<Rightarrow> tx_prog"
  | TxCreateLedger "ledger_entry option" "uow_error option \<Rightarrow> tx_prog"

datatype fn_outcome = FnReturned "uow_error option" | FnPanicked string

primrec run_fn :: "tx_prog \<Rightarrow> unit_of_work \<Rightarrow> tx_session \<Rightarrow> fn_outcome \<times> tx_session" where
  "run_fn (TxReturn e) u s = (FnReturned e, s)"
| "run_fn (TxPanic r) u s = (FnPanicked r, s)"
| "run_fn (TxGetWallet i k) u s = (let (a, s1) = tx_get_wallet u s i in run_fn (k a) u s1)"
| "run_fn (TxUpdateWallet w k) u s = (let (a, s1) = tx_update_wallet s w in run_fn (k a) u s1)"
| "run_fn (TxCreateLedger e k) u s = (let (a, s1) = tx_create_ledger s e in run_fn (k a) u s1)"

definition commit :: "unit_of_work \<Rightarrow> tx_session \<Rightarrow> unit_of_work" where
  "commit u s = \<lparr>wallets = wallets u ++ staged_wallets s, ledgers = ledgers u @ staged_ledgers s\<rparr>"

datatype tx_error = TxRolledBack uow_error | TxAborted string

definition execute_tx :: "unit_of_work \<Rightarrow> tx_prog \<Rightarrow> tx_error option \<times> unit_of_work" where
  "execute_tx u fn =
     (let (out, s) = run_fn fn u new_session
      in case out of
           FnPanicked r \<Rightarrow> (Some (TxAborted r), u)
         | FnReturned (Some e) \<Rightarrow> (Some (TxRolledBack e), u)
         | FnReturned None \<Rightarrow> (None, commit u s))"


section \<open>Staging is invisible\<close>

text \<open>The specification runs the client's calls directly on the database, and keeps the result only
  when the client returned no error.\<close>

primrec direct_run :: "tx_prog \<Rightarrow> unit_of_work \<Rightarrow> fn_outcome \<times> unit_of_work" where
  "direct_run (TxReturn e) u = (FnReturned e, u)"
| "direct_run (TxPanic r) u = (FnPanicked r, u)"
| "direct_run (TxGetWallet i k) u =
     direct_run (k (case wallets u i of None \<Rightarrow> Inl WalletNotFound | Some w \<Rightarrow> Inr w)) u"
| "direct_run (TxUpdateWallet w k) u =
     (case w of
        None \<Rightarrow> direct_run (k (Some InvalidWallet)) u
      | Some v \<Rightarrow> if wallet_id v = [] then direct_run (k (Some InvalidWallet)) u
                  else direct_run (k None) (u\<lparr>wallets := (wallets u)(wallet_id v \<mapsto> v)\<rparr>))"
| "direct_run (TxCreateLedger e k) u =
     (case e of
        None \<Rightarrow> direct_run (k (Some InvalidLedgerEntry)) u
      | Some x \<Rightarrow> direct_run (k None) (u\<lparr>ledgers := ledgers u @ [x]\<rparr>))"

lemma tx_get_wallet_view:
  "fst (tx_get_wallet u s i) = (case wallets (commit u s) i of None \<Rightarrow> Inl WalletNotFound | Some w \<Rightarrow> Inr w)"
  "commit u (snd (tx_get_wallet u s i)) = commit u s"
  by (auto simp: tx_get_wallet_def commit_def Let_def map_add_def fun_eq_iff split: option.split)

lemma commit_stage:
  "(commit u s)\<lparr>wallets := (wallets (commit u s))(i \<mapsto> w)\<rparr>
     = commit u (s\<lparr>staged_wallets := (staged_wallets s)(i \<mapsto> w)\<rparr>)"
  "(commit u s)\<lparr>ledgers := ledgers (commit u s) @ [e]\<rparr>
     = commit u (s\<lparr>staged_ledgers := staged_ledgers s @ [e]\<rparr>)"
  by (simp_all add: commit_def)

lemma run_fn_direct:
  "direct_run fn (commit u s) = (fst (run_fn fn u s), commit u (snd (run_fn fn u s)))"
proof (induction fn arbitrary: s)
  case (TxGetWallet i k)
  obtain a s1 where g: "tx_get_wallet u s i = (a, s1)" by (cases "tx_get_wallet u s i")
  have a: "a = (case wallets (commit u s) i of None \<Rightarrow> Inl WalletNotFound | Some w \<Rightarrow> Inr w)"
    and c: "commit u s1 = commit u s"
    using tx_get_wallet_view [of u s i] by (simp_all add: g)
  show ?case
    using TxGetWallet.IH [OF rangeI, of a s1] by (simp add: g c flip: a)
next
  case (TxUpdateWallet w k)
  show ?case
    using TxUpdateWallet.IH [OF rangeI]
    by (simp add: tx_update_wallet_def commit_stage split: option.split)
next
  case (TxCreateLedger e k)
  show ?case
    using TxCreateLedger.IH [OF rangeI]
    by (simp add: tx_create_ledger_def commit_stage split: option.split)
qed simp_all

lemma commit_new_session [simp]: "commit u new_session = u"
  by (simp add: commit_def new_session_def)

text \<open>C1: a transaction is atomic and isolated from its own staging. The client sees its own earlier
  writes, a successful transaction leaves exactly the state in which its calls had run directly on
  the database, and one that returns an error or panics leaves the database untouched and reports it.\<close>

theorem execute_tx_atomic:
  "execute_tx u fn =
     (case direct_run fn u of
        (FnReturned None, u') \<Rightarrow> (None, u')
      | (FnReturned (Some e), u') \<Rightarrow> (Some (TxRolledBack e), u)
      | (FnPanicked r, u') \<Rightarrow> (Some (TxAborted r), u))"
  using run_fn_direct [of fn u new_session]
  by (simp add: execute_tx_def split: prod.split fn_outcome.split option.split)


section \<open>Concurrent transactions\<close>

text \<open>Transactions of several goroutines: each step lets one of them make its next call, or commit.
  A session reads the database as it is at the time of the read; only the commit takes the lock.\<close>

type_synonym running = "(tx_prog \<times> tx_session) list"

fun tx_step :: "unit_of_work \<Rightarrow> tx_prog \<times> tx_session \<Rightarrow> unit_of_work \<times> (tx_prog \<times> tx_session) option" where
  "tx_step u (TxReturn None, s) = (commit u s, None)"
| "tx_step u (TxReturn (Some e), s) = (u, None)"
| "tx_step u (TxPanic r, s) = (u, None)"
| "tx_step u (TxGetWallet i k, s) = (let (a, s1) = tx_get_wallet u s i in (u, Some (k a, s1)))"
| "tx_step u (TxUpdateWallet w k, s) = (let (a, s1) = tx_update_wallet s w in (u, Some (k a, s1)))"
| "tx_step u (TxCreateLedger e k, s) = (let (a, s1) = tx_create_ledger s e in (u, Some (k a, s1)))"

fun run_interleaved ::
  "nat list \<Rightarrow> unit_of_work \<Rightarrow> (nat \<rightharpoonup> tx_prog \<times> tx_session) \<Rightarrow> unit_of_work" where
  "run_interleaved [] u ts = u"
| "run_interleaved (n # ns) u ts =
     (case ts n of
        None \<Rightarrow> run_interleaved ns u ts
      | Some t \<Rightarrow> let (u1, t1) = tx_step u t in run_interleaved ns u1 (ts(n := t1)))"

lemma tx_step_ledgers: "\<exists>es. ledgers (fst (tx_step u t)) = ledgers u @ es"
  by (cases "(u, t)" rule: tx_step.cases) (auto simp: commit_def split: prod.splits)

text \<open>the audit ledger only grows. Whatever transactions run concurrently and however their calls
  interleave, no committed ledger entry is ever dropped, changed or reordered.\<close>

theorem audit_ledger_append_only:
  "\<exists>es. ledgers (run_interleaved sched u ts) = ledgers u @ es"
proof (induction sched arbitrary: u ts)
  case Nil
  then show ?case by simp
next
  case (Cons n ns)
  show ?case
  proof (cases "ts n")
    case None
    with Cons show ?thesis by simp
  next
    case (Some t)
    obtain u1 t1 where st: "tx_step u t = (u1, t1)" by (cases "tx_step u t")
    obtain es where "ledgers u1 = ledgers u @ es"
      using tx_step_ledgers [of u t] st by auto
    moreover obtain es' where "ledgers (run_interleaved ns u1 (ts(n := t1))) = ledgers u1 @ es'"
      using Cons by blast
    ultimately show ?thesis by (simp add: Some st)
  qed
qed

text \<open>The wallets have no such protection: a read stages the wallet, and the commit writes every staged
  wallet back. Two clients that each deposit into \<open>a\<close>, and a third that only reads it.\<close>

definition deposit :: "string \<Rightarrow> int \<Rightarrow> tx_prog" where
  "deposit i amount = TxGetWallet i (\<lambda>a. case a of
     Inl e \<Rightarrow> TxReturn (Some e)
   | Inr w \<Rightarrow> TxUpdateWallet (Some (w\<lparr>wallet_balance := wallet_balance w + amount\<rparr>)) (\<lambda>e. TxReturn e))"

definition read_only :: "string \<Rightarrow> tx_prog" where
  "read_only i = TxGetWallet i (\<lambda>a. TxReturn None)"

definition wallet_a :: unit_of_work where
  "wallet_a = seed_wallet new_unit_of_work \<lparr>wallet_id = ''a'', wallet_balance = 10\<rparr>"

text \<open>a read-only transaction can erase a concurrent deposit. With the wallet at 10, a reader that
  reads before a deposit of 5 commits and returns after it writes the stale 10 back, although both
  transactions report success; run one after the other, the same two leave 15.\<close>

theorem read_only_tx_erases_deposit:
  "get_balance (run_interleaved [0, 1, 1, 1, 0] wallet_a
     [0 \<mapsto> (read_only ''a'', new_session), 1 \<mapsto> (deposit ''a'' 5, new_session)]) ''a'' = Inr 10
   \<and> get_balance (run_interleaved [1, 1, 1, 0, 0] wallet_a
     [0 \<mapsto> (read_only ''a'', new_session), 1 \<mapsto> (deposit ''a'' 5, new_session)]) ''a'' = Inr 15"
  by (simp add: wallet_a_def seed_wallet_def new_unit_of_work_def new_session_def read_only_def deposit_def
      tx_get_wallet_def tx_update_wallet_def commit_def get_balance_def Let_def map_add_def)

end
