(* ===== verification/Weighted_Semaphore.thy ===== *)
theory Weighted_Semaphore
  imports Go_Prelude
begin

text \<open>
  \<open>patterns/09_concurrency/semaphore.go\<close>: the weighted semaphore. A waiter's channel is
  identified with its goroutine, which waits on one channel at a time. The steps of a goroutine are the
  critical section of \<open>Acquire\<close>, the two cases of its \<open>select\<close> (both are possible once the
  waiter has been granted and the context is done), \<open>TryAcquire\<close> and \<open>Release\<close>.
\<close>

datatype sem_pc = SemOut | SemWaiting int bool | SemHolding int

record semaphore =
  sem_capacity :: int
  sem_current :: int
  sem_waiters :: "nat list"
  sem_pc :: "nat \<Rightarrow> sem_pc"

definition new_semaphore :: "int \<Rightarrow> semaphore" where
  "new_semaphore cap = \<lparr>sem_capacity = (if cap \<le> 0 then 1 else cap), sem_current = 0, sem_waiters = [],
     sem_pc = (\<lambda>t. SemOut)\<rparr>"

definition sem_goto :: "semaphore \<Rightarrow> nat \<Rightarrow> sem_pc \<Rightarrow> semaphore" where
  "sem_goto s t c = s\<lparr>sem_pc := (sem_pc s)(t := c)\<rparr>"

text \<open>Closing a waiter's channel.\<close>

definition grant :: "semaphore \<Rightarrow> nat \<Rightarrow> semaphore" where
  "grant s t = (case sem_pc s t of SemWaiting n g \<Rightarrow> sem_goto s t (SemWaiting n True) | _ \<Rightarrow> s)"

lemma sem_waiters_grant [simp]: "sem_waiters (grant s t) = sem_waiters s"
  by (simp add: grant_def sem_goto_def split: sem_pc.split)

function grant_loop :: "semaphore \<Rightarrow> semaphore" where
  "grant_loop s =
     (if sem_waiters s \<noteq> [] \<and> i64 (sem_capacity s - sem_current s) > 0 then
        grant_loop (grant (s\<lparr>sem_waiters := tl (sem_waiters s),
          sem_current := i64 (sem_current s + 1)\<rparr>) (hd (sem_waiters s)))
      else s)"
  by pat_completeness auto
termination
  by (relation "measure (\<lambda>s. length (sem_waiters s))") simp_all

declare grant_loop.simps [simp del]

definition release_sem :: "semaphore \<Rightarrow> int \<Rightarrow> semaphore" where
  "release_sem s n =
     (let c = i64 (sem_current s - n)
      in grant_loop (s\<lparr>sem_current := (if c < 0 then 0 else c)\<rparr>))"

definition try_acquire :: "semaphore \<Rightarrow> int \<Rightarrow> bool \<times> semaphore" where
  "try_acquire s n =
     (if n \<le> 0 \<or> n > sem_capacity s then (False, s)
      else if i64 (sem_capacity s - sem_current s) \<ge> n then (True, s\<lparr>sem_current := i64 (sem_current s + n)\<rparr>)
      else (False, s))"

definition current_used :: "semaphore \<Rightarrow> int" where
  "current_used s = sem_current s"

datatype sem_event = Acquire nat int | WakeGranted nat | CancelWait nat | TryAcquire nat int | ReleaseHeld nat

fun sem_step :: "semaphore \<Rightarrow> sem_event \<Rightarrow> semaphore option" where
  "sem_step s (Acquire t n) =
     (if sem_pc s t \<noteq> SemOut then None
      else if n \<le> 0 \<or> n > sem_capacity s then Some s
      else if i64 (sem_capacity s - sem_current s) \<ge> n
      then Some (sem_goto (s\<lparr>sem_current := i64 (sem_current s + n)\<rparr>) t (SemHolding n))
      else Some (sem_goto (s\<lparr>sem_waiters := sem_waiters s @ [t]\<rparr>) t (SemWaiting n False)))"
| "sem_step s (WakeGranted t) =
     (case sem_pc s t of
        SemWaiting n True \<Rightarrow> Some (sem_goto s t (SemHolding n))
      | _ \<Rightarrow> None)"
| "sem_step s (CancelWait t) =
     (case sem_pc s t of
        SemWaiting n g \<Rightarrow> Some (sem_goto (s\<lparr>sem_waiters := remove1 t (sem_waiters s)\<rparr>) t SemOut)
      | _ \<Rightarrow> None)"
| "sem_step s (TryAcquire t n) =
     (if sem_pc s t \<noteq> SemOut then None
      else let (ok, s1) = try_acquire s n in Some (if ok then sem_goto s1 t (SemHolding n) else s1))"
| "sem_step s (ReleaseHeld t) =
     (case sem_pc s t of
        SemHolding n \<Rightarrow> Some (release_sem (sem_goto s t SemOut) n)
      | _ \<Rightarrow> None)"


section \<open>Unit weights\<close>

definition holding :: "semaphore \<Rightarrow> nat set" where
  "holding s = {t. \<exists>n. sem_pc s t = SemHolding n}"

definition granted :: "semaphore \<Rightarrow> nat set" where
  "granted s = {t. \<exists>n. sem_pc s t = SemWaiting n True}"

definition unit_event :: "sem_event \<Rightarrow> bool" where
  "unit_event e \<longleftrightarrow> (case e of Acquire t n \<Rightarrow> n = 1 | TryAcquire t n \<Rightarrow> n = 1 | _ \<Rightarrow> True)"

text \<open>Every goroutine that holds or has been granted is accounted for; queued waiters are not granted.\<close>

definition sem_inv :: "semaphore \<Rightarrow> bool" where
  "sem_inv s \<longleftrightarrow> finite (holding s \<union> granted s)
     \<and> int (card (holding s \<union> granted s)) \<le> sem_current s
     \<and> sem_current s \<le> sem_capacity s \<and> 0 < sem_capacity s \<and> in64 (sem_capacity s)
     \<and> distinct (sem_waiters s)
     \<and> (\<forall>t\<in>set (sem_waiters s). sem_pc s t = SemWaiting 1 False)
     \<and> (\<forall>t n g. sem_pc s t = SemWaiting n g \<longrightarrow> n = 1)
     \<and> (\<forall>t n. sem_pc s t = SemHolding n \<longrightarrow> n = 1)"

definition users :: "semaphore \<Rightarrow> nat set" where
  "users s = holding s \<union> granted s"

lemma users_goto: "users (sem_goto s t c) =
    (if (\<exists>n. c = SemHolding n) \<or> (\<exists>n. c = SemWaiting n True) then insert t (users s) else users s - {t})"
  by (auto simp: users_def holding_def granted_def sem_goto_def)

lemma users_mem: "t \<in> users s \<longleftrightarrow> (\<exists>n. sem_pc s t = SemHolding n \<or> sem_pc s t = SemWaiting n True)"
  by (auto simp: users_def holding_def granted_def)

lemma users_frame [simp]: "users (s\<lparr>sem_waiters := w\<rparr>) = users s" "users (s\<lparr>sem_current := c\<rparr>) = users s"
  "users (s\<lparr>sem_waiters := w, sem_current := c\<rparr>) = users s"
  by (auto simp: users_def holding_def granted_def)

lemma sem_goto_simps [simp]: "sem_current (sem_goto s t c) = sem_current s"
  "sem_capacity (sem_goto s t c) = sem_capacity s" "sem_waiters (sem_goto s t c) = sem_waiters s"
  "sem_pc (sem_goto s t c) = (sem_pc s)(t := c)"
  by (simp_all add: sem_goto_def)

lemma sem_inv_users: "sem_inv s \<longleftrightarrow> finite (users s) \<and> int (card (users s)) \<le> sem_current s
     \<and> sem_current s \<le> sem_capacity s \<and> 0 < sem_capacity s \<and> in64 (sem_capacity s)
     \<and> distinct (sem_waiters s)
     \<and> (\<forall>t\<in>set (sem_waiters s). sem_pc s t = SemWaiting 1 False)
     \<and> (\<forall>t n g. sem_pc s t = SemWaiting n g \<longrightarrow> n = 1)
     \<and> (\<forall>t n. sem_pc s t = SemHolding n \<longrightarrow> n = 1)"
  by (simp add: sem_inv_def users_def)

lemma sem_inv_grant_loop: "sem_inv s \<Longrightarrow> sem_inv (grant_loop s)"
proof (induction s rule: grant_loop.induct)
  case (1 s)
  show ?case
  proof (cases "sem_waiters s \<noteq> [] \<and> i64 (sem_capacity s - sem_current s) > 0")
    case False
    then show ?thesis using "1.prems" by (subst grant_loop.simps) (simp only: if_not_P if_False)
  next
    case True
    note I = "1.prems" [unfolded sem_inv_users]
    have cur: "0 \<le> sem_current s" using I by linarith
    have room: "sem_capacity s - sem_current s > 0" using True I cur by (simp add: in64_def)
    have up: "i64 (sem_current s + 1) = sem_current s + 1" using I cur room by (intro i64_id) (simp add: in64_def)
    obtain t ws where w: "sem_waiters s = t # ws" using True by (cases "sem_waiters s") auto
    have tp: "sem_pc s t = SemWaiting 1 False" using I w by simp
    then have tn: "t \<notin> users s" by (simp add: users_mem)
    let ?s = "sem_goto (s\<lparr>sem_waiters := ws, sem_current := sem_current s + 1\<rparr>) t (SemWaiting 1 True)"
    have g: "grant (s\<lparr>sem_waiters := tl (sem_waiters s), sem_current := i64 (sem_current s + 1)\<rparr>) (hd (sem_waiters s)) = ?s"
      by (simp add: grant_def w up tp)
    have "users ?s = insert t (users s)" by (simp add: users_goto)
    then have "sem_inv ?s" using I w room tn unfolding sem_inv_users by auto
    with "1.IH" [OF True] g have "sem_inv (grant_loop ?s)" by simp
    then show ?thesis using True g by (subst grant_loop.simps) simp
  qed
qed

lemma sem_inv_release:
  assumes "sem_inv s" and "sem_pc s t = SemHolding n"
  shows "sem_inv (release_sem (sem_goto s t SemOut) n)"
proof -
  note I = assms(1) [unfolded sem_inv_users]
  have n: "n = 1" using I assms(2) by blast
  have t: "t \<in> users s" using assms(2) by (auto simp: users_mem)
  then have "0 < card (users s)" using I by (auto simp: card_gt_0_iff)
  then have pos: "0 < sem_current s" using I by linarith
  have tw: "t \<notin> set (sem_waiters s)" using I assms(2) by auto
  have down: "i64 (sem_current s - 1) = sem_current s - 1" using I pos by (intro i64_id) (simp add: in64_def)
  have "card (users s - {t}) = card (users s) - 1" using t by simp
  then have "int (card (users s - {t})) \<le> sem_current s - 1"
    using I \<open>0 < card (users s)\<close> by (simp add: of_nat_diff)
  then have "sem_inv ((sem_goto s t SemOut)\<lparr>sem_current := sem_current s - 1\<rparr>)"
    using I pos tw unfolding sem_inv_users users_frame users_goto by auto
  from sem_inv_grant_loop [OF this] show ?thesis
    using pos by (simp add: release_sem_def n down Let_def)
qed

lemma sem_inv_step:
  assumes "sem_inv s" and "unit_event e" and "sem_step s e = Some s'"
  shows "sem_inv s'"
proof -
  note I = assms(1) [unfolded sem_inv_users]
  have cur: "0 \<le> sem_current s" using I by linarith
  have room: "i64 (sem_capacity s - sem_current s) = sem_capacity s - sem_current s"
    using I cur by (intro i64_id) (simp add: in64_def)
  have take: "sem_inv (sem_goto (s\<lparr>sem_current := i64 (sem_current s + 1)\<rparr>) t (SemHolding 1))"
    if "sem_pc s t = SemOut" "1 \<le> sem_capacity s - sem_current s" for t
  proof -
    have "i64 (sem_current s + 1) = sem_current s + 1" using I cur that by (intro i64_id) (simp add: in64_def)
    moreover have "t \<notin> users s" "t \<notin> set (sem_waiters s)" using that I by (auto simp: users_mem)
    ultimately show ?thesis using I that unfolding sem_inv_users by (auto simp: users_goto)
  qed
  show ?thesis
  proof (cases e)
    case (Acquire t n)
    then have n: "n = 1" "sem_pc s t = SemOut"
      using assms(2,3) by (auto simp: unit_event_def split: if_splits)
    have tn: "t \<notin> users s" "t \<notin> set (sem_waiters s)" using n(2) I by (auto simp: users_mem)
    show ?thesis
    proof (cases "1 \<le> sem_capacity s - sem_current s")
      case True
      then show ?thesis using assms(3) Acquire n take I room by (auto split: if_splits)
    next
      case False
      then have "s' = sem_goto (s\<lparr>sem_waiters := sem_waiters s @ [t]\<rparr>) t (SemWaiting 1 False)"
        using assms(3) Acquire n I room by (auto split: if_splits)
      then show ?thesis using I tn unfolding sem_inv_users by (auto simp: users_goto)
    qed
  next
    case (WakeGranted t)
    then obtain n where n: "sem_pc s t = SemWaiting n True" "s' = sem_goto s t (SemHolding n)"
      using assms(3) by (auto split: sem_pc.splits bool.splits)
    have "t \<in> users s" "t \<notin> set (sem_waiters s)" using n(1) I by (auto simp: users_mem)
    then show ?thesis using I n unfolding sem_inv_users by (auto simp: users_goto insert_absorb)
  next
    case (CancelWait t)
    then obtain n g where n: "sem_pc s t = SemWaiting n g"
        "s' = sem_goto (s\<lparr>sem_waiters := remove1 t (sem_waiters s)\<rparr>) t SemOut"
      using assms(3) by (auto split: sem_pc.splits)
    have "card (users s - {t}) \<le> card (users s)" using I by (intro card_mono) auto
    then have "int (card (users s - {t})) \<le> sem_current s" using I by linarith
    moreover have "set (remove1 t (sem_waiters s)) = set (sem_waiters s) - {t}" using I by simp
    ultimately show ?thesis using I n unfolding sem_inv_users by (auto simp: users_goto)
  next
    case (TryAcquire t n)
    then have n: "n = 1" "sem_pc s t = SemOut"
      using assms(2,3) by (auto simp: unit_event_def split: if_splits)
    show ?thesis
      using assms(1,3) TryAcquire n take [of t] I room by (auto simp: try_acquire_def split: if_splits)
  next
    case (ReleaseHeld t)
    then show ?thesis using assms(3) sem_inv_release [OF assms(1)] by (auto split: sem_pc.splits)
  qed
qed

lemma sem_inv_run:
  assumes "run_events sem_step s es = Some s'" and "sem_inv s" and "\<forall>e\<in>set es. unit_event e"
  shows "sem_inv s'"
  using assms
proof (induction es arbitrary: s)
  case Nil
  then show ?case by simp
next
  case (Cons e es)
  then show ?case using sem_inv_step [of s e] by (auto split: option.splits)
qed

lemma sem_inv_new: "in64 cap \<Longrightarrow> sem_inv (new_semaphore cap)"
  by (simp add: sem_inv_users new_semaphore_def users_def holding_def granted_def in64_def)

lemma capacity_grant_loop: "sem_capacity (grant_loop s) = sem_capacity s"
proof (induction s rule: grant_loop.induct)
  case (1 s)
  then show ?case by (subst grant_loop.simps) (auto simp: grant_def split: sem_pc.split)
qed

lemma capacity_sem_step: "sem_step s e = Some s' \<Longrightarrow> sem_capacity s' = sem_capacity s"
  by (cases e) (auto simp: try_acquire_def release_sem_def capacity_grant_loop Let_def
      split: if_splits sem_pc.splits bool.splits)

text \<open>with unit weights the semaphore bounds the concurrency. In every interleaving of Acquire,
  TryAcquire, cancellations and Releases by the holders, at most capacity goroutines hold it, and
  Current never understates the holders.\<close>

theorem semaphore_bounds_holders:
  assumes "run_events sem_step (new_semaphore cap) es = Some s" and "\<forall>e\<in>set es. unit_event e" and "in64 cap"
  shows "int (card (holding s)) \<le> current_used s \<and> current_used s \<le> (if cap \<le> 0 then 1 else cap)"
proof -
  have I: "sem_inv s" by (rule sem_inv_run [OF assms(1) sem_inv_new [OF assms(3)] assms(2)])
  have "sem_capacity s = (if cap \<le> 0 then 1 else cap)"
    by (rule run_events_inv [OF assms(1), where I = "\<lambda>s. sem_capacity s = (if cap \<le> 0 then 1 else cap)"])
      (simp_all add: new_semaphore_def capacity_sem_step)
  moreover have "card (holding s) \<le> card (holding s \<union> granted s)"
    using I by (intro card_mono) (auto simp: sem_inv_def)
  ultimately show ?thesis using I by (simp add: sem_inv_def current_used_def)
qed

theorem semaphore_bounds_holders_witness:
  "\<exists>s. run_events sem_step (new_semaphore 1) [Acquire 1 1, Acquire 2 1, ReleaseHeld 1, WakeGranted 2] = Some s
     \<and> sem_pc s 2 = SemHolding 1 \<and> int (card (holding s)) \<le> 1"
proof -
  obtain s where s: "run_events sem_step (new_semaphore 1) [Acquire 1 1, Acquire 2 1, ReleaseHeld 1, WakeGranted 2] = Some s"
      "sem_pc s 2 = SemHolding 1"
    by (simp add: new_semaphore_def release_sem_def grant_def sem_goto_def grant_loop.simps i64_def Let_def)
  with semaphore_bounds_holders [OF s(1)] show ?thesis by (auto simp: unit_event_def in64_def)
qed


section \<open>Other weights and late cancellations\<close>

text \<open>The weight a goroutine believes it holds.\<close>

definition held_weight :: "semaphore \<Rightarrow> nat \<Rightarrow> int" where
  "held_weight s t = (case sem_pc s t of SemHolding n \<Rightarrow> n | _ \<Rightarrow> 0)"

text \<open>a waiter that asked for more than one unit is let in for one. On a semaphore of capacity 3, a
  waiter for 3 units is woken by a release that counts only 1 of them, and another goroutine then gets 2:
  together they hold 5 units of 3.\<close>

theorem weighted_overcommit:
  "map_option (\<lambda>s. (held_weight s 2 + held_weight s 3, sem_capacity s))
     (run_events sem_step (new_semaphore 3)
       [Acquire 1 3, Acquire 2 3, ReleaseHeld 1, WakeGranted 2, TryAcquire 3 2]) = Some (5, 3)"
  by (simp add: new_semaphore_def release_sem_def grant_def sem_goto_def grant_loop.simps i64_def Let_def
      try_acquire_def held_weight_def)

text \<open>a cancellation that races with a grant loses the unit for ever. The waiter returns the context's
  error although its unit has been counted, and afterwards nobody holds the semaphore of capacity 1 and
  nobody can acquire it.\<close>

theorem cancel_leaks_unit:
  "map_option (\<lambda>s. (sem_pc s 1, sem_pc s 2, current_used s, fst (try_acquire s 1)))
     (run_events sem_step (new_semaphore 1) [Acquire 1 1, Acquire 2 1, ReleaseHeld 1, CancelWait 2])
   = Some (SemOut, SemOut, 1, False)"
  by (simp add: new_semaphore_def release_sem_def grant_def sem_goto_def grant_loop.simps i64_def Let_def
      try_acquire_def current_used_def)

end
