(* ===== verification/Workload_Isolation.thy ===== *)
theory Workload_Isolation
  imports Go_Prelude
begin

text \<open>
  \<open>patterns/26_advanced/multi_bulkhead.go\<close>: a bounded queue and a fixed number of workers per workload. The heap of
  channels is a list, a channel variable an index into it; the map from workload types to channels and the channel every
  worker goroutine has captured are part of the state, so that workloads could share what they do not. The goroutines
  interleave: an event is a dispatch, a worker taking a job, finishing it or returning, or the cancellation of the
  context (by \<open>Stop\<close> or from outside). \<open>wb_results\<close>, \<open>wb_begun\<close> and \<open>wb_finished\<close> only record what happened.
\<close>

type_synonym workload_type = string

definition WorkloadPayment :: workload_type where "WorkloadPayment = ''PAYMENT''"
definition WorkloadEmail :: workload_type where "WorkloadEmail = ''EMAIL''"
definition WorkloadKYC :: workload_type where "WorkloadKYC = ''KYC''"

lemmas workload_types = WorkloadPayment_def WorkloadEmail_def WorkloadKYC_def

record 'j job_chan =
  chan_cap :: nat
  chan_buf :: "'j list"

datatype 'j routine = BIdle | BRunning 'j | BReturned

record 'j bulk_worker =
  worker_chan :: "nat option"
  routine_state :: "'j routine"

datatype dispatch_result = Dispatched | UnknownWorkload | DispatchCancelled | WorkloadQueueFull

record 'j multi_bulkhead =
  wb_queues :: "workload_type \<rightharpoonup> nat"
  wb_chans :: "'j job_chan list"
  wb_workers :: "'j bulk_worker list"
  wb_cancelled :: bool
  wb_results :: "(workload_type \<times> 'j \<times> dispatch_result) list"
  wb_begun :: "(nat \<times> 'j) list"
  wb_finished :: "(nat \<times> 'j) list"

definition make_queue :: "workload_type \<Rightarrow> nat \<Rightarrow> 'j multi_bulkhead \<Rightarrow> 'j multi_bulkhead" where
  "make_queue w cap b =
     b\<lparr>wb_queues := (wb_queues b)(w \<mapsto> length (wb_chans b)),
       wb_chans := wb_chans b @ [\<lparr>chan_cap = cap, chan_buf = []\<rparr>]\<rparr>"

text \<open>Every worker captures the channel the map holds for its workload (nil when there is none).\<close>

definition spawn_workers :: "workload_type \<Rightarrow> nat \<Rightarrow> 'j multi_bulkhead \<Rightarrow> 'j multi_bulkhead" where
  "spawn_workers w n b =
     b\<lparr>wb_workers := wb_workers b @ replicate n \<lparr>worker_chan = wb_queues b w, routine_state = BIdle\<rparr>\<rparr>"

definition new_multi_bulkhead :: "'j multi_bulkhead" where
  "new_multi_bulkhead =
     spawn_workers WorkloadKYC 5 (spawn_workers WorkloadEmail 5 (spawn_workers WorkloadPayment 10
       (make_queue WorkloadKYC 20 (make_queue WorkloadEmail 20 (make_queue WorkloadPayment 50
          \<lparr>wb_queues = Map.empty, wb_chans = [], wb_workers = [], wb_cancelled = False,
           wb_results = [], wb_begun = [], wb_finished = []\<rparr>)))))"

text \<open>\<open>Dispatch\<close>. Of the ready cases of the \<open>select\<close> any can be taken (\<open>ctx_case\<close>: the one of the context), the
  default only when none is ready.\<close>

definition dispatch_job ::
  "'j multi_bulkhead \<Rightarrow> workload_type \<Rightarrow> 'j \<Rightarrow> bool \<Rightarrow> (dispatch_result \<times> 'j multi_bulkhead) option" where
  "dispatch_job b w j ctx_case =
     (case wb_queues b w of
        None \<Rightarrow> Some (UnknownWorkload, b)
      | Some q \<Rightarrow>
          (let ch = wb_chans b ! q
           in if ctx_case then (if wb_cancelled b then Some (DispatchCancelled, b) else None)
              else if length (chan_buf ch) < chan_cap ch
                then Some (Dispatched, b\<lparr>wb_chans := (wb_chans b)[q := ch\<lparr>chan_buf := chan_buf ch @ [j]\<rparr>]\<rparr>)
              else if wb_cancelled b then None
              else Some (WorkloadQueueFull, b)))"

definition set_routine :: "'j multi_bulkhead \<Rightarrow> nat \<Rightarrow> 'j routine \<Rightarrow> 'j multi_bulkhead" where
  "set_routine b g r = b\<lparr>wb_workers := (wb_workers b)[g := (wb_workers b ! g)\<lparr>routine_state := r\<rparr>]\<rparr>"

datatype 'j bulkhead_event =
    Dispatch workload_type 'j bool
  | WorkerTake nat | WorkerDone nat | WorkerReturn nat
  | BulkheadCancel | StopReturns

fun bulkhead_step :: "'j multi_bulkhead \<Rightarrow> 'j bulkhead_event \<Rightarrow> 'j multi_bulkhead option" where
  "bulkhead_step b (Dispatch w j ctx_case) =
     map_option (\<lambda>(r, b1). b1\<lparr>wb_results := wb_results b1 @ [(w, j, r)]\<rparr>) (dispatch_job b w j ctx_case)"
| "bulkhead_step b (WorkerTake g) =
     (if g < length (wb_workers b) \<and> routine_state (wb_workers b ! g) = BIdle then
        (case worker_chan (wb_workers b ! g) of
           None \<Rightarrow> None
         | Some q \<Rightarrow>
             (case chan_buf (wb_chans b ! q) of
                [] \<Rightarrow> None
              | j # js \<Rightarrow>
                  Some ((set_routine b g (BRunning j))
                    \<lparr>wb_chans := (wb_chans b)[q := (wb_chans b ! q)\<lparr>chan_buf := js\<rparr>], wb_begun := wb_begun b @ [(g, j)]\<rparr>)))
      else None)"
| "bulkhead_step b (WorkerDone g) =
     (if g < length (wb_workers b) then
        (case routine_state (wb_workers b ! g) of
           BRunning j \<Rightarrow> Some ((set_routine b g BIdle)\<lparr>wb_finished := wb_finished b @ [(g, j)]\<rparr>)
         | _ \<Rightarrow> None)
      else None)"
| "bulkhead_step b (WorkerReturn g) =
     (if g < length (wb_workers b) \<and> routine_state (wb_workers b ! g) = BIdle \<and> wb_cancelled b
      then Some (set_routine b g BReturned) else None)"
| "bulkhead_step b BulkheadCancel = Some (b\<lparr>wb_cancelled := True\<rparr>)"
| "bulkhead_step b StopReturns =
     (if wb_cancelled b \<and> (\<forall>v \<in> set (wb_workers b). routine_state v = BReturned) then Some b else None)"


section \<open>What each workload is promised\<close>

fun queue_capacity :: "workload_type \<Rightarrow> nat option" where
  "queue_capacity w =
     (if w = WorkloadPayment then Some 50 else if w = WorkloadEmail then Some 20
      else if w = WorkloadKYC then Some 20 else None)"

fun worker_count :: "workload_type \<Rightarrow> nat" where
  "worker_count w =
     (if w = WorkloadPayment then 10 else if w = WorkloadEmail then 5 else if w = WorkloadKYC then 5 else 0)"

text \<open>The goroutines of a workload.\<close>

definition crew :: "workload_type \<Rightarrow> nat \<Rightarrow> bool" where
  "crew w g \<longleftrightarrow> (w = WorkloadPayment \<and> g < 10) \<or> (w = WorkloadEmail \<and> 10 \<le> g \<and> g < 15)
     \<or> (w = WorkloadKYC \<and> 15 \<le> g \<and> g < 20)"

text \<open>Its jobs that were accepted, and those its workers have begun, in order; the workers that run one.\<close>

definition accepted :: "workload_type \<Rightarrow> 'j multi_bulkhead \<Rightarrow> 'j list" where
  "accepted w s = map (\<lambda>(v, j, r). j) (filter (\<lambda>(v, j, r). v = w \<and> r = Dispatched) (wb_results s))"

definition begun :: "workload_type \<Rightarrow> 'j multi_bulkhead \<Rightarrow> 'j list" where
  "begun w s = map snd (filter (\<lambda>(g, j). crew w g) (wb_begun s))"

definition busy :: "workload_type \<Rightarrow> 'j multi_bulkhead \<Rightarrow> nat set" where
  "busy w s = {g. crew w g \<and> (\<exists>j. routine_state (wb_workers s ! g) = BRunning j)}"

text \<open>All a workload can see: its queue, its workers, the answers its callers got, and what its workers did.\<close>

definition workload_view where
  "workload_view w s =
     (map_option (\<lambda>q. wb_chans s ! q) (wb_queues s w),
      map (\<lambda>g. wb_workers s ! g) (filter (crew w) [0 ..< 20]),
      filter (\<lambda>(v, j, r). v = w) (wb_results s), filter (\<lambda>(g, j). crew w g) (wb_begun s),
      filter (\<lambda>(g, j). crew w g) (wb_finished s), wb_cancelled s)"

definition concerns :: "workload_type \<Rightarrow> 'j bulkhead_event \<Rightarrow> bool" where
  "concerns w e =
     (case e of
        Dispatch v j c \<Rightarrow> v = w
      | WorkerTake g \<Rightarrow> crew w g | WorkerDone g \<Rightarrow> crew w g | WorkerReturn g \<Rightarrow> crew w g
      | BulkheadCancel \<Rightarrow> True
      | StopReturns \<Rightarrow> False)"


section \<open>The wiring\<close>

text \<open>Who uses which channel never changes.\<close>

definition queue_ref :: "workload_type \<rightharpoonup> nat" where
  "queue_ref = [WorkloadPayment \<mapsto> 0, WorkloadEmail \<mapsto> 1, WorkloadKYC \<mapsto> 2]"

definition wired :: "'j multi_bulkhead \<Rightarrow> bool" where
  "wired s \<longleftrightarrow> wb_queues s = queue_ref \<and> map chan_cap (wb_chans s) = [50, 20, 20]
     \<and> map worker_chan (wb_workers s) = replicate 10 (Some 0) @ replicate 5 (Some 1) @ replicate 5 (Some 2)"

lemma wired_new: "wired new_multi_bulkhead"
  by (simp add: wired_def new_multi_bulkhead_def spawn_workers_def make_queue_def queue_ref_def workload_types
      fun_upd_twist numeral_2_eq_2)

lemma chan_update:
  assumes "chan_cap c = chan_cap (cs ! q)"
  shows "map chan_cap (cs[q := c]) = map chan_cap cs"
  by (metis assms list_update_id map_update)

lemma worker_update: "map worker_chan (ws[g := (ws ! g)\<lparr>routine_state := r\<rparr>]) = map worker_chan ws"
proof -
  have "worker_chan ((ws ! g)\<lparr>routine_state := r\<rparr>) = worker_chan (ws ! g)" by simp
  then show ?thesis by (metis list_update_id map_update)
qed

lemma set_routine_wiring [simp]:
  "map worker_chan (wb_workers (set_routine b g r)) = map worker_chan (wb_workers b)"
  "wb_queues (set_routine b g r) = wb_queues b" "wb_chans (set_routine b g r) = wb_chans b"
  "wb_cancelled (set_routine b g r) = wb_cancelled b" "wb_results (set_routine b g r) = wb_results b"
  "wb_begun (set_routine b g r) = wb_begun b" "wb_finished (set_routine b g r) = wb_finished b"
  by (simp_all add: set_routine_def worker_update)

lemma step_wiring:
  assumes "bulkhead_step s e = Some t"
  shows "wb_queues t = wb_queues s \<and> map chan_cap (wb_chans t) = map chan_cap (wb_chans s)
    \<and> map worker_chan (wb_workers t) = map worker_chan (wb_workers s)"
proof (cases e)
  case (Dispatch w j c)
  with assms show ?thesis
    by (auto simp: dispatch_job_def Let_def chan_update split: option.splits if_splits)
next
  case (WorkerTake g)
  with assms show ?thesis by (auto simp: chan_update split: option.splits if_splits list.splits)
qed (use assms in \<open>auto split: if_splits routine.splits\<close>)

lemma wired_step:
  assumes "wired s" and "bulkhead_step s e = Some t"
  shows "wired t"
  using assms(1) step_wiring [OF assms(2)] unfolding wired_def by simp

lemma wired_facts:
  assumes "wired s"
  shows "wb_queues s = queue_ref" "length (wb_chans s) = 3" "length (wb_workers s) = 20"
proof -
  have "length (map chan_cap (wb_chans s)) = 3" "length (map worker_chan (wb_workers s)) = 20"
    using assms unfolding wired_def by simp_all
  then show "wb_queues s = queue_ref" "length (wb_chans s) = 3" "length (wb_workers s) = 20"
    using assms by (simp_all add: wired_def)
qed

lemma wired_cap:
  assumes "wired s" and "queue_ref w = Some q"
  shows "queue_capacity w = Some (chan_cap (wb_chans s ! q))" "q < length (wb_chans s)"
proof -
  have "chan_cap (wb_chans s ! i) = [50, 20, 20] ! i" if "i < 3" for i
    using assms(1) that wired_facts(2) [OF assms(1)] by (metis nth_map wired_def)
  from this [of 0] this [of 1] this [of 2] assms(2)
  show "queue_capacity w = Some (chan_cap (wb_chans s ! q))" "q < length (wb_chans s)"
    by (auto simp: queue_ref_def workload_types wired_facts(2) [OF assms(1)] split: if_splits)
qed

lemma queue_ref_None: "queue_ref w = None \<longleftrightarrow> queue_capacity w = None"
  by (auto simp: queue_ref_def workload_types)

lemma queue_ref_inj: "queue_ref v = Some q \<Longrightarrow> queue_ref w = Some q \<Longrightarrow> v = w"
  by (auto simp: queue_ref_def split: if_splits)

lemma wired_worker:
  assumes "wired s" and "g < 20"
  obtains v q where "worker_chan (wb_workers s ! g) = Some q" "queue_ref v = Some q" "\<And>w. crew w g \<longleftrightarrow> w = v"
proof -
  have "worker_chan (wb_workers s ! g) = (replicate 10 (Some 0) @ replicate 5 (Some 1) @ replicate 5 (Some 2)) ! g"
    using assms wired_facts(3) [OF assms(1)] by (metis nth_map wired_def)
  then have c: "worker_chan (wb_workers s ! g) = (if g < 10 then Some 0 else if g < 15 then Some 1 else Some 2)"
    using assms(2) by (auto simp: nth_append)
  consider "g < 10" | "10 \<le> g" "g < 15" | "15 \<le> g" by linarith
  then show ?thesis
  proof cases
    case 1
    then show ?thesis using c assms(2)
      by (intro that [of 0 WorkloadPayment]) (auto simp: queue_ref_def crew_def workload_types)
  next
    case 2
    then show ?thesis using c assms(2)
      by (intro that [of 1 WorkloadEmail]) (auto simp: queue_ref_def crew_def workload_types)
  next
    case 3
    then show ?thesis using c assms(2)
      by (intro that [of 2 WorkloadKYC]) (auto simp: queue_ref_def crew_def workload_types)
  qed
qed

lemma wired_crew:
  assumes "wired s" and "crew w g"
  obtains q where "g < length (wb_workers s)" "worker_chan (wb_workers s ! g) = Some q" "queue_ref w = Some q"
proof -
  have g: "g < 20" using assms(2) by (auto simp: crew_def)
  from wired_worker [OF assms(1) g] obtain v q where "worker_chan (wb_workers s ! g) = Some q" "queue_ref v = Some q"
    "\<And>w. crew w g \<longleftrightarrow> w = v" by metis
  with assms(2) g show ?thesis by (intro that [of q]) (simp_all add: wired_facts(3) [OF assms(1)])
qed


section \<open>Isolation\<close>

text \<open>Two wired states a workload cannot tell apart.\<close>

definition alike :: "workload_type \<Rightarrow> 'j multi_bulkhead \<Rightarrow> 'j multi_bulkhead \<Rightarrow> bool" where
  "alike w s t \<longleftrightarrow> wired s \<and> wired t
     \<and> (\<forall>q. queue_ref w = Some q \<longrightarrow> wb_chans s ! q = wb_chans t ! q)
     \<and> (\<forall>g. crew w g \<longrightarrow> wb_workers s ! g = wb_workers t ! g)
     \<and> filter (\<lambda>(v, j, r). v = w) (wb_results s) = filter (\<lambda>(v, j, r). v = w) (wb_results t)
     \<and> filter (\<lambda>(g, j). crew w g) (wb_begun s) = filter (\<lambda>(g, j). crew w g) (wb_begun t)
     \<and> filter (\<lambda>(g, j). crew w g) (wb_finished s) = filter (\<lambda>(g, j). crew w g) (wb_finished t)
     \<and> wb_cancelled s = wb_cancelled t"

lemma alike_view: "alike w s t \<Longrightarrow> workload_view w s = workload_view w t"
  by (auto simp: alike_def workload_view_def wired_facts(1) option.map_sel intro!: option.map_cong)

text \<open>An event of another workload goes unnoticed.\<close>

lemma step_unconcerned:
  assumes "alike w s t" and "bulkhead_step s e = Some s1" and "\<not> concerns w e"
  shows "alike w s1 t"
proof -
  have W: "wired s" and W1: "wired s1" using assms(1,2) wired_step by (auto simp: alike_def)
  show ?thesis
  proof (cases e)
    case (Dispatch v j c)
    then have v: "v \<noteq> w" using assms(3) by (simp add: concerns_def)
    obtain r b where b: "dispatch_job s v j c = Some (r, b)" "s1 = b\<lparr>wb_results := wb_results b @ [(v, j, r)]\<rparr>"
      using assms(2) Dispatch by auto
    have "wb_chans b ! q = wb_chans s ! q" if "queue_ref w = Some q" for q
    proof -
      have "p \<noteq> q" if "queue_ref v = Some p" for p using v that \<open>queue_ref w = Some q\<close> queue_ref_inj [of v q w] by auto
      then show ?thesis using b(1)
        by (auto simp: dispatch_job_def Let_def wired_facts(1) [OF W] split: option.splits if_splits)
    qed
    moreover have "wb_workers b = wb_workers s" "wb_results b = wb_results s" "wb_begun b = wb_begun s"
      "wb_finished b = wb_finished s" "wb_cancelled b = wb_cancelled s"
      using b(1) by (auto simp: dispatch_job_def Let_def split: option.splits if_splits)
    ultimately show ?thesis using assms(1) v W1 b(2) by (simp add: alike_def)
  next
    case (WorkerTake g)
    then have g: "\<not> crew w g" using assms(3) by (simp add: concerns_def)
    obtain q j js where s1: "g < length (wb_workers s)" "worker_chan (wb_workers s ! g) = Some q"
      "s1 = (set_routine s g (BRunning j))\<lparr>wb_chans := (wb_chans s)[q := (wb_chans s ! q)\<lparr>chan_buf := js\<rparr>], wb_begun := wb_begun s @ [(g, j)]\<rparr>"
      using assms(2) WorkerTake by (auto split: if_splits option.splits list.splits)
    have g20: "g < 20" using s1(1) by (simp add: wired_facts(3) [OF W])
    obtain v where v: "queue_ref v = Some q" "v \<noteq> w"
      using wired_worker [OF W g20] s1(2) g by (metis option.inject)
    then have "q \<noteq> p" if "queue_ref w = Some p" for p using queue_ref_inj [of v q w] that by auto
    moreover have "g \<noteq> h" if "crew w h" for h using g that by auto
    ultimately show ?thesis using assms(1) W1 g unfolding alike_def s1(3) by (auto simp: set_routine_def)
  next
    case (WorkerDone g)
    then have g: "\<not> crew w g" using assms(3) by (simp add: concerns_def)
    obtain j where s1: "s1 = (set_routine s g BIdle)\<lparr>wb_finished := wb_finished s @ [(g, j)]\<rparr>"
      using assms(2) WorkerDone by (auto split: if_splits routine.splits)
    have "g \<noteq> h" if "crew w h" for h using g that by auto
    then show ?thesis using assms(1) W1 g unfolding alike_def s1 by (auto simp: set_routine_def)
  next
    case (WorkerReturn g)
    then have g: "\<not> crew w g" using assms(3) by (simp add: concerns_def)
    have s1: "s1 = set_routine s g BReturned" using assms(2) WorkerReturn by (auto split: if_splits)
    have "g \<noteq> h" if "crew w h" for h using g that by auto
    then show ?thesis using assms(1) W1 unfolding alike_def s1 by (auto simp: set_routine_def)
  next
    case BulkheadCancel
    with assms(3) show ?thesis by (simp add: concerns_def)
  next
    case StopReturns
    with assms(1,2) show ?thesis by (auto split: if_splits)
  qed
qed

text \<open>An event of its own has the same effect in both states.\<close>

lemma alike_update:
  assumes "alike w s t" and "wired s1" "wired t1"
    and "wb_workers s1 = (wb_workers s)[g := u]" "wb_workers t1 = (wb_workers t)[g := u]"
    and "wb_chans s1 = (wb_chans s)[q := c]" "wb_chans t1 = (wb_chans t)[q := c]"
    and "wb_results s1 = wb_results s @ rs" "wb_results t1 = wb_results t @ rs"
    and "wb_begun s1 = wb_begun s @ bs" "wb_begun t1 = wb_begun t @ bs"
    and "wb_finished s1 = wb_finished s @ fs" "wb_finished t1 = wb_finished t @ fs"
    and "wb_cancelled s1 = wb_cancelled s" "wb_cancelled t1 = wb_cancelled t"
  shows "alike w s1 t1"
proof -
  have W: "wired s" "wired t" using assms(1) by (simp_all add: alike_def)
  have "wb_chans s1 ! p = wb_chans t1 ! p" if "queue_ref w = Some p" for p
    using assms(1,6,7) that wired_cap(2) [OF W(1) that] wired_cap(2) [OF W(2) that]
    by (cases "p = q") (simp_all add: alike_def)
  moreover have "wb_workers s1 ! h = wb_workers t1 ! h" if "crew w h" for h
  proof -
    have "h < 20" using that by (auto simp: crew_def)
    then show ?thesis
      using assms(1,4,5) that wired_facts(3) [OF W(1)] wired_facts(3) [OF W(2)]
      by (cases "h = g") (simp_all add: alike_def)
  qed
  ultimately show ?thesis using assms(1-3,8-) by (simp add: alike_def)
qed

lemma step_concerned:
  assumes "alike w s t" and "bulkhead_step s e = Some s1" and "concerns w e"
  shows "\<exists>t1. bulkhead_step t e = Some t1 \<and> alike w s1 t1"
proof -
  have W: "wired s" "wired t" using assms(1) by (simp_all add: alike_def)
  have W1: "wired s1" using wired_step [OF W(1) assms(2)] .
  have T: "wb_cancelled t = wb_cancelled s" "length (wb_workers t) = length (wb_workers s)"
    using assms(1) wired_facts(3) [OF W(1)] wired_facts(3) [OF W(2)] by (simp_all add: alike_def)
  have C: "wb_chans t ! q = wb_chans s ! q" if "queue_ref w = Some q" for q using assms(1) that by (simp add: alike_def)
  have G: "wb_workers t ! g = wb_workers s ! g" if "crew w g" for g using assms(1) that by (simp add: alike_def)
  note WT = wired_step [OF W(2), of e] and U = alike_update [OF assms(1) W1]
  show ?thesis
  proof (cases e)
    case (Dispatch v j c)
    then have v: "v = w" using assms(3) by (simp add: concerns_def)
    obtain r b where b: "dispatch_job s w j c = Some (r, b)" "s1 = b\<lparr>wb_results := wb_results b @ [(w, j, r)]\<rparr>"
      using assms(2) Dispatch v by auto
    show ?thesis
    proof (cases "queue_ref w")
      case None
      then have st: "s1 = s\<lparr>wb_results := wb_results s @ [(w, j, UnknownWorkload)]\<rparr>"
        "bulkhead_step t e = Some (t\<lparr>wb_results := wb_results t @ [(w, j, UnknownWorkload)]\<rparr>)"
        using b Dispatch v by (simp_all add: dispatch_job_def wired_facts(1) [OF W(1)] wired_facts(1) [OF W(2)])
      have "alike w s1 (t\<lparr>wb_results := wb_results t @ [(w, j, UnknownWorkload)]\<rparr>)"
        using assms(1) W1 WT [OF st(2)] by (simp add: st(1) alike_def)
      with st(2) show ?thesis by blast
    next
      case (Some q)
      note D = dispatch_job_def Let_def wired_facts(1) [OF W(1)] wired_facts(1) [OF W(2)] Some T(1) C [OF Some]
      let ?ch = "(wb_chans s ! q)\<lparr>chan_buf := chan_buf (wb_chans s ! q) @ [j]\<rparr>"
      have "r = Dispatched \<and> b = s\<lparr>wb_chans := (wb_chans s)[q := ?ch]\<rparr>
            \<and> dispatch_job t w j c = Some (r, t\<lparr>wb_chans := (wb_chans t)[q := ?ch]\<rparr>)
          \<or> b = s \<and> dispatch_job t w j c = Some (r, t)"
        using b(1) by (auto simp: D split: if_splits)
      then show ?thesis
      proof (elim disjE conjE)
        assume r: "r = Dispatched" "b = s\<lparr>wb_chans := (wb_chans s)[q := ?ch]\<rparr>"
          "dispatch_job t w j c = Some (r, t\<lparr>wb_chans := (wb_chans t)[q := ?ch]\<rparr>)"
        let ?t1 = "t\<lparr>wb_chans := (wb_chans t)[q := ?ch], wb_results := wb_results t @ [(w, j, r)]\<rparr>"
        have st: "bulkhead_step t e = Some ?t1" using Dispatch v r(3) by simp
        have "(wb_workers s)[20 := u] = wb_workers s" "(wb_workers t)[20 := u] = wb_workers t" for u
          using wired_facts(3) [OF W(1)] wired_facts(3) [OF W(2)] by (simp_all add: list_update_beyond)
        then have "alike w s1 ?t1"
          by (intro U [OF WT [OF st], of 20 "wb_workers s ! 20" q ?ch "[(w, j, r)]" "[]" "[]"])
            (simp_all add: b(2) r(2))
        with st show ?thesis by blast
      next
        assume r: "b = s" "dispatch_job t w j c = Some (r, t)"
        let ?t1 = "t\<lparr>wb_results := wb_results t @ [(w, j, r)]\<rparr>"
        have st: "bulkhead_step t e = Some ?t1" using Dispatch v r(2) by simp
        have "alike w s1 ?t1" using assms(1) W1 WT [OF st] by (simp add: b(2) r(1) alike_def)
        with st show ?thesis by blast
      qed
    qed
  next
    case (WorkerTake g)
    then have g: "crew w g" using assms(3) by (simp add: concerns_def)
    obtain q where q: "g < length (wb_workers s)" "worker_chan (wb_workers s ! g) = Some q" "queue_ref w = Some q"
      using wired_crew [OF W(1) g] .
    obtain j js where j: "chan_buf (wb_chans s ! q) = j # js" "routine_state (wb_workers s ! g) = BIdle"
      "s1 = (set_routine s g (BRunning j))\<lparr>wb_chans := (wb_chans s)[q := (wb_chans s ! q)\<lparr>chan_buf := js\<rparr>], wb_begun := wb_begun s @ [(g, j)]\<rparr>"
      using assms(2) WorkerTake q by (auto split: if_splits list.splits)
    let ?t1 = "(set_routine t g (BRunning j))\<lparr>wb_chans := (wb_chans t)[q := (wb_chans t ! q)\<lparr>chan_buf := js\<rparr>], wb_begun := wb_begun t @ [(g, j)]\<rparr>"
    have st: "bulkhead_step t e = Some ?t1" using WorkerTake q(1,2) j(1,2) T(2) G [OF g] C [OF q(3)] by simp
    have "alike w s1 ?t1"
      by (rule U [OF WT [OF st], of g "(wb_workers s ! g)\<lparr>routine_state := BRunning j\<rparr>" q "(wb_chans s ! q)\<lparr>chan_buf := js\<rparr>"
            "[]" "[(g, j)]" "[]"]) (simp_all add: j(3) C [OF q(3)], simp_all add: set_routine_def G [OF g])
    with st show ?thesis by blast
  next
    case (WorkerDone g)
    then have g: "crew w g" using assms(3) by (simp add: concerns_def)
    obtain j where j: "g < length (wb_workers s)" "routine_state (wb_workers s ! g) = BRunning j"
      "s1 = (set_routine s g BIdle)\<lparr>wb_finished := wb_finished s @ [(g, j)]\<rparr>"
      using assms(2) WorkerDone by (auto split: if_splits routine.splits)
    let ?t1 = "(set_routine t g BIdle)\<lparr>wb_finished := wb_finished t @ [(g, j)]\<rparr>"
    have st: "bulkhead_step t e = Some ?t1" using WorkerDone j(1,2) T(2) G [OF g] by simp
    have "alike w s1 ?t1"
      by (rule U [OF WT [OF st], of g "(wb_workers s ! g)\<lparr>routine_state := BIdle\<rparr>" 3 undefined "[]" "[]" "[(g, j)]"])
        (simp_all add: j(3) wired_facts(2) [OF W(1)] wired_facts(2) [OF W(2)] list_update_beyond, simp_all add: set_routine_def G [OF g])
    with st show ?thesis by blast
  next
    case (WorkerReturn g)
    then have g: "crew w g" using assms(3) by (simp add: concerns_def)
    have s1: "s1 = set_routine s g BReturned" and st: "bulkhead_step t e = Some (set_routine t g BReturned)"
      using assms(2) WorkerReturn T G [OF g] by (auto split: if_splits)
    have "alike w s1 (set_routine t g BReturned)"
      by (rule U [OF WT [OF st], of g "(wb_workers s ! g)\<lparr>routine_state := BReturned\<rparr>" 3 undefined "[]" "[]" "[]"])
        (simp_all add: s1 wired_facts(2) [OF W(1)] wired_facts(2) [OF W(2)] list_update_beyond, simp_all add: set_routine_def G [OF g])
    with st show ?thesis by blast
  next
    case BulkheadCancel
    with assms(1,2) W1 WT show ?thesis by (auto simp: alike_def)
  next
    case StopReturns
    with assms(3) show ?thesis by (simp add: concerns_def)
  qed
qed

lemma run_projection:
  assumes "alike w s t" and "run_events bulkhead_step s es = Some s1"
  shows "\<exists>t1. run_events bulkhead_step t (filter (concerns w) es) = Some t1 \<and> alike w s1 t1"
  using assms
proof (induction es arbitrary: s t)
  case Nil
  then show ?case by auto
next
  case (Cons e es)
  then obtain s2 where s2: "bulkhead_step s e = Some s2" "run_events bulkhead_step s2 es = Some s1"
    by (auto split: option.splits)
  show ?case
  proof (cases "concerns w e")
    case True
    from step_concerned [OF Cons.prems(1) s2(1) True] obtain t2 where
      "bulkhead_step t e = Some t2" "alike w s2 t2" by blast
    with Cons.IH s2(2) True show ?thesis by auto
  next
    case False
    from step_unconcerned [OF Cons.prems(1) s2(1) False] Cons.IH s2(2) False show ?thesis by auto
  qed
qed


section \<open>What the workers do\<close>

text \<open>The jobs accepted for a workload are those its workers have begun, in order, and those in its queue.\<close>

definition waiting :: "workload_type \<Rightarrow> 'j multi_bulkhead \<Rightarrow> 'j list" where
  "waiting w s = (case queue_ref w of None \<Rightarrow> [] | Some q \<Rightarrow> chan_buf (wb_chans s ! q))"

lemma waiting_cong: "wb_chans t = wb_chans s \<Longrightarrow> waiting w t = waiting w s"
  by (simp add: waiting_def split: option.split)

definition queue_kept :: "'j multi_bulkhead \<Rightarrow> bool" where
  "queue_kept s \<longleftrightarrow> (\<forall>w. accepted w s = begun w s @ waiting w s)"

lemma begun_append: "begun w (s\<lparr>wb_begun := wb_begun s @ [(g, j)]\<rparr>) = begun w s @ (if crew w g then [j] else [])"
  by (simp add: begun_def)

lemma queue_kept_dispatch:
  assumes "wired s" and "queue_kept s" and "dispatch_job s v j c = Some (r, b)"
  shows "queue_kept (b\<lparr>wb_results := wb_results b @ [(v, j, r)]\<rparr>)"
  unfolding queue_kept_def
proof
  fix w
  let ?t = "b\<lparr>wb_results := wb_results b @ [(v, j, r)]\<rparr>"
  have same: "wb_results b = wb_results s" "wb_begun b = wb_begun s"
    using assms(3) by (auto simp: dispatch_job_def Let_def split: option.splits if_splits)
  have acc: "accepted w ?t = accepted w s @ (if v = w \<and> r = Dispatched then [j] else [])"
    by (simp add: accepted_def same)
  have beg: "begun w ?t = begun w s" by (simp add: begun_def same)
  have K: "accepted w s = begun w s @ waiting w s"
    using assms(2) by (simp add: queue_kept_def)
  have buf: "waiting w ?t = waiting w s @ (if v = w \<and> r = Dispatched then [j] else [])"
  proof (cases "queue_ref w")
    case None
    then show ?thesis using assms(3) by (auto simp: waiting_def dispatch_job_def wired_facts(1) [OF assms(1)])
  next
    case (Some q)
    have "p \<noteq> q" if "queue_ref v = Some p" "v \<noteq> w" for p using that Some queue_ref_inj [of v p w] by auto
    then show ?thesis using assms(3) Some wired_cap(2) [OF assms(1) Some]
      by (auto simp: waiting_def dispatch_job_def Let_def wired_facts(1) [OF assms(1)] split: option.splits if_splits)
  qed
  show "accepted w ?t = begun w ?t @ waiting w ?t"
    unfolding acc beg K buf by simp
qed

lemma queue_kept_take:
  assumes "wired s" and "queue_kept s" and "g < length (wb_workers s)" "worker_chan (wb_workers s ! g) = Some p"
    and "chan_buf (wb_chans s ! p) = j # js"
  shows "queue_kept ((set_routine s g r)\<lparr>wb_chans := (wb_chans s)[p := (wb_chans s ! p)\<lparr>chan_buf := js\<rparr>], wb_begun := wb_begun s @ [(g, j)]\<rparr>)"
    (is "queue_kept ?t")
  unfolding queue_kept_def
proof
  fix w
  have g: "g < 20" using assms(3) by (simp add: wired_facts(3) [OF assms(1)])
  obtain v where v: "queue_ref v = Some p" "crew w g \<longleftrightarrow> w = v"
    using wired_worker [OF assms(1) g] assms(4) by (metis option.inject)
  have K: "accepted w s = begun w s @ waiting w s"
    using assms(2) by (simp add: queue_kept_def)
  have acc: "accepted w ?t = accepted w s" and beg: "begun w ?t = begun w s @ (if w = v then [j] else [])"
    by (simp_all add: accepted_def begun_def v(2))
  show "accepted w ?t = begun w ?t @ waiting w ?t"
  proof (cases "w = v")
    case True
    with v K show ?thesis unfolding acc beg using wired_cap(2) [OF assms(1) v(1)] by (simp add: waiting_def assms(5))
  next
    case False
    then have "p \<noteq> q" if "queue_ref w = Some q" for q using that v(1) queue_ref_inj [of v q w] by auto
    with False K show ?thesis unfolding acc beg by (auto simp: waiting_def split: option.splits)
  qed
qed

lemma queue_kept_step:
  assumes "wired s" and "queue_kept s" and "bulkhead_step s e = Some t"
  shows "queue_kept t"
proof (cases e)
  case (Dispatch v j c)
  with assms(3) queue_kept_dispatch [OF assms(1,2)] show ?thesis by auto
next
  case (WorkerTake g)
  with assms(3) queue_kept_take [OF assms(1,2)] show ?thesis by (auto split: if_splits option.splits list.splits)
qed (use assms(2,3) waiting_cong [of t s] in
    \<open>auto simp: queue_kept_def accepted_def begun_def split: if_splits routine.splits\<close>)

text \<open>A worker is gone only after a cancellation.\<close>

definition workers_stay :: "'j multi_bulkhead \<Rightarrow> bool" where
  "workers_stay s \<longleftrightarrow> wb_cancelled s \<or> (\<forall>v \<in> set (wb_workers s). routine_state v \<noteq> BReturned)"

lemma workers_stay_step:
  assumes "workers_stay s" and "bulkhead_step s e = Some t"
  shows "workers_stay t"
proof -
  have set: "routine_state v \<noteq> BReturned" if "v \<in> set (wb_workers (set_routine s g r))" "r \<noteq> BReturned" "\<not> wb_cancelled s" for v g r
    using assms(1) that set_update_subset_insert [of "wb_workers s" g "(wb_workers s ! g)\<lparr>routine_state := r\<rparr>"]
    by (auto simp: workers_stay_def set_routine_def)
  show ?thesis
  proof (cases e)
    case (Dispatch v j c)
    with assms show ?thesis
      by (auto simp: workers_stay_def dispatch_job_def Let_def split: option.splits if_splits)
  next
    case (WorkerTake g)
    with assms set [of _ g] show ?thesis
      by (auto simp: workers_stay_def split: if_splits option.splits list.splits)
  next
    case (WorkerDone g)
    with assms set [of _ g] show ?thesis by (auto simp: workers_stay_def split: if_splits routine.splits)
  qed (use assms in \<open>auto simp: workers_stay_def split: if_splits\<close>)
qed

lemma bulkhead_run:
  assumes "run_events bulkhead_step new_multi_bulkhead es = Some s"
  shows "wired s" "queue_kept s" "workers_stay s"
proof -
  have "queue_kept (new_multi_bulkhead :: 'a multi_bulkhead)"
    by (auto simp: queue_kept_def accepted_def begun_def waiting_def queue_ref_def new_multi_bulkhead_def
        spawn_workers_def make_queue_def numeral_2_eq_2)
  moreover have "workers_stay (new_multi_bulkhead :: 'a multi_bulkhead)"
    by (auto simp: workers_stay_def new_multi_bulkhead_def spawn_workers_def make_queue_def)
  ultimately have "wired s \<and> queue_kept s \<and> workers_stay s"
    by (intro run_events_inv [OF assms, where I = "\<lambda>s. wired s \<and> queue_kept s \<and> workers_stay s"])
      (auto intro: wired_new wired_step queue_kept_step workers_stay_step)
  then show "wired s" "queue_kept s" "workers_stay s" by simp_all
qed

lemma card_crew: "card {g. crew w g} = worker_count w"
proof -
  have "{g. crew w g} = (if w = WorkloadPayment then {..<10} else if w = WorkloadEmail then {10..<15}
      else if w = WorkloadKYC then {15..<20} else {})"
    by (auto simp: crew_def workload_types)
  then show ?thesis by simp
qed

text \<open>An idle worker takes the oldest job of its workload, and unless all of them are busy there is one.\<close>

lemma idle_worker_takes:
  assumes "wired s" "queue_kept s" "workers_stay s" and "\<not> wb_cancelled s"
    and "length (begun w s) < length (accepted w s)" and "card (busy w s) < worker_count w"
  shows "\<exists>g t. bulkhead_step s (WorkerTake g) = Some t \<and> begun w t = begun w s @ [accepted w s ! length (begun w s)]"
proof -
  have "{g. crew w g} \<noteq> busy w s" using assms(6) by (metis card_crew less_irrefl)
  then obtain g where g: "crew w g" "\<And>j. routine_state (wb_workers s ! g) \<noteq> BRunning j" by (auto simp: busy_def)
  obtain q where q: "g < length (wb_workers s)" "worker_chan (wb_workers s ! g) = Some q" "queue_ref w = Some q"
    using wired_crew [OF assms(1) g(1)] .
  have "routine_state (wb_workers s ! g) \<noteq> BReturned"
    using assms(3,4) q(1) by (simp add: workers_stay_def)
  with g(2) have idle: "routine_state (wb_workers s ! g) = BIdle" by (cases "routine_state (wb_workers s ! g)") auto
  have acc: "accepted w s = begun w s @ chan_buf (wb_chans s ! q)" using assms(2) q(3) by (simp add: queue_kept_def waiting_def)
  with assms(5) obtain j js where j: "chan_buf (wb_chans s ! q) = j # js" by (cases "chan_buf (wb_chans s ! q)") auto
  obtain t where t: "bulkhead_step s (WorkerTake g) = Some t" "wb_begun t = wb_begun s @ [(g, j)]"
    using q idle j by simp
  have "begun w t = begun w s @ [j]" using g(1) by (simp add: begun_def t(2))
  moreover have "accepted w s ! length (begun w s) = j" by (simp add: acc j)
  ultimately show ?thesis using t(1) by metis
qed

text \<open>C25: workloads are isolated and each has what it was promised. In any run (1) all a workload can see, its queue, its
  workers, the answers its callers got and the jobs its workers began and finished, is the same as in the run in which all events of
  the other workloads are left out: a flood of one can neither fill the queue of another, nor occupy its workers, nor
  make its dispatches fail; (2) a workload's jobs are begun in the order in which they were accepted; (3) until the context is cancelled a
  dispatch is accepted exactly if fewer of its accepted jobs wait than its queue holds (50 for payments, 20 for
  e-mail and for KYC); and (4) a waiting job can be begun at once, the oldest first, unless all the
  workers of the workload (10, 5 and 5) are busy.\<close>

theorem workloads_isolated:
  assumes "run_events bulkhead_step new_multi_bulkhead es = Some s"
  shows "(\<exists>t. run_events bulkhead_step new_multi_bulkhead (filter (concerns w) es) = Some t \<and> workload_view w t = workload_view w s)
    \<and> take (length (begun w s)) (accepted w s) = begun w s
    \<and> (\<not> wb_cancelled s \<longrightarrow> map_option fst (dispatch_job s w j False)
         = Some (case queue_capacity w of
                   None \<Rightarrow> UnknownWorkload
                 | Some c \<Rightarrow> if length (accepted w s) < length (begun w s) + c then Dispatched else WorkloadQueueFull))
    \<and> (\<not> wb_cancelled s \<longrightarrow> length (begun w s) < length (accepted w s) \<longrightarrow> card (busy w s) < worker_count w \<longrightarrow>
         (\<exists>g t. bulkhead_step s (WorkerTake g) = Some t \<and> begun w t = begun w s @ [accepted w s ! length (begun w s)]))"
proof -
  note I = bulkhead_run [OF assms]
  have "alike w (new_multi_bulkhead :: 'a multi_bulkhead) new_multi_bulkhead" by (simp add: alike_def wired_new)
  from run_projection [OF this assms] obtain t where
    "run_events bulkhead_step new_multi_bulkhead (filter (concerns w) es) = Some t" "alike w s t" by blast
  then have view: "\<exists>t. run_events bulkhead_step new_multi_bulkhead (filter (concerns w) es) = Some t
      \<and> workload_view w t = workload_view w s" by (metis alike_view)
  have K: "accepted w s = begun w s @ waiting w s"
    using I(2) by (simp only: queue_kept_def)
  then have order: "take (length (begun w s)) (accepted w s) = begun w s" by simp
  have "map_option fst (dispatch_job s w j False)
      = Some (case queue_capacity w of
                None \<Rightarrow> UnknownWorkload
              | Some c \<Rightarrow> if length (accepted w s) < length (begun w s) + c then Dispatched else WorkloadQueueFull)"
    if "\<not> wb_cancelled s"
  proof (cases "queue_ref w")
    case None
    then have "queue_capacity w = None" by (simp only: queue_ref_None)
    with None show ?thesis by (simp add: dispatch_job_def wired_facts(1) [OF I(1)] del: queue_capacity.simps)
  next
    case (Some q)
    with that K wired_cap(1) [OF I(1) Some] show ?thesis
      by (simp add: dispatch_job_def Let_def wired_facts(1) [OF I(1)] waiting_def del: queue_capacity.simps)
  qed
  with view order idle_worker_takes [OF I] show ?thesis by blast
qed

theorem workloads_isolated_witness:
  "\<exists>s. run_events bulkhead_step new_multi_bulkhead
       [Dispatch WorkloadEmail (1::nat) False, Dispatch WorkloadPayment 2 False, WorkerTake 12, Dispatch WorkloadPayment 3 False,
        WorkerTake 4, WorkerDone 12] = Some s
     \<and> begun WorkloadPayment s = [2] \<and> accepted WorkloadPayment s = [2, 3]
     \<and> map_option fst (dispatch_job s WorkloadPayment 4 False) = Some Dispatched
     \<and> (\<exists>t. run_events bulkhead_step new_multi_bulkhead
            [Dispatch WorkloadPayment 2 False, Dispatch WorkloadPayment 3 False, WorkerTake 4] = Some t
          \<and> workload_view WorkloadPayment t = workload_view WorkloadPayment s)"
proof -
  let ?es = "[Dispatch WorkloadEmail (1::nat) False, Dispatch WorkloadPayment 2 False, WorkerTake 12,
    Dispatch WorkloadPayment 3 False, WorkerTake 4, WorkerDone 12]"
  obtain s where s: "run_events bulkhead_step new_multi_bulkhead ?es = Some s" "wb_begun s = [(12, 1), (4, 2)]"
    "wb_results s = [(WorkloadEmail, 1, Dispatched), (WorkloadPayment, 2, Dispatched), (WorkloadPayment, 3, Dispatched)]"
    "\<not> wb_cancelled s"
    by (simp add: new_multi_bulkhead_def spawn_workers_def make_queue_def dispatch_job_def set_routine_def workload_types
        numeral_eq_Suc Let_def)
  moreover have "filter (concerns WorkloadPayment) ?es
      = [Dispatch WorkloadPayment 2 False, Dispatch WorkloadPayment 3 False, WorkerTake 4]"
    by (simp add: concerns_def crew_def workload_types)
  moreover have "begun WorkloadPayment s = [2]" "accepted WorkloadPayment s = [2, 3]"
    using s by (simp_all add: begun_def accepted_def crew_def workload_types)
  ultimately show ?thesis using workloads_isolated [OF s(1), of WorkloadPayment 4] by simp
qed

text \<open>\<open>Stop\<close> may leave accepted jobs behind: after cancellation all workers may return although jobs are queued.\<close>

lemma stop_may_drop_jobs:
  "\<exists>s. run_events bulkhead_step new_multi_bulkhead
       (Dispatch WorkloadKYC j False # BulkheadCancel # map WorkerReturn [0 ..< 20] @ [StopReturns]) = Some s
     \<and> accepted WorkloadKYC s = [j] \<and> begun WorkloadKYC s = []"
  by (simp add: new_multi_bulkhead_def spawn_workers_def make_queue_def dispatch_job_def set_routine_def workload_types
      numeral_eq_Suc upt_rec Let_def accepted_def begun_def)

end
