(* ===== verification/Spec2Isabelle.thy ===== *)
theory Spec2Isabelle
  imports
    Access_Control
    Api_Requests
    Backpressure_Queue
    Batch_Loader
    Bounded_LRU
    Bulkheads
    Cache_Aside
    Cache_Contract
    Cache_Races
    Circuit_Breaker
    Config_Snapshots
    Configuration
    Connection_Pool
    Consumer_Pool
    Context_Scopes
    Data_Access
    Dead_Letters
    Deployment_Gates
    Document_Store
    Error_Taxonomy
    Fan_Pipeline
    Flight_Caches
    Float64
    Go_Prelude
    Go_Strings
    Health_Probes
    Histogram
    Http_Middleware
    Http_Policies
    Idempotency
    Input_Checks
    Inventory_Store
    Jitter
    Job_Scheduling
    Keyed_Mutex
    Keyset_Pagination
    Leases
    Ledger
    Lifecycle
    Load_Shedding
    Once_Guard
    Ordered_Delivery
    Outbox
    Password_Hashing
    Payment_Domain
    Payment_Pipeline
    Process_Resources
    Process_Signals
    Product_Repository
    Reconciliation
    Retry
    Safe_Paths
    Saga
    Server_Edge
    Service_Layers
    Signed_Tokens
    Singleflight
    Slot_Contract
    Stale_Flights
    Stampede
    Store_Contract
    Tagged_Cache
    Task_Groups
    Telemetry
    Token_Buckets
    Unit_Of_Work
    Weighted_Semaphore
    Worker_Groups
    Workload_Isolation
begin

text \<open>
  A verification library for the Go repository of backend design patterns: 26 packages under \<open>src/patterns\<close>, each a
  handful of files that implement one pattern each (repositories, caches, queues, limiters, circuit breakers, middlewares,
  sagas, leases, tokens, ...), together with their composition where the code composes them.

  Every implementation file is modelled. A struct is a record, an enumeration a datatype (or the code's string, where any
  string may be supplied), a method a function on explicit states that returns the new state, a returned \<open>error\<close> a value of a
  sum or option type, and a panic an outcome of its own. The theories follow the order of the code: state, constructor,
  operations, invariant, functional behaviour on every branch, and then the properties.


  \<^bold>\<open>Conventions\<close> (theory \<open>Go_Prelude\<close>)

  \<^item> \<open>int\<close>, \<open>int64\<close> and \<open>time.Duration\<close> are HOL integers in the range \<open>in64\<close>; \<open>i64\<close> wraps wherever the code's
    arithmetic can leave it and is proved to be the two's complement reading of a 64-bit word. Bytes, hashes and bit
    operations use \<open>word\<close>.
  \<^item> \<open>float64\<close> is the type \<open>f64\<close> of \<open>Float64\<close>: IEEE double precision with rounding to nearest, ties to even. The language
    lets a compiler fuse \<open>x * y + z\<close>, so the operations that contain this shape take \<open>fused\<close>; the conversion of a value out
    of range to an integer is unspecified, so it takes the answer \<open>wild\<close>; a draw of \<open>rand.Float64\<close> is an argument \<open>u\<close> with
    \<open>0 \<le> u < 1\<close>. What is proved holds for each of these.
  \<^item> A reading of the clock (\<open>gotime\<close>, in nanoseconds), a random number or token, an answer of a remote service, the outcome
    of a \<open>select\<close> with several ready cases, and whether a context is done are arguments, one per place where the code
    observes them. The order in which a map is visited is an argument too, constrained by \<open>iter_order\<close>.
  \<^item> An operation that is one critical section is one function; a history is a fold over the calls. An operation with several
    critical sections, or one that blocks, is split into its steps. The steps of all goroutines are interleaved, either by a
    partial step function over events (\<open>run_events\<close>, disabled events are \<open>None\<close>) or by an inductive relation with \<open>reach\<close>;
    the properties hold in every interleaving.
  \<^item> Where the code shares mutable objects through pointers and this matters (documents, list elements, connections, calls in
    flight, channels, slices and maps of a configuration) the model has a heap.
  \<^item> The Unicode tables, the hash and HMAC functions, JSON, URL, media type and duration parsing, and the functions a client passes
    are parameters. Only what a theorem names as a hypothesis is assumed of them; each such theorem has a witness in which
    the parameter is a concrete function. What the code uses of \<open>fmt\<close>, \<open>strconv\<close>, \<open>strings\<close>, \<open>encoding/base64\<close>,
    \<open>encoding/hex\<close>, \<open>path/filepath\<close>, \<open>sort\<close> and \<open>container/list\<close> is modelled itself (\<open>Go_Strings\<close>, \<open>Safe_Paths\<close>,
    \<open>Histogram\<close>, \<open>Lifecycle\<close>, \<open>Bounded_LRU\<close>).


  \<^bold>\<open>Contracts\<close>

  Where several components share an interface it is a locale, the clients' facts are proved once inside it, and it is
  interpreted on the code's models.

  \<^item> \<open>keyed_store\<close>, \<open>deletable_store\<close> (\<open>Store_Contract\<close>): a store is a finite map; histories refine histories on maps. Interpreted on
    the product repository, the document store and the fake account repository; \<open>recon_store\<close> extends it by the reading of all
    records, on the reconciliation store.
  \<^item> \<open>cache_contract\<close>: a cached value was set last and has not expired. Interpreted on \<open>MemoryCache\<close>, used by the cache-aside
    service, the negative cache and the two singleflight caches.
  \<^item> \<open>slots\<close>: a bounded number of slots; used by the three bulkheads, whose goroutines take a token and give it back.
  \<^item> \<open>once_guard\<close>: a keyed operation is done once; on the idempotency store and on the inbox.
  \<^item> \<open>lease_service\<close>: a lease excludes others until it runs out; on the distributed lock and on the leader election.
  \<^item> \<open>token_account\<close>: the number of grants is bounded by the account's worth and its gifts; on the rate limiter, the limiter per
    client and the retry budget.
  \<^item> \<open>inv_system\<close>: an inductive invariant of a step relation; on the keyed mutex.


  \<^bold>\<open>Theories by package\<close>

  \<^item> \<open>01_lifecycle\<close>: \<open>Lifecycle\<close> (startup validation, the shutdown manager: hooks in the order of a stable sort, once, whatever
    fails), \<open>Health_Probes\<close>, \<open>Process_Signals\<close> (signal controller; the composition root, which runs the shutdown manager).
  \<^item> \<open>02_config\<close>: \<open>Configuration\<close> (loading, defaults, validation), \<open>Config_Snapshots\<close> (immutable configuration and functional
    options against clients that write through every reference they know), \<open>Tagged_Cache\<close> (secret redaction).
  \<^item> \<open>03_di\<close>, \<open>25_codeorganization\<close>, \<open>20_reliability/graceful_degradation\<close>: \<open>Service_Layers\<close>. \<open>05_context\<close>: \<open>Context_Scopes\<close>.
    \<open>06_errors\<close>: \<open>Error_Taxonomy\<close> (\<open>errors.Is\<close> and \<open>errors.As\<close> on trees of wrapped errors, the mapping to HTTP).
  \<^item> \<open>04_persistence\<close>: \<open>Product_Repository\<close>, \<open>Document_Store\<close>, \<open>Inventory_Store\<close>, \<open>Unit_Of_Work\<close> (transactions as trees of calls,
    refining their direct execution), \<open>Keyset_Pagination\<close>, \<open>Connection_Pool\<close>.
  \<^item> \<open>07_httpserver\<close>, \<open>11_middleware\<close>: \<open>Http_Middleware\<close> (what a client sees of a handler; chain, access log, panic recovery),
    \<open>Http_Policies\<close> (CORS, security headers, ids, content types, time-out, metrics), \<open>Server_Edge\<close> (server settings, strict
    decoding, body limit), \<open>Token_Buckets\<close> (limit per client address).
  \<^item> \<open>08_httpclient\<close>: \<open>Circuit_Breaker\<close>, \<open>Bulkheads\<close> (with \<open>20_reliability\<close>), \<open>Retry\<close> (with the deadlock retry of \<open>13_database\<close>),
    \<open>Jitter\<close>, \<open>Token_Buckets\<close> (retry budget), \<open>Input_Checks\<close> (response handler), \<open>Server_Edge\<close> (client settings).
  \<^item> \<open>09_concurrency\<close>: \<open>Worker_Groups\<close> (bounded pool), \<open>Fan_Pipeline\<close>, \<open>Task_Groups\<close> (error group, channel ownership, counters),
    \<open>Singleflight\<close>, \<open>Weighted_Semaphore\<close>, \<open>Backpressure_Queue\<close>, \<open>Token_Buckets\<close> (rate limiter).
  \<^item> \<open>10_apidesign\<close>: \<open>Api_Requests\<close>, \<open>Idempotency\<close>. \<open>12_auth\<close>: \<open>Access_Control\<close>, \<open>Signed_Tokens\<close>.
  \<^item> \<open>13_database\<close>: \<open>Data_Access\<close> (checkout, expand and contract, read and write routing), \<open>Batch_Loader\<close>, \<open>Retry\<close>.
  \<^item> \<open>14_caching\<close>: \<open>Cache_Contract\<close>, \<open>Cache_Aside\<close>, \<open>Flight_Caches\<close>, \<open>Tagged_Cache\<close>, \<open>Bounded_LRU\<close>, \<open>Jitter\<close> (jittered time to live).
    The clients of the cache with overlapping calls, step by step: \<open>Cache_Races\<close> (cache-aside), \<open>Stampede\<close> (on the steps of the
    singleflight group) and \<open>Stale_Flights\<close> (\<open>26_advanced/singleflight_cache\<close>).
  \<^item> \<open>15_messaging\<close>: \<open>Outbox\<close>, \<open>Idempotency\<close> (inbox, idempotent consumer), \<open>Dead_Letters\<close>, \<open>Ordered_Delivery\<close>, \<open>Consumer_Pool\<close>.
  \<^item> \<open>16_distributed\<close>: \<open>Leases\<close>, \<open>Saga\<close>, \<open>Reconciliation\<close>, \<open>Load_Shedding\<close>. \<open>17_observability\<close>: \<open>Telemetry\<close>, \<open>Histogram\<close>.
  \<^item> \<open>18_testing\<close>: \<open>Ledger\<close>, \<open>Jitter\<close> (failure injection), \<open>Input_Checks\<close> (table-tested validation). \<open>19_security\<close>: \<open>Input_Checks\<close>,
    \<open>Safe_Paths\<close>, \<open>Password_Hashing\<close> (with query building), \<open>Signed_Tokens\<close> (CSRF).
  \<^item> \<open>21_deployment\<close>, \<open>24_backgroundjobs\<close>: \<open>Deployment_Gates\<close>, \<open>Job_Scheduling\<close>. \<open>22_resourcemanagement\<close>: \<open>Process_Resources\<close>.
    \<open>23_dataintegrity\<close>: \<open>Payment_Domain\<close>, \<open>Keyed_Mutex\<close>.
  \<^item> \<open>26_advanced\<close>: \<open>Payment_Pipeline\<close> (on the payment state machine), \<open>Outbox\<close> and \<open>Server_Edge\<close> (publisher and its polling loop),
    \<open>Workload_Isolation\<close>, \<open>Load_Shedding\<close>, \<open>Jitter\<close>, \<open>Flight_Caches\<close>.


  \<^bold>\<open>What is shown\<close>

  \<^item> Refinement and equivalence: transactions refine their direct execution; the document store and the repositories refine finite
    maps; the LRU cache, with its map and its linked list, refines a list of keys by recency; a breaker opens exactly on
    consecutive failures; hooks run in the order of the stable sort; a workload behaves as if the others did not exist.
  \<^item> Safety in every interleaving: one answered charge per payment key, one execution in flight per key, no second fetch while a
    cached value is good, one owner per connection, lock and lease, first-in first-out order per message key, no path outside
    its base directory, no token accepted without its HMAC.
  \<^item> Bounds: the staleness of a cache-aside hit, grants of the token buckets up to explicit rounding terms, requests
    admitted by the shedder, delays with jitter.
  \<^item> Termination and liveness: the walk through all pages, the fan pipeline and the worker pool end within a bound on the number of
    steps and deliver every result; the shutdown that closed a consumer's queue returns nil only when every task has run;
    \<open>Wait\<close> returns once a token is earned.
  \<^item> Error behaviour: compensation in reverse order, the outcomes of a checkout, the log entry and answer for a panic.
  \<^item> Failures of intent, each as a counterexample lemma next to its component: for instance an inner reader that overwrites a
    wallet (\<open>Unit_Of_Work\<close>), a semaphore that leaks permits, a back-off that wraps around, a singleflight key that is never freed
    after a panic, a second charge after a lost answer of the gateway, a second \<open>Shutdown\<close> that returns too early, a
    connection shared after a stale \<open>Close\<close>, a limiter with a rate below one that never grants.


  \<^bold>\<open>Bounds, fuel and termination\<close>

  All operations are total. Loops that are not structural carry a measure: the remaining attempts (\<open>Retry\<close>), the queue length
  (\<open>Backpressure_Queue\<close>), the waiters (\<open>Weighted_Semaphore\<close>), the remaining items (\<open>Keyset_Pagination\<close>), the remaining text
  (\<open>Go_Strings\<close>), the remaining numbers (\<open>Task_Groups\<close>). Only \<open>walk\<close> (\<open>Keyset_Pagination\<close>), which is the client's loop over all
  pages, has fuel, and any fuel above the number of items is proved to be enough. Loops that wait on other goroutines or
  on the clock are driven by the list of what they observe, so a run is as long as that list.


  \<^bold>\<open>Not modelled\<close>

  \<^item> The libraries themselves: \<open>net/http\<close> below the response writer, TLS, the JSON encoder, cryptography,
    the regular expression engine (the expressions in use are written as predicates).
  \<^item> The Go memory model and the fairness of the scheduler: an interleaving may starve a goroutine, so liveness is stated for
    runs in which no step is enabled any more or as a bound on the number of steps.
  \<^item> Accessors that only return a field, constructors that only store their arguments, interface declarations,
    context key types, and the test files.
\<close>

end
